(* ===== verification/Mios_Prelude.thy ===== *)
theory Mios_Prelude
  imports Main "HOL-Library.Word" "HOL-Library.Monad_Syntax" "HOL-Library.Multiset"
begin

text \<open>
  Shared vocabulary of the development: names for the machine types of the C code,
  little-endian byte encodings, checked reads and writes of byte buffers, and the
  ordered insertion macro \<^verbatim>\<open>LIST_INSERT_SORTED\<close> of \<^verbatim>\<open>include/sys/queue.h\<close> that
  the timer queue, the wait lists and the list of heaps all use.

  Conventions used by every component theory:
  \<^item> an object of \<open>n\<close> bytes is a list of \<open>n\<close> bytes; a read or write outside it yields
    \<^const>\<open>None\<close> (so do a failing \<^verbatim>\<open>assert\<close> and a \<^verbatim>\<open>panic\<close>), which makes memory safety a
    statement of the form \<open>f x = Some y\<close>;
  \<^item> integers whose wrap-around matters are words of the C width, other counts and
    offsets are natural numbers;
  \<^item> a list linked through the macros of \<^verbatim>\<open>sys/queue.h\<close> is a list of its elements.
\<close>

unbundle bit_operations_syntax

type_synonym u8 = "8 word"
type_synonym u16 = "16 word"
type_synonym u32 = "32 word"
type_synonym u64 = "64 word"
type_synonym bytes = "u8 list"

named_theorems byte_simps \<open>rewriting of byte buffers and byte encodings\<close>
named_theorems queue_simps \<open>membership and multiset facts of queue operations\<close>

section \<open>Error codes and address masks\<close>

text \<open>\<^verbatim>\<open>include/mios/error.h\<close> and \<^verbatim>\<open>src/net/net.h\<close>.\<close>

definition ERR_NO_BUFFER :: int where "ERR_NO_BUFFER = -7"
definition ERR_BAD_STATE :: int where "ERR_BAD_STATE = -13"
definition ERR_NOT_FOUND :: int where "ERR_NOT_FOUND = -17"
definition ERR_CHECKSUM_ERROR :: int where "ERR_CHECKSUM_ERROR = -18"
definition ERR_MALFORMED :: int where "ERR_MALFORMED = -19"
definition ERR_NO_MEMORY :: int where "ERR_NO_MEMORY = -29"
definition ERR_EXIST :: int where "ERR_EXIST = -35"
definition ERR_NOT_CONNECTED :: int where "ERR_NOT_CONNECTED = -33"
definition ERR_NO_ROUTE :: int where "ERR_NO_ROUTE = -50"

text \<open>A prefix of length 0 shifts an \<^verbatim>\<open>int\<close> by its width, which C leaves open; here the mask is then 0.\<close>

definition mask_from_prefixlen :: "nat \<Rightarrow> u32" where
  "mask_from_prefixlen prefixlen = NOT (push_bit (32 - prefixlen) 1 - 1)"

section \<open>Checked buffer access\<close>

definition buf_rd :: "'a list \<Rightarrow> nat \<Rightarrow> 'a option" where
  "buf_rd b i = (if i < length b then Some (b ! i) else None)"

definition buf_wr :: "'a list \<Rightarrow> nat \<Rightarrow> 'a \<Rightarrow> 'a list option" where
  "buf_wr b i x = (if i < length b then Some (b[i := x]) else None)"

text \<open>\<^verbatim>\<open>memcpy(b + off, src, n)\<close> and reading \<open>n\<close> bytes at an offset.\<close>

definition buf_copy :: "'a list \<Rightarrow> nat \<Rightarrow> 'a list \<Rightarrow> 'a list option" where
  "buf_copy b off src =
     (if off + length src \<le> length b
      then Some (take off b @ src @ drop (off + length src) b) else None)"

definition buf_slice :: "'a list \<Rightarrow> nat \<Rightarrow> nat \<Rightarrow> 'a list option" where
  "buf_slice b off n = (if off + n \<le> length b then Some (take n (drop off b)) else None)"

lemma buf_wr_length: "buf_wr b i x = Some b' \<Longrightarrow> length b' = length b"
  by (auto simp: buf_wr_def split: if_splits)

lemma buf_copy_length: "buf_copy b off src = Some b' \<Longrightarrow> length b' = length b"
  by (auto simp: buf_copy_def split: if_splits)

lemma buf_slice_length: "buf_slice b off n = Some s \<Longrightarrow> length s = n"
  by (auto simp: buf_slice_def split: if_splits)

lemma buf_slice_copy:
  "buf_copy b off src = Some b' \<Longrightarrow> buf_slice b' off (length src) = Some src"
  by (auto simp: buf_copy_def buf_slice_def split: if_splits)

lemma take_Suc_wr:
  "i < length b \<Longrightarrow> take (Suc i) (b[i := x]) = take i b @ [x]"
  by (simp add: take_Suc_conv_app_nth)

section \<open>Words\<close>

lemma bit_0xFF [simp]: "bit (0xFF :: int) n \<longleftrightarrow> n < 8"
proof -
  have "(0xFF :: int) = mask 8" by (simp add: mask_eq_exp_minus_1)
  then show ?thesis by (simp only: bit_mask_iff) auto
qed

lemma unat_u8_less [simp]: "unat (b :: u8) < 256"
  using unsigned_less [of b] by simp

lemma xor_left_cancel: "(x :: 'a::len word) XOR y = x XOR z \<longleftrightarrow> y = z"
proof
  assume "x XOR y = x XOR z"
  then have "x XOR (x XOR y) = x XOR (x XOR z)" by simp
  then show "y = z" by (simp flip: xor.assoc)
qed simp

lemma xor_right_cancel: "(y :: 'a::len word) XOR x = z XOR x \<longleftrightarrow> y = z"
  using xor_left_cancel [of x y z] by (simp add: xor.commute)

lemma not_cancel: "NOT (x :: 'a::len word) = NOT y \<longleftrightarrow> x = y"
  by (metis bit.double_compl)

lemma ucast_u8_inject:
  assumes "8 \<le> LENGTH('a::len)"
  shows "(ucast (b :: u8) :: 'a word) = ucast c \<longleftrightarrow> b = c"
proof
  assume e: "(ucast b :: 'a word) = ucast c"
  show "b = c"
  proof (rule bit_eqI)
    fix n assume "possible_bit TYPE(u8) n"
    then show "bit b n = bit c n"
      using arg_cong [OF e, of "\<lambda>w. bit w n"] assms by (simp add: bit_simps)
  qed
qed simp

lemma bit_times_2: "bit (x * 2 :: 'a::len word) n \<longleftrightarrow> 0 < n \<and> n < LENGTH('a) \<and> bit x (n - 1)"
  by (auto simp: mult.commute [of x] bit_double_iff)

lemma sint_of_int: "- (2 ^ 31) \<le> x \<Longrightarrow> x < 2 ^ 31 \<Longrightarrow> sint (of_int x :: u32) = x"
  by (simp add: signed_of_int signed_take_bit_int_eq_self)

section \<open>Little-endian encodings\<close>

definition le32 :: "u32 \<Rightarrow> bytes" where
  "le32 w = [ucast w, ucast (drop_bit 8 w), ucast (drop_bit 16 w), ucast (drop_bit 24 w)]"

definition le32_dec :: "u8 \<Rightarrow> u8 \<Rightarrow> u8 \<Rightarrow> u8 \<Rightarrow> u32" where
  "le32_dec a b c d =
     ucast a OR push_bit 8 (ucast b) OR push_bit 16 (ucast c) OR push_bit 24 (ucast d)"

lemma length_le32 [simp]: "length (le32 w) = 4"
  by (simp add: le32_def)

lemma le32_inject: "le32 v = le32 w \<longleftrightarrow> v = w"
proof
  assume "le32 v = le32 w"
  then have e: "(ucast (drop_bit (8 * i) v) :: u8) = ucast (drop_bit (8 * i) w)" if "i < 4" for i
    using that by (auto simp: le32_def less_Suc_eq numeral_eq_Suc)
  show "v = w"
  proof (rule bit_eqI)
    fix n assume "possible_bit TYPE(u32) n"
    then have "n < 32" by simp
    have "bit (ucast (drop_bit (8 * (n div 8)) v) :: u8) (n mod 8) =
          bit (ucast (drop_bit (8 * (n div 8)) w) :: u8) (n mod 8)"
      using e [of "n div 8"] \<open>n < 32\<close> by simp
    then show "bit v n = bit w n" by (simp add: bit_simps)
  qed
qed simp

lemma bit_le32_dec:
  "bit (le32_dec a b c d) n \<longleftrightarrow>
     (if n < 8 then bit a n else if n < 16 then bit b (n - 8)
      else if n < 24 then bit c (n - 16) else n < 32 \<and> bit d (n - 24))"
  by (auto simp: le32_dec_def bit_simps dest: bit_imp_le_length)

lemma le32_dec_le32:
  "le32_dec (ucast w) (ucast (drop_bit 8 w)) (ucast (drop_bit 16 w)) (ucast (drop_bit 24 w)) = w"
  by (rule bit_eqI) (auto simp: bit_le32_dec bit_simps)

lemma le32_le32_dec: "le32 (le32_dec a b c d) = [a, b, c, d]"
  by (auto simp: le32_def bit_le32_dec bit_simps intro!: bit_eqI dest: bit_imp_le_length)

lemma list4_conv: "length xs = 4 \<longleftrightarrow> (\<exists>a b c d. xs = [a, b, c, d])"
  by (auto simp: numeral_eq_Suc length_Suc_conv)

lemma le32_surj: "length xs = 4 \<Longrightarrow> \<exists>w. xs = le32 w"
  by (metis le32_le32_dec list4_conv)

section \<open>Ordered insertion\<close>

text \<open>
  \<^verbatim>\<open>LIST_INSERT_SORTED(head, elm, field, cmp)\<close>: the element goes in front of the first
  element \<open>t\<close> with \<^verbatim>\<open>cmp(elm, t) <= 0\<close>, or at the end. The comparison functions of the
  code return a truth value, so the macro's test is the negation of it.
\<close>

fun list_insert_sorted :: "('a \<Rightarrow> 'a \<Rightarrow> bool) \<Rightarrow> 'a \<Rightarrow> 'a list \<Rightarrow> 'a list" where
  "list_insert_sorted cmp e [] = [e]"
| "list_insert_sorted cmp e (t # ts) =
     (if \<not> cmp e t then e # t # ts else t # list_insert_sorted cmp e ts)"

lemma set_list_insert_sorted [simp, queue_simps]:
  "set (list_insert_sorted cmp e ts) = insert e (set ts)"
  by (induction ts) auto

lemma mset_list_insert_sorted [simp, queue_simps]:
  "mset (list_insert_sorted cmp e ts) = add_mset e (mset ts)"
  by (induction ts) auto

lemma distinct_list_insert_sorted [simp, queue_simps]:
  "distinct (list_insert_sorted cmp e ts) \<longleftrightarrow> e \<notin> set ts \<and> distinct ts"
  by (metis distinct.simps(2) mset.simps(2) mset_eq_imp_distinct_iff mset_list_insert_sorted)

text \<open>
  The contract the clients rely on: the comparison is the strict part of a total preorder
  on a key, either \<open>key a > key b\<close> (ascending, newest first among equals) or
  \<open>key a \<le> key b\<close> (descending, oldest first among equals). Both are instances of one law:
  \<open>ord\<close> is total and transitive, and \<open>cmp a b\<close> implies that \<open>b\<close> may stand before \<open>a\<close>
  while its negation implies that \<open>a\<close> may stand before \<open>b\<close>.
\<close>

locale sorted_insert =
  fixes cmp :: "'a \<Rightarrow> 'a \<Rightarrow> bool"
    and ord :: "'a \<Rightarrow> 'a \<Rightarrow> bool"
  assumes ord_trans: "ord a b \<Longrightarrow> ord b c \<Longrightarrow> ord a c"
    and cmp_ord: "cmp a b \<Longrightarrow> ord b a"
    and not_cmp_ord: "\<not> cmp a b \<Longrightarrow> ord a b"
begin

lemma insert_keeps_sorted:
  "sorted_wrt ord ts \<Longrightarrow> sorted_wrt ord (list_insert_sorted cmp e ts)"
  by (induction ts) (auto intro: cmp_ord not_cmp_ord ord_trans)

lemma head_is_first:
  "sorted_wrt ord (t # ts) \<Longrightarrow> u \<in> set ts \<Longrightarrow> ord t u"
  by simp

lemma insert_splits:
  "\<exists>as bs. ts = as @ bs \<and> list_insert_sorted cmp e ts = as @ e # bs \<and>
     (\<forall>a\<in>set as. cmp e a) \<and> (bs \<noteq> [] \<longrightarrow> \<not> cmp e (hd bs))"
proof (induction ts)
  case Nil
  then show ?case by simp
next
  case (Cons t ts)
  show ?case
  proof (cases "cmp e t")
    case True
    from Cons obtain as bs where "ts = as @ bs"
      "list_insert_sorted cmp e ts = as @ e # bs" "\<forall>a\<in>set as. cmp e a"
      "bs \<noteq> [] \<longrightarrow> \<not> cmp e (hd bs)" by blast
    with True show ?thesis
      by (intro exI [of _ "t # as"] exI [of _ bs]) simp
  next
    case False
    then show ?thesis by (intro exI [of _ "[]"] exI [of _ "t # ts"]) simp
  qed
qed

end

section \<open>Allocators\<close>

text \<open>
  What a client of an allocator may do: ask for an object, or release one it owns. The
  relation follows the state of the allocator and the set of objects the client owns.
\<close>

inductive alloc_run ::
  "('r \<Rightarrow> 'm \<Rightarrow> ('p option \<times> 'm) option) \<Rightarrow> ('p \<Rightarrow> 'm \<Rightarrow> 'm option) \<Rightarrow> ('r \<Rightarrow> bool) \<Rightarrow>
   'm \<Rightarrow> 'p set \<Rightarrow> 'm \<Rightarrow> 'p set \<Rightarrow> bool"
  for alloc :: "'r \<Rightarrow> 'm \<Rightarrow> ('p option \<times> 'm) option" and release :: "'p \<Rightarrow> 'm \<Rightarrow> 'm option"
    and ok :: "'r \<Rightarrow> bool" and m0 :: 'm and L0 :: "'p set" where
  run_start: "alloc_run alloc release ok m0 L0 m0 L0"
| run_alloc: "alloc_run alloc release ok m0 L0 m L \<Longrightarrow> ok r \<Longrightarrow> alloc r m = Some (x, m') \<Longrightarrow>
    alloc_run alloc release ok m0 L0 m' (case x of None \<Rightarrow> L | Some p \<Rightarrow> insert p L)"
| run_release: "alloc_run alloc release ok m0 L0 m L \<Longrightarrow> p \<in> L \<Longrightarrow> release p m = Some m' \<Longrightarrow>
    alloc_run alloc release ok m0 L0 m' (L - {p})"

text \<open>
  The contract of an allocator: an admissible request always returns, with nothing or with an
  object the client does not own yet, and releasing an owned object always succeeds. A panic
  of the code is \<^const>\<open>None\<close>, so the contract rules it out for every client that obeys
  \<^const>\<open>alloc_run\<close>.
\<close>

locale allocator =
  fixes alloc :: "'r \<Rightarrow> 'm \<Rightarrow> ('p option \<times> 'm) option"
    and release :: "'p \<Rightarrow> 'm \<Rightarrow> 'm option"
    and valid :: "'m \<Rightarrow> 'p set \<Rightarrow> bool"
    and ok :: "'r \<Rightarrow> bool"
  assumes alloc_total: "valid m L \<Longrightarrow> ok r \<Longrightarrow> \<exists>x m'. alloc r m = Some (x, m') \<and>
      (case x of None \<Rightarrow> valid m' L | Some p \<Rightarrow> p \<notin> L \<and> valid m' (insert p L))"
    and release_total: "valid m L \<Longrightarrow> p \<in> L \<Longrightarrow> \<exists>m'. release p m = Some m' \<and> valid m' (L - {p})"
begin

lemma run_valid: "alloc_run alloc release ok m0 L0 m L \<Longrightarrow> valid m0 L0 \<Longrightarrow> valid m L"
proof (induction rule: alloc_run.induct)
  case (run_alloc m L r x m')
  with alloc_total [of m L r] show ?case by (auto split: option.splits)
next
  case (run_release m L p m')
  with release_total [of m L p] show ?case by auto
qed simp

lemma run_never_stuck:
  assumes "alloc_run alloc release ok m0 L0 m L" "valid m0 L0"
  shows "(\<forall>r. ok r \<longrightarrow> alloc r m \<noteq> None) \<and> (\<forall>p\<in>L. release p m \<noteq> None)"
  using run_valid [OF assms] alloc_total [of m L] release_total [of m L] by fastforce

lemma run_fresh:
  assumes "alloc_run alloc release ok m0 L0 m L" "valid m0 L0" "ok r" "alloc r m = Some (Some p, m')"
  shows "p \<notin> L"
  using run_valid [OF assms(1,2)] alloc_total [of m L r] assms(3,4) by auto

end

lemma sorted_wrt_remove1: "sorted_wrt P xs \<Longrightarrow> sorted_wrt P (remove1 x xs)"
  by (induction xs) (use set_remove1_subset in \<open>fastforce+\<close>)

section \<open>Leading zeros\<close>

text \<open>\<^verbatim>\<open>__builtin_clz\<close>.\<close>

definition clz32 :: "u32 \<Rightarrow> nat" where
  "clz32 x = length (takeWhile (\<lambda>i. \<not> bit x i) (rev [0..<32]))"

text \<open>The highest bit of the mask.\<close>

lemma clz32_top:
  assumes "x \<noteq> (0 :: u32)"
  shows "clz32 x < 32" "bit x (31 - clz32 x)" "31 - clz32 x < i \<Longrightarrow> i < 32 \<Longrightarrow> \<not> bit x i"
proof -
  let ?P = "\<lambda>i. \<not> bit x i" and ?l = "rev [0..<32 :: nat]"
  obtain k where k: "k < 32" "bit x k" using assms by (auto simp: bit_eq_iff)
  have "takeWhile ?P ?l \<noteq> ?l" using k by (metis atLeastLessThan_iff le0 set_rev set_upt takeWhile_eq_all_conv)
  then have len: "length (takeWhile ?P ?l) < length ?l"
    by (metis length_takeWhile_le linorder_le_less_linear nat_less_le takeWhile_eq_take take_all)
  then show c: "clz32 x < 32" by (simp add: clz32_def)
  have nth: "?l ! j = 31 - j" if "j < 32" for j using that by (simp add: rev_nth)
  show "bit x (31 - clz32 x)" using nth_length_takeWhile [OF len] nth [OF c] by (simp add: clz32_def)
  assume i: "31 - clz32 x < i" "i < 32"
  then have "31 - i < length (takeWhile ?P ?l)" using c by (simp add: clz32_def)
  then have "?P (?l ! (31 - i))" by (metis nth_mem set_takeWhileD takeWhile_nth)
  then show "\<not> bit x i" using nth [of "31 - i"] i by simp
qed

text \<open>\<^verbatim>\<open>round_down_pow2\<close> of \<^verbatim>\<open>include/mios/align.h\<close>.\<close>

definition round_down_pow2 :: "u32 \<Rightarrow> u32" where
  "round_down_pow2 x = (if x = 0 then 0 else push_bit (31 - clz32 x) 1)"

end
