(* ===== verification/Crc.thy ===== *)
theory Crc
  imports Mios_Prelude
begin

text \<open>
  The checksums of \<^verbatim>\<open>src/util/crc4.c\<close>, \<^verbatim>\<open>crc8.c\<close>, \<^verbatim>\<open>crc16.c\<close> and \<^verbatim>\<open>crc32.c\<close>: the lookup
  tables as they stand in the source, the table-driven loops, the bit-serial shift registers
  they implement, and what the protocols rely on: appending the complemented CRC gives a fixed
  residue, and no other trailer does.
\<close>

section \<open>Tables\<close>

definition crc4_tab :: "u8 list" where
  "crc4_tab =
    [0x0, 0x7, 0xe, 0x9, 0xb, 0xc, 0x5, 0x2,
     0x1, 0x6, 0xf, 0x8, 0xa, 0xd, 0x4, 0x3]"

definition crc8_table :: "u8 list" where
  "crc8_table =
    [0x00, 0x07, 0x0e, 0x09, 0x1c, 0x1b, 0x12, 0x15, 0x38, 0x3f, 0x36, 0x31,
     0x24, 0x23, 0x2a, 0x2d, 0x70, 0x77, 0x7e, 0x79, 0x6c, 0x6b, 0x62, 0x65,
     0x48, 0x4f, 0x46, 0x41, 0x54, 0x53, 0x5a, 0x5d, 0xe0, 0xe7, 0xee, 0xe9,
     0xfc, 0xfb, 0xf2, 0xf5, 0xd8, 0xdf, 0xd6, 0xd1, 0xc4, 0xc3, 0xca, 0xcd,
     0x90, 0x97, 0x9e, 0x99, 0x8c, 0x8b, 0x82, 0x85, 0xa8, 0xaf, 0xa6, 0xa1,
     0xb4, 0xb3, 0xba, 0xbd, 0xc7, 0xc0, 0xc9, 0xce, 0xdb, 0xdc, 0xd5, 0xd2,
     0xff, 0xf8, 0xf1, 0xf6, 0xe3, 0xe4, 0xed, 0xea, 0xb7, 0xb0, 0xb9, 0xbe,
     0xab, 0xac, 0xa5, 0xa2, 0x8f, 0x88, 0x81, 0x86, 0x93, 0x94, 0x9d, 0x9a,
     0x27, 0x20, 0x29, 0x2e, 0x3b, 0x3c, 0x35, 0x32, 0x1f, 0x18, 0x11, 0x16,
     0x03, 0x04, 0x0d, 0x0a, 0x57, 0x50, 0x59, 0x5e, 0x4b, 0x4c, 0x45, 0x42,
     0x6f, 0x68, 0x61, 0x66, 0x73, 0x74, 0x7d, 0x7a, 0x89, 0x8e, 0x87, 0x80,
     0x95, 0x92, 0x9b, 0x9c, 0xb1, 0xb6, 0xbf, 0xb8, 0xad, 0xaa, 0xa3, 0xa4,
     0xf9, 0xfe, 0xf7, 0xf0, 0xe5, 0xe2, 0xeb, 0xec, 0xc1, 0xc6, 0xcf, 0xc8,
     0xdd, 0xda, 0xd3, 0xd4, 0x69, 0x6e, 0x67, 0x60, 0x75, 0x72, 0x7b, 0x7c,
     0x51, 0x56, 0x5f, 0x58, 0x4d, 0x4a, 0x43, 0x44, 0x19, 0x1e, 0x17, 0x10,
     0x05, 0x02, 0x0b, 0x0c, 0x21, 0x26, 0x2f, 0x28, 0x3d, 0x3a, 0x33, 0x34,
     0x4e, 0x49, 0x40, 0x47, 0x52, 0x55, 0x5c, 0x5b, 0x76, 0x71, 0x78, 0x7f,
     0x6a, 0x6d, 0x64, 0x63, 0x3e, 0x39, 0x30, 0x37, 0x22, 0x25, 0x2c, 0x2b,
     0x06, 0x01, 0x08, 0x0f, 0x1a, 0x1d, 0x14, 0x13, 0xae, 0xa9, 0xa0, 0xa7,
     0xb2, 0xb5, 0xbc, 0xbb, 0x96, 0x91, 0x98, 0x9f, 0x8a, 0x8d, 0x84, 0x83,
     0xde, 0xd9, 0xd0, 0xd7, 0xc2, 0xc5, 0xcc, 0xcb, 0xe6, 0xe1, 0xe8, 0xef,
     0xfa, 0xfd, 0xf4, 0xf3]"

definition crc16tab :: "u16 list" where
  "crc16tab =
    [0x0000, 0x1021, 0x2042, 0x3063, 0x4084, 0x50a5, 0x60c6, 0x70e7,
     0x8108, 0x9129, 0xa14a, 0xb16b, 0xc18c, 0xd1ad, 0xe1ce, 0xf1ef,
     0x1231, 0x0210, 0x3273, 0x2252, 0x52b5, 0x4294, 0x72f7, 0x62d6,
     0x9339, 0x8318, 0xb37b, 0xa35a, 0xd3bd, 0xc39c, 0xf3ff, 0xe3de,
     0x2462, 0x3443, 0x0420, 0x1401, 0x64e6, 0x74c7, 0x44a4, 0x5485,
     0xa56a, 0xb54b, 0x8528, 0x9509, 0xe5ee, 0xf5cf, 0xc5ac, 0xd58d,
     0x3653, 0x2672, 0x1611, 0x0630, 0x76d7, 0x66f6, 0x5695, 0x46b4,
     0xb75b, 0xa77a, 0x9719, 0x8738, 0xf7df, 0xe7fe, 0xd79d, 0xc7bc,
     0x48c4, 0x58e5, 0x6886, 0x78a7, 0x0840, 0x1861, 0x2802, 0x3823,
     0xc9cc, 0xd9ed, 0xe98e, 0xf9af, 0x8948, 0x9969, 0xa90a, 0xb92b,
     0x5af5, 0x4ad4, 0x7ab7, 0x6a96, 0x1a71, 0x0a50, 0x3a33, 0x2a12,
     0xdbfd, 0xcbdc, 0xfbbf, 0xeb9e, 0x9b79, 0x8b58, 0xbb3b, 0xab1a,
     0x6ca6, 0x7c87, 0x4ce4, 0x5cc5, 0x2c22, 0x3c03, 0x0c60, 0x1c41,
     0xedae, 0xfd8f, 0xcdec, 0xddcd, 0xad2a, 0xbd0b, 0x8d68, 0x9d49,
     0x7e97, 0x6eb6, 0x5ed5, 0x4ef4, 0x3e13, 0x2e32, 0x1e51, 0x0e70,
     0xff9f, 0xefbe, 0xdfdd, 0xcffc, 0xbf1b, 0xaf3a, 0x9f59, 0x8f78,
     0x9188, 0x81a9, 0xb1ca, 0xa1eb, 0xd10c, 0xc12d, 0xf14e, 0xe16f,
     0x1080, 0x00a1, 0x30c2, 0x20e3, 0x5004, 0x4025, 0x7046, 0x6067,
     0x83b9, 0x9398, 0xa3fb, 0xb3da, 0xc33d, 0xd31c, 0xe37f, 0xf35e,
     0x02b1, 0x1290, 0x22f3, 0x32d2, 0x4235, 0x5214, 0x6277, 0x7256,
     0xb5ea, 0xa5cb, 0x95a8, 0x8589, 0xf56e, 0xe54f, 0xd52c, 0xc50d,
     0x34e2, 0x24c3, 0x14a0, 0x0481, 0x7466, 0x6447, 0x5424, 0x4405,
     0xa7db, 0xb7fa, 0x8799, 0x97b8, 0xe75f, 0xf77e, 0xc71d, 0xd73c,
     0x26d3, 0x36f2, 0x0691, 0x16b0, 0x6657, 0x7676, 0x4615, 0x5634,
     0xd94c, 0xc96d, 0xf90e, 0xe92f, 0x99c8, 0x89e9, 0xb98a, 0xa9ab,
     0x5844, 0x4865, 0x7806, 0x6827, 0x18c0, 0x08e1, 0x3882, 0x28a3,
     0xcb7d, 0xdb5c, 0xeb3f, 0xfb1e, 0x8bf9, 0x9bd8, 0xabbb, 0xbb9a,
     0x4a75, 0x5a54, 0x6a37, 0x7a16, 0x0af1, 0x1ad0, 0x2ab3, 0x3a92,
     0xfd2e, 0xed0f, 0xdd6c, 0xcd4d, 0xbdaa, 0xad8b, 0x9de8, 0x8dc9,
     0x7c26, 0x6c07, 0x5c64, 0x4c45, 0x3ca2, 0x2c83, 0x1ce0, 0x0cc1,
     0xef1f, 0xff3e, 0xcf5d, 0xdf7c, 0xaf9b, 0xbfba, 0x8fd9, 0x9ff8,
     0x6e17, 0x7e36, 0x4e55, 0x5e74, 0x2e93, 0x3eb2, 0x0ed1, 0x1ef0]"

definition crc32table :: "u32 list" where
  "crc32table =
    [0xd202ef8d, 0xa505df1b, 0x3c0c8ea1, 0x4b0bbe37, 0xd56f2b94, 0xa2681b02,
     0x3b614ab8, 0x4c667a2e, 0xdcd967bf, 0xabde5729, 0x32d70693, 0x45d03605,
     0xdbb4a3a6, 0xacb39330, 0x35bac28a, 0x42bdf21c, 0xcfb5ffe9, 0xb8b2cf7f,
     0x21bb9ec5, 0x56bcae53, 0xc8d83bf0, 0xbfdf0b66, 0x26d65adc, 0x51d16a4a,
     0xc16e77db, 0xb669474d, 0x2f6016f7, 0x58672661, 0xc603b3c2, 0xb1048354,
     0x280dd2ee, 0x5f0ae278, 0xe96ccf45, 0x9e6bffd3, 0x0762ae69, 0x70659eff,
     0xee010b5c, 0x99063bca, 0x000f6a70, 0x77085ae6, 0xe7b74777, 0x90b077e1,
     0x09b9265b, 0x7ebe16cd, 0xe0da836e, 0x97ddb3f8, 0x0ed4e242, 0x79d3d2d4,
     0xf4dbdf21, 0x83dcefb7, 0x1ad5be0d, 0x6dd28e9b, 0xf3b61b38, 0x84b12bae,
     0x1db87a14, 0x6abf4a82, 0xfa005713, 0x8d076785, 0x140e363f, 0x630906a9,
     0xfd6d930a, 0x8a6aa39c, 0x1363f226, 0x6464c2b0, 0xa4deae1d, 0xd3d99e8b,
     0x4ad0cf31, 0x3dd7ffa7, 0xa3b36a04, 0xd4b45a92, 0x4dbd0b28, 0x3aba3bbe,
     0xaa05262f, 0xdd0216b9, 0x440b4703, 0x330c7795, 0xad68e236, 0xda6fd2a0,
     0x4366831a, 0x3461b38c, 0xb969be79, 0xce6e8eef, 0x5767df55, 0x2060efc3,
     0xbe047a60, 0xc9034af6, 0x500a1b4c, 0x270d2bda, 0xb7b2364b, 0xc0b506dd,
     0x59bc5767, 0x2ebb67f1, 0xb0dff252, 0xc7d8c2c4, 0x5ed1937e, 0x29d6a3e8,
     0x9fb08ed5, 0xe8b7be43, 0x71beeff9, 0x06b9df6f, 0x98dd4acc, 0xefda7a5a,
     0x76d32be0, 0x01d41b76, 0x916b06e7, 0xe66c3671, 0x7f6567cb, 0x0862575d,
     0x9606c2fe, 0xe101f268, 0x7808a3d2, 0x0f0f9344, 0x82079eb1, 0xf500ae27,
     0x6c09ff9d, 0x1b0ecf0b, 0x856a5aa8, 0xf26d6a3e, 0x6b643b84, 0x1c630b12,
     0x8cdc1683, 0xfbdb2615, 0x62d277af, 0x15d54739, 0x8bb1d29a, 0xfcb6e20c,
     0x65bfb3b6, 0x12b88320, 0x3fba6cad, 0x48bd5c3b, 0xd1b40d81, 0xa6b33d17,
     0x38d7a8b4, 0x4fd09822, 0xd6d9c998, 0xa1def90e, 0x3161e49f, 0x4666d409,
     0xdf6f85b3, 0xa868b525, 0x360c2086, 0x410b1010, 0xd80241aa, 0xaf05713c,
     0x220d7cc9, 0x550a4c5f, 0xcc031de5, 0xbb042d73, 0x2560b8d0, 0x52678846,
     0xcb6ed9fc, 0xbc69e96a, 0x2cd6f4fb, 0x5bd1c46d, 0xc2d895d7, 0xb5dfa541,
     0x2bbb30e2, 0x5cbc0074, 0xc5b551ce, 0xb2b26158, 0x04d44c65, 0x73d37cf3,
     0xeada2d49, 0x9ddd1ddf, 0x03b9887c, 0x74beb8ea, 0xedb7e950, 0x9ab0d9c6,
     0x0a0fc457, 0x7d08f4c1, 0xe401a57b, 0x930695ed, 0x0d62004e, 0x7a6530d8,
     0xe36c6162, 0x946b51f4, 0x19635c01, 0x6e646c97, 0xf76d3d2d, 0x806a0dbb,
     0x1e0e9818, 0x6909a88e, 0xf000f934, 0x8707c9a2, 0x17b8d433, 0x60bfe4a5,
     0xf9b6b51f, 0x8eb18589, 0x10d5102a, 0x67d220bc, 0xfedb7106, 0x89dc4190,
     0x49662d3d, 0x3e611dab, 0xa7684c11, 0xd06f7c87, 0x4e0be924, 0x390cd9b2,
     0xa0058808, 0xd702b89e, 0x47bda50f, 0x30ba9599, 0xa9b3c423, 0xdeb4f4b5,
     0x40d06116, 0x37d75180, 0xaede003a, 0xd9d930ac, 0x54d13d59, 0x23d60dcf,
     0xbadf5c75, 0xcdd86ce3, 0x53bcf940, 0x24bbc9d6, 0xbdb2986c, 0xcab5a8fa,
     0x5a0ab56b, 0x2d0d85fd, 0xb404d447, 0xc303e4d1, 0x5d677172, 0x2a6041e4,
     0xb369105e, 0xc46e20c8, 0x72080df5, 0x050f3d63, 0x9c066cd9, 0xeb015c4f,
     0x7565c9ec, 0x0262f97a, 0x9b6ba8c0, 0xec6c9856, 0x7cd385c7, 0x0bd4b551,
     0x92dde4eb, 0xe5dad47d, 0x7bbe41de, 0x0cb97148, 0x95b020f2, 0xe2b71064,
     0x6fbf1d91, 0x18b82d07, 0x81b17cbd, 0xf6b64c2b, 0x68d2d988, 0x1fd5e91e,
     0x86dcb8a4, 0xf1db8832, 0x616495a3, 0x1663a535, 0x8f6af48f, 0xf86dc419,
     0x660951ba, 0x110e612c, 0x88073096, 0xff000000]"

section \<open>The table-driven loops\<close>

text \<open>
  \<^verbatim>\<open>crc4\<close> indexes its 16 entry table with \<open>c\<close> as the caller passes it, so a seed above 15
  reads outside the table.
\<close>

function crc4_loop :: "u8 \<Rightarrow> bytes \<Rightarrow> nat \<Rightarrow> nat \<Rightarrow> u8 option" where
  "crc4_loop c data nibbles i =
     (if i < nibbles then do {
        d \<leftarrow> buf_rd data (i div 2);
        c' \<leftarrow> buf_rd crc4_tab (unat (c XOR (drop_bit (if odd i then 4 else 0) d AND 0xf)));
        crc4_loop c' data nibbles (Suc i)
      } else Some c)"
  by pat_completeness auto
termination
  by (relation "measure (\<lambda>(c, data, nibbles, i). nibbles - i)") auto

declare crc4_loop.simps [simp del]

definition crc4 :: "u8 \<Rightarrow> bytes \<Rightarrow> nat \<Rightarrow> u8 option" where
  "crc4 c data nibbles = crc4_loop c data nibbles 0"

text \<open>\<^verbatim>\<open>crc8\<close>: the shifted part is computed as a 16-bit value and lost in the store to 8 bits.\<close>

definition crc8_step :: "u8 \<Rightarrow> u8 \<Rightarrow> u8" where
  "crc8_step crc b =
     ucast (ucast (crc8_table ! unat (crc XOR b)) XOR push_bit 8 (ucast crc :: u16))"

fun crc8 :: "u8 \<Rightarrow> bytes \<Rightarrow> u8" where
  "crc8 crc [] = crc"
| "crc8 crc (b # p) = crc8 (crc8_step crc b) p"

definition crc16_step :: "u16 \<Rightarrow> u8 \<Rightarrow> u16" where
  "crc16_step crc b =
     push_bit 8 crc XOR crc16tab ! unat ((drop_bit 8 crc XOR ucast b) AND 0x00FF)"

fun crc16 :: "u16 \<Rightarrow> bytes \<Rightarrow> u16" where
  "crc16 crc [] = crc"
| "crc16 crc (b # p) = crc16 (crc16_step crc b) p"

definition crc32_step :: "u32 \<Rightarrow> u8 \<Rightarrow> u32" where
  "crc32_step crc b = crc32table ! unat (ucast crc XOR b) XOR drop_bit 8 crc"

fun crc32 :: "u32 \<Rightarrow> bytes \<Rightarrow> u32" where
  "crc32 crc [] = crc"
| "crc32 crc (b # p) = crc32 (crc32_step crc b) p"

text \<open>The routine the comment in \<^verbatim>\<open>crc32.c\<close> gives as the origin of its table.\<close>

definition crc32_for_byte_step :: "u32 \<Rightarrow> u32" where
  "crc32_for_byte_step r = (if bit r 0 then 0 else 0xEDB88320) XOR drop_bit 1 r"

definition crc32_for_byte :: "u32 \<Rightarrow> u32" where
  "crc32_for_byte r = (crc32_for_byte_step ^^ 8) r XOR 0xFF000000"

section \<open>Bit-serial shift registers\<close>

definition crc8_bit :: "u8 \<Rightarrow> u8" where
  "crc8_bit x = (if bit x 7 then 0x07 else 0) XOR push_bit 1 x"

definition crc16_bit :: "u16 \<Rightarrow> u16" where
  "crc16_bit x = (if bit x 15 then 0x1021 else 0) XOR push_bit 1 x"

definition crc32_bit :: "u32 \<Rightarrow> u32" where
  "crc32_bit x = (if bit x 0 then 0xEDB88320 else 0) XOR drop_bit 1 x"

definition crc8_serial :: "u8 \<Rightarrow> u8 \<Rightarrow> u8" where
  "crc8_serial c b = (crc8_bit ^^ 8) (c XOR b)"

definition crc16_serial :: "u16 \<Rightarrow> u8 \<Rightarrow> u16" where
  "crc16_serial c b = (crc16_bit ^^ 8) (c XOR push_bit 8 (ucast b))"

definition crc32_serial :: "u32 \<Rightarrow> u8 \<Rightarrow> u32" where
  "crc32_serial c b = (crc32_bit ^^ 8) (c XOR ucast b)"

section \<open>The tables are what the generators produce\<close>

lemma funpow_8: "(f ^^ 8) x = f (f (f (f (f (f (f (f x)))))))"
  by (simp add: numeral_eq_Suc)

lemma upt_256: "[0..<256] =
    [0, 1, 2, 3, 4, 5, 6, 7, 8, 9, 10, 11, 12, 13, 14, 15, 16, 17, 18, 19, 20, 21, 22, 23,
     24, 25, 26, 27, 28, 29, 30, 31, 32, 33, 34, 35, 36, 37, 38, 39, 40, 41, 42, 43, 44, 45,
     46, 47, 48, 49, 50, 51, 52, 53, 54, 55, 56, 57, 58, 59, 60, 61, 62, 63, 64, 65, 66, 67,
     68, 69, 70, 71, 72, 73, 74, 75, 76, 77, 78, 79, 80, 81, 82, 83, 84, 85, 86, 87, 88, 89,
     90, 91, 92, 93, 94, 95, 96, 97, 98, 99, 100, 101, 102, 103, 104, 105, 106, 107, 108,
     109, 110, 111, 112, 113, 114, 115, 116, 117, 118, 119, 120, 121, 122, 123, 124, 125,
     126, 127, 128, 129, 130, 131, 132, 133, 134, 135, 136, 137, 138, 139, 140, 141, 142,
     143, 144, 145, 146, 147, 148, 149, 150, 151, 152, 153, 154, 155, 156, 157, 158, 159,
     160, 161, 162, 163, 164, 165, 166, 167, 168, 169, 170, 171, 172, 173, 174, 175, 176,
     177, 178, 179, 180, 181, 182, 183, 184, 185, 186, 187, 188, 189, 190, 191, 192, 193,
     194, 195, 196, 197, 198, 199, 200, 201, 202, 203, 204, 205, 206, 207, 208, 209, 210,
     211, 212, 213, 214, 215, 216, 217, 218, 219, 220, 221, 222, 223, 224, 225, 226, 227,
     228, 229, 230, 231, 232, 233, 234, 235, 236, 237, 238, 239, 240, 241, 242, 243, 244,
     245, 246, 247, 248, 249, 250, 251, 252, 253, 254, 255]"
  by (simp add: upt_rec)

lemma crc8_table_gen: "crc8_table = map (\<lambda>i. (crc8_bit ^^ 8) (of_nat i)) [0..<256]"
  unfolding upt_256 list.map by (simp add: crc8_table_def funpow_8 crc8_bit_def)

lemma crc16tab_gen:
  "crc16tab = map (\<lambda>i. (crc16_bit ^^ 8) (push_bit 8 (of_nat i))) [0..<256]"
  unfolding upt_256 list.map by (simp add: crc16tab_def funpow_8 crc16_bit_def)

lemma crc32table_gen: "crc32table = map (\<lambda>i. crc32_for_byte (of_nat i)) [0..<256]"
  unfolding upt_256 list.map
  by (simp add: crc32table_def crc32_for_byte_def funpow_8 crc32_for_byte_step_def)

section \<open>Linear shift registers\<close>

locale linear_register =
  fixes f :: "'a::len word \<Rightarrow> 'a word"
  assumes f_xor: "f (x XOR y) = f x XOR f y"
    and f_kernel: "f x = 0 \<Longrightarrow> x = 0"
begin

lemma pow_xor: "(f ^^ n) (x XOR y) = (f ^^ n) x XOR (f ^^ n) y"
  by (induction n) (simp_all add: f_xor)

lemma f_0: "f 0 = 0"
  using f_xor [of 0 0] by simp

lemma pow_0_iff: "(f ^^ n) x = 0 \<longleftrightarrow> x = 0"
  by (induction n) (auto simp: f_0 dest: f_kernel)

lemma pow_inject: "(f ^^ n) x = (f ^^ n) y \<longleftrightarrow> x = y"
proof
  assume "(f ^^ n) x = (f ^^ n) y"
  then have "(f ^^ n) (x XOR y) = 0" by (simp add: pow_xor)
  then have "x XOR y = 0" by (simp only: pow_0_iff)
  then have "x XOR (x XOR y) = x" by simp
  then show "x = y" by (simp flip: xor.assoc)
qed simp

end

lemma push_bit_1_zeroD:
  assumes "push_bit 1 (x :: 'a::len word) = 0" and "\<not> bit x (LENGTH('a) - 1)"
  shows "x = 0"
proof (rule bit_eqI)
  fix n assume "possible_bit TYPE('a word) n"
  then have n: "n < LENGTH('a)" by simp
  show "bit x n = bit 0 n"
  proof (cases "Suc n < LENGTH('a)")
    case True
    then show ?thesis using arg_cong [OF assms(1), of "\<lambda>w. bit w (Suc n)"] by (simp add: bit_times_2)
  next
    case False
    with n have "n = LENGTH('a) - 1" by simp
    then show ?thesis using assms(2) by simp
  qed
qed

lemma drop_bit_1_zeroD:
  assumes "drop_bit 1 (x :: 'a::len word) = 0" and "\<not> bit x 0"
  shows "x = 0"
proof (rule bit_eqI)
  fix n
  show "bit x n = bit 0 n"
    using assms(2) arg_cong [OF assms(1), of "\<lambda>w. bit w (n - 1)"]
    by (cases n) (simp_all add: bit_drop_bit_eq)
qed

interpretation crc8r: linear_register crc8_bit
proof unfold_locales
  fix x y show "crc8_bit (x XOR y) = crc8_bit x XOR crc8_bit y"
    by (auto simp: crc8_bit_def bit_simps push_bit_xor ac_simps)
next
  fix x assume z: "crc8_bit x = 0"
  then have "\<not> bit (crc8_bit x) 0" by simp
  then have "\<not> bit x 7" by (auto simp: crc8_bit_def bit_simps bit_times_2)
  with z show "x = 0" using push_bit_1_zeroD [of x] by (simp add: crc8_bit_def)
qed

interpretation crc16r: linear_register crc16_bit
proof unfold_locales
  fix x y show "crc16_bit (x XOR y) = crc16_bit x XOR crc16_bit y"
    by (auto simp: crc16_bit_def bit_simps push_bit_xor ac_simps)
next
  fix x assume z: "crc16_bit x = 0"
  then have "\<not> bit (crc16_bit x) 0" by simp
  then have "\<not> bit x 15" by (auto simp: crc16_bit_def bit_simps bit_times_2)
  with z show "x = 0" using push_bit_1_zeroD [of x] by (simp add: crc16_bit_def)
qed

interpretation crc32r: linear_register crc32_bit
proof unfold_locales
  fix x y show "crc32_bit (x XOR y) = crc32_bit x XOR crc32_bit y"
    by (auto simp: crc32_bit_def bit_simps drop_bit_xor ac_simps)
next
  fix x assume z: "crc32_bit x = 0"
  then have "\<not> bit (crc32_bit x) 31" by simp
  then have "\<not> bit x 0" by (auto simp: crc32_bit_def bit_simps dest: bit_imp_le_length)
  with z show "x = 0" using drop_bit_1_zeroD [of x] by (simp add: crc32_bit_def)
qed

lemma bit_0xFF000000: "bit (0xFF000000 :: int) n \<longleftrightarrow> 24 \<le> n \<and> n < 32"
proof -
  have "(0xFF000000 :: int) = push_bit 24 (mask 8)" by (simp add: mask_eq_exp_minus_1 push_bit_eq_mult)
  then show ?thesis by (simp only: bit_push_bit_iff bit_mask_iff) auto
qed

lemma crc16_low_gen:
  assumes "\<And>n. bit y n \<Longrightarrow> n < 8"
  shows "k \<le> 8 \<Longrightarrow> (crc16_bit ^^ k) y = push_bit k y"
proof (induction k)
  case (Suc k)
  have "\<not> bit (push_bit k y) 15"
    using Suc.prems assms [of "15 - k"] by (auto simp: bit_simps)
  moreover have "push_bit 1 (push_bit k y) = push_bit (Suc k) y"
    by (simp only: push_bit_push_bit) simp
  ultimately show ?case using Suc by (simp add: crc16_bit_def del: push_bit_Suc)
qed simp

lemma crc16_low: "(crc16_bit ^^ 8) (x AND 0xFF) = push_bit 8 (x AND 0xFF)"
  by (rule crc16_low_gen) (auto simp: bit_simps)

lemma crc32_high: "k \<le> m \<Longrightarrow> (crc32_bit ^^ k) (push_bit m x) = drop_bit k (push_bit m x)"
proof (induction k)
  case (Suc k)
  have "\<not> bit (drop_bit k (push_bit m x)) 0"
    using Suc.prems by (auto simp: bit_simps)
  with Suc show ?case
    by (simp add: crc32_bit_def add.commute [of 1] flip: drop_bit_drop_bit [of 1, simplified])
qed simp

lemma crc32_high_byte:
  assumes "k \<le> 24" shows "(crc32_bit ^^ k) (push_bit k (ucast (x :: u8))) = ucast x"
proof -
  have "drop_bit k (push_bit k (ucast x :: u32)) = ucast x"
    using assms by (intro bit_eqI) (auto simp: bit_simps dest: bit_imp_le_length)
  then show ?thesis by (simp add: crc32_high)
qed

section \<open>Table-driven equals bit-serial\<close>

lemma crc8_table_nth: "crc8_table ! unat b = (crc8_bit ^^ 8) b" for b :: u8
  by (simp add: crc8_table_gen)

lemma crc16tab_nth: "crc16tab ! unat (b :: u8) = (crc16_bit ^^ 8) (push_bit 8 (ucast b))"
  by (simp add: crc16tab_gen)

lemma crc8_step_serial: "crc8_step c b = crc8_serial c b"
proof -
  have "ucast (push_bit 8 (ucast c :: u16)) = (0 :: u8)"
    by (rule bit_eqI) (auto simp: bit_simps)
  moreover have "ucast (ucast t XOR u :: u16) = t XOR (ucast u :: u8)" for t :: u8 and u :: u16
    by (rule bit_eqI) (auto simp: bit_simps)
  ultimately show ?thesis
    by (simp add: crc8_step_def crc8_serial_def crc8_table_nth)
qed

lemma crc16_step_serial: "crc16_step c b = crc16_serial c b"
proof -
  let ?h = "ucast (drop_bit 8 c) XOR b :: u8"
  have idx: "unat ((drop_bit 8 c XOR ucast b) AND 0x00FF) = unat ?h"
  proof -
    have "(drop_bit 8 c XOR ucast b) AND 0x00FF = (ucast ?h :: u16)"
      by (rule bit_eqI) (auto simp: bit_simps dest: bit_imp_le_length)
    then show ?thesis by (simp add: unsigned_ucast_eq take_bit_nat_eq_self_iff order.strict_trans [OF unat_u8_less])
  qed
  have split: "c XOR push_bit 8 (ucast b) = (c AND 0xFF) XOR push_bit 8 (ucast ?h)"
    by (rule bit_eqI) (auto simp: bit_simps)
  have shift: "push_bit 8 (c AND 0xFF) = push_bit 8 c"
    by (rule bit_eqI) (simp only: bit_simps bit_0xFF, auto)
  show ?thesis
    unfolding crc16_step_def crc16_serial_def idx crc16tab_nth split
      crc16r.pow_xor crc16_low shift ..
qed

text \<open>
  The generator works on complemented values: its step is the shift register step with the
  feedback inverted.
\<close>

lemma crc32_for_byte_step_eq: "crc32_for_byte_step x = crc32_bit x XOR 0xEDB88320"
  by (simp add: crc32_for_byte_step_def crc32_bit_def ac_simps)

lemma crc32_for_byte_eq: "crc32_for_byte x = (crc32_bit ^^ 8) (x XOR 0xFF) XOR 0xFF000000"
proof -
  have k: "(crc32_for_byte_step ^^ n) x = (crc32_bit ^^ n) x XOR (crc32_for_byte_step ^^ n) 0"
    for n
    by (induction n) (simp_all add: crc32_for_byte_step_eq crc32r.f_xor ac_simps)
  have "(crc32_for_byte_step ^^ 8) 0 = (crc32_bit ^^ 8) (0xFF :: u32)"
    unfolding funpow_8 by (simp add: crc32_for_byte_step_def crc32_bit_def)
  then show ?thesis
    by (simp add: crc32_for_byte_def k [of 8] crc32r.pow_xor ac_simps)
qed

lemma crc32table_nth: "crc32table ! unat (b :: u8) = crc32_for_byte (ucast b)"
  by (simp add: crc32table_gen)

lemma crc32_step_serial: "crc32_step c b = NOT (crc32_serial (NOT c) b)"
proof -
  let ?i = "ucast c XOR b :: u8"
  have split: "NOT c XOR ucast b = (ucast ?i XOR 0xFF) XOR push_bit 8 (NOT (drop_bit 8 c))"
    by (rule bit_eqI) (auto simp: bit_simps)
  have shift: "drop_bit 8 (push_bit 8 (NOT (drop_bit 8 c))) = NOT (drop_bit 8 c) XOR (0xFF000000 :: u32)"
    by (rule bit_eqI) (auto simp: bit_simps bit_0xFF000000 dest: bit_imp_le_length)
  show ?thesis
    unfolding crc32_step_def crc32_serial_def crc32table_nth crc32_for_byte_eq split
      crc32r.pow_xor [of _ _ "push_bit 8 _"] crc32_high [of 8 8, OF order.refl] shift
    by (simp add: ac_simps)
qed

section \<open>The contract of a running checksum\<close>

text \<open>
  What the framing layers need of a checksum: it can be computed piecewise, and a step is
  injective in the state and in the byte, so two messages that differ in one byte never
  collide.
\<close>

locale running_checksum =
  fixes step :: "'s \<Rightarrow> 'b \<Rightarrow> 's"
    and run :: "'s \<Rightarrow> 'b list \<Rightarrow> 's"
  assumes run_Nil: "run s [] = s"
    and run_Cons: "run s (b # bs) = run (step s b) bs"
    and step_inj_state: "step s b = step t b \<Longrightarrow> s = t"
    and step_inj_byte: "step s b = step s c \<Longrightarrow> b = c"
begin

lemma run_append: "run s (xs @ ys) = run (run s xs) ys"
  by (induction xs arbitrary: s) (simp_all add: run_Nil run_Cons)

lemma run_inj_state: "run s xs = run t xs \<Longrightarrow> s = t"
  by (induction xs arbitrary: s t) (auto simp: run_Nil run_Cons dest: step_inj_state)

lemma single_byte_error:
  "b \<noteq> c \<Longrightarrow> run s (xs @ b # ys) \<noteq> run s (xs @ c # ys)"
  by (auto simp: run_append run_Cons dest: run_inj_state step_inj_byte)

end

interpretation crc8: running_checksum crc8_step crc8
  by unfold_locales
    (simp_all add: crc8_step_serial crc8_serial_def crc8r.pow_inject xor_left_cancel xor_right_cancel)

interpretation crc16: running_checksum crc16_step crc16
proof unfold_locales
  fix s b c assume "crc16_step s b = crc16_step s c"
  then have "push_bit 8 (ucast b) = (push_bit 8 (ucast c) :: u16)"
    by (simp add: crc16_step_serial crc16_serial_def crc16r.pow_inject xor_left_cancel)
  then have "(ucast (drop_bit 8 (push_bit 8 (ucast b) :: u16)) :: u8) =
             ucast (drop_bit 8 (push_bit 8 (ucast c) :: u16))" by simp
  moreover have "(ucast (drop_bit 8 (push_bit 8 (ucast b) :: u16)) :: u8) = b" for b
    by (rule bit_eqI) (auto simp: bit_simps)
  ultimately show "b = c" by simp
qed (simp_all add: crc16_step_serial crc16_serial_def crc16r.pow_inject xor_right_cancel)

interpretation crc32: running_checksum crc32_step crc32
  by unfold_locales
    (simp_all add: crc32_step_serial crc32_serial_def crc32r.pow_inject xor_left_cancel
      xor_right_cancel not_cancel ucast_u8_inject)

section \<open>Trailers\<close>

text \<open>Feeding four bytes to the register is feeding one little-endian word.\<close>

lemma crc32_serial_word:
  "crc32_serial (crc32_serial (crc32_serial (crc32_serial s a) b) c) d =
     (crc32_bit ^^ 32) (s XOR le32_dec a b c d)"
proof -
  let ?R = "\<lambda>n. crc32_bit ^^ n"
  have absorb: "crc32_serial (?R n x) e = ?R (8 + n) (x XOR push_bit n (ucast e))"
    if "n \<le> 24" for n x e
    using crc32_high_byte [OF that, of e]
    by (simp add: crc32_serial_def funpow_add crc32r.pow_xor)
  have w: "le32_dec a b c d = ucast a XOR push_bit 8 (ucast b) XOR push_bit 16 (ucast c)
     XOR push_bit 24 (ucast d)"
    by (rule bit_eqI) (auto simp: bit_le32_dec bit_simps dest: bit_imp_le_length)
  have "crc32_serial s a = ?R 8 (s XOR ucast a)"
    by (simp add: crc32_serial_def)
  then show ?thesis by (simp add: absorb w xor.assoc)
qed

lemma crc32_word: "crc32 s (le32 w) = NOT ((crc32_bit ^^ 32) (NOT s XOR w))"
proof -
  have "crc32 s [a, b, c, d] = NOT ((crc32_bit ^^ 32) (NOT s XOR le32_dec a b c d))" for a b c d
    by (simp add: crc32_step_serial crc32_serial_word del: bit.xor_compl_left)
  then show ?thesis by (simp add: le32_def le32_dec_le32)
qed

lemma crc32_word_inject: "crc32 s (le32 v) = crc32 s (le32 w) \<longleftrightarrow> v = w"
  by (simp add: crc32_word not_cancel crc32r.pow_inject xor_left_cancel)

text \<open>
  The acceptance test of HDLC, VLLP and the boot command line: the complemented CRC over a
  message and its trailer is zero exactly when the trailer is the complemented CRC of the
  message.
\<close>

lemma crc32_trailer_iff:
  "NOT (crc32 iv (data @ le32 w)) = 0 \<longleftrightarrow> w = NOT (crc32 iv data)"
proof -
  have "NOT (crc32 iv (data @ le32 w)) = 0 \<longleftrightarrow> NOT (crc32 iv data) XOR w = 0"
    by (simp add: crc32.run_append crc32_word crc32r.pow_0_iff)
  also have "\<dots> \<longleftrightarrow> w = NOT (crc32 iv data)"
    using xor_left_cancel [of "NOT (crc32 iv data)" w "NOT (crc32 iv data)"] by simp
  finally show ?thesis .
qed

section \<open>Properties\<close>

text \<open>
  C25. The table-driven \<^verbatim>\<open>crc32\<close> is the IEEE 802.3 CRC-32 (reflected polynomial
  \<^verbatim>\<open>0xEDB88320\<close>, register complemented before and after) computed bit by bit, for every seed
  and every message. The complement that the generator comment hides in the table is exactly
  the usual pre- and post-inversion.
\<close>

theorem crc32_is_ieee: "crc32 iv data = NOT (foldl crc32_serial (NOT iv) data)"
proof (induction data arbitrary: iv)
  case Nil
  then show ?case by simp
next
  case (Cons b data)
  then show ?case by (simp add: crc32_step_serial)
qed

text \<open>
  A receiver that checks \<^verbatim>\<open>~crc32(iv, frame) == 0\<close> accepts exactly the frames whose last
  four bytes are the little-endian complement of the CRC of the rest, whatever the seed.
\<close>

theorem crc32_accepts_iff:
  "NOT (crc32 iv (data @ trailer)) = 0 \<longleftrightarrow> trailer = le32 (NOT (crc32 iv data))"
  if "length trailer = 4"
  using that crc32_trailer_iff by (metis le32_inject le32_surj)

theorem crc32_accepts_iff_witness:
  "length [0x2d, 0x02, 0xef, 0x72 :: u8] = 4 \<and>
   (NOT (crc32 0 ([0] @ [0x2d, 0x02, 0xef, 0x72])) = 0 \<longleftrightarrow>
      [0x2d, 0x02, 0xef, 0x72] = le32 (NOT (crc32 0 [0])))"
  using crc32_accepts_iff [of "[0x2d, 0x02, 0xef, 0x72]" 0 "[0]"] by simp

text \<open>
  C26. Corrupting any four consecutive bytes of a message changes its \<^verbatim>\<open>crc32\<close>: every error burst
  confined to an aligned or unaligned window of 32 bits is detected.
\<close>

theorem crc32_detects_burst:
  assumes "length u = 4" and "length v = 4" and "u \<noteq> v"
  shows "crc32 iv (pre @ u @ post) \<noteq> crc32 iv (pre @ v @ post)"
proof -
  from assms(1,2) obtain a b where "u = le32 a" "v = le32 b" by (metis le32_surj)
  with assms(3) show ?thesis
    by (auto simp: crc32.run_append le32_inject crc32_word_inject dest: crc32.run_inj_state)
qed

theorem crc32_detects_burst_witness:
  "crc32 0 ([1] @ [0, 0, 0, 0] @ [2]) \<noteq> crc32 0 ([1] @ [0, 7, 0, 9] @ [2])"
  by (rule crc32_detects_burst) simp_all

text \<open>
  The table-driven \<^verbatim>\<open>crc16\<close> (polynomial \<^verbatim>\<open>0x1021\<close>) and \<^verbatim>\<open>crc8\<close> (polynomial \<^verbatim>\<open>0x07\<close>) equal
  their most-significant-bit-first shift registers.
\<close>

theorem crc16_crc8_are_serial:
  "crc16 iv16 data = foldl crc16_serial iv16 data \<and> crc8 iv8 data = foldl crc8_serial iv8 data"
proof
  show "crc16 iv16 data = foldl crc16_serial iv16 data"
    by (induction data arbitrary: iv16) (simp_all add: crc16_step_serial)
  show "crc8 iv8 data = foldl crc8_serial iv8 data"
    by (induction data arbitrary: iv8) (simp_all add: crc8_step_serial)
qed

text \<open>\<^verbatim>\<open>crc4\<close> stays inside its table and its input for every seed below 16.\<close>

lemma nibble_iff: "unat (x :: u8) < 16 \<longleftrightarrow> take_bit 4 x = x"
proof -
  have "unat x < 16 \<longleftrightarrow> take_bit 4 (unat x) = unat x"
    by (simp add: take_bit_nat_eq_self_iff)
  then show ?thesis by (simp flip: unsigned_take_bit_eq add: word_unat_eq_iff)
qed

lemma and_0xf: "x AND 0xf = take_bit 4 (x :: u8)"
  by (simp add: take_bit_eq_mask mask_eq_exp_minus_1)

lemma crc4_tab_nibble: "k < 16 \<Longrightarrow> unat (crc4_tab ! k) < 16"
proof -
  have "\<forall>w\<in>set crc4_tab. unat w < 16" by (simp add: crc4_tab_def)
  moreover have "length crc4_tab = 16" by (simp add: crc4_tab_def)
  ultimately show "k < 16 \<Longrightarrow> unat (crc4_tab ! k) < 16" by simp
qed

lemma crc4_loop_safe:
  assumes "unat c < 16" and "nibbles \<le> 2 * length data"
  shows "\<exists>r. crc4_loop c data nibbles i = Some r \<and> unat r < 16"
  using assms
proof (induction c data nibbles i rule: crc4_loop.induct)
  case (1 c data nibbles i)
  show ?case
  proof (cases "i < nibbles")
    case True
    let ?x = "drop_bit (if odd i then 4 else 0) (data ! (i div 2)) AND 0xf"
    have "take_bit 4 ?x = ?x" by (simp add: and_0xf)
    then have j: "unat (c XOR ?x) < 16"
      using "1.prems"(1) by (simp add: nibble_iff take_bit_xor)
    have d: "buf_rd data (i div 2) = Some (data ! (i div 2))"
      using True "1.prems"(2) by (simp add: buf_rd_def)
    have t: "buf_rd crc4_tab (unat (c XOR ?x)) = Some (crc4_tab ! unat (c XOR ?x))"
      using j by (simp add: buf_rd_def crc4_tab_def)
    from "1.IH" [OF True d t crc4_tab_nibble [OF j] "1.prems"(2)] True d t
    show ?thesis by (simp add: crc4_loop.simps [of c])
  next
    case False
    with 1 show ?thesis by (simp add: crc4_loop.simps)
  qed
qed

text \<open>
  \<^verbatim>\<open>crc4\<close> never leaves its 16 entry table or its input, and returns a nibble, when the seed
  is a nibble and the input holds the nibbles asked for; with a larger seed the first lookup
  is already out of bounds.
\<close>

theorem crc4_in_bounds:
  assumes "nibbles \<le> 2 * length data"
  shows "(unat c < 16 \<longrightarrow> (\<exists>r. crc4 c data nibbles = Some r \<and> unat r < 16)) \<and>
         (16 \<le> unat c \<and> 0 < nibbles \<longrightarrow> crc4 c data nibbles = None)"
proof (intro conjI impI)
  show "\<exists>r. crc4 c data nibbles = Some r \<and> unat r < 16" if "unat c < 16"
    using crc4_loop_safe [OF that assms] by (simp add: crc4_def)
  show "crc4 c data nibbles = None" if "16 \<le> unat c \<and> 0 < nibbles"
  proof -
    let ?x = "data ! 0 AND 0xf"
    have "take_bit 4 c \<noteq> c" using that nibble_iff [of c] by auto
    then have "take_bit 4 (c XOR ?x) \<noteq> c XOR ?x"
      by (simp add: take_bit_xor and_0xf xor_right_cancel)
    then have "\<not> unat (c XOR ?x) < 16" by (simp add: nibble_iff)
    then have "buf_rd crc4_tab (unat (c XOR ?x)) = None"
      by (simp add: buf_rd_def crc4_tab_def)
    with that assms show ?thesis
      by (simp add: crc4_def crc4_loop.simps [of c] buf_rd_def)
  qed
qed

theorem crc4_in_bounds_witness:
  "(3 :: nat) \<le> 2 * length [0x12, 0x34 :: u8] \<and>
   (\<exists>r. crc4 5 [0x12, 0x34] 3 = Some r \<and> unat r < 16) \<and> crc4 16 [0x12, 0x34] 3 = None"
  using crc4_in_bounds [of 3 "[0x12, 0x34]" 5] crc4_in_bounds [of 3 "[0x12, 0x34]" 16] by simp

end
