(* ===== verification/Heap_Simple.thy ===== *)
theory Heap_Simple
  imports Mios_Prelude
begin

text \<open>
  The memory allocator of \<^verbatim>\<open>src/lib/libc/heap_simple.c\<close> on a 32-bit target: every block of a
  heap carries an 8 byte header with a next pointer, a 31-bit compressed previous pointer and
  a free bit; the last header of a heap is a sentinel. The headers live in a store from
  addresses to headers; the payload bytes, which only \<^verbatim>\<open>memset\<close> touches here, in a byte memory.

  A panic, a failing assertion and a read through a pointer that points at no header are
  \<^const>\<open>None\<close>. The theory \<^verbatim>\<open>Heap_Refine\<close> holds the abstract heap and the proofs.
\<close>

section \<open>Headers\<close>

record heap_block =
  hb_next :: u32
  hb_prev :: "31 word"
  hb_free :: bool

type_synonym heap_store = "u32 \<rightharpoonup> heap_block"

record heap_header =
  hh_addr :: u32
  hh_blocks :: u32
  hh_type :: u16
  hh_prio :: u16

record heap_state =
  hs_heaps :: "heap_header list"
  hs_mem :: heap_store
  hs_data :: "u32 \<Rightarrow> u8"
  hs_mutex :: bool

definition ALIGN :: "u32 \<Rightarrow> u32 \<Rightarrow> u32" where
  "ALIGN a b = (a + b - 1) AND NOT (b - 1)"

definition hb_get_prev :: "heap_block \<Rightarrow> u32" where
  "hb_get_prev hb = push_bit 1 (ucast (hb_prev hb))"

definition hb_set_prev :: "u32 \<Rightarrow> heap_block \<Rightarrow> heap_block" where
  "hb_set_prev prev hb = hb\<lparr>hb_prev := ucast (drop_bit 1 prev)\<rparr>"

definition hb_size :: "u32 \<Rightarrow> heap_block \<Rightarrow> u32" where
  "hb_size a hb = hb_next hb - a"

text \<open>Writing a field through a pointer: the pointer must point at a header.\<close>

definition hb_upd :: "u32 \<Rightarrow> (heap_block \<Rightarrow> heap_block) \<Rightarrow> heap_store \<Rightarrow> heap_store option" where
  "hb_upd a f m = (case m a of None \<Rightarrow> None | Some b \<Rightarrow> Some (m(a \<mapsto> f b)))"

definition heap_cmp :: "heap_header \<Rightarrow> heap_header \<Rightarrow> bool" where
  "heap_cmp a b \<longleftrightarrow> hh_prio a > hh_prio b"

section \<open>Adding memory\<close>

definition HEAP_START_EBSS :: u32 where
  "HEAP_START_EBSS = 0xffffffff"

text \<open>
  \<^verbatim>\<open>sizeof(heap_header_t)\<close> is 16 and \<^verbatim>\<open>sizeof(heap_block_t)\<close> is 8. The end of the BSS is a
  linker symbol, hence a parameter. Taking the mutex fails to return while it is held.
\<close>

definition heap_lock :: "heap_state \<Rightarrow> heap_state option" where
  "heap_lock st = (if hs_mutex st then None else Some (st\<lparr>hs_mutex := True\<rparr>))"

definition heap_unlock :: "heap_state \<Rightarrow> heap_state" where
  "heap_unlock st = st\<lparr>hs_mutex := False\<rparr>"

definition heap_add_mem ::
  "u32 \<Rightarrow> u32 \<Rightarrow> u32 \<Rightarrow> u8 \<Rightarrow> u8 \<Rightarrow> heap_state \<Rightarrow> heap_state option" where
  "heap_add_mem ebss_start start endp type prio st =
    (let start = (if start = HEAP_START_EBSS then ebss_start else start);
         hb = ALIGN (start + 16) 8;
         sentinel = ALIGN (endp - 8) 8;
         m = (hs_mem st)(hb \<mapsto> \<lparr>hb_next = sentinel, hb_prev = 0, hb_free = True\<rparr>);
         m = m(sentinel \<mapsto> hb_set_prev hb \<lparr>hb_next = 0, hb_prev = 0, hb_free = False\<rparr>);
         hh = \<lparr>hh_addr = start, hh_blocks = hb, hh_type = ucast type, hh_prio = ucast prio\<rparr>
     in do {
       st \<leftarrow> heap_lock (st\<lparr>hs_mem := m\<rparr>);
       Some (heap_unlock (st\<lparr>hs_heaps := list_insert_sorted heap_cmp hh (hs_heaps st)\<rparr>))
     })"

section \<open>The debug walk and the usage report\<close>

text \<open>\<^verbatim>\<open>verify_heap\<close>: a panic or a failing assertion is \<^const>\<open>None\<close>.\<close>

partial_function (option) verify_heap_loop :: "heap_store \<Rightarrow> u32 \<Rightarrow> u32 \<Rightarrow> unit option" where
  "verify_heap_loop m prev hb = do {
     b \<leftarrow> m hb;
     if hb_next b \<noteq> 0 then do {
       adjacent \<leftarrow> (if hb_free b then map_option hb_free (m (hb_next b)) else Some False);
       if adjacent then None
       else if hb_get_prev b \<noteq> prev then None
       else verify_heap_loop m hb (hb_next b)
     } else if hb_get_prev b \<noteq> prev then None
     else if hb_free b then None else Some ()
   }"

definition verify_heap :: "heap_store \<Rightarrow> u32 \<Rightarrow> unit option" where
  "verify_heap m hb = verify_heap_loop m 0 hb"

text \<open>The accounting loop of \<^verbatim>\<open>cmd_show_malloc\<close>: bytes in use and bytes available.\<close>

partial_function (option) show_malloc_loop ::
  "heap_store \<Rightarrow> u32 \<Rightarrow> u32 \<Rightarrow> u32 \<Rightarrow> (u32 \<times> u32) option" where
  "show_malloc_loop m hb use avail = do {
     b \<leftarrow> m hb;
     if hb_next b = 0 then Some (use, avail)
     else if hb_free b then show_malloc_loop m (hb_next b) use (avail + hb_size hb b)
     else show_malloc_loop m (hb_next b) (use + hb_size hb b) avail
   }"

section \<open>Allocation\<close>

text \<open>The part of the loop body of \<^verbatim>\<open>heap_alloc\<close> that splits off the padding in front.\<close>

definition heap_alloc_pad ::
  "heap_store \<Rightarrow> u32 \<Rightarrow> u32 \<Rightarrow> u32 \<Rightarrow> (u32 \<times> heap_store) option" where
  "heap_alloc_pad m hb addr aligned_addr =
    (let align_gap = aligned_addr - addr in
     if align_gap = 0 then Some (hb, m)
     else if \<not> align_gap \<ge> 8 then None
     else do {
       b \<leftarrow> m hb;
       let n = hb_next b;
       let p = hb_get_prev b;
       let split = hb;
       let hb = aligned_addr - 8;
       m \<leftarrow> hb_upd split (hb_free_update (\<lambda>_. True)) m;
       m \<leftarrow> (if p \<noteq> 0 then hb_upd p (hb_next_update (\<lambda>_. split)) m else Some m);
       m \<leftarrow> hb_upd split (hb_set_prev p) m;
       m \<leftarrow> hb_upd split (hb_next_update (\<lambda>_. hb)) m;
       let m = m(hb \<mapsto> hb_set_prev split \<lparr>hb_next = n, hb_prev = 0, hb_free = False\<rparr>);
       m \<leftarrow> hb_upd n (hb_set_prev hb) m;
       Some (hb, m)
     })"

text \<open>The part that marks the block used and splits off the rest behind it.\<close>

definition heap_alloc_tail ::
  "heap_store \<Rightarrow> u32 \<Rightarrow> u32 \<Rightarrow> u32 \<Rightarrow> heap_store option" where
  "heap_alloc_tail m hb aligned_addr sz = do {
     m \<leftarrow> hb_upd hb (hb_free_update (\<lambda>_. False)) m;
     b \<leftarrow> m hb;
     let endp = aligned_addr + sz;
     let tail_gap = hb_next b - endp;
     if tail_gap > 8 then do {
       let n = hb_next b;
       let split = aligned_addr + sz;
       let m = m(split \<mapsto> hb_set_prev hb \<lparr>hb_next = n, hb_prev = 0, hb_free = True\<rparr>);
       m \<leftarrow> hb_upd hb (hb_next_update (\<lambda>_. split)) m;
       hb_upd n (hb_set_prev split) m
     } else Some m
   }"

partial_function (option) heap_alloc_loop ::
  "heap_store \<Rightarrow> u32 \<Rightarrow> u32 \<Rightarrow> u32 \<Rightarrow> (u32 \<times> heap_store) option" where
  "heap_alloc_loop m hb sz align = do {
     b \<leftarrow> m hb;
     if hb_next b = 0 then Some (0, m)
     else if \<not> hb_free b then heap_alloc_loop m (hb_next b) sz align
     else do {
       let addr = hb + 8;
       let aligned_addr = ALIGN addr align;
       let endp = aligned_addr + sz;
       if sint endp > sint (hb_next b) then heap_alloc_loop m (hb_next b) sz align
       else do {
         (hb, m) \<leftarrow> heap_alloc_pad m hb addr aligned_addr;
         m \<leftarrow> heap_alloc_tail m hb aligned_addr sz;
         Some (aligned_addr, m)
       }
     }
   }"

definition heap_alloc :: "heap_store \<Rightarrow> u32 \<Rightarrow> u32 \<Rightarrow> u32 \<Rightarrow> (u32 \<times> heap_store) option" where
  "heap_alloc m hb sz align =
     heap_alloc_loop m hb (ALIGN sz 8) (if align < 8 then 8 else align)"

declare verify_heap_loop.simps [code] show_malloc_loop.simps [code] heap_alloc_loop.simps [code]

section \<open>Release\<close>

definition heap_merge_next :: "u32 \<Rightarrow> heap_store \<Rightarrow> heap_store option" where
  "heap_merge_next hb m = do {
     b \<leftarrow> m hb;
     let next = hb_next b;
     n \<leftarrow> m next;
     if \<not> hb_free n then Some m
     else if \<not> next > hb then None
     else do {
       m \<leftarrow> hb_upd hb (hb_next_update (\<lambda>_. hb_next n)) m;
       hb_upd (hb_next n) (hb_set_prev hb) m
     }
   }"

definition heap_free :: "u32 \<Rightarrow> heap_store \<Rightarrow> heap_store option" where
  "heap_free ptr m =
    (if ptr = 0 then Some m
     else do {
       let hb = ptr - 8;
       b \<leftarrow> m hb;
       if hb_free b then None
       else do {
         m \<leftarrow> hb_upd hb (hb_free_update (\<lambda>_. True)) m;
         m \<leftarrow> heap_merge_next hb m;
         b \<leftarrow> m hb;
         let p = hb_get_prev b;
         if p \<noteq> 0 then do {
           pb \<leftarrow> m p;
           if hb_free pb then (if \<not> p < hb then None else heap_merge_next p m)
           else Some m
         } else Some m
       }
     })"

section \<open>The C library interface\<close>

definition MEM_MAY_FAIL :: u32 where "MEM_MAY_FAIL = 0x80000000"
definition MEM_CLEAR :: u32 where "MEM_CLEAR = 0x40000000"

definition data_set :: "u32 \<Rightarrow> u8 \<Rightarrow> u32 \<Rightarrow> (u32 \<Rightarrow> u8) \<Rightarrow> u32 \<Rightarrow> u8" where
  "data_set p v n d = (\<lambda>x. if x - p < n then v else d x)"

fun malloc0_loop ::
  "heap_header list \<Rightarrow> u32 \<Rightarrow> u32 \<Rightarrow> u32 \<Rightarrow> heap_store \<Rightarrow> (u32 \<times> heap_store) option" where
  "malloc0_loop [] sz align type m = Some (0, m)"
| "malloc0_loop (hh # hhs) sz align type m =
     (let heap_type = type AND 0xffff; hb = hh_blocks hh in
      if hb = 0 then malloc0_loop hhs sz align type m
      else if heap_type \<noteq> 0 \<and> type AND ucast (hh_type hh) \<noteq> heap_type
      then malloc0_loop hhs sz align type m
      else do {
        (x, m) \<leftarrow> heap_alloc m hb sz align;
        if x \<noteq> 0 then Some (x, m) else malloc0_loop hhs sz align type m
      })"

definition malloc0 :: "u32 \<Rightarrow> u32 \<Rightarrow> u32 \<Rightarrow> heap_state \<Rightarrow> (u32 \<times> heap_state) option" where
  "malloc0 sz align type st = do {
     st \<leftarrow> heap_lock st;
     (x, m) \<leftarrow> malloc0_loop (hs_heaps st) sz align type (hs_mem st);
     let st = heap_unlock (st\<lparr>hs_mem := m\<rparr>);
     if x \<noteq> 0 then
       Some (x, if type AND MEM_CLEAR \<noteq> 0
                then st\<lparr>hs_data := data_set x 0 sz (hs_data st)\<rparr> else st)
     else if type AND MEM_MAY_FAIL = 0 then None
     else Some (0, st)
   }"

definition malloc :: "u32 \<Rightarrow> heap_state \<Rightarrow> (u32 \<times> heap_state) option" where
  "malloc sz = malloc0 sz 0 0"

definition calloc :: "u32 \<Rightarrow> u32 \<Rightarrow> heap_state \<Rightarrow> (u32 \<times> heap_state) option" where
  "calloc nmemb sz = malloc0 (sz * nmemb) 0 MEM_CLEAR"

definition memalign :: "u32 \<Rightarrow> u32 \<Rightarrow> heap_state \<Rightarrow> (u32 \<times> heap_state) option" where
  "memalign sz alignment = malloc0 sz alignment 0"

definition xalloc :: "u32 \<Rightarrow> u32 \<Rightarrow> u32 \<Rightarrow> heap_state \<Rightarrow> (u32 \<times> heap_state) option" where
  "xalloc sz alignment type = malloc0 sz alignment type"

definition free :: "u32 \<Rightarrow> heap_state \<Rightarrow> heap_state option" where
  "free ptr st = do {
     st \<leftarrow> heap_lock st;
     m \<leftarrow> heap_free ptr (hs_mem st);
     Some (heap_unlock (st\<lparr>hs_mem := m\<rparr>))
   }"

text \<open>\<^verbatim>\<open>free_try\<close> returns 1 without touching the heap while the mutex is held.\<close>

definition free_try :: "u32 \<Rightarrow> heap_state \<Rightarrow> (int \<times> heap_state) option" where
  "free_try ptr st =
    (if hs_mutex st then Some (1, st)
     else do {
       m \<leftarrow> heap_free ptr (hs_mem st);
       Some (0, heap_unlock (st\<lparr>hs_mem := m\<rparr>))
     })"

end
