(* ===== verification/Heap_Refine.thy ===== *)
theory Heap_Refine
  imports Heap_Simple
begin

text \<open>
  The allocator of \<^verbatim>\<open>Heap_Simple\<close> refines an abstract heap, a list of block addresses with
  their free bits: \<^verbatim>\<open>heap_alloc\<close> is first fit on that list, \<^verbatim>\<open>heap_free\<close> marks a block free
  and joins adjacent free blocks. From this follow the well-formedness invariant, disjointness
  and alignment of the blocks handed out, and that no client that follows the protocol meets
  a panic. The addresses of a heap lie below \<open>2 ^ 31\<close>, as the signed comparison of
  \<^verbatim>\<open>heap_alloc\<close> requires; requests are bounded so that their end does not wrap.
\<close>

section \<open>Address arithmetic\<close>

abbreviation w32 :: "nat \<Rightarrow> u32" where "w32 \<equiv> of_nat"

lemma unat_w32: "x < 2 ^ 32 \<Longrightarrow> unat (w32 x) = x"
  by (simp add: unsigned_of_nat take_bit_nat_eq_self)

lemma w32_inject: "x < 2 ^ 32 \<Longrightarrow> y < 2 ^ 32 \<Longrightarrow> w32 x = w32 y \<longleftrightarrow> x = y"
  by (metis unat_w32)

lemma w32_less: "x < 2 ^ 32 \<Longrightarrow> y < 2 ^ 32 \<Longrightarrow> w32 x < w32 y \<longleftrightarrow> x < y"
  by (simp add: word_less_nat_alt unat_w32)

lemma w32_le: "x < 2 ^ 32 \<Longrightarrow> y < 2 ^ 32 \<Longrightarrow> w32 x \<le> w32 y \<longleftrightarrow> x \<le> y"
  by (simp add: word_le_nat_alt unat_w32)

lemma w32_diff: "y \<le> x \<Longrightarrow> w32 x - w32 y = w32 (x - y)"
  by (simp add: of_nat_diff)

lemma sint_w32: "x < 2 ^ 31 \<Longrightarrow> sint (w32 x) = int x"
  by (simp add: sint_uint signed_take_bit_eq_if_positive take_bit_int_eq_self bit_iff_odd unat_w32 uint_nat)

definition round_up :: "nat \<Rightarrow> nat \<Rightarrow> nat" where
  "round_up a b = (a + b - 1) div b * b"

lemma and_not_mask: "x AND NOT (mask k) = push_bit k (drop_bit k x)" for x :: "'a::len word"
  by (rule bit_eqI) (auto simp: bit_simps)

lemma ALIGN_w32:
  assumes "a + 2 ^ k \<le> 2 ^ 32" and "k < 32"
  shows "ALIGN (w32 a) (2 ^ k) = w32 (round_up a (2 ^ k))"
proof -
  let ?x = "a + 2 ^ k - 1"
  have m: "(2 ^ k - 1 :: u32) = mask k" by (simp add: mask_eq_exp_minus_1)
  have one: "(1 :: nat) \<le> a + 2 ^ k" using one_le_power [of "2 :: nat" k] by linarith
  have s: "w32 a + 2 ^ k - 1 = w32 ?x"
    using of_nat_diff [OF one, where 'a = u32] by simp
  have b: "?x < 2 ^ 32" using assms one by linarith
  have "?x div 2 ^ k * 2 ^ k < 2 ^ 32" using b div_times_less_eq_dividend order.strict_trans1 by blast
  then have "unat (push_bit k (drop_bit k (w32 ?x))) = ?x div 2 ^ k * 2 ^ k"
    using b by (simp only: unsigned_push_bit_eq unsigned_drop_bit_eq unsigned_of_nat)
      (simp add: take_bit_nat_eq_self push_bit_eq_mult drop_bit_eq_div)
  then have "unat (ALIGN (w32 a) (2 ^ k)) = round_up a (2 ^ k)"
    unfolding ALIGN_def m s and_not_mask round_up_def .
  moreover have "unat (w32 (round_up a (2 ^ k))) = round_up a (2 ^ k)"
    using \<open>?x div 2 ^ k * 2 ^ k < 2 ^ 32\<close> by (simp only: unat_w32 round_up_def)
  ultimately show ?thesis by (simp add: word_unat_eq_iff)
qed

lemma round_up_ge: "0 < b \<Longrightarrow> a \<le> round_up a b"
proof -
  assume "0 < b"
  then have "a + b - 1 < (a + b - 1) div b * b + b"
    by (metis add.commute div_mult_mod_eq mod_less_divisor nat_add_left_cancel_less)
  then show ?thesis unfolding round_up_def using \<open>0 < b\<close> by linarith
qed

lemma round_up_less: "0 < b \<Longrightarrow> round_up a b < a + b"
  unfolding round_up_def using div_times_less_eq_dividend [of "a + b - 1" b] by linarith

lemma round_up_dvd: "b dvd round_up a b"
  by (simp add: round_up_def)

lemma round_up_self: "0 < b \<Longrightarrow> b dvd a \<Longrightarrow> round_up a b = a"
proof -
  assume "0 < b" "b dvd a"
  moreover from this have "b dvd round_up a b - a" using round_up_dvd by (rule_tac dvd_diff_nat)
  moreover have "round_up a b - a < b" using round_up_less [of b a] \<open>0 < b\<close> by linarith
  ultimately have "round_up a b - a = 0" by (meson dvd_imp_le gr0I linorder_not_less)
  then show ?thesis using round_up_ge [of b a] \<open>0 < b\<close> by linarith
qed

section \<open>The abstract heap\<close>

text \<open>
  A heap is the list of its blocks, each the address of its header and its free bit, and the
  address of the sentinel. A block reaches up to the next header.
\<close>

type_synonym blocks = "(nat \<times> bool) list"

fun blk_first :: "blocks \<Rightarrow> nat \<Rightarrow> nat" where
  "blk_first [] s = s"
| "blk_first ((a, f) # bs) s = a"

fun blk_free :: "blocks \<Rightarrow> bool" where
  "blk_free [] = False"
| "blk_free ((a, f) # bs) = f"

fun wf_blocks :: "blocks \<Rightarrow> nat \<Rightarrow> bool" where
  "wf_blocks [] s \<longleftrightarrow> 8 dvd s \<and> 0 < s \<and> s < 2 ^ 31"
| "wf_blocks ((a, f) # bs) s \<longleftrightarrow>
     8 dvd a \<and> 0 < a \<and> a < blk_first bs s \<and> \<not> (f \<and> blk_free bs) \<and> wf_blocks bs s"

definition hdr :: "nat \<Rightarrow> nat \<Rightarrow> bool \<Rightarrow> heap_block" where
  "hdr n p f = hb_set_prev (w32 p) \<lparr>hb_next = w32 n, hb_prev = 0, hb_free = f\<rparr>"

text \<open>The store holds the headers of the blocks, doubly linked, with \<open>p\<close> in front.\<close>

fun heap_rep :: "heap_store \<Rightarrow> nat \<Rightarrow> blocks \<Rightarrow> nat \<Rightarrow> bool" where
  "heap_rep m p [] s \<longleftrightarrow> m (w32 s) = Some (hdr 0 p False)"
| "heap_rep m p ((a, f) # bs) s \<longleftrightarrow>
     m (w32 a) = Some (hdr (blk_first bs s) p f) \<and> heap_rep m a bs s"

definition first_hdr :: "nat \<Rightarrow> blocks \<Rightarrow> nat \<Rightarrow> heap_block" where
  "first_hdr p bs s =
     (case bs of [] \<Rightarrow> hdr 0 p False | (a, f) # bs' \<Rightarrow> hdr (blk_first bs' s) p f)"

lemma hdr_simps [simp]:
  "hb_next (hdr n p f) = w32 n" "hb_free (hdr n p f) = f"
  "hb_next_update (\<lambda>_. w32 n') (hdr n p f) = hdr n' p f"
  "hb_free_update (\<lambda>_. f') (hdr n p f) = hdr n p f'"
  "hb_set_prev (w32 p') (hdr n p f) = hdr n p' f"
  by (simp_all add: hdr_def hb_set_prev_def)

lemma prev_field_roundtrip:
  assumes "\<not> bit x 0"
  shows "push_bit 1 (ucast (ucast (drop_bit 1 x) :: 31 word)) = (x :: u32)"
proof (rule bit_eqI)
  fix n
  show "bit (push_bit 1 (ucast (ucast (drop_bit 1 x) :: 31 word)) :: u32) n = bit x n"
    using assms by (cases n) (auto simp: bit_times_2 bit_simps dest: bit_imp_le_length)
qed

lemma hb_get_prev_hdr: "even p \<Longrightarrow> hb_get_prev (hdr n p f) = w32 p"
  using prev_field_roundtrip [of "w32 p"]
  by (simp add: hb_get_prev_def hdr_def hb_set_prev_def bit_0)

lemma wf_first_bounds:
  "wf_blocks bs s \<Longrightarrow> 0 < blk_first bs s \<and> 8 dvd blk_first bs s \<and> blk_first bs s \<le> s \<and> s < 2 ^ 31"
  by (induction bs s rule: wf_blocks.induct) auto

lemma wf_addr_bounds:
  "wf_blocks bs s \<Longrightarrow> a \<in> fst ` set bs \<Longrightarrow> blk_first bs s \<le> a \<and> a < s"
proof (induction bs s rule: wf_blocks.induct)
  case (2 b f bs s)
  then show ?case using wf_first_bounds [of bs s] by (cases "a \<in> fst ` set bs") auto
qed simp

lemma heap_rep_first: "heap_rep m p bs s \<Longrightarrow> m (w32 (blk_first bs s)) = Some (first_hdr p bs s)"
  by (cases bs) (auto simp: first_hdr_def)

lemma first_hdr_simps [simp]:
  "hb_free (first_hdr p bs s) = blk_free bs"
  "hb_set_prev (w32 q) (first_hdr p bs s) = first_hdr q bs s"
  by (cases bs; auto simp: first_hdr_def)+

lemma heap_rep_cong:
  assumes "\<And>x. x \<in> insert s (fst ` set bs) \<Longrightarrow> m' (w32 x) = m (w32 x)"
  shows "heap_rep m' p bs s = heap_rep m p bs s"
  using assms by (induction m p bs s rule: heap_rep.induct) auto

lemma heap_rep_frame:
  assumes "wf_blocks bs s" and "\<And>x. blk_first bs s \<le> x \<Longrightarrow> x \<le> s \<Longrightarrow> m' (w32 x) = m (w32 x)"
  shows "heap_rep m' p bs s = heap_rep m p bs s"
proof (rule heap_rep_cong)
  fix x assume "x \<in> insert s (fst ` set bs)"
  then have "blk_first bs s \<le> x" "x \<le> s"
    using wf_addr_bounds [OF assms(1), of x] wf_first_bounds [OF assms(1)]
    by (cases "x = s"; simp add: less_imp_le)+
  then show "m' (w32 x) = m (w32 x)" by (rule assms(2))
qed

text \<open>Relinking the first header of a chain to another predecessor.\<close>

lemma heap_rep_relink:
  assumes "heap_rep m p bs s" and "wf_blocks bs s"
  shows "heap_rep (m(w32 (blk_first bs s) \<mapsto> first_hdr q bs s)) q bs s"
proof (cases bs)
  case Nil
  then show ?thesis by (simp add: first_hdr_def)
next
  case (Cons b bs')
  obtain a f where b: "b = (a, f)" by fastforce
  let ?m = "m(w32 a \<mapsto> hdr (blk_first bs' s) q f)"
  have "heap_rep ?m a bs' s = heap_rep m a bs' s"
  proof (rule heap_rep_frame)
    show "wf_blocks bs' s" using assms(2) Cons b by simp
    show "?m (w32 x) = m (w32 x)" if "blk_first bs' s \<le> x" "x \<le> s" for x
    proof -
      have "a < x" "x < 2 ^ 31" using that assms(2) Cons b wf_first_bounds [of bs' s] by auto
      then show ?thesis by (simp add: w32_inject)
    qed
  qed
  with assms(1) Cons b show ?thesis by (simp add: first_hdr_def)
qed

section \<open>Allocation refines first fit\<close>

definition pred_linked :: "heap_store \<Rightarrow> nat \<Rightarrow> nat \<Rightarrow> bool" where
  "pred_linked m p a \<longleftrightarrow>
     8 dvd p \<and> p < a \<and> (p \<noteq> 0 \<longrightarrow> (\<exists>b. m (w32 p) = Some b \<and> hb_next b = w32 a))"

lemma hb_upd_Some: "m a = Some b \<Longrightarrow> hb_upd a f m = Some (m(a \<mapsto> f b))"
  by (simp add: hb_upd_def)

lemma heap_alloc_pad_none:
  "heap_alloc_pad m hb addr addr = Some (hb, m)"
  by (simp add: heap_alloc_pad_def)

lemma pred_relink_same:
  assumes "pred_linked m p a"
  shows "(if w32 p \<noteq> 0 then hb_upd (w32 p) (hb_next_update (\<lambda>_. w32 a)) m else Some m) = Some m"
proof (cases "w32 p = 0")
  case False
  then have "p \<noteq> 0" by (cases "p = 0") simp_all
  with assms obtain b where "m (w32 p) = Some b" "hb_next b = w32 a"
    by (auto simp: pred_linked_def)
  then show ?thesis using False by (simp add: hb_upd_def fun_upd_idem)
qed simp

lemma wf_tail: "wf_blocks ((a, f) # bs) s \<Longrightarrow> wf_blocks bs s"
  by simp

lemma heap_alloc_pad_rep:
  assumes rep: "heap_rep m p ((a, True) # bs) s" and wf: "wf_blocks ((a, True) # bs) s"
    and pl: "pred_linked m p a"
    and h: "a + 8 \<le> h" "h + 8 \<le> blk_first bs s"
  shows "\<exists>m'. heap_alloc_pad m (w32 a) (w32 (a + 8)) (w32 (h + 8)) = Some (w32 h, m') \<and>
    heap_rep m' p ((a, True) # (h, False) # bs) s \<and>
    (\<forall>x. x < 2 ^ 31 \<and> (x < a \<or> s < x) \<longrightarrow> m' (w32 x) = m (w32 x))"
proof -
  let ?n = "blk_first bs s"
  let ?m4 = "m(w32 a \<mapsto> hdr h p True, w32 h \<mapsto> hdr ?n a False)"
  let ?m' = "?m4(w32 ?n \<mapsto> first_hdr h bs s)"
  have bnd: "?n \<le> s" "s < 2 ^ 31" using wf wf_first_bounds [of bs s] by auto
  have ma: "m (w32 a) = Some (hdr ?n p True)" and mr: "heap_rep m a bs s"
    using rep by simp_all
  have neq: "w32 a \<noteq> w32 h" "w32 h \<noteq> w32 a" "w32 ?n \<noteq> w32 a" "w32 ?n \<noteq> w32 h"
    using bnd h by (simp_all add: w32_inject)
  have mn: "?m4 (w32 ?n) = Some (first_hdr a bs s)"
    using heap_rep_first [OF mr] neq by simp
  have upd: "hb_upd (w32 ?n) (hb_set_prev (w32 h)) ?m4 = Some ?m'"
    using mn by (simp add: hb_upd_Some)
  have idem: "m(w32 a \<mapsto> hdr ?n p True) = m" using ma by (simp add: fun_upd_idem)
  have g: "w32 (h + 8) - w32 (a + 8) = w32 (h - a)" "w32 (h + 8) - 8 = w32 h"
    using h w32_diff [of a h] by simp_all
  have g0: "w32 (h - a) \<noteq> 0" "8 \<le> w32 (h - a)"
    using h bnd w32_inject [of "h - a" 0] w32_le [of 8 "h - a"] by simp_all
  have pv: "hb_get_prev (hdr ?n p True) = w32 p"
    using pl by (intro hb_get_prev_hdr) (auto simp: pred_linked_def elim: dvd_trans [rotated])
  have run: "heap_alloc_pad m (w32 a) (w32 (a + 8)) (w32 (h + 8)) = Some (w32 h, ?m')"
    unfolding heap_alloc_pad_def Let_def g
    using g0 ma pv idem pred_relink_same [OF pl] upd neq
    by (simp add: hb_upd_Some cong: if_cong split del: if_split flip: hdr_def)
  have "heap_rep ?m4 a bs s = heap_rep m a bs s"
    using h bnd by (intro heap_rep_frame [OF wf_tail [OF wf]]) (simp add: w32_inject)
  then have "heap_rep ?m' h bs s"
    using mr by (intro heap_rep_relink [OF _ wf_tail [OF wf]]) simp
  then have "heap_rep ?m' p ((a, True) # (h, False) # bs) s"
    using neq by simp
  moreover have "\<forall>x. x < 2 ^ 31 \<and> (x < a \<or> s < x) \<longrightarrow> ?m' (w32 x) = m (w32 x)"
    using h bnd by (auto simp: w32_inject)
  ultimately show ?thesis using run by blast
qed

lemma heap_alloc_tail_rep:
  assumes rep: "heap_rep m p ((a, f) # bs) s" and wf: "wf_blocks ((a, f) # bs) s"
    and t: "t = a + 8 + n" and e: "t \<le> blk_first bs s"
  shows "\<exists>m'. heap_alloc_tail m (w32 a) (w32 (a + 8)) (w32 n) = Some m' \<and>
    heap_rep m' p ((a, False) # (if blk_first bs s - t > 8 then [(t, True)] else []) @ bs) s \<and>
    (\<forall>x. x < 2 ^ 31 \<and> (x < a \<or> s < x) \<longrightarrow> m' (w32 x) = m (w32 x))"
proof -
  let ?n = "blk_first bs s"
  let ?m1 = "m(w32 a \<mapsto> hdr ?n p False)"
  have bnd: "?n \<le> s" "s < 2 ^ 31" "a < ?n" "a < t" using wf wf_first_bounds [of bs s] t by auto
  have ma: "m (w32 a) = Some (hdr ?n p f)" and mr: "heap_rep m a bs s"
    using rep by simp_all
  have start: "hb_upd (w32 a) (hb_free_update (\<lambda>_. False)) m = Some ?m1"
    using ma by (simp add: hb_upd_Some)
  have at: "w32 (a + 8) + w32 n = w32 t" by (simp add: t)
  have g: "w32 ?n - w32 t = w32 (?n - t)" by (rule w32_diff [OF e])
  have cmp: "8 < w32 (?n - t) \<longleftrightarrow> 8 < ?n - t"
    using bnd w32_less [of 8 "?n - t"] by simp
  have mr1: "heap_rep ?m1 a bs s"
    using mr heap_rep_frame [OF wf_tail [OF wf], of ?m1 m a] bnd by (simp add: w32_inject)
  show ?thesis
  proof (cases "?n - t > 8")
    case False
    then have "heap_alloc_tail m (w32 a) (w32 (a + 8)) (w32 n) = Some ?m1"
      unfolding heap_alloc_tail_def Let_def at using start g cmp by (simp del: of_nat_diff)
    then show ?thesis using False mr1 bnd by (auto simp: w32_inject)
  next
    case True
    let ?m2 = "?m1(w32 t \<mapsto> hdr ?n a True, w32 a \<mapsto> hdr t p False)"
    let ?m' = "?m2(w32 ?n \<mapsto> first_hdr t bs s)"
    have neq: "w32 t \<noteq> w32 a" "w32 a \<noteq> w32 t" "w32 ?n \<noteq> w32 a" "w32 ?n \<noteq> w32 t"
      using bnd True by (simp_all add: w32_inject)
    have fr: "heap_rep ?m2 a bs s = heap_rep m a bs s"
      using bnd True by (intro heap_rep_frame [OF wf_tail [OF wf]]) (auto simp: w32_inject)
    have rl: "heap_rep ?m' t bs s"
      using fr mr by (intro heap_rep_relink [OF _ wf_tail [OF wf]]) simp
    have mn: "?m2 (w32 ?n) = Some (first_hdr a bs s)"
      using fr mr heap_rep_first [of ?m2 a bs s] by simp
    have upd: "hb_upd (w32 ?n) (hb_set_prev (w32 t)) ?m2 = Some ?m'"
      using mn by (simp only: hb_upd_Some first_hdr_simps)
    have "heap_alloc_tail m (w32 a) (w32 (a + 8)) (w32 n) = Some ?m'"
      unfolding heap_alloc_tail_def Let_def at
      using start g True cmp upd neq
      by (simp add: hb_upd_Some del: of_nat_diff flip: hdr_def)
    moreover have "heap_rep ?m' p ((a, False) # (t, True) # bs) s"
      using rl neq by simp
    moreover have "\<forall>x. x < 2 ^ 31 \<and> (x < a \<or> s < x) \<longrightarrow> ?m' (w32 x) = m (w32 x)"
      using bnd True by (auto simp: w32_inject)
    ultimately show ?thesis using True by auto
  qed
qed

text \<open>First fit on the abstract heap.\<close>

definition fit_split :: "nat \<Rightarrow> nat \<Rightarrow> nat \<Rightarrow> nat \<Rightarrow> blocks" where
  "fit_split a n q sz =
     (if q = a + 8 then [] else [(a, True)]) @
     (q - 8, False) # (if n - (q + sz) > 8 then [(q + sz, True)] else [])"

fun first_fit :: "blocks \<Rightarrow> nat \<Rightarrow> nat \<Rightarrow> nat \<Rightarrow> (nat \<times> blocks) option" where
  "first_fit [] s sz al = None"
| "first_fit ((a, f) # bs) s sz al =
     (let n = blk_first bs s; q = round_up (a + 8) al in
      if f \<and> q + sz \<le> n then Some (q, fit_split a n q sz @ bs)
      else map_option (\<lambda>(q, bs'). (q, (a, f) # bs')) (first_fit bs s sz al))"

lemma first_fit_first: "first_fit bs s sz al = Some (q, bs') \<Longrightarrow> 0 < al \<Longrightarrow> blk_first bs' s = blk_first bs s"
  by (cases "(bs, s, sz, al)" rule: first_fit.cases)
    (auto simp: Let_def fit_split_def split: if_splits)

lemma align_pow_bounds:
  assumes "(al :: nat) = 2 ^ k" and "8 \<le> al" and "al < 2 ^ 31"
  shows "k < 31" and "8 dvd al"
proof -
  show "k < 31" using assms power_less_imp_less_exp [of "2 :: nat" k 31] by simp
  have "(2 :: nat) ^ 3 \<le> 2 ^ k" using assms by simp
  then have "3 \<le> k" by (rule power_le_imp_le_exp [rotated]) simp
  then show "8 dvd al" using le_imp_power_dvd [of 3 k "2 :: nat"] assms(1) by simp
qed

text \<open>Taking a fitting free block: padding in front, then the rest behind.\<close>

lemma heap_alloc_take:
  assumes rep: "heap_rep m p ((a, True) # bs) s" and wf: "wf_blocks ((a, True) # bs) s"
    and pl: "pred_linked m p a" and q: "8 dvd q" "a + 8 \<le> q" "q + sz \<le> blk_first bs s"
  shows "\<exists>hb m1 m'. heap_alloc_pad m (w32 a) (w32 (a + 8)) (w32 q) = Some (hb, m1) \<and>
    heap_alloc_tail m1 hb (w32 q) (w32 sz) = Some m' \<and>
    heap_rep m' p (fit_split a (blk_first bs s) q sz @ bs) s \<and>
    (\<forall>x. x < 2 ^ 31 \<and> (x < a \<or> s < x) \<longrightarrow> m' (w32 x) = m (w32 x))"
proof (cases "q = a + 8")
  case True
  then show ?thesis
    using heap_alloc_tail_rep [OF rep wf refl, of sz] q heap_alloc_pad_none
    by (simp add: fit_split_def)
next
  case False
  define h where "h = q - 8"
  have qh: "q = h + 8" using q by (simp add: h_def)
  have "8 dvd h" "8 dvd a" using q(1) wf by (simp_all add: qh)
  moreover have "a < h" using False q(2) qh by simp
  ultimately have h: "a + 8 \<le> h" "h + 8 \<le> blk_first bs s"
    using q(3) qh dvd_imp_le [of 8 "h - a"] by (auto simp: dvd_diff_nat)
  obtain m1 where m1: "heap_alloc_pad m (w32 a) (w32 (a + 8)) (w32 q) = Some (w32 h, m1)"
    "heap_rep m1 p ((a, True) # (h, False) # bs) s"
    "\<And>x. x < 2 ^ 31 \<Longrightarrow> x < a \<or> s < x \<Longrightarrow> m1 (w32 x) = m (w32 x)"
    using heap_alloc_pad_rep [OF rep wf pl h] qh by auto
  have wf1: "wf_blocks ((h, False) # bs) s" using wf h \<open>8 dvd h\<close> by simp
  obtain m2 where m2: "heap_alloc_tail m1 (w32 h) (w32 (h + 8)) (w32 sz) = Some m2"
    "heap_rep m2 a ((h, False) # (if blk_first bs s - (q + sz) > 8 then [(q + sz, True)] else []) @ bs) s"
    "\<And>x. x < 2 ^ 31 \<Longrightarrow> x < h \<or> s < x \<Longrightarrow> m2 (w32 x) = m1 (w32 x)"
    using heap_alloc_tail_rep [OF _ wf1 refl, of m1 a sz] m1(2) q(3) qh by auto
  have s: "s < 2 ^ 31" "h < s" using wf wf_first_bounds [of bs s] h by auto
  have "m2 (w32 a) = Some (hdr h p True)"
    using m1(2) m2(3) [of a] h s by simp
  moreover have "fit_split a (blk_first bs s) q sz @ bs = (a, True) # (h, False) #
      (if blk_first bs s - (q + sz) > 8 then [(q + sz, True)] else []) @ bs"
    using False by (simp add: fit_split_def h_def)
  ultimately have "heap_rep m2 p (fit_split a (blk_first bs s) q sz @ bs) s"
    using m2(2) by (simp only: heap_rep.simps(2) blk_first.simps(2))
  moreover have "m2 (w32 x) = m (w32 x)" if "x < 2 ^ 31" "x < a \<or> s < x" for x
    using that m1(3) m2(3) h by auto
  ultimately show ?thesis using m1(1) m2(1) qh by blast
qed

lemma heap_alloc_loop_refines:
  assumes "heap_rep m p bs s" and "wf_blocks bs s" and "pred_linked m p (blk_first bs s)"
    and al: "al = 2 ^ k" "8 \<le> al" and room: "s + al + sz < 2 ^ 31"
  shows "case first_fit bs s sz al of
      None \<Rightarrow> heap_alloc_loop m (w32 (blk_first bs s)) (w32 sz) (w32 al) = Some (0, m)
    | Some (q, bs') \<Rightarrow>
        \<exists>m'. heap_alloc_loop m (w32 (blk_first bs s)) (w32 sz) (w32 al) = Some (w32 q, m') \<and>
          heap_rep m' p bs' s \<and>
          (\<forall>x. x < 2 ^ 31 \<and> (x < blk_first bs s \<or> s < x) \<longrightarrow> m' (w32 x) = m (w32 x))"
  using assms(1-3)
proof (induction bs arbitrary: p)
  case Nil
  then show ?case by (simp add: heap_alloc_loop.simps)
next
  case (Cons b bs)
  obtain a f where b: "b = (a, f)" by fastforce
  let ?n = "blk_first bs s" and ?q = "round_up (a + 8) al"
  let ?L = "heap_alloc_loop m (w32 a) (w32 sz) (w32 al)"
  let ?R = "heap_alloc_loop m (w32 ?n) (w32 sz) (w32 al)"
  have rep: "heap_rep m p ((a, f) # bs) s" and wf: "wf_blocks ((a, f) # bs) s"
    and pl: "pred_linked m p a" using Cons.prems b by simp_all
  have bnd: "?n \<le> s" "s < 2 ^ 31" "a < ?n" "0 < ?n" using wf wf_first_bounds [of bs s] by auto
  have ma: "m (w32 a) = Some (hdr ?n p f)" using rep by simp
  have n0: "w32 ?n \<noteq> 0" using bnd w32_inject [of ?n 0] by simp
  have alb: "al < 2 ^ 31" "0 < al" using room al(2) by linarith+
  have q: "ALIGN (w32 (a + 8)) (w32 al) = w32 ?q"
    using ALIGN_w32 [of "a + 8" k] al room bnd align_pow_bounds [OF al alb(1)] by simp
  have qb: "a + 8 \<le> ?q" "?q < a + 8 + al" "8 dvd ?q"
    using round_up_ge round_up_less align_pow_bounds(2) [OF al alb(1)] round_up_dvd alb(2)
    by (auto intro: dvd_trans)
  have "a + 8 \<le> ?n"
    using wf wf_first_bounds [of bs s] bnd(3) dvd_imp_le [of 8 "?n - a"] by (simp add: dvd_diff_nat)
  then have qs: "?q + sz < 2 ^ 31" using qb room bnd by linarith
  have cmp: "sint (w32 (?q + sz)) > sint (w32 ?n) \<longleftrightarrow> ?n < ?q + sz"
    using qs bnd sint_w32 [of "?q + sz"] sint_w32 [of ?n] by linarith
  show ?case
  proof (cases "f \<and> ?q + sz \<le> ?n")
    case True
    then obtain hb m1 m' where t:
      "heap_alloc_pad m (w32 a) (w32 (a + 8)) (w32 ?q) = Some (hb, m1)"
      "heap_alloc_tail m1 hb (w32 ?q) (w32 sz) = Some m'"
      "heap_rep m' p (fit_split a ?n ?q sz @ bs) s"
      "\<forall>x. x < 2 ^ 31 \<and> (x < a \<or> s < x) \<longrightarrow> m' (w32 x) = m (w32 x)"
      using heap_alloc_take [of m p a bs s ?q sz] rep wf pl qb by auto
    have "?L = Some (w32 ?q, m')"
      using ma n0 True q cmp t(1,2) by (subst heap_alloc_loop.simps) (simp add: Let_def)
    then show ?thesis using True t(3,4) b by (simp add: Let_def)
  next
    case False
    have L: "?L = ?R"
      using ma n0 False q cmp by (subst heap_alloc_loop.simps) (auto simp: Let_def)
    have "pred_linked m a ?n"
      using ma wf by (simp add: pred_linked_def)
    with Cons.IH [of a] rep wf have IH: "case first_fit bs s sz al of None \<Rightarrow> ?R = Some (0, m)
      | Some (q, bs') \<Rightarrow> \<exists>m'. ?R = Some (w32 q, m') \<and> heap_rep m' a bs' s \<and>
          (\<forall>x. x < 2 ^ 31 \<and> (x < ?n \<or> s < x) \<longrightarrow> m' (w32 x) = m (w32 x))" by simp
    have ff: "first_fit (b # bs) s sz al =
        map_option (\<lambda>(q, bs'). (q, (a, f) # bs')) (first_fit bs s sz al)"
      using False b by (auto simp: Let_def)
    show ?thesis
    proof (cases "first_fit bs s sz al")
      case None
      then show ?thesis using IH L b ff by (simp del: first_fit.simps)
    next
      case (Some r)
      obtain q bs' where r: "r = (q, bs')" by fastforce
      with IH Some obtain m' where m': "?R = Some (w32 q, m')" "heap_rep m' a bs' s"
        "\<forall>x. x < 2 ^ 31 \<and> (x < ?n \<or> s < x) \<longrightarrow> m' (w32 x) = m (w32 x)" by auto
      have "m' (w32 a) = Some (hdr (blk_first bs' s) p f)"
        using m'(3) ma bnd Some r first_fit_first alb(2) by simp
      with m' L b Some r bnd ff show ?thesis by (auto simp del: first_fit.simps)
    qed
  qed
qed

section \<open>Release\<close>

text \<open>A stretch of the chain in front of the header at \<open>n\<close>.\<close>

fun heap_seg :: "heap_store \<Rightarrow> nat \<Rightarrow> blocks \<Rightarrow> nat \<Rightarrow> bool" where
  "heap_seg m p [] n \<longleftrightarrow> True"
| "heap_seg m p ((a, f) # bs) n \<longleftrightarrow>
     m (w32 a) = Some (hdr (blk_first bs n) p f) \<and> heap_seg m a bs n"

definition last_addr :: "nat \<Rightarrow> blocks \<Rightarrow> nat" where
  "last_addr p bs = (if bs = [] then p else fst (last bs))"

lemma last_addr_Cons [simp]: "last_addr p ((a, f) # bs) = last_addr a bs"
  by (simp add: last_addr_def)

lemma blk_first_append: "blk_first (xs @ ys) s = blk_first xs (blk_first ys s)"
  by (cases xs) auto

lemma heap_rep_append:
  "heap_rep m p (xs @ ys) s \<longleftrightarrow>
     heap_seg m p xs (blk_first ys s) \<and> heap_rep m (last_addr p xs) ys s"
  by (induction m p xs "blk_first ys s" rule: heap_seg.induct)
    (simp_all add: last_addr_def blk_first_append)

lemma heap_seg_append:
  "heap_seg m p (xs @ ys) n \<longleftrightarrow>
     heap_seg m p xs (blk_first ys n) \<and> heap_seg m (last_addr p xs) ys n"
  by (induction m p xs "blk_first ys n" rule: heap_seg.induct)
    (simp_all add: last_addr_def blk_first_append)

lemma heap_seg_cong:
  "(\<And>x. x \<in> fst ` set xs \<Longrightarrow> m' (w32 x) = m (w32 x)) \<Longrightarrow> heap_seg m' p xs n = heap_seg m p xs n"
  by (induction m p xs n rule: heap_seg.induct) auto

lemma wf_append_right: "wf_blocks (xs @ ys) s \<Longrightarrow> wf_blocks ys s"
  by (induction xs) auto

lemma wf_left_below: "wf_blocks (xs @ ys) s \<Longrightarrow> x \<in> fst ` set xs \<Longrightarrow> x < blk_first ys s"
proof (induction xs)
  case (Cons b xs)
  have "blk_first (xs @ ys) s \<le> blk_first ys s"
    using Cons.prems wf_first_bounds [of "ys" s] wf_addr_bounds [of "xs @ ys" s "blk_first ys s"]
      wf_first_bounds [of "xs @ ys" s] wf_append_right [of "b # xs" ys s]
    by (cases ys; cases b; cases xs) (auto simp: image_iff)
  with Cons show ?case by (cases b) auto
qed simp

definition merged :: "blocks \<Rightarrow> blocks" where
  "merged bs = (if blk_free bs then tl bs else bs)"

lemma wf_merged: "wf_blocks bs s \<Longrightarrow> wf_blocks (merged bs) s \<and> \<not> blk_free (merged bs)"
  by (cases "(bs, s)" rule: wf_blocks.cases) (auto simp: merged_def)

lemma merged_first: "wf_blocks bs s \<Longrightarrow> blk_first bs s \<le> blk_first (merged bs) s"
  by (cases "(bs, s)" rule: wf_blocks.cases) (auto simp: merged_def)

lemma heap_merge_next_rep:
  assumes rep: "heap_rep m p ((a, f) # bs) s" and lt: "a < blk_first bs s" and wf: "wf_blocks bs s"
  shows "\<exists>m'. heap_merge_next (w32 a) m = Some m' \<and> heap_rep m' p ((a, f) # merged bs) s \<and>
    (\<forall>x. x < 2 ^ 31 \<and> (x < a \<or> s < x) \<longrightarrow> m' (w32 x) = m (w32 x))"
proof (cases "blk_free bs")
  case False
  have "heap_merge_next (w32 a) m = Some m"
    using rep False heap_rep_first [of m a bs s] by (simp add: heap_merge_next_def)
  then show ?thesis using rep False by (auto simp: merged_def)
next
  case True
  then obtain b bs' where bs: "bs = (b, True) # bs'"
    by (cases bs) auto
  let ?n = "blk_first bs' s"
  let ?m1 = "m(w32 a \<mapsto> hdr ?n p f)"
  let ?m' = "?m1(w32 ?n \<mapsto> first_hdr a bs' s)"
  have wf': "wf_blocks bs' s" using wf bs by simp
  have bnd: "a < b" "b < ?n" "?n \<le> s" "s < 2 ^ 31"
    using lt wf bs wf_first_bounds [OF wf'] by auto
  have neq: "w32 b \<noteq> w32 a" "w32 ?n \<noteq> w32 a" using bnd by (simp_all add: w32_inject)
  have ma: "m (w32 a) = Some (hdr b p f)" "m (w32 b) = Some (hdr ?n a True)" "heap_rep m b bs' s"
    using rep bs by simp_all
  have gt: "w32 a < w32 b" using bnd by (simp add: w32_less)
  have mn: "?m1 (w32 ?n) = Some (first_hdr b bs' s)"
    using heap_rep_first [OF ma(3)] neq by simp
  have "hb_upd (w32 ?n) (hb_set_prev (w32 a)) ?m1 = Some ?m'"
    using mn by (simp add: hb_upd_Some)
  then have "heap_merge_next (w32 a) m = Some ?m'"
    using ma gt by (simp add: heap_merge_next_def hb_upd_Some)
  moreover have "heap_rep ?m1 b bs' s"
    using ma(3) bnd heap_rep_frame [OF wf', of ?m1 m b] by (simp add: w32_inject)
  then have "heap_rep ?m' a bs' s" by (rule heap_rep_relink [OF _ wf'])
  then have "heap_rep ?m' p ((a, f) # merged bs) s"
    using True bs neq by (simp add: merged_def)
  moreover have "\<forall>x. x < 2 ^ 31 \<and> (x < a \<or> s < x) \<longrightarrow> ?m' (w32 x) = m (w32 x)"
    using bnd by (auto simp: w32_inject)
  ultimately show ?thesis by blast
qed

text \<open>Releasing a block: it becomes free and swallows, or is swallowed by, its free neighbours.\<close>

definition release_at :: "blocks \<Rightarrow> nat \<Rightarrow> blocks \<Rightarrow> blocks" where
  "release_at pre a post =
     pre @ (if pre \<noteq> [] \<and> snd (last pre) then [] else [(a, True)]) @ merged post"

lemma heap_free_rep:
  assumes rep: "heap_rep m 0 (pre @ (a, False) # post) s" and wf: "wf_blocks (pre @ (a, False) # post) s"
  shows "\<exists>m'. heap_free (w32 (a + 8)) m = Some m' \<and> heap_rep m' 0 (release_at pre a post) s \<and>
    (\<forall>x. x < 2 ^ 31 \<and> (x < blk_first (pre @ [(a, False)]) s \<or> s < x) \<longrightarrow> m' (w32 x) = m (w32 x))"
proof -
  let ?p = "last_addr 0 pre" and ?n = "blk_first post s"
  let ?m1 = "m(w32 a \<mapsto> hdr ?n ?p True)"
  have wfa: "wf_blocks ((a, False) # post) s" using wf by (rule wf_append_right)
  have wfp: "wf_blocks post s" and an: "a < ?n" "0 < a" using wfa by simp_all
  have bnd: "?n \<le> s" "s < 2 ^ 31" using wf_first_bounds [OF wfp] by auto
  have seg: "heap_seg m 0 pre a" and ma: "m (w32 a) = Some (hdr ?n ?p False)"
    and mr: "heap_rep m a post s" using rep by (simp_all add: heap_rep_append)
  have preb: "x < a" if "x \<in> fst ` set pre" for x
    using wf_left_below [OF wf that] by simp
  have pe: "8 dvd ?p \<and> (pre \<noteq> [] \<longrightarrow> 0 < ?p \<and> ?p < a)"
  proof (cases pre rule: rev_cases)
    case (snoc pre0 b)
    then have "wf_blocks (b # (a, False) # post) s"
      using wf wf_append_right [of pre0 "b # (a, False) # post" s] by simp
    then show ?thesis using snoc by (cases b) (auto simp: last_addr_def)
  qed (simp add: last_addr_def)
  have m1: "heap_rep ?m1 ?p ((a, True) # post) s"
    using mr an bnd heap_rep_frame [OF wfp, of ?m1 m a] by (simp add: w32_inject)
  obtain m2 where m2: "heap_merge_next (w32 a) ?m1 = Some m2"
      "heap_rep m2 ?p ((a, True) # merged post) s"
      "\<And>x. x < 2 ^ 31 \<Longrightarrow> x < a \<or> s < x \<Longrightarrow> m2 (w32 x) = ?m1 (w32 x)"
    using heap_merge_next_rep [OF m1 an(1) wfp] by auto
  have m2m: "m2 (w32 x) = m (w32 x)" if "x < 2 ^ 31" "x < a \<or> s < x" for x
    using that m2(3) an bnd by (auto simp: w32_inject)
  have seg2: "heap_seg m2 0 pre a"
  proof -
    have "m2 (w32 x) = m (w32 x)" if "x \<in> fst ` set pre" for x
      using m2m [of x] preb [OF that] bnd an by simp
    then show ?thesis using seg heap_seg_cong [of pre m2 m 0 a] by blast
  qed
  have a0: "w32 (a + 8) \<noteq> 0" "w32 (a + 8) - 8 = w32 a"
    using an bnd w32_inject [of "a + 8" 0] by simp_all
  have ma2: "m2 (w32 a) = Some (hdr (blk_first (merged post) s) ?p True)" using m2(2) by simp
  have pv: "hb_get_prev (hdr (blk_first (merged post) s) ?p True) = w32 ?p"
    using pe by (intro hb_get_prev_hdr) (auto elim: dvd_trans [rotated])
  have run: "heap_free (w32 (a + 8)) m =
      (if w32 ?p \<noteq> 0 then do {
         pb \<leftarrow> m2 (w32 ?p);
         if hb_free pb then (if \<not> w32 ?p < w32 a then None else heap_merge_next (w32 ?p) m2)
         else Some m2
       } else Some m2)"
    unfolding heap_free_def Let_def a0(2) using a0(1) ma m2(1) ma2 pv
    by (simp add: hb_upd_Some cong: if_cong)
  show ?thesis
  proof (cases pre rule: rev_cases)
    case Nil
    then show ?thesis using run m2 m2m bnd by (auto simp: release_at_def last_addr_def)
  next
    case (snoc pre0 b)
    obtain q f where b: "b = (q, f)" by fastforce
    have q: "?p = q" "q < a" "0 < q" using snoc b pe by (auto simp: last_addr_def)
    have q0: "w32 q \<noteq> 0" "w32 q < w32 a" using q bnd an w32_inject [of q 0] by (simp_all add: w32_less)
    have mq: "m2 (w32 q) = Some (hdr a (last_addr 0 pre0) f)"
      and seg0: "heap_seg m2 0 pre0 q" using seg2 snoc b by (simp_all add: heap_seg_append)
    have first: "blk_first (pre @ [(a, False)]) s \<le> q"
      using snoc b wf_addr_bounds [OF wf, of q] by (auto simp: blk_first_append)
    show ?thesis
    proof (cases f)
      case False
      have "heap_rep m2 0 (release_at pre a post) s"
        using False snoc b m2(2) seg0 mq q(1) by (simp add: release_at_def heap_rep_append)
      then show ?thesis using False run q q0 mq m2m first by auto
    next
      case True
      have wm: "wf_blocks ((a, True) # merged post) s"
        using wfa wf_merged [OF wfp] merged_first [OF wfp] by auto
      have "heap_rep m2 (last_addr 0 pre0) ((q, True) # (a, True) # merged post) s"
        using mq m2(2) q(1) True by simp
      from heap_merge_next_rep [OF this _ wm] obtain m3 where
        m3: "heap_merge_next (w32 q) m2 = Some m3"
          "heap_rep m3 (last_addr 0 pre0) ((q, True) # merged post) s"
          "\<And>x. x < 2 ^ 31 \<Longrightarrow> x < q \<or> s < x \<Longrightarrow> m3 (w32 x) = m2 (w32 x)"
        using q by (auto simp: merged_def)
      have "m3 (w32 x) = m2 (w32 x)" if "x \<in> fst ` set pre0" for x
        using wf_left_below [of pre0 "(q, True) # (a, False) # post" s x] wf snoc b True that
          m3(3) [of x] q an bnd by simp
      then have "heap_seg m3 0 pre0 q" using seg0 heap_seg_cong [of pre0 m3 m2 0 q] by blast
      then have "heap_rep m3 0 (release_at pre a post) s"
        using m3(2) snoc b True by (simp add: release_at_def heap_rep_append)
      moreover have "m3 (w32 x) = m (w32 x)" if "x < 2 ^ 31" "x < blk_first (pre @ [(a, False)]) s \<or> s < x" for x
        using that m3(3) m2m first q by auto
      ultimately show ?thesis using run q q0 mq True m3(1) by auto
    qed
  qed
qed

section \<open>Facts of the abstract heap\<close>

text \<open>The payload extents of the blocks in use.\<close>

fun used :: "blocks \<Rightarrow> nat \<Rightarrow> (nat \<times> nat) set" where
  "used [] s = {}"
| "used ((a, f) # bs) s = (if f then {} else {(a + 8, blk_first bs s)}) \<union> used bs s"

lemma used_append: "used (xs @ ys) s = used xs (blk_first ys s) \<union> used ys s"
  by (induction xs) (auto simp: blk_first_append)

lemma used_bounds:
  "wf_blocks bs s \<Longrightarrow> (p, e) \<in> used bs s \<Longrightarrow> blk_first bs s + 8 \<le> p \<and> p \<le> e \<and> e \<le> s"
proof (induction bs s rule: used.induct)
  case (2 a f bs s)
  have "a < blk_first bs s" "8 dvd a" "8 dvd blk_first bs s"
    using "2.prems" wf_first_bounds [of bs s] by auto
  then have "a + 8 \<le> blk_first bs s" using dvd_imp_le [of 8 "blk_first bs s - a"] by (simp add: dvd_diff_nat)
  then show ?case using 2 wf_first_bounds [of bs s] by (auto split: if_splits)
qed simp

lemma used_disjoint:
  assumes "wf_blocks bs s" "(p, e) \<in> used bs s" "(p', e') \<in> used bs s" "p \<noteq> p'"
  shows "e + 8 \<le> p' \<or> e' + 8 \<le> p"
  using assms
proof (induction bs s rule: used.induct)
  case (2 a f bs s)
  then show ?case
    using used_bounds [of bs s p e] used_bounds [of bs s p' e'] by (auto split: if_splits)
qed simp

lemma wf_replace:
  "wf_blocks (xs @ ys) s \<Longrightarrow> wf_blocks ys' s \<Longrightarrow> blk_first ys' s = blk_first ys s \<Longrightarrow>
   (blk_free ys' \<longrightarrow> blk_free ys) \<Longrightarrow> wf_blocks (xs @ ys') s"
proof (induction xs)
  case (Cons b xs)
  moreover have "blk_free (xs @ ys') \<longrightarrow> blk_free (xs @ ys)"
    using Cons.prems(4) by (cases xs) auto
  ultimately show ?case by (cases b) (auto simp: blk_first_append)
qed simp

lemma first_fit_decomp:
  assumes "first_fit bs s sz al = Some (q, bs')"
  obtains pre a post where "bs = pre @ (a, True) # post" "q = round_up (a + 8) al"
    "q + sz \<le> blk_first post s" "bs' = pre @ fit_split a (blk_first post s) q sz @ post"
proof -
  have "\<exists>pre a post. bs = pre @ (a, True) # post \<and> q = round_up (a + 8) al \<and>
    q + sz \<le> blk_first post s \<and> bs' = pre @ fit_split a (blk_first post s) q sz @ post"
    using assms
  proof (induction bs arbitrary: bs')
    case (Cons b bs)
    obtain a f where b: "b = (a, f)" by fastforce
    show ?case
    proof (cases "f \<and> round_up (a + 8) al + sz \<le> blk_first bs s")
      case True
      with Cons.prems b show ?thesis by (intro exI [of _ "[]"]) (auto simp: Let_def)
    next
      case False
      with Cons.prems b obtain bs1 where "first_fit bs s sz al = Some (q, bs1)" "bs' = (a, f) # bs1"
        by (auto simp: Let_def split: if_splits)
      with Cons.IH [of bs1] b show ?thesis by (metis append_Cons)
    qed
  qed simp
  with that show ?thesis by blast
qed

lemma wf_fit_split:
  assumes wf: "wf_blocks ((a, True) # post) s"
    and q: "a + 8 \<le> q" "8 dvd q" "8 dvd sz" "q + sz \<le> blk_first post s"
  shows "wf_blocks (fit_split a (blk_first post s) q sz @ post) s"
    and "blk_first (fit_split a (blk_first post s) q sz @ post) s = a"
proof -
  obtain h where h: "q = h + 8" using q(1) by (metis add.commute le_add2 le_iff_add order_trans)
  have "8 dvd h" using q(2) h by simp
  moreover have "a < h \<or> h = a" using q(1) h by auto
  ultimately show "wf_blocks (fit_split a (blk_first post s) q sz @ post) s"
    using wf q h by (auto simp: fit_split_def)
  show "blk_first (fit_split a (blk_first post s) q sz @ post) s = a"
    using h q(1) by (simp add: fit_split_def)
qed

lemma first_fit_wf:
  assumes "wf_blocks bs s" "first_fit bs s sz al = Some (q, bs')" "8 dvd sz" "8 dvd al" "0 < al"
  shows "wf_blocks bs' s"
proof -
  obtain pre a post where d: "bs = pre @ (a, True) # post" "q = round_up (a + 8) al"
    "q + sz \<le> blk_first post s" "bs' = pre @ fit_split a (blk_first post s) q sz @ post"
    using first_fit_decomp [OF assms(2)] by blast
  have q: "a + 8 \<le> q" "8 dvd q"
    using d(2) assms(4,5) round_up_ge [of al "a + 8"] round_up_dvd [of al "a + 8"] by (auto intro: dvd_trans)
  have "wf_blocks ((a, True) # post) s" using assms(1) d(1) wf_append_right by blast
  from wf_fit_split [OF this q assms(3) d(3)] show ?thesis
    using wf_replace [of pre "(a, True) # post" s] assms(1) d(1,4) by simp
qed

text \<open>Allocation adds one extent, large enough, and keeps the others.\<close>

lemma first_fit_used:
  assumes "wf_blocks bs s" "first_fit bs s sz al = Some (q, bs')" "0 < al"
  shows "\<exists>e. q + sz \<le> e \<and> used bs' s = insert (q, e) (used bs s)"
proof -
  obtain pre a post where d: "bs = pre @ (a, True) # post" "q = round_up (a + 8) al"
    "q + sz \<le> blk_first post s" "bs' = pre @ fit_split a (blk_first post s) q sz @ post"
    using first_fit_decomp [OF assms(2)] by blast
  have q: "a + 8 \<le> q" using d(2) assms(3) round_up_ge [of al "a + 8"] by auto
  let ?e = "if blk_first post s - (q + sz) > 8 then q + sz else blk_first post s"
  have "blk_first (fit_split a (blk_first post s) q sz @ post) s = a"
    using q by (simp add: fit_split_def)
  moreover have "used (fit_split a (blk_first post s) q sz @ post) s = insert (q, ?e) (used post s)"
    using q by (auto simp: fit_split_def)
  ultimately have "used bs' s = insert (q, ?e) (used bs s)"
    unfolding d(1,4) used_append [of pre] by simp
  moreover have "q + sz \<le> ?e" using d(3) by simp
  ultimately show ?thesis by blast
qed

text \<open>Releasing, as marking the block and joining adjacent free blocks.\<close>

fun coalesce :: "blocks \<Rightarrow> blocks" where
  "coalesce ((a, True) # (b, True) # bs) = coalesce ((a, True) # bs)"
| "coalesce (x # bs) = x # coalesce bs"
| "coalesce [] = []"

definition release :: "nat \<Rightarrow> blocks \<Rightarrow> blocks" where
  "release a bs = coalesce (map (\<lambda>(b, f). (b, f \<or> b = a)) bs)"

lemma coalesce_Cons: "\<not> (f \<and> blk_free bs) \<Longrightarrow> coalesce ((a, f) # bs) = (a, f) # coalesce bs"
  by (cases bs; cases f; auto)

lemma coalesce_wf: "wf_blocks bs s \<Longrightarrow> coalesce bs = bs"
  by (induction bs s rule: wf_blocks.induct) (auto simp: coalesce_Cons)

lemma coalesce_free: "wf_blocks bs s \<Longrightarrow> coalesce ((a, True) # bs) = (a, True) # merged bs"
proof (cases "blk_free bs")
  case True
  assume wf: "wf_blocks bs s"
  from True obtain b bs' where bs: "bs = (b, True) # bs'" by (cases bs) auto
  with wf have "\<not> blk_free bs'" "wf_blocks bs' s" by auto
  then show ?thesis by (simp add: bs merged_def coalesce_Cons coalesce_wf)
next
  case False
  assume "wf_blocks bs s"
  with False show ?thesis by (simp add: coalesce_Cons merged_def coalesce_wf)
qed

lemma coalesce_append:
  assumes "wf_blocks (pre @ (a, False) # post) s"
  shows "coalesce (pre @ (a, True) # post) = release_at pre a post"
  using assms
proof (induction pre)
  case Nil
  then show ?case using coalesce_free [of post s a] by (simp add: release_at_def)
next
  case (Cons b pre)
  obtain c f where b: "b = (c, f)" by fastforce
  show ?case
  proof (cases pre)
    case Nil
    then show ?thesis
      using Cons.prems b coalesce_free [of post s a] coalesce_free [of post s c]
      by (cases f) (auto simp: coalesce_Cons release_at_def)
  next
    case (Cons d pre')
    then have "\<not> (f \<and> blk_free (pre @ (a, True) # post))"
      using Cons.prems b by (cases d) auto
    with Cons.IH Cons.prems b Cons show ?thesis
      by (cases d) (auto simp: coalesce_Cons release_at_def)
  qed
qed

lemma map_mark_other: "a \<notin> fst ` set bs \<Longrightarrow> map (\<lambda>(b, f). (b, f \<or> b = a)) bs = bs"
  by (induction bs) auto

lemma release_eq:
  assumes wf: "wf_blocks (pre @ (a, False) # post) s"
  shows "release a (pre @ (a, False) # post) = release_at pre a post"
proof -
  have "a \<notin> fst ` set pre" using wf_left_below [OF wf, of a] by auto
  moreover have "a \<notin> fst ` set post"
    using wf_append_right [OF wf] wf_addr_bounds [of post s a] by auto
  ultimately show ?thesis
    using coalesce_append [OF wf] by (simp add: release_def map_mark_other)
qed

lemma release_at_wf:
  assumes wf: "wf_blocks (pre @ (a, False) # post) s"
  shows "wf_blocks (release_at pre a post) s \<and> blk_first (release_at pre a post) s = blk_first (pre @ [(a, False)]) s"
proof -
  have wfa: "wf_blocks ((a, False) # post) s" using wf by (rule wf_append_right)
  then have wp: "wf_blocks post s" by simp
  have new: "wf_blocks ((a, True) # merged post) s"
    using wfa wf_merged [OF wp] merged_first [OF wp] by auto
  show ?thesis
  proof (cases pre rule: rev_cases)
    case Nil
    then show ?thesis using new by (simp add: release_at_def)
  next
    case (snoc pre0 b)
    obtain q f where b: "b = (q, f)" by fastforce
    have w: "wf_blocks (pre0 @ (q, f) # (a, False) # post) s" using wf snoc b by simp
    then have "q < a" "8 dvd q" "0 < q" using wf_append_right [OF w] by auto
    then have "wf_blocks ((q, f) # (if f then [] else [(a, True)]) @ merged post) s"
      using new wf_merged [OF wp] by (cases f) auto
    then have "wf_blocks (pre0 @ (q, f) # (if f then [] else [(a, True)]) @ merged post) s"
      by (rule wf_replace [OF w]) simp_all
    then show ?thesis using snoc b by (cases f) (auto simp: release_at_def blk_first_append)
  qed
qed

lemma release_at_used:
  assumes wf: "wf_blocks (pre @ (a, False) # post) s"
  shows "used (release_at pre a post) s = used (pre @ (a, False) # post) s - {(a + 8, blk_first post s)}"
proof -
  have mu: "used (merged post) s = used post s"
    by (cases post) (auto simp: merged_def)
  have notin: "(a + 8, e) \<notin> used post s" for e
    using wf_append_right [OF wf] used_bounds [of post s "a + 8" e] by auto
  have notpre: "(a + 8, e) \<notin> used pre n" for e n
  proof -
    have "p \<in> (\<lambda>x. x + 8) ` fst ` set xs" if "(p, e) \<in> used xs n" for p e n and xs :: blocks
      using that by (induction xs n rule: used.induct) (auto split: if_splits)
    from this [of "a + 8" e pre n] show ?thesis using wf_left_below [OF wf, of a] by (auto simp: image_iff)
  qed
  have up: "used pre n = used pre n'" if "pre \<noteq> [] \<longrightarrow> snd (last pre)" for n n'
    using that
  proof (induction pre)
    case (Cons b pre)
    have "pre \<noteq> [] \<Longrightarrow> blk_first pre n = blk_first pre n'" by (cases pre) auto
    with Cons show ?case by (cases b) (auto split: if_splits)
  qed simp
  show ?thesis
    using up [of a "blk_first (merged post) s"] notin notpre
    by (auto simp: release_at_def used_append mu split: if_splits)
qed

text \<open>Releasing what was just allocated gives the old list of blocks back.\<close>

lemma release_first_fit:
  assumes wf: "wf_blocks bs s" and ff: "first_fit bs s sz al = Some (q, bs')"
    and al: "8 dvd sz" "8 dvd al" "0 < al"
  shows "\<exists>pre post. bs' = pre @ (q - 8, False) # post \<and> release_at pre (q - 8) post = bs"
proof -
  obtain pre a post where d: "bs = pre @ (a, True) # post" "q = round_up (a + 8) al"
    "q + sz \<le> blk_first post s" "bs' = pre @ fit_split a (blk_first post s) q sz @ post"
    using first_fit_decomp [OF ff] by blast
  have q: "a + 8 \<le> q" using d(2) al(3) round_up_ge [of al "a + 8"] by auto
  let ?post = "(if blk_first post s - (q + sz) > 8 then [(q + sz, True)] else []) @ post"
  have nf: "\<not> blk_free post" using wf_append_right [of pre "(a, True) # post" s] wf d(1) by simp
  have mp: "merged ?post = post" using nf by (simp add: merged_def)
  show ?thesis
  proof (cases "q = a + 8")
    case True
    have "\<not> (pre \<noteq> [] \<and> snd (last pre))"
    proof (cases pre rule: rev_cases)
      case (snoc pre0 b)
      then show ?thesis
        using wf_append_right [of pre0 "b # (a, True) # post" s] wf d(1) by (cases b) auto
    qed simp
    then have "release_at pre (q - 8) ?post = bs"
      using True mp d(1) by (simp add: release_at_def)
    moreover have "bs' = pre @ (q - 8, False) # ?post" using True d(4) by (simp add: fit_split_def)
    ultimately show ?thesis by blast
  next
    case False
    have "release_at (pre @ [(a, True)]) (q - 8) ?post = bs"
      using mp d(1) by (simp add: release_at_def)
    moreover have "bs' = (pre @ [(a, True)]) @ (q - 8, False) # ?post"
      using False d(4) by (simp add: fit_split_def)
    ultimately show ?thesis by blast
  qed
qed

text \<open>The debug walk accepts every well-formed heap.\<close>

lemma verify_heap_loop_ok:
  assumes "heap_rep m p bs s" and "wf_blocks bs s" and "even p"
  shows "verify_heap_loop m (w32 p) (w32 (blk_first bs s)) = Some ()"
  using assms
proof (induction bs arbitrary: p)
  case Nil
  then show ?case by (simp add: verify_heap_loop.simps hb_get_prev_hdr)
next
  case (Cons b bs)
  obtain a f where b: "b = (a, f)" by fastforce
  have n: "w32 (blk_first bs s) \<noteq> 0"
    using Cons.prems b wf_first_bounds [of bs s] w32_inject [of "blk_first bs s" 0] by auto
  have "even a" using Cons.prems b by (auto elim: dvd_trans [rotated])
  then have "verify_heap_loop m (w32 a) (w32 (blk_first bs s)) = Some ()"
    using Cons b by simp
  then show ?case
    using Cons.prems b n heap_rep_first [of m a bs s]
    by (subst verify_heap_loop.simps) (auto simp: hb_get_prev_hdr)
qed

section \<open>Requests\<close>

definition heap_inv :: "heap_store \<Rightarrow> blocks \<Rightarrow> nat \<Rightarrow> bool" where
  "heap_inv m bs s \<longleftrightarrow> heap_rep m 0 bs s \<and> wf_blocks bs s"

definition align_ok :: "nat \<Rightarrow> bool" where
  "align_ok al \<longleftrightarrow> al < 8 \<or> (\<exists>k<31. al = 2 ^ k)"

definition eff_align :: "nat \<Rightarrow> nat" where
  "eff_align al = max al 8"

definition request_fits :: "nat \<Rightarrow> nat \<Rightarrow> nat \<Rightarrow> bool" where
  "request_fits s sz al \<longleftrightarrow> align_ok al \<and> s + eff_align al + sz + 8 < 2 ^ 31"

definition heap_fit :: "blocks \<Rightarrow> nat \<Rightarrow> nat \<Rightarrow> nat \<Rightarrow> (nat \<times> blocks) option" where
  "heap_fit bs s sz al = first_fit bs s (round_up sz 8) (eff_align al)"

lemma eff_align_pow:
  assumes "align_ok al"
  obtains k where "eff_align al = 2 ^ k" "8 \<le> eff_align al" "8 dvd eff_align al"
proof -
  have "eff_align al = 2 ^ 3 \<or> (\<exists>k. 3 \<le> k \<and> eff_align al = 2 ^ k)"
  proof (cases "al < 8")
    case False
    with assms obtain k where k: "al = 2 ^ k" by (auto simp: align_ok_def)
    have "(2 :: nat) ^ 3 \<le> 2 ^ k" using False k by simp
    then have "3 \<le> k" by (rule power_le_imp_le_exp [rotated]) simp
    then show ?thesis using k False by (auto simp: eff_align_def)
  qed (simp add: eff_align_def)
  then obtain k where k: "3 \<le> k" "eff_align al = 2 ^ k" by (metis order_refl)
  then have "8 dvd eff_align al" using le_imp_power_dvd [of 3 k "2 :: nat"] by simp
  with k that show ?thesis by (simp add: eff_align_def)
qed

lemma heap_alloc_eq_loop:
  assumes "request_fits s sz al"
  shows "heap_alloc m hb (w32 sz) (w32 al) =
    heap_alloc_loop m hb (w32 (round_up sz 8)) (w32 (eff_align al))"
proof -
  have b: "sz + 8 < 2 ^ 31" "al < 2 ^ 31"
    using assms by (auto simp: request_fits_def eff_align_def)
  have "ALIGN (w32 sz) 8 = w32 (round_up sz 8)" using ALIGN_w32 [of sz 3] b by simp
  moreover have "w32 al < 8 \<longleftrightarrow> al < 8" using w32_less [of al 8] b by simp
  ultimately show ?thesis by (auto simp: heap_alloc_def eff_align_def max_def)
qed

lemma heap_alloc_fit:
  assumes inv: "heap_inv m bs s" and fits: "request_fits s sz al"
  shows "case heap_fit bs s sz al of
      None \<Rightarrow> heap_alloc m (w32 (blk_first bs s)) (w32 sz) (w32 al) = Some (0, m)
    | Some (q, bs') \<Rightarrow>
        \<exists>m'. heap_alloc m (w32 (blk_first bs s)) (w32 sz) (w32 al) = Some (w32 q, m') \<and>
          heap_inv m' bs' s \<and>
          (\<forall>x. x < 2 ^ 31 \<and> (x < blk_first bs s \<or> s < x) \<longrightarrow> m' (w32 x) = m (w32 x))"
proof -
  obtain k where k: "eff_align al = 2 ^ k" "8 \<le> eff_align al" "8 dvd eff_align al"
    using eff_align_pow fits by (auto simp: request_fits_def)
  have room: "s + eff_align al + round_up sz 8 < 2 ^ 31"
    using fits round_up_less [of 8 sz] by (auto simp: request_fits_def)
  have rep: "heap_rep m 0 bs s" and wf: "wf_blocks bs s" using inv by (simp_all add: heap_inv_def)
  have "pred_linked m 0 (blk_first bs s)"
    using wf_first_bounds [OF wf] by (simp add: pred_linked_def)
  from heap_alloc_loop_refines [OF rep wf this k(1,2) room]
  have *: "case heap_fit bs s sz al of
      None \<Rightarrow> heap_alloc m (w32 (blk_first bs s)) (w32 sz) (w32 al) = Some (0, m)
    | Some (q, bs') \<Rightarrow>
        \<exists>m'. heap_alloc m (w32 (blk_first bs s)) (w32 sz) (w32 al) = Some (w32 q, m') \<and>
          heap_rep m' 0 bs' s \<and>
          (\<forall>x. x < 2 ^ 31 \<and> (x < blk_first bs s \<or> s < x) \<longrightarrow> m' (w32 x) = m (w32 x))"
    unfolding heap_fit_def heap_alloc_eq_loop [OF fits] .
  have "wf_blocks bs' s" if "heap_fit bs s sz al = Some (q, bs')" for q bs'
    using first_fit_wf [OF wf that [unfolded heap_fit_def] round_up_dvd k(3)] k(2) by simp
  with * show ?thesis by (fastforce simp: heap_inv_def split: option.splits)
qed

lemma heap_fit_facts:
  assumes inv: "heap_inv m bs s" and al: "align_ok al" and fit: "heap_fit bs s sz al = Some (q, bs')"
  shows "blk_first bs' s = blk_first bs s" and "0 < q" and "eff_align al dvd q"
    and "\<exists>e. q + sz \<le> e \<and> e \<le> s \<and> used bs' s = insert (q, e) (used bs s)"
    and "(q, e) \<notin> used bs s" and "blk_first bs s + 8 \<le> q"
proof -
  have wf: "wf_blocks bs s" using inv by (simp add: heap_inv_def)
  obtain k where k: "eff_align al = 2 ^ k" "8 \<le> eff_align al" "8 dvd eff_align al"
    using eff_align_pow al by auto
  then have al0: "0 < eff_align al" by simp
  note ff = fit [unfolded heap_fit_def]
  show bf: "blk_first bs' s = blk_first bs s" by (rule first_fit_first [OF ff al0])
  have wf': "wf_blocks bs' s" using first_fit_wf [OF wf ff round_up_dvd k(3) al0] .
  obtain e where e: "q + round_up sz 8 \<le> e" "used bs' s = insert (q, e) (used bs s)"
    using first_fit_used [OF wf ff al0] by auto
  show "blk_first bs s + 8 \<le> q" using used_bounds [OF wf', of q e] e(2) bf by simp
  have "q + sz \<le> e" using e(1) round_up_ge [of 8 sz] by simp
  moreover have "e \<le> s" using used_bounds [OF wf', of q e] e(2) by simp
  ultimately show "\<exists>e. q + sz \<le> e \<and> e \<le> s \<and> used bs' s = insert (q, e) (used bs s)"
    using e(2) by blast
  obtain pre a post where d: "bs = pre @ (a, True) # post" "q = round_up (a + 8) (eff_align al)"
    "q + round_up sz 8 \<le> blk_first post s"
    using first_fit_decomp [OF ff] by metis
  show "0 < q" "eff_align al dvd q"
    using d(2) round_up_ge [OF al0, of "a + 8"] round_up_dvd by auto
  show "(q, e) \<notin> used bs s" for e
  proof
    assume u: "(q, e) \<in> used bs s"
    have wa: "wf_blocks ((a, True) # post) s" using wf d(1) wf_append_right by blast
    have "a + 8 \<le> q" using d(2) round_up_ge [OF al0] by auto
    from u consider "(q, e) \<in> used pre a" | "(q, e) \<in> used post s"
      by (auto simp: d(1) used_append)
    then show False
    proof cases
      case 1
      then have "(q, e) \<in> used (pre @ [(a, True)]) s" by (simp add: used_append)
      moreover have "q - 8 \<in> fst ` set xs" if "(q, e) \<in> used xs n" for xs n
        using that by (induction xs n rule: used.induct) (auto split: if_splits)
      ultimately have "q - 8 \<in> fst ` set pre" using 1 by blast
      then have "q - 8 < a" using wf_left_below [of pre "(a, True) # post" s "q - 8"] wf d(1) by simp
      with \<open>a + 8 \<le> q\<close> show False by simp
    next
      case 2
      then show False using used_bounds [of post s q e] wa d(3) by auto
    qed
  qed
qed

lemma heap_free_release:
  assumes inv: "heap_inv m bs s" and u: "(q, e) \<in> used bs s"
  shows "\<exists>m'. heap_free (w32 q) m = Some m' \<and> heap_inv m' (release (q - 8) bs) s \<and>
    blk_first (release (q - 8) bs) s = blk_first bs s \<and>
    used (release (q - 8) bs) s = used bs s - {(q, e)} \<and>
    (\<forall>x. x < 2 ^ 31 \<and> (x < blk_first bs s \<or> s < x) \<longrightarrow> m' (w32 x) = m (w32 x))"
proof -
  have rep: "heap_rep m 0 bs s" and wf: "wf_blocks bs s" using inv by (simp_all add: heap_inv_def)
  have "\<exists>pre a post. bs = pre @ (a, False) # post \<and> q = a + 8 \<and> e = blk_first post s"
    using u
  proof (induction bs)
    case (Cons b bs)
    obtain a f where b: "b = (a, f)" by fastforce
    show ?case
    proof (cases "(q, e) \<in> used bs s")
      case True
      with Cons.IH show ?thesis by (metis append_Cons)
    next
      case False
      with Cons.prems b have "b # bs = [] @ (a, False) # bs" "q = a + 8" "e = blk_first bs s"
        by (auto split: if_splits)
      then show ?thesis by blast
    qed
  qed simp
  then obtain pre a post where d: "bs = pre @ (a, False) # post" "q = a + 8" "e = blk_first post s"
    by blast
  have r: "release (q - 8) bs = release_at pre a post"
    using release_eq wf d(1,2) by simp
  have bf: "blk_first (pre @ [(a, False)]) s = blk_first bs s" by (simp add: d(1) blk_first_append)
  show ?thesis
    using heap_free_rep [of m pre a post s] release_at_wf [of pre a post s]
      release_at_used [of pre a post s] rep wf
    unfolding r unfolding bf d(2) d(3) heap_inv_def by (simp add: d(1))
qed

section \<open>Several heaps\<close>

type_synonym heaps = "(heap_header \<times> blocks \<times> nat) list"

definition heap_matches :: "u32 \<Rightarrow> heap_header \<Rightarrow> bool" where
  "heap_matches type hh \<longleftrightarrow> type AND 0xffff = 0 \<or> type AND ucast (hh_type hh) = type AND 0xffff"

definition apart :: "heap_header \<times> blocks \<times> nat \<Rightarrow> heap_header \<times> blocks \<times> nat \<Rightarrow> bool" where
  "apart x y = (case (x, y) of ((_, bs, s), (_, cs, t)) \<Rightarrow> s < blk_first cs t \<or> t < blk_first bs s)"

definition heaps_inv :: "heap_store \<Rightarrow> heaps \<Rightarrow> bool" where
  "heaps_inv m hs \<longleftrightarrow>
     (\<forall>(hh, bs, s)\<in>set hs. heap_inv m bs s \<and> hh_blocks hh = w32 (blk_first bs s)) \<and>
     sorted_wrt apart hs"

fun heaps_fit :: "heaps \<Rightarrow> nat \<Rightarrow> nat \<Rightarrow> u32 \<Rightarrow> (nat \<times> heaps) option" where
  "heaps_fit [] sz al type = None"
| "heaps_fit ((hh, bs, s) # hs) sz al type =
     (case (if heap_matches type hh then heap_fit bs s sz al else None) of
        Some (q, bs') \<Rightarrow> Some (q, (hh, bs', s) # hs)
      | None \<Rightarrow> map_option (\<lambda>(q, hs'). (q, (hh, bs, s) # hs')) (heaps_fit hs sz al type))"

definition heaps_used :: "heaps \<Rightarrow> (nat \<times> nat) set" where
  "heaps_used hs = (\<Union>(hh, bs, s)\<in>set hs. used bs s)"

lemma heaps_invD:
  "heaps_inv m hs \<Longrightarrow> (h, cs, t) \<in> set hs \<Longrightarrow> heap_inv m cs t"
  "heaps_inv m hs \<Longrightarrow> (h, cs, t) \<in> set hs \<Longrightarrow> hh_blocks h = w32 (blk_first cs t)"
  by (auto simp: heaps_inv_def)

lemma heaps_inv_others:
  assumes "heaps_inv m (pre @ (hh, bs, s) # post)" and "(h, cs, t) \<in> set pre \<union> set post"
  shows "heap_inv m cs t" "apart (hh, bs, s) (h, cs, t) \<or> apart (h, cs, t) (hh, bs, s)"
proof -
  show "heap_inv m cs t" using heaps_invD(1) [OF assms(1), of h cs t] assms(2) by auto
  show "apart (hh, bs, s) (h, cs, t) \<or> apart (h, cs, t) (hh, bs, s)"
    using assms by (auto simp: heaps_inv_def sorted_wrt_append)
qed

lemma heap_inv_frame:
  assumes "heap_inv m bs s" and "\<And>x. blk_first bs s \<le> x \<Longrightarrow> x \<le> s \<Longrightarrow> m' (w32 x) = m (w32 x)"
  shows "heap_inv m' bs s"
  using assms heap_rep_frame [of bs s m' m 0] by (auto simp: heap_inv_def)

lemma heap_inv_apart:
  assumes "heap_inv m cs t" and "apart (hh, bs, s) (hh', cs, t) \<or> apart (hh', cs, t) (hh, bs, s)"
    and "\<forall>x. x < 2 ^ 31 \<and> (x < blk_first bs s \<or> s < x) \<longrightarrow> m' (w32 x) = m (w32 x)"
  shows "heap_inv m' cs t"
proof (rule heap_inv_frame [OF assms(1)])
  fix x assume x: "blk_first cs t \<le> x" "x \<le> t"
  have "t < 2 ^ 31" using assms(1) wf_first_bounds [of cs t] by (simp add: heap_inv_def)
  then show "m' (w32 x) = m (w32 x)" using x assms(2,3) by (auto simp: apart_def)
qed

lemma heaps_inv_update:
  assumes inv: "heaps_inv m (pre @ (hh, bs, s) # post)"
    and new: "heap_inv m' bs' s" "blk_first bs' s = blk_first bs s"
    and fr: "\<forall>x. x < 2 ^ 31 \<and> (x < blk_first bs s \<or> s < x) \<longrightarrow> m' (w32 x) = m (w32 x)"
  shows "heaps_inv m' (pre @ (hh, bs', s) # post)"
proof -
  have "heap_inv m' cs t" if "(h, cs, t) \<in> set pre \<union> set post" for h cs t
    by (rule heap_inv_apart [OF heaps_inv_others [OF inv that] fr])
  moreover have "apart y (hh, bs', s) = apart y (hh, bs, s)" "apart (hh, bs', s) y = apart (hh, bs, s) y" for y
    using new(2) by (simp_all add: apart_def split: prod.splits)
  moreover have "hh_blocks h = w32 (blk_first cs t)" if "(h, cs, t) \<in> set pre \<union> set post" for h cs t
    using heaps_invD(2) [OF inv, of h cs t] that by auto
  ultimately show ?thesis
    using inv new heaps_invD(2) [OF inv, of hh bs s] unfolding heaps_inv_def
    by (auto simp: sorted_wrt_append)
qed

lemma malloc0_loop_Cons:
  "malloc0_loop (hh # hhs) sz align type m =
     (if hh_blocks hh = 0 \<or> \<not> heap_matches type hh then malloc0_loop hhs sz align type m
      else do {
        (x, m) \<leftarrow> heap_alloc m (hh_blocks hh) sz align;
        if x \<noteq> 0 then Some (x, m) else malloc0_loop hhs sz align type m
      })"
  by (simp add: heap_matches_def Let_def)

lemma heap_blocks_nonzero: "heap_inv m bs s \<Longrightarrow> w32 (blk_first bs s) \<noteq> 0"
  using wf_first_bounds [of bs s] w32_inject [of "blk_first bs s" 0] by (simp add: heap_inv_def)

lemma fit_pointer_nonzero:
  assumes "heap_inv m bs s" "align_ok al" "heap_fit bs s sz al = Some (q, bs')"
  shows "w32 q \<noteq> 0"
proof -
  have "0 < q" "q \<le> s" using heap_fit_facts(2,4) [OF assms] by auto
  moreover have "s < 2 ^ 31" using assms(1) wf_first_bounds [of bs s] by (simp add: heap_inv_def)
  ultimately show ?thesis using w32_inject [of q 0] by simp
qed

lemma malloc0_loop_fit:
  assumes "heaps_inv m (pre @ hs)" and "\<forall>(hh, bs, s)\<in>set hs. request_fits s sz al"
  shows "case heaps_fit hs sz al type of
      None \<Rightarrow> malloc0_loop (map fst hs) (w32 sz) (w32 al) type m = Some (0, m)
    | Some (q, hs') \<Rightarrow> \<exists>m'. malloc0_loop (map fst hs) (w32 sz) (w32 al) type m = Some (w32 q, m') \<and>
        w32 q \<noteq> 0 \<and> heaps_inv m' (pre @ hs')"
  using assms
proof (induction hs arbitrary: pre)
  case (Cons x hs)
  obtain hh bs s where x: "x = (hh, bs, s)" by (cases x)
  have inv: "heap_inv m bs s" and hb: "hh_blocks hh = w32 (blk_first bs s)"
    using Cons.prems(1) x by (auto intro: heaps_invD)
  have req: "request_fits s sz al" using Cons.prems(2) x by simp
  then have al: "align_ok al" by (simp add: request_fits_def)
  note nz = heap_blocks_nonzero [OF inv] and fit = heap_alloc_fit [OF inv req]
  have IH: "case heaps_fit hs sz al type of
      None \<Rightarrow> malloc0_loop (map fst hs) (w32 sz) (w32 al) type m = Some (0, m)
    | Some (q, hs') \<Rightarrow> \<exists>m'. malloc0_loop (map fst hs) (w32 sz) (w32 al) type m = Some (w32 q, m') \<and>
        w32 q \<noteq> 0 \<and> heaps_inv m' ((pre @ [x]) @ hs')"
    using Cons.IH [of "pre @ [x]"] Cons.prems by simp
  show ?case
  proof (cases "if heap_matches type hh then heap_fit bs s sz al else None")
    case None
    then have "malloc0_loop (map fst (x # hs)) (w32 sz) (w32 al) type m =
        malloc0_loop (map fst hs) (w32 sz) (w32 al) type m"
      using fit hb nz x by (auto simp: malloc0_loop_Cons split: if_splits simp del: malloc0_loop.simps)
    then show ?thesis using IH None x
      by (auto simp del: malloc0_loop.simps split: option.splits)
  next
    case (Some r)
    obtain q bs' where r: "r = (q, bs')" by fastforce
    have match: "heap_matches type hh" and f: "heap_fit bs s sz al = Some (q, bs')"
      using Some r by (auto split: if_splits)
    obtain m' where m': "heap_alloc m (hh_blocks hh) (w32 sz) (w32 al) = Some (w32 q, m')"
      "heap_inv m' bs' s" "\<forall>x. x < 2 ^ 31 \<and> (x < blk_first bs s \<or> s < x) \<longrightarrow> m' (w32 x) = m (w32 x)"
      using fit f hb by auto
    have "heaps_inv m' (pre @ (hh, bs', s) # hs)"
      using heaps_inv_update Cons.prems(1) x m'(2,3) heap_fit_facts(1) [OF inv al f] by blast
    then show ?thesis
      using Some r x match m'(1) fit_pointer_nonzero [OF inv al f] hb nz
      by (simp add: malloc0_loop_Cons del: malloc0_loop.simps)
  qed
qed simp

text \<open>The extents after an allocation or a release, over all heaps.\<close>

lemma used_in_heap: "heap_inv m bs s \<Longrightarrow> (p, e) \<in> used bs s \<Longrightarrow>
    blk_first bs s + 8 \<le> p \<and> p \<le> e \<and> e \<le> s \<and> s < 2 ^ 31"
  using used_bounds [of bs s p e] wf_first_bounds [of bs s] by (simp add: heap_inv_def)

lemma heaps_used_Cons: "heaps_used ((hh, bs, s) # hs) = used bs s \<union> heaps_used hs"
  by (simp add: heaps_used_def)

lemma heaps_inv_tail: "heaps_inv m (x # hs) \<Longrightarrow> heaps_inv m hs"
  by (simp add: heaps_inv_def)

lemma heaps_used_disjoint:
  assumes "heaps_inv m hs" "(p, e) \<in> heaps_used hs" "(p', e') \<in> heaps_used hs" "p \<noteq> p'"
  shows "e < p' \<or> e' < p"
  using assms
proof (induction hs)
  case (Cons x hs)
  obtain hh bs s where x: "x = (hh, bs, s)" by (cases x)
  have inv: "heap_inv m bs s" using Cons.prems(1) x by (auto intro: heaps_invD)
  have far: "v < a \<or> b < u" if one: "(u, v) \<in> used bs s" and two: "(a, b) \<in> heaps_used hs" for u v a b
  proof -
    obtain h cs t where c: "(h, cs, t) \<in> set hs" "(a, b) \<in> used cs t"
      using two by (auto simp: heaps_used_def)
    then have "apart (hh, bs, s) (h, cs, t)" "heap_inv m cs t"
      using Cons.prems(1) x by (auto simp: heaps_inv_def)
    then show ?thesis
      using used_in_heap [OF inv one] used_in_heap [of m cs t a b] c(2) by (auto simp: apart_def)
  qed
  have same: "e + 8 \<le> p' \<or> e' + 8 \<le> p" if "(p, e) \<in> used bs s" "(p', e') \<in> used bs s"
    using used_disjoint [OF _ that] inv Cons.prems(4) by (simp add: heap_inv_def)
  show ?case
    using Cons.IH [OF heaps_inv_tail [OF Cons.prems(1)]] Cons.prems(2-4) far same
    unfolding x heaps_used_Cons by fastforce
qed (simp add: heaps_used_def)

lemma used_functional:
  "wf_blocks bs s \<Longrightarrow> (p, e) \<in> used bs s \<Longrightarrow> (p, e') \<in> used bs s \<Longrightarrow> e = e'"
proof (induction bs s rule: used.induct)
  case (2 a f bs s)
  then show ?case
    using used_bounds [of bs s p e] used_bounds [of bs s p e'] by (auto split: if_splits)
qed simp

lemma heaps_used_functional:
  assumes "heaps_inv m hs" "(p, e) \<in> heaps_used hs" "(p, e') \<in> heaps_used hs"
  shows "e = e'"
proof -
  obtain hh bs s where b: "(hh, bs, s) \<in> set hs" "(p, e) \<in> used bs s"
    using assms(2) by (auto simp: heaps_used_def)
  obtain hh' cs t where c: "(hh', cs, t) \<in> set hs" "(p, e') \<in> used cs t"
    using assms(3) by (auto simp: heaps_used_def)
  have bi: "heap_inv m bs s" and ci: "heap_inv m cs t" using b c assms(1) heaps_invD by blast+
  obtain pre post where hs: "hs = pre @ (hh, bs, s) # post" using b(1) by (metis split_list)
  have "(hh', cs, t) = (hh, bs, s)"
  proof (rule ccontr)
    assume "\<not> ?thesis"
    then have "(hh', cs, t) \<in> set pre \<union> set post" using c(1) hs by auto
    from heaps_inv_others(2) [OF assms(1) [unfolded hs] this] show False
      using used_in_heap [OF bi b(2)] used_in_heap [OF ci c(2)] by (auto simp: apart_def)
  qed
  then show ?thesis using used_functional bi b(2) c(2) by (auto simp: heap_inv_def)
qed

lemma heaps_fit_decomp:
  assumes "heaps_fit hs sz al type = Some (q, hs')"
  shows "\<exists>pre hh bs s post bs'. hs = pre @ (hh, bs, s) # post \<and> heap_matches type hh \<and>
    heap_fit bs s sz al = Some (q, bs') \<and> hs' = pre @ (hh, bs', s) # post"
  using assms
proof (induction hs arbitrary: hs')
  case (Cons x hs)
  obtain hh bs s where x: "x = (hh, bs, s)" by (cases x)
  show ?case
  proof (cases "if heap_matches type hh then heap_fit bs s sz al else None")
    case None
    with Cons.prems x obtain hs1 where "heaps_fit hs sz al type = Some (q, hs1)" "hs' = x # hs1"
      by auto
    with Cons.IH [of hs1] show ?thesis by (metis append_Cons)
  next
    case (Some r)
    then have "heap_matches type hh" "heap_fit bs s sz al = Some r" by (auto split: if_splits)
    moreover obtain bs' where "r = (q, bs')" "hs' = (hh, bs', s) # hs"
      using Cons.prems x Some by (cases r) auto
    ultimately show ?thesis using x by (intro exI [of _ "[]"]) auto
  qed
qed simp

lemma heaps_used_append: "heaps_used (xs @ ys) = heaps_used xs \<union> heaps_used ys"
  by (auto simp: heaps_used_def)

lemma heaps_fit_used:
  assumes "heaps_inv m hs" "align_ok al" "heaps_fit hs sz al type = Some (q, hs')"
  shows "eff_align al dvd q \<and> (\<exists>e. q + sz \<le> e \<and> heaps_used hs' = insert (q, e) (heaps_used hs))"
    and "(q, e) \<notin> heaps_used hs"
    and "map fst hs' = map fst hs" "map (snd \<circ> snd) hs' = map (snd \<circ> snd) hs"
proof -
  obtain pre hh bs s post bs' where d: "hs = pre @ (hh, bs, s) # post"
    "heap_fit bs s sz al = Some (q, bs')" "hs' = pre @ (hh, bs', s) # post"
    using heaps_fit_decomp [OF assms(3)] by blast
  have inv: "heap_inv m bs s" using assms(1) d(1) by (auto intro: heaps_invD)
  note f = heap_fit_facts [OF inv assms(2) d(2)]
  obtain e where e: "q + sz \<le> e" "e \<le> s" "used bs' s = insert (q, e) (used bs s)"
    using f(4) by blast
  then show "eff_align al dvd q \<and> (\<exists>e. q + sz \<le> e \<and> heaps_used hs' = insert (q, e) (heaps_used hs))"
    using f(3) by (auto simp: d heaps_used_append heaps_used_Cons)
  show "map fst hs' = map fst hs" "map (snd \<circ> snd) hs' = map (snd \<circ> snd) hs"
    by (simp_all add: d)
  have q: "blk_first bs s + 8 \<le> q \<and> q \<le> s"
    using f(6) e(1,2) by simp
  show "(q, e) \<notin> heaps_used hs" for e
  proof
    assume "(q, e) \<in> heaps_used hs"
    then obtain h cs t where c: "(h, cs, t) \<in> set pre \<union> set post" "(q, e) \<in> used cs t"
      using f(5) d(1) by (auto simp: heaps_used_def)
    then have "heap_inv m cs t" "apart (hh, bs, s) (h, cs, t) \<or> apart (h, cs, t) (hh, bs, s)"
      using heaps_inv_others assms(1) d(1) by blast+
    then show False using q used_in_heap [of m cs t q e] c(2) by (auto simp: apart_def)
  qed
qed

definition heaps_release :: "nat \<Rightarrow> heaps \<Rightarrow> heaps" where
  "heaps_release q hs = map (\<lambda>(hh, bs, s). (hh, release (q - 8) bs, s)) hs"

lemma release_other:
  assumes "wf_blocks bs s" "a \<notin> fst ` set bs"
  shows "release a bs = bs"
  using assms by (simp add: release_def map_mark_other coalesce_wf)

lemma heaps_free_release:
  assumes inv: "heaps_inv m hs" and u: "(q, e) \<in> heaps_used hs"
  shows "\<exists>m'. heap_free (w32 q) m = Some m' \<and> heaps_inv m' (heaps_release q hs) \<and>
    heaps_used (heaps_release q hs) = heaps_used hs - {(q, e)}"
proof -
  obtain hh bs s where "(hh, bs, s) \<in> set hs" and ub: "(q, e) \<in> used bs s"
    using u by (auto simp: heaps_used_def)
  then obtain pre post where hs: "hs = pre @ (hh, bs, s) # post" by (metis split_list)
  have hi: "heap_inv m bs s" using inv hs by (auto intro: heaps_invD)
  obtain m' where m': "heap_free (w32 q) m = Some m'" "heap_inv m' (release (q - 8) bs) s"
    "blk_first (release (q - 8) bs) s = blk_first bs s"
    "used (release (q - 8) bs) s = used bs s - {(q, e)}"
    "\<forall>x. x < 2 ^ 31 \<and> (x < blk_first bs s \<or> s < x) \<longrightarrow> m' (w32 x) = m (w32 x)"
    using heap_free_release [OF hi ub] by blast
  have q: "blk_first bs s + 8 \<le> q" "q \<le> s" using used_in_heap [OF hi ub] by auto
  have other: "release (q - 8) cs = cs \<and> (q, e) \<notin> used cs t" if c: "(h, cs, t) \<in> set pre \<union> set post" for h cs t
  proof -
    note ci = heaps_inv_others(1) [OF inv [unfolded hs] c]
      and ap = heaps_inv_others(2) [OF inv [unfolded hs] c]
    have "q - 8 \<notin> fst ` set cs"
    proof
      assume "q - 8 \<in> fst ` set cs"
      then have "blk_first cs t \<le> q - 8" "q - 8 < t"
        using wf_addr_bounds [of cs t "q - 8"] ci by (simp_all add: heap_inv_def)
      then show False using ap q by (auto simp: apart_def)
    qed
    moreover have "(q, e) \<notin> used cs t"
      using ap q used_in_heap [OF ci, of q e] by (auto simp: apart_def)
    ultimately show ?thesis using release_other ci by (auto simp: heap_inv_def)
  qed
  have rel: "heaps_release q hs = pre @ (hh, release (q - 8) bs, s) # post"
    unfolding heaps_release_def hs using other by (auto intro!: map_idI)
  have "(q, e) \<notin> heaps_used pre" "(q, e) \<notin> heaps_used post"
    using other by (auto simp: heaps_used_def)
  moreover have "heaps_used (heaps_release q hs) = heaps_used pre \<union> ((used bs s - {(q, e)}) \<union> heaps_used post)"
    by (simp only: rel heaps_used_append heaps_used_Cons m'(4))
  moreover have "heaps_used hs = heaps_used pre \<union> (used bs s \<union> heaps_used post)"
    by (simp add: hs heaps_used_append heaps_used_Cons)
  ultimately have "heaps_used (heaps_release q hs) = heaps_used hs - {(q, e)}" by blast
  moreover have "heaps_inv m' (heaps_release q hs)"
    unfolding rel by (rule heaps_inv_update [OF inv [unfolded hs] m'(2,3,5)])
  ultimately show ?thesis using m'(1) by blast
qed

text \<open>The region added by \<^const>\<open>heap_add_mem\<close>.\<close>

lemma sorted_wrt_insert_sym:
  assumes "\<And>x y. R x y \<Longrightarrow> R y x"
  shows "sorted_wrt R (list_insert_sorted cmp e ts) \<longleftrightarrow> (\<forall>t\<in>set ts. R e t) \<and> sorted_wrt R ts"
  using assms by (induction ts) auto

lemma map_insert_sorted:
  "map f (list_insert_sorted (\<lambda>a b. cmp (f a) (f b)) e ts) = list_insert_sorted cmp (f e) (map f ts)"
  by (induction ts) auto

lemma apart_sym: "apart x y \<Longrightarrow> apart y x"
  by (auto simp: apart_def)

definition add_spec :: "nat \<Rightarrow> nat \<Rightarrow> u8 \<Rightarrow> u8 \<Rightarrow> heap_header \<times> blocks \<times> nat" where
  "add_spec start endp type prio =
     (let a = round_up (start + 16) 8
      in (\<lparr>hh_addr = w32 start, hh_blocks = w32 a, hh_type = ucast type, hh_prio = ucast prio\<rparr>,
          [(a, True)], endp - 8))"

definition heaps_insert :: "heap_header \<times> blocks \<times> nat \<Rightarrow> heaps \<Rightarrow> heaps" where
  "heaps_insert = list_insert_sorted (\<lambda>a b. heap_cmp (fst a) (fst b))"

lemma heap_add_mem_heaps:
  assumes "\<not> hs_mutex st" "hs_heaps st = map fst hs" "heaps_inv (hs_mem st) hs"
    and "8 dvd endp" "start + 32 < endp" "endp < 2 ^ 31"
    and "\<forall>x\<in>set hs. apart (add_spec start endp type prio) x"
  shows "\<exists>st'. heap_add_mem ebss (w32 start) (w32 endp) type prio st = Some st' \<and>
    \<not> hs_mutex st' \<and> hs_heaps st' = map fst (heaps_insert (add_spec start endp type prio) hs) \<and>
    heaps_inv (hs_mem st') (heaps_insert (add_spec start endp type prio) hs)"
proof -
  obtain t where t: "endp = t + 8" using assms(5) le_Suc_ex [of 8 endp] by (auto simp: add.commute)
  let ?a = "round_up (start + 16) 8" and ?s = t
  let ?m = "(hs_mem st)(w32 ?a \<mapsto> hdr ?s 0 True, w32 ?s \<mapsto> hdr 0 ?a False)"
  have al: "ALIGN (w32 (start + 16)) 8 = w32 ?a"
    using ALIGN_w32 [of "start + 16" 3] assms(5,6) by simp
  have ab: "8 dvd ?a" "0 < ?a" "?a < ?s" "?s < 2 ^ 31"
    using round_up_less [of 8 "start + 16"] round_up_ge [of 8 "start + 16"] round_up_dvd [of 8 "start + 16"] assms(5,6) t by auto
  have sd: "8 dvd ?s" using assms(4) t by simp
  have al2: "ALIGN (w32 endp - 8) 8 = w32 ?s"
  proof -
    have "w32 endp - 8 = w32 ?s" by (simp add: t)
    moreover have "ALIGN (w32 ?s) 8 = w32 ?s"
      using ALIGN_w32 [of ?s 3] round_up_self [OF _ sd] assms(6) t by simp
    ultimately show ?thesis by simp
  qed
  have ns: "w32 start \<noteq> HEAP_START_EBSS"
    using w32_inject [of start "2 ^ 32 - 1"] assms(5,6) by (simp add: HEAP_START_EBSS_def)
  have neq: "w32 ?s \<noteq> w32 ?a" using ab by (simp add: w32_inject)
  have hd: "\<lparr>hb_next = w32 ?s, hb_prev = 0, hb_free = True\<rparr> = hdr ?s 0 True"
      "hb_set_prev (w32 ?a) \<lparr>hb_next = 0, hb_prev = 0, hb_free = False\<rparr> = hdr 0 ?a False"
    by (simp_all add: hdr_def hb_set_prev_def)
  have new: "heap_inv ?m [(?a, True)] ?s"
    using ab sd neq by (simp add: heap_inv_def)
  obtain hh where sp: "add_spec start endp type prio = (hh, [(?a, True)], ?s)"
    and hh: "hh = \<lparr>hh_addr = w32 start, hh_blocks = w32 ?a, hh_type = ucast type, hh_prio = ucast prio\<rparr>"
    by (simp add: add_spec_def Let_def t)
  have old: "heap_inv ?m cs u" if c: "(h, cs, u) \<in> set hs" for h cs u
    using heap_inv_apart [OF heaps_invD(1) [OF assms(3) c], of hh "[(?a, True)]" ?s h ?m] assms(7) c ab
    by (auto simp: sp w32_inject)
  have "heaps_inv ?m (heaps_insert (hh, [(?a, True)], ?s) hs)"
    using new old heaps_invD(2) [OF assms(3)] assms(3,7) unfolding sp
    by (auto simp: heaps_inv_def heaps_insert_def sorted_wrt_insert_sym [OF apart_sym] hh)
  moreover have "heap_add_mem ebss (w32 start) (w32 endp) type prio st =
      Some (st\<lparr>hs_mem := ?m, hs_heaps := list_insert_sorted heap_cmp hh (map fst hs), hs_mutex := False\<rparr>)"
    using assms(1,2) ns al al2 hd neq
    by (simp add: heap_add_mem_def Let_def heap_lock_def heap_unlock_def hh)
  ultimately show ?thesis
    unfolding sp by (simp add: heaps_insert_def map_insert_sorted [of fst])
qed

section \<open>The C library calls as an allocator\<close>

type_synonym mem_req = "u32 \<times> u32 \<times> u32"

definition req_ok :: "mem_req \<Rightarrow> bool" where
  "req_ok r = (case r of (sz, al, type) \<Rightarrow>
     align_ok (unat al) \<and> unat sz + eff_align (unat al) + 8 < 2 ^ 30 \<and> type AND MEM_MAY_FAIL \<noteq> 0)"

definition malloc_req :: "mem_req \<Rightarrow> heap_state \<Rightarrow> (u32 option \<times> heap_state) option" where
  "malloc_req r st = (case r of (sz, al, type) \<Rightarrow>
     map_option (\<lambda>(x, st). (if x = 0 then None else Some x, st)) (malloc0 sz al type st))"

definition state_heaps :: "heap_state \<Rightarrow> heaps \<Rightarrow> bool" where
  "state_heaps st hs \<longleftrightarrow> \<not> hs_mutex st \<and> hs_heaps st = map fst hs \<and> heaps_inv (hs_mem st) hs"

definition heaps_valid :: "heap_state \<Rightarrow> u32 set \<Rightarrow> bool" where
  "heaps_valid st L \<longleftrightarrow> (\<exists>hs. state_heaps st hs \<and> (\<forall>(hh, bs, s)\<in>set hs. s \<le> 2 ^ 30) \<and>
     L = (\<lambda>(p, e). w32 p) ` heaps_used hs)"

lemma malloc0_heaps:
  assumes st: "state_heaps st hs" and req: "\<forall>(hh, bs, s)\<in>set hs. request_fits s sz al"
  shows "case heaps_fit hs sz al type of
      None \<Rightarrow> malloc0 (w32 sz) (w32 al) type st =
        (if type AND MEM_MAY_FAIL = 0 then None else Some (0, st))
    | Some (q, hs') \<Rightarrow> \<exists>m'. malloc0 (w32 sz) (w32 al) type st = Some (w32 q,
          st\<lparr>hs_mem := m', hs_data := if type AND MEM_CLEAR \<noteq> 0
                 then data_set (w32 q) 0 (w32 sz) (hs_data st) else hs_data st\<rparr>) \<and>
        w32 q \<noteq> 0 \<and> heaps_inv m' hs'"
proof -
  have m: "\<not> hs_mutex st" "hs_heaps st = map fst hs" and inv: "heaps_inv (hs_mem st) ([] @ hs)"
    using st by (simp_all add: state_heaps_def)
  have same: "st\<lparr>hs_mutex := False\<rparr> = st" "st\<lparr>hs_mem := hs_mem st, hs_mutex := False\<rparr> = st" using m(1) by simp_all
  note fit = malloc0_loop_fit [OF inv req, of type]
  show ?thesis
  proof (cases "heaps_fit hs sz al type")
    case None
    then show ?thesis using fit m same
      by (simp add: malloc0_def heap_lock_def heap_unlock_def Let_def)
  next
    case (Some r)
    obtain q hs' where r: "r = (q, hs')" by fastforce
    with Some fit obtain m' where "malloc0_loop (map fst hs) (w32 sz) (w32 al) type (hs_mem st) = Some (w32 q, m')"
      "w32 q \<noteq> 0" "heaps_inv m' hs'" by auto
    then show ?thesis using m Some r
      by (cases st) (auto simp: malloc0_def heap_lock_def heap_unlock_def Let_def)
  qed
qed

lemma free_heaps:
  assumes st: "state_heaps st hs" and u: "(q, e) \<in> heaps_used hs"
  shows "\<exists>st'. free (w32 q) st = Some st' \<and> state_heaps st' (heaps_release q hs) \<and>
    heaps_used (heaps_release q hs) = heaps_used hs - {(q, e)}"
proof -
  have inv: "heaps_inv (hs_mem st) hs" using st by (simp add: state_heaps_def)
  obtain m' where "heap_free (w32 q) (hs_mem st) = Some m'" "heaps_inv m' (heaps_release q hs)"
    "heaps_used (heaps_release q hs) = heaps_used hs - {(q, e)}"
    using heaps_free_release [OF inv u] by blast
  moreover have "map fst (heaps_release q hs) = map fst hs"
    by (auto simp: heaps_release_def)
  ultimately show ?thesis using st
    by (auto simp: free_def heap_lock_def heap_unlock_def state_heaps_def)
qed

lemma heaps_used_range: "heaps_inv m hs \<Longrightarrow> (p, e) \<in> heaps_used hs \<Longrightarrow> p < 2 ^ 31"
  using used_in_heap heaps_invD(1) by (fastforce simp: heaps_used_def)

lemma live_pointer_inj:
  assumes "heaps_inv m hs" "(a, b) \<in> heaps_used hs" "(q, e) \<in> heaps_used hs" "w32 a = w32 q"
  shows "a = q \<and> b = e"
proof -
  have "a = q" using assms(4) w32_inject [of a q] heaps_used_range [OF assms(1,2)]
    heaps_used_range [OF assms(1,3)] by simp
  then show ?thesis using heaps_used_functional [OF assms(1)] assms(2,3) by blast
qed

interpretation mheap: allocator malloc_req free heaps_valid req_ok
proof
  fix st L and r :: mem_req
  assume v: "heaps_valid st L" and ok: "req_ok r"
  obtain sz al type where r: "r = (sz, al, type)" by (cases r)
  obtain hs where st: "state_heaps st hs" and top: "\<forall>(hh, bs, s)\<in>set hs. s \<le> 2 ^ 30"
    and L: "L = (\<lambda>(p, e). w32 p) ` heaps_used hs" using v by (auto simp: heaps_valid_def)
  have inv: "heaps_inv (hs_mem st) hs" using st by (simp add: state_heaps_def)
  have al: "align_ok (unat al)" using ok r by (simp add: req_ok_def)
  have "\<forall>(hh, bs, s)\<in>set hs. request_fits s (unat sz) (unat al)"
    using ok r top by (fastforce simp: req_ok_def request_fits_def)
  from malloc0_heaps [OF st this, of type]
  have fit: "case heaps_fit hs (unat sz) (unat al) type of
      None \<Rightarrow> malloc0 sz al type st = (if type AND MEM_MAY_FAIL = 0 then None else Some (0, st))
    | Some (q, hs') \<Rightarrow> \<exists>m' d'. malloc0 sz al type st = Some (w32 q, st\<lparr>hs_mem := m', hs_data := d'\<rparr>) \<and>
        w32 q \<noteq> 0 \<and> heaps_inv m' hs'" by (fastforce split: option.splits)
  show "\<exists>x st'. malloc_req r st = Some (x, st') \<and>
      (case x of None \<Rightarrow> heaps_valid st' L | Some p \<Rightarrow> p \<notin> L \<and> heaps_valid st' (insert p L))"
  proof (cases "heaps_fit hs (unat sz) (unat al) type")
    case None
    then show ?thesis using fit ok r v by (auto simp: malloc_req_def req_ok_def)
  next
    case (Some x)
    obtain q hs' where x: "x = (q, hs')" by fastforce
    obtain m' d' where m: "malloc0 sz al type st = Some (w32 q, st\<lparr>hs_mem := m', hs_data := d'\<rparr>)"
      "w32 q \<noteq> 0" "heaps_inv m' hs'" using fit Some x by auto
    note f = heaps_fit_used [OF inv al Some [unfolded x]]
    obtain e where e: "heaps_used hs' = insert (q, e) (heaps_used hs)" using f(1) by blast
    have "q < 2 ^ 31" using heaps_used_range [OF m(3), of q e] e by simp
    moreover have "a < 2 ^ 31" if "(a, b) \<in> heaps_used hs" for a b
      using heaps_used_range [OF inv that] .
    ultimately have "w32 a \<noteq> w32 q" if "(a, b) \<in> heaps_used hs" for a b
      using f(2) that w32_inject [of a q] by fastforce
    then have fresh: "w32 q \<notin> L" by (force simp: L)
    have "(\<lambda>x. snd (snd x)) ` set hs' = (\<lambda>x. snd (snd x)) ` set hs"
      using arg_cong [OF f(4), of set] by (simp add: image_image comp_def)
    then have "\<forall>(hh, bs, s)\<in>set hs'. s \<le> 2 ^ 30"
      using top by (force simp: image_iff)
    then have "heaps_valid (st\<lparr>hs_mem := m', hs_data := d'\<rparr>) (insert (w32 q) L)"
      using st m(3) f(3) e L by (auto simp: heaps_valid_def state_heaps_def intro!: exI [of _ hs'])
    then show ?thesis using m(1,2) fresh r by (simp add: malloc_req_def)
  qed
next
  fix st L p
  assume v: "heaps_valid st L" and p: "p \<in> L"
  obtain hs where st: "state_heaps st hs" and top: "\<forall>(hh, bs, s)\<in>set hs. s \<le> 2 ^ 30"
    and L: "L = (\<lambda>(p, e). w32 p) ` heaps_used hs" using v by (auto simp: heaps_valid_def)
  have inv: "heaps_inv (hs_mem st) hs" using st by (simp add: state_heaps_def)
  obtain q e where q: "p = w32 q" "(q, e) \<in> heaps_used hs" using p L by auto
  obtain st' where s': "free (w32 q) st = Some st'" "state_heaps st' (heaps_release q hs)"
    "heaps_used (heaps_release q hs) = heaps_used hs - {(q, e)}"
    using free_heaps [OF st q(2)] by blast
  have "L - {p} = (\<lambda>(p, e). w32 p) ` (heaps_used hs - {(q, e)})"
    using live_pointer_inj [OF inv _ q(2)] by (auto simp: L q(1))
  moreover have "\<forall>(hh, bs, s)\<in>set (heaps_release q hs). s \<le> 2 ^ 30"
    using top by (auto simp: heaps_release_def)
  ultimately show "\<exists>st'. free p st = Some st' \<and> heaps_valid st' (L - {p})"
    using s' q(1) by (auto simp: heaps_valid_def intro!: exI [of _ "heaps_release q hs"])
qed

section \<open>Properties\<close>

interpretation heap_order: sorted_insert heap_cmp "\<lambda>a b. hh_prio a \<le> hh_prio b"
  by unfold_locales (auto simp: heap_cmp_def)

lemma hb_upd_keeps_free:
  assumes "hb_upd a f m = Some m'" "\<And>b. hb_free (f b) = hb_free b" "m x = Some b" "hb_free b"
  shows "\<exists>b'. m' x = Some b' \<and> hb_free b'"
  using assms by (auto simp: hb_upd_def split: option.splits)

lemma merge_keeps_free:
  assumes "heap_merge_next hb m = Some m'" "m x = Some b" "hb_free b"
  shows "\<exists>b'. m' x = Some b' \<and> hb_free b'"
proof -
  obtain b1 n where "m hb = Some b1" "m (hb_next b1) = Some n"
    using assms(1) by (auto simp: heap_merge_next_def Let_def split: bind_splits)
  with assms(1) consider "m' = m"
    | n m1 k where "hb_upd hb (hb_next_update (\<lambda>_. n)) m = Some m1"
      "hb_upd k (hb_set_prev hb) m1 = Some m'"
    by (cases "hb_free n"; cases "hb < hb_next b1")
      (auto simp: heap_merge_next_def Let_def split: bind_splits)
  then show ?thesis
  proof cases
    case 2
    from hb_upd_keeps_free [OF 2(1) _ assms(2,3)] obtain b1 where "m1 x = Some b1" "hb_free b1" by auto
    from hb_upd_keeps_free [OF 2(2) _ this] show ?thesis by (simp add: hb_set_prev_def)
  qed (use assms in auto)
qed

definition demo_store :: heap_store where
  "demo_store = [w32 4096 \<mapsto> hdr 8192 0 True, w32 8192 \<mapsto> hdr 0 4096 False]"

lemma demo_store_inv: "heap_inv demo_store [(4096, True)] 8192"
  by (simp add: heap_inv_def demo_store_def)

lemma demo_request: "request_fits 8192 100 32"
  unfolding request_fits_def align_ok_def
  by (auto simp: eff_align_def intro!: exI [of _ 5])

lemma demo_fit: "heap_fit [(4096, True)] 8192 100 32 = Some (4128, [(4096, True), (4120, False), (4232, True)])"
  by (simp add: heap_fit_def eff_align_def round_up_def Let_def fit_split_def)

lemma demo_alloc:
  obtains m' where "heap_alloc demo_store (w32 4096) (w32 100) (w32 32) = Some (w32 4128, m')"
    "heap_inv m' [(4096, True), (4120, False), (4232, True)] 8192"
  using heap_alloc_fit [OF demo_store_inv demo_request] demo_fit by auto

text \<open>C10. On a well-formed heap and for a request that does not run past the address space,
  \<^verbatim>\<open>heap_alloc\<close> returns: either no free block fits and it answers NULL leaving the heap as it
  was, or it takes the first block that fits, splits off the padding in front and the rest
  behind exactly as first fit on the list of blocks does, and leaves a well-formed heap.\<close>

theorem heap_alloc_refines_first_fit:
  assumes "heap_inv m bs s" and "request_fits s sz al"
  shows "case heap_fit bs s sz al of
      None \<Rightarrow> heap_alloc m (w32 (blk_first bs s)) (w32 sz) (w32 al) = Some (0, m)
    | Some (q, bs') \<Rightarrow>
        \<exists>m'. heap_alloc m (w32 (blk_first bs s)) (w32 sz) (w32 al) = Some (w32 q, m') \<and>
          heap_inv m' bs' s \<and> q \<noteq> 0"
  using heap_alloc_fit [OF assms] heap_fit_facts(2) [OF assms(1)] assms(2)
  by (fastforce simp: request_fits_def split: option.splits)

theorem heap_alloc_refines_first_fit_witness:
  "\<exists>m'. heap_alloc demo_store (w32 4096) (w32 100) (w32 32) = Some (w32 4128, m') \<and>
     heap_inv m' [(4096, True), (4120, False), (4232, True)] 8192"
  using heap_alloc_refines_first_fit [OF demo_store_inv demo_request] demo_fit by auto

lemma heap_alloc_result:
  assumes inv: "heap_inv m bs s" and req: "request_fits s sz al"
    and run: "heap_alloc m (w32 (blk_first bs s)) (w32 sz) (w32 al) = Some (p, m')" "p \<noteq> 0"
  obtains q bs' where "p = w32 q" "unat p = q" "heap_fit bs s sz al = Some (q, bs')" "heap_inv m' bs' s"
proof -
  obtain q bs' where q: "heap_fit bs s sz al = Some (q, bs')" "p = w32 q" "heap_inv m' bs' s"
    using heap_alloc_fit [OF inv req] run by (auto split: option.splits)
  moreover have "q < 2 ^ 32"
    using heap_fit_facts(4) [OF inv _ q(1)] req inv wf_first_bounds [of bs s]
    by (auto simp: request_fits_def heap_inv_def)
  ultimately show ?thesis using that unat_w32 by blast
qed

text \<open>C20. For a request whose alignment is 0 or a power of two and that does not run past the address space
  (end of the heap, alignment, size and a header together below 2^31, \<open>request_fits\<close>; without this bound
  the rounding of the size wraps, see \<open>heap_alloc_size_wraps\<close>): a block handed out is aligned as asked (at least to 8), holds the requested size, lies
  inside the heap, and overlaps no block in use and none of their headers; every block that
  was in use before still is, with the same extent.\<close>

theorem heap_alloc_block_is_fresh:
  assumes "heap_inv m bs s" and "request_fits s sz al"
    and "heap_alloc m (w32 (blk_first bs s)) (w32 sz) (w32 al) = Some (p, m')" and "p \<noteq> 0"
  shows "\<exists>bs' e. heap_inv m' bs' s \<and> used bs' s = insert (unat p, e) (used bs s) \<and>
    eff_align al dvd unat p \<and> unat p + sz \<le> e \<and> e \<le> s \<and>
    (\<forall>(p', e')\<in>used bs s. e + 8 \<le> p' \<or> e' + 8 \<le> unat p)"
proof -
  obtain q bs' where q: "unat p = q" "heap_fit bs s sz al = Some (q, bs')" "heap_inv m' bs' s"
    using heap_alloc_result [OF assms] by metis
  note f = heap_fit_facts [OF assms(1) _ q(2)]
  have al: "align_ok al" using assms(2) by (simp add: request_fits_def)
  obtain e where e: "q + sz \<le> e" "e \<le> s" "used bs' s = insert (q, e) (used bs s)"
    using f(4) [OF al] by blast
  have "e + 8 \<le> p' \<or> e' + 8 \<le> q" if "(p', e') \<in> used bs s" for p' e'
    using used_disjoint [of bs' s q e p' e'] q(3) e(3) that f(5) [OF al]
    by (cases "q = p'") (auto simp: heap_inv_def)
  then show ?thesis using e q f(3) [OF al] by blast
qed

theorem heap_alloc_block_is_fresh_witness:
  "\<exists>m' bs' e. heap_inv m' bs' 8192 \<and> used bs' 8192 = {(4128, e)} \<and> 4228 \<le> e"
proof -
  obtain m' where "heap_alloc demo_store (w32 4096) (w32 100) (w32 32) = Some (w32 4128, m')"
    using demo_alloc by blast
  then show ?thesis
    using heap_alloc_block_is_fresh [OF demo_store_inv demo_request, of "w32 4128" m'] by auto
qed

text \<open>C21. Releasing a block in use never fails an assertion: the block becomes free, adjacent free
  blocks are joined so that the heap is well formed again, and all other blocks in use stay.\<close>

theorem heap_free_refines_release:
  assumes "heap_inv m bs s" and "(q, e) \<in> used bs s"
  shows "\<exists>m'. heap_free (w32 q) m = Some m' \<and> heap_inv m' (release (q - 8) bs) s \<and>
    used (release (q - 8) bs) s = used bs s - {(q, e)}"
  using heap_free_release [OF assms] by blast

theorem heap_free_refines_release_witness:
  "\<exists>m m'. heap_free (w32 4128) m = Some m' \<and> heap_inv m' [(4096, True)] 8192"
proof -
  obtain m where m: "heap_inv m [(4096, True), (4120, False), (4232, True)] 8192"
    using demo_alloc by blast
  have "release (4128 - 8) [(4096, True), (4120, False), (4232, True)] = [(4096, True)]"
    by (simp add: release_def)
  then show ?thesis using heap_free_refines_release [OF m, of 4128 4232] by auto
qed

text \<open>Releasing the block just allocated restores the list of blocks the heap had before the
  allocation, so an allocation followed by its release fragments nothing.\<close>

theorem heap_free_undoes_alloc:
  assumes "heap_inv m bs s" and "request_fits s sz al"
    and "heap_alloc m (w32 (blk_first bs s)) (w32 sz) (w32 al) = Some (p, m')" and "p \<noteq> 0"
  shows "\<exists>m''. heap_free p m' = Some m'' \<and> heap_inv m'' bs s"
proof -
  obtain q bs' where q: "p = w32 q" "heap_fit bs s sz al = Some (q, bs')" "heap_inv m' bs' s"
    using heap_alloc_result [OF assms] by metis
  have al: "align_ok al" using assms(2) by (simp add: request_fits_def)
  obtain k where k: "8 \<le> eff_align al" "8 dvd eff_align al" using eff_align_pow [OF al] by metis
  obtain pre post where d: "bs' = pre @ (q - 8, False) # post" "release_at pre (q - 8) post = bs"
    using release_first_fit [OF _ q(2) [unfolded heap_fit_def] round_up_dvd k(2)] k(1) assms(1)
    by (auto simp: heap_inv_def)
  have "release (q - 8) bs' = bs"
    using release_eq [of pre "q - 8" post s] q(3) d by (simp add: heap_inv_def)
  moreover obtain e where "(q, e) \<in> used bs' s"
    using heap_fit_facts(4) [OF assms(1) al q(2)] by blast
  ultimately show ?thesis using heap_free_release [OF q(3)] q(1) by metis
qed

theorem heap_free_undoes_alloc_witness:
  "\<exists>m' m''. heap_free (w32 4128) m' = Some m'' \<and> heap_inv m'' [(4096, True)] 8192"
proof -
  obtain m' where "heap_alloc demo_store (w32 4096) (w32 100) (w32 32) = Some (w32 4128, m')"
    using demo_alloc by blast
  then show ?thesis
    using heap_free_undoes_alloc [OF demo_store_inv demo_request, of "w32 4128" m'] by auto
qed

text \<open>C24. Releasing the same pointer twice in a row always runs into the assertion, whether or not
  the first release merged the block with its neighbours.\<close>

theorem double_free_panics:
  assumes "heap_free p m = Some m'" and "p \<noteq> 0"
  shows "heap_free p m' = None"
proof -
  obtain b m1 m2 where m: "m (p - 8) = Some b"
      "m1 = m(p - 8 \<mapsto> hb_free_update (\<lambda>_. True) b)" "heap_merge_next (p - 8) m1 = Some m2"
      "m' = m2 \<or> (\<exists>q. heap_merge_next q m2 = Some m')"
    using assms by (auto simp: heap_free_def hb_upd_def Let_def split: bind_splits if_splits option.splits)
  have "m1 (p - 8) = Some (hb_free_update (\<lambda>_. True) b)" using m(2) by simp
  from merge_keeps_free [OF m(3) this] obtain b2 where b2: "m2 (p - 8) = Some b2" "hb_free b2" by auto
  then obtain b' where "m' (p - 8) = Some b'" "hb_free b'"
    using m(4) merge_keeps_free [of _ m2 m' "p - 8" b2] by auto
  then show ?thesis using assms(2) by (simp add: heap_free_def Let_def)
qed

theorem double_free_panics_witness:
  "\<exists>m m'. heap_free (w32 4128) m = Some m' \<and> heap_free (w32 4128) m' = None"
proof -
  obtain m where m: "heap_inv m [(4096, True), (4120, False), (4232, True)] 8192"
    using demo_alloc by blast
  obtain m' where "heap_free (w32 4128) m = Some m'"
    using heap_free_release [OF m, of 4128 4232] by auto
  with double_free_panics [of "w32 4128" m m'] show ?thesis by auto
qed

text \<open>C23. Adding a region whose end is a multiple of 8 and that is apart from the heaps already
  present gives a state in which every heap is well formed, with the new heap, one free block,
  inserted so that the list stays sorted by priority number.\<close>

theorem heap_add_mem_ready:
  assumes "state_heaps st hs" and "8 dvd endp" "start + 32 < endp" "endp < 2 ^ 31"
    and "\<forall>x\<in>set hs. apart (add_spec start endp type prio) x"
    and "sorted_wrt (\<lambda>a b. hh_prio a \<le> hh_prio b) (hs_heaps st)"
  shows "\<exists>st'. heap_add_mem ebss (w32 start) (w32 endp) type prio st = Some st' \<and>
    state_heaps st' (heaps_insert (add_spec start endp type prio) hs) \<and>
    sorted_wrt (\<lambda>a b. hh_prio a \<le> hh_prio b) (hs_heaps st')"
proof -
  obtain st' where "heap_add_mem ebss (w32 start) (w32 endp) type prio st = Some st'"
    and s': "state_heaps st' (heaps_insert (add_spec start endp type prio) hs)"
    using heap_add_mem_heaps [of st hs endp start type prio ebss] assms by (auto simp: state_heaps_def)
  moreover have "hs_heaps st' = list_insert_sorted heap_cmp (fst (add_spec start endp type prio)) (hs_heaps st)"
    using s' assms(1) by (simp add: state_heaps_def heaps_insert_def map_insert_sorted)
  ultimately show ?thesis using heap_order.insert_keeps_sorted [OF assms(6)] by auto
qed

definition empty_heap :: heap_state where
  "empty_heap = \<lparr>hs_heaps = [], hs_mem = Map.empty, hs_data = (\<lambda>_. 0), hs_mutex = False\<rparr>"

lemma empty_heap_state: "state_heaps empty_heap []"
  by (simp add: state_heaps_def empty_heap_def heaps_inv_def)

theorem heap_add_mem_ready_witness:
  "\<exists>st'. heap_add_mem 0 (w32 4080) (w32 8200) 1 10 empty_heap = Some st' \<and>
     state_heaps st' (heaps_insert (add_spec 4080 8200 1 10) [])"
  using heap_add_mem_ready [OF empty_heap_state, of 8200 4080 1 10 0]
  by (auto simp: empty_heap_def)

text \<open>C22. For a request that fits the address space on every heap (alignment 0 or a power of two; end of the
  heap, alignment, size and a header together below 2^31; a larger size wraps and is served as a small one, see
  \<open>heap_alloc_size_wraps\<close>): \<^verbatim>\<open>malloc0\<close> serves it from the first heap, in priority order, that has all the
  requested memory types and a block that fits; with \<^verbatim>\<open>MEM_CLEAR\<close> the bytes are zero. When no
  heap can serve it, it panics unless \<^verbatim>\<open>MEM_MAY_FAIL\<close> is given, in which case it answers NULL
  and changes nothing.\<close>

theorem malloc0_refines_heaps_fit:
  assumes "state_heaps st hs" and "\<forall>(hh, bs, s)\<in>set hs. request_fits s sz al"
  shows "case heaps_fit hs sz al type of
      None \<Rightarrow> malloc0 (w32 sz) (w32 al) type st =
        (if type AND MEM_MAY_FAIL = 0 then None else Some (0, st))
    | Some (q, hs') \<Rightarrow> \<exists>st'. malloc0 (w32 sz) (w32 al) type st = Some (w32 q, st') \<and>
        w32 q \<noteq> 0 \<and> state_heaps st' hs' \<and>
        (type AND MEM_CLEAR \<noteq> 0 \<longrightarrow> (\<forall>i. i < sz \<longrightarrow> hs_data st' (w32 (q + i)) = 0))"
proof -
  have al: "align_ok al" if "hs \<noteq> []" using assms(2) that by (cases hs) (auto simp: request_fits_def)
  have inv: "heaps_inv (hs_mem st) hs" using assms(1) by (simp add: state_heaps_def)
  show ?thesis
  proof (cases "heaps_fit hs sz al type")
    case None
    then show ?thesis using malloc0_heaps [OF assms, of type] by simp
  next
    case (Some r)
    obtain q hs' where r: "r = (q, hs')" by fastforce
    have "hs \<noteq> []" using Some by auto
    note f = heaps_fit_used(3) [OF inv al [OF this] Some [unfolded r]]
    have szb: "sz < 2 ^ 32" using assms(2) \<open>hs \<noteq> []\<close> by (cases hs) (auto simp: request_fits_def)
    have d: "data_set (w32 q) 0 (w32 sz) D (w32 (q + i)) = 0" if "i < sz" for i D
      using that szb w32_less [of i sz] by (simp add: data_set_def)
    show ?thesis
      using malloc0_heaps [OF assms, of type] Some r f assms(1) d by (auto simp: state_heaps_def)
  qed
qed

lemma demo_state: "\<exists>st. state_heaps st [add_spec 4080 8200 1 10]"
  using heap_add_mem_heaps [of empty_heap "[]" 8200 4080 1 10 0] empty_heap_state
  by (auto simp: state_heaps_def heaps_insert_def)

theorem malloc0_refines_heaps_fit_witness:
  "\<exists>st st'. malloc0 (w32 100) (w32 32) MEM_CLEAR st = Some (w32 4128, st') \<and> hs_data st' (w32 4227) = 0"
proof -
  obtain st where st: "state_heaps st [add_spec 4080 8200 1 10]" using demo_state by blast
  have sp: "\<exists>hh. add_spec 4080 8200 1 10 = (hh, [(4096, True)], 8192)"
    by (simp add: add_spec_def round_up_def Let_def)
  then obtain hh where hh: "add_spec 4080 8200 1 10 = (hh, [(4096, True)], 8192)" by blast
  have "heap_matches MEM_CLEAR hh" by (simp add: heap_matches_def MEM_CLEAR_def)
  then have "\<exists>st'. malloc0 (w32 100) (w32 32) MEM_CLEAR st = Some (w32 4128, st') \<and> hs_data st' (w32 4227) = 0"
    using malloc0_refines_heaps_fit [OF st, of 100 32 MEM_CLEAR] demo_request demo_fit
    unfolding hh by (auto simp: MEM_CLEAR_def dest!: spec [of _ 99])
  then show ?thesis by blast
qed

text \<open>C1. Heaps that end below address 2^30 and clients whose requests are sane: the alignment is 0 or a power of
  two, and size, alignment and a header together stay below 2^30 bytes. Whatever sequence of such allocations
  and of releases they perform, as long as they release only what they own: no such allocation with \<^verbatim>\<open>MEM_MAY_FAIL\<close> and no release panics, and the debug
  check \<^verbatim>\<open>verify_heap\<close> accepts every heap at every point.\<close>

theorem heap_clients_never_panic:
  assumes "heaps_valid st0 L0" and "alloc_run malloc_req free req_ok st0 L0 st L"
  shows "(\<forall>r. req_ok r \<longrightarrow> malloc_req r st \<noteq> None) \<and> (\<forall>p\<in>L. free p st \<noteq> None) \<and>
    (\<forall>hh\<in>set (hs_heaps st). verify_heap (hs_mem st) (hh_blocks hh) = Some ())"
proof -
  obtain hs where hs: "state_heaps st hs"
    using mheap.run_valid [OF assms(2,1)] by (auto simp: heaps_valid_def)
  have "verify_heap (hs_mem st) (hh_blocks hh) = Some ()" if hh: "hh \<in> set (hs_heaps st)" for hh
  proof -
    obtain bs s where b: "(hh, bs, s) \<in> set hs" using hh hs by (force simp: state_heaps_def)
    have "heap_inv (hs_mem st) bs s" "hh_blocks hh = w32 (blk_first bs s)"
      using hs b heaps_invD by (auto simp: state_heaps_def)
    then show ?thesis
      using verify_heap_loop_ok [of "hs_mem st" 0 bs s] by (simp add: verify_heap_def heap_inv_def)
  qed
  then show ?thesis using mheap.run_never_stuck [OF assms(2,1)] by blast
qed

lemma demo_malloc:
  assumes "state_heaps st [add_spec 4080 8200 1 10]"
  shows "\<exists>st'. malloc_req (w32 100, w32 32, MEM_MAY_FAIL) st = Some (Some (w32 4128), st')"
proof -
  obtain hh where hh: "add_spec 4080 8200 1 10 = (hh, [(4096, True)], 8192)" by (simp add: add_spec_def round_up_def Let_def)
  have "heap_matches MEM_MAY_FAIL hh" by (simp add: heap_matches_def MEM_MAY_FAIL_def)
  then have "\<exists>st'. malloc0 (w32 100) (w32 32) MEM_MAY_FAIL st = Some (w32 4128, st')"
    using malloc0_heaps [OF assms, of 100 32 MEM_MAY_FAIL] demo_request demo_fit unfolding hh by auto
  then obtain st' where "malloc0 (w32 100) (w32 32) MEM_MAY_FAIL st = Some (w32 4128, st')" by blast
  then show ?thesis by (simp add: malloc_req_def)
qed

lemma demo_valid: "\<exists>st. state_heaps st [add_spec 4080 8200 1 10] \<and> heaps_valid st {}"
proof -
  obtain st where st: "state_heaps st [add_spec 4080 8200 1 10]" using demo_state by blast
  then have "heaps_valid st {}"
    unfolding heaps_valid_def
    by (intro exI [of _ "[add_spec 4080 8200 1 10]"]) (auto simp: add_spec_def heaps_used_def round_up_def Let_def)
  with st show ?thesis by blast
qed

theorem heap_clients_never_panic_witness:
  "\<exists>st st'. malloc_req (w32 100, w32 32, MEM_MAY_FAIL) st = Some (Some (w32 4128), st') \<and> free (w32 4128) st' \<noteq> None \<and>
     malloc_req (w32 100, w32 32, MEM_MAY_FAIL) st' \<noteq> None"
proof -
  let ?r = "(w32 100, w32 32, MEM_MAY_FAIL)"
  obtain st where st: "state_heaps st [add_spec 4080 8200 1 10]" "heaps_valid st {}" using demo_valid by blast
  have ok: "req_ok ?r"
    using demo_request by (simp add: req_ok_def request_fits_def MEM_MAY_FAIL_def eff_align_def)
  obtain st' where x: "malloc_req ?r st = Some (Some (w32 4128), st')" using demo_malloc [OF st(1)] by blast
  have "alloc_run malloc_req free req_ok st {} st' (case Some (w32 4128) of None \<Rightarrow> {} | Some p \<Rightarrow> insert p {})"
    using run_start ok x by (rule run_alloc)
  from heap_clients_never_panic [OF st(2) this] ok x show ?thesis by (intro exI [of _ st] exI [of _ st']) simp
qed

section \<open>Limits of the code\<close>

text \<open>
  The rounding of the size wraps: asking for one of the seven largest sizes is asking for no
  bytes at all, and succeeds when any block is free.
\<close>

lemma heap_alloc_size_wraps:
  assumes "0xfffffff9 \<le> sz"
  shows "heap_alloc m hb sz align = heap_alloc m hb 0 align"
proof -
  define k where "k = sz - 0xfffffff9"
  have sz: "sz = k + 0xfffffff9" by (simp add: k_def)
  have "k < 8"
  proof -
    have "unat k = unat sz - 0xfffffff9"
      using assms by (simp add: k_def unat_sub_if' word_le_nat_alt)
    moreover have "unat sz < 2 ^ 32" using unsigned_less [of sz] by (simp add: unsigned_less)
    ultimately show ?thesis by (simp add: word_less_nat_alt)
  qed
  then have "unat (drop_bit 3 k) = 0"
    by (simp only: unat_drop_bit_eq) (simp add: drop_bit_eq_div word_less_nat_alt)
  then have "drop_bit 3 k = 0" by (simp only: unat_0_iff)
  then have "k AND NOT 7 = 0" using and_not_mask [of k 3] by (simp add: mask_eq_exp_minus_1)
  moreover have "sz + 8 - 1 = k" by (simp add: sz)
  ultimately have "ALIGN sz 8 = 0" by (simp add: ALIGN_def)
  moreover have "ALIGN 0 8 = 0" by (simp add: ALIGN_def)
  ultimately show ?thesis by (simp add: heap_alloc_def)
qed

text \<open>
  The sentinel of a region is rounded up: when the end of the region is not a multiple of 8
  the 8 byte header of the sentinel reaches past the end.
\<close>

lemma heap_add_mem_sentinel_past_end:
  "\<exists>st' b. heap_add_mem 0 4080 8196 1 10 empty_heap = Some st' \<and>
     hs_mem st' 8192 = Some b \<and> (8192 :: u32) + 8 > 8196"
  by (simp add: heap_add_mem_def empty_heap_def heap_lock_def heap_unlock_def ALIGN_def
      HEAP_START_EBSS_def Let_def)

end
