(* ===== verification/Cstring.thy ===== *)
theory Cstring
  imports Heap_Simple
begin

text \<open>
  The string and memory functions of \<^verbatim>\<open>src/lib/libc/string.c\<close> and the number parsers of
  \<^verbatim>\<open>src/lib/libc/libc.c\<close>. A pointer to characters is the list of bytes from that address to the
  end of the object it points into, so walking past the object is \<^const>\<open>None\<close>; \<^verbatim>\<open>char\<close> is
  unsigned, as on the targets of the code. The functions that move bytes inside one object
  take the object and two offsets, so that overlapping moves are covered. Integer arithmetic
  of the parsers is that of 32-bit registers.
\<close>

section \<open>Memory\<close>

fun memcpy_loop :: "bytes \<Rightarrow> nat \<Rightarrow> nat \<Rightarrow> nat \<Rightarrow> bytes option" where
  "memcpy_loop mem d s 0 = Some mem"
| "memcpy_loop mem d s (Suc n) = do {
     c \<leftarrow> buf_rd mem s;
     mem \<leftarrow> buf_wr mem d c;
     memcpy_loop mem (d + 1) (s + 1) n
   }"

definition memcpy :: "bytes \<Rightarrow> nat \<Rightarrow> nat \<Rightarrow> nat \<Rightarrow> bytes option" where
  "memcpy mem dest src n = memcpy_loop mem dest src n"

fun bcopy_down :: "bytes \<Rightarrow> nat \<Rightarrow> nat \<Rightarrow> nat \<Rightarrow> bytes option" where
  "bcopy_down mem d s 0 = Some mem"
| "bcopy_down mem d s (Suc n) = do {
     c \<leftarrow> buf_rd mem (s + n);
     mem \<leftarrow> buf_wr mem (d + n) c;
     bcopy_down mem d s n
   }"

definition bcopy :: "bytes \<Rightarrow> nat \<Rightarrow> nat \<Rightarrow> nat \<Rightarrow> bytes option" where
  "bcopy mem src dest len =
     (if len = 0 then Some mem
      else if dest < src then memcpy_loop mem dest src len
      else bcopy_down mem dest src len)"

definition memmove :: "bytes \<Rightarrow> nat \<Rightarrow> nat \<Rightarrow> nat \<Rightarrow> bytes option" where
  "memmove mem dest src n = bcopy mem src dest n"

fun memset :: "bytes \<Rightarrow> nat \<Rightarrow> u8 \<Rightarrow> nat \<Rightarrow> bytes option" where
  "memset mem dest val 0 = Some mem"
| "memset mem dest val (Suc len) = do {
     mem \<leftarrow> buf_wr mem dest val;
     memset mem (dest + 1) val len
   }"

fun memcmp :: "bytes \<Rightarrow> bytes \<Rightarrow> nat \<Rightarrow> int option" where
  "memcmp s1 s2 0 = Some 0"
| "memcmp (a # s1) (b # s2) (Suc n) =
     (if a \<noteq> b then Some (if a < b then -1 else 1) else memcmp s1 s2 n)"
| "memcmp _ _ (Suc n) = None"

section \<open>Strings\<close>

fun strlen :: "bytes \<Rightarrow> nat option" where
  "strlen [] = None"
| "strlen (c # s) = (if c = 0 then Some 0 else map_option Suc (strlen s))"

fun strcmp :: "bytes \<Rightarrow> bytes \<Rightarrow> int option" where
  "strcmp (a # s1) (b # s2) =
     (if a \<noteq> 0 \<and> a = b then strcmp s1 s2 else Some (int (unat a) - int (unat b)))"
| "strcmp _ _ = None"

fun strncmp :: "bytes \<Rightarrow> bytes \<Rightarrow> nat \<Rightarrow> int option" where
  "strncmp s1 s2 0 = Some 0"
| "strncmp (a # s1) (b # s2) (Suc n) =
     (if a \<noteq> 0 \<and> a = b then strncmp s1 s2 n else Some (int (unat a) - int (unat b)))"
| "strncmp _ _ (Suc n) = None"

definition tolower :: "u8 \<Rightarrow> int" where
  "tolower c = (let c = int (unat c) in if c \<ge> 65 \<and> c \<le> 90 then c + 32 else c)"

fun strcasecmp :: "bytes \<Rightarrow> bytes \<Rightarrow> int option" where
  "strcasecmp (a # s1) (b # s2) =
     (if a \<noteq> 0 \<and> tolower a = tolower b then strcasecmp s1 s2
      else Some (tolower a - tolower b))"
| "strcasecmp _ _ = None"

text \<open>The loop of \<^verbatim>\<open>strlcpy\<close>: buffer, write offset, rest of the source, room left.\<close>

fun strlcpy_loop :: "bytes \<Rightarrow> nat \<Rightarrow> bytes \<Rightarrow> nat \<Rightarrow> (bytes \<times> nat \<times> bytes \<times> nat) option" where
  "strlcpy_loop dst d src siz =
     (if siz > 1 then
        (case src of [] \<Rightarrow> None
         | c # src' \<Rightarrow>
             if c = 0 then Some (dst, d, src, siz)
             else do {
               dst \<leftarrow> buf_wr dst d c;
               strlcpy_loop dst (d + 1) src' (siz - 1)
             })
      else Some (dst, d, src, siz))"

declare strlcpy_loop.simps [simp del]

definition strlcpy :: "bytes \<Rightarrow> bytes \<Rightarrow> nat \<Rightarrow> (nat \<times> bytes) option" where
  "strlcpy dst src siz = do {
     (dst, d, s, siz) \<leftarrow> strlcpy_loop dst 0 src siz;
     dst \<leftarrow> (if siz > 0 then buf_wr dst d 0 else Some dst);
     n \<leftarrow> strlen s;
     Some ((length src - length s) + n, dst)
   }"

fun strtbl :: "bytes \<Rightarrow> nat \<Rightarrow> bytes option" where
  "strtbl str 0 = Some str"
| "strtbl str (Suc index) = do {
     n \<leftarrow> strlen str;
     if n = 0 then Some [0x3f, 0x3f, 0x3f, 0] else strtbl (drop (n + 1) str) index
   }"

fun strcpy :: "bytes \<Rightarrow> nat \<Rightarrow> bytes \<Rightarrow> bytes option" where
  "strcpy dst d [] = None"
| "strcpy dst d (c # src) = do {
     dst \<leftarrow> buf_wr dst d c;
     if c = 0 then Some dst else strcpy dst (d + 1) src
   }"

text \<open>\<^verbatim>\<open>strchr\<close>: a pointer into the string, or NULL.\<close>

fun strchr :: "bytes \<Rightarrow> u8 \<Rightarrow> bytes option option" where
  "strchr [] c = None"
| "strchr (x # s) c =
     (if x = 0 then Some None else if c = x then Some (Some (x # s)) else strchr s c)"

fun strspn :: "bytes \<Rightarrow> bytes \<Rightarrow> nat option" where
  "strspn [] accept = None"
| "strspn (x # s) accept =
     (if x = 0 then Some 0
      else do {
        p \<leftarrow> strchr accept x;
        case p of None \<Rightarrow> Some 0 | Some _ \<Rightarrow> map_option Suc (strspn s accept)
      })"

fun strcspn :: "bytes \<Rightarrow> bytes \<Rightarrow> nat option" where
  "strcspn [] reject = None"
| "strcspn (x # s) reject =
     (if x = 0 then Some 0
      else do {
        p \<leftarrow> strchr reject x;
        case p of Some _ \<Rightarrow> Some 0 | None \<Rightarrow> map_option Suc (strcspn s reject)
      })"

definition strdup :: "bytes \<Rightarrow> heap_state \<Rightarrow> (u32 \<times> heap_state) option" where
  "strdup line st = do {
     len \<leftarrow> strlen line;
     (new, st) \<leftarrow> xalloc (of_nat (len + 1)) 1 MEM_MAY_FAIL st;
     if new = 0 then Some (0, st)
     else do {
       (_, buf) \<leftarrow> strlcpy (replicate (len + 1) 0) line (len + 1);
       Some (new, st\<lparr>hs_data := (\<lambda>a. if unat (a - new) < len + 1 then buf ! unat (a - new)
                                       else hs_data st a)\<rparr>)
     }
   }"

section \<open>Wildcard matching\<close>

text \<open>
  The loop of \<^verbatim>\<open>glob\<close>: rest of the string, rest of the pattern, and once a star was seen the
  pattern at the star with the rest of the string at that time.
\<close>

function glob_loop :: "bytes \<Rightarrow> bytes \<Rightarrow> (bytes \<times> bytes) option \<Rightarrow> (bytes \<times> bool) option" where
  "glob_loop s p star =
     (case (s, p) of
        (c # s', x # p') \<Rightarrow>
          if c = 0 then Some (p, True)
          else if x = 0x3f \<or> x = c then glob_loop s' p' star
          else if x = 0x2a then glob_loop s p' (Some (p, s))
          else (case star of
                  Some (sp, y # ss) \<Rightarrow> glob_loop ss (drop 1 sp) (Some (sp, ss))
                | Some (sp, []) \<Rightarrow> None
                | None \<Rightarrow> Some (p, False))
      | _ \<Rightarrow> None)"
  by pat_completeness auto
termination
  by (relation "(\<lambda>(s, p, star). max (length s) (case star of None \<Rightarrow> 0 | Some (_, ss) \<Rightarrow> length ss)) <*mlex*>
      measure (\<lambda>(s, p, star). length p)")
    (auto simp: wf_mlex mlex_prod_def split: option.splits)

declare glob_loop.simps [simp del]

fun glob_tail :: "bytes \<Rightarrow> bool option" where
  "glob_tail [] = None"
| "glob_tail (x # p) = (if x = 0x2a then glob_tail p else Some (x = 0))"

definition glob :: "bytes \<Rightarrow> bytes \<Rightarrow> bool option" where
  "glob str pat = do {
     (p, at_end) \<leftarrow> glob_loop str pat None;
     if at_end then glob_tail p else Some False
   }"

section \<open>Numbers\<close>

definition abs_c :: "u32 \<Rightarrow> u32" where
  "abs_c j = (if sint j < 0 then - j else j)"

fun skip_space :: "bytes \<Rightarrow> bytes option" where
  "skip_space [] = None"
| "skip_space (c # s) = (if c \<noteq> 0 \<and> c \<le> 32 then skip_space s else Some (c # s))"

fun atoi_digits :: "bytes \<Rightarrow> u32 \<Rightarrow> u32 option" where
  "atoi_digits [] r = None"
| "atoi_digits (c # s) r =
     (if c \<ge> 48 \<and> c \<le> 57 then atoi_digits s (r * 10 + ucast c - 48) else Some r)"

definition atoi :: "bytes \<Rightarrow> u32 option" where
  "atoi s = do {
     s \<leftarrow> skip_space s;
     c \<leftarrow> buf_rd s 0;
     if c = 0 then Some 0
     else if c = 45 then map_option (\<lambda>r. r * (-1)) (atoi_digits (drop 1 s) 0)
     else map_option (\<lambda>r. r * 1) (atoi_digits s 0)
   }"

text \<open>\<^verbatim>\<open>atol\<close> is \<^verbatim>\<open>atoi\<close> with \<^verbatim>\<open>long\<close>, which has 32 bits on the target.\<close>

definition atol :: "bytes \<Rightarrow> u32 option" where
  "atol s = do {
     s \<leftarrow> skip_space s;
     c \<leftarrow> buf_rd s 0;
     if c = 0 then Some 0
     else if c = 45 then map_option (\<lambda>r. r * (-1)) (atoi_digits (drop 1 s) 0)
     else map_option (\<lambda>r. r * 1) (atoi_digits s 0)
   }"

definition conv_hex_to_nibble :: "u8 \<Rightarrow> int" where
  "conv_hex_to_nibble c =
     (let v = int (unat c) in
      if 48 \<le> v \<and> v \<le> 57 then v - 48
      else if 65 \<le> v \<and> v \<le> 70 then v - 65 + 10
      else if 97 \<le> v \<and> v \<le> 102 then v - 97 + 10
      else -1)"

fun xtoi_loop :: "bytes \<Rightarrow> u32 \<Rightarrow> u32 option" where
  "xtoi_loop [] r = None"
| "xtoi_loop (c # s) r =
     (let v = conv_hex_to_nibble c in
      if v = -1 then Some r else xtoi_loop s (r * 16 + of_int v))"

definition xtoi :: "bytes \<Rightarrow> u32 option" where
  "xtoi s = xtoi_loop s 0"

definition xtol :: "bytes \<Rightarrow> u32 option" where
  "xtol s = xtoi_loop s 0"

definition atoix :: "bytes \<Rightarrow> u32 option" where
  "atoix s = do {
     s \<leftarrow> skip_space s;
     a \<leftarrow> buf_rd s 0;
     if a = 48 then do {
       b \<leftarrow> buf_rd s 1;
       if b = 0x78 then xtoi (drop 2 s) else atoi s
     } else atoi s
   }"

definition atolx :: "bytes \<Rightarrow> u32 option" where
  "atolx s = do {
     s \<leftarrow> skip_space s;
     a \<leftarrow> buf_rd s 0;
     if a = 48 then do {
       b \<leftarrow> buf_rd s 1;
       if b = 0x78 then xtol (drop 2 s) else atol s
     } else atol s
   }"

section \<open>Moving bytes\<close>

text \<open>The memory after \<open>n\<close> bytes at \<open>s\<close> were moved to \<open>d\<close>, all read before any is written.\<close>

definition moved :: "bytes \<Rightarrow> nat \<Rightarrow> nat \<Rightarrow> nat \<Rightarrow> bytes" where
  "moved mem d s n = take d mem @ take n (drop s mem) @ drop (d + n) mem"

lemma moved_nth:
  assumes "s + n \<le> length mem" "d + n \<le> length mem" "i < length mem"
  shows "moved mem d s n ! i = (if d \<le> i \<and> i < d + n then mem ! (s + (i - d)) else mem ! i)"
  using assms by (auto simp: moved_def nth_append)

lemma length_moved: "s + n \<le> length mem \<Longrightarrow> d + n \<le> length mem \<Longrightarrow> length (moved mem d s n) = length mem"
  by (simp add: moved_def)

lemma moved_unique:
  assumes "s + n \<le> length mem" "d + n \<le> length mem" "length mem' = length mem"
    and "\<And>i. i < length mem \<Longrightarrow> mem' ! i = (if d \<le> i \<and> i < d + n then mem ! (s + (i - d)) else mem ! i)"
  shows "mem' = moved mem d s n"
  using assms by (intro nth_equalityI) (auto simp: length_moved moved_nth)

lemma memcpy_loop_moves:
  assumes "s + n \<le> length mem" "d + n \<le> length mem" "d \<le> s \<or> s + n \<le> d"
  shows "memcpy_loop mem d s n = Some (moved mem d s n)"
  using assms
proof (induction n arbitrary: mem d s)
  case 0
  then show ?case by (simp add: moved_def)
next
  case (Suc n)
  let ?mem = "mem[d := mem ! s]"
  have "memcpy_loop ?mem (d + 1) (s + 1) n = Some (moved ?mem (d + 1) (s + 1) n)"
    using Suc by (intro Suc.IH) auto
  moreover have "moved ?mem (d + 1) (s + 1) n = moved mem d s (Suc n)"
    using Suc.prems by (intro moved_unique) (auto simp: length_moved moved_nth nth_list_update Suc_diff_Suc)
  ultimately show ?case using Suc.prems by (simp add: buf_rd_def buf_wr_def)
qed

lemma bcopy_down_moves:
  assumes "s + n \<le> length mem" "d + n \<le> length mem" "s \<le> d"
  shows "bcopy_down mem d s n = Some (moved mem d s n)"
  using assms
proof (induction n arbitrary: mem)
  case 0
  then show ?case by (simp add: moved_def)
next
  case (Suc n)
  let ?mem = "mem[d + n := mem ! (s + n)]"
  have "bcopy_down ?mem d s n = Some (moved ?mem d s n)"
    using Suc by (intro Suc.IH) auto
  moreover have "moved ?mem d s n = moved mem d s (Suc n)"
    using Suc.prems by (intro moved_unique) (auto simp: length_moved moved_nth nth_list_update not_less less_Suc_eq)
  ultimately show ?case using Suc.prems by (simp add: buf_rd_def buf_wr_def)
qed

lemma memcpy_loop_bounds:
  "memcpy_loop mem d s n \<noteq> None \<Longrightarrow> 0 < n \<Longrightarrow> s + n \<le> length mem \<and> d + n \<le> length mem"
proof (induction n arbitrary: mem d s)
  case (Suc n)
  from Suc.prems Suc.IH [of "mem[d := mem ! s]" "d + 1" "s + 1"] show ?case
    by (cases n) (auto simp: buf_rd_def buf_wr_def split: if_splits)
qed simp

lemma bcopy_down_bounds:
  "bcopy_down mem d s n \<noteq> None \<Longrightarrow> 0 < n \<Longrightarrow> s + n \<le> length mem \<and> d + n \<le> length mem"
  by (cases n) (auto simp: buf_rd_def buf_wr_def split: if_splits)

text \<open>\<^verbatim>\<open>memmove\<close> is correct for every overlap of source and destination: the destination
  receives the bytes the source had before the call and nothing else changes; it touches
  memory outside the object exactly when one of the two ranges reaches outside it.\<close>

theorem memmove_moves:
  "memmove mem d s n =
     (if n = 0 then Some mem
      else if s + n \<le> length mem \<and> d + n \<le> length mem then Some (moved mem d s n)
      else None)"
proof (cases "n = 0")
  case False
  show ?thesis
  proof (cases "s + n \<le> length mem \<and> d + n \<le> length mem")
    case True
    then show ?thesis
      using False by (auto simp: memmove_def bcopy_def memcpy_loop_moves bcopy_down_moves)
  next
    case oob: False
    then have "memcpy_loop mem d s n = None" "bcopy_down mem d s n = None"
      using memcpy_loop_bounds bcopy_down_bounds False by blast+
    with False oob show ?thesis by (auto simp: memmove_def bcopy_def)
  qed
qed (simp add: memmove_def bcopy_def)

lemma memset_fills:
  "dest + len \<le> length mem \<Longrightarrow>
   memset mem dest val len = Some (take dest mem @ replicate len val @ drop (dest + len) mem)"
proof (induction len arbitrary: mem dest)
  case (Suc len)
  then have "memset (mem[dest := val]) (dest + 1) val len =
      Some (take (dest + 1) (mem[dest := val]) @ replicate len val @ drop (dest + 1 + len) (mem[dest := val]))"
    by simp
  then show ?case using Suc.prems by (simp add: buf_wr_def take_Suc_wr)
qed simp

section \<open>C strings\<close>

lemma strlen_cstr: "0 \<notin> set a \<Longrightarrow> strlen (a @ 0 # r) = Some (length a)"
  by (induction a) auto

lemma strlen_Some: "strlen s = Some n \<Longrightarrow> n < length s \<and> s ! n = 0 \<and> 0 \<notin> set (take n s)"
proof (induction s arbitrary: n)
  case (Cons c s)
  then show ?case by (cases n) (auto split: if_splits)
qed simp

lemma uint_u8_pos: "0 < uint (y :: u8) \<longleftrightarrow> y \<noteq> 0" "uint y = 0 \<longleftrightarrow> y = 0"
  using uint_nonnegative [of y] by (auto simp: word_uint_eq_iff order_less_le)

lemma strcmp_cstr:
  assumes "0 \<notin> set a" "0 \<notin> set b"
  shows "\<exists>d. strcmp (a @ 0 # r) (b @ 0 # q) = Some d \<and> (d = 0 \<longleftrightarrow> a = b) \<and> (d < 0 \<longleftrightarrow> ord_class.lexordp a b)"
  using assms
proof (induction a arbitrary: b)
  case Nil
  then show ?case by (cases b) (auto simp: uint_u8_pos)
next
  case (Cons x a)
  show ?case
  proof (cases b)
    case Nil
    then show ?thesis using Cons.prems by (auto simp: uint_u8_pos)
  next
    case (Cons y b')
    then show ?thesis
      using Cons.IH [of b'] Cons.prems by (auto simp: word_less_def word_uint_eq_iff)
  qed
qed

lemma strncmp_cstr:
  assumes "0 \<notin> set a" "0 \<notin> set b"
  shows "\<exists>d. strncmp (a @ 0 # r) (b @ 0 # q) n = Some d \<and> (d = 0 \<longleftrightarrow> take n a = take n b) \<and>
    (d < 0 \<longleftrightarrow> ord_class.lexordp (take n a) (take n b))"
  using assms
proof (induction n arbitrary: a b)
  case (Suc n)
  show ?case
  proof (cases a)
    case Nil
    then show ?thesis using Suc.prems by (cases b) (auto simp: uint_u8_pos)
  next
    case (Cons x a')
    show ?thesis
    proof (cases b)
      case Nil
      then show ?thesis using Suc.prems Cons by (auto simp: uint_u8_pos)
    next
      case (Cons y b')
      then show ?thesis
        using Suc.IH [of a' b'] Suc.prems \<open>a = x # a'\<close> by (auto simp: word_less_def word_uint_eq_iff)
    qed
  qed
qed simp

text \<open>\<^verbatim>\<open>strcmp\<close> and \<^verbatim>\<open>strncmp\<close> read no byte behind the terminators, return zero exactly for
  equal strings (equal prefixes of \<open>n\<close> characters) and a negative number exactly when the
  first string precedes the second in the lexicographic order of unsigned characters.\<close>

theorem strcmp_strncmp_order:
  assumes "0 \<notin> set a" and "0 \<notin> set b"
  shows "(\<exists>d. strcmp (a @ 0 # r) (b @ 0 # q) = Some d \<and> (d = 0 \<longleftrightarrow> a = b) \<and>
            (d < 0 \<longleftrightarrow> ord_class.lexordp a b)) \<and>
    (\<exists>d. strncmp (a @ 0 # r) (b @ 0 # q) n = Some d \<and> (d = 0 \<longleftrightarrow> take n a = take n b) \<and>
            (d < 0 \<longleftrightarrow> ord_class.lexordp (take n a) (take n b)))"
  using strcmp_cstr [OF assms] strncmp_cstr [OF assms] by blast

theorem strcmp_strncmp_order_witness:
  "\<exists>d e. strcmp [97, 98, 0] [97, 99, 0] = Some d \<and> d < 0 \<and> strncmp [97, 98, 0] [97, 99, 0] 1 = Some e \<and> e = 0"
  using strcmp_strncmp_order [of "[97, 98]" "[97, 99]" "[]" "[]" 1] by auto

lemma strlcpy_loop_cstr:
  assumes "0 \<notin> set a" "d + siz \<le> length dst" "k = min (length a) (siz - 1)"
  shows "strlcpy_loop dst d (a @ 0 # r) siz =
    Some (take d dst @ take k a @ drop (d + k) dst, d + k, drop k a @ 0 # r, siz - k)"
  using assms
proof (induction a arbitrary: dst d siz k)
  case Nil
  then show ?case by (simp add: strlcpy_loop.simps)
next
  case (Cons c a)
  show ?case
  proof (cases "siz > 1")
    case False
    then show ?thesis using Cons.prems by (subst strlcpy_loop.simps) simp
  next
    case True
    let ?dst = "dst[d := c]"
    define k' where k': "k' = min (length a) (siz - 1 - 1)"
    have k: "k = Suc k'" "k' = min (length a) (siz - 1 - 1)"
      using Cons.prems(3) True by (auto simp: min_def k')
    have "strlcpy_loop ?dst (d + 1) (a @ 0 # r) (siz - 1) =
        Some (take (d + 1) ?dst @ take k' a @ drop (d + 1 + k') ?dst, d + 1 + k', drop k' a @ 0 # r, siz - 1 - k')"
      using Cons.prems True by (intro Cons.IH [OF _ _ k(2)]) auto
    moreover have "take (d + 1) ?dst = take d dst @ [c]"
      using Cons.prems True by (simp add: take_Suc_wr)
    ultimately show ?thesis
      using Cons.prems(1,2) True k(1) by (subst strlcpy_loop.simps) (simp add: buf_wr_def)
  qed
qed

lemma strlcpy_cstr:
  assumes "0 \<notin> set a" "siz \<le> length dst"
  shows "strlcpy dst (a @ 0 # r) siz = Some (length a,
    if siz = 0 then dst else take (siz - 1) a @ 0 # drop (min (length a) (siz - 1) + 1) dst)"
proof -
  let ?k = "min (length a) (siz - 1)"
  have "0 \<notin> set (drop ?k a)" using assms(1) by (auto dest: in_set_dropD)
  then have "strlen (drop ?k a @ 0 # r) = Some (length a - ?k)" by (simp add: strlen_cstr)
  moreover have "buf_wr (take ?k a @ drop ?k dst) ?k 0 = Some (take (siz - 1) a @ 0 # drop (?k + 1) dst)"
    if "siz > 0"
  proof -
    have "?k < length dst" using that assms(2) by auto
    then have "drop ?k dst = dst ! ?k # drop (?k + 1) dst" by (simp add: Cons_nth_drop_Suc)
    moreover have "take ?k a = take (siz - 1) a" by (simp add: min_def)
    moreover have "length (take ?k a) = ?k" by simp
    ultimately show ?thesis using \<open>?k < length dst\<close>
      by (simp add: buf_wr_def list_update_append)
  qed
  ultimately show ?thesis
    using strlcpy_loop_cstr [OF assms(1), of 0 siz dst ?k r] assms(2)
    by (auto simp: strlcpy_def)
qed


text \<open>\<^verbatim>\<open>strlcpy\<close> stays inside a destination of at least \<open>siz\<close> bytes, stores the longest
  prefix of the string that fits with its terminator (when \<open>siz\<close> is not zero) and returns
  the length of the whole source string.\<close>

theorem strlcpy_truncates:
  assumes "0 \<notin> set a" and "siz \<le> length dst"
  shows "\<exists>dst'. strlcpy dst (a @ 0 # r) siz = Some (length a, dst') \<and> length dst' = length dst \<and>
    (if siz = 0 then dst' = dst
     else strlen dst' = Some (min (length a) (siz - 1)) \<and>
          take (min (length a) (siz - 1)) dst' = take (siz - 1) a)"
proof -
  have "0 \<notin> set (take (siz - 1) a)" using assms(1) by (auto dest: in_set_takeD)
  then show ?thesis
    using strlcpy_cstr [OF assms] assms(2) strlen_cstr [of "take (siz - 1) a"]
    by (auto simp: min_def)
qed

theorem strlcpy_truncates_witness:
  "\<exists>dst'. strlcpy [1, 2, 3, 4] [104, 101, 108, 108, 111, 0] 4 = Some (5, dst') \<and> strlen dst' = Some 3"
  using strlcpy_truncates [of "[104, 101, 108, 108, 111]" 4 "[1, 2, 3, 4]" "[]"] by auto

lemma strchr_cstr:
  assumes "0 \<notin> set a"
  shows "strchr (a @ 0 # r) c = Some (if c \<in> set a then Some (dropWhile (\<lambda>x. x \<noteq> c) a @ 0 # r) else None)"
  using assms by (induction a) auto

lemma strspn_cstr:
  assumes "0 \<notin> set a" "0 \<notin> set acc"
  shows "strspn (a @ 0 # r) (acc @ 0 # q) = Some (length (takeWhile (\<lambda>c. c \<in> set acc) a))"
  using assms(1) by (induction a) (auto simp: strchr_cstr [OF assms(2)])

lemma strcspn_cstr:
  assumes "0 \<notin> set a" "0 \<notin> set rej"
  shows "strcspn (a @ 0 # r) (rej @ 0 # q) = Some (length (takeWhile (\<lambda>c. c \<notin> set rej) a))"
  using assms(1) by (induction a) (auto simp: strchr_cstr [OF assms(2)])

section \<open>Wildcards\<close>

text \<open>What a pattern means: a question mark is any character, a star any characters.\<close>

fun gmatch :: "bytes \<Rightarrow> bytes \<Rightarrow> bool" where
  "gmatch s [] \<longleftrightarrow> s = []"
| "gmatch s (x # p) \<longleftrightarrow>
     (if x = 0x2a then \<exists>k\<le>length s. gmatch (drop k s) p
      else (case s of [] \<Rightarrow> False | c # s' \<Rightarrow> (x = 0x3f \<or> x = c) \<and> gmatch s' p))"

lemma gmatch_star: "gmatch s (0x2a # p) \<longleftrightarrow> (\<exists>k. gmatch (drop k s) p)"
proof
  assume "\<exists>k. gmatch (drop k s) p"
  then obtain k where "gmatch (drop k s) p" ..
  then have "gmatch (drop (min k (length s)) s) p" by (cases "k \<le> length s") simp_all
  then show "gmatch s (0x2a # p)" by (auto intro!: exI [of _ "min k (length s)"])
qed auto

lemma gmatch_star_drop: "gmatch (drop k s) (0x2a # p) \<Longrightarrow> gmatch s (0x2a # p)"
  by (auto simp: gmatch_star simp del: gmatch.simps)

lemma gmatch_prefix:
  "0x2a \<notin> set v \<Longrightarrow> gmatch s (v @ p) \<Longrightarrow> length v \<le> length s \<and> gmatch (drop (length v) s) p"
proof (induction v arbitrary: s)
  case (Cons x v)
  then show ?case by (cases s) auto
qed simp

lemma glob_tail_cstr: "0 \<notin> set b \<Longrightarrow> glob_tail (b @ 0 # q) = Some (gmatch [] b)"
  by (induction b) auto

lemma retry_cases:
  "(P as' \<or> (\<exists>k\<ge>1. k \<le> length as' \<and> P (drop k as'))) =
   (\<exists>k\<ge>1. k \<le> length (y # as') \<and> P (drop k (y # as')))"
proof -
  have "(\<exists>k\<ge>1. k \<le> length (y # as') \<and> P (drop k (y # as'))) \<longleftrightarrow> (\<exists>k\<le>length as'. P (drop k as'))"
  proof
    assume "\<exists>k\<ge>1. k \<le> length (y # as') \<and> P (drop k (y # as'))"
    then obtain k where k: "1 \<le> k" "k \<le> length (y # as')" "P (drop k (y # as'))" by blast
    then show "\<exists>k\<le>length as'. P (drop k as')" by (cases k) auto
  next
    assume "\<exists>k\<le>length as'. P (drop k as')"
    then obtain k where "k \<le> length as'" "P (drop k as')" by blast
    then show "\<exists>k\<ge>1. k \<le> length (y # as') \<and> P (drop k (y # as'))"
      by (intro exI [of _ "Suc k"]) auto
  qed
  also have "\<dots> \<longleftrightarrow> P as' \<or> (\<exists>k\<ge>1. k \<le> length as' \<and> P (drop k as'))"
    by (metis One_nat_def drop0 le0 less_one linorder_not_le)
  finally show ?thesis by blast
qed

lemma gmatch_star_retry:
  "(gmatch a p \<or> (\<exists>k\<ge>1. k \<le> length a \<and> gmatch (drop k a) p)) = gmatch a (0x2a # p)"
proof -
  have "gmatch a (0x2a # p) \<longleftrightarrow> (\<exists>k\<le>length a. gmatch (drop k a) p)" by simp
  also have "\<dots> \<longleftrightarrow> gmatch a p \<or> (\<exists>k\<ge>1. k \<le> length a \<and> gmatch (drop k a) p)"
    by (metis One_nat_def drop0 le0 less_one linorder_not_le)
  finally show ?thesis by blast
qed

lemma glob_loop_steps:
  "glob_loop (0 # s) (x # p) st = Some (x # p, True)"
  "c \<noteq> 0 \<Longrightarrow> x = 0x3f \<or> x = c \<Longrightarrow> glob_loop (c # s) (x # p) st = glob_loop s p st"
  "c \<noteq> 0 \<Longrightarrow> c \<noteq> 0x2a \<Longrightarrow> glob_loop (c # s) (0x2a # p) st = glob_loop (c # s) p (Some (0x2a # p, c # s))"
  "c \<noteq> 0 \<Longrightarrow> x \<noteq> 0x3f \<Longrightarrow> x \<noteq> c \<Longrightarrow> x \<noteq> 0x2a \<Longrightarrow>
    glob_loop (c # s) (x # p) (Some (sp, y # ss)) = glob_loop ss (drop 1 sp) (Some (sp, ss))"
  "c \<noteq> 0 \<Longrightarrow> x \<noteq> 0x3f \<Longrightarrow> x \<noteq> c \<Longrightarrow> x \<noteq> 0x2a \<Longrightarrow>
    glob_loop (c # s) (x # p) None = Some (x # p, False)"
  by (subst glob_loop.simps, simp)+

definition glob_end :: "(bytes \<times> bool) option \<Rightarrow> bool option" where
  "glob_end r = (case r of None \<Rightarrow> None | Some (p, at_end) \<Rightarrow> if at_end then glob_tail p else Some False)"

lemma glob_eq_end: "glob str pat = glob_end (glob_loop str pat None)"
  by (auto simp: glob_def glob_end_def split: option.splits bind_splits)

text \<open>
  The loop after a star: \<open>bs\<close> is the pattern behind the star, of which \<open>v\<close> has been matched with
  the characters \<open>u\<close> of the string \<open>as\<close> at the star. Only the last star needs to be retried.
\<close>

lemma glob_loop_star:
  assumes "0 \<notin> set (u @ a)" "0x2a \<notin> set (u @ a)" "0 \<notin> set (v @ b)" "0x2a \<notin> set v"
    "length u = length v"
  shows "glob_end (glob_loop (a @ 0 # r) (b @ 0 # q) (Some (0x2a # v @ b @ 0 # q, u @ a @ 0 # r))) =
    Some (gmatch a b \<or> (\<exists>k\<ge>1. k \<le> length (u @ a) \<and> gmatch (drop k (u @ a)) (v @ b)))"
  using assms
proof (induction "(length (u @ a), length b)" arbitrary: u a v b
    rule: wf_induct_rule [OF wf_lex_prod [OF wf_less_than wf_less_than]])
  case 1
  note IH = "1.hyps" and prems = "1.prems"
  show ?case
  proof (cases a)
    case Nil
    have "\<not> gmatch (drop k u) (v @ b)" if "1 \<le> k" "k \<le> length u" for k
      using gmatch_prefix [of v "drop k u" b] prems that by auto
    moreover have "glob_loop (0 # r) (b @ 0 # q) st = Some (b @ 0 # q, True)" for st
      by (cases b) (simp_all add: glob_loop_steps)
    ultimately show ?thesis
      using Nil prems glob_tail_cstr [of b q] by (auto simp: glob_end_def)
  next
    case (Cons c a')
    have c: "c \<noteq> 0" "c \<noteq> 0x2a" using prems Cons by auto
    obtain y as' where as: "u @ a = y # as'" using Cons by (cases u) auto
    let ?st = "Some (0x2a # v @ b @ 0 # q, u @ a @ 0 # r)"
    have retry: "glob_end (glob_loop (as' @ 0 # r) (v @ b @ 0 # q) (Some (0x2a # v @ b @ 0 # q, as' @ 0 # r))) =
        Some (\<exists>k\<ge>1. k \<le> length (u @ a) \<and> gmatch (drop k (u @ a)) (v @ b))"
    proof -
      have "glob_end (glob_loop (as' @ 0 # r) ((v @ b) @ 0 # q)
          (Some (0x2a # [] @ (v @ b) @ 0 # q, [] @ as' @ 0 # r))) =
        Some (gmatch as' (v @ b) \<or> (\<exists>k\<ge>1. k \<le> length ([] @ as') \<and> gmatch (drop k ([] @ as')) ([] @ v @ b)))"
        using prems as by (intro IH) auto
      moreover have "(gmatch as' w \<or> (\<exists>k\<ge>1. k \<le> length as' \<and> gmatch (drop k as') w)) =
          (\<exists>k\<ge>1. k \<le> length (y # as') \<and> gmatch (drop k (y # as')) w)" for w
        by (rule retry_cases)
      ultimately show ?thesis by (simp add: as)
    qed
    have fail: "glob_end (glob_loop (a @ 0 # r) (b @ 0 # q) ?st) =
        Some (gmatch a b \<or> (\<exists>k\<ge>1. k \<le> length (u @ a) \<and> gmatch (drop k (u @ a)) (v @ b)))"
      if "\<not> gmatch a b" "\<And>x b'. b = x # b' \<Longrightarrow> x \<noteq> 0x3f \<and> x \<noteq> c \<and> x \<noteq> 0x2a"
    proof -
      have eq: "u @ a @ 0 # r = y # as' @ 0 # r" using as by (metis append_Cons append_assoc)
      have "glob_loop (a @ 0 # r) (b @ 0 # q) ?st =
          glob_loop (as' @ 0 # r) (v @ b @ 0 # q) (Some (0x2a # v @ b @ 0 # q, as' @ 0 # r))"
        unfolding eq unfolding Cons using that(2) c by (cases b) (simp_all add: glob_loop_steps)
      then show ?thesis using retry that(1) by simp
    qed
    show ?thesis
    proof (cases b)
      case Nil
      then show ?thesis using Cons by (intro fail) auto
    next
      case (Cons x b')
      consider "x = 0x3f \<or> x = c" | "x \<noteq> 0x3f" "x \<noteq> c" "x = 0x2a" | "x \<noteq> 0x3f" "x \<noteq> c" "x \<noteq> 0x2a" by blast
      then show ?thesis
      proof cases
        case 1
        have x: "x \<noteq> 0x2a" "x \<noteq> 0" using 1 c prems Cons by auto
        have "glob_end (glob_loop (a' @ 0 # r) (b' @ 0 # q)
            (Some (0x2a # (v @ [x]) @ b' @ 0 # q, (u @ [c]) @ a' @ 0 # r))) =
          Some (gmatch a' b' \<or> (\<exists>k\<ge>1. k \<le> length ((u @ [c]) @ a') \<and> gmatch (drop k ((u @ [c]) @ a')) ((v @ [x]) @ b')))"
          using prems \<open>a = c # a'\<close> Cons x by (intro IH) auto
        then show ?thesis
          using \<open>a = c # a'\<close> Cons x c 1 by (simp add: glob_loop_steps)
      next
        case 2
        have "glob_end (glob_loop (a @ 0 # r) (b' @ 0 # q) (Some (0x2a # [] @ b' @ 0 # q, [] @ a @ 0 # r))) =
          Some (gmatch a b' \<or> (\<exists>k\<ge>1. k \<le> length ([] @ a) \<and> gmatch (drop k ([] @ a)) ([] @ b')))"
          using prems Cons by (intro IH) auto
        moreover have "gmatch a b" if "gmatch (drop k (u @ a)) (v @ b)" for k
        proof -
          have "gmatch (drop (length v) (drop k (u @ a))) (0x2a # b')"
            using gmatch_prefix [of v "drop k (u @ a)" b] that prems Cons 2 by simp
          moreover have "drop (length v) (drop k (u @ a)) = drop k a"
            using prems(5) by (simp only: drop_drop) simp
          ultimately show ?thesis using gmatch_star_drop Cons 2 by metis
        qed
        moreover have "(gmatch a b' \<or> (\<exists>k\<ge>1. k \<le> length a \<and> gmatch (drop k a) b')) = gmatch a b"
          using Cons 2 gmatch_star_retry by simp
        ultimately show ?thesis
          using \<open>a = c # a'\<close> Cons c 2 by (auto simp: glob_loop_steps simp del: gmatch.simps)
      next
        case 3
        then show ?thesis using Cons \<open>a = c # a'\<close> by (intro fail) auto
      qed
    qed
  qed
qed


lemma glob_loop_none:
  assumes "0 \<notin> set a" "0x2a \<notin> set a" "0 \<notin> set b"
  shows "glob_end (glob_loop (a @ 0 # r) (b @ 0 # q) None) = Some (gmatch a b)"
  using assms
proof (induction b arbitrary: a)
  case Nil
  then show ?case by (cases a) (auto simp: glob_loop_steps glob_end_def)
next
  case (Cons x b)
  show ?case
  proof (cases a)
    case Nil
    then show ?thesis
      using Cons.prems glob_tail_cstr [of "x # b" q] by (simp add: glob_loop_steps glob_end_def)
  next
    case (Cons c a')
    note a = Cons
    have c: "c \<noteq> 0" "c \<noteq> 0x2a" using Cons.prems a by auto
    consider "x = 0x3f \<or> x = c" | "x \<noteq> c" "x = 0x2a" | "x \<noteq> 0x3f" "x \<noteq> c" "x \<noteq> 0x2a" by blast
    then show ?thesis
    proof cases
      case 1
      then have "x \<noteq> 0x2a" using c by auto
      then show ?thesis using 1 c a Cons.prems Cons.IH [of a'] by (simp add: glob_loop_steps)
    next
      case 2
      have "glob_end (glob_loop (a @ 0 # r) (b @ 0 # q) (Some (0x2a # [] @ b @ 0 # q, [] @ a @ 0 # r))) =
          Some (gmatch a b \<or> (\<exists>k\<ge>1. k \<le> length ([] @ a) \<and> gmatch (drop k ([] @ a)) ([] @ b)))"
        using Cons.prems by (intro glob_loop_star) auto
      then show ?thesis
        using 2 c a gmatch_star_retry [of a b] by (simp add: glob_loop_steps del: gmatch.simps)
    next
      case 3
      then show ?thesis using c a by (simp add: glob_loop_steps glob_end_def)
    qed
  qed
qed

text \<open>C27. For every string without a star character, \<^verbatim>\<open>glob\<close> terminates and decides whether the
  pattern matches, a question mark standing for one character and a star for any number of
  them: going back to the last star only is enough.\<close>

theorem glob_decides:
  assumes "0 \<notin> set a" and "0x2a \<notin> set a" and "0 \<notin> set b"
  shows "glob (a @ 0 # r) (b @ 0 # q) = Some (gmatch a b)"
  using glob_loop_none [OF assms] by (simp add: glob_eq_end)

theorem glob_decides_witness:
  "glob [97, 98, 97, 99, 0] [0x2a, 97, 0x3f, 0] = Some True \<and> glob [97, 98, 0] [0x2a, 97, 0] = Some False"
proof -
  have "gmatch [97, 98, 97, 99] [0x2a, 97, 0x3f]" by (auto intro!: exI [of _ 2])
  moreover have "\<not> gmatch [97, 98] [0x2a, 97]" by (auto simp: drop_Cons' split: if_splits)
  ultimately show ?thesis
    using glob_decides [of "[97, 98, 97, 99]" "[0x2a, 97, 0x3f]" "[]" "[]"]
      glob_decides [of "[97, 98]" "[0x2a, 97]" "[]" "[]"] by simp
qed

text \<open>A star in the string is compared literally before the star of the pattern is considered.\<close>

lemma glob_star_in_string: "glob [0x2a, 120, 0] [0x2a, 0] = Some False \<and> gmatch [0x2a, 120] [0x2a]"
  by (auto simp: glob_eq_end glob_loop.simps glob_end_def intro!: exI [of _ 2])

section \<open>Parsing numbers\<close>

definition is_digit :: "u8 \<Rightarrow> bool" where
  "is_digit c \<longleftrightarrow> 48 \<le> c \<and> c \<le> 57"

definition dec_val :: "bytes \<Rightarrow> nat" where
  "dec_val ds = foldl (\<lambda>r c. r * 10 + (unat c - 48)) 0 ds"

lemma digit_ge: "is_digit c \<Longrightarrow> 48 \<le> unat c"
  by (simp add: is_digit_def word_le_nat_alt)

lemma ucast_digit: "is_digit c \<Longrightarrow> (ucast c :: u32) - 48 = of_nat (unat c - 48)"
proof -
  assume "is_digit c"
  then have "48 \<le> unat c" by (rule digit_ge)
  then have "of_nat (unat c - 48) = (of_nat (unat c) - of_nat 48 :: u32)" by (rule of_nat_diff)
  also have "(of_nat (unat c) :: u32) = ucast c" by (simp add: unsigned_ucast_eq)
  finally show ?thesis by simp
qed

lemma atoi_digits_val:
  assumes "\<forall>c\<in>set ds. is_digit c" "\<not> is_digit c"
  shows "atoi_digits (ds @ c # s) (of_nat r) = Some (of_nat (foldl (\<lambda>r c. r * 10 + (unat c - 48)) r ds))"
  using assms(1)
proof (induction ds arbitrary: r)
  case Nil
  then show ?case using assms(2) by (auto simp: is_digit_def)
next
  case (Cons d ds)
  have "(of_nat r * 10 + ucast d - 48 :: u32) = of_nat r * 10 + (ucast d - 48)" by simp
  also have "\<dots> = of_nat (r * 10 + (unat d - 48))" using Cons.prems ucast_digit [of d] by simp
  finally have eq: "(of_nat r * 10 + ucast d - 48 :: u32) = of_nat (r * 10 + (unat d - 48))" .
  have "atoi_digits ((d # ds) @ c # s) (of_nat r) = atoi_digits (ds @ c # s) (of_nat r * 10 + ucast d - 48)"
    using Cons.prems by (simp add: is_digit_def)
  also have "\<dots> = Some (of_nat (foldl (\<lambda>r c. r * 10 + (unat c - 48)) r (d # ds)))"
    unfolding eq foldl.simps using Cons.prems by (intro Cons.IH) simp
  finally show ?case .
qed

definition is_space_c :: "u8 \<Rightarrow> bool" where
  "is_space_c c \<longleftrightarrow> c \<noteq> 0 \<and> c \<le> 32"

lemma skip_space_run:
  "\<forall>c\<in>set ws. is_space_c c \<Longrightarrow> \<not> is_space_c c \<Longrightarrow> skip_space (ws @ c # s) = Some (c # s)"
  by (induction ws) (auto simp: is_space_c_def)


lemma atoi_reads:
  assumes "\<forall>w\<in>set ws. is_space_c w" and "\<forall>d\<in>set ds. is_digit d" and "ds \<noteq> []" and "\<not> is_digit c"
  shows "atoi (ws @ ds @ c # s) = Some (of_nat (dec_val ds))" "atoi (ws @ 45 # ds @ c # s) = Some (- of_nat (dec_val ds))"
proof -
  obtain d ds' where ds: "ds = d # ds'" using assms(3) by (cases ds) auto
  have d: "is_digit d" using assms(2) ds by simp
  then have dc: "d \<noteq> 0" "d \<noteq> 45" "\<not> is_space_c d" by (auto simp: is_digit_def is_space_c_def word_le_nat_alt)
  have "skip_space (ws @ ds @ c # s) = Some (ds @ c # s)"
    using skip_space_run [OF assms(1), of d "ds' @ c # s"] \<open>\<not> is_space_c d\<close> ds by simp
  moreover have "skip_space (ws @ 45 # ds @ c # s) = Some (45 # ds @ c # s)"
    by (rule skip_space_run [OF assms(1)]) (simp add: is_space_c_def)
  moreover have v: "atoi_digits (ds @ c # s) 0 = Some (of_nat (dec_val ds))"
    using atoi_digits_val [OF assms(2,4), of s 0] by (simp add: dec_val_def)
  ultimately show "atoi (ws @ ds @ c # s) = Some (of_nat (dec_val ds))"
    "atoi (ws @ 45 # ds @ c # s) = Some (- of_nat (dec_val ds))"
    using ds dc by (simp_all add: atoi_def buf_rd_def)
qed

text \<open>\<^verbatim>\<open>atoi\<close> skips white space, takes an optional minus sign and returns the value of the
  decimal digits that follow, exactly when it is below \<open>2 ^ 31\<close> and modulo \<open>2 ^ 32\<close> in general;
  it reads nothing behind the first character that is no digit.\<close>

theorem atoi_value:
  assumes "\<forall>w\<in>set ws. is_space_c w" and "\<forall>d\<in>set ds. is_digit d" and "ds \<noteq> []" and "\<not> is_digit c"
  shows "atoi (ws @ ds @ c # s) = Some (of_nat (dec_val ds)) \<and>
    atoi (ws @ 45 # ds @ c # s) = Some (- of_nat (dec_val ds)) \<and>
    (dec_val ds < 2 ^ 31 \<longrightarrow> sint (of_nat (dec_val ds) :: u32) = int (dec_val ds) \<and>
       sint (- of_nat (dec_val ds) :: u32) = - int (dec_val ds))"
proof -
  have "sint (- of_nat n :: u32) = - int n" if "n < 2 ^ 31" for n
    using that sint_of_int [of "- int n"] by simp
  moreover have "sint (of_nat n :: u32) = int n" if "n < 2 ^ 31" for n
    using that sint_of_int [of "int n"] by simp
  ultimately show ?thesis using atoi_reads [OF assms] by simp
qed

theorem atoi_value_witness:
  "atoi [32, 45, 52, 50, 0] = Some (- 42)"
  using atoi_value [of "[32]" "[52, 50]" 0 "[]"] by (simp add: is_space_c_def is_digit_def dec_val_def)

definition hex_val :: "bytes \<Rightarrow> nat" where
  "hex_val ds = foldl (\<lambda>r c. r * 16 + nat (conv_hex_to_nibble c)) 0 ds"

lemma xtoi_loop_val:
  assumes "\<forall>c\<in>set ds. conv_hex_to_nibble c \<noteq> -1" "conv_hex_to_nibble c = -1"
  shows "xtoi_loop (ds @ c # s) (of_nat r) =
    Some (of_nat (foldl (\<lambda>r c. r * 16 + nat (conv_hex_to_nibble c)) r ds))"
  using assms(1)
proof (induction ds arbitrary: r)
  case Nil
  then show ?case using assms(2) by simp
next
  case (Cons d ds)
  have "conv_hex_to_nibble d \<noteq> -1" using Cons.prems by simp
  then have "0 \<le> conv_hex_to_nibble d" by (auto simp: conv_hex_to_nibble_def Let_def split: if_splits)
  then have eq: "of_nat r * 16 + of_int (conv_hex_to_nibble d) = (of_nat (r * 16 + nat (conv_hex_to_nibble d)) :: u32)"
    by simp
  have "xtoi_loop ((d # ds) @ c # s) (of_nat r) =
      xtoi_loop (ds @ c # s) (of_nat r * 16 + of_int (conv_hex_to_nibble d))"
    using Cons.prems by simp
  also have "\<dots> = Some (of_nat (foldl (\<lambda>r c. r * 16 + nat (conv_hex_to_nibble c)) r (d # ds)))"
    unfolding eq foldl.simps using Cons.prems by (intro Cons.IH) simp
  finally show ?case .
qed

lemma atoix_hex:
  assumes "\<forall>d\<in>set ds. conv_hex_to_nibble d \<noteq> -1" "conv_hex_to_nibble c = -1"
    "\<forall>w\<in>set ws. is_space_c w"
  shows "atoix (ws @ 48 # 0x78 # ds @ c # s) = Some (of_nat (hex_val ds))"
proof -
  have "skip_space (ws @ 48 # 0x78 # ds @ c # s) = Some (48 # 0x78 # ds @ c # s)"
    by (rule skip_space_run [OF assms(3)]) (simp add: is_space_c_def)
  then show ?thesis
    using xtoi_loop_val [OF assms(1,2), of s 0] by (simp add: atoix_def buf_rd_def xtoi_def hex_val_def)
qed

end
