(* ===== verification/Hdlc.thy ===== *)
theory Hdlc
  imports Crc
begin

text \<open>
  The byte-stuffed framing of \<^verbatim>\<open>src/util/hdlc.c\<close>. The stream is the list of bytes it will
  deliver: at its end a read that may wait blocks and a read that may not returns 0. Writing
  appends to the output. The receive buffer is a list of bytes, a store outside it is
  \<^const>\<open>None\<close>. The theorems show that frames written by any of the senders are read back
  unchanged from a clean stream, in order, and that nothing but a frame with a valid CRC is
  ever delivered.
\<close>

section \<open>Receiving\<close>

datatype hdlc_result = Frame nat | No_data | Waiting

text \<open>
  One call of \<^verbatim>\<open>hdlc_read_to_buf\<close>: \<open>len\<close> is -1 while the reader waits for a flag.
  The store of a byte, shared by the escape and the default case.
\<close>

definition hdlc_store :: "bytes \<Rightarrow> nat \<Rightarrow> int \<Rightarrow> u8 \<Rightarrow> (bytes \<times> int) option" where
  "hdlc_store buf max_frame_size len c =
     (if len \<ge> 0 then do {
        buf \<leftarrow> buf_wr buf (nat len) c;
        Some (buf, if len + 1 > int max_frame_size then -1 else len + 1)
      } else Some (buf, len))"

fun hdlc_read_to_buf ::
  "nat \<Rightarrow> bool \<Rightarrow> bytes \<Rightarrow> int \<Rightarrow> bytes \<Rightarrow> (hdlc_result \<times> bytes \<times> bytes) option" where
  "hdlc_read_to_buf max_frame_size wait buf len [] =
     Some (if len < 1 \<and> \<not> wait then No_data else Waiting, buf, [])"
| "hdlc_read_to_buf max_frame_size wait buf len (c # s) =
     (if c = 0x7e then
        if len > 4 \<and> NOT (crc32 0 (take (nat len) buf)) = 0
        then Some (Frame (nat len - 4), buf, s)
        else hdlc_read_to_buf max_frame_size wait buf 0 s
      else if c = 0x7d then
        (case s of
           [] \<Rightarrow> Some (Waiting, buf, [])
         | d # s' \<Rightarrow> do {
             (buf, len) \<leftarrow> hdlc_store buf max_frame_size len (d XOR 0x20);
             hdlc_read_to_buf max_frame_size wait buf len s'
           })
      else do {
        (buf, len) \<leftarrow> hdlc_store buf max_frame_size len c;
        hdlc_read_to_buf max_frame_size wait buf len s
      })"

lemma hdlc_read_rest:
  "hdlc_read_to_buf m w buf len s = Some (Frame n, buf', s') \<Longrightarrow> length s' < length s"
proof (induction m w buf len s rule: hdlc_read_to_buf.induct)
  case (2 m w buf len c s)
  then show ?case
    by (auto split: if_splits list.splits bind_splits) (metis less_Suc_eq less_SucI)+
qed (auto split: if_splits)

text \<open>
  \<^verbatim>\<open>hdlc_read\<close>: the payloads handed to the callback until the stream has nothing more to
  deliver. The buffer is kept between the calls.
\<close>

function hdlc_read :: "nat \<Rightarrow> bytes \<Rightarrow> bytes \<Rightarrow> bytes list option" where
  "hdlc_read max_frame_size buf s =
     (case hdlc_read_to_buf max_frame_size True buf (-1) s of
        None \<Rightarrow> None
      | Some (Frame n, buf', s') \<Rightarrow>
          map_option (\<lambda>fs. take n buf' # fs) (hdlc_read max_frame_size buf' s')
      | Some (_, buf', s') \<Rightarrow> Some [])"
  by pat_completeness auto
termination
  by (relation "measure (\<lambda>(m, buf, s). length s)") (auto dest: hdlc_read_rest)

declare hdlc_read.simps [simp del]

section \<open>Sending\<close>

definition hdlc_special :: "bool \<Rightarrow> u8 \<Rightarrow> bool" where
  "hdlc_special escape_ctrl c \<longleftrightarrow> c = 0x7e \<or> c = 0x7d \<or> (escape_ctrl \<and> c < 0x20)"

text \<open>The inner loop: \<open>b\<close> is the start of the run of plain bytes not yet written.\<close>

function hdlc_escape_loop :: "bool \<Rightarrow> bytes \<Rightarrow> nat \<Rightarrow> nat \<Rightarrow> bytes \<Rightarrow> bytes" where
  "hdlc_escape_loop escape_ctrl buf i b out =
     (if i < length buf then
        if hdlc_special escape_ctrl (buf ! i) then
          let out = (if i - b \<noteq> 0 then out @ take (i - b) (drop b buf) else out);
              out = out @ [0x7d, (buf ! i) XOR 0x20]
          in hdlc_escape_loop escape_ctrl buf (i + 1) (i + 1) out
        else hdlc_escape_loop escape_ctrl buf (i + 1) b out
      else if i - b \<noteq> 0 then out @ take (i - b) (drop b buf) else out)"
  by pat_completeness auto
termination
  by (relation "measure (\<lambda>(e, buf, i, b, out). length buf - i)") auto

declare hdlc_escape_loop.simps [simp del]

fun hdlc_write_vecs :: "bool \<Rightarrow> bytes list \<Rightarrow> bytes \<Rightarrow> bytes" where
  "hdlc_write_vecs escape_ctrl [] out = out"
| "hdlc_write_vecs escape_ctrl (v # iov) out =
     hdlc_write_vecs escape_ctrl iov (hdlc_escape_loop escape_ctrl v 0 0 out)"

definition hdlc_write_rawv_ex :: "bool \<Rightarrow> bytes list \<Rightarrow> bytes \<Rightarrow> bytes" where
  "hdlc_write_rawv_ex escape_ctrl iov out =
     hdlc_write_vecs escape_ctrl iov (out @ [0x7e]) @ [0x7e]"

definition hdlc_write_rawv :: "bytes list \<Rightarrow> bytes \<Rightarrow> bytes" where
  "hdlc_write_rawv iov out = hdlc_write_rawv_ex False iov out"

definition hdlc_send_ex :: "bool \<Rightarrow> bytes \<Rightarrow> bytes \<Rightarrow> bytes" where
  "hdlc_send_ex escape_ctrl data out =
     (let crc = NOT (crc32 0 data) in hdlc_write_rawv_ex escape_ctrl [data, le32 crc] out)"

definition hdlc_send :: "bytes \<Rightarrow> bytes \<Rightarrow> bytes" where
  "hdlc_send data out = hdlc_send_ex False data out"

definition hdlc_send_printable :: "bytes \<Rightarrow> bytes \<Rightarrow> bytes" where
  "hdlc_send_printable data out = hdlc_send_ex True data out"

definition hdlc_sendv :: "bytes list \<Rightarrow> bytes \<Rightarrow> bytes" where
  "hdlc_sendv iov out =
     (let crc = NOT (foldl crc32 0 iov) in hdlc_write_rawv (iov @ [le32 crc]) out)"

section \<open>What is on the wire\<close>

definition hdlc_esc :: "bool \<Rightarrow> u8 \<Rightarrow> bytes" where
  "hdlc_esc e c = (if hdlc_special e c then [0x7d, c XOR 0x20] else [c])"

definition hdlc_wire :: "bool \<Rightarrow> bytes \<Rightarrow> bytes" where
  "hdlc_wire e data = 0x7e # concat (map (hdlc_esc e) data) @ [0x7e]"

lemma hdlc_escape_loop_eq:
  assumes "b \<le> i" "i \<le> length buf"
  shows "hdlc_escape_loop e buf i b out =
    out @ take (i - b) (drop b buf) @ concat (map (hdlc_esc e) (drop i buf))"
  using assms
proof (induction e buf i b out rule: hdlc_escape_loop.induct)
  case (1 e buf i b out)
  show ?case
  proof (cases "i < length buf")
    case False
    then show ?thesis using "1.prems" by (subst hdlc_escape_loop.simps) auto
  next
    case True
    have d: "drop i buf = buf ! i # drop (i + 1) buf" using True by (simp add: Cons_nth_drop_Suc)
    have t: "take (i + 1 - b) (drop b buf) = take (i - b) (drop b buf) @ [buf ! i]"
      using True "1.prems" by (simp add: Suc_diff_le take_Suc_conv_app_nth)
    show ?thesis
      using True "1.IH" "1.prems" t unfolding d
      by (subst hdlc_escape_loop.simps) (auto simp: Let_def hdlc_esc_def [of e "buf ! i"])
  qed
qed

lemma hdlc_write_vecs_eq:
  "hdlc_write_vecs e iov out = out @ concat (map (hdlc_esc e) (concat iov))"
  by (induction iov arbitrary: out) (simp_all add: hdlc_escape_loop_eq)

lemma hdlc_write_rawv_ex_eq: "hdlc_write_rawv_ex e iov out = out @ hdlc_wire e (concat iov)"
  by (simp add: hdlc_write_rawv_ex_def hdlc_write_vecs_eq hdlc_wire_def)

definition hdlc_frame :: "bytes \<Rightarrow> bytes" where
  "hdlc_frame data = data @ le32 (NOT (crc32 0 data))"

lemma foldl_crc32: "foldl crc32 s iov = crc32 s (concat iov)"
  by (induction iov arbitrary: s) (simp_all add: crc32.run_append)

lemma hdlc_senders:
  "hdlc_send_ex e data out = out @ hdlc_wire e (hdlc_frame data)"
  "hdlc_send data out = out @ hdlc_wire False (hdlc_frame data)"
  "hdlc_send_printable data out = out @ hdlc_wire True (hdlc_frame data)"
  "hdlc_sendv iov out = out @ hdlc_wire False (hdlc_frame (concat iov))"
  by (simp_all add: hdlc_send_ex_def hdlc_send_def hdlc_send_printable_def hdlc_sendv_def
      hdlc_write_rawv_def hdlc_write_rawv_ex_eq hdlc_frame_def foldl_crc32 Let_def)

section \<open>Reading a frame back\<close>

lemma xor_0x20_twice: "(c XOR 0x20) XOR 0x20 = (c :: u8)"
  by (simp add: xor.assoc)

lemma hdlc_read_byte:
  assumes "0 \<le> len" "nat len < length buf" "len + 1 \<le> int m"
  shows "hdlc_read_to_buf m w buf len (hdlc_esc e c @ s) =
    hdlc_read_to_buf m w (buf[nat len := c]) (len + 1) s"
  using assms xor_0x20_twice [of c]
  by (auto simp: hdlc_esc_def hdlc_special_def hdlc_store_def buf_wr_def)

lemma hdlc_read_bytes:
  assumes "0 \<le> len" "nat len + length data \<le> length buf" "len + int (length data) \<le> int m"
  shows "hdlc_read_to_buf m w buf len (concat (map (hdlc_esc e) data) @ s) =
    hdlc_read_to_buf m w (take (nat len) buf @ data @ drop (nat len + length data) buf)
      (len + int (length data)) s"
  using assms
proof (induction data arbitrary: buf len)
  case (Cons c data)
  let ?buf = "buf[nat len := c]"
  have "hdlc_read_to_buf m w buf len (concat (map (hdlc_esc e) (c # data)) @ s) =
      hdlc_read_to_buf m w ?buf (len + 1) (concat (map (hdlc_esc e) data) @ s)"
    using Cons.prems by (simp add: hdlc_read_byte)
  also have "\<dots> = hdlc_read_to_buf m w
      (take (nat (len + 1)) ?buf @ data @ drop (nat (len + 1) + length data) ?buf)
      (len + 1 + int (length data)) s"
    using Cons.prems by (intro Cons.IH) auto
  also have "take (nat (len + 1)) ?buf = take (nat len) buf @ [c]"
    using Cons.prems by (simp add: nat_add_distrib take_Suc_wr)
  finally show ?case using Cons.prems by (simp add: nat_add_distrib algebra_simps)
qed simp

lemma hdlc_frame_accepted: "NOT (crc32 0 (hdlc_frame data)) = 0"
  unfolding hdlc_frame_def using crc32_trailer_iff by simp

lemma hdlc_read_frame:
  assumes "data \<noteq> []" "length data + 4 \<le> m" "m \<le> length buf"
  shows "\<exists>buf'. hdlc_read_to_buf m w buf (-1) (hdlc_wire e (hdlc_frame data) @ s) =
    Some (Frame (length data), buf', s) \<and> take (length data) buf' = data \<and> length buf' = length buf"
proof -
  let ?f = "hdlc_frame data"
  let ?buf = "?f @ drop (length ?f) buf"
  have len: "length ?f = length data + 4" by (simp add: hdlc_frame_def)
  have "hdlc_read_to_buf m w buf (-1) (hdlc_wire e ?f @ s) =
      hdlc_read_to_buf m w buf 0 (concat (map (hdlc_esc e) ?f) @ 0x7e # s)"
    by (simp add: hdlc_wire_def)
  also have "\<dots> = hdlc_read_to_buf m w ?buf (int (length ?f)) (0x7e # s)"
    using assms len hdlc_read_bytes [of 0 ?f buf m w e "0x7e # s"] by simp
  also have "\<dots> = Some (Frame (length data), ?buf, s)"
    using assms(1) len hdlc_frame_accepted [of data] by simp
  finally have "hdlc_read_to_buf m w buf (-1) (hdlc_wire e ?f @ s) = Some (Frame (length data), ?buf, s)" .
  moreover have "take (length data) ?buf = data" by (simp add: hdlc_frame_def)
  moreover have "length ?buf = length buf" using assms len by simp
  ultimately show ?thesis by blast
qed


section \<open>Properties\<close>

text \<open>C6. Any sequence of non-empty messages that fit the receiver, written one after the other
  with the plain or the printable sender, is delivered to the callback of \<^verbatim>\<open>hdlc_read\<close>
  unchanged, complete and in order, without touching memory outside the receive buffer.\<close>

theorem hdlc_stream_roundtrip:
  assumes "\<forall>d\<in>set ds. d \<noteq> [] \<and> length d + 4 \<le> m" and "m \<le> length buf"
  shows "hdlc_read m buf (foldl (\<lambda>out d. hdlc_send_ex e d out) [] ds) = Some ds"
proof -
  have out: "foldl (\<lambda>out d. hdlc_send_ex e d out) out ds =
      out @ concat (map (\<lambda>d. hdlc_wire e (hdlc_frame d)) ds)" for out ds
    by (induction ds arbitrary: out) (simp_all add: hdlc_senders)
  have "hdlc_read m buf (concat (map (\<lambda>d. hdlc_wire e (hdlc_frame d)) ds)) = Some ds"
    using assms
  proof (induction ds arbitrary: buf)
    case Nil
    then show ?case by (simp add: hdlc_read.simps)
  next
    case (Cons d ds)
    let ?rest = "concat (map (\<lambda>d. hdlc_wire e (hdlc_frame d)) ds)"
    obtain buf' where b: "hdlc_read_to_buf m True buf (-1) (hdlc_wire e (hdlc_frame d) @ ?rest) =
        Some (Frame (length d), buf', ?rest)" "take (length d) buf' = d" "length buf' = length buf"
      using hdlc_read_frame [of d m buf True e ?rest] Cons.prems by auto
    have "hdlc_read m buf' ?rest = Some ds"
      using Cons.prems b(3) by (intro Cons.IH) auto
    then show ?case using b by (subst hdlc_read.simps) simp
  qed
  then show ?thesis by (simp add: out)
qed

theorem hdlc_stream_roundtrip_witness:
  "hdlc_read 16 (replicate 16 0) (foldl (\<lambda>out d. hdlc_send_ex True d out) [] [[0x7e, 1], [0x7d]]) =
     Some [[0x7e, 1], [0x7d]]"
  using hdlc_stream_roundtrip [of "[[0x7e, 1], [0x7d]]" 16 "replicate 16 0" True] by simp

text \<open>What the bytes of a stream mean: flags, and bytes that are escaped or not. An escape at the end of the
  stream still waits for its byte.\<close>

datatype hdlc_token = Flag | Byte u8

fun hdlc_tokens :: "bytes \<Rightarrow> hdlc_token list" where
  "hdlc_tokens [] = []"
| "hdlc_tokens (c # s) =
     (if c = 0x7e then Flag # hdlc_tokens s
      else if c = 0x7d then (case s of [] \<Rightarrow> [] | d # s' \<Rightarrow> Byte (d XOR 0x20) # hdlc_tokens s')
      else Byte c # hdlc_tokens s)"

text \<open>The reader has seen the tokens \<open>p\<close>, the last flag of which started the bytes that are in the buffer.\<close>

definition hdlc_seen :: "nat \<Rightarrow> bytes \<Rightarrow> int \<Rightarrow> hdlc_token list \<Rightarrow> bool" where
  "hdlc_seen m buf len p \<longleftrightarrow> length buf = m \<and> len \<le> int m \<and> (len \<ge> 0 \<longrightarrow> (\<exists>q. p = q @ Flag # map Byte (take (nat len) buf)))"

definition hdlc_too_long :: "nat \<Rightarrow> hdlc_token list \<Rightarrow> bool" where
  "hdlc_too_long m ts \<longleftrightarrow> (\<exists>p b q. ts = p @ Flag # map Byte b @ q \<and> length b = m + 1)"

definition hdlc_between_flags :: "bytes \<Rightarrow> hdlc_token list \<Rightarrow> bool" where
  "hdlc_between_flags b ts \<longleftrightarrow> (\<exists>p q. ts = p @ Flag # map Byte b @ Flag # q)"

lemma hdlc_store_seen:
  assumes "hdlc_seen m buf len p"
  shows "case hdlc_store buf m len c of
      None \<Rightarrow> hdlc_too_long m (p @ Byte c # r)
    | Some (buf', len') \<Rightarrow> hdlc_seen m buf' len' (p @ [Byte c])"
proof (cases "len \<ge> 0")
  case False
  then show ?thesis using assms by (simp add: hdlc_store_def hdlc_seen_def)
next
  case True
  then obtain q where q: "p = q @ Flag # map Byte (take (nat len) buf)" "length buf = m" "nat len \<le> m" using assms by (auto simp: hdlc_seen_def)
  show ?thesis
  proof (cases "nat len < m")
    case False
    then have "p @ Byte c # r = q @ Flag # map Byte (buf @ [c]) @ r" using q by simp
    then have "hdlc_too_long m (p @ Byte c # r)" unfolding hdlc_too_long_def using q(2)
      by (intro exI [of _ q] exI [of _ "buf @ [c]"] exI [of _ r]) simp
    then show ?thesis using True False q by (simp add: hdlc_store_def buf_wr_def)
  next
    case less: True
    then have "nat (len + 1) = Suc (nat len)" using True by simp
    then show ?thesis using less True q by (auto simp: hdlc_store_def buf_wr_def hdlc_seen_def take_Suc_wr)
  qed
qed

lemma hdlc_trailer_frame:
  assumes "NOT (crc32 0 (take (n + 4) b)) = 0" "n + 4 \<le> length b"
  shows "take (n + 4) b = hdlc_frame (take n b)"
proof -
  have t: "take (n + 4) b = take n b @ take 4 (drop n b)" by (simp add: take_add)
  have "length (take 4 (drop n b)) = 4" using assms(2) by simp
  then obtain w where "take 4 (drop n b) = le32 w" using le32_surj by blast
  then show ?thesis using assms(1) t crc32_trailer_iff by (simp add: hdlc_frame_def)
qed

lemma hdlc_read_to_buf_sound:
  assumes "hdlc_seen m buf len p"
  shows "case hdlc_read_to_buf m w buf len s of
      None \<Rightarrow> hdlc_too_long m (p @ hdlc_tokens s)
    | Some (r, buf', s') \<Rightarrow> length buf' = m \<and> (\<exists>u. hdlc_tokens s = u @ hdlc_tokens s') \<and>
        (\<forall>n. r = Frame n \<longrightarrow> 0 < n \<and> n + 4 \<le> m \<and> hdlc_between_flags (hdlc_frame (take n buf')) (p @ hdlc_tokens s))"
  using assms
proof (induction s arbitrary: buf len p rule: length_induct)
  case (1 s)
  note IH = "1.IH" [rule_format] and prems = "1.prems"
  have store: ?case if s': "length s' < length s" "hdlc_tokens s = Byte x # hdlc_tokens s'" "hdlc_read_to_buf m w buf len s =
      hdlc_store buf m len x \<bind> (\<lambda>(buf, len). hdlc_read_to_buf m w buf len s')" for x s'
  proof (cases "hdlc_store buf m len x")
    case None
    then show ?thesis using hdlc_store_seen [OF prems, of x "hdlc_tokens s'"] s' by simp
  next
    case (Some bl)
    then obtain b l where bl: "hdlc_store buf m len x = Some (b, l)" by (cases bl) auto
    then have "hdlc_seen m b l (p @ [Byte x])" using hdlc_store_seen [OF prems, of x] by simp
    from IH [OF s'(1) this] show ?thesis using s' bl by (auto split: option.splits)
  qed
  show ?case
  proof (cases s)
    case Nil
    then show ?thesis using prems by (simp add: hdlc_seen_def)
  next
    case (Cons c s1)
    consider "c = 0x7e" | "c = 0x7d" "s1 = []" | d s2 where "c = 0x7d" "s1 = d # s2" | "c \<noteq> 0x7e" "c \<noteq> 0x7d" by (cases s1) auto
    then show ?thesis
    proof cases
      case 1
      show ?thesis
      proof (cases "len > 4 \<and> NOT (crc32 0 (take (nat len) buf)) = 0")
        case True
        define n where "n = nat len - 4"
        have n: "0 < n" "nat len = n + 4" "n + 4 \<le> m" "length buf = m" using True prems by (auto simp: n_def hdlc_seen_def)
        from prems True obtain q where "p = q @ Flag # map Byte (take (nat len) buf)" by (auto simp: hdlc_seen_def)
        then have "hdlc_between_flags (hdlc_frame (take n buf)) (p @ hdlc_tokens s)"
          unfolding hdlc_between_flags_def using hdlc_trailer_frame [of n buf] True n Cons 1 by (intro exI [of _ q] exI [of _ "hdlc_tokens s1"]) simp
        then show ?thesis using Cons 1 True n by (simp add: n_def [symmetric])
      next
        case False
        have "hdlc_seen m buf 0 (p @ [Flag])" using prems by (simp add: hdlc_seen_def)
        from IH [OF _ this, of s1] show ?thesis using Cons 1 False by (auto split: option.splits)
      qed
    next
      case 2
      then show ?thesis using Cons prems by (simp add: hdlc_seen_def)
    next
      case 3
      then show ?thesis using Cons by (intro store [of s2 "d XOR 0x20"]) auto
    next
      case 4
      then show ?thesis using Cons by (intro store [of s1 c]) auto
    qed
  qed
qed

text \<open>C28. Whatever bytes arrive, \<^verbatim>\<open>hdlc_read\<close> with the buffer of exactly \<^verbatim>\<open>max_frame_size\<close> bytes that it
  allocates hands to its callback only payloads that came as a whole frame: between two flags of the stream stood the
  payload, at least one byte of it, and the CRC of the payload, together at most \<^verbatim>\<open>max_frame_size\<close> bytes.
  It writes outside its buffer only when a flag is followed by more than \<^verbatim>\<open>max_frame_size\<close> bytes
  (as \<open>hdlc_read_overflows_by_one\<close> shows, then it does).\<close>

theorem hdlc_read_delivers_only_valid:
  assumes "length buf = max_frame_size"
  shows "case hdlc_read max_frame_size buf s of
      None \<Rightarrow> hdlc_too_long max_frame_size (hdlc_tokens s)
    | Some fs \<Rightarrow> \<forall>f \<in> set fs. f \<noteq> [] \<and> length f + 4 \<le> max_frame_size \<and> hdlc_between_flags (hdlc_frame f) (hdlc_tokens s)"
  using assms
proof (induction s arbitrary: buf rule: length_induct)
  case (1 s)
  have "hdlc_seen max_frame_size buf (-1) []" using "1.prems" by (simp add: hdlc_seen_def)
  note rd = hdlc_read_to_buf_sound [OF this, of s True]
  show ?case
  proof (cases "hdlc_read_to_buf max_frame_size True buf (-1) s")
    case None
    then show ?thesis using rd by (subst hdlc_read.simps) simp
  next
    case (Some x)
    then obtain r b s' where x: "hdlc_read_to_buf max_frame_size True buf (-1) s = Some (r, b, s')" by (cases x) auto
    show ?thesis
    proof (cases r)
      case (Frame n)
      then have n: "0 < n" "n + 4 \<le> max_frame_size" "hdlc_between_flags (hdlc_frame (take n b)) (hdlc_tokens s)" "length b = max_frame_size"
        using rd x by auto
      obtain u where u: "hdlc_tokens s = u @ hdlc_tokens s'" using rd x by auto
      have ext: "hdlc_too_long max_frame_size (hdlc_tokens s') \<Longrightarrow> hdlc_too_long max_frame_size (hdlc_tokens s)"
        "hdlc_between_flags g (hdlc_tokens s') \<Longrightarrow> hdlc_between_flags g (hdlc_tokens s)" for g
        unfolding u hdlc_too_long_def hdlc_between_flags_def by (metis append_assoc)+
      have "length s' < length s" using hdlc_read_rest x Frame by blast
      from "1.IH" [rule_format, OF this n(4)] show ?thesis using x Frame n ext
        by (subst hdlc_read.simps) (auto split: option.splits)
    qed (use x in \<open>subst hdlc_read.simps, simp\<close>)+
  qed
qed

theorem hdlc_read_delivers_only_valid_witness:
  "hdlc_too_long 4 (hdlc_tokens [0x7e, 1, 2, 3, 4, 5]) \<and> hdlc_read 5 (replicate 5 0) (hdlc_send [1] []) = Some [[1]] \<and>
   hdlc_between_flags (hdlc_frame [1]) (hdlc_tokens (hdlc_send [1] []))"
proof -
  have a: "hdlc_too_long 4 (hdlc_tokens [0x7e, 1, 2, 3, 4, 5])"
    using hdlc_read_delivers_only_valid [of "replicate 4 0" 4 "[0x7e, 1, 2, 3, 4, 5]"]
    by (simp add: hdlc_read.simps [of 4 "replicate 4 0"] hdlc_store_def buf_wr_def del: hdlc_tokens.simps)
  obtain b where "hdlc_read_to_buf 5 True (replicate 5 0) (-1) (hdlc_send [1] []) = Some (Frame 1, b, [])" "take 1 b = [1]"
    using hdlc_read_frame [of "[1]" 5 "replicate 5 0" True False "[]"] by (auto simp: hdlc_senders)
  then have "hdlc_read 5 (replicate 5 0) (hdlc_send [1] []) = Some [[1]]"
    by (subst hdlc_read.simps) (simp add: hdlc_read.simps)
  with a hdlc_read_delivers_only_valid [of "replicate 5 0" 5 "hdlc_send [1] []"] show ?thesis by simp
qed

lemma xor_0x20_printable:
  assumes "c < 0x20"
  shows "0x20 \<le> c XOR (0x20 :: u8) \<and> c XOR 0x20 \<noteq> 0x7e"
proof -
  have all: "\<forall>n\<in>set [0..<32]. 0x20 \<le> of_nat n XOR (0x20 :: u8) \<and> of_nat n XOR (0x20 :: u8) \<noteq> 0x7e"
    by (simp add: upt_rec)
  have "unat c < 32" using assms by (simp add: word_less_nat_alt)
  then have "unat c \<in> set [0..<32]" by simp
  from bspec [OF all this] show ?thesis by simp
qed

text \<open>A frame written with \<^verbatim>\<open>hdlc_send_printable\<close> holds no control character, and the flag
  byte appears only at its two ends.\<close>

theorem hdlc_send_printable_clean:
  "\<exists>body. hdlc_send_printable data [] = 0x7e # body @ [0x7e] \<and>
     list_all (\<lambda>c. 0x20 \<le> c \<and> c \<noteq> 0x7e) body"
proof -
  have "0x20 \<le> b \<and> b \<noteq> 0x7e" if "b \<in> set (hdlc_esc True c)" for b c
    using that xor_0x20_printable [of c] by (auto simp: hdlc_esc_def hdlc_special_def split: if_splits)
  then show ?thesis by (fastforce simp: hdlc_senders hdlc_wire_def list_all_iff)
qed

text \<open>
  The limit is checked after the store: a frame of one byte more than the limit writes one
  byte past a buffer of \<^verbatim>\<open>max_frame_size\<close> bytes, the size \<^verbatim>\<open>hdlc_read\<close> allocates.
\<close>

lemma hdlc_read_overflows_by_one:
  "hdlc_read_to_buf 4 True (replicate 4 0) (-1) [0x7e, 1, 2, 3, 4, 5] = None"
  by (simp add: hdlc_store_def buf_wr_def)

end
