(* ===== verification/Timer.thy ===== *)
theory Timer
  imports Mios_Prelude
begin

text \<open>
  The timer queues of \<^verbatim>\<open>src/kernel/timer.c\<close>. Timers are named by numbers; the state holds the
  expiry time of every timer (0 while it is not armed) and the queues, lists of timers. The
  callback of a timer is arbitrary code acting on an extension of this state, so it is a
  parameter of \<^verbatim>\<open>timer_dispatch\<close>; the program arms timers on the clock's queue through the
  platform's \<^verbatim>\<open>timer_arm_abs\<close>, a parameter of \<^verbatim>\<open>timer_init\<close>.
\<close>

section \<open>Operations\<close>

record timers =
  t_expire :: "nat \<Rightarrow> u64"
  tl_queue :: "nat \<Rightarrow> nat list"

definition timer_cmp :: "(nat \<Rightarrow> u64) \<Rightarrow> nat \<Rightarrow> nat \<Rightarrow> bool" where
  "timer_cmp ex a b \<longleftrightarrow> ex a > ex b"

text \<open>\<^verbatim>\<open>LIST_REMOVE\<close> unlinks a timer from the queue it is on, whichever that is.\<close>

definition timer_unlink :: "nat \<Rightarrow> 'x timers_scheme \<Rightarrow> 'x timers_scheme" where
  "timer_unlink t st = st\<lparr>tl_queue := (\<lambda>q. remove1 t (tl_queue st q))\<rparr>"

definition timer_set_expire :: "nat \<Rightarrow> u64 \<Rightarrow> 'x timers_scheme \<Rightarrow> 'x timers_scheme" where
  "timer_set_expire t e st = st\<lparr>t_expire := (t_expire st)(t := e)\<rparr>"

definition timer_arm_on_queue :: "nat \<Rightarrow> u64 \<Rightarrow> nat \<Rightarrow> 'x timers_scheme \<Rightarrow> 'x timers_scheme" where
  "timer_arm_on_queue t expire tq st =
     (let st = (if t_expire st t \<noteq> 0 then timer_unlink t st else st);
          st = timer_set_expire t expire st
      in st\<lparr>tl_queue := (tl_queue st)
              (tq := list_insert_sorted (timer_cmp (t_expire st)) t (tl_queue st tq))\<rparr>)"

definition timer_disarm :: "nat \<Rightarrow> 'x timers_scheme \<Rightarrow> int \<times> 'x timers_scheme" where
  "timer_disarm t st =
     (if t_expire st t = 0 then (1, st)
      else (0, timer_set_expire t 0 (timer_unlink t st)))"

partial_function (option) timer_dispatch ::
  "(nat \<Rightarrow> u64 \<Rightarrow> 'x timers_scheme \<Rightarrow> 'x timers_scheme) \<Rightarrow> nat \<Rightarrow> u64 \<Rightarrow>
   'x timers_scheme \<Rightarrow> 'x timers_scheme option" where
  "timer_dispatch cb tq now st =
     (case tl_queue st tq of
        [] \<Rightarrow> Some st
      | t # _ \<Rightarrow>
          let expire = t_expire st t in
          if expire > now then Some st
          else timer_dispatch cb tq now (cb t expire (timer_set_expire t 0 (timer_unlink t st))))"

declare timer_dispatch.simps [code]

definition timer_init ::
  "(nat \<Rightarrow> u64 \<Rightarrow> 'x timers_scheme \<Rightarrow> 'x timers_scheme) \<Rightarrow> nat \<Rightarrow> u64 \<Rightarrow>
   'x timers_scheme \<Rightarrow> 'x timers_scheme" where
  "timer_init timer_arm_abs t deadline st = timer_arm_abs t deadline st"

section \<open>The invariant\<close>

text \<open>
  Every queue is sorted by expiry time and holds no timer twice, no timer is on two queues,
  and a timer is on a queue exactly when its expiry time is set.
\<close>

definition timer_inv :: "'x timers_scheme \<Rightarrow> bool" where
  "timer_inv st \<longleftrightarrow>
     (\<forall>q. sorted_wrt (\<lambda>a b. t_expire st a \<le> t_expire st b) (tl_queue st q) \<and> distinct (tl_queue st q)) \<and>
     (\<forall>q r t. t \<in> set (tl_queue st q) \<and> t \<in> set (tl_queue st r) \<longrightarrow> q = r) \<and>
     (\<forall>t. t_expire st t \<noteq> 0 \<longleftrightarrow> (\<exists>q. t \<in> set (tl_queue st q)))"

interpretation timer_order: sorted_insert "timer_cmp ex" "\<lambda>a b. ex a \<le> ex b" for ex
  by unfold_locales (auto simp: timer_cmp_def)

lemma timer_invI:
  assumes "\<And>q. sorted_wrt (\<lambda>a b. t_expire st a \<le> t_expire st b) (tl_queue st q)"
    and "\<And>q. distinct (tl_queue st q)"
    and "\<And>q r t. t \<in> set (tl_queue st q) \<Longrightarrow> t \<in> set (tl_queue st r) \<Longrightarrow> q = r"
    and "\<And>t. t_expire st t \<noteq> 0 \<longleftrightarrow> (\<exists>q. t \<in> set (tl_queue st q))"
  shows "timer_inv st"
  unfolding timer_inv_def using assms(1,2,4) assms(3) by blast

lemma timer_invD:
  assumes "timer_inv st"
  shows "sorted_wrt (\<lambda>a b. t_expire st a \<le> t_expire st b) (tl_queue st q)" "distinct (tl_queue st q)"
    and "t \<in> set (tl_queue st q) \<Longrightarrow> t \<in> set (tl_queue st r) \<Longrightarrow> q = r"
    and "t_expire st t \<noteq> 0 \<longleftrightarrow> (\<exists>q. t \<in> set (tl_queue st q))"
  using assms unfolding timer_inv_def by blast+

lemma timer_inv_cong:
  "t_expire st = t_expire st' \<Longrightarrow> tl_queue st = tl_queue st' \<Longrightarrow> timer_inv st = timer_inv st'"
  by (simp add: timer_inv_def)

lemma sorted_wrt_expire_upd:
  "t \<notin> set ts \<Longrightarrow> sorted_wrt (\<lambda>a b. (ex(t := e)) a \<le> (ex(t := e)) b) ts =
     sorted_wrt (\<lambda>a b. ex a \<le> (ex b :: u64)) ts"
  by (induction ts) auto

text \<open>Taking a timer off its queue and clearing its time.\<close>

lemma timer_off_inv:
  assumes inv: "timer_inv st"
  shows "timer_inv (timer_set_expire t 0 (timer_unlink t st))"
    and "\<And>q. t \<notin> set (remove1 t (tl_queue st q))"
proof -
  show off: "t \<notin> set (remove1 t (tl_queue st q))" for q
    using timer_invD(2) [OF inv] by simp
  have sub: "set (remove1 t (tl_queue st q)) = set (tl_queue st q) - {t}" for q
    using timer_invD(2) [OF inv] by (rule set_remove1_eq)
  have so: "sorted_wrt (\<lambda>a b. ((t_expire st)(t := 0)) a \<le> ((t_expire st)(t := 0)) b) (remove1 t (tl_queue st q))" for q
    using timer_invD(1) [OF inv, of q] off [of q] by (subst sorted_wrt_expire_upd) (auto simp: sorted_wrt_remove1)
  let ?st = "timer_set_expire t 0 (timer_unlink t st)"
  have q: "tl_queue ?st = (\<lambda>q. remove1 t (tl_queue st q))" "t_expire ?st = (t_expire st)(t := 0)"
    by (simp_all add: timer_set_expire_def timer_unlink_def)
  show "timer_inv ?st"
  proof (rule timer_invI, unfold q)
    show "distinct (remove1 t (tl_queue st q))" for q using timer_invD(2) [OF inv] by (rule distinct_remove1)
    show "q = r" if "u \<in> set (remove1 t (tl_queue st q))" "u \<in> set (remove1 t (tl_queue st r))" for q r u
      using that timer_invD(3) [OF inv, of u q r] by (simp add: sub)
    show "((t_expire st)(t := 0)) u \<noteq> 0 \<longleftrightarrow> (\<exists>q. u \<in> set (remove1 t (tl_queue st q)))" for u
      using timer_invD(4) [OF inv, of u] by (simp add: sub)
  qed (rule so)
qed

lemma timer_unarmed_notin: "timer_inv st \<Longrightarrow> t_expire st t = 0 \<Longrightarrow> t \<notin> set (tl_queue st q)"
  by (auto simp: timer_inv_def)

lemma timer_arm_inv_unarmed:
  assumes inv: "timer_inv st" and t: "t_expire st t = 0" and e: "expire \<noteq> 0"
  shows "timer_inv (timer_arm_on_queue t expire tq st)"
proof -
  let ?ex = "(t_expire st)(t := expire)"
  have out: "t \<notin> set (tl_queue st q)" for q using timer_unarmed_notin [OF inv t] .
  have so: "sorted_wrt (\<lambda>a b. ?ex a \<le> ?ex b) (tl_queue st q)" for q
    using inv out [of q] by (subst sorted_wrt_expire_upd) (auto simp: timer_inv_def)
  have "sorted_wrt (\<lambda>a b. ?ex a \<le> ?ex b) (list_insert_sorted (timer_cmp ?ex) t (tl_queue st tq))"
    by (rule timer_order.insert_keeps_sorted [OF so])
  note new = this
  let ?st = "timer_arm_on_queue t expire tq st"
  let ?q = "(tl_queue st)(tq := list_insert_sorted (timer_cmp ?ex) t (tl_queue st tq))"
  have q: "tl_queue ?st = ?q" "t_expire ?st = ?ex"
    using t by (simp_all add: timer_arm_on_queue_def timer_set_expire_def Let_def)
  have mem: "u \<in> set (?q r) \<longleftrightarrow> u \<in> set (tl_queue st r) \<or> (r = tq \<and> u = t)" for u r
    by auto
  show ?thesis
  proof (rule timer_invI, unfold q mem)
    show "sorted_wrt (\<lambda>a b. ?ex a \<le> ?ex b) (?q r)" for r using so [of r] new by simp
    show "distinct (?q r)" for r using timer_invD(2) [OF inv] out by simp
    show "r = r'" if "u \<in> set (tl_queue st r) \<or> (r = tq \<and> u = t)" "u \<in> set (tl_queue st r') \<or> (r' = tq \<and> u = t)" for r r' u
      using that timer_invD(3) [OF inv, of u r r'] out by metis
    show "?ex u \<noteq> 0 \<longleftrightarrow> (\<exists>r. u \<in> set (tl_queue st r) \<or> (r = tq \<and> u = t))" for u
      using timer_invD(4) [OF inv, of u] e by (cases "u = t") auto
  qed
qed

lemma timer_arm_as_off:
  "t_expire st t \<noteq> 0 \<Longrightarrow>
   timer_arm_on_queue t expire tq st =
   timer_arm_on_queue t expire tq (timer_set_expire t 0 (timer_unlink t st))"
  by (simp add: timer_arm_on_queue_def timer_set_expire_def timer_unlink_def Let_def)

lemma timer_arm_inv:
  assumes "timer_inv st" and "expire \<noteq> 0"
  shows "timer_inv (timer_arm_on_queue t expire tq st)"
proof (cases "t_expire st t = 0")
  case True
  then show ?thesis using timer_arm_inv_unarmed assms by blast
next
  case False
  have "timer_inv (timer_arm_on_queue t expire tq (timer_set_expire t 0 (timer_unlink t st)))"
    using timer_off_inv(1) [OF assms(1)] assms(2)
    by (intro timer_arm_inv_unarmed) (simp_all add: timer_set_expire_def)
  then show ?thesis using timer_arm_as_off [OF False] by metis
qed

text \<open>C16. Arming a timer with a non-zero time, armed before or not and on whichever queue, and
  disarming it keep the queues sorted and consistent with the expiry times; disarming reports
  whether the timer was armed, and afterwards it is not.\<close>

theorem timer_ops_keep_invariant:
  assumes "timer_inv st" and "expire \<noteq> 0"
  shows "timer_inv (timer_arm_on_queue t expire tq st) \<and>
    t_expire (timer_arm_on_queue t expire tq st) t = expire \<and>
    t \<in> set (tl_queue (timer_arm_on_queue t expire tq st) tq) \<and>
    timer_inv (snd (timer_disarm t st)) \<and> t_expire (snd (timer_disarm t st)) t = 0 \<and>
    (fst (timer_disarm t st) = 1 \<longleftrightarrow> t_expire st t = 0)"
proof (intro conjI)
  show "timer_inv (timer_arm_on_queue t expire tq st)" by (rule timer_arm_inv [OF assms])
  show "t_expire (timer_arm_on_queue t expire tq st) t = expire"
    by (simp add: timer_arm_on_queue_def timer_set_expire_def Let_def)
  show "t \<in> set (tl_queue (timer_arm_on_queue t expire tq st) tq)"
    by (simp add: timer_arm_on_queue_def Let_def)
  show "timer_inv (snd (timer_disarm t st))"
    using timer_off_inv(1) [OF assms(1), of t] assms(1) by (simp add: timer_disarm_def)
  show "t_expire (snd (timer_disarm t st)) t = 0"
    by (simp add: timer_disarm_def timer_set_expire_def)
  show "fst (timer_disarm t st) = 1 \<longleftrightarrow> t_expire st t = 0"
    by (simp add: timer_disarm_def)
qed

theorem timer_ops_keep_invariant_witness:
  "timer_inv (timer_arm_on_queue 3 500 0 \<lparr>t_expire = (\<lambda>_. 0), tl_queue = (\<lambda>_. [])\<rparr>)"
  by (rule conjunct1 [OF timer_ops_keep_invariant]) (simp_all add: timer_inv_def)

section \<open>Dispatch\<close>

text \<open>
  A callback may do anything that keeps the invariant, as long as it arms no timer of the
  queue for a time that has already passed.
\<close>

definition cb_ok :: "(nat \<Rightarrow> u64 \<Rightarrow> 'x timers_scheme \<Rightarrow> 'x timers_scheme) \<Rightarrow> nat \<Rightarrow> u64 \<Rightarrow> bool" where
  "cb_ok cb tq now \<longleftrightarrow> (\<forall>t e st. timer_inv st \<longrightarrow> timer_inv (cb t e st) \<and>
     {u \<in> set (tl_queue (cb t e st) tq). t_expire (cb t e st) u \<le> now}
       \<subseteq> {u \<in> set (tl_queue st tq). t_expire st u \<le> now})"

definition due :: "nat \<Rightarrow> u64 \<Rightarrow> 'x timers_scheme \<Rightarrow> nat set" where
  "due tq now st = {u \<in> set (tl_queue st tq). t_expire st u \<le> now}"

lemma finite_due [simp]: "finite (due tq now st)"
  by (simp add: due_def)

lemma due_off:
  assumes "timer_inv st" "t \<in> due tq now st"
  shows "due tq now (timer_set_expire t 0 (timer_unlink t st)) = due tq now st - {t}"
  using assms timer_off_inv(2) [OF assms(1), of t tq]
  by (auto simp: due_def timer_set_expire_def timer_unlink_def timer_inv_def)

lemma not_due_sorted:
  assumes "timer_inv st" "tl_queue st tq = t # ts" "t_expire st t > now"
  shows "due tq now st = {}"
proof -
  have "\<forall>u\<in>set ts. t_expire st t \<le> t_expire st u"
    using assms(1,2) unfolding timer_inv_def by (metis sorted_wrt.simps(2))
  then show ?thesis using assms(2,3) by (auto simp: due_def)
qed

lemma timer_dispatch_returns:
  assumes "timer_inv st" "cb_ok cb tq now"
  shows "\<exists>st'. timer_dispatch cb tq now st = Some st' \<and> timer_inv st' \<and> due tq now st' = {}"
  using assms(1)
proof (induction "card (due tq now st)" arbitrary: st rule: less_induct)
  case less
  show ?case
  proof (cases "tl_queue st tq")
    case Nil
    then show ?thesis using less.prems by (subst timer_dispatch.simps) (simp add: due_def)
  next
    case (Cons t ts)
    show ?thesis
    proof (cases "t_expire st t > now")
      case True
      then show ?thesis
        using less.prems Cons not_due_sorted [OF less.prems Cons] by (subst timer_dispatch.simps) simp
    next
      case False
      let ?st = "timer_set_expire t 0 (timer_unlink t st)"
      let ?st' = "cb t (t_expire st t) ?st"
      have t: "t \<in> due tq now st" using False Cons by (simp add: due_def)
      have i: "timer_inv ?st" by (rule timer_off_inv(1) [OF less.prems])
      then have i': "timer_inv ?st'" and sub: "due tq now ?st' \<subseteq> due tq now ?st"
        using assms(2) by (simp_all add: cb_ok_def due_def)
      have "due tq now ?st' \<subset> due tq now st" using sub due_off [OF less.prems t] t by blast
      then have "card (due tq now ?st') < card (due tq now st)" by (simp add: psubset_card_mono)
      from less.hyps [OF this i'] show ?thesis
        using False Cons by (subst timer_dispatch.simps) (simp add: Let_def)
    qed
  qed
qed


text \<open>C12. When callbacks arm no timer of the queue for a time already passed, dispatching
  terminates, keeps the invariant and leaves no timer on the queue whose time has come.\<close>

theorem timer_dispatch_fires_all_due:
  assumes "timer_inv st" and "cb_ok cb tq now"
  shows "\<exists>st'. timer_dispatch cb tq now st = Some st' \<and> timer_inv st' \<and>
    (\<forall>t\<in>set (tl_queue st' tq). now < t_expire st' t)"
  using timer_dispatch_returns [OF assms] by (fastforce simp: due_def)

text \<open>Callbacks that only record their invocation.\<close>

record logged_timers = timers +
  fired :: "(nat \<times> u64) list"

definition cb_log :: "nat \<Rightarrow> u64 \<Rightarrow> logged_timers \<Rightarrow> logged_timers" where
  "cb_log t e st = st\<lparr>fired := fired st @ [(t, e)]\<rparr>"

lemma cb_log_ok: "cb_ok cb_log tq now"
  unfolding cb_ok_def
proof (intro allI impI conjI)
  fix t e and st :: logged_timers
  assume "timer_inv st"
  then show "timer_inv (cb_log t e st)"
    by (subst timer_inv_cong [of _ st]) (simp_all add: cb_log_def)
qed (simp add: cb_log_def)

definition demo_timers :: logged_timers where
  "demo_timers = timer_arm_on_queue 2 70 0 (timer_arm_on_queue 1 50 0 (timer_arm_on_queue 3 60 0
     \<lparr>t_expire = (\<lambda>_. 0), tl_queue = (\<lambda>_. []), fired = []\<rparr>))"

lemma demo_timers_inv: "timer_inv demo_timers"
  unfolding demo_timers_def by (intro timer_arm_inv timer_invI) simp_all

theorem timer_dispatch_fires_all_due_witness:
  "\<exists>st'. timer_dispatch cb_log 0 60 demo_timers = Some st' \<and> timer_inv st' \<and>
    (\<forall>t\<in>set (tl_queue st' 0). 60 < t_expire st' t)"
  by (rule timer_dispatch_fires_all_due [OF demo_timers_inv cb_log_ok])

lemma timer_dispatch_log:
  assumes "timer_inv st"
  shows "\<exists>st'. timer_dispatch cb_log tq now st = Some st' \<and>
    fired st' = fired st @ map (\<lambda>t. (t, t_expire st t)) (takeWhile (\<lambda>t. t_expire st t \<le> now) (tl_queue st tq)) \<and>
    tl_queue st' tq = dropWhile (\<lambda>t. t_expire st t \<le> now) (tl_queue st tq)"
  using assms
proof (induction "tl_queue st tq" arbitrary: st)
  case Nil
  then show ?case by (subst timer_dispatch.simps) simp
next
  case (Cons t ts)
  note q = Cons.hyps(2) [symmetric]
  show ?case
  proof (cases "t_expire st t > now")
    case True
    then show ?thesis using q by (subst timer_dispatch.simps) simp
  next
    case False
    let ?st = "cb_log t (t_expire st t) (timer_set_expire t 0 (timer_unlink t st))"
    have notin: "t \<notin> set ts" using timer_invD(2) [OF Cons.prems, of tq] q by simp
    have ts: "tl_queue ?st tq = ts" "\<And>u. u \<in> set ts \<Longrightarrow> t_expire ?st u = t_expire st u"
      "fired ?st = fired st @ [(t, t_expire st t)]"
      using q notin by (auto simp: cb_log_def timer_set_expire_def timer_unlink_def)
    have "timer_inv ?st" using cb_log_ok timer_off_inv(1) [OF Cons.prems] by (simp add: cb_ok_def)
    from Cons.hyps(1) [OF ts(1) [symmetric] this] obtain st' where
      st': "timer_dispatch cb_log tq now ?st = Some st'"
      "fired st' = fired ?st @ map (\<lambda>t. (t, t_expire ?st t)) (takeWhile (\<lambda>t. t_expire ?st t \<le> now) ts)"
      "tl_queue st' tq = dropWhile (\<lambda>t. t_expire ?st t \<le> now) ts"
      using ts(1) by auto
    have tw: "takeWhile (\<lambda>t. t_expire ?st t \<le> now) ts = takeWhile (\<lambda>t. t_expire st t \<le> now) ts"
      "dropWhile (\<lambda>t. t_expire ?st t \<le> now) ts = dropWhile (\<lambda>t. t_expire st t \<le> now) ts"
      using ts(2) by (auto intro: takeWhile_cong dropWhile_cong)
    have "map (\<lambda>t. (t, t_expire ?st t)) (takeWhile (\<lambda>t. t_expire st t \<le> now) ts) =
        map (\<lambda>t. (t, t_expire st t)) (takeWhile (\<lambda>t. t_expire st t \<le> now) ts)"
      using ts(2) by (auto dest: set_takeWhileD)
    then show ?thesis
      using st' tw ts(3) False q by (subst timer_dispatch.simps) (simp add: Let_def)
  qed
qed

text \<open>Dispatching calls back exactly the timers whose time has come, each once with the
  time it was armed for and in the order of these times, and leaves the others queued.\<close>

theorem timer_dispatch_order:
  assumes "timer_inv st"
  shows "\<exists>st'. timer_dispatch cb_log tq now st = Some st' \<and>
    (\<exists>ts. fired st' = fired st @ map (\<lambda>t. (t, t_expire st t)) ts \<and> distinct ts \<and>
       set ts = {t \<in> set (tl_queue st tq). t_expire st t \<le> now} \<and>
       sorted (map (t_expire st) ts) \<and> tl_queue st tq = ts @ tl_queue st' tq)"
proof -
  let ?ts = "takeWhile (\<lambda>t. t_expire st t \<le> now) (tl_queue st tq)"
  obtain st' where st': "timer_dispatch cb_log tq now st = Some st'"
    "fired st' = fired st @ map (\<lambda>t. (t, t_expire st t)) ?ts"
    "tl_queue st' tq = dropWhile (\<lambda>t. t_expire st t \<le> now) (tl_queue st tq)"
    using timer_dispatch_log [OF assms] by blast
  have so: "sorted_wrt (\<lambda>a b. t_expire st a \<le> t_expire st b) (tl_queue st tq)"
    and di: "distinct (tl_queue st tq)" using timer_invD [OF assms] by blast+
  have "set (takeWhile (\<lambda>t. f t \<le> n) ts) = {t \<in> set ts. f t \<le> n}"
    if "sorted_wrt (\<lambda>a b. f a \<le> f b) ts" for ts and f :: "nat \<Rightarrow> u64" and n
    using that by (induction ts) auto
  then have "set ?ts = {t \<in> set (tl_queue st tq). t_expire st t \<le> now}" using so by blast
  moreover have "sorted (map (t_expire st) ?ts)"
  proof -
    have "sorted_wrt (\<lambda>a b. t_expire st a \<le> t_expire st b) (?ts @ dropWhile (\<lambda>t. t_expire st t \<le> now) (tl_queue st tq))"
      using so by simp
    then show ?thesis by (simp only: sorted_wrt_append sorted_map)
  qed
  moreover have "tl_queue st tq = ?ts @ tl_queue st' tq" using st'(3) by simp
  ultimately show ?thesis using st'(1,2) di distinct_takeWhile by blast
qed

theorem timer_dispatch_order_witness:
  "\<exists>st' ts. timer_dispatch cb_log 0 60 demo_timers = Some st' \<and>
     fired st' = fired demo_timers @ map (\<lambda>t. (t, t_expire demo_timers t)) ts"
  using timer_dispatch_order [OF demo_timers_inv] by blast

end
