(* ===== verification/Datetime.thy ===== *)
theory Datetime
  imports Mios_Prelude
begin

text \<open>
  Calendar arithmetic of \<^verbatim>\<open>src/util/datetime.c\<close>: the broken-down time of a 32-bit UNIX time,
  the day of the week, and the adjustments of the wall clock. The running clock
  \<^verbatim>\<open>clock_get\<close> is platform code, hence a parameter. The reference is the civil calendar given
  by its rule for the next day, counted from Thursday 1970-01-01.
\<close>

section \<open>The code\<close>

record datetime =
  dt_year :: u16
  dt_mon :: u8
  dt_mday :: u8
  dt_hour :: u8
  dt_min :: u8
  dt_sec :: u8

record wallclock =
  utc_offset :: u64
  tz_offset :: u32
  wc_source :: "string option"

definition datetime_get_utc_usec :: "u64 \<Rightarrow> wallclock \<Rightarrow> u64" where
  "datetime_get_utc_usec clock wc = clock + utc_offset wc"

definition datetime_get_utc_sec :: "u64 \<Rightarrow> wallclock \<Rightarrow> u32" where
  "datetime_get_utc_sec clock wc = ucast (datetime_get_utc_usec clock wc div 1000000)"

definition datetime_from_unixtime :: "u32 \<Rightarrow> datetime" where
  "datetime_from_unixtime t =
    (let sec = t mod 60; t = t div 60;
         min = t mod 60; t = t div 60;
         hour = t mod 24; t = t div 24;
         a = (4 * t + 102032) div 146097 + 15;
         b = t + 2442113 + a - (a div 4);
         c = (20 * b - 2442) div 7305;
         d = b - 365 * c - (c div 4);
         e = d * 1000 div 30601;
         f = d - e * 30 - e * 601 div 1000;
         (c, e) = (if e \<le> 13 then (c - 4716, e - 1) else (c - 4715, e - 13))
     in \<lparr>dt_year = ucast c, dt_mon = ucast e, dt_mday = ucast f,
         dt_hour = ucast hour, dt_min = ucast min, dt_sec = ucast sec\<rparr>)"

datatype datetime_adj_hand =
  DATETIME_YEAR | DATETIME_MON | DATETIME_MDAY | DATETIME_HOUR | DATETIME_MIN | DATETIME_SEC

definition days_per_month :: "u32 list" where
  "days_per_month = [31,28,31,30,31,30,31,31,30,31,30,31]"

definition datetime_adj :: "datetime_adj_hand \<Rightarrow> u32 \<Rightarrow> u64 \<Rightarrow> wallclock \<Rightarrow> wallclock option" where
  "datetime_adj which delta clock wc = do {
     delta \<leftarrow> (case which of
         DATETIME_YEAR \<Rightarrow> Some (delta * 31536000)
       | DATETIME_MON \<Rightarrow> do {
           let dt = datetime_from_unixtime (datetime_get_utc_sec clock wc);
           n \<leftarrow> (if dt_mon dt = 0 then None else buf_rd days_per_month (unat (dt_mon dt) - 1));
           Some (delta * (86400 * n))
         }
       | DATETIME_MDAY \<Rightarrow> Some (delta * 86400)
       | DATETIME_HOUR \<Rightarrow> Some (delta * 3600)
       | DATETIME_MIN \<Rightarrow> Some (delta * 60)
       | DATETIME_SEC \<Rightarrow> Some delta);
     Some (wc\<lparr>utc_offset := utc_offset wc + scast delta * 1000000\<rparr>)
   }"

definition datetime_set_utc_offset :: "u64 \<Rightarrow> string \<Rightarrow> wallclock \<Rightarrow> bool \<times> wallclock" where
  "datetime_set_utc_offset offset source wc =
     (let significant_change = sint offset > 1000000 \<or> sint offset < -1000000
      in (significant_change, wc\<lparr>wc_source := Some source, utc_offset := utc_offset wc + offset\<rparr>))"

definition datetime_day_of_week :: "datetime \<Rightarrow> int" where
  "datetime_day_of_week dt =
     (let year = int (unat (dt_year dt)); month = int (unat (dt_mon dt)); day = int (unat (dt_mday dt));
          (month, year) = (if month < 3 then (month + 12, year - 1) else (month, year));
          k = year mod 100;
          j = year div 100;
          h = (day + 13 * (month + 1) div 5 + k + k div 4 + j div 4 + 5 * j) mod 7
      in (h + 5) mod 7 + 1)"

section \<open>The civil calendar\<close>

definition leap :: "nat \<Rightarrow> bool" where
  "leap y \<longleftrightarrow> 4 dvd y \<and> (\<not> 100 dvd y \<or> 400 dvd y)"

definition month_days :: "nat \<Rightarrow> nat \<Rightarrow> nat" where
  "month_days y m = (if m = 2 then (if leap y then 29 else 28)
     else if m \<in> {4, 6, 9, 11} then 30 else 31)"

fun next_day :: "nat \<times> nat \<times> nat \<Rightarrow> nat \<times> nat \<times> nat" where
  "next_day (y, m, d) =
     (if d < month_days y m then (y, m, d + 1)
      else if m < 12 then (y, m + 1, 1) else (y + 1, 1, 1))"

fun civil :: "nat \<Rightarrow> nat \<times> nat \<times> nat" where
  "civil 0 = (1970, 1, 1)"
| "civil (Suc n) = next_day (civil n)"

section \<open>The algorithm on numbers\<close>

definition conv_b :: "nat \<Rightarrow> nat" where
  "conv_b t = (let a = (4 * t + 102032) div 146097 + 15 in t + 2442113 + a - a div 4)"

definition conv_year :: "nat \<Rightarrow> nat" where
  "conv_year b = (20 * b - 2442) div 7305"

definition conv_yday :: "nat \<Rightarrow> nat" where
  "conv_yday b = b - 365 * conv_year b - conv_year b div 4"

definition conv_date :: "nat \<Rightarrow> nat \<Rightarrow> nat \<times> nat \<times> nat" where
  "conv_date c d =
    (let e = d * 1000 div 30601; f = d - e * 30 - e * 601 div 1000
     in if e \<le> 13 then (c - 4716, e - 1, f) else (c - 4715, e - 13, f))"

text \<open>The year, starting in March, and the day in it determine the day number and vice versa.\<close>

lemma conv_year_iff:
  assumes "123 \<le> b"
  shows "conv_year b = c \<longleftrightarrow>
    365 * c + c div 4 + 123 \<le> b \<and> b \<le> 365 * c + c div 4 + (if c mod 4 = 3 then 488 else 487)"
proof -
  define q r where "q = c div 4" and "r = c mod 4"
  have c: "c = 4 * q + r" and r: "r < 4" by (simp_all add: q_def r_def)
  have "conv_year b = c \<longleftrightarrow> 7305 * c \<le> 20 * b - 2442 \<and> 20 * b - 2442 < 7305 * c + 7305"
    unfolding conv_year_def by (auto simp: div_nat_eqI dividend_less_div_times intro: div_nat_eqI)
  moreover have "r = 0 \<or> r = 1 \<or> r = 2 \<or> r = 3" using r by auto
  moreover have "c div 4 = q" "c mod 4 = r" by (simp_all add: q_def r_def)
  ultimately show ?thesis using assms c by auto
qed

lemma conv_year_bounds:
  assumes "123 \<le> b" "conv_year b = c"
  shows "365 * c + c div 4 + 123 \<le> b" "b \<le> 365 * c + c div 4 + (if c mod 4 = 3 then 488 else 487)"
  using conv_year_iff [OF assms(1)] assms(2) by blast+

lemma conv_next:
  assumes "123 \<le> b"
  shows "(if conv_yday b < (if conv_year b mod 4 = 3 then 488 else 487)
     then conv_year (b + 1) = conv_year b \<and> conv_yday (b + 1) = conv_yday b + 1
     else conv_year (b + 1) = conv_year b + 1 \<and> conv_yday (b + 1) = 123)"
proof -
  let ?c = "conv_year b"
  note bd = conv_year_bounds [OF assms refl]
  have d: "conv_yday b = b - 365 * ?c - ?c div 4" by (simp add: conv_yday_def)
  show ?thesis
  proof (cases "conv_yday b < (if ?c mod 4 = 3 then 488 else 487)")
    case True
    then have "conv_year (b + 1) = ?c"
      using bd d assms by (subst conv_year_iff) (auto split: if_splits)
    then show ?thesis using True bd by (simp add: conv_yday_def) linarith
  next
    case False
    then have b: "b = 365 * ?c + ?c div 4 + (if ?c mod 4 = 3 then 488 else 487)" using bd d by auto
    have s: "(?c + 1) div 4 = ?c div 4 + (if ?c mod 4 = 3 then 1 else 0)"
      by (simp add: div_Suc) presburger
    have "conv_year (b + 1) = ?c + 1"
      using b s assms by (subst conv_year_iff) (auto split: if_splits)
    then show ?thesis using False b s by (auto simp: conv_yday_def)
  qed
qed

text \<open>The day of the year and the date: one case per month.\<close>

lemma month_of:
  assumes "30601 * e \<le> d * 1000" "d * 1000 < 30601 * (e + 1)"
  shows "d * 1000 div 30601 = (e :: nat)"
  using assms by (intro div_nat_eqI) simp_all

lemma conv_date_month:
  "123 \<le> d \<Longrightarrow> d \<le> 153 \<Longrightarrow> conv_date c d = (c - 4716, 3, d - 122)"
  "154 \<le> d \<Longrightarrow> d \<le> 183 \<Longrightarrow> conv_date c d = (c - 4716, 4, d - 153)"
  "184 \<le> d \<Longrightarrow> d \<le> 214 \<Longrightarrow> conv_date c d = (c - 4716, 5, d - 183)"
  "215 \<le> d \<Longrightarrow> d \<le> 244 \<Longrightarrow> conv_date c d = (c - 4716, 6, d - 214)"
  "245 \<le> d \<Longrightarrow> d \<le> 275 \<Longrightarrow> conv_date c d = (c - 4716, 7, d - 244)"
  "276 \<le> d \<Longrightarrow> d \<le> 306 \<Longrightarrow> conv_date c d = (c - 4716, 8, d - 275)"
  "307 \<le> d \<Longrightarrow> d \<le> 336 \<Longrightarrow> conv_date c d = (c - 4716, 9, d - 306)"
  "337 \<le> d \<Longrightarrow> d \<le> 367 \<Longrightarrow> conv_date c d = (c - 4716, 10, d - 336)"
  "368 \<le> d \<Longrightarrow> d \<le> 397 \<Longrightarrow> conv_date c d = (c - 4716, 11, d - 367)"
  "398 \<le> d \<Longrightarrow> d \<le> 428 \<Longrightarrow> conv_date c d = (c - 4716, 12, d - 397)"
  "429 \<le> d \<Longrightarrow> d \<le> 459 \<Longrightarrow> conv_date c d = (c - 4715, 1, d - 428)"
  "460 \<le> d \<Longrightarrow> d \<le> 488 \<Longrightarrow> conv_date c d = (c - 4715, 2, d - 459)"
  using month_of [of 4 d] month_of [of 5 d] month_of [of 6 d] month_of [of 7 d] month_of [of 8 d]
    month_of [of 9 d] month_of [of 10 d] month_of [of 11 d] month_of [of 12 d] month_of [of 13 d]
    month_of [of 14 d] month_of [of 15 d]
  by (simp_all add: conv_date_def)

lemma conv_date_next_month:
  assumes "4716 \<le> c"
  shows
    "123 \<le> d \<Longrightarrow> d \<le> 153 \<Longrightarrow> conv_date c (d + 1) = next_day (conv_date c d)" and
    "154 \<le> d \<Longrightarrow> d \<le> 183 \<Longrightarrow> conv_date c (d + 1) = next_day (conv_date c d)" and
    "184 \<le> d \<Longrightarrow> d \<le> 214 \<Longrightarrow> conv_date c (d + 1) = next_day (conv_date c d)" and
    "215 \<le> d \<Longrightarrow> d \<le> 244 \<Longrightarrow> conv_date c (d + 1) = next_day (conv_date c d)" and
    "245 \<le> d \<Longrightarrow> d \<le> 275 \<Longrightarrow> conv_date c (d + 1) = next_day (conv_date c d)" and
    "276 \<le> d \<Longrightarrow> d \<le> 306 \<Longrightarrow> conv_date c (d + 1) = next_day (conv_date c d)" and
    "307 \<le> d \<Longrightarrow> d \<le> 336 \<Longrightarrow> conv_date c (d + 1) = next_day (conv_date c d)" and
    "337 \<le> d \<Longrightarrow> d \<le> 367 \<Longrightarrow> conv_date c (d + 1) = next_day (conv_date c d)" and
    "368 \<le> d \<Longrightarrow> d \<le> 397 \<Longrightarrow> conv_date c (d + 1) = next_day (conv_date c d)" and
    "398 \<le> d \<Longrightarrow> d \<le> 428 \<Longrightarrow> conv_date c (d + 1) = next_day (conv_date c d)" and
    "429 \<le> d \<Longrightarrow> d \<le> 459 \<Longrightarrow> conv_date c (d + 1) = next_day (conv_date c d)" and
    "460 \<le> d \<Longrightarrow> d \<le> 486 \<Longrightarrow> conv_date c (d + 1) = next_day (conv_date c d)"
  subgoal using assms by (cases "d = 153") (auto simp: conv_date_month month_days_def)
  subgoal using assms by (cases "d = 183") (auto simp: conv_date_month month_days_def)
  subgoal using assms by (cases "d = 214") (auto simp: conv_date_month month_days_def)
  subgoal using assms by (cases "d = 244") (auto simp: conv_date_month month_days_def)
  subgoal using assms by (cases "d = 275") (auto simp: conv_date_month month_days_def)
  subgoal using assms by (cases "d = 306") (auto simp: conv_date_month month_days_def)
  subgoal using assms by (cases "d = 336") (auto simp: conv_date_month month_days_def)
  subgoal using assms by (cases "d = 367") (auto simp: conv_date_month month_days_def)
  subgoal using assms by (cases "d = 397") (auto simp: conv_date_month month_days_def)
  subgoal using assms by (cases "d = 428") (auto simp: conv_date_month month_days_def)
  subgoal using assms by (cases "d = 459") (auto simp: conv_date_month month_days_def)
  subgoal using assms by (cases "d = 486") (auto simp: conv_date_month month_days_def)
  done

lemma conv_date_next:
  assumes d: "123 \<le> d" "d < 487" and c: "4716 \<le> c"
  shows "conv_date c (d + 1) = next_day (conv_date c d)"
proof (rule ccontr)
  assume n: "\<not> ?thesis"
  have m1: "153 < d" using n conv_date_next_month(1) [OF c, of d] d(1) by linarith
  have m2: "183 < d" using n conv_date_next_month(2) [OF c, of d] m1 by linarith
  have m3: "214 < d" using n conv_date_next_month(3) [OF c, of d] m2 by linarith
  have m4: "244 < d" using n conv_date_next_month(4) [OF c, of d] m3 by linarith
  have m5: "275 < d" using n conv_date_next_month(5) [OF c, of d] m4 by linarith
  have m6: "306 < d" using n conv_date_next_month(6) [OF c, of d] m5 by linarith
  have m7: "336 < d" using n conv_date_next_month(7) [OF c, of d] m6 by linarith
  have m8: "367 < d" using n conv_date_next_month(8) [OF c, of d] m7 by linarith
  have m9: "397 < d" using n conv_date_next_month(9) [OF c, of d] m8 by linarith
  have m10: "428 < d" using n conv_date_next_month(10) [OF c, of d] m9 by linarith
  have m11: "459 < d" using n conv_date_next_month(11) [OF c, of d] m10 by linarith
  have m12: "486 < d" using n conv_date_next_month(12) [OF c, of d] m11 by linarith
  then show False using d(2) by simp
qed

lemma conv_date_feb28: "conv_date c 487 = (c - 4715, 2, 28)" "conv_date c 488 = (c - 4715, 2, 29)"
  "conv_date c 123 = (c - 4716, 3, 1)"
  by (simp_all add: conv_date_month)

text \<open>The correction of the day number for the centuries.\<close>

lemma conv_b_eq:
  "t < 47541 \<Longrightarrow> conv_b t = t + 2442125"
  "47541 \<le> t \<Longrightarrow> t < 84065 \<Longrightarrow> conv_b t = t + 2442126"
proof -
  assume t: "t < 47541"
  show "conv_b t = t + 2442125"
  proof (cases "t < 11017")
    case True
    then have "(4 * t + 102032) div 146097 = 0" by simp
    then show ?thesis by (simp add: conv_b_def)
  next
    case False
    then have "(4 * t + 102032) div 146097 = 1" using t by (intro div_nat_eqI) simp_all
    then show ?thesis by (simp add: conv_b_def)
  qed
next
  assume "47541 \<le> t" "t < 84065"
  then have "(4 * t + 102032) div 146097 = 2" by (intro div_nat_eqI) simp_all
  then show "conv_b t = t + 2442126" by (simp add: conv_b_def)
qed

definition conv_civil :: "nat \<Rightarrow> nat \<times> nat \<times> nat" where
  "conv_civil t = conv_date (conv_year (conv_b t)) (conv_yday (conv_b t))"

lemma leap_range: "1970 \<le> y \<Longrightarrow> y \<le> 2110 \<Longrightarrow> leap y \<longleftrightarrow> 4 dvd y \<and> y \<noteq> 2100"
proof -
  assume y: "1970 \<le> y" "y \<le> 2110"
  have "100 dvd y \<longleftrightarrow> y = 2000 \<or> y = 2100"
  proof
    assume "100 dvd y"
    then obtain z where z: "y = 100 * z" ..
    then have "z = 20 \<or> z = 21" using y by auto
    then show "y = 2000 \<or> y = 2100" using z by auto
  qed auto
  then show ?thesis by (auto simp: leap_def)
qed

lemma conv_b_range: "t \<le> 49710 \<Longrightarrow> 2442125 \<le> conv_b t \<and> conv_b t \<le> 2491836"
  using conv_b_eq(1) [of t] conv_b_eq(2) [of t] by (cases "t < 47541") auto

lemma conv_year_range:
  assumes "t \<le> 49710"
  shows "6685 \<le> conv_year (conv_b t) \<and> conv_year (conv_b t) \<le> 6825"
proof -
  let ?b = "conv_b t" and ?c = "conv_year (conv_b t)"
  have b: "123 \<le> ?b" "2442125 \<le> ?b" "?b \<le> 2491836" using conv_b_range [OF assms] by auto
  note bd = conv_year_bounds [OF b(1) refl]
  have "?c div 4 \<le> ?c" by simp
  then have "?c \<ge> 6660" using bd(2) b(2) by (auto split: if_splits)
  then have "?c div 4 \<ge> 1665" by simp
  then have "?c \<le> 6830" using bd(1) b(3) by linarith
  then have "?c div 4 \<le> 1707" by simp
  then have "?c \<ge> 6685" using bd(2) b(2) by (auto split: if_splits)
  moreover have "?c \<le> 6825" using bd(1) b(3) \<open>?c div 4 \<ge> 1665\<close> by linarith
  ultimately show ?thesis by blast
qed

lemma conv_yday_bounds:
  assumes "123 \<le> b"
  shows "123 \<le> conv_yday b" "conv_yday b \<le> 488" "conv_yday b = 488 \<Longrightarrow> conv_year b mod 4 = 3"
    and "b = 365 * conv_year b + conv_year b div 4 + conv_yday b"
  using conv_year_bounds [OF assms refl] by (auto simp: conv_yday_def split: if_splits)

lemma conv_step:
  assumes t: "Suc t \<le> 49710" "Suc t \<noteq> 47541"
  shows "conv_civil (Suc t) = next_day (conv_civil t)"
proof -
  let ?b = "conv_b t" and ?c = "conv_year (conv_b t)" and ?d = "conv_yday (conv_b t)"
  have b': "conv_b (Suc t) = ?b + 1"
    using conv_b_eq(1) [of t] conv_b_eq(1) [of "Suc t"] conv_b_eq(2) [of t] conv_b_eq(2) [of "Suc t"] t
    by (cases "t < 47541") auto
  have b: "123 \<le> ?b" using conv_b_range [of t] t by simp
  have c: "6685 \<le> ?c" "?c \<le> 6825" using conv_year_range [of t] t by auto
  note d = conv_yday_bounds [OF b] and nx = conv_next [OF b]
  have b2100: "?c - 4715 \<noteq> 2100" if "?d = 487"
  proof
    assume "?c - 4715 = 2100"
    then have "?c = 6815" using c by simp
    then have "?b = 2489665" using d(4) that by simp
    then show False using conv_b_eq(1) [of t] conv_b_eq(2) [of t] t by (cases "t < 47541") auto
  qed
  have dv: "4 dvd ?c - 4715 \<longleftrightarrow> ?c mod 4 = 3" using c by presburger
  consider "?d < 487" | "?d = 487" "?c mod 4 = 3" | "?d = 487" "?c mod 4 \<noteq> 3" | "?d = 488"
    using d(2) by linarith
  then show ?thesis
  proof cases
    case 1
    then have "conv_year (?b + 1) = ?c" "conv_yday (?b + 1) = ?d + 1"
      using nx by (auto split: if_splits)
    then show ?thesis using conv_date_next [of ?d ?c] 1 d(1) c b' by (simp add: conv_civil_def)
  next
    case 2
    then have "conv_year (?b + 1) = ?c" "conv_yday (?b + 1) = 488"
      using nx by (auto split: if_splits)
    moreover have "leap (?c - 4715)" using leap_range [of "?c - 4715"] c dv 2 b2100 by auto
    ultimately show ?thesis using 2 b' by (simp add: conv_civil_def conv_date_feb28 month_days_def)
  next
    case 3
    then have "conv_year (?b + 1) = ?c + 1" "conv_yday (?b + 1) = 123"
      using nx by (auto split: if_splits)
    moreover have "\<not> leap (?c - 4715)" using leap_range [of "?c - 4715"] c dv 3 by auto
    ultimately show ?thesis using 3 b' c by (simp add: conv_civil_def conv_date_feb28 month_days_def)
  next
    case 4
    then have "conv_year (?b + 1) = ?c + 1" "conv_yday (?b + 1) = 123"
      using nx d(3) by (auto split: if_splits)
    then show ?thesis using 4 b' c by (simp add: conv_civil_def conv_date_feb28 month_days_def)
  qed
qed

lemma conv_civil_eq: "t \<le> 49710 \<Longrightarrow> conv_civil t = civil t"
proof (induction t)
  case 0
  show ?case by (simp add: conv_civil_def conv_b_def conv_year_def conv_yday_def conv_date_def)
next
  case (Suc t)
  show ?case
  proof (cases "Suc t = 47541")
    case True
    then have t: "t = 47540" by simp
    have "conv_civil (Suc t) = next_day (conv_civil t)"
      unfolding t by (simp add: conv_civil_def conv_b_def conv_year_def conv_yday_def conv_date_def
          month_days_def leap_def)
    then show ?thesis using Suc by simp
  next
    case False
    then show ?thesis using Suc conv_step [of t] by simp
  qed
qed

lemma civil_valid:
  "case civil n of (y, m, d) \<Rightarrow> 1970 \<le> y \<and> y \<le> 1970 + n \<and> 1 \<le> m \<and> m \<le> 12 \<and> 1 \<le> d \<and> d \<le> month_days y m"
proof (induction n)
  case (Suc n)
  then show ?case by (cases "civil n") (auto simp: month_days_def)
qed (simp add: month_days_def)

section \<open>The code on words\<close>

lemma unat_of_nat_u32: "x < 2 ^ 32 \<Longrightarrow> unat (of_nat x :: u32) = x"
  by (simp add: unsigned_of_nat take_bit_nat_eq_self)

lemma of_nat_div_u32:
  assumes "x < 2 ^ 32" "y < 2 ^ 32"
  shows "(of_nat x :: u32) div of_nat y = of_nat (x div y)"
proof -
  have "unat ((of_nat x :: u32) div of_nat y) = x div y"
    using assms by (simp only: unat_div_distrib unat_of_nat_u32)
  moreover have "x div y < 2 ^ 32" using assms(1) div_le_dividend le_less_trans by blast
  then have "unat (of_nat (x div y) :: u32) = x div y" by (rule unat_of_nat_u32)
  ultimately show ?thesis by (simp only: word_unat_eq_iff)
qed

lemma of_nat_mod_u32:
  assumes "x < 2 ^ 32" "y < 2 ^ 32"
  shows "(of_nat x :: u32) mod of_nat y = of_nat (x mod y)"
proof -
  have "unat ((of_nat x :: u32) mod of_nat y) = x mod y"
    using assms by (simp only: unat_mod_distrib unat_of_nat_u32)
  moreover have "x mod y < 2 ^ 32" using assms(1) mod_less_eq_dividend le_less_trans by blast
  then have "unat (of_nat (x mod y) :: u32) = x mod y" by (rule unat_of_nat_u32)
  ultimately show ?thesis by (simp only: word_unat_eq_iff)
qed

lemma from_unixtime_nat:
  assumes "T < 2 ^ 32"
  shows "datetime_from_unixtime (of_nat T) =
    (case conv_civil (T div 86400) of (y, m, d) \<Rightarrow>
      \<lparr>dt_year = of_nat y, dt_mon = of_nat m, dt_mday = of_nat d, dt_hour = of_nat (T div 3600 mod 24),
       dt_min = of_nat (T div 60 mod 60), dt_sec = of_nat (T mod 60)\<rparr>)"
proof -
  let ?t = "T div 86400"
  define b c d e where "b = conv_b ?t" and "c = conv_year b" and "d = conv_yday b" and "e = d * 1000 div 30601"
  let ?a = "(4 * ?t + 102032) div 146097 + 15"
  have t: "?t \<le> 49710" using assms by simp
  have bb: "2442125 \<le> b" "b \<le> 2491836" using conv_b_range [OF t] by (auto simp: b_def)
  have cb: "6685 \<le> c" "c \<le> 6825" using conv_year_range [OF t] by (auto simp: b_def c_def)
  have db: "123 \<le> d" "d \<le> 488" "b = 365 * c + c div 4 + d"
    using conv_yday_bounds [of b] bb by (auto simp: c_def d_def)
  have eb: "4 \<le> e" "e \<le> 15" using db by (auto simp: e_def less_eq_div_iff_mult_less_eq)
  have fb: "e * 30 + e * 601 div 1000 \<le> d"
  proof -
    have "30601 * e \<le> 1000 * d" by (simp add: e_def)
    moreover have "1000 * (e * 601 div 1000) \<le> e * 601" by simp
    ultimately show ?thesis by linarith
  qed
  have sm: "(of_nat x :: u32) div numeral k = of_nat (x div numeral k)"
      "(of_nat x :: u32) mod numeral k = of_nat (x mod numeral k)"
    if "x < 2 ^ 32" "(numeral k :: nat) < 2 ^ 32" for x k
    using of_nat_div_u32 [OF that] of_nat_mod_u32 [OF that] by simp_all
  have tt: "(of_nat T :: u32) div 60 = of_nat (T div 60)" "(of_nat (T div 60) :: u32) div 60 = of_nat (T div 3600)"
    "(of_nat (T div 3600) :: u32) div 24 = of_nat ?t" "(of_nat T :: u32) mod 60 = of_nat (T mod 60)"
    "(of_nat (T div 60) :: u32) mod 60 = of_nat (T div 60 mod 60)"
    "(of_nat (T div 3600) :: u32) mod 24 = of_nat (T div 3600 mod 24)"
    using assms sm by (simp_all add: div_mult2_eq [symmetric])
  have a: "(4 * of_nat ?t + 102032) div 146097 + 15 = (of_nat ?a :: u32)"
  proof -
    have "4 * of_nat ?t + 102032 = (of_nat (4 * ?t + 102032) :: u32)" by simp
    moreover have "(of_nat (4 * ?t + 102032) :: u32) div 146097 = of_nat ((4 * ?t + 102032) div 146097)"
      using t by (intro sm) auto
    ultimately show ?thesis by simp
  qed
  have ab: "?a \<le> 20" using t by (simp add: less_mult_imp_div_less div_le_mono)
  have b: "of_nat ?t + 2442113 + of_nat ?a - of_nat ?a div 4 = (of_nat b :: u32)"
  proof -
    define a where "a = ?a"
    have "(of_nat a :: u32) div 4 = of_nat (a div 4)" using ab by (intro sm) (auto simp: a_def)
    moreover have "a div 4 \<le> ?t + 2442113 + a" by linarith
    then have "(of_nat (?t + 2442113 + a - a div 4) :: u32) = of_nat (?t + 2442113 + a) - of_nat (a div 4)"
      by (rule of_nat_diff)
    moreover have "b = ?t + 2442113 + a - a div 4" by (simp add: b_def conv_b_def a_def)
    ultimately show ?thesis unfolding a_def [symmetric] by simp
  qed
  have c: "(20 * of_nat b - 2442) div 7305 = (of_nat c :: u32)"
  proof -
    have "(of_nat (20 * b - 2442) :: u32) = of_nat (20 * b) - of_nat 2442"
      using bb by (intro of_nat_diff) simp
    moreover have "(of_nat (20 * b - 2442) :: u32) div 7305 = of_nat c"
      using bb unfolding c_def conv_year_def by (intro sm) auto
    ultimately show ?thesis by simp
  qed
  have d: "of_nat b - 365 * of_nat c - of_nat c div 4 = (of_nat d :: u32)"
  proof -
    have "(of_nat c :: u32) div 4 = of_nat (c div 4)" using cb by (intro sm) auto
    moreover have "(of_nat b :: u32) = 365 * of_nat c + of_nat (c div 4) + of_nat d"
      using arg_cong [OF db(3), of "of_nat :: nat \<Rightarrow> u32"] by simp
    ultimately show ?thesis by simp
  qed
  have e: "of_nat d * 1000 div 30601 = (of_nat e :: u32)"
  proof -
    have "(of_nat (d * 1000) :: u32) div 30601 = of_nat e" unfolding e_def using db by (intro sm) auto
    then show ?thesis by simp
  qed
  have f: "of_nat d - of_nat e * 30 - of_nat e * 601 div 1000 = (of_nat (d - e * 30 - e * 601 div 1000) :: u32)"
  proof -
    have "(of_nat (e * 601) :: u32) div 1000 = of_nat (e * 601 div 1000)" using eb by (intro sm) auto
    moreover have "d = e * 30 + e * 601 div 1000 + (d - e * 30 - e * 601 div 1000)" using fb by simp
    from arg_cong [OF this, of "of_nat :: nat \<Rightarrow> u32"]
    have "(of_nat d :: u32) = of_nat e * 30 + of_nat (e * 601 div 1000) + of_nat (d - e * 30 - e * 601 div 1000)"
      by (simp only: of_nat_add of_nat_mult of_nat_numeral)
    ultimately show ?thesis by (simp del: of_nat_diff)
  qed
  let ?f = "d - e * 30 - e * 601 div 1000"
  have le: "(of_nat e :: u32) \<le> 13 \<longleftrightarrow> e \<le> 13"
    using eb by (simp add: word_le_nat_alt unat_of_nat_u32)
  have uc: "(ucast (of_nat x :: u32) :: u8) = of_nat x" "(ucast (of_nat x :: u32) :: u16) = of_nat x" for x
    by (auto intro!: bit_word_eqI simp: bit_simps)
  have y: "(of_nat c :: u32) - 4716 = of_nat (c - 4716)" "(of_nat c :: u32) - 4715 = of_nat (c - 4715)"
    "(of_nat e :: u32) - 1 = of_nat (e - 1)" "e > 13 \<Longrightarrow> (of_nat e :: u32) - 13 = of_nat (e - 13)"
    using cb eb by (simp_all add: of_nat_diff)
  have cc: "conv_civil ?t = (if e \<le> 13 then (c - 4716, e - 1, ?f) else (c - 4715, e - 13, ?f))"
    by (simp add: conv_civil_def conv_date_def Let_def e_def d_def c_def b_def)
  show ?thesis
    unfolding datetime_from_unixtime_def Let_def tt a b c d e f le cc
    using y by (cases "e \<le> 13") (simp_all add: uc del: of_nat_diff)
qed

lemma unat_of_nat_u8: "x < 256 \<Longrightarrow> unat (of_nat x :: u8) = x"
  and unat_of_nat_u16: "x < 65536 \<Longrightarrow> unat (of_nat x :: u16) = x"
  by (simp_all add: unsigned_of_nat take_bit_nat_eq_self)

lemma civil_fields:
  assumes "n \<le> 49710" "civil n = (y, m, d)"
  shows "unat (of_nat y :: u16) = y" "unat (of_nat m :: u8) = m" "unat (of_nat d :: u8) = d"
proof -
  have "y \<le> 1970 + n" "m \<le> 12" "d \<le> month_days y m" using civil_valid [of n] assms(2) by auto
  moreover have "month_days y m \<le> 31" by (simp add: month_days_def)
  ultimately show "unat (of_nat y :: u16) = y" "unat (of_nat m :: u8) = m" "unat (of_nat d :: u8) = d"
    using assms(1) by (simp_all add: unat_of_nat_u8 unat_of_nat_u16)
qed

lemma mod_mult_div: "0 < a \<Longrightarrow> x mod (a * b) div a = x div a mod b" for x :: nat
  by (simp add: mod_mult2_eq)

lemma datetime_civil_fields:
  "let dt = datetime_from_unixtime t; T = unat t in
     (unat (dt_year dt), unat (dt_mon dt), unat (dt_mday dt)) = civil (T div 86400) \<and>
     unat (dt_hour dt) = T mod 86400 div 3600 \<and> unat (dt_min dt) = T mod 3600 div 60 \<and>
     unat (dt_sec dt) = T mod 60"
proof -
  define T where "T = unat t"
  have T: "T < 2 ^ 32" "t = of_nat T" using unsigned_less [of t] by (simp_all add: T_def)
  have n: "T div 86400 \<le> 49710" using T by simp
  obtain y m d where c: "civil (T div 86400) = (y, m, d)" by (cases "civil (T div 86400)") auto
  have "T div 3600 mod 24 = T mod 86400 div 3600" "T div 60 mod 60 = T mod 3600 div 60"
    using mod_mult_div [of 3600 T 24] mod_mult_div [of 60 T 60] by simp_all
  moreover have "T mod 86400 div 3600 < 24" "T mod 3600 div 60 < 60" by (simp_all add: less_mult_imp_div_less)
  moreover have "unat (of_nat (T mod 60) :: u8) = T mod 60"
    by (rule unat_of_nat_u8, rule less_trans [of _ 60]) simp_all
  ultimately show ?thesis
    unfolding T(2) from_unixtime_nat [OF T(1)] conv_civil_eq [OF n] c
    using civil_fields [OF n c] T(1) c by (simp add: Let_def unat_of_nat_u8 unat_of_nat_u32)
qed

text \<open>C15. For every 32-bit UNIX time, up to the year 2106 and across the leap day that 2100 does
  not have, the conversion gives the civil date of that day and the time of day.\<close>

theorem datetime_from_unixtime_civil:
  "let dt = datetime_from_unixtime t; T = unat t in
     (unat (dt_year dt), unat (dt_mon dt), unat (dt_mday dt)) = civil (T div 86400) \<and>
     unat (dt_hour dt) = T mod 86400 div 3600 \<and> unat (dt_min dt) = T mod 3600 div 60 \<and>
     unat (dt_sec dt) = T mod 60"
  by (rule datetime_civil_fields)

section \<open>The day of the week\<close>

definition zeller_year :: "int \<Rightarrow> int" where
  "zeller_year y = y mod 100 + y mod 100 div 4 + y div 100 div 4 + 5 * (y div 100)"

definition zeller :: "nat \<times> nat \<times> nat \<Rightarrow> int" where
  "zeller x = (case x of (y, m, d) \<Rightarrow>
     int d + 13 * ((if m < 3 then int m + 12 else int m) + 1) div 5 +
     zeller_year (if m < 3 then int y - 1 else int y))"

lemma zeller_year_step:
  assumes "1 \<le> y"
  shows "zeller_year (int y) mod 7 = (zeller_year (int y - 1) + (if leap y then 2 else 1)) mod 7"
proof -
  define k j where "k = int y mod 100" and "j = int y div 100"
  have y: "int y = 100 * j + k" "0 \<le> k" "k < 100" by (simp_all add: k_def j_def)
  have dv: "4 dvd y \<longleftrightarrow> 4 dvd int y" "100 dvd y \<longleftrightarrow> 100 dvd int y" "400 dvd y \<longleftrightarrow> 400 dvd int y"
    by (simp_all flip: int_dvd_int_iff)
  show ?thesis
  proof (cases "k = 0")
    case False
    have "int y - 1 = (k - 1) + 100 * j" using y(1) by simp
    then have s: "(int y - 1) mod 100 = k - 1" "(int y - 1) div 100 = j"
      using y(2,3) False by (simp_all only: mod_mult_self2 div_mult_self2) simp_all
    have "\<not> 100 dvd int y" using False by (simp add: k_def mod_eq_0_iff_dvd)
    moreover have "4 dvd int y \<longleftrightarrow> 4 dvd k" unfolding y(1) by (rule dvd_add_right_iff) simp
    ultimately have l: "leap y \<longleftrightarrow> 4 dvd k" unfolding leap_def dv by simp
    have "k div 4 = (k - 1) div 4 + (if 4 dvd k then 1 else 0)" using y(2) by presburger
    then show ?thesis unfolding zeller_year_def s l k_def [symmetric] j_def [symmetric]
      by (simp add: algebra_simps)
  next
    case True
    have "int y - 1 = 99 + 100 * (j - 1)" using y(1) True by simp
    then have s: "(int y - 1) mod 100 = 99" "(int y - 1) div 100 = j - 1"
      by (simp_all only: mod_mult_self2 div_mult_self2) simp_all
    have "4 dvd 100 * j" "100 dvd 100 * j" "400 dvd 100 * j \<longleftrightarrow> 4 dvd j" by simp_all presburger
    then have l: "leap y \<longleftrightarrow> 4 dvd j" unfolding leap_def dv using y(1) True by simp
    have "j div 4 = (j - 1) div 4 + (if 4 dvd j then 1 else 0)" by presburger
    then have "99 + 99 div 4 + (j - 1) div 4 + 5 * (j - 1) + (if 4 dvd j then 2 else 1) =
        (0 + 0 div 4 + j div 4 + 5 * j) + 7 * 17" by simp
    then show ?thesis unfolding zeller_year_def s l k_def [symmetric] j_def [symmetric] True
      by (simp only: mod_mult_self2)
  qed
qed

lemma zeller_next:
  assumes "1 \<le> y" "1 \<le> m" "m \<le> 12" "d \<le> month_days y m"
  shows "zeller (next_day (y, m, d)) mod 7 = (zeller (y, m, d) + 1) mod 7"
proof (cases "d < month_days y m")
  case True
  then show ?thesis by (simp add: zeller_def algebra_simps)
next
  case False
  then have d: "d = month_days y m" using assms(4) by simp
  show ?thesis
  proof (cases "m = 2")
    case True
    have "zeller (next_day (y, m, d)) = zeller_year (int y) + 11"
      using True d by (simp add: zeller_def)
    moreover have "zeller (y, m, d) + 1 = (zeller_year (int y - 1) + (if leap y then 2 else 1)) + 11 + 7 * 8"
      using True d by (simp add: zeller_def month_days_def)
    ultimately show ?thesis
      using mod_add_cong [OF zeller_year_step [OF assms(1)], of 11 11] by (simp only: mod_mult_self2)
  next
    case False
    then have "m = 1 \<or> m = 3 \<or> m = 4 \<or> m = 5 \<or> m = 6 \<or> m = 7 \<or> m = 8 \<or> m = 9 \<or> m = 10 \<or> m = 11 \<or> m = 12"
      using assms(2,3) by presburger
    then have "zeller (next_day (y, m, d)) + 7 * 4 = zeller (y, m, d) + 1"
      using d by (elim disjE) (simp_all add: zeller_def month_days_def)
    then show ?thesis by (metis mod_mult_self2)
  qed
qed

lemma zeller_civil: "zeller (civil n) mod 7 = (int n + 5) mod 7"
proof (induction n)
  case 0
  show ?case by (simp add: zeller_def zeller_year_def)
next
  case (Suc n)
  obtain y m d where c: "civil n = (y, m, d)" by (cases "civil n") auto
  have "zeller (civil (Suc n)) mod 7 = (zeller (civil n) + 1) mod 7"
    using zeller_next [of y m d] civil_valid [of n] c by simp
  also have "\<dots> = (int n + 5 + 1) mod 7" using Suc mod_add_cong by blast
  finally show ?case by (simp add: algebra_simps)
qed

text \<open>The day of the week of a converted UNIX time advances by one each day from Thursday,
  1 January 1970, numbering Monday 1 to Sunday 7.\<close>

theorem datetime_day_of_week_from_unixtime:
  "datetime_day_of_week (datetime_from_unixtime t) = int ((unat t div 86400 + 3) mod 7) + 1"
proof -
  let ?n = "unat t div 86400"
  let ?dt = "datetime_from_unixtime t"
  obtain y m d where c: "civil ?n = (y, m, d)" by (cases "civil ?n") auto
  have f: "unat (dt_year ?dt) = y" "unat (dt_mon ?dt) = m" "unat (dt_mday ?dt) = d"
    using datetime_civil_fields [of t] c by (simp_all add: Let_def)
  have "datetime_day_of_week ?dt = (zeller (y, m, d) mod 7 + 5) mod 7 + 1"
    unfolding datetime_day_of_week_def Let_def f zeller_def zeller_year_def
    by (cases "m < 3") (simp_all only: prod.case if_True if_False nat_int_comparison(2)
        of_nat_numeral add.assoc)
  also have "\<dots> = (int ?n + 10) mod 7 + 1" using zeller_civil [of ?n] c by (simp add: mod_simps algebra_simps)
  also have "(int ?n + 10) mod 7 = (int ?n + 3) mod 7"
    using mod_add_self2 [of "int ?n + 3" 7] by (simp add: algebra_simps)
  finally show ?thesis by (simp add: zmod_int)
qed

end
