(* ===== verification/Base64.thy ===== *)
theory Base64
  imports Mios_Prelude
begin

text \<open>
  The encoder of \<^verbatim>\<open>src/util/base64.c\<close>. The output is a buffer of bytes: a store outside it is
  \<^const>\<open>None\<close>. The code takes the size of the output but never looks at it; the theorems give
  the size it needs and show that a decoder after RFC 4648 recovers the input.
\<close>

section \<open>The encoder\<close>

definition b64tbl :: bytes where
  "b64tbl = map of_nat ([65..<91] @ [97..<123] @ [48..<58] @ [43, 47])"

definition b64_out :: "bytes \<Rightarrow> nat \<Rightarrow> u32 \<Rightarrow> bytes option" where
  "b64_out out pos i = do { c \<leftarrow> buf_rd b64tbl (unat i); buf_wr out pos c }"

fun base64_loop :: "bytes \<Rightarrow> nat \<Rightarrow> bytes \<Rightarrow> (bytes \<times> nat) option" where
  "base64_loop out pos (a # b # c # ins) = (let a = ucast a; b = ucast b; c = ucast c in do {
     out \<leftarrow> b64_out out pos (drop_bit 2 a);
     out \<leftarrow> b64_out out (pos + 1) ((push_bit 4 a OR drop_bit 4 b) AND 0x3f);
     out \<leftarrow> b64_out out (pos + 2) ((push_bit 2 b OR drop_bit 6 c) AND 0x3f);
     out \<leftarrow> b64_out out (pos + 3) (c AND 0x3f);
     base64_loop out (pos + 4) ins
   })"
| "base64_loop out pos [a, b] = (let a = ucast a; b = ucast b in do {
     out \<leftarrow> b64_out out pos (drop_bit 2 a);
     out \<leftarrow> b64_out out (pos + 1) ((push_bit 4 a OR drop_bit 4 b) AND 0x3f);
     out \<leftarrow> b64_out out (pos + 2) (push_bit 2 b AND 0x3f);
     out \<leftarrow> buf_wr out (pos + 3) 61;
     Some (out, pos + 4)
   })"
| "base64_loop out pos [a] = (let a = ucast a in do {
     out \<leftarrow> b64_out out pos (drop_bit 2 a);
     out \<leftarrow> b64_out out (pos + 1) (push_bit 4 a AND 0x3f);
     out \<leftarrow> buf_wr out (pos + 2) 61;
     out \<leftarrow> buf_wr out (pos + 3) 61;
     Some (out, pos + 4)
   })"
| "base64_loop out pos [] = Some (out, pos)"

definition base64_encode :: "bytes \<Rightarrow> bytes \<Rightarrow> bytes option" where
  "base64_encode out ins = do {
     (out, pos) \<leftarrow> base64_loop out 0 ins;
     buf_wr out pos 0
   }"

section \<open>The encoding as a string\<close>

definition b64c :: "u32 \<Rightarrow> u8" where
  "b64c i = b64tbl ! unat i"

fun b64str :: "bytes \<Rightarrow> bytes" where
  "b64str (a # b # c # ins) = (let a = ucast a; b = ucast b; c = ucast c in
     [b64c (drop_bit 2 a), b64c ((push_bit 4 a OR drop_bit 4 b) AND 0x3f),
      b64c ((push_bit 2 b OR drop_bit 6 c) AND 0x3f), b64c (c AND 0x3f)] @ b64str ins)"
| "b64str [a, b] = (let a = ucast a; b = ucast b in
     [b64c (drop_bit 2 a), b64c ((push_bit 4 a OR drop_bit 4 b) AND 0x3f), b64c (push_bit 2 b AND 0x3f), 61])"
| "b64str [a] = (let a = ucast a in [b64c (drop_bit 2 a), b64c (push_bit 4 a AND 0x3f), 61, 61])"
| "b64str [] = []"

text \<open>
  A decoder, written from the standard and not from the table of the encoder: the upper case letters
  stand for 0 to 25, the lower case letters for 26 to 51, the digits for 52 to 61, plus and slash for 62
  and 63; four characters at a time, padding only in the last group.
\<close>

definition b64_val :: "u8 \<Rightarrow> u32 option" where
  "b64_val x =
     (if of_char CHR ''A'' \<le> x \<and> x \<le> of_char CHR ''Z'' then Some (ucast x - of_char CHR ''A'')
      else if of_char CHR ''a'' \<le> x \<and> x \<le> of_char CHR ''z'' then Some (ucast x - of_char CHR ''a'' + 26)
      else if of_char CHR ''0'' \<le> x \<and> x \<le> of_char CHR ''9'' then Some (ucast x - of_char CHR ''0'' + 52)
      else if x = of_char CHR ''+'' then Some 62
      else if x = of_char CHR ''/'' then Some 63
      else None)"

fun b64_decode :: "bytes \<Rightarrow> bytes option" where
  "b64_decode [] = Some []"
| "b64_decode (p # q # r # s # cs) = do {
     a \<leftarrow> b64_val p;
     b \<leftarrow> b64_val q;
     if r = 61 \<and> s = 61 \<and> cs = [] then Some [ucast (push_bit 2 a OR drop_bit 4 b)]
     else do {
       c \<leftarrow> b64_val r;
       if s = 61 \<and> cs = [] then
         Some [ucast (push_bit 2 a OR drop_bit 4 b), ucast (push_bit 4 b OR drop_bit 2 c)]
       else do {
         d \<leftarrow> b64_val s;
         ds \<leftarrow> b64_decode cs;
         Some (ucast (push_bit 2 a OR drop_bit 4 b) # ucast (push_bit 4 b OR drop_bit 2 c) #
               ucast (push_bit 6 c OR d) # ds)
       }
     }
   }"
| "b64_decode _ = None"

lemma b64tbl_standard: "list_all (\<lambda>i. b64_val (b64tbl ! i) = Some (of_nat i)) [0..<64]"
  by code_simp

lemma b64tbl_facts: "length b64tbl = 64" "61 \<notin> set b64tbl" "0 \<notin> set b64tbl"
proof -
  have e: "b64tbl = [65,66,67,68,69,70,71,72,73,74,75,76,77,78,79,80,81,82,83,84,85,86,87,88,89,90,
    97,98,99,100,101,102,103,104,105,106,107,108,109,110,111,112,113,114,115,116,117,118,119,120,121,122,
    48,49,50,51,52,53,54,55,56,57,43,47]"
    by (simp add: b64tbl_def upt_rec)
  show "length b64tbl = 64" "61 \<notin> set b64tbl" "0 \<notin> set b64tbl"
    unfolding e by simp_all
qed

definition sextet :: "u32 \<Rightarrow> bool" where
  "sextet i \<longleftrightarrow> unat i < 64"

lemma b64c_facts:
  assumes "sextet i"
  shows "b64_val (b64c i) = Some i" "b64c i \<noteq> 61" "b64c i \<noteq> 0" "b64_out out pos i = buf_wr out pos (b64c i)"
proof -
  have i: "unat i < length b64tbl" using assms b64tbl_facts(1) by (simp add: sextet_def)
  show "b64_val (b64c i) = Some i"
    using b64tbl_standard i b64tbl_facts(1) by (fastforce simp: list_all_iff b64c_def)
  show "b64c i \<noteq> 61" "b64c i \<noteq> 0"
    using nth_mem [OF i] b64tbl_facts(2,3) by (auto simp: b64c_def)
  show "b64_out out pos i = buf_wr out pos (b64c i)"
    using i by (simp add: b64_out_def buf_rd_def b64c_def)
qed

lemma sextet_take_bit: "sextet i \<longleftrightarrow> take_bit 6 i = i"
  by (simp add: sextet_def word_unat_eq_iff unsigned_take_bit_eq take_bit_nat_eq_self_iff)

lemma and_0x3f: "x AND 0x3f = take_bit 6 (x :: u32)"
proof -
  have "(0x3f :: u32) = mask 6" by (simp add: mask_eq_exp_minus_1)
  then show ?thesis by (simp only: take_bit_eq_mask)
qed

lemma bit_u8D: "bit (a :: u8) n \<Longrightarrow> n < 8"
  using bit_imp_le_length [of a n] by simp

lemma sextets:
  "sextet (drop_bit 2 (ucast (a :: u8)))" "sextet (x AND 0x3f)"
  by (auto simp: sextet_take_bit and_0x3f bit_simps intro!: bit_word_eqI dest!: bit_u8D)

text \<open>Putting the bytes together again.\<close>

lemma join_first:
  "(ucast (push_bit 2 (drop_bit 2 (ucast a :: u32)) OR
     drop_bit 4 ((push_bit 4 (ucast a) OR drop_bit 4 (ucast b)) AND 0x3f)) :: u8) = a" for a b :: u8
proof (rule bit_word_eqI)
  fix n assume "n < LENGTH(8)"
  then have "n = 0 \<or> n = 1 \<or> n = 2 \<or> n = 3 \<or> n = 4 \<or> n = 5 \<or> n = 6 \<or> n = 7" by auto
  then show "bit (ucast (push_bit 2 (drop_bit 2 (ucast a :: u32)) OR
     drop_bit 4 ((push_bit 4 (ucast a) OR drop_bit 4 (ucast b)) AND 0x3f)) :: u8) n = bit a n"
    by (elim disjE) (auto simp: and_0x3f bit_simps dest: bit_u8D)
qed

lemma join_second:
  "(ucast (push_bit 4 ((push_bit 4 (ucast a :: u32) OR drop_bit 4 (ucast b)) AND 0x3f) OR
     drop_bit 2 ((push_bit 2 (ucast b) OR drop_bit 6 (ucast c)) AND 0x3f)) :: u8) = b" for a b c :: u8
proof (rule bit_word_eqI)
  fix n assume "n < LENGTH(8)"
  then have "n = 0 \<or> n = 1 \<or> n = 2 \<or> n = 3 \<or> n = 4 \<or> n = 5 \<or> n = 6 \<or> n = 7" by auto
  then show "bit (ucast (push_bit 4 ((push_bit 4 (ucast a :: u32) OR drop_bit 4 (ucast b)) AND 0x3f) OR
     drop_bit 2 ((push_bit 2 (ucast b) OR drop_bit 6 (ucast c)) AND 0x3f)) :: u8) n = bit b n"
    by (elim disjE) (auto simp: and_0x3f bit_simps dest: bit_u8D)
qed

lemma join_third:
  "(ucast (push_bit 6 ((push_bit 2 (ucast b :: u32) OR drop_bit 6 (ucast c)) AND 0x3f) OR
     (ucast c AND 0x3f)) :: u8) = c" for b c :: u8
proof (rule bit_word_eqI)
  fix n assume "n < LENGTH(8)"
  then have "n = 0 \<or> n = 1 \<or> n = 2 \<or> n = 3 \<or> n = 4 \<or> n = 5 \<or> n = 6 \<or> n = 7" by auto
  then show "bit (ucast (push_bit 6 ((push_bit 2 (ucast b :: u32) OR drop_bit 6 (ucast c)) AND 0x3f) OR
     (ucast c AND 0x3f)) :: u8) n = bit c n"
    by (elim disjE) (auto simp: and_0x3f bit_simps dest: bit_u8D)
qed

lemma b64_decode_str: "b64_decode (b64str ins) = Some ins"
proof (induction ins rule: b64str.induct)
  case (1 a b c ins)
  then show ?case
    using join_first [of a b] join_second [of a b c] join_third [of b c]
    by (simp add: Let_def b64c_facts sextets)
next
  case (2 a b)
  show ?case
    using join_first [of a b] join_second [of a b 0] by (simp add: Let_def b64c_facts sextets)
next
  case (3 a)
  show ?case using join_first [of a 0] by (simp add: Let_def b64c_facts sextets)
qed simp

lemma buf_wr_some: "i < length b \<Longrightarrow> buf_wr b i x = Some (b[i := x])"
  by (simp add: buf_wr_def)

lemma length_b64str: "length (b64str ins) = 4 * ((length ins + 2) div 3)"
proof (induction ins rule: b64str.induct)
  case (1 a b c ins)
  have "(length (a # b # c # ins) + 2) div 3 = (length ins + 2) div 3 + 1"
    using div_add_self2 [of 3 "length ins + 2"] by simp
  then show ?case using 1 by (simp add: Let_def)
qed (simp_all add: Let_def)

lemma four_writes:
  assumes "pos + 4 \<le> length out"
  shows "out[pos := a, pos + 1 := b, pos + 2 := c, pos + 3 := d] = take pos out @ [a, b, c, d] @ drop (pos + 4) out"
proof -
  obtain xs ys where out: "out = xs @ ys" "length xs = pos" "4 \<le> length ys"
    using assms by (intro that [of "take pos out" "drop pos out"]) auto
  then obtain p q r s zs where "ys = p # q # r # s # zs"
    by (auto simp: numeral_eq_Suc Suc_le_length_iff)
  then show ?thesis using out by (simp add: list_update_append)
qed

lemma four_writes_Suc:
  "Suc (Suc (Suc (Suc pos))) \<le> length out \<Longrightarrow>
   out[pos := a, Suc pos := b, Suc (Suc pos) := c, pos + 3 := d] =
   take pos out @ a # b # c # d # drop (Suc (Suc (Suc (Suc pos)))) out"
  using four_writes [of pos out a b c d] by (simp add: eval_nat_numeral)

lemma base64_loop_str:
  assumes "pos + length (b64str ins) \<le> length out"
  shows "base64_loop out pos ins =
    Some (take pos out @ b64str ins @ drop (pos + length (b64str ins)) out, pos + length (b64str ins))"
  using assms
proof (induction ins arbitrary: out pos rule: b64str.induct)
  case (1 a b c ins)
  define Q where "Q = b64str [a, b, c]"
  let ?out = "take pos out @ Q @ drop (pos + 4) out"
  have q: "b64str (a # b # c # ins) = Q @ b64str ins" "length Q = 4" by (simp_all add: Q_def Let_def)
  have l: "pos + 4 + length (b64str ins) \<le> length out" using "1.prems" by (simp add: Let_def)
  have "base64_loop out pos (a # b # c # ins) = base64_loop ?out (pos + 4) ins"
    using l four_writes [of pos out] by (simp add: Q_def Let_def b64c_facts sextets buf_wr_some)
  also have "\<dots> = Some (take (pos + 4) ?out @ b64str ins @ drop (pos + 4 + length (b64str ins)) ?out,
      pos + 4 + length (b64str ins))"
    using l q(2) by (intro "1.IH") auto
  also have "take (pos + 4) ?out = take pos out @ Q" using l q(2) by simp
  also have "drop (pos + 4 + length (b64str ins)) ?out = drop (pos + 4 + length (b64str ins)) out"
    using l q(2) by (simp add: ac_simps)
  finally show ?case unfolding q(1) length_append q(2) by (simp only: append_assoc add.assoc)
qed (simp_all add: Let_def b64c_facts sextets buf_wr_some four_writes_Suc)

lemma b64str_no_nul: "0 \<notin> set (b64str ins)"
  by (induction ins rule: b64str.induct)
    (simp_all add: Let_def b64c_facts(3) [OF sextets(1), symmetric] b64c_facts(3) [OF sextets(2), symmetric])

lemma b64_out_length: "b64_out out pos i = Some out' \<Longrightarrow> length out' = length out"
  by (auto simp: b64_out_def split: bind_splits dest: buf_wr_length)

lemma base64_loop_pos:
  "base64_loop out pos ins = Some (out', p) \<Longrightarrow> p = pos + length (b64str ins) \<and> length out' = length out"
proof (induction ins arbitrary: out pos rule: b64str.induct)
  case (1 a b c ins)
  obtain o1 o2 o3 o4 where "b64_out out pos (drop_bit 2 (ucast a)) = Some o1"
    "b64_out o1 (pos + 1) ((push_bit 4 (ucast a) OR drop_bit 4 (ucast b)) AND 0x3f) = Some o2"
    "b64_out o2 (pos + 2) ((push_bit 2 (ucast b) OR drop_bit 6 (ucast c)) AND 0x3f) = Some o3"
    "b64_out o3 (pos + 3) (ucast c AND 0x3f) = Some o4" "base64_loop o4 (pos + 4) ins = Some (out', p)"
    using "1.prems" by (auto simp: Let_def split: bind_splits)
  then show ?case using "1.IH" [OF refl refl refl, of o4 "pos + 4"] by (auto simp: Let_def dest!: b64_out_length)
qed (auto simp: Let_def split: bind_splits dest!: b64_out_length buf_wr_length)

text \<open>C29. The encoder stores the padded encoding of its input followed by a terminator,
  four characters for every three bytes begun: a decoder for the alphabet of RFC 4648 (A-Z, a-z, 0-9, plus, slash),
  which does not know the table of the encoder, gives the input back.
  It stays inside the output buffer exactly when that holds these characters.\<close>

theorem base64_encode_roundtrip:
  "if 4 * ((length ins + 2) div 3) < length out
   then \<exists>s. base64_encode out ins = Some (s @ 0 # drop (length s + 1) out) \<and>
     length s = 4 * ((length ins + 2) div 3) \<and> 0 \<notin> set s \<and> b64_decode s = Some ins
   else base64_encode out ins = None"
proof (cases "4 * ((length ins + 2) div 3) < length out")
  case True
  let ?s = "b64str ins"
  have l: "length ?s < length out" using True by (simp add: length_b64str)
  then have "drop (length ?s) out = out ! length ?s # drop (length ?s + 1) out"
    by (simp add: Cons_nth_drop_Suc)
  then have "base64_encode out ins = Some (?s @ 0 # drop (length ?s + 1) out)"
    using l base64_loop_str [of 0 ins out] by (simp add: base64_encode_def buf_wr_def list_update_append)
  then have "\<exists>s. base64_encode out ins = Some (s @ 0 # drop (length s + 1) out) \<and>
      length s = 4 * ((length ins + 2) div 3) \<and> 0 \<notin> set s \<and> b64_decode s = Some ins"
    using b64_decode_str length_b64str b64str_no_nul by (intro exI [of _ ?s]) auto
  then show ?thesis using True by simp
next
  case False
  then show ?thesis
    using base64_loop_pos [of out 0 ins]
    by (auto simp: base64_encode_def buf_wr_def length_b64str split: bind_splits)
qed

end
