(* ===== verification/Pbuf.thy ===== *)
theory Pbuf
  imports Mios_Prelude
begin

text \<open>
  The packet buffers of \<^verbatim>\<open>src/net/pbuf.c\<close>. A packet is the list of its fragments, linked by
  \<^verbatim>\<open>pb_next\<close> in the code; a fragment is the record of the C structure with the address of the
  structure itself and of its data buffer, which has \<^verbatim>\<open>PBUF_DATA_SIZE\<close> bytes in the data
  memory. The two pools are lists of free addresses. A failing assertion, a panic, an access
  outside a buffer, a read through NULL and a call that waits for a buffer that never comes
  are \<^const>\<open>None\<close>. The link that a free buffer holds in its first bytes is not modelled: the
  content of a buffer is meaningless once it is free. Lengths are natural numbers; the
  16-bit field \<^verbatim>\<open>pb_pktlen\<close> wraps where the code adds to it.
\<close>

section \<open>Data\<close>

definition PBUF_DATA_SIZE :: nat where "PBUF_DATA_SIZE = 512"
definition PBUF_SOP :: u8 where "PBUF_SOP = 0x1"
definition PBUF_EOP :: u8 where "PBUF_EOP = 0x2"

record pbuf =
  pb_self :: nat
  pb_flags :: u8
  pb_credits :: u8
  pb_pktlen :: nat
  pb_offset :: nat
  pb_buflen :: nat
  pb_data :: nat

record pbuf_pool =
  pp_items :: "nat list"
  pp_avail :: nat
  pp_total :: nat
  pp_wakeups :: nat

record net_bufs =
  nb_pbufs :: pbuf_pool
  nb_datas :: pbuf_pool
  nb_mem :: "nat \<Rightarrow> bytes"

text \<open>Addition to a 16-bit field.\<close>

definition add16 :: "nat \<Rightarrow> nat \<Rightarrow> nat" where
  "add16 a b = (a + b) mod 65536"

section \<open>Pools\<close>

definition pbuf_pool_put :: "nat \<Rightarrow> pbuf_pool \<Rightarrow> pbuf_pool option" where
  "pbuf_pool_put item pp =
     (if item mod 4 \<noteq> 0 then None
      else Some (pp\<lparr>pp_items := item # pp_items pp,
                    pp_wakeups := (if pp_avail pp = 0 then pp_wakeups pp + 1 else pp_wakeups pp),
                    pp_avail := pp_avail pp + 1\<rparr>))"

text \<open>
  NULL is address 0. Without waiting one item is kept in reserve; a waiting call that finds
  the pool empty sleeps until some other context puts an item back.
\<close>

definition pbuf_pool_get :: "bool \<Rightarrow> pbuf_pool \<Rightarrow> (nat \<times> pbuf_pool) option" where
  "pbuf_pool_get wait pp =
     (if \<not> wait \<and> pp_avail pp < 2 then Some (0, pp)
      else if pp_avail pp = 0 then None
      else case pp_items pp of
          [] \<Rightarrow> None
        | pi # items \<Rightarrow> Some (pi, pp\<lparr>pp_items := items, pp_avail := pp_avail pp - 1\<rparr>))"

function pbuf_pool_add_loop :: "nat \<Rightarrow> nat \<Rightarrow> nat \<Rightarrow> nat \<Rightarrow> pbuf_pool \<Rightarrow> (nat \<times> pbuf_pool) option" where
  "pbuf_pool_add_loop start endp item_size cnt pp =
     (if item_size = 0 then None
      else if start + item_size \<le> endp then do {
        pp \<leftarrow> pbuf_pool_put start pp;
        pbuf_pool_add_loop (start + item_size) endp item_size (cnt + 1) pp
      } else Some (cnt, pp))"
  by pat_completeness auto
termination
  by (relation "measure (\<lambda>(start, endp, item_size, cnt, pp). endp - start)") auto

declare pbuf_pool_add_loop.simps [simp del]

definition pbuf_pool_add :: "nat \<Rightarrow> nat \<Rightarrow> nat \<Rightarrow> pbuf_pool \<Rightarrow> (nat \<times> pbuf_pool) option" where
  "pbuf_pool_add start endp item_size pp = do {
     (cnt, pp) \<leftarrow> pbuf_pool_add_loop start endp item_size 0 pp;
     Some (cnt, pp\<lparr>pp_total := pp_total pp + cnt\<rparr>)
   }"

definition pbuf_get0 :: "bool \<Rightarrow> net_bufs \<Rightarrow> (nat \<times> net_bufs) option" where
  "pbuf_get0 wait nb = do {
     (a, pp) \<leftarrow> pbuf_pool_get wait (nb_pbufs nb);
     Some (a, nb\<lparr>nb_pbufs := pp\<rparr>)
   }"

definition pbuf_put :: "nat \<Rightarrow> net_bufs \<Rightarrow> net_bufs option" where
  "pbuf_put a nb = do { pp \<leftarrow> pbuf_pool_put a (nb_pbufs nb); Some (nb\<lparr>nb_pbufs := pp\<rparr>) }"

definition pbuf_data_get0 :: "bool \<Rightarrow> net_bufs \<Rightarrow> (nat \<times> net_bufs) option" where
  "pbuf_data_get0 wait nb = do {
     (a, pp) \<leftarrow> pbuf_pool_get wait (nb_datas nb);
     Some (a, nb\<lparr>nb_datas := pp\<rparr>)
   }"

definition pbuf_data_put :: "nat \<Rightarrow> net_bufs \<Rightarrow> net_bufs option" where
  "pbuf_data_put a nb = do { pp \<leftarrow> pbuf_pool_put a (nb_datas nb); Some (nb\<lparr>nb_datas := pp\<rparr>) }"

definition pbuf_buffer_avail :: "net_bufs \<Rightarrow> nat" where
  "pbuf_buffer_avail nb = pp_avail (nb_datas nb)"

definition pbuf_buffer_total :: "net_bufs \<Rightarrow> nat" where
  "pbuf_buffer_total nb = pp_total (nb_datas nb)"

text \<open>The pair of puts that frees one fragment.\<close>

definition pbuf_put_both :: "pbuf \<Rightarrow> net_bufs \<Rightarrow> net_bufs option" where
  "pbuf_put_both pb nb = do { nb \<leftarrow> pbuf_data_put (pb_data pb) nb; pbuf_put (pb_self pb) nb }"

fun pbuf_free_irq_blocked :: "pbuf list \<Rightarrow> net_bufs \<Rightarrow> net_bufs option" where
  "pbuf_free_irq_blocked [] nb = Some nb"
| "pbuf_free_irq_blocked (pb # next) nb = do {
     nb \<leftarrow> pbuf_put_both pb nb;
     pbuf_free_irq_blocked next nb
   }"

definition pbuf_free :: "pbuf list \<Rightarrow> net_bufs \<Rightarrow> net_bufs option" where
  "pbuf_free pb nb = pbuf_free_irq_blocked pb nb"

text \<open>\<^verbatim>\<open>pbuf_make\<close>: NULL is the empty packet.\<close>

definition pbuf_make_irq_blocked0 :: "nat \<Rightarrow> bool \<Rightarrow> net_bufs \<Rightarrow> (pbuf list \<times> net_bufs) option" where
  "pbuf_make_irq_blocked0 offset wait nb = do {
     (a, nb) \<leftarrow> pbuf_get0 wait nb;
     if a = 0 then Some ([], nb)
     else do {
       (d, nb) \<leftarrow> pbuf_data_get0 wait nb;
       if d = 0 then do { nb \<leftarrow> pbuf_put a nb; Some ([], nb) }
       else Some ([\<lparr>pb_self = a, pb_flags = PBUF_SOP OR PBUF_EOP, pb_credits = 0, pb_pktlen = 0,
                    pb_offset = offset, pb_buflen = 0, pb_data = d\<rparr>], nb)
     }
   }"

definition pbuf_make0 :: "nat \<Rightarrow> bool \<Rightarrow> net_bufs \<Rightarrow> (pbuf list \<times> net_bufs) option" where
  "pbuf_make0 offset wait nb = pbuf_make_irq_blocked0 offset wait nb"

section \<open>Queues\<close>

text \<open>
  \<^verbatim>\<open>pbuf_splice\<close>: the fragments up to the first one that ends a packet; when there is none
  the code returns the head and leaves the queue as it is.
\<close>

fun pbuf_find_eop :: "pbuf list \<Rightarrow> (pbuf list \<times> pbuf list) option" where
  "pbuf_find_eop [] = None"
| "pbuf_find_eop (pb # q) =
     (if pb_flags pb AND PBUF_EOP \<noteq> 0 then Some ([pb], q)
      else map_option (\<lambda>(a, b). (pb # a, b)) (pbuf_find_eop q))"

definition pbuf_splice :: "pbuf list \<Rightarrow> pbuf list \<times> pbuf list" where
  "pbuf_splice pq = (case pbuf_find_eop pq of None \<Rightarrow> (pq, pq) | Some (pkt, rest) \<Rightarrow> (pkt, rest))"

definition pbuf_free_queue_irq_blocked :: "pbuf list \<Rightarrow> net_bufs \<Rightarrow> net_bufs option" where
  "pbuf_free_queue_irq_blocked pq nb = pbuf_free_irq_blocked pq nb"

section \<open>Reading and dropping from the head\<close>

definition set_head_pktlen :: "nat \<Rightarrow> pbuf list \<Rightarrow> pbuf list" where
  "set_head_pktlen n pbs = (case pbs of [] \<Rightarrow> [] | pb # rest \<Rightarrow> pb\<lparr>pb_pktlen := n\<rparr> # rest)"

lemma length_set_head_pktlen [simp]: "length (set_head_pktlen n pbs) = length pbs"
  by (simp add: set_head_pktlen_def split: list.splits)

function pbuf_read_loop :: "pbuf list \<Rightarrow> nat \<Rightarrow> bytes \<Rightarrow> net_bufs \<Rightarrow> (pbuf list \<times> bytes \<times> net_bufs) option" where
  "pbuf_read_loop pbs len out nb =
     (if len = 0 then Some (pbs, out, nb)
      else case pbs of
        [] \<Rightarrow> None
      | pb # next \<Rightarrow> do {
          let to_copy = min len (pb_buflen pb);
          d \<leftarrow> buf_slice (nb_mem nb (pb_data pb)) (pb_offset pb) to_copy;
          let pb = pb\<lparr>pb_offset := pb_offset pb + to_copy, pb_buflen := pb_buflen pb - to_copy,
                      pb_pktlen := pb_pktlen pb - to_copy\<rparr>;
          if pb_buflen pb = 0 then do {
            nb \<leftarrow> pbuf_put_both pb nb;
            pbuf_read_loop (set_head_pktlen (pb_pktlen pb) next) (len - to_copy) (out @ d) nb
          } else pbuf_read_loop (pb # next) (len - to_copy) (out @ d) nb
        })"
  by pat_completeness auto
termination
  by (relation "measure (\<lambda>(pbs, len, out, nb). length pbs + len)") (auto simp: min_def split: if_splits)

declare pbuf_read_loop.simps [simp del]

definition pbuf_read :: "pbuf list \<Rightarrow> nat \<Rightarrow> net_bufs \<Rightarrow> (pbuf list \<times> bytes \<times> net_bufs) option" where
  "pbuf_read pbs len nb =
     (case pbs of [] \<Rightarrow> None
      | pb # _ \<Rightarrow> if len \<le> pb_pktlen pb then pbuf_read_loop pbs len [] nb else None)"

fun pbuf_drop_loop :: "pbuf \<Rightarrow> pbuf list \<Rightarrow> nat \<Rightarrow> bool \<Rightarrow> net_bufs \<Rightarrow> (pbuf list \<times> net_bufs) option" where
  "pbuf_drop_loop pb next bytes free_when_empty nb =
     (if bytes > pb_pktlen pb then None
      else do {
        let chunk = min bytes (pb_buflen pb);
        let pb = pb\<lparr>pb_offset := pb_offset pb + chunk, pb_buflen := pb_buflen pb - chunk,
                    pb_pktlen := pb_pktlen pb - chunk\<rparr>;
        if pb_buflen pb \<noteq> 0 then Some (pb # next, nb)
        else (case next of
            [] \<Rightarrow> if \<not> free_when_empty then Some ([pb], nb)
                  else do { nb \<leftarrow> pbuf_put_both pb nb; Some ([], nb) }
          | n # rest \<Rightarrow> do {
              let n = n\<lparr>pb_pktlen := pb_pktlen pb, pb_flags := pb_flags n OR (pb_flags pb AND PBUF_SOP)\<rparr>;
              nb \<leftarrow> pbuf_put_both pb nb;
              pbuf_drop_loop n rest (bytes - chunk) free_when_empty nb
            })
      })"

declare pbuf_drop_loop.simps [simp del]

definition pbuf_drop :: "pbuf list \<Rightarrow> nat \<Rightarrow> bool \<Rightarrow> net_bufs \<Rightarrow> (pbuf list \<times> net_bufs) option" where
  "pbuf_drop pbs bytes free_when_empty nb =
     (case pbs of [] \<Rightarrow> Some ([], nb) | pb # next \<Rightarrow> pbuf_drop_loop pb next bytes free_when_empty nb)"

section \<open>The tail\<close>

text \<open>\<^verbatim>\<open>pbuf_trim\<close> does not return when asked to trim more than the packet holds.\<close>

partial_function (option) pbuf_trim :: "pbuf list \<Rightarrow> nat \<Rightarrow> net_bufs \<Rightarrow> (pbuf list \<times> net_bufs) option" where
  "pbuf_trim pbs bytes nb =
     (if bytes = 0 then Some (pbs, nb)
      else if pbs = [] then None
      else do {
        let tail = last pbs;
        let c = min (pb_buflen tail) bytes;
        let pbs = butlast pbs @ [tail\<lparr>pb_buflen := pb_buflen tail - c\<rparr>];
        let pbs = set_head_pktlen (pb_pktlen (hd pbs) - c) pbs;
        let tail = last pbs;
        if pb_buflen tail = 0 \<and> butlast pbs \<noteq> [] then do {
          let prev = last (butlast pbs);
          let prev = prev\<lparr>pb_flags := pb_flags prev OR (pb_flags tail AND PBUF_EOP)\<rparr>;
          nb \<leftarrow> pbuf_put_both tail nb;
          pbuf_trim (butlast (butlast pbs) @ [prev]) (bytes - c) nb
        } else pbuf_trim pbs (bytes - c) nb
      })"

declare pbuf_trim.simps [code]

definition pbuf_append :: "pbuf list \<Rightarrow> nat \<Rightarrow> (nat \<times> nat \<times> pbuf list) option" where
  "pbuf_append pbs bytes =
     (if pbs = [] then None
      else let pbs = set_head_pktlen (add16 (pb_pktlen (hd pbs)) bytes) pbs; pb = last pbs in
        if pb_offset pb + pb_buflen pb + bytes \<le> PBUF_DATA_SIZE then
          Some (pb_data pb, pb_offset pb + pb_buflen pb,
                butlast pbs @ [pb\<lparr>pb_buflen := pb_buflen pb + bytes\<rparr>])
        else None)"

text \<open>\<^verbatim>\<open>pushpull_t\<close> contributes its fragment size and the preferred offset of new fragments.\<close>

definition pbuf_write_fragment :: "nat \<Rightarrow> bool \<Rightarrow> net_bufs \<Rightarrow> (pbuf list \<times> net_bufs) option" where
  "pbuf_write_fragment preferred_offset wait nb = do {
     (a, nb) \<leftarrow> pbuf_get0 wait nb;
     if a = 0 then Some ([], nb)
     else do {
       (d, nb) \<leftarrow> pbuf_data_get0 wait nb;
       if d = 0 then do { nb \<leftarrow> pbuf_put a nb; Some ([], nb) }
       else Some ([\<lparr>pb_self = a, pb_flags = PBUF_EOP, pb_credits = 0, pb_pktlen = 0,
                    pb_offset = preferred_offset, pb_buflen = 0, pb_data = d\<rparr>], nb)
     }
   }"

partial_function (option) pbuf_write_loop ::
  "pbuf list \<Rightarrow> bytes \<Rightarrow> nat \<Rightarrow> nat \<Rightarrow> bool \<Rightarrow> net_bufs \<Rightarrow> (pbuf list \<times> net_bufs) option" where
  "pbuf_write_loop pbs data max_fragment_size preferred_offset wait nb =
     (if data = [] then Some (pbs, nb)
      else do {
        let pb = last pbs;
        (pbs, ok, nb) \<leftarrow>
          (if pb_buflen pb \<ge> max_fragment_size then do {
             let pbs = butlast pbs @ [pb\<lparr>pb_flags := pb_flags pb AND NOT PBUF_EOP\<rparr>];
             (n, nb) \<leftarrow> pbuf_write_fragment preferred_offset wait nb;
             if n = [] then do { nb \<leftarrow> pbuf_free pbs nb; Some ([], False, nb) }
             else Some (pbs @ n, True, nb)
           } else Some (pbs, True, nb));
        if \<not> ok then Some ([], nb)
        else do {
          let pb = last pbs;
          let room = int max_fragment_size - int (pb_buflen pb) - int (pb_offset pb);
          let to_copy = (if room < 0 then length data else min (length data) (nat room));
          m \<leftarrow> buf_copy (nb_mem nb (pb_data pb)) (pb_offset pb + pb_buflen pb) (take to_copy data);
          let nb = nb\<lparr>nb_mem := (nb_mem nb)(pb_data pb := m)\<rparr>;
          let pbs = set_head_pktlen (add16 (pb_pktlen (hd pbs)) to_copy) pbs;
          let pb = last pbs;
          let pbs = butlast pbs @ [pb\<lparr>pb_buflen := pb_buflen pb + to_copy\<rparr>];
          pbuf_write_loop pbs (drop to_copy data) max_fragment_size preferred_offset wait nb
        }
      })"

definition pbuf_write ::
  "pbuf list \<Rightarrow> bytes \<Rightarrow> nat \<Rightarrow> nat \<Rightarrow> bool \<Rightarrow> net_bufs \<Rightarrow> (pbuf list \<times> net_bufs) option" where
  "pbuf_write head data max_fragment_size preferred_offset wait nb =
     (if head = [] then Some ([], nb)
      else pbuf_write_loop head data max_fragment_size preferred_offset wait nb)"

declare pbuf_write_loop.simps [code]

section \<open>The head\<close>

definition pbuf_prepend ::
  "pbuf list \<Rightarrow> nat \<Rightarrow> bool \<Rightarrow> nat \<Rightarrow> net_bufs \<Rightarrow> (pbuf list \<times> net_bufs) option" where
  "pbuf_prepend pbs bytes wait extra_offset nb =
     (case pbs of
        [] \<Rightarrow> None
      | pb # next \<Rightarrow>
          if bytes + extra_offset \<le> pb_offset pb then
            Some (pb\<lparr>pb_offset := pb_offset pb - bytes, pb_buflen := pb_buflen pb + bytes,
                     pb_pktlen := add16 (pb_pktlen pb) bytes\<rparr> # next, nb)
          else do {
            (pre, nb) \<leftarrow> pbuf_make0 extra_offset wait nb;
            case pre of
              [] \<Rightarrow> do { nb \<leftarrow> pbuf_free pbs nb; Some ([], nb) }
            | pre # _ \<Rightarrow>
                Some (pre\<lparr>pb_flags := PBUF_SOP, pb_pktlen := add16 (pb_pktlen pb) bytes,
                          pb_buflen := bytes\<rparr> #
                      pb\<lparr>pb_flags := pb_flags pb AND NOT PBUF_SOP, pb_pktlen := 0\<rparr> # next, nb)
          })"

fun pbuf_pullup_loop :: "pbuf \<Rightarrow> pbuf list \<Rightarrow> nat \<Rightarrow> net_bufs \<Rightarrow> (nat \<times> pbuf list \<times> net_bufs) option" where
  "pbuf_pullup_loop pb next bytes nb =
     (if bytes = 0 then Some (0, pb # next, nb)
      else case next of
        [] \<Rightarrow> Some (bytes, [pb], nb)
      | n # rest \<Rightarrow> do {
          let to_copy = min bytes (pb_buflen n);
          d \<leftarrow> buf_slice (nb_mem nb (pb_data n)) (pb_offset n) to_copy;
          m \<leftarrow> buf_copy (nb_mem nb (pb_data pb)) (pb_offset pb + pb_buflen pb) d;
          let nb = nb\<lparr>nb_mem := (nb_mem nb)(pb_data pb := m)\<rparr>;
          let pb = pb\<lparr>pb_buflen := pb_buflen pb + to_copy\<rparr>;
          let n = n\<lparr>pb_buflen := pb_buflen n - to_copy, pb_offset := pb_offset n + to_copy\<rparr>;
          if pb_buflen n = 0 then do {
            let pb = pb\<lparr>pb_flags := pb_flags pb OR (pb_flags n AND PBUF_EOP),
                        pb_credits := pb_credits pb + pb_credits n\<rparr>;
            nb \<leftarrow> pbuf_put_both n nb;
            pbuf_pullup_loop pb rest (bytes - to_copy) nb
          } else Some (0, pb # n # rest, nb)
        })"

declare pbuf_pullup_loop.simps [simp del]

text \<open>When the next fragment is not used up, nothing is missing any more. The code moves the content of the first fragment to
  the start of its buffer with \<^verbatim>\<open>memcpy\<close>, though the two places may overlap; it is taken to copy the bytes as they were.\<close>

definition pbuf_pullup :: "pbuf list \<Rightarrow> nat \<Rightarrow> net_bufs \<Rightarrow> (nat \<times> pbuf list \<times> net_bufs) option" where
  "pbuf_pullup pbs bytes nb =
     (case pbs of
        [] \<Rightarrow> None
      | pb # next \<Rightarrow>
          if pb_buflen pb \<ge> bytes then Some (0, pbs, nb)
          else do {
            (pb, nb) \<leftarrow>
              (if bytes + pb_offset pb > PBUF_DATA_SIZE then
                 if \<not> bytes \<le> PBUF_DATA_SIZE then None
                 else do {
                   d \<leftarrow> buf_slice (nb_mem nb (pb_data pb)) (pb_offset pb) (pb_buflen pb);
                   m \<leftarrow> buf_copy (nb_mem nb (pb_data pb)) 0 d;
                   Some (pb\<lparr>pb_offset := 0\<rparr>, nb\<lparr>nb_mem := (nb_mem nb)(pb_data pb := m)\<rparr>)
                 }
               else Some (pb, nb));
            pbuf_pullup_loop pb next (bytes - pb_buflen pb) nb
          })"

section \<open>Access at an offset\<close>

fun pbuf_seek :: "pbuf list \<Rightarrow> nat \<Rightarrow> (nat \<times> pbuf list) option" where
  "pbuf_seek [] offset = None"
| "pbuf_seek (pb # next) offset =
     (if offset \<ge> pb_buflen pb then pbuf_seek next (offset - pb_buflen pb) else Some (offset, pb # next))"

fun pbuf_read_at_loop :: "pbuf list \<Rightarrow> nat \<Rightarrow> nat \<Rightarrow> bytes \<Rightarrow> (nat \<Rightarrow> bytes) \<Rightarrow> (int \<times> bytes) option" where
  "pbuf_read_at_loop pbs offset len out mem =
     (if len = 0 then Some (0, out)
      else case pbs of
        [] \<Rightarrow> Some (-1, out)
      | pb # next \<Rightarrow> do {
          let to_copy = min len (pb_buflen pb);
          d \<leftarrow> buf_slice (mem (pb_data pb)) (pb_offset pb + offset) to_copy;
          pbuf_read_at_loop next 0 (len - to_copy) (out @ d) mem
        })"

declare pbuf_read_at_loop.simps [simp del]

definition pbuf_read_at :: "pbuf list \<Rightarrow> nat \<Rightarrow> nat \<Rightarrow> (nat \<Rightarrow> bytes) \<Rightarrow> (int \<times> bytes) option" where
  "pbuf_read_at pbs offset len mem =
     (case pbuf_seek pbs offset of
        None \<Rightarrow> Some (-1, [])
      | Some (offset, pbs) \<Rightarrow> pbuf_read_at_loop pbs offset len [] mem)"

fun pbuf_memcmp_loop :: "pbuf list \<Rightarrow> bytes \<Rightarrow> nat \<Rightarrow> (nat \<Rightarrow> bytes) \<Rightarrow> int option" where
  "pbuf_memcmp_loop pbs data offset mem =
     (if data = [] then Some 0
      else case pbs of
        [] \<Rightarrow> Some (-1)
      | pb # next \<Rightarrow> do {
          let to_cmp = min (length data) (pb_buflen pb);
          d \<leftarrow> buf_slice (mem (pb_data pb)) (pb_offset pb + offset) to_cmp;
          if take to_cmp data = d then pbuf_memcmp_loop next (drop to_cmp data) 0 mem
          else Some (if ord_class.lexordp (take to_cmp data) d then -1 else 1)
        })"

declare pbuf_memcmp_loop.simps [simp del]

definition pbuf_memcmp_at :: "pbuf list \<Rightarrow> bytes \<Rightarrow> nat \<Rightarrow> (nat \<Rightarrow> bytes) \<Rightarrow> int option" where
  "pbuf_memcmp_at pbs data offset mem =
     (if data = [] then Some 0
      else case pbuf_seek pbs offset of
          None \<Rightarrow> Some (-1)
        | Some (offset, pbs) \<Rightarrow> pbuf_memcmp_loop pbs data offset mem)"

section \<open>Reset and copies\<close>

definition pbuf_reset :: "pbuf list \<Rightarrow> nat \<Rightarrow> nat \<Rightarrow> net_bufs \<Rightarrow> (pbuf list \<times> net_bufs) option" where
  "pbuf_reset pbs header_size len nb =
     (case pbs of
        [] \<Rightarrow> None
      | pb # next \<Rightarrow>
          if \<not> pb_buflen pb \<ge> len then None
          else do {
            nb \<leftarrow> (if next \<noteq> [] then pbuf_free next nb else Some nb);
            Some ([pb\<lparr>pb_flags := PBUF_SOP OR PBUF_EOP, pb_credits := 0, pb_offset := header_size,
                      pb_buflen := len, pb_pktlen := len\<rparr>], nb)
          })"

text \<open>
  The copy of one fragment. The credits of the new fragment are not set by the code: they are
  what the structure held before, the parameter \<open>old\<close>.
\<close>

definition pbuf_dup :: "(nat \<Rightarrow> u8) \<Rightarrow> nat \<Rightarrow> nat \<Rightarrow> pbuf \<Rightarrow> net_bufs \<Rightarrow> (pbuf \<times> net_bufs) option" where
  "pbuf_dup old a d src nb = do {
     x \<leftarrow> buf_slice (nb_mem nb (pb_data src)) (pb_offset src) (pb_buflen src);
     m \<leftarrow> buf_copy (nb_mem nb d) (pb_offset src) x;
     Some (\<lparr>pb_self = a, pb_flags = pb_flags src, pb_credits = old a, pb_pktlen = pb_pktlen src,
            pb_offset = pb_offset src, pb_buflen = pb_buflen src, pb_data = d\<rparr>,
           nb\<lparr>nb_mem := (nb_mem nb)(d := m)\<rparr>)
   }"

definition pbuf_copy0 :: "(nat \<Rightarrow> u8) \<Rightarrow> pbuf \<Rightarrow> bool \<Rightarrow> net_bufs \<Rightarrow> (pbuf list \<times> net_bufs) option" where
  "pbuf_copy0 old src wait nb = do {
     (a, nb) \<leftarrow> pbuf_get0 wait nb;
     if a = 0 then Some ([], nb)
     else do {
       (d, nb) \<leftarrow> pbuf_data_get0 wait nb;
       if d = 0 then do { nb \<leftarrow> pbuf_put a nb; Some ([], nb) }
       else do { (pb, nb) \<leftarrow> pbuf_dup old a d src nb; Some ([pb], nb) }
     }
   }"

fun pbuf_copy_pkt_loop ::
  "(nat \<Rightarrow> u8) \<Rightarrow> pbuf list \<Rightarrow> bool \<Rightarrow> pbuf list \<Rightarrow> net_bufs \<Rightarrow> (pbuf list \<times> net_bufs) option" where
  "pbuf_copy_pkt_loop old [] wait r nb = Some (r, nb)"
| "pbuf_copy_pkt_loop old (src # next) wait r nb = do {
     (a, nb) \<leftarrow> pbuf_get0 wait nb;
     if a = 0 then do { nb \<leftarrow> pbuf_free_irq_blocked r nb; Some ([], nb) }
     else do {
       (d, nb) \<leftarrow> pbuf_data_get0 wait nb;
       if d = 0 then do {
         nb \<leftarrow> pbuf_put a nb;
         nb \<leftarrow> pbuf_free_irq_blocked r nb;
         Some ([], nb)
       } else do {
         (pb, nb) \<leftarrow> pbuf_dup old a d src nb;
         case next of
           [] \<Rightarrow> Some (r @ [pb], nb)
         | n # _ \<Rightarrow> if pb_flags n AND PBUF_SOP \<noteq> 0 then Some (r @ [pb], nb)
                     else pbuf_copy_pkt_loop old next wait (r @ [pb]) nb
       }
     }
   }"

definition pbuf_copy_pkt :: "(nat \<Rightarrow> u8) \<Rightarrow> pbuf list \<Rightarrow> bool \<Rightarrow> net_bufs \<Rightarrow> (pbuf list \<times> net_bufs) option" where
  "pbuf_copy_pkt old src wait nb = pbuf_copy_pkt_loop old src wait [] nb"

section \<open>Packets as byte strings\<close>

definition frag_bytes :: "(nat \<Rightarrow> bytes) \<Rightarrow> pbuf \<Rightarrow> bytes" where
  "frag_bytes mem pb = take (pb_buflen pb) (drop (pb_offset pb) (mem (pb_data pb)))"

definition pkt_bytes :: "(nat \<Rightarrow> bytes) \<Rightarrow> pbuf list \<Rightarrow> bytes" where
  "pkt_bytes mem pbs = concat (map (frag_bytes mem) pbs)"

text \<open>
  The buffers known to a packet and the pools: every data buffer and every structure is owned
  once, either free or used by the packet. Buffers are aligned, not at address 0, and have
  their full size; the counters agree with the free lists.
\<close>

definition data_addrs :: "net_bufs \<Rightarrow> pbuf list \<Rightarrow> nat list" where
  "data_addrs nb pbs = pp_items (nb_datas nb) @ map pb_data pbs"

definition self_addrs :: "net_bufs \<Rightarrow> pbuf list \<Rightarrow> nat list" where
  "self_addrs nb pbs = pp_items (nb_pbufs nb) @ map pb_self pbs"

definition addrs_ok :: "nat list \<Rightarrow> bool" where
  "addrs_ok as \<longleftrightarrow> distinct as \<and> (\<forall>a\<in>set as. a mod 4 = 0 \<and> a \<noteq> 0)"

definition bufs_inv :: "net_bufs \<Rightarrow> pbuf list \<Rightarrow> bool" where
  "bufs_inv nb pbs \<longleftrightarrow>
     addrs_ok (data_addrs nb pbs) \<and> addrs_ok (self_addrs nb pbs) \<and>
     pp_avail (nb_datas nb) = length (pp_items (nb_datas nb)) \<and>
     pp_avail (nb_pbufs nb) = length (pp_items (nb_pbufs nb)) \<and>
     (\<forall>a\<in>set (data_addrs nb pbs). length (nb_mem nb a) = PBUF_DATA_SIZE)"

definition same_bufs :: "net_bufs \<Rightarrow> pbuf list \<Rightarrow> net_bufs \<Rightarrow> pbuf list \<Rightarrow> bool" where
  "same_bufs nb pbs nb' pbs' \<longleftrightarrow>
     mset (data_addrs nb' pbs') = mset (data_addrs nb pbs) \<and>
     mset (self_addrs nb' pbs') = mset (self_addrs nb pbs)"

text \<open>A packet: its fragments lie in their buffers and the head knows the length.\<close>

definition frags_ok :: "pbuf list \<Rightarrow> bool" where
  "frags_ok pbs \<longleftrightarrow> (\<forall>pb\<in>set pbs. pb_offset pb + pb_buflen pb \<le> PBUF_DATA_SIZE)"

definition pkt_len :: "pbuf list \<Rightarrow> nat" where
  "pkt_len pbs = sum_list (map pb_buflen pbs)"

definition pkt_ok :: "net_bufs \<Rightarrow> pbuf list \<Rightarrow> bool" where
  "pkt_ok nb pbs \<longleftrightarrow> bufs_inv nb pbs \<and> frags_ok pbs \<and> (pbs \<noteq> [] \<longrightarrow> pb_pktlen (hd pbs) = pkt_len pbs)"

lemma addrs_ok_mset: "mset as = mset bs \<Longrightarrow> addrs_ok as = addrs_ok bs"
  unfolding addrs_ok_def using mset_eq_setD [of as bs] mset_eq_imp_distinct_iff [of as bs] by simp

lemma bufs_inv_cong:
  assumes "map pb_data pbs' = map pb_data pbs" "map pb_self pbs' = map pb_self pbs"
  shows "bufs_inv nb pbs' = bufs_inv nb pbs" "same_bufs nb0 pbs0 nb pbs' = same_bufs nb0 pbs0 nb pbs"
    "same_bufs nb pbs' nb0 pbs0 = same_bufs nb pbs nb0 pbs0"
  using assms by (simp_all add: bufs_inv_def same_bufs_def data_addrs_def self_addrs_def)

lemma same_bufs_trans: "same_bufs a p b q \<Longrightarrow> same_bufs b q c r \<Longrightarrow> same_bufs a p c r"
  by (simp add: same_bufs_def)

lemma same_bufs_refl [simp]: "same_bufs nb pbs nb pbs"
  by (simp add: same_bufs_def)

lemma bufs_inv_mem:
  assumes "bufs_inv nb pbs" "\<And>a. length (mem a) = length (nb_mem nb a)"
  shows "bufs_inv (nb\<lparr>nb_mem := mem\<rparr>) pbs"
  using assms by (simp add: bufs_inv_def data_addrs_def self_addrs_def)

lemma frag_length:
  assumes "bufs_inv nb pbs" "frags_ok pbs" "pb \<in> set pbs"
  shows "length (frag_bytes (nb_mem nb) pb) = pb_buflen pb" "length (nb_mem nb (pb_data pb)) = PBUF_DATA_SIZE"
  using assms by (auto simp: bufs_inv_def frags_ok_def frag_bytes_def data_addrs_def)

lemma pkt_bytes_length:
  assumes "bufs_inv nb pbs" "frags_ok pbs"
  shows "length (pkt_bytes (nb_mem nb) pbs) = pkt_len pbs"
  using frag_length(1) [OF assms] by (simp add: pkt_bytes_def pkt_len_def length_concat comp_def cong: map_cong)

lemma pkt_bytes_Cons: "pkt_bytes mem (pb # pbs) = frag_bytes mem pb @ pkt_bytes mem pbs"
  by (simp add: pkt_bytes_def)

lemma pkt_bytes_cong:
  "(\<And>pb. pb \<in> set pbs \<Longrightarrow> mem' (pb_data pb) = mem (pb_data pb)) \<Longrightarrow> pkt_bytes mem' pbs = pkt_bytes mem pbs"
  by (simp add: pkt_bytes_def frag_bytes_def cong: map_cong)

lemma set_head_pktlen_simps [simp]:
  "map pb_data (set_head_pktlen n pbs) = map pb_data pbs"
  "map pb_self (set_head_pktlen n pbs) = map pb_self pbs"
  "pkt_bytes mem (set_head_pktlen n pbs) = pkt_bytes mem pbs"
  "frags_ok (set_head_pktlen n pbs) = frags_ok pbs"
  "pkt_len (set_head_pktlen n pbs) = pkt_len pbs"
  "set_head_pktlen n pbs = [] \<longleftrightarrow> pbs = []"
  "pbs \<noteq> [] \<Longrightarrow> pb_pktlen (hd (set_head_pktlen n pbs)) = n"
  by (cases pbs; simp add: set_head_pktlen_def pkt_bytes_def frag_bytes_def frags_ok_def pkt_len_def)+

lemma pkt_Cons_simps [simp]:
  "frags_ok (pb # pbs) \<longleftrightarrow> pb_offset pb + pb_buflen pb \<le> PBUF_DATA_SIZE \<and> frags_ok pbs"
  "pkt_len (pb # pbs) = pb_buflen pb + pkt_len pbs" "frags_ok []" "pkt_len [] = 0"
  by (simp_all add: frags_ok_def pkt_len_def)

text \<open>Freeing a fragment.\<close>

lemma pbuf_put_both_inv:
  assumes "bufs_inv nb (pb # pbs)"
  shows "\<exists>nb'. pbuf_put_both pb nb = Some nb' \<and> bufs_inv nb' pbs \<and> nb_mem nb' = nb_mem nb \<and>
    same_bufs nb (pb # pbs) nb' pbs"
proof -
  have al: "pb_data pb mod 4 = 0" "pb_self pb mod 4 = 0"
    using assms by (auto simp: bufs_inv_def addrs_ok_def data_addrs_def self_addrs_def)
  then obtain nb' where nb': "pbuf_put_both pb nb = Some nb'"
    "pp_items (nb_datas nb') = pb_data pb # pp_items (nb_datas nb)"
    "pp_items (nb_pbufs nb') = pb_self pb # pp_items (nb_pbufs nb)"
    "pp_avail (nb_datas nb') = pp_avail (nb_datas nb) + 1" "pp_avail (nb_pbufs nb') = pp_avail (nb_pbufs nb) + 1"
    "nb_mem nb' = nb_mem nb"
    by (simp add: pbuf_put_both_def pbuf_data_put_def pbuf_put_def pbuf_pool_put_def)
  have m: "mset (data_addrs nb' pbs) = mset (data_addrs nb (pb # pbs))"
    "mset (self_addrs nb' pbs) = mset (self_addrs nb (pb # pbs))"
    by (simp_all add: data_addrs_def self_addrs_def nb')
  have "bufs_inv nb' pbs"
    using assms nb' mset_eq_setD [OF m(1)] addrs_ok_mset [OF m(1)] addrs_ok_mset [OF m(2)]
    by (simp add: bufs_inv_def)
  then show ?thesis using nb' m by (auto simp: same_bufs_def)
qed

lemma buf_slice_frag:
  assumes "bufs_inv nb (pb # pbs)" "frags_ok (pb # pbs)" "n \<le> pb_buflen pb"
  shows "buf_slice (nb_mem nb (pb_data pb)) (pb_offset pb) n = Some (take n (frag_bytes (nb_mem nb) pb))"
  using assms frag_length [OF assms(1,2), of pb] by (auto simp: buf_slice_def frag_bytes_def frags_ok_def min_def)

text \<open>The front of a fragment removed.\<close>

lemma frag_bytes_advance:
  "n \<le> pb_buflen pb \<Longrightarrow>
   frag_bytes mem (pb\<lparr>pb_offset := pb_offset pb + n, pb_buflen := pb_buflen pb - n, pb_pktlen := k\<rparr>) =
   drop n (frag_bytes mem pb)"
  by (simp add: frag_bytes_def drop_take add.commute)

lemma pbuf_read_loop_bytes:
  assumes "pkt_ok nb pbs" "len \<le> pkt_len pbs"
  shows "\<exists>pbs' nb'. pbuf_read_loop pbs len out nb =
      Some (pbs', out @ take len (pkt_bytes (nb_mem nb) pbs), nb') \<and>
    nb_mem nb' = nb_mem nb \<and> pkt_bytes (nb_mem nb) pbs' = drop len (pkt_bytes (nb_mem nb) pbs) \<and>
    pkt_ok nb' pbs' \<and> same_bufs nb pbs nb' pbs'"
  using assms
proof (induction pbs len out nb rule: pbuf_read_loop.induct)
  case (1 pbs len out nb)
  show ?case
  proof (cases "len = 0")
    case True
    then show ?thesis using "1.prems" by (simp add: pbuf_read_loop.simps [of pbs 0])
  next
    case False
    then obtain pb nx where pbs: "pbs = pb # nx" using "1.prems" by (cases pbs) auto
    have inv: "bufs_inv nb (pb # nx)" "frags_ok (pb # nx)" "pb_pktlen pb = pkt_len (pb # nx)"
      using "1.prems"(1) pbs by (simp_all add: pkt_ok_def)
    let ?n = "min len (pb_buflen pb)"
    let ?pb = "pb\<lparr>pb_offset := pb_offset pb + ?n, pb_buflen := pb_buflen pb - ?n, pb_pktlen := pb_pktlen pb - ?n\<rparr>"
    let ?d = "take ?n (frag_bytes (nb_mem nb) pb)"
    have sl: "buf_slice (nb_mem nb (pb_data pb)) (pb_offset pb) ?n = Some ?d"
      by (rule buf_slice_frag [OF inv(1,2)]) simp
    have fl: "length (frag_bytes (nb_mem nb) pb) = pb_buflen pb" using frag_length(1) [OF inv(1,2)] by simp
    have adv: "frag_bytes (nb_mem nb) ?pb = drop ?n (frag_bytes (nb_mem nb) pb)" by (rule frag_bytes_advance) simp
    show ?thesis
    proof (cases "len < pb_buflen pb")
      case True
      have step: "pbuf_read_loop pbs len out nb = pbuf_read_loop (?pb # nx) (len - ?n) (out @ ?d) nb"
        using False sl True pbs by (subst pbuf_read_loop.simps) (simp add: Let_def)
      have "pkt_ok nb (?pb # nx)"
        using inv True bufs_inv_cong(1) [of "?pb # nx" "pb # nx" nb] by (auto simp: pkt_ok_def)
      moreover have "same_bufs nb pbs nb (?pb # nx)"
        using bufs_inv_cong(2) [of "?pb # nx" "pb # nx" nb pbs nb] pbs by simp
      ultimately show ?thesis unfolding step using True adv fl pbs
        by (simp add: pbuf_read_loop.simps [of _ 0] pkt_bytes_Cons)
    next
      case ge: False
      then have n: "?n = pb_buflen pb" by simp
      obtain nb' where nb': "pbuf_put_both ?pb nb = Some nb'" "bufs_inv nb' nx" "nb_mem nb' = nb_mem nb"
        "same_bufs nb (?pb # nx) nb' nx"
        using pbuf_put_both_inv [of nb ?pb nx] inv(1) bufs_inv_cong(1) [of "?pb # nx" "pb # nx" nb] by auto
      let ?nx = "set_head_pktlen (pb_pktlen ?pb) nx"
      have ok: "pkt_ok nb' ?nx"
        using nb'(2) inv n bufs_inv_cong(1) [of ?nx nx nb'] by (auto simp: pkt_ok_def)
      have step: "pbuf_read_loop pbs len out nb = pbuf_read_loop ?nx (len - ?n) (out @ ?d) nb'"
        using False sl ge pbs nb'(1) by (subst pbuf_read_loop.simps) (simp add: Let_def)
      have "\<exists>pbs' nb''. pbuf_read_loop ?nx (len - ?n) (out @ ?d) nb' =
          Some (pbs', (out @ ?d) @ take (len - ?n) (pkt_bytes (nb_mem nb') ?nx), nb'') \<and>
        nb_mem nb'' = nb_mem nb' \<and> pkt_bytes (nb_mem nb') pbs' = drop (len - ?n) (pkt_bytes (nb_mem nb') ?nx) \<and>
        pkt_ok nb'' pbs' \<and> same_bufs nb' ?nx nb'' pbs'"
        using False pbs sl ge nb'(1) ok "1.prems"(2) n
        by (intro "1.IH"(1) [OF False pbs refl sl refl]) auto
      then obtain pbs' nb'' where r: "pbuf_read_loop ?nx (len - ?n) (out @ ?d) nb' =
          Some (pbs', (out @ ?d) @ take (len - ?n) (pkt_bytes (nb_mem nb) nx), nb'')"
        "nb_mem nb'' = nb_mem nb" "pkt_bytes (nb_mem nb) pbs' = drop (len - ?n) (pkt_bytes (nb_mem nb) nx)"
        "pkt_ok nb'' pbs'" "same_bufs nb' nx nb'' pbs'"
        using nb'(3) bufs_inv_cong(3) [of ?nx nx] by auto
      have "same_bufs nb pbs nb'' pbs'"
        using nb'(4) r(5) same_bufs_trans bufs_inv_cong(3) [of "?pb # nx" "pb # nx"] pbs by auto
      then show ?thesis unfolding step r(1) using r n fl ge pbs
        by (simp add: pkt_bytes_Cons)
    qed
  qed
qed

lemma pbuf_drop_loop_bytes:
  assumes "pkt_ok nb (pb # nx)" "bytes \<le> pkt_len (pb # nx)"
  shows "\<exists>pbs' nb'. pbuf_drop_loop pb nx bytes fwe nb = Some (pbs', nb') \<and> nb_mem nb' = nb_mem nb \<and>
    pkt_bytes (nb_mem nb) pbs' = drop bytes (pkt_bytes (nb_mem nb) (pb # nx)) \<and>
    pkt_ok nb' pbs' \<and> same_bufs nb (pb # nx) nb' pbs' \<and> (fwe \<and> bytes = pkt_len (pb # nx) \<longrightarrow> pbs' = [])"
  using assms
proof (induction nx arbitrary: pb bytes nb)
  case Nil
  note inv = Nil.prems(1)
  let ?n = "min bytes (pb_buflen pb)"
  let ?pb = "pb\<lparr>pb_offset := pb_offset pb + ?n, pb_buflen := pb_buflen pb - ?n, pb_pktlen := pb_pktlen pb - ?n\<rparr>"
  have i: "bufs_inv nb [pb]" "frags_ok [pb]" "pb_pktlen pb = pb_buflen pb" using inv by (simp_all add: pkt_ok_def)
  have n: "?n = bytes" using Nil.prems(2) by simp
  have fl: "length (frag_bytes (nb_mem nb) pb) = pb_buflen pb" using frag_length(1) [OF i(1,2)] by simp
  have adv: "frag_bytes (nb_mem nb) ?pb = drop bytes (frag_bytes (nb_mem nb) pb)"
    using frag_bytes_advance [of ?n pb "nb_mem nb"] n by simp
  have ok: "pkt_ok nb [?pb]" "same_bufs nb [pb] nb [?pb]"
    using i n bufs_inv_cong(1) [of "[?pb]" "[pb]" nb] bufs_inv_cong(2) [of "[?pb]" "[pb]" nb "[pb]" nb]
    by (auto simp: pkt_ok_def)
  show ?case
  proof (cases "fwe \<and> pb_buflen ?pb = 0")
    case True
    obtain nb' where nb': "pbuf_put_both ?pb nb = Some nb'" "bufs_inv nb' []" "nb_mem nb' = nb_mem nb"
      "same_bufs nb [?pb] nb' []"
      using pbuf_put_both_inv [of nb ?pb "[]"] ok(1) by (auto simp: pkt_ok_def)
    then have "pbuf_drop_loop pb [] bytes fwe nb = Some ([], nb')"
      using True i(3) Nil.prems(2) by (subst pbuf_drop_loop.simps) (simp add: Let_def)
    then show ?thesis
      using nb' ok(2) True fl n same_bufs_trans by (auto simp: pkt_ok_def pkt_bytes_def)
  next
    case False
    then have "pbuf_drop_loop pb [] bytes fwe nb = Some ([?pb], nb)"
      using i(3) Nil.prems(2) by (subst pbuf_drop_loop.simps) (auto simp: Let_def)
    then show ?thesis using ok adv False n by (auto simp: pkt_bytes_def)
  qed
next
  case (Cons m nx)
  let ?n = "min bytes (pb_buflen pb)"
  let ?pb = "pb\<lparr>pb_offset := pb_offset pb + ?n, pb_buflen := pb_buflen pb - ?n, pb_pktlen := pb_pktlen pb - ?n\<rparr>"
  let ?m = "m\<lparr>pb_pktlen := pb_pktlen ?pb, pb_flags := pb_flags m OR (pb_flags ?pb AND PBUF_SOP)\<rparr>"
  have i: "bufs_inv nb (pb # m # nx)" "frags_ok (pb # m # nx)" "pb_pktlen pb = pkt_len (pb # m # nx)"
    using Cons.prems(1) by (simp_all add: pkt_ok_def)
  have fl: "length (frag_bytes (nb_mem nb) pb) = pb_buflen pb" using frag_length(1) [OF i(1,2)] by simp
  have adv: "frag_bytes (nb_mem nb) ?pb = drop ?n (frag_bytes (nb_mem nb) pb)" by (rule frag_bytes_advance) simp
  show ?case
  proof (cases "bytes < pb_buflen pb")
    case True
    then have "pbuf_drop_loop pb (m # nx) bytes fwe nb = Some (?pb # m # nx, nb)"
      using i(3) Cons.prems(2) by (subst pbuf_drop_loop.simps) (simp add: Let_def)
    moreover have "pkt_ok nb (?pb # m # nx)" "same_bufs nb (pb # m # nx) nb (?pb # m # nx)"
      using i True bufs_inv_cong(1) [of "?pb # m # nx" "pb # m # nx" nb]
        bufs_inv_cong(2) [of "?pb # m # nx" "pb # m # nx" nb "pb # m # nx" nb] by (auto simp: pkt_ok_def)
    ultimately show ?thesis using True adv fl by (auto simp: pkt_bytes_Cons)
  next
    case False
    then have n: "?n = pb_buflen pb" by simp
    obtain nb' where nb': "pbuf_put_both ?pb nb = Some nb'" "bufs_inv nb' (m # nx)" "nb_mem nb' = nb_mem nb"
      "same_bufs nb (?pb # m # nx) nb' (m # nx)"
      using pbuf_put_both_inv [of nb ?pb "m # nx"] i(1) bufs_inv_cong(1) [of "?pb # m # nx" "pb # m # nx" nb] by auto
    have ok: "pkt_ok nb' (?m # nx)"
      using nb'(2) i n bufs_inv_cong(1) [of "?m # nx" "m # nx" nb'] by (auto simp: pkt_ok_def)
    have fb: "frag_bytes mem ?m = frag_bytes mem m" for mem by (simp add: frag_bytes_def)
    have le: "bytes - ?n \<le> pkt_len (?m # nx)" using Cons.prems(2) n by simp
    obtain pbs' nb'' where r: "pbuf_drop_loop ?m nx (bytes - ?n) fwe nb' = Some (pbs', nb'')"
      "nb_mem nb'' = nb_mem nb" "pkt_bytes (nb_mem nb) pbs' = drop (bytes - ?n) (pkt_bytes (nb_mem nb) (m # nx))"
      "pkt_ok nb'' pbs'" "same_bufs nb' (m # nx) nb'' pbs'" "fwe \<and> bytes - ?n = pkt_len (m # nx) \<longrightarrow> pbs' = []"
      using Cons.IH [OF ok le] nb'(3) bufs_inv_cong(3) [of "?m # nx" "m # nx"] fb
      by (auto simp: pkt_bytes_Cons)
    have step: "pbuf_drop_loop pb (m # nx) bytes fwe nb = pbuf_drop_loop ?m nx (bytes - ?n) fwe nb'"
      using False i(3) Cons.prems(2) nb'(1) by (subst pbuf_drop_loop.simps) (simp add: Let_def)
    have "same_bufs nb (pb # m # nx) nb'' pbs'"
      using nb'(4) r(5) same_bufs_trans bufs_inv_cong(3) [of "?pb # m # nx" "pb # m # nx"] by auto
    then show ?thesis unfolding step r(1) using r n fl False by (auto simp: pkt_bytes_Cons)
  qed
qed

text \<open>C9. Reading \<open>len\<close> bytes from a packet delivers its first \<open>len\<close> bytes and leaves the packet
  with the others, its length field kept right; dropping does the same without delivering them
  and panics when asked for more than the packet holds. Every buffer of the packet is
  afterwards still in it or back in its pool, exactly once.\<close>

theorem pbuf_read_drop_bytes:
  assumes "pkt_ok nb pbs" and "pbs \<noteq> []"
  shows "(if len \<le> pkt_len pbs
      then \<exists>pbs' nb'. pbuf_read pbs len nb = Some (pbs', take len (pkt_bytes (nb_mem nb) pbs), nb') \<and>
             pkt_bytes (nb_mem nb') pbs' = drop len (pkt_bytes (nb_mem nb) pbs) \<and>
             pkt_ok nb' pbs' \<and> same_bufs nb pbs nb' pbs'
      else pbuf_read pbs len nb = None) \<and>
    (if len \<le> pkt_len pbs
      then \<exists>pbs' nb'. pbuf_drop pbs len fwe nb = Some (pbs', nb') \<and>
             pkt_bytes (nb_mem nb') pbs' = drop len (pkt_bytes (nb_mem nb) pbs) \<and>
             pkt_ok nb' pbs' \<and> same_bufs nb pbs nb' pbs'
      else pbuf_drop pbs len fwe nb = None)"
proof -
  obtain pb nx where p: "pbs = pb # nx" using assms(2) by (cases pbs) auto
  have l: "pb_pktlen pb = pkt_len pbs" using assms(1) p by (simp add: pkt_ok_def)
  show ?thesis
  proof (cases "len \<le> pkt_len pbs")
    case True
    have "pkt_ok nb (pb # nx)" "len \<le> pkt_len (pb # nx)" using assms(1) True p by simp_all
    then show ?thesis
      using pbuf_read_loop_bytes [OF assms(1) True, of "[]"] pbuf_drop_loop_bytes [of nb pb nx len fwe] True p l
      by (simp add: pbuf_read_def pbuf_drop_def) metis
  next
    case False
    then show ?thesis using p l by (auto simp: pbuf_read_def pbuf_drop_def pbuf_drop_loop.simps)
  qed
qed

definition demo_frag :: "nat \<Rightarrow> nat \<Rightarrow> nat \<Rightarrow> nat \<Rightarrow> u8 \<Rightarrow> pbuf" where
  "demo_frag a d n l f = \<lparr>pb_self = a, pb_flags = f, pb_credits = 0, pb_pktlen = l, pb_offset = 10,
     pb_buflen = n, pb_data = d\<rparr>"

definition demo_bufs :: net_bufs where
  "demo_bufs = \<lparr>nb_pbufs = \<lparr>pp_items = [100, 104, 108], pp_avail = 3, pp_total = 5, pp_wakeups = 0\<rparr>,
     nb_datas = \<lparr>pp_items = [4096, 4608, 5120], pp_avail = 3, pp_total = 5, pp_wakeups = 0\<rparr>,
     nb_mem = (\<lambda>_. replicate PBUF_DATA_SIZE 7)\<rparr>"

definition demo_pkt :: "pbuf list" where
  "demo_pkt = [demo_frag 112 5632 3 8 PBUF_SOP, demo_frag 116 6144 5 0 PBUF_EOP]"

lemma demo_pkt_ok: "pkt_ok demo_bufs demo_pkt"
  by (simp add: pkt_ok_def bufs_inv_def demo_bufs_def demo_pkt_def demo_frag_def addrs_ok_def
      data_addrs_def self_addrs_def PBUF_DATA_SIZE_def)

theorem pbuf_read_drop_bytes_witness:
  "\<exists>pbs' nb'. pbuf_read demo_pkt 4 demo_bufs = Some (pbs', [7, 7, 7, 7], nb')"
proof -
  have "take 4 (pkt_bytes (nb_mem demo_bufs) demo_pkt) = [7, 7, 7, 7]"
    by (simp add: pkt_bytes_def frag_bytes_def demo_bufs_def demo_pkt_def demo_frag_def PBUF_DATA_SIZE_def)
      (simp add: numeral_eq_Suc)
  moreover have "4 \<le> pkt_len demo_pkt" "demo_pkt \<noteq> []" by (simp_all add: demo_pkt_def demo_frag_def)
  ultimately show ?thesis
    using pbuf_read_drop_bytes [OF demo_pkt_ok, of 4 True] by auto
qed

section \<open>Pull-up\<close>

lemma frag_grow:
  assumes "buf_copy (mem (pb_data pb)) (pb_offset pb + pb_buflen pb) d = Some m"
  shows "frag_bytes (mem(pb_data pb := m)) (pb\<lparr>pb_buflen := pb_buflen pb + length d\<rparr>) = frag_bytes mem pb @ d"
    and "length m = length (mem (pb_data pb))"
proof -
  have m: "m = take (pb_offset pb + pb_buflen pb) (mem (pb_data pb)) @ d @
      drop (pb_offset pb + pb_buflen pb + length d) (mem (pb_data pb))"
    and l: "pb_offset pb + pb_buflen pb + length d \<le> length (mem (pb_data pb))"
    using assms by (auto simp: buf_copy_def split: if_splits)
  show "length m = length (mem (pb_data pb))" using buf_copy_length [OF assms] .
  show "frag_bytes (mem(pb_data pb := m)) (pb\<lparr>pb_buflen := pb_buflen pb + length d\<rparr>) = frag_bytes mem pb @ d"
  proof -
    let ?M = "mem (pb_data pb)"
    have "?M = (take (pb_offset pb) ?M @ take (pb_buflen pb) (drop (pb_offset pb) ?M)) @
        drop (pb_offset pb + pb_buflen pb) ?M"
      by (simp only: take_add [symmetric] append_take_drop_id)
    then obtain A B C where M: "?M = A @ B @ C" "length A = pb_offset pb" "length B = pb_buflen pb"
      using l by (intro that [of "take (pb_offset pb) ?M" "take (pb_buflen pb) (drop (pb_offset pb) ?M)"
            "drop (pb_offset pb + pb_buflen pb) ?M"]) (simp_all only: append_assoc, simp_all)
    show ?thesis unfolding frag_bytes_def m by (simp add: M)
  qed
qed

lemma bufs_inv_distinct: "bufs_inv nb (pb # nx) \<Longrightarrow> x \<in> set nx \<Longrightarrow> pb_data x \<noteq> pb_data pb"
proof
  assume i: "bufs_inv nb (pb # nx)" and x: "x \<in> set nx" and e: "pb_data x = pb_data pb"
  have "pb_data pb \<notin> set (map pb_data nx)"
    using i by (simp add: bufs_inv_def addrs_ok_def data_addrs_def)
  moreover have "pb_data x \<in> set (map pb_data nx)" using x by simp
  ultimately show False using e by simp
qed

lemma pbuf_pullup_loop_bytes:
  assumes "bufs_inv nb (pb # nx)" "frags_ok (pb # nx)" "pb_offset pb + pb_buflen pb + bytes \<le> PBUF_DATA_SIZE"
  shows "\<exists>pb' nx' nb'. pbuf_pullup_loop pb nx bytes nb = Some (bytes - pkt_len nx, pb' # nx', nb') \<and>
    pkt_bytes (nb_mem nb') (pb' # nx') = pkt_bytes (nb_mem nb) (pb # nx) \<and>
    pb_buflen pb' = pb_buflen pb + min bytes (pkt_len nx) \<and> pb_pktlen pb' = pb_pktlen pb \<and>
    pkt_len (pb' # nx') = pkt_len (pb # nx) \<and>
    bufs_inv nb' (pb' # nx') \<and> frags_ok (pb' # nx') \<and> same_bufs nb (pb # nx) nb' (pb' # nx')"
  using assms
proof (induction nx arbitrary: pb bytes nb)
  case Nil
  then show ?case by (subst pbuf_pullup_loop.simps) auto
next
  case (Cons n nx)
  show ?case
  proof (cases "bytes = 0")
    case True
    then show ?thesis using Cons.prems by (subst pbuf_pullup_loop.simps) auto
  next
    case False
    let ?c = "min bytes (pb_buflen n)"
    let ?d = "take ?c (frag_bytes (nb_mem nb) n)"
    have neq: "pb_data n \<noteq> pb_data pb" "\<And>x. x \<in> set nx \<Longrightarrow> pb_data x \<noteq> pb_data pb"
      using bufs_inv_distinct [OF Cons.prems(1)] by simp_all
    have fl: "length (frag_bytes (nb_mem nb) n) = pb_buflen n" "length (nb_mem nb (pb_data n)) = PBUF_DATA_SIZE"
      "length (nb_mem nb (pb_data pb)) = PBUF_DATA_SIZE"
      using frag_length [OF Cons.prems(1,2)] by simp_all
    have sl: "buf_slice (nb_mem nb (pb_data n)) (pb_offset n) ?c = Some ?d"
      using Cons.prems(2) fl by (auto simp: buf_slice_def frag_bytes_def min_def)
    have dl: "length ?d = ?c" using fl by simp
    obtain m where cp: "buf_copy (nb_mem nb (pb_data pb)) (pb_offset pb + pb_buflen pb) ?d = Some m"
    proof -
      have "pb_offset pb + pb_buflen pb + length ?d \<le> PBUF_DATA_SIZE" using Cons.prems(3) dl by linarith
      then show ?thesis using that fl(3) unfolding buf_copy_def by metis
    qed
    note grow = frag_grow [where mem = "nb_mem nb" and pb = pb, OF cp]
    let ?nb = "nb\<lparr>nb_mem := (nb_mem nb)(pb_data pb := m)\<rparr>"
    let ?pb = "pb\<lparr>pb_buflen := pb_buflen pb + ?c\<rparr>"
    let ?n = "n\<lparr>pb_buflen := pb_buflen n - ?c, pb_offset := pb_offset n + ?c\<rparr>"
    have gpb: "frag_bytes (nb_mem ?nb) ?pb = frag_bytes (nb_mem nb) pb @ ?d" using grow(1) dl by simp
    have gn: "frag_bytes (nb_mem ?nb) ?n = drop ?c (frag_bytes (nb_mem nb) n)"
      using neq(1) by (simp add: frag_bytes_def drop_take add.commute)
    have gnx: "pkt_bytes (nb_mem ?nb) nx = pkt_bytes (nb_mem nb) nx"
      using neq(2) by (intro pkt_bytes_cong) auto
    have binv: "bufs_inv ?nb (?pb # ?n # nx)"
      using bufs_inv_mem [OF Cons.prems(1), of "(nb_mem nb)(pb_data pb := m)"] grow(2)
        bufs_inv_cong(1) [of "?pb # ?n # nx" "pb # n # nx" ?nb] by auto
    have bytes: "pkt_bytes (nb_mem ?nb) (?pb # ?n # nx) = pkt_bytes (nb_mem nb) (pb # n # nx)"
      unfolding pkt_bytes_Cons gpb gn gnx by simp
    have sb: "same_bufs nb (pb # n # nx) ?nb (?pb # ?n # nx)"
      by (simp add: same_bufs_def data_addrs_def self_addrs_def)
    have fo: "frags_ok (?pb # ?n # nx)" using Cons.prems(2,3) by auto
    show ?thesis
    proof (cases "pb_buflen n \<le> bytes")
      case False
      then have "pbuf_pullup_loop pb (n # nx) bytes nb = Some (0, ?pb # ?n # nx, ?nb)"
        using \<open>bytes \<noteq> 0\<close> sl cp by (subst pbuf_pullup_loop.simps) (simp add: Let_def min_def)
      then show ?thesis using bytes binv fo sb False by auto
    next
      case True
      let ?pb2 = "?pb\<lparr>pb_flags := pb_flags ?pb OR (pb_flags ?n AND PBUF_EOP),
          pb_credits := pb_credits ?pb + pb_credits ?n\<rparr>"
      have "bufs_inv ?nb (?n # ?pb2 # nx)"
        using binv by (auto simp: bufs_inv_def data_addrs_def self_addrs_def addrs_ok_def)
      from pbuf_put_both_inv [OF this] obtain nb' where
        nb': "pbuf_put_both ?n ?nb = Some nb'" "bufs_inv nb' (?pb2 # nx)" "nb_mem nb' = nb_mem ?nb"
        "same_bufs ?nb (?n # ?pb2 # nx) nb' (?pb2 # nx)" by auto
      have sb2: "same_bufs nb (pb # n # nx) nb' (?pb2 # nx)"
        using nb'(4) by (simp add: same_bufs_def data_addrs_def self_addrs_def add.commute add.left_commute)
      have step: "pbuf_pullup_loop pb (n # nx) bytes nb = pbuf_pullup_loop ?pb2 nx (bytes - ?c) nb'"
        using \<open>bytes \<noteq> 0\<close> sl cp True nb'(1) by (subst pbuf_pullup_loop.simps) (simp add: Let_def min_def)
      have fo2: "frags_ok (?pb2 # nx)" "pb_offset ?pb2 + pb_buflen ?pb2 + (bytes - ?c) \<le> PBUF_DATA_SIZE"
        using fo Cons.prems(3) True by auto
      obtain pb' nx' nb'' where r:
        "pbuf_pullup_loop ?pb2 nx (bytes - ?c) nb' = Some (bytes - ?c - pkt_len nx, pb' # nx', nb'')"
        "pkt_bytes (nb_mem nb'') (pb' # nx') = pkt_bytes (nb_mem nb') (?pb2 # nx)"
        "pb_buflen pb' = pb_buflen ?pb2 + min (bytes - ?c) (pkt_len nx)" "pb_pktlen pb' = pb_pktlen ?pb2"
        "pkt_len (pb' # nx') = pkt_len (?pb2 # nx)"
        "bufs_inv nb'' (pb' # nx')" "frags_ok (pb' # nx')" "same_bufs nb' (?pb2 # nx) nb'' (pb' # nx')"
        using Cons.IH [OF nb'(2) fo2] by blast
      have "frag_bytes (nb_mem ?nb) ?pb2 = frag_bytes (nb_mem ?nb) ?pb" by (simp add: frag_bytes_def)
      moreover have "frag_bytes (nb_mem ?nb) ?n = []" using gn True fl(1) by simp
      ultimately have "pkt_bytes (nb_mem nb') (?pb2 # nx) = pkt_bytes (nb_mem nb) (pb # n # nx)"
        using bytes nb'(3) by (simp add: pkt_bytes_Cons)
      then show ?thesis
        unfolding step using r sb2 same_bufs_trans True by (intro exI [of _ pb'] exI [of _ nx'] exI [of _ nb'']) auto
    qed
  qed
qed

text \<open>C30. Pulling up \<open>bytes\<close> bytes (at most one buffer full) changes nothing about the bytes of the
  packet: it returns how many are missing, and when none is the first fragment holds them
  contiguously. It never writes outside a buffer and loses none.\<close>

theorem pbuf_pullup_contiguous:
  assumes "pkt_ok nb pbs" and "pbs \<noteq> []" and "bytes \<le> PBUF_DATA_SIZE"
  shows "\<exists>pbs' nb'. pbuf_pullup pbs bytes nb = Some (bytes - pkt_len pbs, pbs', nb') \<and>
    pkt_bytes (nb_mem nb') pbs' = pkt_bytes (nb_mem nb) pbs \<and>
    pkt_ok nb' pbs' \<and> same_bufs nb pbs nb' pbs' \<and>
    (bytes \<le> pkt_len pbs \<longrightarrow> bytes \<le> pb_buflen (hd pbs'))"
proof -
  obtain pb nx where p: "pbs = pb # nx" using assms(2) by (cases pbs) auto
  have i: "bufs_inv nb (pb # nx)" "frags_ok (pb # nx)" "pb_pktlen pb = pkt_len (pb # nx)"
    using assms(1) p by (simp_all add: pkt_ok_def)
  show ?thesis
  proof (cases "pb_buflen pb \<ge> bytes")
    case True
    then show ?thesis using assms(1) p by (auto simp: pbuf_pullup_def)
  next
    case False
    have fl: "length (nb_mem nb (pb_data pb)) = PBUF_DATA_SIZE" using frag_length(2) [OF i(1,2)] by simp
    define pb1 nb1 where "pb1 = (if bytes + pb_offset pb > PBUF_DATA_SIZE then pb\<lparr>pb_offset := 0\<rparr> else pb)"
      and "nb1 = (if bytes + pb_offset pb > PBUF_DATA_SIZE
        then nb\<lparr>nb_mem := (nb_mem nb)(pb_data pb := frag_bytes (nb_mem nb) pb @ drop (pb_buflen pb) (nb_mem nb (pb_data pb)))\<rparr>
        else nb)"
    have fb: "length (frag_bytes (nb_mem nb) pb) = pb_buflen pb" using frag_length(1) [OF i(1,2)] by simp
    have run: "pbuf_pullup pbs bytes nb = pbuf_pullup_loop pb1 nx (bytes - pb_buflen pb) nb1"
      using False p assms(3) i(2) fl fb
      by (auto simp: pbuf_pullup_def pb1_def nb1_def buf_slice_def buf_copy_def frag_bytes_def min_def)
    have neq: "\<And>x. x \<in> set nx \<Longrightarrow> pb_data x \<noteq> pb_data pb"
      using bufs_inv_distinct [OF i(1)] by simp
    have i1: "bufs_inv nb1 (pb1 # nx)"
      using i(1,2) fl fb by (auto simp: nb1_def pb1_def bufs_inv_def data_addrs_def self_addrs_def)
    have f1: "frags_ok (pb1 # nx)" "pb_offset pb1 + pb_buflen pb1 + (bytes - pb_buflen pb) \<le> PBUF_DATA_SIZE"
      using i(2) False assms(3) by (auto simp: pb1_def)
    have b1: "pkt_bytes (nb_mem nb1) (pb1 # nx) = pkt_bytes (nb_mem nb) (pb # nx)"
    proof -
      have "frag_bytes (nb_mem nb1) pb1 = frag_bytes (nb_mem nb) pb"
        using fb by (auto simp: nb1_def pb1_def frag_bytes_def [of _ "pb\<lparr>pb_offset := 0\<rparr>"])
      moreover have "pkt_bytes (nb_mem nb1) nx = pkt_bytes (nb_mem nb) nx"
        using neq by (intro pkt_bytes_cong) (auto simp: nb1_def)
      ultimately show ?thesis by (simp add: pkt_bytes_Cons)
    qed
    have s1: "same_bufs nb (pb # nx) nb1 (pb1 # nx)"
      by (simp add: same_bufs_def data_addrs_def self_addrs_def nb1_def pb1_def)
    have q: "pb_buflen pb1 = pb_buflen pb" "pb_pktlen pb1 = pb_pktlen pb" by (simp_all add: pb1_def)
    obtain pb' nx' nb' where r:
      "pbuf_pullup_loop pb1 nx (bytes - pb_buflen pb) nb1 = Some (bytes - pb_buflen pb - pkt_len nx, pb' # nx', nb')"
      "pkt_bytes (nb_mem nb') (pb' # nx') = pkt_bytes (nb_mem nb1) (pb1 # nx)"
      "pb_buflen pb' = pb_buflen pb1 + min (bytes - pb_buflen pb) (pkt_len nx)" "pb_pktlen pb' = pb_pktlen pb1"
      "pkt_len (pb' # nx') = pkt_len (pb1 # nx)"
      "bufs_inv nb' (pb' # nx')" "frags_ok (pb' # nx')" "same_bufs nb1 (pb1 # nx) nb' (pb' # nx')"
      using pbuf_pullup_loop_bytes [OF i1 f1] by blast
    have ok: "pkt_ok nb' (pb' # nx')" using r(4-7) q i(3) by (simp add: pkt_ok_def)
    have sb: "same_bufs nb pbs nb' (pb' # nx')" using s1 r(8) same_bufs_trans p by blast
    have "pbuf_pullup pbs bytes nb = Some (bytes - pkt_len pbs, pb' # nx', nb')"
      using run r(1) p by simp
    then show ?thesis using r(2,3) b1 ok sb False p q by (intro exI [of _ "pb' # nx'"] exI [of _ nb']) auto
  qed
qed

theorem pbuf_pullup_contiguous_witness:
  "\<exists>pbs' nb'. pbuf_pullup demo_pkt 6 demo_bufs = Some (0, pbs', nb') \<and> 6 \<le> pb_buflen (hd pbs')"
proof -
  have "demo_pkt \<noteq> []" "6 \<le> PBUF_DATA_SIZE" "pkt_len demo_pkt = 8"
    by (simp_all add: demo_pkt_def demo_frag_def PBUF_DATA_SIZE_def)
  then show ?thesis using pbuf_pullup_contiguous [OF demo_pkt_ok, of 6] by auto
qed

section \<open>Writing\<close>

lemma bufs_inv_perm:
  assumes "mset (map pb_data pbs) = mset (map pb_data qbs)" "mset (map pb_self pbs) = mset (map pb_self qbs)"
  shows "bufs_inv nb pbs = bufs_inv nb qbs" "same_bufs nb0 p0 nb pbs = same_bufs nb0 p0 nb qbs"
    "same_bufs nb pbs nb0 p0 = same_bufs nb qbs nb0 p0"
proof -
  have d: "mset (data_addrs nb pbs) = mset (data_addrs nb qbs)" "mset (self_addrs nb pbs) = mset (self_addrs nb qbs)"
    using assms by (simp_all add: data_addrs_def self_addrs_def)
  show "bufs_inv nb pbs = bufs_inv nb qbs"
    using addrs_ok_mset [OF d(1)] addrs_ok_mset [OF d(2)] mset_eq_setD [OF d(1)] by (simp add: bufs_inv_def)
  show "same_bufs nb0 p0 nb pbs = same_bufs nb0 p0 nb qbs" "same_bufs nb pbs nb0 p0 = same_bufs nb qbs nb0 p0"
    using d by (simp_all add: same_bufs_def)
qed

lemma pbuf_free_inv:
  "bufs_inv nb pbs \<Longrightarrow> \<exists>nb'. pbuf_free pbs nb = Some nb' \<and> bufs_inv nb' [] \<and> nb_mem nb' = nb_mem nb \<and>
     same_bufs nb pbs nb' []"
proof (induction pbs arbitrary: nb)
  case Nil
  then show ?case by (simp add: pbuf_free_def)
next
  case (Cons pb pbs)
  obtain nb1 where nb1: "pbuf_put_both pb nb = Some nb1" "bufs_inv nb1 pbs" "nb_mem nb1 = nb_mem nb"
    "same_bufs nb (pb # pbs) nb1 pbs" using pbuf_put_both_inv [OF Cons.prems] by blast
  then show ?case using Cons.IH [OF nb1(2)] same_bufs_trans by (fastforce simp: pbuf_free_def)
qed

text \<open>Taking a structure and a data buffer from the pools without waiting.\<close>

lemma pbuf_write_fragment_inv:
  assumes inv: "bufs_inv nb pbs"
  shows "\<exists>n nb'. pbuf_write_fragment off False nb = Some (n, nb') \<and> nb_mem nb' = nb_mem nb \<and>
    bufs_inv nb' (pbs @ n) \<and> same_bufs nb pbs nb' (pbs @ n) \<and>
    (n = [] \<and> (pp_avail (nb_pbufs nb) < 2 \<or> pp_avail (nb_datas nb) < 2) \<or> (\<exists>pb. n = [pb] \<and> pb_offset pb = off \<and> pb_buflen pb = 0 \<and> pb_pktlen pb = 0))"
proof (cases "pp_avail (nb_pbufs nb) < 2")
  case True
  then have "pbuf_write_fragment off False nb = Some ([], nb)"
    by (simp add: pbuf_write_fragment_def pbuf_get0_def pbuf_pool_get_def)
  then show ?thesis using inv True by simp
next
  case False
  have av: "pp_avail (nb_pbufs nb) = length (pp_items (nb_pbufs nb))"
    "pp_avail (nb_datas nb) = length (pp_items (nb_datas nb))" using inv by (simp_all add: bufs_inv_def)
  obtain a as where as: "pp_items (nb_pbufs nb) = a # as" using False av by (cases "pp_items (nb_pbufs nb)") auto
  have a: "a \<noteq> 0" "a mod 4 = 0"
    using inv as by (auto simp: bufs_inv_def addrs_ok_def self_addrs_def)
  let ?nb = "nb\<lparr>nb_pbufs := (nb_pbufs nb)\<lparr>pp_items := as, pp_avail := pp_avail (nb_pbufs nb) - 1\<rparr>\<rparr>"
  have g: "pbuf_get0 False nb = Some (a, ?nb)"
    using False as by (simp add: pbuf_get0_def pbuf_pool_get_def)
  show ?thesis
  proof (cases "pp_avail (nb_datas nb) < 2")
    case True
    then have d: "pbuf_data_get0 False ?nb = Some (0, ?nb)"
      by (simp add: pbuf_data_get0_def pbuf_pool_get_def)
    let ?nb2 = "?nb\<lparr>nb_pbufs := (nb_pbufs ?nb)\<lparr>pp_items := a # as,
        pp_wakeups := (if pp_avail (nb_pbufs ?nb) = 0 then pp_wakeups (nb_pbufs ?nb) + 1 else pp_wakeups (nb_pbufs ?nb)),
        pp_avail := pp_avail (nb_pbufs ?nb) + 1\<rparr>\<rparr>"
    have "pbuf_write_fragment off False nb = Some ([], ?nb2)"
      using g d a by (simp add: pbuf_write_fragment_def pbuf_put_def pbuf_pool_put_def)
    moreover have "bufs_inv ?nb2 pbs" "same_bufs nb pbs ?nb2 pbs"
      using inv as av False by (simp_all add: bufs_inv_def same_bufs_def data_addrs_def self_addrs_def)
    ultimately show ?thesis using True by auto
  next
    case dn: False
    obtain d ds where ds: "pp_items (nb_datas nb) = d # ds" using dn av by (cases "pp_items (nb_datas nb)") auto
    have d0: "d \<noteq> 0" using inv ds by (auto simp: bufs_inv_def addrs_ok_def data_addrs_def)
    let ?nb2 = "?nb\<lparr>nb_datas := (nb_datas nb)\<lparr>pp_items := ds, pp_avail := pp_avail (nb_datas nb) - 1\<rparr>\<rparr>"
    let ?n = "\<lparr>pb_self = a, pb_flags = PBUF_EOP, pb_credits = 0, pb_pktlen = 0,
        pb_offset = off, pb_buflen = 0, pb_data = d\<rparr>"
    have r: "pbuf_write_fragment off False nb = Some ([?n], ?nb2)"
      using g dn ds a d0 by (simp add: pbuf_write_fragment_def pbuf_data_get0_def pbuf_pool_get_def)
    have m: "mset (data_addrs ?nb2 (pbs @ [?n])) = mset (data_addrs nb pbs)"
      "mset (self_addrs ?nb2 (pbs @ [?n])) = mset (self_addrs nb pbs)"
      using as ds by (simp_all add: data_addrs_def self_addrs_def)
    have "bufs_inv ?nb2 (pbs @ [?n])"
      using inv as ds av addrs_ok_mset [OF m(1)] addrs_ok_mset [OF m(2)] mset_eq_setD [OF m(1)]
      by (simp add: bufs_inv_def)
    then show ?thesis using r m by (auto simp: same_bufs_def)
  qed
qed

lemma pkt_append_simps [simp]:
  "pkt_bytes mem (xs @ ys) = pkt_bytes mem xs @ pkt_bytes mem ys"
  "frags_ok (xs @ ys) \<longleftrightarrow> frags_ok xs \<and> frags_ok ys" "pkt_len (xs @ ys) = pkt_len xs + pkt_len ys"
  by (auto simp: pkt_bytes_def frags_ok_def pkt_len_def)

text \<open>Writing into the last fragment, which has room.\<close>

lemma pbuf_write_into_last:
  assumes ok: "pkt_ok nb (pre @ [pb])" and room: "pb_offset pb = 0" "pb_buflen pb + n \<le> PBUF_DATA_SIZE"
    and d: "length d = n" and len: "pkt_len (pre @ [pb]) + n < 65536"
  shows "\<exists>m pbs'. buf_copy (nb_mem nb (pb_data pb)) (pb_buflen pb) d = Some m \<and>
    (let pbs = set_head_pktlen (add16 (pb_pktlen (hd (pre @ [pb]))) n) (pre @ [pb]); q = last pbs
     in butlast pbs @ [q\<lparr>pb_buflen := pb_buflen q + n\<rparr>]) = pbs' \<and>
    pkt_ok (nb\<lparr>nb_mem := (nb_mem nb)(pb_data pb := m)\<rparr>) pbs' \<and>
    same_bufs nb (pre @ [pb]) (nb\<lparr>nb_mem := (nb_mem nb)(pb_data pb := m)\<rparr>) pbs' \<and>
    pkt_bytes ((nb_mem nb)(pb_data pb := m)) pbs' = pkt_bytes (nb_mem nb) (pre @ [pb]) @ d \<and>
    pbs' \<noteq> [] \<and> pb_offset (last pbs') = 0 \<and> pb_buflen (last pbs') = pb_buflen pb + n \<and>
    pkt_len pbs' = pkt_len (pre @ [pb]) + n"
proof -
  have inv: "bufs_inv nb (pre @ [pb])" "frags_ok (pre @ [pb])"
    and hl: "pb_pktlen (hd (pre @ [pb])) = pkt_len (pre @ [pb])" using ok by (auto simp: pkt_ok_def)
  have fl: "length (nb_mem nb (pb_data pb)) = PBUF_DATA_SIZE" using frag_length(2) [OF inv] by simp
  obtain m where cp: "buf_copy (nb_mem nb (pb_data pb)) (pb_buflen pb) d = Some m"
    using room d fl by (auto simp: buf_copy_def)
  have grow: "frag_bytes ((nb_mem nb)(pb_data pb := m)) (pb\<lparr>pb_buflen := pb_buflen pb + n\<rparr>) =
      frag_bytes (nb_mem nb) pb @ d" "length m = length (nb_mem nb (pb_data pb))"
    using frag_grow [where mem = "nb_mem nb" and pb = pb and d = d and m = m] cp room d by simp_all
  have "bufs_inv nb (pb # pre)" using inv(1) bufs_inv_perm(1) [of "pb # pre" "pre @ [pb]"] by simp
  then have neq: "\<And>x. x \<in> set pre \<Longrightarrow> pb_data x \<noteq> pb_data pb" using bufs_inv_distinct by blast
  have bpre: "pkt_bytes ((nb_mem nb)(pb_data pb := m)) pre = pkt_bytes (nb_mem nb) pre"
    using neq by (intro pkt_bytes_cong) auto
  let ?L = "add16 (pb_pktlen (hd (pre @ [pb]))) n"
  have L: "?L = pkt_len (pre @ [pb]) + n" using hl len by (simp add: add16_def)
  define pbs' where "pbs' = (let pbs = set_head_pktlen ?L (pre @ [pb]); q = last pbs
     in butlast pbs @ [q\<lparr>pb_buflen := pb_buflen q + n\<rparr>])"
  let ?nb = "nb\<lparr>nb_mem := (nb_mem nb)(pb_data pb := m)\<rparr>"
  have form: "pbs' = (case pre of [] \<Rightarrow> [pb\<lparr>pb_pktlen := ?L, pb_buflen := pb_buflen pb + n\<rparr>]
      | p # ps \<Rightarrow> p\<lparr>pb_pktlen := ?L\<rparr> # ps @ [pb\<lparr>pb_buflen := pb_buflen pb + n\<rparr>])"
    by (simp add: pbs'_def Let_def set_head_pktlen_def split: list.splits)
  have maps: "map pb_data pbs' = map pb_data (pre @ [pb])" "map pb_self pbs' = map pb_self (pre @ [pb])"
    by (simp_all add: form split: list.splits)
  have "bufs_inv ?nb pbs'"
    using bufs_inv_mem [OF inv(1), of "(nb_mem nb)(pb_data pb := m)"] grow(2) bufs_inv_cong(1) [OF maps, of ?nb] by auto
  moreover have "frags_ok pbs'" "pkt_len pbs' = pkt_len (pre @ [pb]) + n" "pb_pktlen (hd pbs') = ?L"
    using inv(2) room by (auto simp: form split: list.splits)
  moreover have "pkt_bytes ((nb_mem nb)(pb_data pb := m)) pbs' = pkt_bytes (nb_mem nb) (pre @ [pb]) @ d"
  proof -
    have k: "frag_bytes mem (x\<lparr>pb_pktlen := k\<rparr>) = frag_bytes mem x" for mem x k by (simp add: frag_bytes_def)
    have "pkt_bytes ((nb_mem nb)(pb_data pb := m)) pbs' =
        pkt_bytes ((nb_mem nb)(pb_data pb := m)) pre @
        frag_bytes ((nb_mem nb)(pb_data pb := m)) (pb\<lparr>pb_buflen := pb_buflen pb + n\<rparr>)"
      by (auto simp: form pkt_bytes_def k frag_bytes_def split: list.splits)
    then show ?thesis using bpre grow(1) by (simp add: pkt_bytes_Cons) (simp add: pkt_bytes_def)
  qed
  moreover have "same_bufs nb (pre @ [pb]) ?nb pbs'"
    using maps by (simp add: same_bufs_def data_addrs_def self_addrs_def)
  moreover have "pbs' \<noteq> []" "pb_offset (last pbs') = 0" "pb_buflen (last pbs') = pb_buflen pb + n"
    using room by (auto simp: form split: list.splits)
  ultimately show ?thesis using cp L unfolding pbs'_def [symmetric] by (auto simp: pkt_ok_def)
qed

lemma same_bufs_avail:
  assumes "same_bufs nb pbs nb' pbs'" "bufs_inv nb pbs" "bufs_inv nb' pbs'"
  shows "pp_avail (nb_pbufs nb') + length pbs' = pp_avail (nb_pbufs nb) + length pbs"
    "pp_avail (nb_datas nb') + length pbs' = pp_avail (nb_datas nb) + length pbs"
proof -
  have "length (self_addrs nb' pbs') = length (self_addrs nb pbs)" "length (data_addrs nb' pbs') = length (data_addrs nb pbs)"
    using assms(1) mset_eq_length by (auto simp: same_bufs_def)
  then show "pp_avail (nb_pbufs nb') + length pbs' = pp_avail (nb_pbufs nb) + length pbs"
    "pp_avail (nb_datas nb') + length pbs' = pp_avail (nb_datas nb) + length pbs"
    using assms(2,3) by (auto simp: bufs_inv_def self_addrs_def data_addrs_def)
qed

text \<open>The two kinds of turn of the write loop: copy into the last fragment, or add one first.\<close>

lemma pbuf_write_loop_room:
  assumes "d \<noteq> []" "pb_buflen pb < F" "pb_offset pb = 0"
    "buf_copy (nb_mem nb (pb_data pb)) (pb_buflen pb) (take n d) = Some m" "n = min (length d) (F - pb_buflen pb)"
  shows "pbuf_write_loop (pre @ [pb]) d F po w nb =
    pbuf_write_loop (let pbs = set_head_pktlen (add16 (pb_pktlen (hd (pre @ [pb]))) n) (pre @ [pb]); q = last pbs
      in butlast pbs @ [q\<lparr>pb_buflen := pb_buflen q + n\<rparr>]) (drop n d) F po w (nb\<lparr>nb_mem := (nb_mem nb)(pb_data pb := m)\<rparr>)"
proof -
  have r: "nat (int F - int (pb_buflen pb)) = F - pb_buflen pb" "\<not> int F - int (pb_buflen pb) < 0"
    using assms(2) by auto
  show ?thesis
    using assms(1-4) r unfolding assms(5)
    by (subst pbuf_write_loop.simps) (simp add: Let_def)
qed

lemma pbuf_write_loop_full:
  assumes "d \<noteq> []" "F \<le> pb_buflen pb" "0 < F"
    "pbuf_write_fragment po w nb = Some (n, nb1)" "n = [] \<or> pb_buflen (last n) = 0"
  shows "pbuf_write_loop (pre @ [pb]) d F po w nb =
    (if n = [] then do {nb2 \<leftarrow> pbuf_free (pre @ [pb\<lparr>pb_flags := pb_flags pb AND NOT PBUF_EOP\<rparr>]) nb1; Some ([], nb2)}
     else pbuf_write_loop ((pre @ [pb\<lparr>pb_flags := pb_flags pb AND NOT PBUF_EOP\<rparr>]) @ n) d F po w nb1)"
proof (cases "n = []")
  case True
  then show ?thesis using assms by (subst pbuf_write_loop.simps) simp
next
  case False
  then have l: "last (pre @ pb\<lparr>pb_flags := pb_flags pb AND NOT PBUF_EOP\<rparr> # n) = last n" "\<not> F \<le> pb_buflen (last n)"
    using assms by auto
  show ?thesis using assms False l
    by (subst (1 2) pbuf_write_loop.simps) (simp add: Let_def)
qed

lemma pbuf_write_loop_appends:
  assumes "pkt_ok nb pbs" "pbs \<noteq> []" "pb_offset (last pbs) = 0" "pb_buflen (last pbs) \<le> F"
    "0 < F" "F \<le> PBUF_DATA_SIZE" "pkt_len pbs + length d < 65536"
  shows "\<exists>pbs' nb'. pbuf_write_loop pbs d F 0 False nb = Some (pbs', nb') \<and> same_bufs nb pbs nb' pbs' \<and>
    bufs_inv nb' pbs' \<and>
    (if pbs' = [] then pp_avail (nb_pbufs nb) \<le> (pb_buflen (last pbs) + length d) div F \<or>
        pp_avail (nb_datas nb) \<le> (pb_buflen (last pbs) + length d) div F
     else pkt_ok nb' pbs' \<and> pkt_bytes (nb_mem nb') pbs' = pkt_bytes (nb_mem nb) pbs @ d)"
  using assms
proof (induction "2 * length d + (if pb_buflen (last pbs) = F then 1 else 0)" arbitrary: pbs nb d rule: less_induct)
  case less
  note ok = less.prems(1) and F = less.prems(5,6) and len = less.prems(7)
  obtain pre pb where p: "pbs = pre @ [pb]" using less.prems(2) by (metis rev_exhaust)
  have pb: "pb_offset pb = 0" "pb_buflen pb \<le> F" using less.prems(3,4) p by auto
  have inv: "bufs_inv nb pbs" using ok by (simp add: pkt_ok_def)
  consider "d = []" | "d \<noteq> []" "pb_buflen pb < F" | "d \<noteq> []" "pb_buflen pb = F" using pb(2) by fastforce
  then show ?case
  proof cases
    case 1
    then show ?thesis using ok inv less.prems(2) by (subst pbuf_write_loop.simps) simp
  next
    case 2
    define n where "n = min (length d) (F - pb_buflen pb)"
    have n: "0 < n" "n \<le> length d" "pb_buflen pb + n \<le> F" using 2 by (auto simp: n_def)
    obtain m qbs where q: "buf_copy (nb_mem nb (pb_data pb)) (pb_buflen pb) (take n d) = Some m"
      "(let pbs = set_head_pktlen (add16 (pb_pktlen (hd (pre @ [pb]))) n) (pre @ [pb]); q = last pbs
        in butlast pbs @ [q\<lparr>pb_buflen := pb_buflen q + n\<rparr>]) = qbs"
      "pkt_ok (nb\<lparr>nb_mem := (nb_mem nb)(pb_data pb := m)\<rparr>) qbs"
      "same_bufs nb (pre @ [pb]) (nb\<lparr>nb_mem := (nb_mem nb)(pb_data pb := m)\<rparr>) qbs"
      "pkt_bytes ((nb_mem nb)(pb_data pb := m)) qbs = pkt_bytes (nb_mem nb) (pre @ [pb]) @ take n d"
      "qbs \<noteq> []" "pb_offset (last qbs) = 0" "pb_buflen (last qbs) = pb_buflen pb + n"
      "pkt_len qbs = pkt_len (pre @ [pb]) + n"
      using pbuf_write_into_last [where n = n and d = "take n d" and pre = pre and pb = pb and nb = nb] ok p pb n F len
      by fastforce
    have l: "pb_buflen (last qbs) + length (drop n d) = pb_buflen (last pbs) + length d" using q(8) n p by simp
    have st: "pbuf_write_loop pbs d F 0 False nb =
        pbuf_write_loop qbs (drop n d) F 0 False (nb\<lparr>nb_mem := (nb_mem nb)(pb_data pb := m)\<rparr>)"
      using pbuf_write_loop_room [OF 2 pb(1) q(1) n_def, where po = 0 and w = False and pre = pre] q(2) p by simp
    show ?thesis
      using less.hyps [of "drop n d" qbs "nb\<lparr>nb_mem := (nb_mem nb)(pb_data pb := m)\<rparr>"] q n F len p l st
        same_bufs_trans [OF q(4)] by (fastforce split: if_splits)
  next
    case 3
    let ?pb = "pb\<lparr>pb_flags := pb_flags pb AND NOT PBUF_EOP\<rparr>"
    have maps: "map pb_data (pre @ [?pb]) = map pb_data pbs" "map pb_self (pre @ [?pb]) = map pb_self pbs" using p by simp_all
    note cg = bufs_inv_cong [OF maps]
    obtain n nb1 where f: "pbuf_write_fragment 0 False nb = Some (n, nb1)" "nb_mem nb1 = nb_mem nb"
      "bufs_inv nb1 ((pre @ [?pb]) @ n)" "same_bufs nb (pre @ [?pb]) nb1 ((pre @ [?pb]) @ n)"
      "n = [] \<and> (pp_avail (nb_pbufs nb) < 2 \<or> pp_avail (nb_datas nb) < 2) \<or>
        (\<exists>q. n = [q] \<and> pb_offset q = 0 \<and> pb_buflen q = 0 \<and> pb_pktlen q = 0)"
      using pbuf_write_fragment_inv [of nb "pre @ [?pb]" 0] inv cg by metis
    have st: "pbuf_write_loop pbs d F 0 False nb =
      (if n = [] then do {nb2 \<leftarrow> pbuf_free (pre @ [?pb]) nb1; Some ([], nb2)}
       else pbuf_write_loop ((pre @ [?pb]) @ n) d F 0 False nb1)"
      unfolding p using 3 F f(5) by (intro pbuf_write_loop_full [OF _ _ _ f(1)]) auto
    have dv: "1 \<le> (pb_buflen (last pbs) + length d) div F" using 3 F p by (simp add: div_add_self1)
    show ?thesis
    proof (cases "n = []")
      case True
      then show ?thesis using pbuf_free_inv [of nb1 "pre @ [?pb]"] f(3-5) st dv same_bufs_trans cg(3)
        by fastforce
    next
      case False
      then obtain q where q: "n = [q]" "pb_offset q = 0" "pb_buflen q = 0" using f(5) by auto
      have ok1: "pkt_ok nb1 ((pre @ [?pb]) @ n)"
        using ok f(3) q p by (cases pre) (auto simp: pkt_ok_def PBUF_DATA_SIZE_def)
      have by1: "pkt_bytes (nb_mem nb1) ((pre @ [?pb]) @ n) = pkt_bytes (nb_mem nb) pbs"
        using f(2) q p by (simp add: pkt_bytes_Cons) (simp add: pkt_bytes_def frag_bytes_def)
      have av: "pp_avail (nb_pbufs nb1) + 1 = pp_avail (nb_pbufs nb)" "pp_avail (nb_datas nb1) + 1 = pp_avail (nb_datas nb)"
        using same_bufs_avail [OF f(4) _ f(3)] inv cg q by auto
      have dv': "(pb_buflen (last pbs) + length d) div F = length d div F + 1" using 3 F p by (simp add: div_add_self1)
      have sb: "same_bufs nb pbs nb1 ((pre @ [?pb]) @ n)" using f(4) cg(3) by simp
      have pl: "pkt_len ((pre @ [?pb]) @ n) = pkt_len pbs" using q p by simp
      define qbs where "qbs = (pre @ [?pb]) @ n"
      have lq: "qbs \<noteq> []" "pb_buflen (last qbs) = 0" "pb_offset (last qbs) = 0" using q by (auto simp: qbs_def)
      have "2 * length d + (if pb_buflen (last qbs) = F then 1 else 0)
          < 2 * length d + (if pb_buflen (last pbs) = F then 1 else 0)" using lq F 3 p by simp
      from less.hyps [OF this ok1 [folded qbs_def] lq(1) lq(3) _ F] obtain pbs' nb' where
        r: "pbuf_write_loop qbs d F 0 False nb1 = Some (pbs', nb')" "same_bufs nb1 qbs nb' pbs'" "bufs_inv nb' pbs'"
          "if pbs' = [] then pp_avail (nb_pbufs nb1) \<le> (pb_buflen (last qbs) + length d) div F \<or>
              pp_avail (nb_datas nb1) \<le> (pb_buflen (last qbs) + length d) div F
           else pkt_ok nb' pbs' \<and> pkt_bytes (nb_mem nb') pbs' = pkt_bytes (nb_mem nb1) qbs @ d"
        using pl [folded qbs_def] len lq(2) by (metis le0)
      show ?thesis using r st [folded qbs_def] False same_bufs_trans [OF sb [folded qbs_def] r(2)] by1 [folded qbs_def] av dv' lq(2)
        by (auto split: if_splits)
    qed
  qed
qed

text \<open>C31. Writing to a packet without waiting (fragments without a preferred offset) always
  returns. Either every byte is appended to the packet, spread over as many new fragments as
  needed and with the head's length right, or the whole packet is freed; no buffer is lost or
  duplicated either way. It fails only when a pool has too few buffers for the data.\<close>

theorem pbuf_write_appends:
  assumes "pkt_ok nb pbs" "pbs \<noteq> []" "pb_offset (last pbs) = 0" "pb_buflen (last pbs) \<le> F"
    "0 < F" "F \<le> PBUF_DATA_SIZE" "pkt_len pbs + length d < 65536"
  shows "\<exists>pbs' nb'. pbuf_write pbs d F 0 False nb = Some (pbs', nb') \<and> same_bufs nb pbs nb' pbs' \<and>
    bufs_inv nb' pbs' \<and>
    (if pbs' = [] then pp_avail (nb_pbufs nb) \<le> (pb_buflen (last pbs) + length d) div F \<or>
        pp_avail (nb_datas nb) \<le> (pb_buflen (last pbs) + length d) div F
     else pkt_ok nb' pbs' \<and> pkt_bytes (nb_mem nb') pbs' = pkt_bytes (nb_mem nb) pbs @ d)"
  using pbuf_write_loop_appends [OF assms] assms(2) by (simp add: pbuf_write_def)

definition demo_wpkt :: "pbuf list" where
  "demo_wpkt = [(demo_frag 112 5632 3 3 PBUF_SOP)\<lparr>pb_offset := 0\<rparr>]"

theorem pbuf_write_appends_witness:
  "\<exists>pbs' nb'. pbuf_write demo_wpkt [1, 2, 3, 4, 5] 4 0 False demo_bufs = Some (pbs', nb') \<and> pbs' \<noteq> [] \<and>
     pkt_bytes (nb_mem nb') pbs' = [7, 7, 7, 1, 2, 3, 4, 5]"
proof -
  have w: "pkt_ok demo_bufs demo_wpkt" "demo_wpkt \<noteq> []" "pb_offset (last demo_wpkt) = 0" "pb_buflen (last demo_wpkt) \<le> 4"
    "pkt_len demo_wpkt + length [1 :: u8, 2, 3, 4, 5] < 65536"
    by (simp_all add: demo_wpkt_def pkt_ok_def bufs_inv_def demo_bufs_def demo_frag_def addrs_ok_def
      data_addrs_def self_addrs_def PBUF_DATA_SIZE_def)
  moreover have "pkt_bytes (nb_mem demo_bufs) demo_wpkt = [7, 7, 7]"
    by (simp add: pkt_bytes_def frag_bytes_def demo_bufs_def demo_wpkt_def demo_frag_def PBUF_DATA_SIZE_def)
      (simp add: numeral_eq_Suc)
  moreover have "pp_avail (nb_pbufs demo_bufs) = 3" "pp_avail (nb_datas demo_bufs) = 3" "pb_buflen (last demo_wpkt) = 3"
    by (simp_all add: demo_bufs_def demo_wpkt_def demo_frag_def)
  ultimately show ?thesis
    using pbuf_write_appends [OF w(1-4), where d = "[1, 2, 3, 4, 5]"] by (auto simp: PBUF_DATA_SIZE_def split: if_splits)
qed

section \<open>Behaviour outside the contract\<close>

text \<open>
  With a preferred offset the loop compares the fill level with the fragment size, but the
  room left subtracts the offset too: a fragment whose offset and content reach the fragment
  size gets no byte and no successor, and the call never returns.
\<close>

lemma pbuf_write_offset_stuck:
  assumes "pb_buflen (last pbs) + pb_offset (last pbs) = F" "0 < pb_offset (last pbs)" "pbs \<noteq> []" "d \<noteq> []"
  shows "pbuf_write pbs d F po wait nb = None"
proof -
  have "\<not> (pb_buflen (last pbs) + pb_offset (last pbs) = F \<and> 0 < pb_offset (last pbs) \<and> pbs \<noteq> [] \<and> d \<noteq> [])"
    if ret: "pbuf_write_loop pbs d F po wait nb = Some r" for r
    apply (rule pbuf_write_loop.raw_induct [where P = "\<lambda>pbs d F po wait nb r.
      \<not> (pb_buflen (last pbs) + pb_offset (last pbs) = F \<and> 0 < pb_offset (last pbs) \<and> pbs \<noteq> [] \<and> d \<noteq> [])", OF _ ret])
    subgoal premises 1 for self pbs d F po wait nb r
    proof
      assume c: "pb_buflen (last pbs) + pb_offset (last pbs) = F \<and> 0 < pb_offset (last pbs) \<and> pbs \<noteq> [] \<and> d \<noteq> []"
      then have f: "\<not> F \<le> pb_buflen (last pbs)" "int F - int (pb_buflen (last pbs)) - int (pb_offset (last pbs)) = 0"
        by auto
      define qbs where "qbs = set_head_pktlen (add16 (pb_pktlen (hd pbs)) 0) pbs"
      have q: "qbs \<noteq> []" "pb_buflen (last qbs) = pb_buflen (last pbs)" "pb_offset (last qbs) = pb_offset (last pbs)"
        using c by (cases pbs; simp add: qbs_def set_head_pktlen_def)+
      obtain nb' where "self (butlast qbs @ [(last qbs)\<lparr>pb_buflen := pb_buflen (last qbs)\<rparr>]) d F po wait nb' = Some r"
        using 1(2) c f by (auto simp: Let_def qbs_def Option.bind_eq_Some_conv)
      then show False using 1(1) c q by fastforce
    qed
    done
  then show ?thesis using assms by (cases "pbuf_write_loop pbs d F po wait nb") (auto simp: pbuf_write_def)
qed

text \<open>Reading at an offset takes as many bytes from the first fragment as the fragment has in
  total, counted from the offset: bytes past the end of the fragment.\<close>

lemma pbuf_read_at_past_fragment:
  "pbuf_read_at demo_pkt 1 4 (\<lambda>_. map of_nat [0..<20]) = Some (0, [11, 12, 13, 10])"
  by (simp add: pbuf_read_at_def demo_pkt_def demo_frag_def pbuf_read_at_loop.simps buf_slice_def numeral_eq_Suc upt_rec)

end
