(* ===== verification/Stdio.thy ===== *)
theory Stdio
  imports Cstring
begin

text \<open>
  The formatter of \<^verbatim>\<open>src/lib/libc/stdio.c\<close>. The code hands its output in pieces to a callback;
  here every routine returns the list of the pieces, one per call of the callback. The
  callbacks of the source all return the length they are given, so the totals that the code
  adds up are the sums of the lengths of the pieces. The argument list is a list of tagged
  values; a directive that finds no argument, or one of the wrong kind, is \<^const>\<open>None\<close>, as is a
  read outside a string. The configuration is the one with IPv4, floating point and 64-bit
  support; the parameter \<open>lp64\<close> tells whether \<^verbatim>\<open>long\<close> has 64 bits. The fixed point directive
  belongs to the vendored fixmath library and is left out. Characters are unsigned, as on ARM.
\<close>

section \<open>Data\<close>

datatype fmt_arg =
    Arg_int u32
  | Arg_64 u64
  | Arg_str "bytes option"
  | Arg_double u64
  | Arg_ptr u64

record fmtparam =
  fp_width :: int
  fp_decimals :: int
  fp_lz :: bool
  fp_la :: bool
  fp_plus :: bool
  fp_sign_pad :: bool
  fp_ipv4 :: bool

definition INT16_MIN :: int where "INT16_MIN = -32768"

text \<open>Assignment of an \<^verbatim>\<open>int\<close> to an \<^verbatim>\<open>int16_t\<close>.\<close>

definition to_int16 :: "u32 \<Rightarrow> int" where
  "to_int16 x = sint (ucast x :: u16)"

definition hexdigits :: bytes where
  "hexdigits = [48, 49, 50, 51, 52, 53, 54, 55, 56, 57, 97, 98, 99, 100, 101, 102]"

section \<open>Output of one value\<close>

definition emit_repeated_char :: "int \<Rightarrow> u8 \<Rightarrow> bytes list" where
  "emit_repeated_char len c = (if len < 0 then [] else replicate (nat len) [c])"

text \<open>The subtraction of the length, a \<^verbatim>\<open>size_t\<close>, wraps before the pad becomes an \<^verbatim>\<open>int\<close>.\<close>

definition emit_str :: "bytes option \<Rightarrow> fmtparam \<Rightarrow> bytes list option" where
  "emit_str str fp =
     (case str of
        None \<Rightarrow> Some [[40, 110, 117, 108, 108, 41]]
      | Some str \<Rightarrow> do {
          sl \<leftarrow> (if fp_decimals fp \<noteq> INT16_MIN then Some (of_int (fp_decimals fp) :: u32)
                 else map_option of_nat (strlen str));
          let pad = sint (of_int (fp_width fp) - sl);
          d \<leftarrow> buf_slice str 0 (unat sl);
          Some ((if \<not> fp_la fp then emit_repeated_char pad 32 else []) @ [d] @
                (if fp_la fp then emit_repeated_char pad 32 else []))
        })"

function hexdump_loop :: "bytes \<Rightarrow> bool \<Rightarrow> nat \<Rightarrow> nat \<Rightarrow> bytes list option" where
  "hexdump_loop data la i len =
     (if i < len then do {
        v \<leftarrow> buf_rd data i;
        let buf = [hexdigits ! unat (drop_bit 4 v), hexdigits ! unat (v AND 0xf), 46];
        r \<leftarrow> hexdump_loop data la (i + 1) len;
        Some (take (if la \<and> i \<noteq> len - 1 then 3 else 2) buf # r)
      } else Some [])"
  by pat_completeness auto
termination
  by (relation "measure (\<lambda>(data, la, i, len). len - i)") auto

declare hexdump_loop.simps [simp del]

definition emit_hexdump :: "bytes \<Rightarrow> fmtparam \<Rightarrow> nat \<Rightarrow> bytes list option" where
  "emit_hexdump data fp len = hexdump_loop data (fp_la fp) 0 len"

definition emit_intstr :: "fmtparam \<Rightarrow> bool \<Rightarrow> bytes \<Rightarrow> nat \<Rightarrow> bytes list" where
  "emit_intstr fp neg buf digits =
     (let pad = fp_width fp - (int digits + (if neg then 1 else 0)) in
      (if \<not> fp_la fp then emit_repeated_char pad (if fp_lz fp then 48 else 32) else []) @
      (if neg then [[45]] else []) @
      [drop (length buf - digits) buf] @
      (if fp_la fp then emit_repeated_char pad 32 else []))"

text \<open>
  The digit loops of the four number printers: \<open>n\<close> turns, turn \<open>i\<close> writing the digit of
  weight \<open>base ^ i\<close> at index \<open>n - 1 - i\<close> and noting the last one that is not zero.
\<close>

function dec_loop :: "nat \<Rightarrow> nat \<Rightarrow> 'a::len word \<Rightarrow> bytes \<Rightarrow> nat \<Rightarrow> bytes \<times> nat" where
  "dec_loop n i x buf digits =
     (if i < n then
        let d = x mod 10; buf = buf[n - 1 - i := 48 + ucast d]
        in dec_loop n (i + 1) (x div 10) buf (if d \<noteq> 0 then i + 1 else digits)
      else (buf, digits))"
  by pat_completeness auto
termination
  by (relation "measure (\<lambda>(n, i, x, buf, digits). n - i)") auto

function hex_loop :: "nat \<Rightarrow> nat \<Rightarrow> 'a::len word \<Rightarrow> bytes \<Rightarrow> nat \<Rightarrow> bytes \<times> nat" where
  "hex_loop n i x buf digits =
     (if i < n then
        let d = x AND 0xf; buf = buf[n - 1 - i := hexdigits ! unat d]
        in hex_loop n (i + 1) (drop_bit 4 x) buf (if d \<noteq> 0 then i + 1 else digits)
      else (buf, digits))"
  by pat_completeness auto
termination
  by (relation "measure (\<lambda>(n, i, x, buf, digits). n - i)") auto

declare dec_loop.simps [simp del] hex_loop.simps [simp del]

definition emit_u32 :: "fmtparam \<Rightarrow> bool \<Rightarrow> u32 \<Rightarrow> bytes list" where
  "emit_u32 fp neg x =
     (let (buf, digits) = dec_loop 10 0 x (replicate 10 0) 1 in emit_intstr fp neg buf digits)"

definition emit_u64 :: "fmtparam \<Rightarrow> bool \<Rightarrow> u64 \<Rightarrow> bytes list" where
  "emit_u64 fp neg x =
     (let (buf, digits) = dec_loop 20 0 x (replicate 20 0) 1 in emit_intstr fp neg buf digits)"

definition emit_s64 :: "fmtparam \<Rightarrow> u64 \<Rightarrow> bytes list" where
  "emit_s64 fp x = (if sint x < 0 then emit_u64 fp True (- x) else emit_u64 fp False x)"

definition emit_hexstr :: "fmtparam \<Rightarrow> bytes \<Rightarrow> nat \<Rightarrow> bytes list" where
  "emit_hexstr fp buf digits =
     (if fp_width fp > int digits
      then replicate (nat (fp_width fp - int digits)) [if fp_lz fp then 48 else 32] else []) @
     [drop (length buf - digits) buf]"

definition emit_x64 :: "u64 \<Rightarrow> fmtparam \<Rightarrow> bytes list" where
  "emit_x64 x fp = (let (buf, digits) = hex_loop 16 0 x (replicate 16 0) 1 in emit_hexstr fp buf digits)"

text \<open>\<^verbatim>\<open>ntohl\<close> swaps the bytes: the targets are little-endian.\<close>

definition ntohl :: "u32 \<Rightarrow> u32" where
  "ntohl x = (case le32 x of [a, b, c, d] \<Rightarrow> le32_dec d c b a | _ \<Rightarrow> 0)"

definition emit_s32 :: "fmtparam \<Rightarrow> u32 \<Rightarrow> bytes list" where
  "emit_s32 fp x =
     (if fp_ipv4 fp then
        let x = ntohl x in
        emit_u32 fp False (signed_drop_bit 24 x AND 0xff) @ [[46]] @
        emit_u32 fp False (signed_drop_bit 16 x AND 0xff) @ [[46]] @
        emit_u32 fp False (signed_drop_bit 8 x AND 0xff) @ [[46]] @
        emit_u32 fp False (x AND 0xff)
      else if sint x < 0 then emit_u32 fp True (- x)
      else emit_u32 fp False x)"

definition emit_x32 :: "u32 \<Rightarrow> fmtparam \<Rightarrow> bytes list" where
  "emit_x32 x fp = (let (buf, digits) = hex_loop 8 0 x (replicate 8 0) 1 in emit_hexstr fp buf digits)"

section \<open>Floating point\<close>

fun flt_count_lead :: "nat \<Rightarrow> int \<Rightarrow> int \<Rightarrow> int \<times> int" where
  "flt_count_lead 0 cnt significands = (cnt, significands)"
| "flt_count_lead (Suc k) cnt significands = flt_count_lead k (cnt + 1) (significands - 1)"

fun flt_count_digits :: "nat \<Rightarrow> int \<Rightarrow> int \<Rightarrow> int" where
  "flt_count_digits 0 cnt e10 = cnt"
| "flt_count_digits (Suc k) cnt e10 =
     (let cnt = cnt + 1; e10 = e10 - 1; cnt = (if e10 = 0 then cnt + 1 else cnt)
      in flt_count_digits k cnt e10)"

definition flt_count_output_chars :: "bool \<Rightarrow> int \<Rightarrow> int \<Rightarrow> fmtparam \<Rightarrow> int" where
  "flt_count_output_chars sign e10 significands fp =
     (let cnt = (if sign \<or> fp_plus fp \<or> fp_sign_pad fp then 1 else 0) in
      if e10 > 0 then flt_count_digits (nat (significands + e10)) cnt e10
      else let (cnt, significands) = flt_count_lead (nat (- e10)) (cnt + 2) significands in
        if significands \<le> 0 then cnt
        else flt_count_digits (nat significands) cnt e10)"

text \<open>
  The scaling of the binary exponent to a decimal one. The inner loops are the two
  \<^verbatim>\<open>do while\<close> loops; shifting a zero left never sets the top bit.
\<close>

function flt_shr :: "u64 \<Rightarrow> int \<Rightarrow> u64 \<times> int" where
  "flt_shr m e2 =
     (let m = drop_bit 1 m; e2 = e2 + 1 in
      if 0x33333333 \<le> (ucast (drop_bit 32 m) :: u32) then flt_shr m e2 else (m, e2))"
  by pat_completeness auto
termination
proof (relation "measure (\<lambda>(m, e2). unat m)", goal_cases)
  case (2 m e2 m' e2')
  have "m' \<noteq> 0" using 2(3) by auto
  then have "0 < unat m'" by (simp add: unat_gt_0)
  moreover have "unat m' = unat m div 2" using 2(1) by (simp add: unat_div drop_bit_eq_div)
  ultimately show ?case by simp
qed simp

declare flt_shr.simps [simp del]

partial_function (option) flt_shl :: "u64 \<Rightarrow> int \<Rightarrow> (u64 \<times> int) option" where
  "flt_shl m e2 =
     (let m = push_bit 1 m; e2 = e2 - 1 in
      if m AND push_bit 63 1 = 0 then flt_shl m e2 else Some (m, e2))"

lemma flt_shr_less: "flt_shr m e2 = (m', e2') \<Longrightarrow> e2 < e2'"
proof (induction m e2 rule: flt_shr.induct)
  case (1 m e2)
  show ?case using 1(2) 1(1) [OF refl refl] by (subst (asm) flt_shr.simps) (auto simp: Let_def split: if_splits)
qed

function flt_scale_up :: "u64 \<Rightarrow> int \<Rightarrow> int \<Rightarrow> u64 \<times> int \<times> int" where
  "flt_scale_up m e2 e10 =
     (if e2 < -2 then
        let (m, e2) = flt_shr m e2 in flt_scale_up (m * 5) (e2 + 1) (e10 - 1)
      else (m, e2, e10))"
  by pat_completeness auto
termination
proof (relation "measure (\<lambda>(m, e2, e10). nat (- e2))", goal_cases)
  case (2 m e2 e10 x m' e2')
  then have "e2 < e2'" using flt_shr_less [of m e2 m' e2'] by simp
  then show ?case using 2 by simp
qed simp

declare flt_scale_up.simps [simp del]

partial_function (option) flt_scale_down :: "u64 \<Rightarrow> int \<Rightarrow> int \<Rightarrow> (u64 \<times> int \<times> int) option" where
  "flt_scale_down m e2 e10 =
     (if e2 > 0 then do {
        (m, e2) \<leftarrow> flt_shl ((2 + m) div 5) (e2 - 1);
        flt_scale_down m e2 (e10 + 1)
      } else Some (m, e2, e10))"

text \<open>The zeros behind the point; the flag tells whether the digits follow.\<close>

fun flt_lead :: "nat \<Rightarrow> int \<Rightarrow> bytes list \<times> int \<times> bool" where
  "flt_lead 0 significands = ([], significands, True)"
| "flt_lead (Suc k) significands =
     (let significands = significands - 1 in
      if significands \<le> 0 then ([[48]], significands, False)
      else let (out, significands, more) = flt_lead k significands in ([48] # out, significands, more))"

fun flt_round :: "nat \<Rightarrow> u64 \<Rightarrow> u64" where
  "flt_round 0 r = r"
| "flt_round (Suc k) r = flt_round k (r div 10)"

fun flt_digits :: "nat \<Rightarrow> u64 \<Rightarrow> int \<Rightarrow> bytes list" where
  "flt_digits 0 m e10 = []"
| "flt_digits (Suc k) m e10 =
     (let m = m * 10; c = (ucast (drop_bit 60 m) :: u8); c = (if c > 9 then 9 else c);
          m = m AND 0x0fffffffffffffff; e10 = e10 - 1
      in [c + 48] # (if e10 = 0 then [[46]] else []) @ flt_digits k m e10)"

definition flt_unpack :: "u64 \<Rightarrow> (u64 \<times> int) option" where
  "flt_unpack bits =
     (let mantissa = bits AND (push_bit 52 1 - 1);
          e2 = int (unat (drop_bit 52 bits AND 0x7ff)) in
      if e2 = 0 then Some (0, 1)
      else do {
        let e2 = e2 - 1022;
        let m = push_bit 11 mantissa OR push_bit 63 1;
        let (m, e2, e10) = flt_scale_up m e2 0;
        (m, e2, e10) \<leftarrow> flt_scale_down m e2 e10;
        Some (drop_bit (nat (4 - e2)) m, e10)
      })"

definition float_to_str :: "u64 \<Rightarrow> fmtparam \<Rightarrow> bytes list option" where
  "float_to_str bits fp =
     (let sign = (drop_bit 63 bits \<noteq> 0);
          mantissa = bits AND (push_bit 52 1 - 1);
          e2 = int (unat (drop_bit 52 bits AND 0x7ff)) in
      if e2 = 2047 then
        emit_str (Some (if mantissa \<noteq> 0 then [110, 97, 110, 0] else if sign then [45, 105, 110, 102, 0]
                        else [43, 105, 110, 102, 0])) fp
      else do {
        (m, e10) \<leftarrow> flt_unpack bits;
        let significands = (if fp_decimals fp > 0 then fp_decimals fp else 6);
        let chars = flt_count_output_chars sign e10 significands fp;
        let pad = fp_width fp - chars;
        let lead = (if \<not> fp_la fp then emit_repeated_char pad 32 else []) @
           (if sign then [[45]] else if fp_plus fp then [[43]] else if fp_sign_pad fp then [[32]] else []);
        let tail = (if fp_la fp then emit_repeated_char pad 32 else []);
        let (zeros, significands, more_digits) =
          (if e10 > 0 then ([], significands + e10, True)
           else let (z, s, f) = flt_lead (nat (- e10)) significands in ([48, 46] # z, s, f));
        if \<not> more_digits then Some (lead @ zeros @ tail)
        else do {
          let m = m + flt_round (nat significands) (push_bit 59 1);
          Some (lead @ zeros @ flt_digits (nat significands) m e10 @ tail)
        }
      })"

section \<open>The format string\<close>

text \<open>A format is the memory from the current position on. \<^verbatim>\<open>parse_dec\<close> returns the default
  when there is no digit.\<close>

fun parse_dec_loop :: "bytes \<Rightarrow> u32 \<Rightarrow> (u32 \<times> bytes) option" where
  "parse_dec_loop [] acc = None"
| "parse_dec_loop (c # fmt) acc =
     (if c < 48 \<or> c > 57 then Some (acc, c # fmt)
      else parse_dec_loop fmt (acc * 10 + (ucast c - 48)))"

definition parse_dec :: "bytes \<Rightarrow> u32 \<Rightarrow> (u32 \<times> bytes) option" where
  "parse_dec fmt defval = do {
     c \<leftarrow> buf_rd fmt 0;
     if c < 48 \<or> c > 57 then Some (defval, fmt) else parse_dec_loop fmt 0
   }"

definition fmt_flags :: "bytes \<Rightarrow> (fmtparam \<times> bytes) option" where
  "fmt_flags fmt = do {
     let fp = \<lparr>fp_width = 0, fp_decimals = 0, fp_lz = False, fp_la = False, fp_plus = False,
               fp_sign_pad = False, fp_ipv4 = False\<rparr>;
     c \<leftarrow> buf_rd fmt 0;
     if c = 48 then Some (fp\<lparr>fp_lz := True\<rparr>, drop 1 fmt)
     else if c = 45 then Some (fp\<lparr>fp_la := True\<rparr>, drop 1 fmt)
     else if c = 43 then Some (fp\<lparr>fp_plus := True\<rparr>, drop 1 fmt)
     else Some (fp, fmt)
   }"

text \<open>\<^verbatim>\<open>va_arg(ap, int)\<close>.\<close>

fun va_int :: "fmt_arg list \<Rightarrow> (u32 \<times> fmt_arg list) option" where
  "va_int (Arg_int x # ap) = Some (x, ap)"
| "va_int _ = None"

definition fmt_number :: "bytes \<Rightarrow> fmt_arg list \<Rightarrow> u32 \<Rightarrow> (int \<times> bytes \<times> fmt_arg list) option" where
  "fmt_number fmt ap defval = do {
     c \<leftarrow> buf_rd fmt 0;
     if c = 42 then do { (x, ap) \<leftarrow> va_int ap; Some (to_int16 x, drop 1 fmt, ap) }
     else do { (x, fmt) \<leftarrow> parse_dec fmt defval; Some (to_int16 x, fmt, ap) }
   }"

definition fmt_length :: "bool \<Rightarrow> bytes \<Rightarrow> (bool \<times> bytes) option" where
  "fmt_length lp64 fmt =
     (if \<not> lp64 then do {
        c \<leftarrow> buf_rd fmt 0;
        (is64, fmt) \<leftarrow>
          (if c = 108 then do {
             let fmt = drop 1 fmt;
             c \<leftarrow> buf_rd fmt 0;
             Some (if c = 108 then (True, drop 1 fmt) else (False, fmt))
           } else Some (False, fmt));
        c \<leftarrow> buf_rd fmt 0;
        Some (is64, if c = 122 then drop 1 fmt else fmt)
      } else do {
        c \<leftarrow> buf_rd fmt 0;
        (is64, fmt) \<leftarrow>
          (if c = 108 then do {
             let fmt = drop 1 fmt;
             c \<leftarrow> buf_rd fmt 1;
             Some (True, if c = 108 then drop 1 fmt else fmt)
           } else Some (False, fmt));
        c \<leftarrow> buf_rd fmt 0;
        Some (if c = 122 then (True, drop 1 fmt) else (is64, fmt))
      })"

definition fmt_spec :: "bool \<Rightarrow> bytes \<Rightarrow> fmt_arg list \<Rightarrow> (fmtparam \<times> bool \<times> bytes \<times> fmt_arg list) option" where
  "fmt_spec lp64 fmt ap = do {
     (fp, fmt) \<leftarrow> fmt_flags fmt;
     (w, fmt, ap) \<leftarrow> fmt_number fmt ap (-1);
     c \<leftarrow> buf_rd fmt 0;
     (d, fmt, ap) \<leftarrow> (if c = 46 then fmt_number (drop 1 fmt) ap 0xffff8000 else Some (INT16_MIN, fmt, ap));
     c \<leftarrow> buf_rd fmt 0;
     let fmt = (if c = 73 then drop 1 fmt else fmt);
     (is64, fmt) \<leftarrow> fmt_length lp64 fmt;
     Some (fp\<lparr>fp_width := w, fp_decimals := d, fp_ipv4 := (c = 73)\<rparr>, is64, fmt, ap)
   }"

definition fmt_directive ::
  "bool \<Rightarrow> u8 \<Rightarrow> fmtparam \<Rightarrow> bool \<Rightarrow> fmt_arg list \<Rightarrow> (bytes list \<times> fmt_arg list) option" where
  "fmt_directive lp64 c fp is64 ap =
     (if c = 37 then Some ([[37]], ap)
      else if c = 99 then do { (x, ap) \<leftarrow> va_int ap; Some ([[ucast x]], ap) }
      else if c = 115 then
        (case ap of
           Arg_str str # ap \<Rightarrow>
             if fp_decimals fp \<noteq> INT16_MIN \<and> fp_decimals fp < 0 then do {
               data \<leftarrow> str;
               r \<leftarrow> emit_hexdump data fp (nat (- fp_decimals fp));
               Some (r, ap)
             } else do { r \<leftarrow> emit_str str fp; Some (r, ap) }
         | _ \<Rightarrow> None)
      else if c = 120 then
        (case ap of
           Arg_64 x # ap \<Rightarrow> if is64 then Some (emit_x64 x fp, ap) else None
         | Arg_int x # ap \<Rightarrow> if is64 then None else Some (emit_x32 x fp, ap)
         | _ \<Rightarrow> None)
      else if c = 100 then
        (case ap of
           Arg_64 x # ap \<Rightarrow> if is64 then Some (emit_s64 fp x, ap) else None
         | Arg_int x # ap \<Rightarrow> if is64 then None else Some (emit_s32 fp x, ap)
         | _ \<Rightarrow> None)
      else if c = 117 then
        (case ap of
           Arg_64 x # ap \<Rightarrow> if is64 then Some (emit_u64 fp False x, ap) else None
         | Arg_int x # ap \<Rightarrow> if is64 then None else Some (emit_u32 fp False x, ap)
         | _ \<Rightarrow> None)
      else if c = 102 then
        (case ap of Arg_double bits # ap \<Rightarrow> do { r \<leftarrow> float_to_str bits fp; Some (r, ap) } | _ \<Rightarrow> None)
      else if c = 112 then
        (case ap of
           Arg_ptr x # ap \<Rightarrow> Some ([48, 120] # (if lp64 then emit_x64 x fp else emit_x32 (ucast x) fp), ap)
         | _ \<Rightarrow> None)
      else Some ([], ap))"

text \<open>Every part of a directive is parsed forwards.\<close>

lemma parse_dec_loop_length: "parse_dec_loop fmt acc = Some (x, fmt') \<Longrightarrow> length fmt' \<le> length fmt"
  by (induction fmt acc rule: parse_dec_loop.induct) (fastforce split: if_splits)+

lemma fmt_number_length: "fmt_number fmt ap dv = Some (w, fmt', ap') \<Longrightarrow> length fmt' \<le> length fmt"
  by (auto simp: fmt_number_def parse_dec_def Option.bind_eq_Some_conv dest: parse_dec_loop_length split: if_splits)

lemma fmt_length_length: "fmt_length lp64 fmt = Some (b, fmt') \<Longrightarrow> length fmt' \<le> length fmt"
  by (auto simp: fmt_length_def Let_def Option.bind_eq_Some_conv split: if_splits)

lemma fmt_spec_length: "fmt_spec lp64 fmt ap = Some (fp, is64, fmt', ap') \<Longrightarrow> length fmt' \<le> length fmt"
  by (auto simp: fmt_spec_def fmt_flags_def Let_def Option.bind_eq_Some_conv split: if_splits
      dest!: fmt_number_length fmt_length_length)

function fmtv_loop :: "bool \<Rightarrow> bytes \<Rightarrow> bytes \<Rightarrow> fmt_arg list \<Rightarrow> bytes list option" where
  "fmtv_loop lp64 lit fmt ap =
     (case fmt of
        [] \<Rightarrow> None
      | c # fmt \<Rightarrow>
          if c = 0 then Some (if lit \<noteq> [] then [lit] else [])
          else if c \<noteq> 37 then fmtv_loop lp64 (lit @ [c]) fmt ap
          else do {
            (fp, is64, fmt, ap) \<leftarrow> fmt_spec lp64 fmt ap;
            c \<leftarrow> buf_rd fmt 0;
            (out, ap) \<leftarrow> fmt_directive lp64 c fp is64 ap;
            rest \<leftarrow> fmtv_loop lp64 [] (drop 1 fmt) ap;
            Some ((if lit \<noteq> [] then [lit] else []) @ out @ rest)
          })"
  by pat_completeness auto
termination
  by (relation "measure (\<lambda>(lp64, lit, fmt, ap). length fmt)") (auto dest!: fmt_spec_length)

declare fmtv_loop.simps [simp del]

text \<open>The pieces given to the callback, and the total.\<close>

definition fmtv :: "bool \<Rightarrow> bytes \<Rightarrow> fmt_arg list \<Rightarrow> bytes list option" where
  "fmtv lp64 fmt ap = fmtv_loop lp64 [] fmt ap"

definition fmt_total :: "bytes list \<Rightarrow> nat" where
  "fmt_total pieces = sum_list (map length pieces)"

section \<open>Streams\<close>

text \<open>
  A stream is the list of the writes it got; a write of NULL with length 0, which flushes, is
  an empty piece. \<^verbatim>\<open>stdio\<close> may be NULL, then the output is dropped.
\<close>

definition stream_fmt :: "bytes list \<Rightarrow> bytes \<Rightarrow> bytes list" where
  "stream_fmt s buf = s @ [buf]"

definition vstprintf :: "bool \<Rightarrow> bytes list \<Rightarrow> bytes option \<Rightarrow> fmt_arg list \<Rightarrow> (nat \<times> bytes list) option" where
  "vstprintf lp64 s fmt ap =
     (case fmt of
        None \<Rightarrow> Some (0, s @ [[]])
      | Some fmt \<Rightarrow> do { ps \<leftarrow> fmtv lp64 fmt ap; Some (fmt_total ps, foldl stream_fmt s ps) })"

definition stprintf :: "bool \<Rightarrow> bytes list \<Rightarrow> bytes option \<Rightarrow> fmt_arg list \<Rightarrow> (nat \<times> bytes list) option" where
  "stprintf lp64 s fmt ap = vstprintf lp64 s fmt ap"

definition stdout_cb :: "bytes list option \<Rightarrow> bytes \<Rightarrow> bytes list option" where
  "stdout_cb stdio buf = map_option (\<lambda>s. s @ [buf]) stdio"

definition vprintf :: "bool \<Rightarrow> bytes list option \<Rightarrow> bytes \<Rightarrow> fmt_arg list \<Rightarrow> (nat \<times> bytes list option) option" where
  "vprintf lp64 stdio format ap = do {
     ps \<leftarrow> fmtv lp64 format ap;
     Some (fmt_total ps, foldl stdout_cb stdio ps)
   }"

definition printf :: "bool \<Rightarrow> bytes list option \<Rightarrow> bytes \<Rightarrow> fmt_arg list \<Rightarrow> (nat \<times> bytes list option) option" where
  "printf lp64 stdio format ap = do {
     ps \<leftarrow> fmtv lp64 format ap;
     Some (fmt_total ps, foldl stdout_cb stdio ps)
   }"

definition putchar :: "u32 \<Rightarrow> bytes list option \<Rightarrow> u32 \<times> bytes list option" where
  "putchar c stdio = (c, map_option (\<lambda>s. s @ [[ucast c]]) stdio)"

definition puts :: "bytes \<Rightarrow> bytes list option \<Rightarrow> (bytes list option) option" where
  "puts str stdio =
     (case stdio of
        None \<Rightarrow> Some None
      | Some s \<Rightarrow> do {
          len \<leftarrow> strlen str;
          d \<leftarrow> buf_slice str 0 len;
          Some (Some (s @ [d] @ [[10]]))
        })"

text \<open>String literals of the source, with their terminator.\<close>

definition cstr :: "string \<Rightarrow> bytes" where
  "cstr s = map of_char s @ [0]"

fun hexdump_bytes :: "bool \<Rightarrow> bytes \<Rightarrow> nat \<Rightarrow> nat \<Rightarrow> bytes list \<Rightarrow> (bytes list) option" where
  "hexdump_bytes lp64 [] j k s = Some s"
| "hexdump_bytes lp64 (v # vs) j k s =
     (if k = 0 then Some s
      else do {
        (_, s) \<leftarrow> stprintf lp64 s (Some (cstr ''%s%02x ''))
           [Arg_str (Some (if j = 8 then cstr '' '' else cstr '''')), Arg_int (ucast v)];
        hexdump_bytes lp64 vs (j + 1) (k - 1) s
      })"

fun hexdump_pad :: "bool \<Rightarrow> nat \<Rightarrow> bytes list \<Rightarrow> (bytes list) option" where
  "hexdump_pad lp64 0 s = Some s"
| "hexdump_pad lp64 (Suc k) s = do { (_, s) \<leftarrow> stprintf lp64 s (Some (cstr '' '')) []; hexdump_pad lp64 k s }"

fun hexdump_chars :: "bool \<Rightarrow> bytes \<Rightarrow> bytes list \<Rightarrow> (bytes list) option" where
  "hexdump_chars lp64 [] s = Some s"
| "hexdump_chars lp64 (v # vs) s = do {
     (_, s) \<leftarrow> stprintf lp64 s (Some (cstr ''%c'')) [Arg_int (ucast (if v < 32 \<or> v > 126 then 46 else v))];
     hexdump_chars lp64 vs s
   }"

function sthexdump_loop ::
  "bool \<Rightarrow> bytes list \<Rightarrow> bytes option \<Rightarrow> bytes \<Rightarrow> nat \<Rightarrow> u32 \<Rightarrow> (bytes list) option" where
  "sthexdump_loop lp64 s prefix data i offset =
     (if i < length data then do {
        (_, s) \<leftarrow> stprintf lp64 s (Some (cstr ''%s%s0x%04x: ''))
           [Arg_str (Some (case prefix of None \<Rightarrow> cstr '''' | Some p \<Rightarrow> p)),
            Arg_str (Some (if prefix \<noteq> None then cstr '': '' else cstr '''')), Arg_int (of_nat i + offset)];
        let line = take 16 (drop i data);
        s \<leftarrow> hexdump_bytes lp64 line 0 16 s;
        let j = length line;
        s \<leftarrow> hexdump_pad lp64 ((17 - j) * 3 + (if j < 8 then 1 else 0)) s;
        s \<leftarrow> hexdump_chars lp64 line s;
        (_, s) \<leftarrow> stprintf lp64 s (Some [10, 0]) [];
        sthexdump_loop lp64 s prefix data (i + 16) offset
      } else Some s)"
  by pat_completeness auto
termination
  by (relation "measure (\<lambda>(lp64, s, prefix, data, i, offset). length data - i)") auto

declare sthexdump_loop.simps [simp del]

definition sthexdump ::
  "bool \<Rightarrow> bytes list \<Rightarrow> bytes option \<Rightarrow> bytes \<Rightarrow> u32 \<Rightarrow> (bytes list) option" where
  "sthexdump lp64 s prefix data offset = sthexdump_loop lp64 s prefix data 0 offset"

definition hexdump :: "bool \<Rightarrow> bytes list \<Rightarrow> bytes option \<Rightarrow> bytes \<Rightarrow> (bytes list) option" where
  "hexdump lp64 stdio prefix data = sthexdump lp64 stdio prefix data 0"

text \<open>The names of the set bits of a flag word, from a table of strings ended by an empty one.
  The mask \<^verbatim>\<open>1 << i\<close> is defined for the 32 bits of an \<^verbatim>\<open>int\<close> only.\<close>

function stprintflags_loop :: "bytes list \<Rightarrow> bytes \<Rightarrow> u32 \<Rightarrow> bytes \<Rightarrow> nat \<Rightarrow> bool \<Rightarrow> (bytes list) option" where
  "stprintflags_loop s str flags sep i need_sep = do {
     n \<leftarrow> strlen str;
     if n = 0 then Some s
     else if 32 \<le> i then None
     else do {
       d \<leftarrow> buf_slice str 0 n;
       let on = (flags AND push_bit i 1 \<noteq> 0);
       let s = (if on then (if need_sep then s @ [sep] else s) @ [d] else s);
       stprintflags_loop s (drop (n + 1) str) flags sep (i + 1) (need_sep \<or> on)
     }
   }"
  by pat_completeness auto
termination
  by (relation "measure (\<lambda>(s, str, flags, sep, i, need_sep). 32 - i)") auto

declare stprintflags_loop.simps [simp del]

definition stprintflags :: "bytes list \<Rightarrow> bytes \<Rightarrow> u32 \<Rightarrow> bytes \<Rightarrow> (bytes list) option" where
  "stprintflags s str flags sep = do {
     seplen \<leftarrow> strlen sep;
     sep \<leftarrow> buf_slice sep 0 seplen;
     stprintflags_loop s str flags sep 0 False
   }"

definition hex_byte :: "u8 \<Rightarrow> bytes" where
  "hex_byte v = [hexdigits ! unat (drop_bit 4 v), hexdigits ! unat (v AND 0xf)]"

definition sthexstr :: "bytes list \<Rightarrow> bytes \<Rightarrow> bytes list" where
  "sthexstr s data = foldl (\<lambda>s v. s @ [hex_byte v]) s data"

fun bin2hex_loop :: "bytes \<Rightarrow> nat \<Rightarrow> bytes \<Rightarrow> (bytes \<times> nat) option" where
  "bin2hex_loop s p [] = Some (s, p)"
| "bin2hex_loop s p (v # data) = do {
     s \<leftarrow> buf_wr s p (hexdigits ! unat (drop_bit 4 v));
     s \<leftarrow> buf_wr s (p + 1) (hexdigits ! unat (v AND 0xf));
     bin2hex_loop s (p + 2) data
   }"

definition bin2hex :: "bytes \<Rightarrow> bytes \<Rightarrow> bytes option" where
  "bin2hex s data = do { (s, p) \<leftarrow> bin2hex_loop s 0 data; buf_wr s p 0 }"

section \<open>Printing to memory\<close>

record snbuf =
  sn_ptr :: bytes
  sn_size :: nat
  sn_used :: nat

definition snbuf_cb :: "snbuf \<Rightarrow> bytes \<Rightarrow> snbuf option" where
  "snbuf_cb b s =
     (let avail = sn_size b - sn_used b in
      if avail > 0 then do {
        let to_copy = (if avail < length s then avail else length s);
        p \<leftarrow> buf_copy (sn_ptr b) (sn_used b) (take to_copy s);
        Some (b\<lparr>sn_ptr := p, sn_used := sn_used b + to_copy\<rparr>)
      } else Some b)"

fun snbuf_run :: "snbuf \<Rightarrow> bytes list \<Rightarrow> snbuf option" where
  "snbuf_run b [] = Some b"
| "snbuf_run b (s # ss) = do { b \<leftarrow> snbuf_cb b s; snbuf_run b ss }"

definition vsnprintf :: "bool \<Rightarrow> bytes \<Rightarrow> nat \<Rightarrow> bytes \<Rightarrow> fmt_arg list \<Rightarrow> (nat \<times> bytes) option" where
  "vsnprintf lp64 str sz format ap = do {
     ps \<leftarrow> fmtv lp64 format ap;
     buf \<leftarrow> snbuf_run \<lparr>sn_ptr = str, sn_size = sz, sn_used = 0\<rparr> ps;
     str \<leftarrow> (if sn_size buf > 0 then buf_wr (sn_ptr buf) (sn_used buf) 0 else Some (sn_ptr buf));
     Some (fmt_total ps, str)
   }"

definition snprintf :: "bool \<Rightarrow> bytes \<Rightarrow> nat \<Rightarrow> bytes \<Rightarrow> fmt_arg list \<Rightarrow> (nat \<times> bytes) option" where
  "snprintf lp64 str sz format ap = vsnprintf lp64 str sz format ap"

section \<open>Decimal and hexadecimal digits\<close>

text \<open>The \<open>k\<close> digits of a number, most significant first, and how many it needs.\<close>

fun dec_fixed :: "nat \<Rightarrow> nat \<Rightarrow> bytes" where
  "dec_fixed 0 v = []"
| "dec_fixed (Suc k) v = dec_fixed k (v div 10) @ [48 + of_nat (v mod 10)]"

fun hex_fixed :: "nat \<Rightarrow> nat \<Rightarrow> bytes" where
  "hex_fixed 0 v = []"
| "hex_fixed (Suc k) v = hex_fixed k (v div 16) @ [hexdigits ! (v mod 16)]"

function ndig :: "nat \<Rightarrow> nat \<Rightarrow> nat" where
  "ndig b v = (if v = 0 \<or> b < 2 then 0 else Suc (ndig b (v div b)))"
  by pat_completeness auto
termination by (relation "measure snd") auto

declare ndig.simps [simp del]

lemma length_fixed [simp]: "length (dec_fixed k v) = k" "length (hex_fixed k v) = k"
  by (induction k arbitrary: v) auto

lemma ndig_bound: "2 \<le> b \<Longrightarrow> v < b ^ ndig b v"
proof (induction b v rule: ndig.induct)
  case (1 b v)
  show ?case
  proof (cases "v = 0")
    case False
    then have "v div b < b ^ ndig b (v div b)" using 1 by auto
    then have "v < b * b ^ ndig b (v div b)" using 1(2) by (simp add: div_less_iff_less_mult mult.commute)
    then show ?thesis using False 1(2) by (simp add: ndig.simps)
  qed (simp add: ndig.simps)
qed

lemma ndig_le: "2 \<le> b \<Longrightarrow> v < b ^ k \<Longrightarrow> ndig b v \<le> k"
proof (induction k arbitrary: v)
  case 0
  then show ?case by (simp add: ndig.simps)
next
  case (Suc k)
  have "v div b < b ^ k" using Suc.prems by (simp add: less_mult_imp_div_less mult.commute)
  then show ?case using Suc.IH Suc.prems(1) by (subst ndig.simps) simp
qed

lemma dec_fixed_lead: "v < 10 ^ d \<Longrightarrow> dec_fixed (e + d) v = replicate e 48 @ dec_fixed d v"
proof (induction d arbitrary: v)
  case 0
  have "dec_fixed e 0 = replicate e 48" by (induction e) (simp_all add: replicate_append_same)
  then show ?case using 0 by simp
next
  case (Suc d)
  have "v div 10 < 10 ^ d" using Suc.prems by (simp add: less_mult_imp_div_less mult.commute)
  then show ?case using Suc.IH by simp
qed

lemma hex_fixed_lead: "v < 16 ^ d \<Longrightarrow> hex_fixed (e + d) v = replicate e 48 @ hex_fixed d v"
proof (induction d arbitrary: v)
  case 0
  have "hex_fixed e 0 = replicate e 48" by (induction e) (simp_all add: hexdigits_def replicate_append_same)
  then show ?case using 0 by simp
next
  case (Suc d)
  have "v div 16 < 16 ^ d" using Suc.prems by (simp add: less_mult_imp_div_less mult.commute)
  then show ?case using Suc.IH by simp
qed

lemma dec_char:
  assumes "n < 10" shows "is_digit (48 + of_nat n)" "unat (48 + of_nat n :: u8) = 48 + n"
proof -
  show u: "unat (48 + of_nat n :: u8) = 48 + n" using assms by (simp add: unat_plus_if' unsigned_of_nat take_bit_nat_eq_self)
  show "is_digit (48 + of_nat n)" using u assms by (simp add: is_digit_def word_le_nat_alt)
qed

lemma dec_fixed_digits: "c \<in> set (dec_fixed k v) \<Longrightarrow> is_digit c"
  by (induction k arbitrary: v) (auto simp: dec_char)

lemma dec_val_fixed: "dec_val (dec_fixed k v) = v mod 10 ^ k"
proof (induction k arbitrary: v)
  case (Suc k)
  have "dec_val (dec_fixed (Suc k) v) = (v div 10) mod 10 ^ k * 10 + v mod 10"
    using Suc [of "v div 10"] dec_char(2) [of "v mod 10"] by (simp add: dec_val_def)
  also have "\<dots> = v mod 10 ^ Suc k"
    using mod_mult2_eq [of v 10 "10 ^ k"] by (simp add: mult.commute)
  finally show ?case .
qed (simp add: dec_val_def)

lemma hex_char: "n < 16 \<Longrightarrow> conv_hex_to_nibble (hexdigits ! n) = int n"
proof -
  have "\<forall>n\<in>set [0..<16]. conv_hex_to_nibble (hexdigits ! n) = int n"
    by (simp add: hexdigits_def conv_hex_to_nibble_def upt_rec)
  then show "n < 16 \<Longrightarrow> conv_hex_to_nibble (hexdigits ! n) = int n" by simp
qed

lemma hex_fixed_digits: "c \<in> set (hex_fixed k v) \<Longrightarrow> conv_hex_to_nibble c \<noteq> -1"
  by (induction k arbitrary: v) (auto simp: hex_char)

lemma hex_val_fixed: "hex_val (hex_fixed k v) = v mod 16 ^ k"
proof (induction k arbitrary: v)
  case (Suc k)
  have "hex_val (hex_fixed (Suc k) v) = (v div 16) mod 16 ^ k * 16 + v mod 16"
    using Suc [of "v div 16"] hex_char [of "v mod 16"] by (simp add: hex_val_def)
  also have "\<dots> = v mod 16 ^ Suc k"
    using mod_mult2_eq [of v 16 "16 ^ k"] by (simp add: mult.commute)
  finally show ?case .
qed (simp add: hex_val_def)

text \<open>What the digit loops compute.\<close>

lemma take_fill: "k < length b \<Longrightarrow> drop (Suc k) (b[k := x]) = drop (Suc k) b"
  by simp

lemma dec_loop_eq:
  fixes x :: "'a::len word"
  assumes "i \<le> n" "length buf = n" "unat x < 10 ^ (n - i)" "8 \<le> LENGTH('a)"
  shows "dec_loop n i x buf dg =
    (dec_fixed (n - i) (unat x) @ drop (n - i) buf, if x = 0 then dg else i + ndig 10 (unat x))"
  using assms
proof (induction n i x buf dg rule: dec_loop.induct)
  case (1 n i x buf dg)
  show ?case
  proof (cases "i < n")
    case False
    then show ?thesis using 1(2-4) by (subst dec_loop.simps) (simp add: unat_eq_zero)
  next
    case True
    have ten: "unat (10 :: 'a word) = 10"
    proof -
      have "(2::nat) ^ 8 \<le> 2 ^ LENGTH('a)" using 1(5) by (intro power_increasing) auto
      then show ?thesis by (simp add: unat_numeral take_bit_eq_mod)
    qed
    let ?d = "x mod 10"
    have d: "unat ?d = unat x mod 10" "unat (x div 10) = unat x div 10"
      by (simp_all only: unat_mod unat_div ten)
    obtain m where m: "n - i = Suc m" "n - (i + 1) = m" "n - 1 - i = m" using True by (cases "n - i") auto
    have ch: "(48 + ucast ?d :: u8) = 48 + of_nat (unat x mod 10)" unfolding d(1) [symmetric] by simp
    have lt: "unat (x div 10) < 10 ^ m" using 1(4) m d by (simp add: less_mult_imp_div_less mult.commute)
    have z: "x div 10 = 0 \<longleftrightarrow> unat x div 10 = 0" "?d = 0 \<longleftrightarrow> unat x mod 10 = 0" "x = 0 \<longleftrightarrow> unat x = 0"
      using d by (auto simp: unat_eq_zero [symmetric])
    have "dec_loop n i x buf dg = dec_loop n (i + 1) (x div 10) (buf[m := 48 + ucast ?d]) (if ?d \<noteq> 0 then i + 1 else dg)"
      using True m by (subst dec_loop.simps) (simp add: Let_def)
    also have "\<dots> = (dec_fixed m (unat (x div 10)) @ drop m (buf[m := 48 + ucast ?d]),
        if x div 10 = 0 then (if ?d \<noteq> 0 then i + 1 else dg) else i + 1 + ndig 10 (unat (x div 10)))"
      using 1(1) [OF True refl refl] 1(3,5) lt m True by simp
    also have "drop m (buf[m := 48 + ucast ?d]) = (48 + of_nat (unat x mod 10)) # drop (Suc m) buf"
      using m 1(3) by (simp add: ch flip: Cons_nth_drop_Suc)
    also have "(if x div 10 = 0 then (if ?d \<noteq> 0 then i + 1 else dg) else i + 1 + ndig 10 (unat (x div 10)))
        = (if x = 0 then dg else i + ndig 10 (unat x))"
      unfolding z d by (subst (2) ndig.simps) (auto simp: ndig.simps [of 10 0])
    finally show ?thesis using m d by simp
  qed
qed

lemma hex_loop_eq:
  fixes x :: "'a::len word"
  assumes "i \<le> n" "length buf = n" "unat x < 16 ^ (n - i)" "8 \<le> LENGTH('a)"
  shows "hex_loop n i x buf dg =
    (hex_fixed (n - i) (unat x) @ drop (n - i) buf, if x = 0 then dg else i + ndig 16 (unat x))"
  using assms
proof (induction n i x buf dg rule: hex_loop.induct)
  case (1 n i x buf dg)
  show ?case
  proof (cases "i < n")
    case False
    then show ?thesis using 1(2-4) by (subst hex_loop.simps) (simp add: unat_eq_zero)
  next
    case True
    let ?d = "x AND 0xf"
    have mk: "(0xf :: 'a word) = mask 4" by (simp add: mask_eq_exp_minus_1)
    have "(2::nat) ^ 8 \<le> 2 ^ LENGTH('a)" using 1(5) by (intro power_increasing) auto
    then have sixteen: "unat (16 :: 'a word) = 16" by (simp add: unat_numeral take_bit_eq_mod)
    have "?d = x mod 16" "drop_bit 4 x = x div 16"
      unfolding mk take_bit_eq_mask [symmetric] by (simp_all add: take_bit_eq_mod drop_bit_eq_div)
    then have d: "unat ?d = unat x mod 16" "unat (drop_bit 4 x) = unat x div 16"
      by (simp_all only: unat_mod unat_div sixteen)
    obtain m where m: "n - i = Suc m" "n - (i + 1) = m" "n - 1 - i = m" using True by (cases "n - i") auto
    have lt: "unat (drop_bit 4 x) < 16 ^ m" using 1(4) m d by (simp add: less_mult_imp_div_less mult.commute)
    have z: "drop_bit 4 x = 0 \<longleftrightarrow> unat x div 16 = 0" "?d = 0 \<longleftrightarrow> unat x mod 16 = 0" "x = 0 \<longleftrightarrow> unat x = 0"
      unfolding d [symmetric] by (simp_all add: unat_eq_zero)
    have "hex_loop n i x buf dg = hex_loop n (i + 1) (drop_bit 4 x) (buf[m := hexdigits ! unat ?d]) (if ?d \<noteq> 0 then i + 1 else dg)"
      using True m by (subst hex_loop.simps) (simp add: Let_def)
    also have "\<dots> = (hex_fixed m (unat (drop_bit 4 x)) @ drop m (buf[m := hexdigits ! unat ?d]),
        if drop_bit 4 x = 0 then (if ?d \<noteq> 0 then i + 1 else dg) else i + 1 + ndig 16 (unat (drop_bit 4 x)))"
      using 1(1) [OF True refl refl] 1(3,5) lt m True by simp
    also have "drop m (buf[m := hexdigits ! unat ?d]) = (hexdigits ! (unat x mod 16)) # drop (Suc m) buf"
      using m 1(3) by (simp add: d flip: Cons_nth_drop_Suc)
    also have "(if drop_bit 4 x = 0 then (if ?d \<noteq> 0 then i + 1 else dg) else i + 1 + ndig 16 (unat (drop_bit 4 x)))
        = (if x = 0 then dg else i + ndig 16 (unat x))"
      unfolding z d by (subst (2) ndig.simps) (auto simp: ndig.simps [of 16 0])
    finally show ?thesis using m d by simp
  qed
qed

text \<open>How many digits are printed: at least one.\<close>

definition pdig :: "nat \<Rightarrow> nat \<Rightarrow> nat" where
  "pdig b v = (if v = 0 then 1 else ndig b v)"

lemma pdig_bounds:
  assumes "2 \<le> b" shows "v < b ^ pdig b v" "0 < pdig b v" "v < b ^ k \<Longrightarrow> 0 < k \<Longrightarrow> pdig b v \<le> k"
  using assms ndig_bound [of b v] ndig_le [of b v k] by (auto simp: pdig_def ndig.simps [of b v])

definition dec_str :: "nat \<Rightarrow> bytes" where "dec_str v = dec_fixed (pdig 10 v) v"
definition hex_str :: "nat \<Rightarrow> bytes" where "hex_str v = hex_fixed (pdig 16 v) v"

lemma dec_str_drop: "v < 10 ^ n \<Longrightarrow> 0 < n \<Longrightarrow> drop (n - pdig 10 v) (dec_fixed n v) = dec_str v"
  using dec_fixed_lead [of v "pdig 10 v" "n - pdig 10 v"] pdig_bounds(1) [of 10 v] pdig_bounds(3) [of 10 v n] by (simp add: dec_str_def)

lemma hex_str_drop: "v < 16 ^ n \<Longrightarrow> 0 < n \<Longrightarrow> drop (n - pdig 16 v) (hex_fixed n v) = hex_str v"
  using hex_fixed_lead [of v "pdig 16 v" "n - pdig 16 v"] pdig_bounds(1) [of 16 v] pdig_bounds(3) [of 16 v n] by (simp add: hex_str_def)

definition int_pieces :: "fmtparam \<Rightarrow> bool \<Rightarrow> nat \<Rightarrow> bytes list" where
  "int_pieces fp neg v =
     (let pad = fp_width fp - (int (pdig 10 v) + (if neg then 1 else 0)) in
      (if \<not> fp_la fp then emit_repeated_char pad (if fp_lz fp then 48 else 32) else []) @
      (if neg then [[45]] else []) @ [dec_str v] @ (if fp_la fp then emit_repeated_char pad 32 else []))"

lemma emit_intstr_eq:
  "v < 10 ^ n \<Longrightarrow> 0 < n \<Longrightarrow> emit_intstr fp neg (dec_fixed n v) (if v = 0 then 1 else ndig 10 v) = int_pieces fp neg v"
  using dec_str_drop [of v n] by (simp add: emit_intstr_def int_pieces_def pdig_def)

lemma emit_u32_eq: "emit_u32 fp neg x = int_pieces fp neg (unat x)"
proof -
  have "unat x < 2 ^ LENGTH(32)" by (rule unsigned_less)
  then have l: "unat x < 10 ^ 10" by simp
  then show ?thesis using dec_loop_eq [of 0 10 "replicate 10 0" x 1] emit_intstr_eq [OF l]
    by (simp add: emit_u32_def unat_eq_zero [symmetric] split: if_splits)
qed

lemma emit_u64_eq: "emit_u64 fp neg x = int_pieces fp neg (unat x)"
proof -
  have "unat x < 2 ^ LENGTH(64)" by (rule unsigned_less)
  then have l: "unat x < 10 ^ 20" by simp
  then show ?thesis using dec_loop_eq [of 0 20 "replicate 20 0" x 1] emit_intstr_eq [OF l]
    by (simp add: emit_u64_def unat_eq_zero [symmetric] split: if_splits)
qed

definition hex_pieces :: "fmtparam \<Rightarrow> nat \<Rightarrow> bytes list" where
  "hex_pieces fp v = replicate (nat (fp_width fp) - pdig 16 v) [if fp_lz fp then 48 else 32] @ [hex_str v]"

lemma emit_hexstr_eq:
  "v < 16 ^ n \<Longrightarrow> 0 < n \<Longrightarrow> emit_hexstr fp (hex_fixed n v) (if v = 0 then 1 else ndig 16 v) = hex_pieces fp v"
proof -
  assume v: "v < 16 ^ n" "0 < n"
  have "nat (w - int k) = nat w - k" "\<not> w > int k \<Longrightarrow> nat w - k = 0" for w k by auto
  then show ?thesis using hex_str_drop [OF v] by (simp add: emit_hexstr_def hex_pieces_def pdig_def)
qed

lemma emit_hex_eq: "emit_x32 y fp = hex_pieces fp (unat y)" "emit_x64 x fp = hex_pieces fp (unat x)"
proof -
  have "unat y < 2 ^ LENGTH(32)" "unat x < 2 ^ LENGTH(64)" by (rule unsigned_less)+
  then have l: "unat y < 16 ^ 8" "unat x < 16 ^ 16" by simp_all
  show "emit_x32 y fp = hex_pieces fp (unat y)"
    using hex_loop_eq [of 0 8 "replicate 8 0" y 1] emit_hexstr_eq [OF l(1)] l
    by (simp add: emit_x32_def unat_eq_zero [symmetric] split: if_splits)
  show "emit_x64 x fp = hex_pieces fp (unat x)"
    using hex_loop_eq [of 0 16 "replicate 16 0" x 1] emit_hexstr_eq [OF l(2)] l
    by (simp add: emit_x64_def unat_eq_zero [symmetric] split: if_splits)
qed

section \<open>Printing into a buffer\<close>

lemma fmt_total_concat: "fmt_total ps = length (concat ps)"
  by (simp add: fmt_total_def length_concat)

lemma snbuf_run_eq:
  assumes "used \<le> sz" "sz \<le> length p"
  shows "snbuf_run \<lparr>sn_ptr = p, sn_size = sz, sn_used = used\<rparr> ps =
    (let d = take (sz - used) (concat ps) in
     Some \<lparr>sn_ptr = take used p @ d @ drop (used + length d) p, sn_size = sz, sn_used = used + length d\<rparr>)"
  using assms
proof (induction ps arbitrary: p used)
  case (Cons s ss)
  define d where "d = take (sz - used) s"
  let ?p = "take used p @ d @ drop (used + length d) p"
  have l: "length d = min (length s) (sz - used)" "used + length d \<le> sz" "length ?p = length p"
    using Cons.prems by (auto simp: d_def)
  have st: "snbuf_cb \<lparr>sn_ptr = p, sn_size = sz, sn_used = used\<rparr> s =
      Some \<lparr>sn_ptr = ?p, sn_size = sz, sn_used = used + length d\<rparr>"
  proof (cases "sz = used")
    case False
    then have "take (if sz - used < length s then sz - used else length s) s = d"
      "(if sz - used < length s then sz - used else length s) = length d"
      using Cons.prems by (auto simp: d_def)
    then show ?thesis using False Cons.prems l by (simp add: snbuf_cb_def buf_copy_def Let_def)
  qed (simp add: snbuf_cb_def d_def)
  define e where "e = take (sz - (used + length d)) (concat ss)"
  have de: "d @ e = take (sz - used) (s @ concat ss)"
    using l(1,2) Cons.prems by (auto simp: d_def e_def min_def split: if_splits)
  have "snbuf_run \<lparr>sn_ptr = p, sn_size = sz, sn_used = used\<rparr> (s # ss) =
      Some \<lparr>sn_ptr = take (used + length d) ?p @ e @ drop (used + length d + length e) ?p, sn_size = sz,
            sn_used = used + length d + length e\<rparr>"
    using st Cons.IH [of "used + length d" ?p] l Cons.prems by (simp add: e_def)
  also have "take (used + length d) ?p = take used p @ d" using Cons.prems l by simp
  also have "drop (used + length d + length e) ?p = drop (used + length (d @ e)) p"
    using Cons.prems l by (simp add: ac_simps)
  finally show ?case unfolding concat.simps Let_def de [symmetric] by (simp add: add.assoc)
qed simp

lemma vsnprintf_eq:
  assumes "fmtv lp64 fmt ap = Some ps" and "sz \<le> length str"
  shows "vsnprintf lp64 str sz fmt ap =
    (let r = length (concat ps) in
     if sz = 0 then Some (r, str)
     else if r < sz then Some (r, concat ps @ 0 # drop (r + 1) str)
     else if sz < length str then Some (r, take sz (concat ps) @ 0 # drop (sz + 1) str)
     else None)"
proof -
  let ?r = "length (concat ps)"
  let ?d = "take sz (concat ps)"
  have s: "snbuf_run \<lparr>sn_ptr = str, sn_size = sz, sn_used = 0\<rparr> ps =
      Some \<lparr>sn_ptr = ?d @ drop (length ?d) str, sn_size = sz, sn_used = length ?d\<rparr>"
    using snbuf_run_eq [of 0 sz str ps] assms(2) by (simp add: Let_def)
  have w: "(xs @ drop n str)[n := y] = xs @ y # drop (n + 1) str" if "length xs = n" "n < length str" for xs n y
    using that by (simp add: list_update_append flip: Cons_nth_drop_Suc)
  show ?thesis
  proof (cases "sz = 0 \<or> ?r < sz")
    case True
    then show ?thesis using assms s w [of "concat ps" ?r 0] by (auto simp: vsnprintf_def fmt_total_concat buf_wr_def Let_def)
  next
    case False
    then have "length ?d = sz" by simp
    then show ?thesis using assms s False w [of ?d sz 0]
      by (auto simp: vsnprintf_def fmt_total_concat buf_wr_def Let_def)
  qed
qed

text \<open>C14. \<^verbatim>\<open>vsnprintf\<close> into a buffer answers the length of the whole output. When the output and its
  terminator fit into the size given, the buffer holds them and nothing else changes. When the
  output is longer, the first \<^verbatim>\<open>size\<close> bytes are written and the terminator lands on the byte
  behind them: inside a larger buffer it is overwritten, a buffer of exactly \<^verbatim>\<open>size\<close> bytes is
  left. With size 0 nothing is written.\<close>

theorem vsnprintf_writes:
  assumes "fmtv lp64 fmt ap = Some ps" and "sz \<le> length str"
  shows "vsnprintf lp64 str sz fmt ap =
    (let r = length (concat ps) in
     if sz = 0 then Some (r, str)
     else if r < sz then Some (r, concat ps @ 0 # drop (r + 1) str)
     else if sz < length str then Some (r, take sz (concat ps) @ 0 # drop (sz + 1) str)
     else None)"
  by (rule vsnprintf_eq [OF assms])

theorem vsnprintf_writes_witness:
  "vsnprintf False [1, 1, 1, 1] 3 [97, 98, 99, 100, 0] [] = Some (4, [97, 98, 99, 0]) \<and>
   vsnprintf False [1, 1, 1] 3 [97, 98, 99, 100, 0] [] = None"
proof -
  have f: "fmtv False [97, 98, 99, 100, 0] [] = Some [[97, 98, 99, 100]]"
    by (simp add: fmtv_def fmtv_loop.simps)
  show ?thesis using vsnprintf_writes [OF f, of 3 "[1, 1, 1, 1]"] vsnprintf_writes [OF f, of 3 "[1, 1, 1]"]
    by (simp add: Let_def)
qed

section \<open>Round trips\<close>

definition plain_fp :: fmtparam where
  "plain_fp = \<lparr>fp_width = -1, fp_decimals = INT16_MIN, fp_lz = False, fp_la = False, fp_plus = False,
     fp_sign_pad = False, fp_ipv4 = False\<rparr>"

lemma plain_fp_simps [simp]:
  "fp_width plain_fp = -1" "fp_decimals plain_fp = INT16_MIN" "fp_lz plain_fp = False" "fp_la plain_fp = False"
  "fp_ipv4 plain_fp = False"
  by (simp_all add: plain_fp_def)

lemma to_int16_m1: "to_int16 (- 1) = - 1"
  by code_simp

lemma fmt_spec_plain:
  assumes "c \<in> {37, 99, 100, 102, 112, 115, 117, 120}"
  shows "fmt_spec lp64 (c # m) ap = Some (plain_fp, False, c # m, ap)"
proof -
  have "c \<noteq> 48" "c \<noteq> 45" "c \<noteq> 43" "c \<noteq> 42" "c \<noteq> 46" "c \<noteq> 73" "c \<noteq> 108" "c \<noteq> 122" "c < 48 \<or> 57 < c"
    using assms by auto
  then show ?thesis
    by (simp add: fmt_spec_def fmt_flags_def fmt_number_def parse_dec_def fmt_length_def buf_rd_def plain_fp_def
        to_int16_m1 Let_def)
qed

lemma fmtv_loop_lit:
  assumes "\<forall>c\<in>set l. c \<noteq> 0 \<and> c \<noteq> 37"
  shows "fmtv_loop lp64 lit (l @ m) ap = fmtv_loop lp64 (lit @ l) m ap"
  using assms
proof (induction l arbitrary: lit)
  case (Cons c l)
  then show ?case by (subst fmtv_loop.simps) simp
qed simp

lemma fmtv_loop_end [simp]: "fmtv_loop lp64 lit (0 # m) ap = Some (if lit \<noteq> [] then [lit] else [])"
  by (simp add: fmtv_loop.simps)

lemma fmtv_loop_plain:
  assumes "c \<in> {37, 99, 100, 102, 112, 115, 117, 120}"
  shows "fmtv_loop lp64 lit (37 # c # m) ap = do {
     (out, ap) \<leftarrow> fmt_directive lp64 c plain_fp False ap;
     rest \<leftarrow> fmtv_loop lp64 [] m ap;
     Some ((if lit \<noteq> [] then [lit] else []) @ out @ rest)
   }"
  by (subst fmtv_loop.simps) (simp add: fmt_spec_plain [OF assms] buf_rd_def)

lemma repeated_char_concat: "concat (emit_repeated_char n c) = replicate (nat n) c"
  by (simp add: emit_repeated_char_def)

lemma dec_str_facts:
  "dec_str v \<noteq> []" "\<forall>c\<in>set (dec_str v). is_digit c" "dec_val (dec_str v) = v"
  using pdig_bounds(1,2) [of 10 v] length_fixed(1) [of "pdig 10 v" v]
  by (auto simp: dec_str_def dec_fixed_digits dec_val_fixed simp del: length_fixed)

lemma hex_str_facts: "\<forall>c\<in>set (hex_str v). conv_hex_to_nibble c \<noteq> -1" "hex_val (hex_str v) = v"
  using pdig_bounds(1) [of 16 v] by (auto simp: hex_str_def hex_fixed_digits hex_val_fixed)

text \<open>A printed number is read back whatever the width, unless zeros precede a minus sign.\<close>

lemma dec_val_zeros: "dec_val (replicate k 48 @ ds) = dec_val ds"
  by (induction k) (simp_all add: dec_val_def)

lemma int_pieces_atoi:
  assumes "\<not> is_digit c" "fp_la fp \<or> \<not> fp_lz fp \<or> \<not> neg \<or> fp_width fp \<le> 1"
  shows "atoi (concat (int_pieces fp neg v) @ c # s) = Some (if neg then - of_nat v else of_nat v)"
proof -
  define pad where "pad = nat (fp_width fp - (int (pdig 10 v) + (if neg then 1 else 0)))"
  define l where "l = (if fp_la fp then [] else replicate pad (if fp_lz fp then 48 else 32 :: u8))"
  define r where "r = (if fp_la fp then replicate pad 32 else []) @ c # s"
  have out: "concat (int_pieces fp neg v) @ c # s = l @ (if neg then [45] else []) @ dec_str v @ r"
    by (simp add: int_pieces_def Let_def repeated_char_concat l_def r_def pad_def)
  have r: "\<exists>c' s'. r = c' # s' \<and> \<not> is_digit c'"
    using assms(1) by (cases pad) (auto simp: r_def is_digit_def)
  then obtain c' s' where c': "r = c' # s'" "\<not> is_digit c'" by blast
  note ds = dec_str_facts [of v]
  have sp: "\<forall>w\<in>set (replicate pad 32). is_space_c w" by (simp add: is_space_c_def)
  have np: "pad = 0" if "\<not> fp_la fp" "fp_lz fp" "neg"
    using assms(2) that pdig_bounds(2) [of 10 v] by (auto simp: pad_def)
  show ?thesis
  proof (cases neg)
    case True
    then have "\<forall>w\<in>set l. is_space_c w" using np sp by (auto simp: l_def)
    then show ?thesis unfolding out using True c' atoi_reads(2) [OF _ ds(2,1) c'(2), of l s'] ds(3) by simp
  next
    case False
    show ?thesis
    proof (cases "fp_lz fp \<and> \<not> fp_la fp")
      case True
      have "\<forall>d\<in>set (replicate pad 48 @ dec_str v). is_digit d" using ds(2) by (auto simp: is_digit_def)
      then show ?thesis unfolding out using True False c' ds
          atoi_reads(1) [OF _ _ _ c'(2), of "[]" "replicate pad 48 @ dec_str v" s'] dec_val_zeros [of pad]
        by (simp add: l_def)
    next
      case nlz: False
      then have "\<forall>w\<in>set l. is_space_c w" using sp by (auto simp: l_def)
      then show ?thesis unfolding out using False c' atoi_reads(1) [OF _ ds(2,1) c'(2), of l s'] ds(3) by simp
    qed
  qed
qed

lemma emit_s32_atoi:
  assumes "\<not> fp_ipv4 fp" "\<not> is_digit c" "fp_la fp \<or> \<not> fp_lz fp \<or> 0 \<le> sint x \<or> fp_width fp \<le> 1"
  shows "atoi (concat (emit_s32 fp x) @ c # s) = Some x"
  using assms int_pieces_atoi [of c fp "sint x < 0" "unat (if sint x < 0 then - x else x)" s]
  by (auto simp: emit_s32_def emit_u32_eq split: if_splits)

lemma snprintf_fits:
  assumes "fmtv lp64 fmt ap = Some ps" "length (concat ps) < sz" "sz \<le> length str"
  shows "snprintf lp64 str sz fmt ap = Some (length (concat ps), concat ps @ 0 # drop (length (concat ps) + 1) str)"
  using vsnprintf_eq [OF assms(1,3)] assms(2) by (simp add: snprintf_def Let_def)

text \<open>C32. Numbers survive printing and parsing: what \<^verbatim>\<open>snprintf\<close> prints for a 32-bit integer with
  \<^verbatim>\<open>%d\<close> into a buffer of at least 12 bytes is read back by \<^verbatim>\<open>atoi\<close>, with \<^verbatim>\<open>%x\<close> by \<^verbatim>\<open>xtoi\<close> and with
  \<^verbatim>\<open>0x%x\<close> by \<^verbatim>\<open>atoix\<close>.\<close>

theorem snprintf_number_roundtrip:
  assumes "12 \<le> sz" "sz \<le> length buf"
  shows "(\<exists>n buf'. snprintf lp64 buf sz (cstr ''%d'') [Arg_int x] = Some (n, buf') \<and> atoi buf' = Some x) \<and>
    (\<exists>n buf'. snprintf lp64 buf sz (cstr ''%x'') [Arg_int x] = Some (n, buf') \<and> xtoi buf' = Some x) \<and>
    (\<exists>n buf'. snprintf lp64 buf sz (cstr ''0x%x'') [Arg_int x] = Some (n, buf') \<and> atoix buf' = Some x)"
proof -
  have f: "fmtv lp64 (cstr ''%d'') [Arg_int x] = Some (emit_s32 plain_fp x)"
    "fmtv lp64 (cstr ''%x'') [Arg_int x] = Some (emit_x32 x plain_fp)"
    "fmtv lp64 (cstr ''0x%x'') [Arg_int x] = Some ([48, 0x78] # emit_x32 x plain_fp)"
    using fmtv_loop_lit [of "[48, 0x78]" lp64 "[]" "[37, 120, 0]" "[Arg_int x]"]
    by (simp_all add: cstr_def fmtv_def fmtv_loop_plain fmt_directive_def)
  have "unat x < 2 ^ LENGTH(32)" "unat (- x) < 2 ^ LENGTH(32)" by (rule unsigned_less)+
  then have b: "pdig 16 (unat x) \<le> 8" "pdig 10 (unat x) \<le> 10" "pdig 10 (unat (- x)) \<le> 10"
    by (simp_all add: pdig_bounds(3))
  have l: "length (concat (emit_s32 plain_fp x)) < sz" "length (concat ([48, 0x78] # emit_x32 x plain_fp)) < sz"
    using assms(1) b by (auto simp: emit_s32_def emit_u32_eq emit_hex_eq int_pieces_def hex_pieces_def plain_fp_def
        repeated_char_concat dec_str_def hex_str_def Let_def emit_repeated_char_def)
  have hx: "concat (emit_x32 x plain_fp) = hex_str (unat x)"
    by (simp add: emit_hex_eq hex_pieces_def plain_fp_def)
  have nd: "\<not> is_digit 0" "conv_hex_to_nibble 0 = -1" by (simp_all add: is_digit_def conv_hex_to_nibble_def)
  have x: "xtoi (hex_str (unat x) @ 0 # s) = Some x" for s
    using xtoi_loop_val [OF hex_str_facts(1) nd(2), of "unat x" s 0] hex_str_facts(2) [of "unat x"]
    by (simp add: xtoi_def hex_val_def)
  have ax: "atoix ([48, 0x78] @ hex_str (unat x) @ 0 # s) = Some x" for s
    using atoix_hex [OF hex_str_facts(1) nd(2), of "[]" "unat x" s] hex_str_facts(2) [of "unat x"] by simp
  show ?thesis
    using snprintf_fits [OF f(1) l(1) assms(2)] emit_s32_atoi [OF _ nd(1), of plain_fp x]
      snprintf_fits [OF f(2) _ assms(2)] snprintf_fits [OF f(3) l(2) assms(2)] l(2) x ax hx
    by simp
qed

theorem snprintf_number_roundtrip_witness:
  "\<exists>n buf'. snprintf False (replicate 12 0) 12 (cstr ''%d'') [Arg_int (- 42)] = Some (n, buf') \<and> atoi buf' = Some (- 42)"
  using snprintf_number_roundtrip [of 12 "replicate 12 0" False "- 42"] by simp

section \<open>Floating point output ends\<close>

lemma unat_shr: "unat (drop_bit n (m :: u64)) = unat m div 2 ^ n"
  by (simp only: unat_drop_bit_eq) (simp add: drop_bit_eq_div)

lemma unat_half [simp]: "unat (drop_bit (Suc 0) (m :: u64)) = unat m div 2"
  using unat_shr [of 1 m] by simp

lemma unat_u64_less: "unat (m :: u64) < 2 ^ 64"
proof -
  have "unat m < 2 ^ LENGTH(64)" by (rule unsigned_less)
  then show ?thesis by simp
qed

lemma hi_word: "0x33333333 \<le> (ucast (drop_bit 32 (m :: u64)) :: u32) \<longleftrightarrow> 0x3333333300000000 \<le> unat m"
proof -
  have "unat (drop_bit 32 m) < 2 ^ 32" unfolding unat_shr using unat_u64_less [of m] by (simp add: less_mult_imp_div_less)
  then have "unat (ucast (drop_bit 32 m) :: u32) = unat m div 2 ^ 32"
    unfolding unat_shr [symmetric] by (simp only: unsigned_ucast_eq) (simp add: take_bit_eq_mod)
  then show ?thesis unfolding word_le_nat_alt by simp arith
qed

lemma bit_63: "bit (m :: u64) 63 \<longleftrightarrow> 2 ^ 63 \<le> unat m"
proof -
  have "bit m 63 \<longleftrightarrow> bit (unat m) 63" by (simp add: bit_unsigned_iff)
  also have "\<dots> \<longleftrightarrow> odd (unat m div 2 ^ 63)" by (rule bit_iff_odd)
  also have "\<dots> \<longleftrightarrow> 2 ^ 63 \<le> unat m" using unat_u64_less [of m] by (simp add: odd_iff_mod_2_eq_one) arith
  finally show ?thesis .
qed

lemma top_bit: "(m :: u64) AND push_bit 63 1 = 0 \<longleftrightarrow> unat m < 2 ^ 63"
proof -
  have "m AND push_bit 63 1 = 0 \<longleftrightarrow> \<not> bit m 63" using and_exp_eq_0_iff_not_bit [of m 63] by (simp add: push_bit_eq_mult)
  then show ?thesis by (simp add: bit_63 not_le)
qed

lemma flt_shr_bounds:
  assumes "2 ^ 62 \<le> unat m" "flt_shr m e2 = (m', e2')"
  shows "2 ^ 60 \<le> unat m' \<and> unat m' < 0x3333333300000000"
  using assms
proof (induction m e2 rule: flt_shr.induct)
  case (1 m e2)
  let ?m = "drop_bit 1 m"
  show ?case
  proof (cases "0x3333333300000000 \<le> unat ?m")
    case False
    then show ?thesis using 1(2,3) by (subst (asm) flt_shr.simps) (auto simp: Let_def hi_word unat_half)
  next
    case True
    then have r: "flt_shr ?m (e2 + 1) = (m', e2')" using 1(3) by (subst (asm) flt_shr.simps) (simp add: Let_def hi_word)
    show ?thesis
    proof (cases "2 ^ 62 \<le> unat ?m")
      case True
      then show ?thesis using 1(1) [OF refl refl hi_word [THEN iffD2] True r] \<open>0x3333333300000000 \<le> unat ?m\<close> by simp
    next
      case False
      then have s: "unat (drop_bit 1 ?m) < 0x3333333300000000" "2 ^ 60 \<le> unat (drop_bit 1 ?m)"
        using True by (simp_all only: unat_shr power_one_right) simp_all
      then have "flt_shr ?m (e2 + 1) = (drop_bit 1 ?m, e2 + 1 + 1)"
        by (subst flt_shr.simps) (simp add: Let_def hi_word del: drop_bit_drop_bit)
      then show ?thesis using r s by simp
    qed
  qed
qed

definition flt_norm :: "u64 \<Rightarrow> bool" where
  "flt_norm m \<longleftrightarrow> 2 ^ 62 \<le> unat m \<and> unat m \<le> 2 ^ 64 - 4"

lemma flt_scale_up_norm:
  "flt_norm m \<Longrightarrow> flt_scale_up m e2 e10 = (m', e2', e10') \<Longrightarrow> flt_norm m'"
proof (induction m e2 e10 rule: flt_scale_up.induct)
  case (1 m e2 e10)
  obtain n f where s: "flt_shr m e2 = (n, f)" by (cases "flt_shr m e2") auto
  show ?case
  proof (cases "e2 < -2")
    case True
    have n: "2 ^ 60 \<le> unat n" "unat n < 0x3333333300000000"
      using flt_shr_bounds [OF _ s] 1(2) by (simp_all add: flt_norm_def)
    then have "unat (n * 5) = unat n * 5" by (simp add: unat_mult_lem [THEN iffD1])
    then have "flt_norm (n * 5)" using n by (simp add: flt_norm_def)
    then show ?thesis using 1(1) [OF True s [symmetric] refl] 1(3) True s by (subst (asm) flt_scale_up.simps) simp
  next
    case False
    then show ?thesis using 1(2,3) by (subst (asm) flt_scale_up.simps) simp
  qed
qed

lemma flt_shl_ends:
  assumes "0 < unat m" "unat m < 2 ^ 63" "d dvd unat m"
  shows "\<exists>m' e2'. flt_shl m e2 = Some (m', e2') \<and> e2' < e2 \<and> 2 ^ 63 \<le> unat m' \<and> 2 * d dvd unat m'"
  using assms
proof (induction "2 ^ 63 - unat m" arbitrary: m e2 rule: less_induct)
  case less
  have dbl: "unat (push_bit 1 m) = 2 * unat m"
    using less.prems by (simp add: push_bit_eq_mult unat_mult_lem [THEN iffD1] mult.commute)
  have dd: "d dvd unat (push_bit 1 m)" "2 * d dvd unat (push_bit 1 m)"
    using less.prems(3) by (simp_all only: dbl dvd_mult mult_dvd_mono [OF dvd_refl])
  show ?case
  proof (cases "unat (push_bit 1 m) < 2 ^ 63")
    case True
    then have "flt_shl m e2 = flt_shl (push_bit 1 m) (e2 - 1)"
      by (subst flt_shl.simps) (simp add: Let_def top_bit del: push_bit_Suc push_bit_of_1)
    moreover have "2 ^ 63 - unat (push_bit 1 m) < 2 ^ 63 - unat m" "0 < unat (push_bit 1 m)" using dbl True less.prems by linarith+
    moreover obtain m' e2' where "flt_shl (push_bit 1 m) (e2 - 1) = Some (m', e2')" "e2' < e2 - 1" "2 ^ 63 \<le> unat m'" "2 * d dvd unat m'"
      using less.hyps [OF calculation(2,3) True dd(1), of "e2 - 1"] by blast
    ultimately show ?thesis by (intro exI [of _ m'] exI [of _ e2']) simp
  next
    case False
    then have "push_bit 1 m AND push_bit 63 1 \<noteq> 0" using top_bit by blast
    then have "flt_shl m e2 = Some (push_bit 1 m, e2 - 1)"
      by (subst flt_shl.simps) (simp only: Let_def if_False)
    then show ?thesis using False dd(2) by (simp only:) simp
  qed
qed

lemma flt_scale_down_ends:
  assumes "flt_norm m"
  shows "\<exists>m' e2' e10'. flt_scale_down m e2 e10 = Some (m', e2', e10')"
  using assms
proof (induction "nat e2" arbitrary: m e2 e10 rule: less_induct)
  case less
  show ?case
  proof (cases "e2 > 0")
    case False
    then show ?thesis by (subst flt_scale_down.simps) simp
  next
    case True
    have "unat (2 + m) = 2 + unat m" using less.prems by (simp add: flt_norm_def unat_plus_if')
    then have k: "unat ((2 + m) div 5) = (2 + unat m) div 5" by (simp add: unat_div)
    then have b: "0 < unat ((2 + m) div 5)" "unat ((2 + m) div 5) < 2 ^ 62"
      unfolding k using less.prems by (auto simp: flt_norm_def)
    have d: "unat (push_bit 1 ((2 + m) div 5)) = 2 * unat ((2 + m) div 5)"
      using b(2) by (simp add: push_bit_eq_mult unat_mult_lem [THEN iffD1] mult.commute)
    then have b2: "0 < unat (push_bit 1 ((2 + m) div 5))" "unat (push_bit 1 ((2 + m) div 5)) < 2 ^ 63"
      unfolding d using b by simp_all
    then have st: "flt_shl ((2 + m) div 5) (e2 - 1) = flt_shl (push_bit 1 ((2 + m) div 5)) (e2 - 1 - 1)"
      using top_bit by (subst flt_shl.simps) (simp only: Let_def if_True)
    obtain m' f where r: "flt_shl (push_bit 1 ((2 + m) div 5)) (e2 - 1 - 1) = Some (m', f)" "f < e2 - 1 - 1"
        "2 ^ 63 \<le> unat m'" "4 dvd unat m'"
      using flt_shl_ends [OF b2, of 2 "e2 - 1 - 1"] d by auto
    have "unat m' \<le> 2 ^ 64 - 4" using r(4) unat_u64_less [of m'] by (auto elim!: dvdE)
    then have n: "flt_norm m'" using r(3) by (simp add: flt_norm_def)
    have st: "flt_shl ((2 + m) div 5) (e2 - 1) = Some (m', f)" using st r(1) by (simp only:)
    have "nat f < nat e2" using r(2) True by simp
    from less.hyps [OF this n, of "e10 + 1"] show ?thesis
      using True st by (subst flt_scale_down.simps) simp
  qed
qed

lemma float_to_str_finite:
  assumes "drop_bit 52 bits AND 0x7ff \<noteq> 0x7ff"
  shows "\<exists>ps. float_to_str bits fp = Some ps"
proof -
  define w where "w = drop_bit 52 bits AND 0x7ff"
  have e: "int (unat w) \<noteq> 2047"
  proof
    assume "int (unat w) = 2047"
    then have "unat w = 2047" by linarith
    then have "of_nat (unat w) = (of_nat 2047 :: u64)" by (rule arg_cong)
    then show False using assms by (simp add: w_def)
  qed
  let ?m = "push_bit 11 (bits AND (push_bit 52 1 - 1)) OR push_bit 63 1 :: u64"
  have "\<exists>m e10. flt_unpack bits = Some (m, e10)"
  proof -
    have top: "2 ^ 63 \<le> unat ?m" unfolding bit_63 [symmetric] by (simp only: bit_or_iff bit_push_bit_iff) simp
    let ?y = "(bits AND (push_bit 52 1 - 1)) OR push_bit 52 1"
    have "?m = push_bit 11 ?y" by (simp add: push_bit_or push_bit_push_bit)
    then have "unat ?m = push_bit 11 (unat ?y) mod 2 ^ 64" by (simp only: unsigned_push_bit_eq) (simp add: take_bit_eq_mod)
    then have "8 dvd unat ?m" by (simp add: push_bit_eq_mult dvd_mod)
    then have "flt_norm ?m" using top unat_u64_less [of ?m] by (auto simp: flt_norm_def elim!: dvdE)
    moreover obtain n e2 e10 where up: "flt_scale_up ?m (int (unat w) - 1022) 0 = (n, e2, e10)" by (rule prod_cases3)
    ultimately obtain r where "flt_scale_down n e2 e10 = Some r"
      using flt_scale_up_norm [OF _ up] flt_scale_down_ends [of n e2 e10] by blast
    then show ?thesis unfolding flt_unpack_def Let_def w_def [symmetric] up by (cases r) simp
  qed
  then show ?thesis using e by (auto simp: float_to_str_def Let_def w_def [symmetric] split: prod.splits)
qed

lemma emit_str_fails:
  "0 \<notin> set s \<Longrightarrow> n = length s + 1 \<Longrightarrow>
   emit_str (Some (s @ [0])) fp = None \<longleftrightarrow> fp_decimals fp \<noteq> INT16_MIN \<and> unat (of_int (fp_decimals fp) :: u32) > n"
  using strlen_cstr [of s "[]"] by (auto simp: emit_str_def buf_slice_def unat_of_nat Let_def split: if_splits)

text \<open>C33. Printing a double with \<^verbatim>\<open>%f\<close> comes to an end for every bit pattern: for a finite number the scaling loops
  reach a decimal exponent whatever exponent and mantissa are, and digits are produced. The only failure is a read
  past the end of the words \<^verbatim>\<open>nan\<close>, \<^verbatim>\<open>-inf\<close>, \<^verbatim>\<open>+inf\<close>, and it happens exactly when such a value is
  printed with a precision larger than the word with its terminator.\<close>

theorem float_to_str_ends:
  "float_to_str bits fp = None \<longleftrightarrow>
     drop_bit 52 bits AND 0x7ff = 0x7ff \<and> fp_decimals fp \<noteq> INT16_MIN \<and>
     unat (of_int (fp_decimals fp) :: u32) > (if bits AND (push_bit 52 1 - 1) \<noteq> 0 then 4 else 5)"
proof (cases "drop_bit 52 bits AND 0x7ff = 0x7ff")
  case False
  then show ?thesis using float_to_str_finite [OF False, of fp] by auto
next
  case True
  have n: "0 \<notin> set [110 :: u8, 97, 110]" "0 \<notin> set [45 :: u8, 105, 110, 102]" "0 \<notin> set [43 :: u8, 105, 110, 102]" by simp_all
  from True show ?thesis
    using emit_str_fails [OF n(1), of 4 fp] emit_str_fails [OF n(2), of 5 fp] emit_str_fails [OF n(3), of 5 fp]
    by (simp add: float_to_str_def Let_def)
qed

section \<open>Deviations from the C standard\<close>

text \<open>Zero padding goes in front of the sign; \<^verbatim>\<open>%lld\<close> is not understood where \<^verbatim>\<open>long\<close> has 64 bits:
  the second \<^verbatim>\<open>l\<close> is taken as the conversion and the argument is not consumed.\<close>

lemma fmtv_zero_pad_sign: "map_option concat (fmtv False (cstr ''%05d'') [Arg_int (- 42)]) = Some [48, 48, 45, 52, 50]"
  by code_simp

lemma fmtv_lld_lp64: "fmtv True (cstr ''%lld'') [Arg_64 x] = Some [[100]]"
  by (simp add: cstr_def fmtv_def fmtv_loop.simps fmt_spec_def fmt_flags_def fmt_number_def parse_dec_def
      fmt_length_def fmt_directive_def buf_rd_def Let_def)

lemmas [code] = flt_shl.simps flt_scale_down.simps

text \<open>A precision is applied to the word for a number that is not finite, and what follows the word is printed.
  The width of a number below the printed precision is counted with all its leading zeros: it
  comes out too narrow.\<close>

lemma fmtv_nan_precision: "fmtv False (cstr ''%.6f'') [Arg_double 0x7ff8000000000000] = None"
  by code_simp

lemma fmtv_float_pad: "map_option fmt_total (fmtv False (cstr ''%12f'') [Arg_double 0x3DDB7CDFD9D7BDBB]) = Some 9"
  by code_simp

end
