(* ===== verification/Dsig.thy ===== *)
theory Dsig
  imports Pbuf Cstring
begin

text \<open>
  The signal layer of \<^verbatim>\<open>src/net/dsig.c\<close>: packets tagged with a 32-bit signal number, queued by
  any task and given on the network task to local subscribers and to the interfaces whose
  filter matches. The callbacks of subscribers and the output methods of interfaces are
  parameters working on an environment of any type, the callbacks on the layer too; a subscriber is named by a number. Timers
  are their expiry times, 0 when disarmed.
\<close>

section \<open>Data\<close>

record dsig_sub =
  ds_key :: nat
  ds_signal :: u32
  ds_mask :: u32
  ds_ttl :: nat
  ds_expire :: u64

record dsig_filter =
  df_prefix :: u32
  df_prefixlen :: nat
  df_flags :: u32

record dsig_if =
  di_key :: nat
  di_output :: bool
  di_filter :: "dsig_filter list option"

record dsig_net =
  dn_bufs :: net_bufs
  dn_sendq :: "pbuf list"
  dn_raises :: nat
  dn_subs :: "dsig_sub list"
  dn_pending :: "dsig_sub list"
  dn_solo :: "nat option"

text \<open>Access to the data of one fragment from \<^verbatim>\<open>pbuf_data\<close> and \<^verbatim>\<open>pbuf_cdata\<close> on.\<close>

definition pb_wr :: "pbuf \<Rightarrow> nat \<Rightarrow> bytes \<Rightarrow> net_bufs \<Rightarrow> net_bufs option" where
  "pb_wr pb off d nb = do {
     m \<leftarrow> buf_copy (nb_mem nb (pb_data pb)) (pb_offset pb + off) d;
     Some (nb\<lparr>nb_mem := (nb_mem nb)(pb_data pb := m)\<rparr>)
   }"

definition pb_rd :: "pbuf \<Rightarrow> nat \<Rightarrow> nat \<Rightarrow> net_bufs \<Rightarrow> bytes option" where
  "pb_rd pb off n nb = buf_slice (nb_mem nb (pb_data pb)) (pb_offset pb + off) n"

definition rd32_le :: "bytes \<Rightarrow> u32 option" where
  "rd32_le bs = (case bs of [a, b, c, d] \<Rightarrow> Some (le32_dec a b c d) | _ \<Rightarrow> None)"

section \<open>Subscribers\<close>

definition dsig_rearm :: "u64 \<Rightarrow> nat \<Rightarrow> dsig_net \<Rightarrow> dsig_net" where
  "dsig_rearm now key dn =
     dn\<lparr>dn_subs := map (\<lambda>ds. if ds_key ds = key \<and> ds_ttl ds \<noteq> 0 then ds\<lparr>ds_expire := now + of_nat (ds_ttl ds * 1000)\<rparr> else ds) (dn_subs dn)\<rparr>"

text \<open>
  A callback may use the layer, for example call \<^verbatim>\<open>dsig_solo\<close>: it gets the state and gives back a new one, and every
  turn of the loop looks at the state as it is then. The subscribers still to come are known at the
  start: new ones are put in front of the list and none is ever taken off.
\<close>

type_synonym 'e dsig_cb = "nat \<Rightarrow> pbuf list \<Rightarrow> u32 \<Rightarrow> dsig_net \<Rightarrow> 'e \<Rightarrow> dsig_net \<times> 'e"

fun dsig_dispatch_loop :: "u64 \<Rightarrow> 'e dsig_cb \<Rightarrow> u32 \<Rightarrow> pbuf list \<Rightarrow> nat list \<Rightarrow> dsig_net \<Rightarrow> 'e \<Rightarrow> dsig_net \<times> 'e" where
  "dsig_dispatch_loop now cb signal pb [] dn e = (dn, e)"
| "dsig_dispatch_loop now cb signal pb (key # keys) dn e =
     (let (dn, e) =
        (case find (\<lambda>ds. ds_key ds = key) (dn_subs dn) of
           None \<Rightarrow> (dn, e)
         | Some ds \<Rightarrow>
             if dn_solo dn \<noteq> None \<and> dn_solo dn \<noteq> Some key then (dn, e)
             else if signal AND ds_mask ds = ds_signal ds then cb key pb signal (dsig_rearm now key dn) e
             else (dn, e))
      in dsig_dispatch_loop now cb signal pb keys dn e)"

definition dsig_dispatch :: "u64 \<Rightarrow> 'e dsig_cb \<Rightarrow> u32 \<Rightarrow> pbuf list \<Rightarrow> dsig_net \<Rightarrow> 'e \<Rightarrow> dsig_net \<times> 'e" where
  "dsig_dispatch now cb signal pb dn e = dsig_dispatch_loop now cb signal pb (map ds_key (dn_subs dn)) dn e"

text \<open>When no signal came for the time to live of a subscriber, it is called without a packet.\<close>

definition sub_timeout :: "'e dsig_cb \<Rightarrow> dsig_sub \<Rightarrow> dsig_net \<Rightarrow> 'e \<Rightarrow> dsig_net \<times> 'e" where
  "sub_timeout cb ds dn e = cb (ds_key ds) [] 0 dn e"

fun dsig_sub_insert :: "u64 \<Rightarrow> dsig_sub list \<Rightarrow> dsig_sub list \<Rightarrow> dsig_sub list" where
  "dsig_sub_insert now [] subs = subs"
| "dsig_sub_insert now (ds # pending) subs =
     (let ds = (if ds_ttl ds \<noteq> 0 then ds\<lparr>ds_expire := now + of_nat (ds_ttl ds * 1000)\<rparr> else ds)
      in dsig_sub_insert now pending (ds # subs))"

definition dsig_sub_insert_cb :: "u64 \<Rightarrow> dsig_net \<Rightarrow> dsig_net" where
  "dsig_sub_insert_cb now dn =
     dn\<lparr>dn_subs := dsig_sub_insert now (dn_pending dn) (dn_subs dn), dn_pending := []\<rparr>"

definition dsig_sub_add :: "nat \<Rightarrow> u32 \<Rightarrow> u32 \<Rightarrow> nat \<Rightarrow> dsig_net \<Rightarrow> dsig_net" where
  "dsig_sub_add key signal msk ttl dn =
     dn\<lparr>dn_pending := \<lparr>ds_key = key, ds_signal = signal, ds_mask = msk, ds_ttl = ttl, ds_expire = 0\<rparr> # dn_pending dn,
        dn_raises := dn_raises dn + 1\<rparr>"

definition dsig_solo :: "u64 \<Rightarrow> nat option \<Rightarrow> dsig_net \<Rightarrow> dsig_net" where
  "dsig_solo now which dn =
     (let subs =
        (if which \<noteq> None then
           map (\<lambda>ds. if Some (ds_key ds) = which then ds else ds\<lparr>ds_expire := 0\<rparr>) (dn_subs dn)
         else
           map (\<lambda>ds. if Some (ds_key ds) = dn_solo dn then ds
                     else if ds_ttl ds \<noteq> 0 then ds\<lparr>ds_expire := now + of_nat (ds_ttl ds * 1000)\<rparr> else ds) (dn_subs dn))
      in dn\<lparr>dn_subs := subs, dn_solo := which\<rparr>)"

section \<open>Output\<close>

fun dsig_filter_match :: "dsig_filter list \<Rightarrow> u32 \<Rightarrow> dsig_filter option option" where
  "dsig_filter_match [] addr = None"
| "dsig_filter_match (dof # dofs) addr =
     (if df_prefixlen dof = 0xff then Some None
      else if addr AND mask_from_prefixlen (df_prefixlen dof) = df_prefix dof then Some (Some dof)
      else dsig_filter_match dofs addr)"

text \<open>Whether an interface takes a signal, and with which flags.\<close>

definition dsig_if_match :: "dsig_if \<Rightarrow> u32 \<Rightarrow> u32 option option" where
  "dsig_if_match ni sid =
     (case di_filter ni of
        None \<Rightarrow> Some (Some 0)
      | Some dof \<Rightarrow> map_option (map_option df_flags) (dsig_filter_match dof sid))"

type_synonym 'e dsig_out = "nat \<Rightarrow> pbuf list \<Rightarrow> u32 \<Rightarrow> u32 \<Rightarrow> net_bufs \<Rightarrow> 'e \<Rightarrow> (pbuf list \<times> net_bufs \<times> 'e) option"

fun dsig_output_loop ::
  "'e dsig_out \<Rightarrow> (nat \<Rightarrow> u8) \<Rightarrow> u32 \<Rightarrow> pbuf list \<Rightarrow> nat option \<Rightarrow> dsig_if list \<Rightarrow> (nat \<times> u32) option \<Rightarrow>
   net_bufs \<Rightarrow> 'e \<Rightarrow> ((nat \<times> u32) option \<times> net_bufs \<times> 'e) option" where
  "dsig_output_loop out old sid pb exclude [] to nb e = Some (to, nb, e)"
| "dsig_output_loop out old sid pb exclude (ni # ifs) to nb e =
     (if Some (di_key ni) = exclude \<or> \<not> di_output ni then dsig_output_loop out old sid pb exclude ifs to nb e
      else do {
        m \<leftarrow> dsig_if_match ni sid;
        case m of
          None \<Rightarrow> dsig_output_loop out old sid pb exclude ifs to nb e
        | Some flags \<Rightarrow> do {
            (nb, e) \<leftarrow>
              (case to of
                 None \<Rightarrow> Some (nb, e)
               | Some (t, to_flags) \<Rightarrow> do {
                   (copy, nb) \<leftarrow> (case pb of [] \<Rightarrow> None | p # _ \<Rightarrow> pbuf_copy0 old p False nb);
                   if copy = [] then Some (nb, e)
                   else do {
                     (r, nb, e) \<leftarrow> out t copy sid to_flags nb e;
                     nb \<leftarrow> (if r \<noteq> [] then pbuf_free r nb else Some nb);
                     Some (nb, e)
                   }
                 });
            dsig_output_loop out old sid pb exclude ifs (Some (di_key ni, flags)) nb e
          }
      })"

definition dsig_output ::
  "u64 \<Rightarrow> 'e dsig_cb \<Rightarrow> 'e dsig_out \<Rightarrow> (nat \<Rightarrow> u8) \<Rightarrow> dsig_if list \<Rightarrow>
   u32 \<Rightarrow> pbuf list \<Rightarrow> nat option \<Rightarrow> dsig_net \<Rightarrow> 'e \<Rightarrow> (pbuf list \<times> dsig_net \<times> 'e) option" where
  "dsig_output now cb out old ifs sid pb exclude dn e = do {
     let (dn, e) = dsig_dispatch now cb sid pb dn e;
     (to, nb, e) \<leftarrow> dsig_output_loop out old sid pb exclude ifs None (dn_bufs dn) e;
     case to of
       None \<Rightarrow> Some (pb, dn\<lparr>dn_bufs := nb\<rparr>, e)
     | Some (t, flags) \<Rightarrow> do {
         (r, nb, e) \<leftarrow> out t pb sid flags nb e;
         Some (r, dn\<lparr>dn_bufs := nb\<rparr>, e)
       }
   }"

text \<open>A packet from an interface goes to the protocol above, a parameter, and is else forwarded.
  The debug log is left out.\<close>

definition dsig_input ::
  "(u32 \<Rightarrow> pbuf list \<Rightarrow> dsig_net \<Rightarrow> 'e \<Rightarrow> (pbuf list \<times> dsig_net \<times> 'e) option) \<Rightarrow>
   (u32 \<Rightarrow> pbuf list \<Rightarrow> nat option \<Rightarrow> dsig_net \<Rightarrow> 'e \<Rightarrow> (pbuf list \<times> dsig_net \<times> 'e) option) \<Rightarrow>
   u32 \<Rightarrow> pbuf list \<Rightarrow> nat \<Rightarrow> dsig_net \<Rightarrow> 'e \<Rightarrow> (pbuf list \<times> dsig_net \<times> 'e) option" where
  "dsig_input upper outp sid pb ni dn e = do {
     p \<leftarrow> (case pb of [] \<Rightarrow> None | p # _ \<Rightarrow> Some p);
     (missing, pb, nb) \<leftarrow> pbuf_pullup pb (pb_pktlen p) (dn_bufs dn);
     let dn = dn\<lparr>dn_bufs := nb\<rparr>;
     if missing \<noteq> 0 then Some (pb, dn, e)
     else do {
       (pb, dn, e) \<leftarrow> upper sid pb dn e;
       if pb = [] then Some ([], dn, e) else outp sid pb (Some ni) dn e
     }
   }"

section \<open>The send queue\<close>

text \<open>The queue macro clears the link of the fragment it inserts: of a packet of several fragments
  only the first is queued.\<close>

definition dsig_send :: "pbuf list \<Rightarrow> dsig_net \<Rightarrow> dsig_net" where
  "dsig_send pb dn =
     dn\<lparr>dn_raises := (if dn_sendq dn = [] then dn_raises dn + 1 else dn_raises dn),
        dn_sendq := dn_sendq dn @ take 1 pb\<rparr>"

definition dsig_emit :: "u32 \<Rightarrow> bytes \<Rightarrow> dsig_net \<Rightarrow> dsig_net option" where
  "dsig_emit signal data dn =
     (if length data > PBUF_DATA_SIZE - 4 then Some dn
      else do {
        (pb, nb) \<leftarrow> pbuf_make0 0 False (dn_bufs dn);
        case pb of
          [] \<Rightarrow> Some (dn\<lparr>dn_bufs := nb\<rparr>)
        | pb # _ \<Rightarrow> do {
            nb \<leftarrow> pb_wr pb 0 (le32 signal) nb;
            nb \<leftarrow> pb_wr pb 4 data nb;
            let pb = pb\<lparr>pb_pktlen := length data + 4, pb_buflen := length data + 4\<rparr>;
            Some (dsig_send [pb] (dn\<lparr>dn_bufs := nb\<rparr>))
          }
      })"

definition dsig_emit_pbuf :: "u32 \<Rightarrow> pbuf list \<Rightarrow> dsig_net \<Rightarrow> dsig_net option" where
  "dsig_emit_pbuf signal pb dn = do {
     (pb, nb) \<leftarrow> pbuf_prepend pb 4 False 0 (dn_bufs dn);
     case pb of
       [] \<Rightarrow> Some (dn\<lparr>dn_bufs := nb\<rparr>)
     | p # _ \<Rightarrow> do {
         nb \<leftarrow> pb_wr p 0 (le32 signal) nb;
         Some (dsig_send pb (dn\<lparr>dn_bufs := nb\<rparr>))
       }
   }"

text \<open>
  The queue is drained packet by packet; a queue without an end of packet would be sent
  whole without ever getting shorter, which is a failure here. The length of the queue is a
  bound for the number of packets.
\<close>

fun dsig_send_cb ::
  "nat \<Rightarrow> (u32 \<Rightarrow> pbuf list \<Rightarrow> dsig_net \<Rightarrow> 'e \<Rightarrow> (pbuf list \<times> dsig_net \<times> 'e) option) \<Rightarrow>
   dsig_net \<Rightarrow> 'e \<Rightarrow> (dsig_net \<times> 'e) option" where
  "dsig_send_cb n output dn e =
     (let (pb, q) = pbuf_splice (dn_sendq dn) in
      if pb = [] then Some (dn, e)
      else if n = 0 then None
      else do {
        let dn = dn\<lparr>dn_sendq := q\<rparr>;
        g \<leftarrow> pb_rd (hd pb) 0 4 (dn_bufs dn);
        group \<leftarrow> rd32_le g;
        (pb, nb) \<leftarrow> pbuf_drop pb 4 False (dn_bufs dn);
        (pb, dn, e) \<leftarrow> output group pb (dn\<lparr>dn_bufs := nb\<rparr>) e;
        nb \<leftarrow> (if pb \<noteq> [] then pbuf_free pb (dn_bufs dn) else Some (dn_bufs dn));
        dsig_send_cb (n - 1) output (dn\<lparr>dn_bufs := nb\<rparr>) e
      })"

declare dsig_send_cb.simps [simp del]

section \<open>The transmit command\<close>

text \<open>\<^const>\<open>False\<close> in the first component is \<^verbatim>\<open>ERR_INVALID_ARGS\<close>; the packet is then lost.\<close>

fun dsigtx_data :: "bytes \<Rightarrow> pbuf list \<Rightarrow> net_bufs \<Rightarrow> (bool \<times> pbuf list \<times> net_bufs) option" where
  "dsigtx_data [] pb nb = None"
| "dsigtx_data [a] pb nb = (if a = 0 then Some (True, pb, nb) else None)"
| "dsigtx_data (a # b # s) pb nb =
     (if a = 0 \<or> b = 0 then Some (True, pb, nb)
      else let h = conv_hex_to_nibble a; l = conv_hex_to_nibble b in
        if h < 0 \<or> l < 0 then Some (False, pb, nb)
        else do {
          (d, off, pb) \<leftarrow> pbuf_append pb 1;
          m \<leftarrow> buf_copy (nb_mem nb d) off [of_int (16 * h + l)];
          dsigtx_data s pb (nb\<lparr>nb_mem := (nb_mem nb)(d := m)\<rparr>)
        })"

fun dsigtx_copies :: "(nat \<Rightarrow> u8) \<Rightarrow> nat \<Rightarrow> pbuf \<Rightarrow> dsig_net \<Rightarrow> dsig_net option" where
  "dsigtx_copies old 0 pb dn = Some dn"
| "dsigtx_copies old (Suc n) pb dn = do {
     (copy, nb) \<leftarrow> pbuf_copy0 old pb True (dn_bufs dn);
     dsigtx_copies old n pb (dsig_send copy (dn\<lparr>dn_bufs := nb\<rparr>))
   }"

definition cmd_dsigtx :: "(nat \<Rightarrow> u8) \<Rightarrow> bytes list \<Rightarrow> dsig_net \<Rightarrow> (bool \<times> dsig_net) option" where
  "cmd_dsigtx old argv dn =
     (if length argv < 2 then Some (False, dn)
      else do {
        addr \<leftarrow> atoix (argv ! 1);
        (pb, nb) \<leftarrow> pbuf_make0 0 False (dn_bufs dn);
        (d, off, pb) \<leftarrow> pbuf_append pb 4;
        m \<leftarrow> buf_copy (nb_mem nb d) off (le32 addr);
        let nb = nb\<lparr>nb_mem := (nb_mem nb)(d := m)\<rparr>;
        (ok, pb, nb) \<leftarrow> (if length argv > 2 then dsigtx_data (argv ! 2) pb nb else Some (True, pb, nb));
        let dn = dn\<lparr>dn_bufs := nb\<rparr>;
        if \<not> ok then Some (False, dn)
        else do {
          copies \<leftarrow> (if length argv > 3 then atoi (argv ! 3) else Some 1);
          dn \<leftarrow> dsigtx_copies old (nat (sint copies - 1)) (hd pb) dn;
          Some (True, dsig_send pb dn)
        }
      })"

section \<open>Delivery\<close>

text \<open>A callback that calls \<^verbatim>\<open>dsig_solo\<close> silences the rest of the same round: of three subscribers that all match,
  the second asks to be heard alone and the third is not called.\<close>

definition demo_subs :: dsig_net where
  "demo_subs = \<lparr>dn_bufs = demo_bufs, dn_sendq = [], dn_raises = 0,
     dn_subs = map (\<lambda>k. \<lparr>ds_key = k, ds_signal = 0, ds_mask = 0, ds_ttl = 5, ds_expire = 1\<rparr>) [1, 2, 3], dn_pending = [], dn_solo = None\<rparr>"

lemma dsig_solo_in_callback:
  "snd (dsig_dispatch 100 (\<lambda>k pb sid dn e. (if k = 2 then dsig_solo 100 (Some 2) dn else dn, e @ [k])) 7 [] demo_subs []) = [1, 2]"
  by (simp add: dsig_dispatch_def demo_subs_def dsig_rearm_def dsig_solo_def)

text \<open>Buffers for one new packet.\<close>

definition bufs_ready :: "net_bufs \<Rightarrow> bool" where
  "bufs_ready nb \<longleftrightarrow> bufs_inv nb [] \<and> 2 \<le> pp_avail (nb_pbufs nb) \<and> 2 \<le> pp_avail (nb_datas nb)"

lemma pbuf_make0_ready:
  assumes "bufs_ready nb"
  obtains p nb' where "pbuf_make0 off w nb = Some ([p], nb')" "nb_mem nb' = nb_mem nb" "pb_offset p = off" "pb_buflen p = 0"
    "pb_pktlen p = 0" "length (nb_mem nb (pb_data p)) = PBUF_DATA_SIZE" "pb_flags p = PBUF_SOP OR PBUF_EOP"
proof -
  obtain a as b bs where i: "pp_items (nb_pbufs nb) = a # as" "pp_items (nb_datas nb) = b # bs"
    using assms by (cases "pp_items (nb_pbufs nb)"; cases "pp_items (nb_datas nb)") (auto simp: bufs_ready_def bufs_inv_def)
  then have "a \<noteq> 0" "b \<noteq> 0" "length (nb_mem nb b) = PBUF_DATA_SIZE"
    using assms by (auto simp: bufs_ready_def bufs_inv_def addrs_ok_def data_addrs_def self_addrs_def)
  then show ?thesis using that assms i
    by (auto simp: pbuf_make0_def pbuf_make_irq_blocked0_def pbuf_get0_def pbuf_data_get0_def pbuf_pool_get_def bufs_ready_def)
qed

lemma le32_rd32 [simp]: "rd32_le (le32 w) = Some w"
  by (simp add: rd32_le_def le32_def le32_dec_le32)

text \<open>C34. What a task emits is what the network task puts out: with a buffer free and nothing
  else queued, the packet that \<^const>\<open>dsig_emit\<close> queues is the one \<^const>\<open>dsig_send_cb\<close> gives to
  the output function, under the number it was emitted with and with exactly the bytes given,
  and what the output function gives back is released.\<close>

theorem dsig_emit_delivered:
  assumes "length data \<le> PBUF_DATA_SIZE - 4" "bufs_ready (dn_bufs dn)" "dn_sendq dn = []"
  shows "\<exists>dn1 pb dn2. dsig_emit signal data dn = Some dn1 \<and> dn_raises dn1 = dn_raises dn + 1 \<and>
    pkt_bytes (nb_mem (dn_bufs dn2)) [pb] = data \<and> pb_pktlen pb = length data \<and> dn_sendq dn2 = [] \<and>
    dsig_send_cb (Suc n) outp dn1 e = do {
      (r, dn, e) \<leftarrow> outp signal [pb] dn2 e;
      nb \<leftarrow> (if r \<noteq> [] then pbuf_free r (dn_bufs dn) else Some (dn_bufs dn));
      dsig_send_cb n outp (dn\<lparr>dn_bufs := nb\<rparr>) e }"
proof -
  from pbuf_make0_ready [OF assms(2), of 0 False] obtain p nb where
    p: "pbuf_make0 0 False (dn_bufs dn) = Some ([p], nb)" "nb_mem nb = nb_mem (dn_bufs dn)" "pb_offset p = 0" "pb_buflen p = 0"
      "pb_pktlen p = 0" "length (nb_mem (dn_bufs dn) (pb_data p)) = PBUF_DATA_SIZE" "pb_flags p = PBUF_SOP OR PBUF_EOP" .
  define q where "q = p\<lparr>pb_pktlen := length data + 4, pb_buflen := length data + 4\<rparr>"
  define nb1 where "nb1 = nb\<lparr>nb_mem := (nb_mem nb)(pb_data p := le32 signal @ data @ drop (length data + 4) (nb_mem nb (pb_data p)))\<rparr>"
  define dn2 where "dn2 = dn\<lparr>dn_bufs := nb1, dn_raises := dn_raises dn + 1, dn_sendq := []\<rparr>"
  define pb where "pb = q\<lparr>pb_pktlen := length data, pb_offset := 4, pb_buflen := length data\<rparr>"
  have emit: "dsig_emit signal data dn = Some (dn2\<lparr>dn_sendq := [q]\<rparr>)"
    using assms p by (simp add: dsig_emit_def pb_wr_def buf_copy_def dsig_send_def q_def nb1_def dn2_def PBUF_DATA_SIZE_def Let_def)
  have sp: "pbuf_splice [q] = ([q], [])" using p(7) by (simp add: pbuf_splice_def q_def PBUF_EOP_def PBUF_SOP_def)
  have dr: "pbuf_drop [q] 4 False nb1 = Some ([pb], nb1)"
    using p(3) by (simp add: pbuf_drop_def pbuf_drop_loop.simps q_def pb_def Let_def)
  have rd: "pb_rd q 0 4 nb1 = Some (le32 signal)" using p(3) by (simp add: pb_rd_def buf_slice_def q_def nb1_def)
  have d2: "dn_bufs dn2 = nb1" "dn_sendq dn2 = []" "dn2\<lparr>dn_sendq := [], dn_bufs := nb1\<rparr> = dn2" by (simp_all add: dn2_def)
  have "dsig_send_cb (Suc n) outp (dn2\<lparr>dn_sendq := [q]\<rparr>) e = do {
      (r, dn, e) \<leftarrow> outp signal [pb] dn2 e;
      nb \<leftarrow> (if r \<noteq> [] then pbuf_free r (dn_bufs dn) else Some (dn_bufs dn));
      dsig_send_cb n outp (dn\<lparr>dn_bufs := nb\<rparr>) e }"
    by (subst dsig_send_cb.simps) (simp add: sp dr rd d2)
  moreover have "pkt_bytes (nb_mem nb1) [pb] = data" "pb_pktlen pb = length data"
    using p(3) by (simp_all add: pb_def q_def nb1_def pkt_bytes_def frag_bytes_def)
  moreover have "dn_raises (dn2\<lparr>dn_sendq := [q]\<rparr>) = dn_raises dn + 1" by (simp add: dn2_def)
  ultimately show ?thesis using emit d2(1,2) by auto
qed

definition demo_dsig :: dsig_net where
  "demo_dsig = \<lparr>dn_bufs = demo_bufs, dn_sendq = [], dn_raises = 0, dn_subs = [], dn_pending = [], dn_solo = None\<rparr>"

theorem dsig_emit_delivered_witness:
  "\<exists>dn1 dn2. dsig_emit 0x123 [1, 2, 3] demo_dsig = Some dn1 \<and> dn_raises dn1 = 1 \<and>
    dsig_send_cb 1 (\<lambda>sid pb dn e. Some ([], dn, (sid, pkt_bytes (nb_mem (dn_bufs dn)) pb) # e)) dn1 [] =
      Some (dn2, [(0x123, [1, 2, 3])])"
proof -
  have "bufs_ready demo_bufs"
    by (simp add: bufs_ready_def demo_bufs_def bufs_inv_def addrs_ok_def data_addrs_def self_addrs_def PBUF_DATA_SIZE_def)
  then have "length [1 :: u8, 2, 3] \<le> PBUF_DATA_SIZE - 4" "bufs_ready (dn_bufs demo_dsig)" "dn_sendq demo_dsig = []"
    "dn_raises demo_dsig = 0"
    by (simp_all add: demo_dsig_def PBUF_DATA_SIZE_def)
  then show ?thesis
    using dsig_emit_delivered [where data = "[1, 2, 3]" and dn = demo_dsig and signal = "0x123" and n = 0 and e = "[]"
        and outp = "\<lambda>sid pb dn e. Some ([], dn, (sid, pkt_bytes (nb_mem (dn_bufs dn)) pb) # e)"]
    by (auto simp: dsig_send_cb.simps [of 0] pbuf_splice_def)
qed

end
