(* ===== verification/Vllp.thy ===== *)
theory Vllp
  imports Dsig Crc
begin

text \<open>
  The server side of the very lightweight link protocol, \<^verbatim>\<open>src/net/vllp.c\<close>: a connection over
  two signal numbers with alternating sequence bits, up to 14 service channels and the channel
  management channel (CMC), each channel carrying messages split into fragments and closed by
  a running checksum.

  The model holds one server. Channels are objects named by their addresses; the lists
  \<^verbatim>\<open>channels\<close> and \<^verbatim>\<open>established_channels\<close> are lists of addresses and the allocator is the list
  of the addresses it still can hand out. Timers are their expiry times, 0 when disarmed. The
  services and their \<^verbatim>\<open>pushpull\<close> methods are the parameter \<open>ops\<close>, which works on a state of any
  type. \<^const>\<open>None\<close> is a panic, a failing assertion or a bad memory access; an empty packet is
  NULL. Log output is left out.
\<close>

section \<open>Data\<close>

datatype vllp_channel_state = PENDING | OPEN_SENT | ESTABLISHED | CLOSED_SENT

record vllp_channel =
  vc_id :: nat
  vc_rxq :: "pbuf list"
  vc_txq :: "pbuf list"
  vc_tx_iv :: u32
  vc_rx_iv :: u32
  vc_state :: vllp_channel_state
  vc_app :: bool
  vc_max_fragment_size :: nat
  vc_preferred_offset :: nat
  vc_app_closed :: nat
  vc_net_closed :: bool

record 'a vllp_ops =
  op_may_push :: "nat \<Rightarrow> 'a \<Rightarrow> bool"
  op_push :: "nat \<Rightarrow> pbuf list \<Rightarrow> net_bufs \<Rightarrow> 'a \<Rightarrow> u32 \<times> net_bufs \<times> 'a"
  op_pull :: "nat \<Rightarrow> net_bufs \<Rightarrow> 'a \<Rightarrow> pbuf list \<times> net_bufs \<times> 'a"
  op_close :: "nat \<Rightarrow> 'a \<Rightarrow> 'a"
  op_service_find :: "bytes \<Rightarrow> nat option"
  op_service_open :: "nat \<Rightarrow> nat \<Rightarrow> net_bufs \<Rightarrow> 'a \<Rightarrow> int \<times> net_bufs \<times> 'a"

record 'a vllp =
  v_chan :: "nat \<Rightarrow> vllp_channel option"
  v_channels :: "nat list"
  v_established :: "nat list"
  v_ack_timer :: u64
  v_rtx_timer :: u64
  v_timeout_timer :: u64
  v_tx_buf :: "pbuf list"
  v_tx_len :: nat
  v_tx_channel :: nat
  v_cmc :: nat
  v_rxid :: u32
  v_txid :: u32
  v_crc_iv :: u32
  v_channel_iv_cnt :: u32
  v_remote_flow :: u16
  v_local_flow :: u16
  v_tx_local_flow :: u16
  v_connected :: bool
  v_SE :: u8
  v_mtu :: nat
  v_timeout :: nat
  v_net :: dsig_net
  v_app :: 'a
  v_now :: u64
  v_blocks :: "nat list"
  v_signals :: "nat \<Rightarrow> u32"
  v_tasks :: "nat list"

definition VLLP_VERSION :: u8 where "VLLP_VERSION = 2"
definition VLLP_SYN :: u8 where "VLLP_SYN = 0x0f"
definition VLLP_HDR_S :: u8 where "VLLP_HDR_S = 0x80"
definition VLLP_HDR_E :: u8 where "VLLP_HDR_E = 0x40"
definition VLLP_HDR_F :: u8 where "VLLP_HDR_F = 0x20"
definition VLLP_HDR_L :: u8 where "VLLP_HDR_L = 0x10"
definition VLLP_CMC_OPCODE_OPEN :: u8 where "VLLP_CMC_OPCODE_OPEN = 0"
definition VLLP_CMC_OPCODE_OPEN_RESPONSE :: u8 where "VLLP_CMC_OPCODE_OPEN_RESPONSE = 2"
definition VLLP_CMC_OPCODE_CLOSE :: u8 where "VLLP_CMC_OPCODE_CLOSE = 3"

definition PUSHPULL_EVENT_CLOSE :: u32 where "PUSHPULL_EVENT_CLOSE = 1"

lemmas vllp_consts = VLLP_VERSION_def VLLP_SYN_def VLLP_HDR_S_def VLLP_HDR_E_def VLLP_HDR_F_def VLLP_HDR_L_def
  VLLP_CMC_OPCODE_OPEN_def VLLP_CMC_OPCODE_OPEN_RESPONSE_def VLLP_CMC_OPCODE_CLOSE_def

lemmas vllp_errs = ERR_NO_BUFFER_def ERR_BAD_STATE_def ERR_NOT_FOUND_def ERR_CHECKSUM_ERROR_def ERR_MALFORMED_def
  ERR_NO_MEMORY_def ERR_EXIST_def

text \<open>Access to the parts of the state.\<close>

definition v_nb :: "'a vllp \<Rightarrow> net_bufs" where
  "v_nb v = dn_bufs (v_net v)"

definition set_nb :: "net_bufs \<Rightarrow> 'a vllp \<Rightarrow> 'a vllp" where
  "set_nb nb v = v\<lparr>v_net := (v_net v)\<lparr>dn_bufs := nb\<rparr>\<rparr>"

definition upd_chan :: "nat \<Rightarrow> (vllp_channel \<Rightarrow> vllp_channel) \<Rightarrow> 'a vllp \<Rightarrow> 'a vllp" where
  "upd_chan vc f v = v\<lparr>v_chan := (v_chan v)(vc := map_option f (v_chan v vc))\<rparr>"

definition chan_bit :: "nat \<Rightarrow> u16" where
  "chan_bit i = push_bit i 1"

text \<open>A channel is also a task of the network thread: raising a signal queues it unless it is queued.\<close>

definition net_task_raise :: "nat \<Rightarrow> u32 \<Rightarrow> 'a vllp \<Rightarrow> 'a vllp option" where
  "net_task_raise vc signals v =
     (if signals = 0 then None
      else Some (v\<lparr>v_tasks := (if v_signals v vc = 0 then v_tasks v @ [vc] else v_tasks v),
                  v_signals := (v_signals v)(vc := v_signals v vc OR signals)\<rparr>))"

section \<open>Checksums\<close>

definition calc_crc32_chain :: "pbuf list \<Rightarrow> u32 \<Rightarrow> net_bufs \<Rightarrow> u32 option" where
  "calc_crc32_chain pb crc nb = fold (\<lambda>p c. do { c \<leftarrow> c; d \<leftarrow> pb_rd p 0 (pb_buflen p) nb; Some (crc32 c d) }) pb (Some crc)"

definition calc_crc32 :: "pbuf list \<Rightarrow> u32 \<Rightarrow> net_bufs \<Rightarrow> u32 option" where
  "calc_crc32 pb crc nb = map_option (\<lambda>c. NOT c) (calc_crc32_chain pb crc nb)"

definition vllp_append_crc :: "u32 \<Rightarrow> nat \<Rightarrow> nat \<Rightarrow> nat \<Rightarrow> net_bufs \<Rightarrow> net_bufs option" where
  "vllp_append_crc iv d off len nb = do {
     pkt \<leftarrow> buf_slice (nb_mem nb d) off len;
     m \<leftarrow> buf_copy (nb_mem nb d) (off + len) (le32 (NOT (crc32 iv pkt)));
     Some (nb\<lparr>nb_mem := (nb_mem nb)(d := m)\<rparr>)
   }"

definition vllp_gen_channel_crc :: "'a vllp \<Rightarrow> u32 \<times> 'a vllp" where
  "vllp_gen_channel_crc v =
     (let v = v\<lparr>v_channel_iv_cnt := v_channel_iv_cnt v + 1\<rparr>
      in (crc32 (v_crc_iv v) (le32 (v_channel_iv_cnt v)), v))"

section \<open>Channels\<close>

definition vllp_channel_destroy :: "nat \<Rightarrow> 'a vllp \<Rightarrow> 'a vllp option" where
  "vllp_channel_destroy vc v = do {
     c \<leftarrow> v_chan v vc;
     nb \<leftarrow> pbuf_free_queue_irq_blocked (vc_txq c) (v_nb v);
     nb \<leftarrow> pbuf_free_queue_irq_blocked (vc_rxq c) nb;
     Some ((set_nb nb v)\<lparr>v_chan := (v_chan v)(vc := None), v_blocks := vc # v_blocks v\<rparr>)
   }"

text \<open>NULL, here \<^const>\<open>None\<close> in the first component, when the allocator has nothing left.\<close>

definition vllp_channel_make :: "nat \<Rightarrow> 'a vllp \<Rightarrow> nat option \<times> 'a vllp" where
  "vllp_channel_make i v =
     (case v_blocks v of
        [] \<Rightarrow> (None, v)
      | vc # blocks \<Rightarrow>
          (Some vc, v\<lparr>v_blocks := blocks,
             v_chan := (v_chan v)(vc \<mapsto> \<lparr>vc_id = i, vc_rxq = [], vc_txq = [], vc_tx_iv = 0, vc_rx_iv = 0,
               vc_state = PENDING, vc_app = False, vc_max_fragment_size = 0, vc_preferred_offset = 0,
               vc_app_closed = 0, vc_net_closed = False\<rparr>),
             v_channels := vc # v_channels v\<rparr>))"

definition vllp_channel_find :: "'a vllp \<Rightarrow> nat \<Rightarrow> nat option" where
  "vllp_channel_find v channel_id =
     List.find (\<lambda>vc. map_option vc_id (v_chan v vc) = Some channel_id) (v_channels v)"

fun flow_bits :: "'a vllp_ops \<Rightarrow> 'a vllp \<Rightarrow> nat list \<Rightarrow> u16 \<Rightarrow> u16 option" where
  "flow_bits ops v [] bits = Some bits"
| "flow_bits ops v (vc # vcs) bits =
     (if vc = v_cmc v then flow_bits ops v vcs bits
      else do {
        c \<leftarrow> v_chan v vc;
        if vc_net_closed c then flow_bits ops v vcs bits
        else if \<not> vc_app c then None
        else flow_bits ops v vcs (if \<not> op_may_push ops vc (v_app v) then bits AND NOT (chan_bit (vc_id c)) else bits)
      })"

definition vllp_refresh_local_flow_status :: "'a vllp_ops \<Rightarrow> 'a vllp \<Rightarrow> (bool \<times> 'a vllp) option" where
  "vllp_refresh_local_flow_status ops v = do {
     bits \<leftarrow> flow_bits ops v (v_channels v) 0xffff;
     if v_local_flow v = bits then Some (False, v) else Some (True, v\<lparr>v_local_flow := bits\<rparr>)
   }"

text \<open>A packet to send: a new one, or the one just received, emptied.\<close>

definition vllp_packet :: "pbuf list \<Rightarrow> 'a vllp \<Rightarrow> (pbuf list \<times> 'a vllp) option" where
  "vllp_packet pb v = do {
     (pb, nb) \<leftarrow> (if pb = [] then pbuf_make0 4 False (v_nb v) else pbuf_reset pb 4 0 (v_nb v));
     Some (pb, set_nb nb v)
   }"

definition vllp_tx_ack :: "pbuf list \<Rightarrow> 'a vllp \<Rightarrow> (pbuf list \<times> 'a vllp) option" where
  "vllp_tx_ack pb v = do {
     (pb, v) \<leftarrow> vllp_packet pb v;
     if pb = [] then Some ([], v)
     else do {
       (d, off, pb) \<leftarrow> pbuf_append pb 7;
       m \<leftarrow> buf_copy (nb_mem (v_nb v) d) off
              [v_SE v OR 0x1f, ucast (v_local_flow v), ucast (drop_bit 8 (v_local_flow v))];
       let nb = (v_nb v)\<lparr>nb_mem := (nb_mem (v_nb v))(d := m)\<rparr>;
       let v = v\<lparr>v_tx_local_flow := v_local_flow v\<rparr>;
       nb \<leftarrow> vllp_append_crc (v_crc_iv v) d off 3 nb;
       dn \<leftarrow> dsig_emit_pbuf (v_txid v) pb ((v_net v)\<lparr>dn_bufs := nb\<rparr>);
       Some ([], v\<lparr>v_net := dn, v_ack_timer := v_now v + 1000000\<rparr>)
     }
   }"

definition vllp_channel_maybe_destroy :: "nat \<Rightarrow> 'a vllp \<Rightarrow> (bool \<times> 'a vllp) option" where
  "vllp_channel_maybe_destroy vc v = do {
     c \<leftarrow> v_chan v vc;
     if vc_app_closed c = 2 \<and> vc_net_closed c then do { v \<leftarrow> vllp_channel_destroy vc v; Some (True, v) }
     else Some (False, v)
   }"

definition vllp_channel_net_close :: "'a vllp_ops \<Rightarrow> nat \<Rightarrow> 'a vllp \<Rightarrow> 'a vllp option" where
  "vllp_channel_net_close ops vc v = do {
     c \<leftarrow> v_chan v vc;
     if vc_net_closed c then Some v
     else if \<not> vc_app c then None
     else do {
       let v = v\<lparr>v_app := op_close ops vc (v_app v)\<rparr>;
       let v = upd_chan vc (\<lambda>c. c\<lparr>vc_net_closed := True\<rparr>) v;
       let v = v\<lparr>v_channels := remove1 vc (v_channels v)\<rparr>;
       (_, v) \<leftarrow> vllp_channel_maybe_destroy vc v;
       Some v
     }
   }"

fun vllp_close_all :: "'a vllp_ops \<Rightarrow> nat list \<Rightarrow> 'a vllp \<Rightarrow> 'a vllp option" where
  "vllp_close_all ops [] v = Some v"
| "vllp_close_all ops (vc # vcs) v =
     (if vc = v_cmc v then vllp_close_all ops vcs v
      else do { v \<leftarrow> vllp_channel_net_close ops vc v; vllp_close_all ops vcs v })"

definition vllp_disconnect :: "'a vllp_ops \<Rightarrow> 'a vllp \<Rightarrow> 'a vllp option" where
  "vllp_disconnect ops v =
     (if \<not> v_connected v then Some v
      else do {
        let v = v\<lparr>v_ack_timer := 0, v_rtx_timer := 0, v_timeout_timer := 0\<rparr>;
        v \<leftarrow> vllp_close_all ops (v_channels v) v;
        nb \<leftarrow> (if v_tx_buf v \<noteq> [] then pbuf_free (v_tx_buf v) (v_nb v) else Some (v_nb v));
        let v = (set_nb nb v)\<lparr>v_tx_buf := []\<rparr>;
        Some (v\<lparr>v_tx_len := 0, v_tx_channel := 0, v_connected := False\<rparr>)
      })"

definition vllp_accept_syn :: "'a vllp_ops \<Rightarrow> bytes \<Rightarrow> pbuf list \<Rightarrow> 'a vllp \<Rightarrow> (pbuf list \<times> 'a vllp) option" where
  "vllp_accept_syn ops data pb v =
     (if length data \<noteq> 7 then Some (pb, v)
      else if data ! 1 \<noteq> VLLP_VERSION then Some (pb, v)
      else if unat (data ! 2) \<noteq> v_mtu v then Some (pb, v)
      else do {
        v \<leftarrow> (if v_connected v then vllp_disconnect ops v else Some v);
        iv \<leftarrow> rd32_le (drop 3 data);
        let v = v\<lparr>v_connected := True, v_SE := VLLP_HDR_E, v_crc_iv := iv, v_channel_iv_cnt := 0\<rparr>;
        let (cmc_iv, v) = vllp_gen_channel_crc v;
        let v = upd_chan (v_cmc v) (\<lambda>c. c\<lparr>vc_tx_iv := cmc_iv, vc_rx_iv := NOT cmc_iv\<rparr>) v;
        vllp_tx_ack pb v
      })"

section \<open>The management channel\<close>

definition send_cmc_message :: "nat \<Rightarrow> pbuf list \<Rightarrow> u8 \<Rightarrow> nat \<Rightarrow> int \<Rightarrow> 'a vllp \<Rightarrow> 'a vllp option" where
  "send_cmc_message cmc pb opcode target_channel err v = do {
     (pb, nb) \<leftarrow> pbuf_reset pb 1 0 (v_nb v);
     (d, off, pb) \<leftarrow> pbuf_append pb 3;
     let e = (of_int err :: u32);
     m \<leftarrow> buf_copy (nb_mem nb d) off [push_bit 4 opcode OR of_nat target_channel, ucast e, ucast (signed_drop_bit 8 e)];
     let v = set_nb (nb\<lparr>nb_mem := (nb_mem nb)(d := m)\<rparr>) v;
     Some (upd_chan cmc (\<lambda>c. c\<lparr>vc_txq := vc_txq c @ pb\<rparr>) v)
   }"

definition vllp_net_event_cb :: "nat \<Rightarrow> u32 \<Rightarrow> 'a vllp \<Rightarrow> 'a vllp option" where
  "vllp_net_event_cb vc events v = net_task_raise vc events v"

definition cmc_open_service :: "'a vllp_ops \<Rightarrow> nat \<Rightarrow> nat \<Rightarrow> u32 \<Rightarrow> 'a vllp \<Rightarrow> int \<times> 'a vllp" where
  "cmc_open_service ops s vc iv v =
     (let v = upd_chan vc (\<lambda>c. c\<lparr>vc_tx_iv := iv, vc_rx_iv := NOT iv, vc_state := ESTABLISHED,
                vc_max_fragment_size := PBUF_DATA_SIZE - 4, vc_preferred_offset := 0\<rparr>) v;
          (err, nb, a) = op_service_open ops s vc (v_nb v) (v_app v);
          v = (set_nb nb v)\<lparr>v_app := a\<rparr>
      in if err \<noteq> 0 then
           (err, v\<lparr>v_channels := remove1 vc (v_channels v), v_chan := (v_chan v)(vc := None),
                   v_blocks := vc # v_blocks v\<rparr>)
         else (0, (upd_chan vc (\<lambda>c. c\<lparr>vc_app := True\<rparr>) v)\<lparr>v_established := v_established v @ [vc]\<rparr>))"

definition handle_cmc_open :: "'a vllp_ops \<Rightarrow> nat \<Rightarrow> bytes \<Rightarrow> 'a vllp \<Rightarrow> int \<times> 'a vllp" where
  "handle_cmc_open ops target_channel name v =
     (let (iv, v) = vllp_gen_channel_crc v in
      case op_service_find ops name of
        None \<Rightarrow> (ERR_NOT_FOUND, v)
      | Some s \<Rightarrow>
          if vllp_channel_find v target_channel \<noteq> None then (ERR_EXIST, v)
          else case vllp_channel_make target_channel v of
              (None, v) \<Rightarrow> (ERR_NO_MEMORY, v)
            | (Some vc, v) \<Rightarrow> cmc_open_service ops s vc iv v)"

definition handle_cmc_close ::
  "'a vllp_ops \<Rightarrow> nat \<Rightarrow> pbuf list \<Rightarrow> nat \<Rightarrow> bytes \<Rightarrow> 'a vllp \<Rightarrow> (int \<times> 'a vllp) option" where
  "handle_cmc_close ops cmc pb target_channel data v = do {
     (err, v) \<leftarrow>
       (case vllp_channel_find v target_channel of
          None \<Rightarrow> Some (0, v)
        | Some vc \<Rightarrow>
            if vc \<noteq> cmc \<and> length data = 2 then do { v \<leftarrow> vllp_channel_net_close ops vc v; Some (0, v) }
            else Some (ERR_MALFORMED, v));
     nb \<leftarrow> pbuf_free pb (v_nb v);
     Some (err, set_nb nb v)
   }"

definition handle_cmc :: "'a vllp_ops \<Rightarrow> nat \<Rightarrow> pbuf list \<Rightarrow> 'a vllp \<Rightarrow> (int \<times> 'a vllp) option" where
  "handle_cmc ops cmc pb v = do {
     p \<leftarrow> (case pb of [] \<Rightarrow> None | p # _ \<Rightarrow> Some p);
     let len = pb_buflen p;
     if len < 1 then do { nb \<leftarrow> pbuf_free pb (v_nb v); Some (ERR_BAD_STATE, set_nb nb v) }
     else do {
       u8s \<leftarrow> pb_rd p 0 len (v_nb v);
       let opcode = drop_bit 4 (hd u8s);
       let target_channel = unat (hd u8s AND 0xf);
       if opcode = VLLP_CMC_OPCODE_OPEN then do {
         let (err, v) = handle_cmc_open ops target_channel (tl u8s) v;
         v \<leftarrow> send_cmc_message cmc pb VLLP_CMC_OPCODE_OPEN_RESPONSE target_channel err v;
         Some (0, v)
       }
       else if opcode = VLLP_CMC_OPCODE_CLOSE then handle_cmc_close ops cmc pb target_channel (tl u8s) v
       else Some (ERR_BAD_STATE, v)
     }
   }"

section \<open>Receiving\<close>

text \<open>
  Storing one fragment at the end of the reassembly queue. A fragment that does not fit into
  the last buffer is cut: the code asks whether the copied length exceeds the length given,
  which it never does, so no second buffer is made. \<^const>\<open>None\<close> in the first component means
  that no buffer is left.
\<close>

definition vllp_store :: "pbuf list \<Rightarrow> bytes \<Rightarrow> net_bufs \<Rightarrow> (pbuf list option \<times> net_bufs) option" where
  "vllp_store rxq data nb = do {
     (pb, rxq, data, nb) \<leftarrow>
       (if rxq \<noteq> [] then do {
          let pb = last rxq;
          let avail = PBUF_DATA_SIZE - pb_buflen pb;
          let to_copy = min avail (length data);
          (nxt, nb) \<leftarrow>
            (if to_copy > length data then do {
               (n, nb) \<leftarrow> pbuf_make0 0 False nb;
               Some (if n = [] then None else Some (map (\<lambda>p. p\<lparr>pb_flags := 0\<rparr>) n), nb)
             } else Some (Some [], nb));
          case nxt of
            None \<Rightarrow> Some (None, rxq, data, nb)
          | Some n \<Rightarrow> do {
              m \<leftarrow> buf_copy (nb_mem nb (pb_data pb)) (pb_buflen pb) (take to_copy data);
              Some (Some n, butlast rxq @ [pb\<lparr>pb_buflen := pb_buflen pb + to_copy\<rparr>], drop to_copy data,
                    nb\<lparr>nb_mem := (nb_mem nb)(pb_data pb := m)\<rparr>)
            }
        } else do {
          (n, nb) \<leftarrow> pbuf_make0 0 False nb;
          Some (if n = [] then None else Some (map (\<lambda>p. p\<lparr>pb_flags := 0\<rparr>) n), rxq, data, nb)
        });
     case pb of
       None \<Rightarrow> Some (None, nb)
     | Some [] \<Rightarrow> Some (Some rxq, nb)
     | Some (p # _) \<Rightarrow>
         if \<not> length data \<le> PBUF_DATA_SIZE then None
         else do {
           m \<leftarrow> buf_copy (nb_mem nb (pb_data p)) 0 data;
           Some (Some (rxq @ [p\<lparr>pb_buflen := pb_buflen p + length data\<rparr>]),
                 nb\<lparr>nb_mem := (nb_mem nb)(pb_data p := m)\<rparr>)
         }
   }"

text \<open>The flags of a complete message.\<close>

definition vllp_mark :: "pbuf list \<Rightarrow> pbuf list" where
  "vllp_mark rxq =
     (let rxq = butlast rxq @ [(last rxq)\<lparr>pb_flags := PBUF_EOP\<rparr>]
      in (hd rxq)\<lparr>pb_flags := pb_flags (hd rxq) OR PBUF_SOP\<rparr> # tl rxq)"

text \<open>The end of a message: its checksum is checked and removed, and its owner gets it.\<close>

definition vllp_complete :: "'a vllp_ops \<Rightarrow> nat \<Rightarrow> vllp_channel \<Rightarrow> pbuf list \<Rightarrow> 'a vllp \<Rightarrow> (int \<times> 'a vllp) option" where
  "vllp_complete ops vc c rxq v = do {
     let pb = vllp_mark rxq;
     let v = upd_chan vc (\<lambda>c. c\<lparr>vc_rxq := []\<rparr>) v;
     crc \<leftarrow> calc_crc32 pb (vc_rx_iv c) (v_nb v);
     if crc \<noteq> 0 then Some (ERR_CHECKSUM_ERROR, v)
     else do {
       let v = upd_chan vc (\<lambda>c. c\<lparr>vc_rx_iv := vc_rx_iv c + 1\<rparr>) v;
       (pb, nb) \<leftarrow> pbuf_trim pb 4 (v_nb v);
       let v = set_nb nb v;
       if vc = v_cmc v then handle_cmc ops vc pb v
       else if \<not> vc_app c then None
       else do {
         let (events, nb, a) = op_push ops vc pb (v_nb v) (v_app v);
         let v = (set_nb nb v)\<lparr>v_app := a\<rparr>;
         v \<leftarrow> (if events \<noteq> 0 then net_task_raise vc events v else Some v);
         Some (0, v)
       }
     }
   }"

definition vllp_channel_receive :: "'a vllp_ops \<Rightarrow> nat \<Rightarrow> bytes \<Rightarrow> 'a vllp \<Rightarrow> (int \<times> 'a vllp) option" where
  "vllp_channel_receive ops channel_id data v = do {
     h \<leftarrow> buf_rd data 0;
     let lst = (h AND VLLP_HDR_L \<noteq> 0);
     let data = drop 1 data;
     case vllp_channel_find v channel_id of
       None \<Rightarrow> Some (0, v)
     | Some vc \<Rightarrow> do {
         c \<leftarrow> v_chan v vc;
         if vc_net_closed c then Some (0, v)
         else if lst \<and> chan_bit channel_id AND v_local_flow v = 0 then Some (ERR_NO_BUFFER, v)
         else do {
           (r, nb) \<leftarrow> vllp_store (vc_rxq c) data (v_nb v);
           let v = set_nb nb v;
           case r of
             None \<Rightarrow> Some (ERR_NO_BUFFER, v)
           | Some rxq \<Rightarrow> do {
               let rxq = set_head_pktlen (add16 (pb_pktlen (hd rxq)) (length data)) rxq;
               if \<not> lst then Some (0, upd_chan vc (\<lambda>c. c\<lparr>vc_rxq := rxq\<rparr>) v)
               else vllp_complete ops vc c rxq v
             }
         }
       }
   }"

section \<open>Sending\<close>

definition fdcan_adapation_pad_ladder :: "int \<Rightarrow> int" where
  "fdcan_adapation_pad_ladder len =
     (if len < 12 then 12 else if len < 16 then 16 else if len < 20 then 20 else if len < 24 then 24
      else if len < 32 then 32 else if len < 48 then 48 else 64)"

text \<open>
  The bytes of the padding before its last are left as the buffer has them. A negative pad,
  which needs an MTU above 64, is a failure; with a pad of 0 the count overwrites the last
  byte of the packet.
\<close>

definition vllp_pad :: "pbuf \<Rightarrow> net_bufs \<Rightarrow> (pbuf \<times> net_bufs) option" where
  "vllp_pad pb nb =
     (if pb_buflen pb > 8 then do {
        let pad = fdcan_adapation_pad_ladder (int (pb_buflen pb)) - int (pb_buflen pb);
        (d, off, pbs) \<leftarrow> (if pad < 0 then None else pbuf_append [pb] (nat pad));
        m \<leftarrow> buf_copy (nb_mem nb d) (nat (int off + pad - 1)) [of_int pad];
        Some (hd pbs, nb\<lparr>nb_mem := (nb_mem nb)(d := m)\<rparr>)
      } else Some (pb, nb))"

definition vllp_tx :: "pbuf list \<Rightarrow> 'a vllp \<Rightarrow> (pbuf list \<times> 'a vllp) option" where
  "vllp_tx pb v =
     (if v_tx_buf v = [] then Some (pb, v)
      else do {
        (pb, v) \<leftarrow> vllp_packet pb v;
        v \<leftarrow>
          (case pb of
             [] \<Rightarrow> Some v
           | pb # _ \<Rightarrow> do {
               let pb = pb\<lparr>pb_pktlen := v_tx_len v + 1, pb_buflen := v_tx_len v + 1\<rparr>;
               let lst = (if pb_pktlen (hd (v_tx_buf v)) = v_tx_len v then VLLP_HDR_L else 0);
               (missing, src, nb) \<leftarrow> pbuf_pullup (v_tx_buf v) (v_tx_len v) (v_nb v);
               if missing \<noteq> 0 then None
               else do {
                 d \<leftarrow> pb_rd (hd src) 0 (v_tx_len v) nb;
                 nb \<leftarrow> pb_wr pb 1 d nb;
                 (pb, nb) \<leftarrow> vllp_pad pb nb;
                 let channel = v_tx_channel v;
                 let flow = (if chan_bit channel AND v_local_flow v \<noteq> 0 then VLLP_HDR_F else 0);
                 let v = v\<lparr>v_tx_buf := src, v_tx_local_flow :=
                    (v_tx_local_flow v AND NOT (chan_bit channel)) OR (if flow \<noteq> 0 then chan_bit channel else 0)\<rparr>;
                 nb \<leftarrow> pb_wr pb 0 [v_SE v OR lst OR flow OR of_nat channel] nb;
                 dn \<leftarrow> dsig_emit_pbuf (v_txid v) [pb] ((v_net v)\<lparr>dn_bufs := nb\<rparr>);
                 Some (v\<lparr>v_net := dn\<rparr>)
               }
             });
        Some ([], v\<lparr>v_rtx_timer := v_now v + 25000, v_ack_timer := v_now v + 1000000\<rparr>)
      })"

text \<open>The unsigned subtraction wraps for an MTU of 0.\<close>

definition vllp_fragment :: "pbuf list \<Rightarrow> 'a vllp \<Rightarrow> (pbuf list \<times> 'a vllp) option" where
  "vllp_fragment pb v =
     (case v_tx_buf v of
        [] \<Rightarrow> None
      | b # _ \<Rightarrow>
          let len = (if v_mtu v = 0 then pb_pktlen b else min (v_mtu v - 1) (pb_pktlen b))
          in vllp_tx pb (v\<lparr>v_tx_len := len, v_SE := v_SE v XOR VLLP_HDR_S\<rparr>))"

definition vllp_channel_tx :: "nat \<Rightarrow> pbuf list \<Rightarrow> pbuf list \<Rightarrow> 'a vllp \<Rightarrow> (pbuf list \<times> 'a vllp) option" where
  "vllp_channel_tx vc pb reuse v = do {
     c \<leftarrow> v_chan v vc;
     crc \<leftarrow> calc_crc32 pb (vc_tx_iv c) (v_nb v);
     let v = upd_chan vc (\<lambda>c. c\<lparr>vc_tx_iv := vc_tx_iv c + 1\<rparr>) v;
     (d, off, pb) \<leftarrow> pbuf_append pb 4;
     m \<leftarrow> buf_copy (nb_mem (v_nb v) d) off (le32 crc);
     let v = (set_nb ((v_nb v)\<lparr>nb_mem := (nb_mem (v_nb v))(d := m)\<rparr>) v)\<lparr>v_tx_buf := pb, v_tx_channel := vc_id c\<rparr>;
     (reuse, v) \<leftarrow> vllp_fragment reuse v;
     Some (reuse, v\<lparr>v_established := remove1 vc (v_established v) @ [vc]\<rparr>)
   }"

definition vllp_tx_close :: "nat \<Rightarrow> 'a vllp \<Rightarrow> (int \<times> 'a vllp) option" where
  "vllp_tx_close vc v = do {
     c \<leftarrow> v_chan v vc;
     let v = upd_chan vc (\<lambda>c. c\<lparr>vc_state := CLOSED_SENT\<rparr>) (v\<lparr>v_established := remove1 vc (v_established v)\<rparr>);
     if \<not> v_connected v then Some (0, v)
     else do {
       (pb, nb) \<leftarrow> pbuf_make0 0 False (v_nb v);
       let v = set_nb nb v;
       if pb = [] then Some (ERR_NO_BUFFER, v)
       else do {
         v \<leftarrow> send_cmc_message (v_cmc v) pb VLLP_CMC_OPCODE_CLOSE (vc_id c) 0 v;
         cmc \<leftarrow> v_chan v (v_cmc v);
         let (pb, q) = pbuf_splice (vc_txq cmc);
         let v = upd_chan (v_cmc v) (\<lambda>c. c\<lparr>vc_txq := q\<rparr>) v;
         (_, v) \<leftarrow> vllp_channel_tx (v_cmc v) pb [] v;
         Some (0, v)
       }
     }
   }"

fun vllp_tx_loop :: "'a vllp_ops \<Rightarrow> nat list \<Rightarrow> pbuf list \<Rightarrow> 'a vllp \<Rightarrow> (pbuf list \<times> 'a vllp) option" where
  "vllp_tx_loop ops [] reuse v =
     (if v_tx_local_flow v \<noteq> v_local_flow v then vllp_tx_ack reuse v else Some (reuse, v))"
| "vllp_tx_loop ops (vc # vcs) reuse v = do {
     c \<leftarrow> v_chan v vc;
     if vc_app c then
       if vc_app_closed c = 1 then do {
         (err, v) \<leftarrow> vllp_tx_close vc v;
         if err \<noteq> 0 then vllp_tx_loop ops vcs reuse v
         else do {
           let v = upd_chan vc (\<lambda>c. c\<lparr>vc_app_closed := 2\<rparr>) v;
           (_, v) \<leftarrow> vllp_channel_maybe_destroy vc v;
           Some (reuse, v)
         }
       } else if vc_net_closed c then vllp_tx_loop ops vcs reuse v
       else do {
         let (pb, nb, a) = op_pull ops vc (v_nb v) (v_app v);
         let v = (set_nb nb v)\<lparr>v_app := a\<rparr>;
         if pb = [] then vllp_tx_loop ops vcs reuse v else vllp_channel_tx vc pb reuse v
       }
     else do {
       let (pb, q) = pbuf_splice (vc_txq c);
       let v = upd_chan vc (\<lambda>c. c\<lparr>vc_txq := q\<rparr>) v;
       if pb = [] then vllp_tx_loop ops vcs reuse v else vllp_channel_tx vc pb reuse v
     }
   }"

definition vllp_maybe_tx :: "'a vllp_ops \<Rightarrow> pbuf list \<Rightarrow> 'a vllp \<Rightarrow> (pbuf list \<times> 'a vllp) option" where
  "vllp_maybe_tx ops reuse v =
     (if v_tx_buf v \<noteq> [] then Some (reuse, v) else vllp_tx_loop ops (v_established v) reuse v)"

section \<open>Events\<close>

definition vllp_ack_payload :: "pbuf list \<Rightarrow> 'a vllp \<Rightarrow> (pbuf list \<times> 'a vllp) option" where
  "vllp_ack_payload pb v = do {
     let v = v\<lparr>v_rtx_timer := 0\<rparr>;
     (b, nb) \<leftarrow> pbuf_drop (v_tx_buf v) (v_tx_len v) True (v_nb v);
     let v = (set_nb nb v)\<lparr>v_tx_buf := b\<rparr>;
     if b \<noteq> [] then vllp_fragment pb v else Some (pb, v)
   }"

text \<open>The payload of a packet without its padding; \<^const>\<open>None\<close> when the padding is invalid.\<close>

definition vllp_unpad :: "bytes \<Rightarrow> bytes option" where
  "vllp_unpad u8s =
     (if length u8s > 8 then
        let pad = unat (last u8s) in
        if pad \<ge> length u8s then None else Some (take (length u8s - pad) u8s)
      else Some u8s)"

definition vllp_rx_data ::
  "'a vllp_ops \<Rightarrow> bytes \<Rightarrow> bool \<Rightarrow> 'a vllp \<Rightarrow> (bool \<times> 'a vllp) option" where
  "vllp_rx_data ops u8s we_can_accept v = do {
     let channel_id = unat (hd u8s AND 0xf);
     (ok, ack_delay, v) \<leftarrow>
       (if we_can_accept then do {
          (err, v) \<leftarrow> vllp_channel_receive ops channel_id u8s v;
          if err = 0 then
            Some (True, 1000, v\<lparr>v_tx_local_flow := v_tx_local_flow v AND NOT (chan_bit channel_id),
                                v_SE := v_SE v XOR VLLP_HDR_E\<rparr>)
          else if err = ERR_NO_BUFFER then Some (True, 10000, v)
          else if err = ERR_CHECKSUM_ERROR \<or> err = ERR_BAD_STATE then do {
            v \<leftarrow> vllp_disconnect ops v;
            Some (False, 0, v)
          } else None
        } else Some (True, 1000, v));
     if \<not> ok then Some (False, v)
     else Some (True, v\<lparr>v_remote_flow := (v_remote_flow v AND NOT (chan_bit channel_id)) OR
                          (if hd u8s AND VLLP_HDR_F \<noteq> 0 then chan_bit channel_id else 0),
                        v_ack_timer := v_now v + ack_delay\<rparr>)
   }"

definition vllp_we_can_accept :: "u8 \<Rightarrow> 'a vllp \<Rightarrow> bool" where
  "vllp_we_can_accept hdr v = ((hdr AND VLLP_HDR_S = 0) = (v_SE v AND VLLP_HDR_E = 0))"

text \<open>The rest of \<^verbatim>\<open>vllp_rx\<close> for a packet of a connection, behind the checks of an acknowledgement.\<close>

definition vllp_rx_connected :: "'a vllp_ops \<Rightarrow> bytes \<Rightarrow> pbuf list \<Rightarrow> 'a vllp \<Rightarrow> (pbuf list \<times> 'a vllp) option" where
  "vllp_rx_connected ops u8s pb v = do {
     let hdr = hd u8s;
     let peer_accepted = ((hdr AND VLLP_HDR_E = 0) \<noteq> (v_SE v AND VLLP_HDR_S = 0));
     let we_can_accept = vllp_we_can_accept hdr v;
     if \<not> v_connected v then Some (pb, v)
     else do {
       (ok, v) \<leftarrow> (if hdr AND 0xf \<noteq> 0xf then vllp_rx_data ops u8s we_can_accept v else Some (True, v));
       if \<not> ok then Some (pb, v)
       else do {
         (pb, v) \<leftarrow>
           (if v_tx_buf v \<noteq> [] then
              if \<not> peer_accepted then Some (pb, v\<lparr>v_rtx_timer := v_now v + 1000\<rparr>)
              else vllp_ack_payload pb v
            else Some (pb, v));
         vllp_maybe_tx ops pb v
       }
     }
   }"

definition vllp_rx :: "'a vllp_ops \<Rightarrow> pbuf list \<Rightarrow> 'a vllp \<Rightarrow> (pbuf list \<times> 'a vllp) option" where
  "vllp_rx ops pb v = do {
     let v = v\<lparr>v_timeout_timer := v_now v + of_nat (v_timeout v * 1000000)\<rparr>;
     (_, v) \<leftarrow> vllp_refresh_local_flow_status ops v;
     u8s \<leftarrow> (case pb of [] \<Rightarrow> Some [] | p # _ \<Rightarrow> pb_rd p 0 (pb_buflen p) (v_nb v));
     if length u8s < 1 then Some (pb, v)
     else case vllp_unpad u8s of
         None \<Rightarrow> do { v \<leftarrow> vllp_disconnect ops v; Some (pb, v) }
       | Some u8s \<Rightarrow> do {
           let hdr = hd u8s;
           if hdr = VLLP_SYN then vllp_accept_syn ops u8s pb v
           else do {
             let is_ack = (hdr AND 0x1f = 0x1f);
             if is_ack \<and> (NOT (crc32 (v_crc_iv v) u8s) \<noteq> 0 \<or> length u8s \<noteq> 7) then Some (pb, v)
             else vllp_rx_connected ops u8s pb
                    (if is_ack then v\<lparr>v_remote_flow := ucast (u8s ! 1) OR push_bit 8 (ucast (u8s ! 2))\<rparr> else v)
           }
         }
   }"

definition vllp_ack_timer :: "'a vllp_ops \<Rightarrow> 'a vllp \<Rightarrow> 'a vllp option" where
  "vllp_ack_timer ops v = do {
     (_, v) \<leftarrow> vllp_refresh_local_flow_status ops v;
     (_, v) \<leftarrow> vllp_tx_ack [] v;
     Some v
   }"

definition vllp_rtx_timer :: "'a vllp_ops \<Rightarrow> 'a vllp \<Rightarrow> 'a vllp option" where
  "vllp_rtx_timer ops v = do {
     (_, v) \<leftarrow> vllp_refresh_local_flow_status ops v;
     (_, v) \<leftarrow> vllp_tx [] v;
     Some v
   }"

definition vllp_channel_task_cb :: "'a vllp_ops \<Rightarrow> nat \<Rightarrow> u32 \<Rightarrow> 'a vllp \<Rightarrow> 'a vllp option" where
  "vllp_channel_task_cb ops vc signals v = do {
     c \<leftarrow> v_chan v vc;
     if signals AND PUSHPULL_EVENT_CLOSE \<noteq> 0 \<and> vc_app_closed c \<noteq> 0 then Some v
     else do {
       let v = (if signals AND PUSHPULL_EVENT_CLOSE \<noteq> 0 then upd_chan vc (\<lambda>c. c\<lparr>vc_app_closed := 1\<rparr>) v else v);
       (chg, v) \<leftarrow> vllp_refresh_local_flow_status ops v;
       (_, v) \<leftarrow> (if chg then vllp_tx_ack [] v else Some ([], v));
       (_, v) \<leftarrow> vllp_maybe_tx ops [] v;
       Some v
     }
   }"

text \<open>With one server the search over the list of servers is one comparison. The empty packet in
  the first component tells that the packet was handled.\<close>

definition vllp_input :: "'a vllp_ops \<Rightarrow> u32 \<Rightarrow> pbuf list \<Rightarrow> 'a vllp \<Rightarrow> (pbuf list \<times> 'a vllp) option" where
  "vllp_input ops sid pb v =
     (if v_rxid v = sid then do {
        (pb, v) \<leftarrow> vllp_rx ops pb v;
        nb \<leftarrow> (if pb \<noteq> [] then pbuf_free pb (v_nb v) else Some (v_nb v));
        Some ([], set_nb nb v)
      } else Some (pb, v))"

definition vllp_timeout_timer :: "'a vllp_ops \<Rightarrow> 'a vllp \<Rightarrow> 'a vllp option" where
  "vllp_timeout_timer ops v = vllp_disconnect ops v"

text \<open>Here \<^const>\<open>None\<close> stands for the NULL of a failed allocation. The server takes one block for
  itself and one for its management channel.\<close>

definition vllp_server_create ::
  "u32 \<Rightarrow> u32 \<Rightarrow> nat \<Rightarrow> nat \<Rightarrow> dsig_net \<Rightarrow> 'a \<Rightarrow> u64 \<Rightarrow> nat list \<Rightarrow> 'a vllp option" where
  "vllp_server_create txid rxid mtu timeout dn a now blocks =
     (case blocks of
        [] \<Rightarrow> None
      | _ # blocks \<Rightarrow>
          let v = \<lparr>v_chan = Map.empty, v_channels = [], v_established = [], v_ack_timer = 0, v_rtx_timer = 0,
                v_timeout_timer = 0, v_tx_buf = [], v_tx_len = 0, v_tx_channel = 0, v_cmc = 0, v_rxid = 0,
                v_txid = 0, v_crc_iv = 0, v_channel_iv_cnt = 0, v_remote_flow = 0, v_local_flow = 0,
                v_tx_local_flow = 0, v_connected = False, v_SE = 0, v_mtu = 0, v_timeout = 0, v_net = dn,
                v_app = a, v_now = now, v_blocks = blocks, v_signals = (\<lambda>_. 0), v_tasks = []\<rparr>
          in case vllp_channel_make 14 v of
              (None, v) \<Rightarrow> None
            | (Some cmc, v) \<Rightarrow>
                let v = upd_chan cmc (\<lambda>c. c\<lparr>vc_state := ESTABLISHED\<rparr>) (v\<lparr>v_cmc := cmc, v_established := [cmc]\<rparr>)
                in Some (v\<lparr>v_rxid := rxid, v_txid := txid, v_mtu := (if mtu > 8 then mtu - 1 else mtu),
                           v_timeout := timeout\<rparr>))"

section \<open>The life of a channel\<close>

text \<open>
  What the life of a channel depends on: the lists, the allocator and four fields of each
  channel. Most operations leave it alone.
\<close>

definition chan_skel :: "vllp_channel \<Rightarrow> nat \<times> bool \<times> nat \<times> bool" where
  "chan_skel c = (vc_id c, vc_app c, vc_app_closed c, vc_net_closed c)"

definition skel :: "'a vllp \<Rightarrow> nat list \<times> nat list \<times> nat list \<times> nat \<times> (nat \<Rightarrow> (nat \<times> bool \<times> nat \<times> bool) option)" where
  "skel v = (v_channels v, v_established v, v_blocks v, v_cmc v, \<lambda>vc. map_option chan_skel (v_chan v vc))"

text \<open>
  The invariant: list members are allocated channels, free blocks are not; the management
  channel is always there and open; any other channel belongs to a service, is on the list of
  channels exactly until the network closes it, is off the list of established channels once
  its close is sent, and is gone when both have happened; no two channels of the list have the
  same number. A channel whose close could not be sent for want of a buffer is off the established list
  and is not covered by the last clause: nothing releases it.
\<close>

definition vllp_inv :: "'a vllp \<Rightarrow> bool" where
  "vllp_inv v \<longleftrightarrow>
     distinct (v_channels v) \<and> distinct (v_established v) \<and> distinct (v_blocks v) \<and>
     (\<forall>vc \<in> set (v_blocks v). v_chan v vc = None) \<and>
     (\<forall>vc \<in> set (v_channels v) \<union> set (v_established v). v_chan v vc \<noteq> None) \<and>
     v_cmc v \<in> set (v_channels v) \<and> v_cmc v \<in> set (v_established v) \<and>
     map_option chan_skel (v_chan v (v_cmc v)) = Some (14, False, 0, False) \<and>
     inj_on (\<lambda>vc. map_option vc_id (v_chan v vc)) (set (v_channels v)) \<and>
     (\<forall>vc c. v_chan v vc = Some c \<and> vc \<noteq> v_cmc v \<longrightarrow>
        vc_app c \<and> (vc_net_closed c \<longleftrightarrow> vc \<notin> set (v_channels v)) \<and>
        (vc_app_closed c = 2 \<longrightarrow> vc \<notin> set (v_established v) \<and> \<not> vc_net_closed c))"

text \<open>The invariant in terms of the skeleton.\<close>

definition chan_life :: "bool \<Rightarrow> bool \<Rightarrow> nat \<times> bool \<times> nat \<times> bool \<Rightarrow> bool" where
  "chan_life listed est = (\<lambda>(i, a, ac, nc). a \<and> (nc \<longleftrightarrow> \<not> listed) \<and> (ac = 2 \<longrightarrow> \<not> est \<and> \<not> nc))"

definition skel_inv :: "nat list \<times> nat list \<times> nat list \<times> nat \<times> (nat \<Rightarrow> (nat \<times> bool \<times> nat \<times> bool) option) \<Rightarrow> bool" where
  "skel_inv = (\<lambda>(chs, est, blk, cmc, f).
     distinct chs \<and> distinct est \<and> distinct blk \<and> (\<forall>vc \<in> set blk. f vc = None) \<and>
     (\<forall>vc \<in> set chs \<union> set est. f vc \<noteq> None) \<and> cmc \<in> set chs \<and> cmc \<in> set est \<and>
     f cmc = Some (14, False, 0, False) \<and> inj_on (\<lambda>vc. map_option fst (f vc)) (set chs) \<and>
     (\<forall>vc. vc \<noteq> cmc \<longrightarrow> pred_option (chan_life (vc \<in> set chs) (vc \<in> set est)) (f vc)))"

lemma vllp_inv_skel: "vllp_inv v \<longleftrightarrow> skel_inv (skel v)"
proof -
  have i: "map_option fst (map_option chan_skel x) = map_option vc_id x" for x
    by (cases x) (simp_all add: chan_skel_def)
  have p: "(\<forall>vc. vc \<noteq> v_cmc v \<longrightarrow> pred_option (chan_life (vc \<in> A) (vc \<in> B)) (map_option chan_skel (v_chan v vc))) \<longleftrightarrow>
    (\<forall>vc c. v_chan v vc = Some c \<and> vc \<noteq> v_cmc v \<longrightarrow>
        vc_app c \<and> (vc_net_closed c \<longleftrightarrow> vc \<notin> A) \<and> (vc_app_closed c = 2 \<longrightarrow> vc \<notin> B \<and> \<not> vc_net_closed c))" for A B
  proof -
    have "pred_option P (map_option chan_skel x) \<longleftrightarrow> (\<forall>c. x = Some c \<longrightarrow> P (chan_skel c))" for P x by (cases x) simp_all
    then show ?thesis by (simp add: chan_life_def chan_skel_def) blast
  qed
  show ?thesis unfolding vllp_inv_def skel_inv_def skel_def prod.case i p by simp
qed

lemma vllp_inv_cong: "skel v' = skel v \<Longrightarrow> vllp_inv v' = vllp_inv v"
  by (simp add: vllp_inv_skel)

text \<open>Updates that keep the skeleton.\<close>

lemma skel_set_nb [simp]: "skel (set_nb nb v) = skel v"
  by (simp add: skel_def set_nb_def)

lemma skel_upd [simp]:
  "skel (v\<lparr>v_ack_timer := t\<rparr>) = skel v" "skel (v\<lparr>v_rtx_timer := t\<rparr>) = skel v" "skel (v\<lparr>v_timeout_timer := t\<rparr>) = skel v"
  "skel (v\<lparr>v_tx_buf := b\<rparr>) = skel v" "skel (v\<lparr>v_tx_len := n\<rparr>) = skel v" "skel (v\<lparr>v_tx_channel := n\<rparr>) = skel v"
  "skel (v\<lparr>v_crc_iv := x\<rparr>) = skel v" "skel (v\<lparr>v_channel_iv_cnt := x\<rparr>) = skel v" "skel (v\<lparr>v_remote_flow := f\<rparr>) = skel v"
  "skel (v\<lparr>v_local_flow := f\<rparr>) = skel v" "skel (v\<lparr>v_tx_local_flow := f\<rparr>) = skel v" "skel (v\<lparr>v_connected := k\<rparr>) = skel v"
  "skel (v\<lparr>v_SE := s\<rparr>) = skel v" "skel (v\<lparr>v_net := dn\<rparr>) = skel v" "skel (v\<lparr>v_app := a\<rparr>) = skel v"
  "skel (v\<lparr>v_signals := g\<rparr>) = skel v" "skel (v\<lparr>v_tasks := ts\<rparr>) = skel v" "skel (v\<lparr>v_now := t\<rparr>) = skel v"
  by (simp_all add: skel_def)

lemma skel_upd_chan:
  "(\<And>c. chan_skel (f c) = chan_skel c) \<Longrightarrow> skel (upd_chan vc f v) = skel v"
  by (auto simp: skel_def upd_chan_def fun_eq_iff option.map_comp comp_def)

lemma skel_upd_chan_fields [simp]:
  "skel (upd_chan vc (vc_rxq_update g) v) = skel v" "skel (upd_chan vc (vc_txq_update g) v) = skel v"
  "skel (upd_chan vc (vc_tx_iv_update h) v) = skel v" "skel (upd_chan vc (vc_rx_iv_update h) v) = skel v"
  "skel (upd_chan vc (vc_state_update s) v) = skel v"
  "skel (upd_chan vc (\<lambda>c. c\<lparr>vc_rxq := q\<rparr>) v) = skel v" "skel (upd_chan vc (\<lambda>c. c\<lparr>vc_txq := q\<rparr>) v) = skel v"
  "skel (upd_chan vc (\<lambda>c. c\<lparr>vc_txq := vc_txq c @ q\<rparr>) v) = skel v"
  "skel (upd_chan vc (\<lambda>c. c\<lparr>vc_tx_iv := vc_tx_iv c + 1\<rparr>) v) = skel v" "skel (upd_chan vc (\<lambda>c. c\<lparr>vc_rx_iv := vc_rx_iv c + 1\<rparr>) v) = skel v"
  "skel (upd_chan vc (\<lambda>c. c\<lparr>vc_tx_iv := i, vc_rx_iv := j\<rparr>) v) = skel v" "skel (upd_chan vc (\<lambda>c. c\<lparr>vc_state := st\<rparr>) v) = skel v"
  by (rule skel_upd_chan; simp add: chan_skel_def)+

lemma skel_gen_channel_crc: "vllp_gen_channel_crc v = (iv, v') \<Longrightarrow> skel v' = skel v"
  by (auto simp: vllp_gen_channel_crc_def Let_def)

lemma skel_net_task_raise: "net_task_raise vc s v = Some v' \<Longrightarrow> skel v' = skel v"
  by (auto simp: net_task_raise_def split: if_splits)

lemma skel_refresh: "vllp_refresh_local_flow_status ops v = Some (b, v') \<Longrightarrow> skel v' = skel v"
  by (auto simp: vllp_refresh_local_flow_status_def Option.bind_eq_Some_conv split: if_splits)

lemma skel_packet: "vllp_packet pb v = Some (pb', v') \<Longrightarrow> skel v' = skel v"
  by (auto simp: vllp_packet_def Option.bind_eq_Some_conv)

lemma skel_tx_ack: "vllp_tx_ack pb v = Some (pb', v') \<Longrightarrow> skel v' = skel v"
  by (auto simp: vllp_tx_ack_def Let_def Option.bind_eq_Some_conv dest!: skel_packet split: if_splits)

lemma skel_send_cmc: "send_cmc_message cmc pb op t e v = Some v' \<Longrightarrow> skel v' = skel v"
  by (auto simp: send_cmc_message_def Let_def Option.bind_eq_Some_conv)

lemma if_None_eq_Some: "(if b then None else x) = Some y \<longleftrightarrow> \<not> b \<and> x = Some y"
  by simp

lemma skel_tx: "vllp_tx pb v = Some (pb', v') \<Longrightarrow> skel v' = skel v"
  by (cases "v_tx_buf v = []")
    (auto simp: vllp_tx_def Let_def Option.bind_eq_Some_conv if_None_eq_Some dest!: skel_packet split: list.splits
      simp del: split_paired_Ex)

lemma skel_fragment: "vllp_fragment pb v = Some (pb', v') \<Longrightarrow> skel v' = skel v"
  by (auto simp: vllp_fragment_def Let_def dest!: skel_tx split: list.splits)

lemma skel_ack_payload: "vllp_ack_payload pb v = Some (pb', v') \<Longrightarrow> skel v' = skel v"
  by (auto simp: vllp_ack_payload_def Let_def Option.bind_eq_Some_conv dest!: skel_fragment split: if_splits)

lemmas skel_frames = skel_gen_channel_crc skel_net_task_raise skel_refresh skel_packet skel_tx_ack skel_send_cmc
  skel_tx skel_fragment skel_ack_payload

text \<open>The changes of the skeleton that keep the invariant.\<close>

lemma skel_inv_rotate:
  assumes "skel_inv (chs, est, blk, cmc, f)" "vc \<in> set est"
  shows "skel_inv (chs, remove1 vc est @ [vc], blk, cmc, f)"
proof -
  have d: "distinct est" using assms by (simp add: skel_inv_def)
  then have s: "set (remove1 vc est @ [vc]) = set est" "distinct (remove1 vc est @ [vc])" using assms(2) by auto
  show ?thesis using assms unfolding skel_inv_def prod.case s(1) using s(2) by simp
qed

lemma chan_life_unest: "chan_life l e x \<Longrightarrow> chan_life l False x"
  by (auto simp: chan_life_def)

lemma skel_inv_unest:
  assumes "skel_inv (chs, est, blk, cmc, f)" "vc \<noteq> cmc"
  shows "skel_inv (chs, remove1 vc est, blk, cmc, f)"
proof -
  have d: "distinct est" using assms by (simp add: skel_inv_def)
  have "pred_option (chan_life (x \<in> set chs) (x \<in> set est - {vc})) (f x)" if "x \<noteq> cmc" for x
    using assms(1) that chan_life_unest by (cases "x = vc") (auto simp: skel_inv_def pred_option_def)
  then show ?thesis using assms d unfolding skel_inv_def prod.case set_remove1_eq [OF d] by simp blast
qed

text \<open>A change of one channel.\<close>

lemma skel_inv_one:
  assumes inv: "skel_inv (chs, est, blk, cmc, f)" and ne: "vc \<noteq> cmc"
    and chs: "distinct chs'" "set chs' - {vc} = set chs - {vc}" and est: "distinct est'" "set est' - {vc} = set est - {vc}"
    and blk: "distinct blk'" "set blk' - {vc} = set blk - {vc}"
    and x: "case x of None \<Rightarrow> vc \<notin> set chs' \<and> vc \<notin> set est'
      | Some s \<Rightarrow> vc \<notin> set blk' \<and> chan_life (vc \<in> set chs') (vc \<in> set est') s \<and>
          (vc \<in> set chs' \<longrightarrow> (\<forall>c\<in>set chs - {vc}. map_option fst (f c) \<noteq> Some (fst s)))"
  shows "skel_inv (chs', est', blk', cmc, f(vc := x))"
proof -
  have m: "c \<in> set chs' \<longleftrightarrow> c \<in> set chs" "c \<in> set est' \<longleftrightarrow> c \<in> set est" "c \<in> set blk' \<longleftrightarrow> c \<in> set blk" if "c \<noteq> vc" for c
    using chs(2) est(2) blk(2) that by blast+
  have i: "\<forall>c \<in> set blk. f c = None" "\<forall>c \<in> set chs \<union> set est. f c \<noteq> None" "cmc \<in> set chs" "cmc \<in> set est"
    "f cmc = Some (14, False, 0, False)" "inj_on (\<lambda>c. map_option fst (f c)) (set chs)"
    "\<And>c. c \<noteq> cmc \<Longrightarrow> pred_option (chan_life (c \<in> set chs) (c \<in> set est)) (f c)"
    using inv by (simp_all add: skel_inv_def)
  have 1: "\<forall>c \<in> set blk'. (f(vc := x)) c = None"
    using i(1) m(3) x by (auto split: option.splits)
  have 2: "\<forall>c \<in> set chs' \<union> set est'. (f(vc := x)) c \<noteq> None"
    using i(2) m(1,2) x by (auto split: option.splits)
  have 3: "inj_on (\<lambda>c. map_option fst ((f(vc := x)) c)) (set chs')"
  proof (rule inj_onI)
    fix a b assume ab: "a \<in> set chs'" "b \<in> set chs'"
      "map_option fst ((f(vc := x)) a) = map_option fst ((f(vc := x)) b)"
    have other: "c = vc" if "c \<in> set chs'" "vc \<in> set chs'" "map_option fst (f c) = map_option fst x" for c
      using that x m(1) [of c] by (cases x) (auto simp: fun_upd_def split: if_splits)
    show "a = b"
    proof (cases "a = vc \<or> b = vc")
      case True
      then show ?thesis using ab other by (metis fun_upd_apply)
    next
      case False
      then show ?thesis using ab i(6) m(1) by (auto dest: inj_onD)
    qed
  qed
  have 4: "pred_option (chan_life (c \<in> set chs') (c \<in> set est')) ((f(vc := x)) c)" if "c \<noteq> cmc" for c
    using i(7) [OF that] m x by (cases "c = vc") (auto split: option.splits)
  show ?thesis
    using 1 2 3 4 chs(1) est(1) blk(1) i(3-5) m ne by (simp add: skel_inv_def)
qed

lemma skel_inv_facts:
  assumes "skel_inv (chs, est, blk, cmc, f)"
  shows "distinct chs" "distinct est" "distinct blk" "f vc = Some s \<Longrightarrow> vc \<notin> set blk"
    "f vc = Some s \<Longrightarrow> vc \<noteq> cmc \<Longrightarrow> chan_life (vc \<in> set chs) (vc \<in> set est) s"
    "vc \<in> set chs \<Longrightarrow> f vc = Some s \<Longrightarrow> \<forall>c\<in>set chs - {vc}. map_option fst (f c) \<noteq> Some (fst s)"
    "vc \<in> set blk \<Longrightarrow> vc \<notin> set chs \<and> vc \<notin> set est \<and> vc \<noteq> cmc"
proof -
  show "distinct chs" "distinct est" "distinct blk" "f vc = Some s \<Longrightarrow> vc \<notin> set blk"
    using assms by (auto simp: skel_inv_def)
  show "f vc = Some s \<Longrightarrow> vc \<noteq> cmc \<Longrightarrow> chan_life (vc \<in> set chs) (vc \<in> set est) s"
    using assms by (auto simp: skel_inv_def dest!: spec [of _ vc])
  have inj: "inj_on (\<lambda>vc. map_option fst (f vc)) (set chs)" using assms by (simp add: skel_inv_def)
  show "vc \<in> set chs \<Longrightarrow> f vc = Some s \<Longrightarrow> \<forall>c\<in>set chs - {vc}. map_option fst (f c) \<noteq> Some (fst s)"
    using inj_onD [OF inj, of _ vc] by auto
  have "\<forall>vc \<in> set blk. f vc = None" "\<forall>vc \<in> set chs \<union> set est. f vc \<noteq> None" "cmc \<in> set chs"
    using assms by (simp_all add: skel_inv_def)
  then show "vc \<in> set blk \<Longrightarrow> vc \<notin> set chs \<and> vc \<notin> set est \<and> vc \<noteq> cmc" by blast
qed

lemma skel_inv_net_close:
  assumes inv: "skel_inv (chs, est, blk, cmc, f)" and v: "vc \<noteq> cmc" "f vc = Some (i, a, ac, nc)"
  shows "ac \<noteq> 2 \<Longrightarrow> skel_inv (remove1 vc chs, est, blk, cmc, f(vc \<mapsto> (i, a, ac, True)))"
    "ac = 2 \<Longrightarrow> skel_inv (remove1 vc chs, est, vc # blk, cmc, f(vc := None))"
  using skel_inv_facts(1-3) [OF inv] skel_inv_facts(4) [OF inv v(2)] skel_inv_facts(5) [OF inv v(2,1)]
  by (auto simp: chan_life_def intro!: skel_inv_one [OF inv v(1)])

lemma skel_inv_app_closed:
  assumes inv: "skel_inv (chs, est, blk, cmc, f)" and v: "vc \<noteq> cmc" "f vc = Some (i, a, ac, nc)"
  shows "skel_inv (chs, est, blk, cmc, f(vc \<mapsto> (i, a, 1, nc)))"
    "vc \<notin> set est \<Longrightarrow> \<not> nc \<Longrightarrow> skel_inv (chs, est, blk, cmc, f(vc \<mapsto> (i, a, 2, nc)))"
    "vc \<notin> set est \<Longrightarrow> nc \<Longrightarrow> skel_inv (chs, est, vc # blk, cmc, f(vc := None))"
  using skel_inv_facts(1-3) [OF inv] skel_inv_facts(4) [OF inv v(2)] skel_inv_facts(5) [OF inv v(2,1)]
    skel_inv_facts(6) [OF inv _ v(2)]
  by (auto simp: chan_life_def intro!: skel_inv_one [OF inv v(1)])

lemma skel_inv_open:
  assumes inv: "skel_inv (chs, est, vc # blk, cmc, f)" and i: "\<forall>c\<in>set chs. map_option fst (f c) \<noteq> Some i"
  shows "skel_inv (vc # chs, est @ [vc], blk, cmc, f(vc \<mapsto> (i, True, 0, False)))"
proof -
  have f: "vc \<notin> set chs" "vc \<notin> set est" "vc \<noteq> cmc" using skel_inv_facts(7) [OF inv, of vc] by simp_all
  then show ?thesis using skel_inv_facts(1-3) [OF inv] i
    by (auto simp: chan_life_def intro!: skel_inv_one [OF inv f(3)])
qed

text \<open>The operations that change it.\<close>

lemma skel_components:
  "skel v = (chs, est, blk, cmc, f) \<longleftrightarrow> v_channels v = chs \<and> v_established v = est \<and> v_blocks v = blk \<and> v_cmc v = cmc \<and>
     (\<lambda>vc. map_option chan_skel (v_chan v vc)) = f"
  by (simp add: skel_def)

lemma vllp_channel_tx_skel:
  assumes "vllp_channel_tx vc pb reuse v = Some (r, v')"
  shows "skel v' = (v_channels v, remove1 vc (v_established v) @ [vc], v_blocks v, v_cmc v, \<lambda>vc. map_option chan_skel (v_chan v vc))"
proof -
  obtain v1 where v1: "skel v1 = skel v" "v' = v1\<lparr>v_established := remove1 vc (v_established v1) @ [vc]\<rparr>"
    using assms by (auto simp: vllp_channel_tx_def Let_def Option.bind_eq_Some_conv dest!: skel_fragment)
  then show ?thesis by (simp add: skel_def)
qed

lemma vllp_channel_tx_inv:
  assumes tx: "vllp_channel_tx vc pb reuse v = Some (r, v')" and inv: "vllp_inv v" and vc: "vc \<in> set (v_established v)"
  shows "vllp_inv v' \<and> set (v_established v') = set (v_established v) \<and> v_cmc v' = v_cmc v \<and>
     (\<forall>x. map_option chan_skel (v_chan v' x) = map_option chan_skel (v_chan v x))"
proof -
  have "distinct (v_established v)" using inv by (simp add: vllp_inv_def)
  then have "set (remove1 vc (v_established v) @ [vc]) = set (v_established v)" using vc by auto
  moreover have "vllp_inv v'"
    using inv skel_inv_rotate [OF _ vc, of "v_channels v" "v_blocks v" "v_cmc v"] unfolding vllp_inv_skel vllp_channel_tx_skel [OF tx]
    by (simp add: skel_def)
  ultimately show ?thesis using vllp_channel_tx_skel [OF tx] by (simp add: skel_def fun_eq_iff)
qed

lemma vllp_inv_cmc:
  assumes "vllp_inv v" shows "v_cmc v \<in> set (v_channels v)" "v_cmc v \<in> set (v_established v)"
    "\<exists>c. v_chan v (v_cmc v) = Some c \<and> vc_id c = 14 \<and> \<not> vc_app c \<and> \<not> vc_net_closed c"
  using assms by (auto simp: vllp_inv_def chan_skel_def)

text \<open>Sending a close takes the channel off the list of established channels, with or without a
  buffer for the message.\<close>

lemma vllp_tx_close_inv:
  assumes tc: "vllp_tx_close vc v = Some (err, v')" and inv: "vllp_inv v" and ne: "vc \<noteq> v_cmc v"
  shows "vllp_inv v' \<and> set (v_established v') = set (v_established v) - {vc} \<and> v_cmc v' = v_cmc v \<and>
    (\<forall>x. map_option chan_skel (v_chan v' x) = map_option chan_skel (v_chan v x))"
proof -
  define v0 where "v0 = upd_chan vc (\<lambda>c. c\<lparr>vc_state := CLOSED_SENT\<rparr>) (v\<lparr>v_established := remove1 vc (v_established v)\<rparr>)"
  have d: "distinct (v_established v)" using inv by (simp add: vllp_inv_def)
  have s0: "skel v0 = (v_channels v, remove1 vc (v_established v), v_blocks v, v_cmc v, \<lambda>vc. map_option chan_skel (v_chan v vc))"
    by (simp only: v0_def skel_upd_chan_fields) (simp add: skel_def)
  have i0: "vllp_inv v0" using skel_inv_unest [of "v_channels v"] inv ne s0 by (simp add: vllp_inv_skel skel_def)
  have goal: ?thesis if "skel v' = skel v0 \<or> (vllp_inv v' \<and> set (v_established v') = set (v_established v0) \<and> v_cmc v' = v_cmc v0 \<and>
      (\<forall>x. map_option chan_skel (v_chan v' x) = map_option chan_skel (v_chan v0 x)))"
    using that i0 s0 d vllp_inv_cong [of v' v0] by (auto simp: skel_def fun_eq_iff)
  show ?thesis
  proof (cases "v_connected v0")
    case False
    then show ?thesis using tc goal by (auto simp: vllp_tx_close_def Let_def Option.bind_eq_Some_conv v0_def [symmetric])
  next
    case True
    then obtain pb nb where m: "pbuf_make0 0 False (v_nb v0) = Some (pb, nb)"
      using tc by (auto simp: vllp_tx_close_def Let_def Option.bind_eq_Some_conv v0_def [symmetric])
    show ?thesis
    proof (cases "pb = []")
      case pe: True
      then show ?thesis using tc m True goal
        by (auto simp: vllp_tx_close_def Let_def Option.bind_eq_Some_conv v0_def [symmetric])
    next
      case pn: False
      obtain c cm :: vllp_channel and v0' p where st: "send_cmc_message (v_cmc (set_nb nb v0)) pb VLLP_CMC_OPCODE_CLOSE (vc_id c) 0 (set_nb nb v0) = Some v0'"
        "vllp_channel_tx (v_cmc (upd_chan (v_cmc v0') (\<lambda>c. c\<lparr>vc_txq := snd (pbuf_splice (vc_txq cm))\<rparr>) v0'))
          (fst (pbuf_splice (vc_txq cm))) [] (upd_chan (v_cmc v0') (\<lambda>c. c\<lparr>vc_txq := snd (pbuf_splice (vc_txq cm))\<rparr>) v0') = Some p"
        "snd p = v'"
        using tc m True pn unfolding vllp_tx_close_def
        by (simp add: Let_def Option.bind_eq_Some_conv v0_def [symmetric] split_beta del: split_paired_Ex split_paired_All)
          blast
      define v1 where "v1 = upd_chan (v_cmc v0') (\<lambda>c. c\<lparr>vc_txq := snd (pbuf_splice (vc_txq cm))\<rparr>) v0'"
      have s: "skel v1 = skel v0" "vllp_channel_tx (v_cmc v1) (fst (pbuf_splice (vc_txq cm))) [] v1 = Some (fst p, v')"
        using skel_send_cmc [OF st(1)] st(2,3) by (auto simp: v1_def)
      have i1: "vllp_inv v1" using i0 s(1) vllp_inv_cong by blast
      show ?thesis
        using vllp_channel_tx_inv [OF s(2) i1 vllp_inv_cmc(2) [OF i1]] s(1)
        by (intro goal disjI2) (simp add: skel_def fun_eq_iff)
    qed
  qed
qed

lemma vllp_chan_life:
  assumes "vllp_inv v" "v_chan v vc = Some c" "vc \<noteq> v_cmc v"
  shows "vc_app c" "vc_net_closed c \<longleftrightarrow> vc \<notin> set (v_channels v)"
  using assms by (auto simp: vllp_inv_def)

lemma vllp_destroy_skel:
  "vllp_channel_destroy vc v = Some v' \<Longrightarrow>
     skel v' = (v_channels v, v_established v, vc # v_blocks v, v_cmc v, (\<lambda>x. map_option chan_skel (v_chan v x))(vc := None))"
  by (auto simp: vllp_channel_destroy_def Option.bind_eq_Some_conv skel_def set_nb_def fun_eq_iff)

lemma upd_chan_sel [simp]:
  "v_channels (upd_chan vc f v) = v_channels v" "v_established (upd_chan vc f v) = v_established v"
  "v_blocks (upd_chan vc f v) = v_blocks v" "v_cmc (upd_chan vc f v) = v_cmc v" "v_SE (upd_chan vc f v) = v_SE v"
  "v_net (upd_chan vc f v) = v_net v" "v_app (upd_chan vc f v) = v_app v" "v_nb (upd_chan vc f v) = v_nb v"
  "v_chan (upd_chan vc f v) x = (if x = vc then map_option f (v_chan v vc) else v_chan v x)"
  by (simp_all add: upd_chan_def v_nb_def)

lemma set_nb_sel [simp]:
  "v_channels (set_nb nb v) = v_channels v" "v_established (set_nb nb v) = v_established v"
  "v_blocks (set_nb nb v) = v_blocks v" "v_cmc (set_nb nb v) = v_cmc v" "v_chan (set_nb nb v) = v_chan v"
  "v_SE (set_nb nb v) = v_SE v" "v_app (set_nb nb v) = v_app v" "v_nb (set_nb nb v) = nb" "v_connected (set_nb nb v) = v_connected v"
  by (simp_all add: set_nb_def v_nb_def)

text \<open>The application closed and the close is sent: the channel waits for the network or is gone.\<close>

lemma vllp_app_closed2_inv:
  assumes inv: "vllp_inv v" and ne: "vc \<noteq> v_cmc v" and est: "vc \<notin> set (v_established v)"
    and md: "vllp_channel_maybe_destroy vc (upd_chan vc (\<lambda>c. c\<lparr>vc_app_closed := 2\<rparr>) v) = Some (b, v')"
  shows "vllp_inv v'"
proof -
  let ?u = "upd_chan vc (\<lambda>c. c\<lparr>vc_app_closed := 2\<rparr>) v"
  let ?f = "\<lambda>x. map_option chan_skel (v_chan v x)"
  have i: "skel_inv (v_channels v, v_established v, v_blocks v, v_cmc v, ?f)" using inv by (simp add: vllp_inv_skel skel_def)
  obtain c where c: "v_chan v vc = Some c" using md by (auto simp: vllp_channel_maybe_destroy_def Option.bind_eq_Some_conv)
  have fc: "?f vc = Some (vc_id c, vc_app c, vc_app_closed c, vc_net_closed c)" using c by (simp add: chan_skel_def)
  show ?thesis
  proof (cases "vc_net_closed c")
    case True
    then have "vllp_channel_destroy vc ?u = Some v'"
      using md c by (auto simp: vllp_channel_maybe_destroy_def Option.bind_eq_Some_conv)
    from vllp_destroy_skel [OF this] have "skel v' = (v_channels v, v_established v, vc # v_blocks v, v_cmc v, ?f(vc := None))"
      by (simp add: fun_eq_iff)
    then show ?thesis using skel_inv_app_closed(3) [OF i ne fc est True] by (simp add: vllp_inv_skel)
  next
    case False
    then have "v' = ?u" using md c by (auto simp: vllp_channel_maybe_destroy_def)
    then have "skel v' = (v_channels v, v_established v, v_blocks v, v_cmc v, ?f(vc \<mapsto> (vc_id c, vc_app c, 2, vc_net_closed c)))"
      using c by (simp add: skel_def fun_eq_iff chan_skel_def)
    then show ?thesis using skel_inv_app_closed(2) [OF i ne fc est False] by (simp add: vllp_inv_skel)
  qed
qed

lemma vllp_tx_loop_inv:
  assumes "vllp_tx_loop ops vcs reuse v = Some (r, v')" "vllp_inv v" "set vcs \<subseteq> set (v_established v)" "distinct vcs"
  shows "vllp_inv v'"
  using assms
proof (induction ops vcs reuse v rule: vllp_tx_loop.induct)
  case (1 ops reuse v)
  then show ?case using skel_tx_ack vllp_inv_cong by (fastforce split: if_splits)
next
  case (2 ops vc vcs reuse v)
  obtain c where c: "v_chan v vc = Some c" using 2(5) by (auto simp: Option.bind_eq_Some_conv)
  have tl: "set vcs \<subseteq> set (v_established v) - {vc}" "distinct vcs" "vc \<in> set (v_established v)" using 2(7,8) by auto
  show ?case
  proof (cases "vc_app c \<and> vc_app_closed c = 1")
    case True
    then have ne: "vc \<noteq> v_cmc v" using vllp_inv_cmc(3) [OF 2(6)] c by auto
    obtain err v1 where t: "vllp_tx_close vc v = Some (err, v1)" using 2(5) True c by (auto simp: Option.bind_eq_Some_conv)
    note t' = vllp_tx_close_inv [OF t 2(6) ne]
    show ?thesis
    proof (cases "err = 0")
      case False
      then show ?thesis using 2(1) [OF c _ _ t refl] 2(5) True t t' tl c by simp
    next
      case e0: True
      then obtain b where "vllp_channel_maybe_destroy vc (upd_chan vc (\<lambda>c. c\<lparr>vc_app_closed := 2\<rparr>) v1) = Some (b, v')"
        using 2(5) True t c by (auto simp: Option.bind_eq_Some_conv)
      then show ?thesis using vllp_app_closed2_inv [of v1 vc] t' ne by auto
    qed
  next
    case False
    have keep: "vllp_inv v1 \<and> set (v_established v1) = set (v_established v)" if "skel v1 = skel v" for v1
      using that 2(6) vllp_inv_cong [of v1 v] by (simp add: skel_def)
    show ?thesis
    proof (cases "vc_app c")
      case app: True
      show ?thesis
      proof (cases "vc_net_closed c")
        case True
        then show ?thesis using 2(2) [OF c app _ True] 2(5,6) c app False tl by auto
      next
        case nc: False
        obtain pb nb a where p: "op_pull ops vc (v_nb v) (v_app v) = (pb, nb, a)" by (rule prod_cases3)
        let ?v = "(set_nb nb v)\<lparr>v_app := a\<rparr>"
        have k: "vllp_inv ?v" "set (v_established ?v) = set (v_established v)" using keep [of ?v] by simp_all
        show ?thesis
        proof (cases "pb = []")
          case True
          then show ?thesis using 2(3) [OF c app _ nc p [symmetric] refl refl refl True] 2(5) c app nc False p k tl by auto
        next
          case pn: False
          then show ?thesis using 2(5) c app nc False p vllp_channel_tx_inv [of vc pb reuse ?v r v'] k tl by auto
        qed
      qed
    next
      case na: False
      obtain pb q where p: "pbuf_splice (vc_txq c) = (pb, q)" by fastforce
      let ?v = "upd_chan vc (\<lambda>c. c\<lparr>vc_txq := q\<rparr>) v"
      have k: "vllp_inv ?v" "set (v_established ?v) = set (v_established v)" using keep [of ?v] by simp_all
      show ?thesis
      proof (cases "pb = []")
        case True
        then show ?thesis using 2(4) [OF c na p [symmetric] refl refl True] 2(5) c na p k tl by auto
      next
        case pn: False
        then show ?thesis using 2(5) c na p vllp_channel_tx_inv [of vc pb reuse ?v r v'] k tl by auto
      qed
    qed
  qed
qed

lemma vllp_maybe_tx_inv:
  assumes "vllp_maybe_tx ops reuse v = Some (r, v')" "vllp_inv v" shows "vllp_inv v'"
proof -
  have "distinct (v_established v)" using assms(2) by (simp add: vllp_inv_def)
  then show ?thesis using assms vllp_tx_loop_inv [of ops "v_established v" reuse v r v']
    by (simp add: vllp_maybe_tx_def split: if_splits)
qed

text \<open>The network closes channels.\<close>

lemma vllp_net_close_inv:
  assumes nc: "vllp_channel_net_close ops vc v = Some v'" and inv: "vllp_inv v" and ne: "vc \<noteq> v_cmc v"
  shows "vllp_inv v' \<and> v_cmc v' = v_cmc v \<and> set (v_channels v') = set (v_channels v) - {vc}"
proof -
  let ?f = "\<lambda>x. map_option chan_skel (v_chan v x)"
  have i: "skel_inv (v_channels v, v_established v, v_blocks v, v_cmc v, ?f)" using inv by (simp add: vllp_inv_skel skel_def)
  obtain c where c: "v_chan v vc = Some c" using nc by (auto simp: vllp_channel_net_close_def Option.bind_eq_Some_conv)
  have fc: "?f vc = Some (vc_id c, vc_app c, vc_app_closed c, vc_net_closed c)" using c by (simp add: chan_skel_def)
  have d: "distinct (v_channels v)" using inv by (simp add: vllp_inv_def)
  show ?thesis
  proof (cases "vc_net_closed c")
    case True
    then have "v' = v" using nc c by (simp add: vllp_channel_net_close_def)
    then show ?thesis using inv True vllp_chan_life(2) [OF inv c ne] by auto
  next
    case False
    define u where "u = (upd_chan vc (\<lambda>c. c\<lparr>vc_net_closed := True\<rparr>) (v\<lparr>v_app := op_close ops vc (v_app v)\<rparr>))
       \<lparr>v_channels := remove1 vc (v_channels v)\<rparr>"
    obtain b where md: "vllp_channel_maybe_destroy vc u = Some (b, v')"
      using nc c False by (auto simp: vllp_channel_net_close_def Let_def Option.bind_eq_Some_conv u_def split: if_splits)
    have u: "v_chan u vc = Some (c\<lparr>vc_net_closed := True\<rparr>)" "v_channels u = remove1 vc (v_channels v)" "v_cmc u = v_cmc v"
      "skel u = (remove1 vc (v_channels v), v_established v, v_blocks v, v_cmc v, ?f(vc \<mapsto> (vc_id c, vc_app c, vc_app_closed c, True)))"
      using c by (auto simp: u_def skel_def fun_eq_iff chan_skel_def)
    show ?thesis
    proof (cases "vc_app_closed c = 2")
      case True
      then have "vllp_channel_destroy vc u = Some v'"
        using md u by (auto simp: vllp_channel_maybe_destroy_def Option.bind_eq_Some_conv)
      from vllp_destroy_skel [OF this] have
        s: "skel v' = (remove1 vc (v_channels v), v_established v, vc # v_blocks v, v_cmc v, ?f(vc := None))"
        using u by (simp add: skel_def fun_eq_iff)
      then show ?thesis using skel_inv_net_close(2) [OF i ne fc True] d by (simp add: vllp_inv_skel) (simp add: skel_def)
    next
      case no: False
      then have "v' = u" using md u by (simp add: vllp_channel_maybe_destroy_def)
      then show ?thesis using skel_inv_net_close(1) [OF i ne fc no] u d by (simp add: vllp_inv_skel)
    qed
  qed
qed

lemma vllp_close_all_inv:
  "vllp_close_all ops vcs v = Some v' \<Longrightarrow> vllp_inv v \<Longrightarrow> vllp_inv v' \<and> v_cmc v' = v_cmc v"
proof (induction vcs arbitrary: v)
  case (Cons vc vcs)
  then show ?case using vllp_net_close_inv [of ops vc v] by (fastforce simp: Option.bind_eq_Some_conv split: if_splits)
qed simp

lemma vllp_disconnect_inv:
  assumes "vllp_disconnect ops v = Some v'" "vllp_inv v" shows "vllp_inv v'"
proof (cases "v_connected v")
  case True
  let ?u = "v\<lparr>v_ack_timer := 0, v_rtx_timer := 0, v_timeout_timer := 0\<rparr>"
  obtain v1 where v1: "vllp_close_all ops (v_channels ?u) ?u = Some v1" "skel v' = skel v1"
    using assms(1) True by (auto simp: vllp_disconnect_def Let_def Option.bind_eq_Some_conv)
  have "vllp_inv ?u" using assms(2) vllp_inv_cong [of ?u v] by simp
  then show ?thesis using vllp_close_all_inv [OF v1(1)] vllp_inv_cong [OF v1(2)] by simp
qed (use assms in \<open>simp add: vllp_disconnect_def\<close>)

lemma vllp_accept_syn_inv:
  assumes "vllp_accept_syn ops data pb v = Some (r, v')" "vllp_inv v" shows "vllp_inv v'"
proof (cases "length data = 7 \<and> data ! 1 = VLLP_VERSION \<and> unat (data ! 2) = v_mtu v")
  case True
  obtain w where w: "(if v_connected v then vllp_disconnect ops v else Some v) = Some w"
    using assms(1) True by (auto simp: vllp_accept_syn_def Option.bind_eq_Some_conv split: if_splits)
  then have iw: "vllp_inv w" using assms(2) vllp_disconnect_inv [of ops v w] by (simp split: if_splits)
  obtain x where x: "rd32_le (drop 3 data) = Some x"
    using assms(1) True w by (auto simp: vllp_accept_syn_def Option.bind_eq_Some_conv simp del: split_paired_Ex)
  obtain i u where g: "vllp_gen_channel_crc (w\<lparr>v_connected := True, v_SE := VLLP_HDR_E, v_crc_iv := x, v_channel_iv_cnt := 0\<rparr>) = (i, u)"
    by fastforce
  have "vllp_tx_ack pb (upd_chan (v_cmc u) (\<lambda>c. c\<lparr>vc_tx_iv := i, vc_rx_iv := NOT i\<rparr>) u) = Some (r, v')"
    using assms(1) True w x g by (simp add: vllp_accept_syn_def Let_def)
  then show ?thesis using skel_tx_ack skel_gen_channel_crc [OF g] iw vllp_inv_cong [of v' w] by fastforce
qed (use assms in \<open>auto simp: vllp_accept_syn_def split: if_split_asm\<close>)

lemma vllp_find_Some: "vllp_channel_find v i = Some vc \<Longrightarrow> vc \<in> set (v_channels v)"
  by (auto simp: vllp_channel_find_def find_Some_iff)

lemma handle_cmc_open_inv:
  assumes op: "handle_cmc_open ops t name v = (err, v')" and inv: "vllp_inv v"
  shows "vllp_inv v'"
proof -
  obtain iv u where g: "vllp_gen_channel_crc v = (iv, u)" by fastforce
  have su: "skel u = skel v" using skel_gen_channel_crc [OF g] .
  then have iu: "vllp_inv u" using inv vllp_inv_cong by blast
  let ?f = "\<lambda>x. map_option chan_skel (v_chan u x)"
  have i: "skel_inv (v_channels u, v_established u, v_blocks u, v_cmc u, ?f)" using iu by (simp add: vllp_inv_skel skel_def)
  show ?thesis
  proof (cases "op_service_find ops name = None \<or> vllp_channel_find u t \<noteq> None \<or> v_blocks u = []")
    case True
    then have "v' = u" using op g by (auto simp: handle_cmc_open_def Let_def vllp_channel_make_def split: option.splits list.splits if_split_asm)
    then show ?thesis using iu by simp
  next
    case False
    then obtain s vc blk where s: "op_service_find ops name = Some s" "vllp_channel_find u t = None" "v_blocks u = vc # blk"
      by (cases "v_blocks u") auto
    have fresh: "v_chan u vc = None" "vc \<notin> set (v_channels u)" using iu s(3) skel_inv_facts(7) [OF i, of vc] by (simp_all add: vllp_inv_def)
    obtain vm where m: "vllp_channel_make t u = (Some vc, vm)" using s(3) by (simp add: vllp_channel_make_def)
    have cs: "cmc_open_service ops s vc iv vm = (err, v')" using op g s m by (simp add: handle_cmc_open_def Let_def)
    define w where "w = upd_chan vc (\<lambda>c. c\<lparr>vc_tx_iv := iv, vc_rx_iv := NOT iv, vc_state := ESTABLISHED,
        vc_max_fragment_size := PBUF_DATA_SIZE - 4, vc_preferred_offset := 0\<rparr>) vm"
    have w: "v_channels w = vc # v_channels u" "v_established w = v_established u" "v_blocks w = blk" "v_cmc w = v_cmc u"
      "\<And>x. x \<noteq> vc \<Longrightarrow> v_chan w x = v_chan u x" "map_option chan_skel (v_chan w vc) = Some (t, False, 0, False)"
      using m s(3) by (auto simp: w_def vllp_channel_make_def chan_skel_def)
    obtain err' nb a where o: "op_service_open ops s vc (v_nb w) (v_app w) = (err', nb, a)" by (rule prod_cases3)
    show ?thesis
    proof (cases "err' = 0")
      case True
      then have v': "v' = (upd_chan vc (\<lambda>c. c\<lparr>vc_app := True\<rparr>) ((set_nb nb w)\<lparr>v_app := a\<rparr>))\<lparr>v_established := v_established u @ [vc]\<rparr>"
        using cs o w(2) by (simp add: cmc_open_service_def Let_def w_def [symmetric])
      have "(\<lambda>x. map_option chan_skel (v_chan v' x)) = ?f(vc \<mapsto> (t, True, 0, False))"
      proof
        fix x
        show "map_option chan_skel (v_chan v' x) = (?f(vc \<mapsto> (t, True, 0, False))) x"
          using w(5) [of x] w(6) by (cases "v_chan w vc") (auto simp: v' chan_skel_def)
      qed
      then have "skel v' = (vc # v_channels u, v_established u @ [vc], blk, v_cmc u, ?f(vc \<mapsto> (t, True, 0, False)))"
        using w(1-4) by (simp add: skel_def) (simp add: v')
      moreover have "\<forall>c\<in>set (v_channels u). map_option fst (?f c) \<noteq> Some t"
        using s(2) by (fastforce simp: vllp_channel_find_def find_None_iff chan_skel_def)
      ultimately show ?thesis using skel_inv_open [of "v_channels u" "v_established u" vc blk "v_cmc u" ?f t] i s(3)
        by (simp add: vllp_inv_skel)
    next
      case False
      then have v': "v' = ((set_nb nb w)\<lparr>v_app := a\<rparr>)\<lparr>v_channels := remove1 vc (v_channels w), v_chan := (v_chan w)(vc := None), v_blocks := vc # v_blocks w\<rparr>"
        using cs o by (simp add: cmc_open_service_def Let_def w_def [symmetric])
      have "v_chan v' x = v_chan u x" for x using w(5) [of x] fresh(1) by (cases "x = vc") (simp_all add: v')
      then have "skel v' = skel u" using w(1-4) s(3) by (simp add: skel_def) (simp add: v')
      then show ?thesis using iu vllp_inv_cong by blast
    qed
  qed
qed

lemma handle_cmc_close_inv:
  fixes v v' :: "'a vllp"
  assumes cl: "handle_cmc_close ops (v_cmc v) pb t data v = Some (err, v')" and inv: "vllp_inv v"
  shows "vllp_inv v'"
proof -
  obtain w :: "'a vllp" where w: "skel v' = skel w" "w = v \<or> (\<exists>vc. vc \<noteq> v_cmc v \<and> vllp_channel_net_close ops vc v = Some w)"
    using cl by (auto simp: handle_cmc_close_def Option.bind_eq_Some_conv split: option.splits if_splits) blast
  then show ?thesis using vllp_inv_cong [OF w(1)] vllp_net_close_inv inv by blast
qed

lemma handle_cmc_inv:
  fixes v v' :: "'a vllp"
  assumes hc: "handle_cmc ops (v_cmc v) pb v = Some (err, v')" and inv: "vllp_inv v"
  shows "vllp_inv v'"
proof -
  obtain p where p: "(case pb of [] \<Rightarrow> None | p # _ \<Rightarrow> Some p) = Some p" using hc by (auto simp: handle_cmc_def Option.bind_eq_Some_conv)
  show ?thesis
  proof (cases "pb_buflen p < 1")
    case True
    then have "skel v' = skel v" using hc p by (auto simp: handle_cmc_def Option.bind_eq_Some_conv)
    then show ?thesis using inv vllp_inv_cong by blast
  next
    case False
    obtain u8s where u: "pb_rd p 0 (pb_buflen p) (v_nb v) = Some u8s" using hc p False by (auto simp: handle_cmc_def Option.bind_eq_Some_conv)
    obtain e w where h: "handle_cmc_open ops (unat (hd u8s AND 0xf)) (tl u8s) v = (e, w)" by fastforce
    have "skel v' = skel w \<or> handle_cmc_close ops (v_cmc v) pb (unat (hd u8s AND 0xf)) (tl u8s) v = Some (err, v') \<or> v' = v"
      using hc p False u h by (auto simp: handle_cmc_def Let_def Option.bind_eq_Some_conv dest!: skel_send_cmc split: if_splits)
    then show ?thesis using handle_cmc_close_inv [OF _ inv] handle_cmc_open_inv [OF h inv] vllp_inv_cong inv by blast
  qed
qed

text \<open>The three ways a message can end: a bad checksum, a request to the server, delivery to a service.\<close>

lemma vllp_complete_cases:
  fixes v v' :: "'a vllp"
  assumes cp: "vllp_complete ops vc c rxq v = Some (err, v')"
  obtains (bad) "err = ERR_CHECKSUM_ERROR" "v' = upd_chan vc (\<lambda>c. c\<lparr>vc_rxq := []\<rparr>) v"
  | (request) pb nb where "vc = v_cmc v" "pbuf_trim (vllp_mark rxq) 4 (v_nb v) = Some (pb, nb)"
      "handle_cmc ops vc pb (set_nb nb (upd_chan vc (\<lambda>c. c\<lparr>vc_rx_iv := vc_rx_iv c + 1\<rparr>) (upd_chan vc (\<lambda>c. c\<lparr>vc_rxq := []\<rparr>) v))) =
       Some (err, v')"
  | (push) pb nb ev nb' a where "vc \<noteq> v_cmc v" "err = 0" "op_push ops vc pb nb (v_app v) = (ev, nb', a)"
      "let w = (set_nb nb' (set_nb nb (upd_chan vc (\<lambda>c. c\<lparr>vc_rx_iv := vc_rx_iv c + 1\<rparr>) (upd_chan vc (\<lambda>c. c\<lparr>vc_rxq := []\<rparr>) v))))\<lparr>v_app := a\<rparr>
       in (if ev \<noteq> 0 then net_task_raise vc ev w else Some w) = Some v'"
proof -
  define u where "u = upd_chan vc (\<lambda>c. c\<lparr>vc_rxq := []\<rparr>) v"
  define w where "w = upd_chan vc (\<lambda>c. c\<lparr>vc_rx_iv := vc_rx_iv c + 1\<rparr>) u"
  have sel: "v_nb u = v_nb v" "v_nb w = v_nb v" "v_cmc w = v_cmc v" "v_app w = v_app v" by (simp_all add: u_def w_def)
  note def = vllp_complete_def Let_def u_def [symmetric] w_def [symmetric] sel set_nb_sel
  obtain crc where crc: "calc_crc32 (vllp_mark rxq) (vc_rx_iv c) (v_nb v) = Some crc"
    using cp unfolding def by (auto simp: Option.bind_eq_Some_conv)
  show thesis
  proof (cases "crc = 0")
    case False
    then show ?thesis using cp crc bad unfolding def by simp
  next
    case True
    obtain pb nb where t: "pbuf_trim (vllp_mark rxq) 4 (v_nb v) = Some (pb, nb)"
      using cp crc True unfolding def by (auto simp: Option.bind_eq_Some_conv)
    show ?thesis
    proof (cases "vc = v_cmc v")
      case cmc: True
      then have "handle_cmc ops vc pb (set_nb nb w) = Some (err, v')"
        using cp crc True t unfolding def by (simp add: sel)
      then show ?thesis using request cmc t unfolding w_def u_def by blast
    next
      case nc: False
      obtain ev nb' a where p: "op_push ops vc pb nb (v_app v) = (ev, nb', a)" by (rule prod_cases3)
      have "err = 0" "(if ev \<noteq> 0 then net_task_raise vc ev ((set_nb nb' (set_nb nb w))\<lparr>v_app := a\<rparr>) else Some ((set_nb nb' (set_nb nb w))\<lparr>v_app := a\<rparr>)) = Some v'"
        using cp crc True t nc p unfolding def by (auto simp: Option.bind_eq_Some_conv split: if_splits)
      then show ?thesis using push [OF nc _ p] unfolding w_def u_def Let_def by blast
    qed
  qed
qed

lemma vllp_complete_inv:
  fixes v v' :: "'a vllp"
  assumes cp: "vllp_complete ops vc c rxq v = Some (err, v')" and inv: "vllp_inv v"
  shows "vllp_inv v'"
  using cp
proof (cases rule: vllp_complete_cases)
  case bad
  then show ?thesis using inv vllp_inv_cong [of v' v] by simp
next
  case (request pb nb)
  define w where "w = set_nb nb (upd_chan vc (\<lambda>c. c\<lparr>vc_rx_iv := vc_rx_iv c + 1\<rparr>) (upd_chan vc (\<lambda>c. c\<lparr>vc_rxq := []\<rparr>) v))"
  have "skel w = skel v" "v_cmc w = v_cmc v" by (simp_all add: w_def)
  then have "vllp_inv w" "handle_cmc ops (v_cmc w) pb w = Some (err, v')"
    using inv vllp_inv_cong [of w v] request(1,3) unfolding w_def [symmetric] by simp_all
  then show ?thesis using handle_cmc_inv by blast
next
  case (push pb nb ev nb' a)
  define w where "w = (set_nb nb' (set_nb nb (upd_chan vc (\<lambda>c. c\<lparr>vc_rx_iv := vc_rx_iv c + 1\<rparr>) (upd_chan vc (\<lambda>c. c\<lparr>vc_rxq := []\<rparr>) v))))\<lparr>v_app := a\<rparr>"
  have w: "skel w = skel v" unfolding w_def by simp
  from push(4) have "(if ev \<noteq> 0 then net_task_raise vc ev w else Some w) = Some v'" unfolding Let_def w_def .
  then have "skel v' = skel v" using w skel_net_task_raise [of vc ev w v'] by (simp split: if_splits)
  then show ?thesis using inv vllp_inv_cong by blast
qed

lemma vllp_channel_receive_inv:
  fixes v v' :: "'a vllp"
  assumes rc: "vllp_channel_receive ops ch data v = Some (err, v')" and inv: "vllp_inv v"
  shows "vllp_inv v'"
proof -
  have "skel v' = skel v \<or> (\<exists>nb vc c rxq. vllp_complete ops vc c rxq (set_nb nb v) = Some (err, v'))"
  proof (cases "vllp_channel_find v ch")
    case None
    then show ?thesis using rc by (auto simp: vllp_channel_receive_def Let_def Option.bind_eq_Some_conv)
  next
    case (Some vc)
    obtain h c where h: "buf_rd data 0 = Some h" "v_chan v vc = Some c"
      using rc Some by (auto simp: vllp_channel_receive_def Let_def Option.bind_eq_Some_conv)
    show ?thesis
    proof (cases "vc_net_closed c \<or> h AND VLLP_HDR_L \<noteq> 0 \<and> chan_bit ch AND v_local_flow v = 0")
      case True
      then show ?thesis using rc Some h by (auto simp: vllp_channel_receive_def Let_def split: if_split_asm)
    next
      case False
      obtain r nb where s: "vllp_store (vc_rxq c) (drop 1 data) (v_nb v) = Some (r, nb)"
        using rc Some h False by (auto simp: vllp_channel_receive_def Let_def Option.bind_eq_Some_conv split: if_split_asm)
      then show ?thesis using rc Some h False
        by (cases r; cases "h AND VLLP_HDR_L = 0") (auto simp: vllp_channel_receive_def Let_def split: if_split_asm)
    qed
  qed
  moreover have "vllp_inv (set_nb nb v)" for nb using inv vllp_inv_cong [of "set_nb nb v" v] by simp
  ultimately show ?thesis using vllp_complete_inv inv vllp_inv_cong by blast
qed

lemma vllp_rx_data_inv:
  fixes v v' :: "'a vllp"
  assumes rd: "vllp_rx_data ops u8s acc v = Some (ok, v')" and inv: "vllp_inv v"
  shows "vllp_inv v'"
proof -
  obtain w :: "'a vllp" where "vllp_inv w" "skel v' = skel w"
  proof (cases acc)
    case False
    then have "skel v' = skel v" using rd by (auto simp: vllp_rx_data_def Let_def)
    then show ?thesis using that inv by blast
  next
    case True
    obtain err w where r: "vllp_channel_receive ops (unat (hd u8s AND 0xf)) u8s v = Some (err, w)"
      using rd True by (auto simp: vllp_rx_data_def Let_def Option.bind_eq_Some_conv)
    have "skel v' = skel w \<or> vllp_disconnect ops w = Some v'"
      using rd True r by (auto simp: vllp_rx_data_def Let_def Option.bind_eq_Some_conv split: if_splits)
    then show ?thesis using that vllp_channel_receive_inv [OF r inv] vllp_disconnect_inv by blast
  qed
  then show ?thesis using vllp_inv_cong by blast
qed

lemma vllp_rx_connected_inv:
  fixes v v' :: "'a vllp"
  assumes rx: "vllp_rx_connected ops p pb v = Some (r, v')" and inv: "vllp_inv v"
  shows "vllp_inv v'"
proof (cases "v_connected v")
  case False
  then show ?thesis using rx inv by (simp add: vllp_rx_connected_def Let_def)
next
  case True
  define pa where "pa = ((hd p AND VLLP_HDR_E = 0) \<noteq> (v_SE v AND VLLP_HDR_S = 0))"
  define wa where "wa = vllp_we_can_accept (hd p) v"
  note def = vllp_rx_connected_def Let_def pa_def [symmetric] wa_def [symmetric]
  obtain ok x where x: "(if hd p AND 0xf \<noteq> 0xf then vllp_rx_data ops p wa v else Some (True, v)) = Some (ok, x)"
    using rx True unfolding def by (auto simp: Option.bind_eq_Some_conv simp del: split_paired_Ex)
  then have ix: "vllp_inv x" using vllp_rx_data_inv inv by (fastforce split: if_split_asm)
  show ?thesis
  proof (cases ok)
    case False
    then show ?thesis using rx True ix x unfolding def by simp
  next
    case ok: True
    obtain pb' and u :: "'a vllp" where
      p: "(if v_tx_buf x \<noteq> [] then if \<not> pa then Some (pb, x\<lparr>v_rtx_timer := v_now x + 1000\<rparr>) else vllp_ack_payload pb x
           else Some (pb, x)) = Some (pb', u)" and u: "vllp_maybe_tx ops pb' u = Some (r, v')"
      using rx True ok x unfolding def by (auto simp: Option.bind_eq_Some_conv simp del: split_paired_Ex)
    from p have "skel u = skel x" by (auto split: if_split_asm dest: skel_ack_payload)
    then show ?thesis using vllp_maybe_tx_inv [OF u] ix vllp_inv_cong by blast
  qed
qed

lemma vllp_rx_inv:
  fixes v v' :: "'a vllp"
  assumes rx: "vllp_rx ops pb v = Some (r, v')" and inv: "vllp_inv v"
  shows "vllp_inv v'"
proof -
  define v0 where "v0 = v\<lparr>v_timeout_timer := v_now v + of_nat (v_timeout v * 1000000)\<rparr>"
  note def = vllp_rx_def Let_def v0_def [symmetric]
  obtain b v1 where v1: "vllp_refresh_local_flow_status ops v0 = Some (b, v1)"
    using rx unfolding def by (auto simp: Option.bind_eq_Some_conv)
  have i1: "vllp_inv v1" using skel_refresh [OF v1] inv vllp_inv_cong [of v1 v] by (simp add: v0_def)
  obtain u8s where u: "(case pb of [] \<Rightarrow> Some [] | p # _ \<Rightarrow> pb_rd p 0 (pb_buflen p) (v_nb v1)) = Some u8s"
    using rx v1 unfolding def by (auto simp: Option.bind_eq_Some_conv simp del: split_paired_Ex)
  show ?thesis
  proof (cases "length u8s < 1")
    case True
    then show ?thesis using rx v1 u i1 unfolding def by simp
  next
    case len: False
    show ?thesis
    proof (cases "vllp_unpad u8s")
      case None
      then obtain v2 where "vllp_disconnect ops v1 = Some v2" "v' = v2"
        using rx v1 u len unfolding def by (auto simp: Option.bind_eq_Some_conv)
      then show ?thesis using vllp_disconnect_inv i1 by blast
    next
      case (Some p)
      let ?w = "v1\<lparr>v_remote_flow := ucast (p ! 1) OR push_bit 8 (ucast (p ! 2))\<rparr>"
      have iw: "vllp_inv ?w" using i1 vllp_inv_cong [of ?w v1] by simp
      have "vllp_accept_syn ops p pb v1 = Some (r, v') \<or> v' = v1 \<or>
          vllp_rx_connected ops p pb ?w = Some (r, v') \<or> vllp_rx_connected ops p pb v1 = Some (r, v')"
        using rx v1 u len Some unfolding def by (auto split: if_split_asm)
      then show ?thesis using vllp_accept_syn_inv i1 vllp_rx_connected_inv iw by blast
    qed
  qed
qed

section \<open>Every reachable state\<close>

text \<open>
  What can happen to a server: a packet arrives, a timer fires, the task of a service channel
  runs, or the rest of the system works on the buffers, the services, the clock and the queue of
  tasks. A step that does not return, where the code panics, has no successor.
\<close>

inductive vllp_step :: "'a vllp_ops \<Rightarrow> 'a vllp \<Rightarrow> 'a vllp \<Rightarrow> bool" for ops where
  step_input: "vllp_input ops sid pb v = Some (r, v') \<Longrightarrow> vllp_step ops v v'"
| step_ack: "vllp_ack_timer ops v = Some v' \<Longrightarrow> vllp_step ops v v'"
| step_rtx: "vllp_rtx_timer ops v = Some v' \<Longrightarrow> vllp_step ops v v'"
| step_timeout: "vllp_timeout_timer ops v = Some v' \<Longrightarrow> vllp_step ops v v'"
| step_task: "vc \<noteq> v_cmc v \<Longrightarrow> vllp_channel_task_cb ops vc signals v = Some v' \<Longrightarrow> vllp_step ops v v'"
| step_event: "vllp_net_event_cb vc signals v = Some v' \<Longrightarrow> vllp_step ops v v'"
| step_env: "vllp_step ops v (v\<lparr>v_net := dn, v_app := a, v_now := t, v_signals := sg, v_tasks := ts\<rparr>)"

lemma vllp_channel_task_inv:
  fixes v v' :: "'a vllp"
  assumes tk: "vllp_channel_task_cb ops vc signals v = Some v'" and inv: "vllp_inv v" and ne: "vc \<noteq> v_cmc v"
  shows "vllp_inv v'"
proof -
  obtain c where c: "v_chan v vc = Some c" using tk by (auto simp: vllp_channel_task_cb_def Option.bind_eq_Some_conv)
  show ?thesis
  proof (cases "signals AND PUSHPULL_EVENT_CLOSE \<noteq> 0 \<and> vc_app_closed c \<noteq> 0")
    case True
    then show ?thesis using tk c inv by (simp add: vllp_channel_task_cb_def)
  next
    case False
    define u where "u = (if signals AND PUSHPULL_EVENT_CLOSE \<noteq> 0 then upd_chan vc (\<lambda>c. c\<lparr>vc_app_closed := 1\<rparr>) v else v)"
    let ?f = "\<lambda>x. map_option chan_skel (v_chan v x)"
    have fc: "?f vc = Some (vc_id c, vc_app c, vc_app_closed c, vc_net_closed c)" using c by (simp add: chan_skel_def)
    have i: "skel_inv (v_channels v, v_established v, v_blocks v, v_cmc v, ?f)" using inv by (simp add: vllp_inv_skel skel_def)
    have "skel (upd_chan vc (\<lambda>c. c\<lparr>vc_app_closed := 1\<rparr>) v) =
        (v_channels v, v_established v, v_blocks v, v_cmc v, ?f(vc \<mapsto> (vc_id c, vc_app c, 1, vc_net_closed c)))"
      using c by (auto simp: skel_def fun_eq_iff chan_skel_def)
    then have iu: "vllp_inv u" using inv skel_inv_app_closed(1) [OF i ne fc] by (auto simp: u_def vllp_inv_skel)
    obtain chg u1 where u1: "vllp_refresh_local_flow_status ops u = Some (chg, u1)"
      using tk c False by (auto simp: vllp_channel_task_cb_def Let_def Option.bind_eq_Some_conv u_def [symmetric] split: if_split_asm)
    obtain r u2 where u2: "(if chg then vllp_tx_ack [] u1 else Some ([], u1)) = Some (r, u2)"
      using tk c False u1 by (auto simp: vllp_channel_task_cb_def Let_def Option.bind_eq_Some_conv u_def [symmetric] simp del: split_paired_Ex split: if_split_asm)
    have s: "skel u2 = skel u" using skel_refresh [OF u1] u2 skel_tx_ack by (fastforce split: if_split_asm)
    obtain r' where "vllp_maybe_tx ops [] u2 = Some (r', v')"
      using tk c False u1 u2 by (auto simp: vllp_channel_task_cb_def Let_def Option.bind_eq_Some_conv u_def [symmetric] split: if_split_asm)
    then show ?thesis using vllp_maybe_tx_inv iu vllp_inv_cong [OF s] by blast
  qed
qed

lemma vllp_step_inv:
  fixes v v' :: "'a vllp"
  assumes "vllp_step ops v v'" "vllp_inv v" shows "vllp_inv v'"
  using assms
proof (cases rule: vllp_step.cases)
  case (step_input sid pb r)
  then obtain u r' where "v' = v \<or> vllp_rx ops pb v = Some (r', u) \<and> skel v' = skel u"
    by (fastforce simp: vllp_input_def Option.bind_eq_Some_conv split: if_split_asm)
  then show ?thesis using vllp_rx_inv assms(2) vllp_inv_cong by metis
next
  case step_ack
  then have "skel v' = skel v" using skel_refresh skel_tx_ack by (fastforce simp: vllp_ack_timer_def Option.bind_eq_Some_conv)
  then show ?thesis using assms(2) vllp_inv_cong by blast
next
  case step_rtx
  then have "skel v' = skel v" using skel_refresh skel_tx by (fastforce simp: vllp_rtx_timer_def Option.bind_eq_Some_conv)
  then show ?thesis using assms(2) vllp_inv_cong by blast
next
  case step_timeout
  then show ?thesis using vllp_disconnect_inv assms(2) by (simp add: vllp_timeout_timer_def)
next
  case (step_task vc signals)
  then show ?thesis using vllp_channel_task_inv assms(2) by blast
next
  case (step_event vc signals)
  then have "skel v' = skel v" using skel_net_task_raise by (simp add: vllp_net_event_cb_def)
  then show ?thesis using assms(2) vllp_inv_cong by blast
next
  case (step_env dn a t sg ts)
  then show ?thesis using assms(2) vllp_inv_cong [of v' v] by simp
qed

lemma vllp_create_inv:
  assumes "vllp_server_create txid rxid mtu timeout dn a now blocks = Some v" "distinct blocks"
  shows "vllp_inv v"
  using assms
  by (auto simp: vllp_server_create_def vllp_channel_make_def vllp_inv_def Let_def chan_skel_def upd_chan_def
      split: list.splits)

text \<open>C5. In every state that a VLLP server reaches by steps that return, whatever packets arrive and whenever
  timers fire and services act: the channels on its two lists are allocated and listed once, no free block is an
  allocated channel and none is free twice, the management channel stays allocated, listed and open; a
  service channel is on the channel list exactly until the network closes it, and once its close was sent
  (\<open>vc_app_closed = 2\<close>) it is not scheduled any more, and the network has not closed it, for then it
  has been released; two listed channels never share a number. Nothing is claimed about a step
  that panics, which ends the run, and a channel whose close found no buffer, which the code takes off the
  established list but does not mark as sent, keeps \<open>vc_app_closed = 1\<close>: it is never released (\<^verbatim>\<open>vllp.c\<close>
  line 693 says the close is retried, but nothing does).\<close>

theorem vllp_channels_never_dangle:
  assumes "vllp_server_create txid rxid mtu timeout dn a now blocks = Some v0" "distinct blocks"
    and "(vllp_step ops)\<^sup>*\<^sup>* v0 v"
  shows "vllp_inv v"
  using assms(3) vllp_create_inv [OF assms(1,2)] by (induction rule: rtranclp_induct) (auto intro: vllp_step_inv)

section \<open>Padding\<close>

lemma fdcan_ladder_size:
  assumes "8 < n" "n < 64"
  obtains k where "fdcan_adapation_pad_ladder (int n) = int (n + k)" "0 < k" "n + k \<le> 64" "k < 17"
    "n + k \<in> {12, 16, 20, 24, 32, 48, 64}"
proof -
  define k where "k = nat (fdcan_adapation_pad_ladder (int n)) - n"
  have "fdcan_adapation_pad_ladder (int n) = int (n + k)" "0 < k" "n + k \<le> 64" "k < 17"
    "n + k \<in> {12, 16, 20, 24, 32, 48, 64}"
    using assms by (auto simp: k_def fdcan_adapation_pad_ladder_def)
  then show ?thesis using that [of k] by blast
qed

text \<open>A packet shorter than 64 bytes is padded to a size a CAN FD frame can have, and
  removing the padding gives back exactly the packet.\<close>

theorem vllp_pad_unpad:
  assumes len: "0 < pb_buflen pb" "pb_buflen pb < 64" and room: "pb_offset pb + 64 \<le> PBUF_DATA_SIZE"
    and mem: "length (nb_mem nb (pb_data pb)) = PBUF_DATA_SIZE"
  shows "\<exists>pb' nb' d. vllp_pad pb nb = Some (pb', nb') \<and> pb_rd pb' 0 (pb_buflen pb') nb' = Some d \<and>
     length d \<in> {1, 2, 3, 4, 5, 6, 7, 8, 12, 16, 20, 24, 32, 48, 64} \<and> vllp_unpad d = pb_rd pb 0 (pb_buflen pb) nb"
proof (cases "pb_buflen pb > 8")
  case False
  let ?d = "take (pb_buflen pb) (drop (pb_offset pb) (nb_mem nb (pb_data pb)))"
  have "pb_rd pb 0 (pb_buflen pb) nb = Some ?d" "length ?d = pb_buflen pb"
    using False room mem by (simp_all add: pb_rd_def buf_slice_def)
  moreover have "pb_buflen pb \<in> {1, 2, 3, 4, 5, 6, 7, 8}" using False len by auto
  ultimately show ?thesis using False by (auto simp: vllp_pad_def vllp_unpad_def)
next
  case True
  let ?n = "pb_buflen pb" and ?m = "nb_mem nb (pb_data pb)"
  from fdcan_ladder_size [OF True len(2)] obtain k where k: "fdcan_adapation_pad_ladder (int ?n) = int (?n + k)"
    "0 < k" "?n + k \<le> 64" "k < 17" "?n + k \<in> {12, 16, 20, 24, 32, 48, 64}" .
  let ?i = "pb_offset pb + ?n + k - 1"
  let ?d = "take (?n + k) (drop (pb_offset pb) (take ?i ?m @ [of_nat k] @ drop (?i + 1) ?m))"
  have e: "nat (int (pb_offset pb + ?n) + int k - 1) = ?i" using k(2) by linarith
  have i: "?i + 1 = pb_offset pb + ?n + k" "?i < length ?m" using k room mem by auto
  have d: "?d = take (?n + k - 1) (drop (pb_offset pb) ?m) @ [of_nat k]"
    using i k(2) by (simp add: drop_take min_def)
  have "vllp_pad pb nb = Some (pb\<lparr>pb_pktlen := add16 (pb_pktlen pb) k, pb_buflen := ?n + k\<rparr>,
      nb\<lparr>nb_mem := (nb_mem nb)(pb_data pb := take ?i ?m @ [of_nat k] @ drop (?i + 1) ?m)\<rparr>)"
    using True k(1-3) room i e mem by (simp add: vllp_pad_def Let_def pbuf_append_def set_head_pktlen_def buf_copy_def)
  moreover have "vllp_unpad ?d = Some (take ?n (drop (pb_offset pb) ?m))"
  proof -
    have "unat (of_nat k :: u8) = k" using k(4) by (simp add: unat_of_nat)
    moreover have "length ?d = ?n + k" using i by simp
    moreover have "take ?n ?d = take ?n (drop (pb_offset pb) ?m)" using k(2) i unfolding d by (auto simp: min_def)
    ultimately show ?thesis using k(2) True unfolding d by (simp add: vllp_unpad_def Let_def)
  qed
  ultimately show ?thesis using k room mem True by (simp add: pb_rd_def buf_slice_def)
qed

theorem vllp_pad_unpad_witness:
  "\<exists>pb' nb' d. vllp_pad (demo_frag 112 5632 13 13 PBUF_SOP) demo_bufs = Some (pb', nb') \<and>
     pb_rd pb' 0 (pb_buflen pb') nb' = Some d \<and>
     length d \<in> {1, 2, 3, 4, 5, 6, 7, 8, 12, 16, 20, 24, 32, 48, 64} \<and>
     vllp_unpad d = pb_rd (demo_frag 112 5632 13 13 PBUF_SOP) 0 (pb_buflen (demo_frag 112 5632 13 13 PBUF_SOP)) demo_bufs"
  by (rule vllp_pad_unpad) (simp_all add: demo_frag_def demo_bufs_def PBUF_DATA_SIZE_def)

section \<open>Sequence bits\<close>

text \<open>Receiving a fragment leaves the sequence bits to \<^const>\<open>vllp_rx_data\<close>.\<close>

lemma v_SE_upd [simp]: "v_SE (upd_chan vc f v) = v_SE v" "v_SE (set_nb nb v) = v_SE v"
  by (simp_all add: upd_chan_def set_nb_def)

lemma v_SE_net_close:
  "vllp_channel_net_close ops vc v = Some v' \<Longrightarrow> v_SE v' = v_SE v" for v v' :: "'a vllp"
  by (auto simp: vllp_channel_net_close_def vllp_channel_maybe_destroy_def vllp_channel_destroy_def Let_def
      Option.bind_eq_Some_conv split: if_split_asm)

lemma v_SE_handle_cmc_open: "v_SE (snd (handle_cmc_open ops t n v)) = v_SE v" for v :: "'a vllp"
  by (auto simp: handle_cmc_open_def vllp_gen_channel_crc_def vllp_channel_make_def cmc_open_service_def Let_def
      split: option.split list.split prod.split)

lemma v_SE_handle_cmc:
  fixes v v' :: "'a vllp"
  assumes "handle_cmc ops cmc pb v = Some (err, v')" shows "v_SE v' = v_SE v"
proof -
  have send: "send_cmc_message cmc p op t e u = Some u' \<Longrightarrow> v_SE u' = v_SE u" for p op t e and u u' :: "'a vllp"
    by (auto simp: send_cmc_message_def Let_def Option.bind_eq_Some_conv)
  have close: "handle_cmc_close ops cmc p t d u = Some (e, u') \<Longrightarrow> v_SE u' = v_SE u" for p t d e and u u' :: "'a vllp"
    by (auto simp: handle_cmc_close_def Option.bind_eq_Some_conv dest: v_SE_net_close split: option.split_asm if_split_asm)
  obtain p where p: "(case pb of [] \<Rightarrow> None | p # _ \<Rightarrow> Some p) = Some p" using assms by (auto simp: handle_cmc_def Option.bind_eq_Some_conv)
  show ?thesis
  proof (cases "pb_buflen p < 1")
    case True
    then show ?thesis using assms p by (auto simp: handle_cmc_def Option.bind_eq_Some_conv)
  next
    case False
    obtain u8s where u: "pb_rd p 0 (pb_buflen p) (v_nb v) = Some u8s" using assms p False by (auto simp: handle_cmc_def Option.bind_eq_Some_conv)
    obtain e w where h: "handle_cmc_open ops (unat (hd u8s AND 0xf)) (tl u8s) v = (e, w)" by fastforce
    then have "v_SE w = v_SE v" using v_SE_handle_cmc_open [of ops _ _ v] by (metis snd_conv)
    then show ?thesis
      using assms p False u h by (auto simp: handle_cmc_def Let_def Option.bind_eq_Some_conv dest!: send close split: if_splits)
  qed
qed

lemma v_SE_receive:
  fixes v v' :: "'a vllp"
  assumes "vllp_channel_receive ops ch d v = Some (err, v')" shows "v_SE v' = v_SE v"
proof -
  have "vllp_complete ops vc c rxq u = Some (e, u') \<Longrightarrow> v_SE u' = v_SE u" for vc c rxq e and u u' :: "'a vllp"
    by (erule vllp_complete_cases) (auto simp: Let_def net_task_raise_def dest: v_SE_handle_cmc split: if_split_asm)
  then show ?thesis using assms
    by (fastforce simp: vllp_channel_receive_def Let_def Option.bind_eq_Some_conv split: if_split_asm option.split_asm)
qed

lemma we_can_accept_toggle: "(x XOR VLLP_HDR_E) AND VLLP_HDR_E = 0 \<longleftrightarrow> x AND VLLP_HDR_E \<noteq> 0"
proof -
  have b: "y AND VLLP_HDR_E = 0 \<longleftrightarrow> \<not> bit y 6" for y
    using bit_iff_and_push_bit_not_eq_0 [of y 6] by (simp add: VLLP_HDR_E_def)
  have "bit VLLP_HDR_E 6" by (simp add: VLLP_HDR_E_def)
  then show ?thesis unfolding b by (simp add: bit_simps)
qed

text \<open>
  What the server has received: the sequence bit it expects and, of each channel, the reassembly
  queue and the seed of the next message's checksum. \<open>rx_kept v v'\<close>: nothing was received
  between the two states, though channels may have been released.
\<close>

definition v_E :: "'a vllp \<Rightarrow> bool" where
  "v_E v \<longleftrightarrow> v_SE v AND VLLP_HDR_E \<noteq> 0"

definition chan_rx :: "vllp_channel \<Rightarrow> pbuf list \<times> u32" where
  "chan_rx c = (vc_rxq c, vc_rx_iv c)"

definition rx_state :: "'a vllp \<Rightarrow> bool \<times> u32 \<times> (nat \<Rightarrow> (pbuf list \<times> u32) option)" where
  "rx_state v = (v_E v, v_rxid v, \<lambda>vc. map_option chan_rx (v_chan v vc))"

definition rx_kept :: "'a vllp \<Rightarrow> 'a vllp \<Rightarrow> bool" where
  "rx_kept v v' \<longleftrightarrow> v_E v' = v_E v \<and> v_rxid v' = v_rxid v \<and>
     (\<forall>vc. v_chan v' vc = None \<or> map_option chan_rx (v_chan v' vc) = map_option chan_rx (v_chan v vc))"

lemma rx_kept_refl [simp]: "rx_kept v v" by (simp add: rx_kept_def)

lemma rx_kept_trans: "rx_kept u v \<Longrightarrow> rx_kept v w \<Longrightarrow> rx_kept u w"
  unfolding rx_kept_def by (metis option.map_disc_iff)

lemma rx_kept_eq: "rx_state v' = rx_state v \<Longrightarrow> rx_kept v v'"
  by (simp add: rx_kept_def rx_state_def fun_eq_iff)

lemma rx_kept_cong: "rx_state v' = rx_state v \<Longrightarrow> rx_state w' = rx_state w \<Longrightarrow> rx_kept v' w' = rx_kept v w"
  unfolding rx_kept_def rx_state_def by (simp add: fun_eq_iff) (metis option.map_disc_iff)

lemma rx_set_nb [simp]: "rx_state (set_nb nb v) = rx_state v"
  by (simp add: rx_state_def set_nb_def v_E_def)

lemma rx_upd [simp]:
  "rx_state (v\<lparr>v_ack_timer := t\<rparr>) = rx_state v" "rx_state (v\<lparr>v_rtx_timer := t\<rparr>) = rx_state v" "rx_state (v\<lparr>v_timeout_timer := t\<rparr>) = rx_state v"
  "rx_state (v\<lparr>v_tx_buf := b\<rparr>) = rx_state v" "rx_state (v\<lparr>v_tx_len := n\<rparr>) = rx_state v" "rx_state (v\<lparr>v_tx_channel := n\<rparr>) = rx_state v"
  "rx_state (v\<lparr>v_remote_flow := f\<rparr>) = rx_state v" "rx_state (v\<lparr>v_channels := l\<rparr>) = rx_state v" "rx_state (v\<lparr>v_established := l\<rparr>) = rx_state v"
  "rx_state (v\<lparr>v_local_flow := f\<rparr>) = rx_state v" "rx_state (v\<lparr>v_tx_local_flow := f\<rparr>) = rx_state v" "rx_state (v\<lparr>v_connected := k\<rparr>) = rx_state v"
  "rx_state (v\<lparr>v_net := dn\<rparr>) = rx_state v" "rx_state (v\<lparr>v_app := a\<rparr>) = rx_state v" "rx_state (v\<lparr>v_blocks := l\<rparr>) = rx_state v"
  "rx_state (v\<lparr>v_signals := g\<rparr>) = rx_state v" "rx_state (v\<lparr>v_tasks := ts\<rparr>) = rx_state v" "rx_state (v\<lparr>v_now := t\<rparr>) = rx_state v"
  by (simp_all add: rx_state_def v_E_def)

lemma rx_upd_S [simp]: "rx_state (v\<lparr>v_SE := v_SE u XOR VLLP_HDR_S\<rparr>) = rx_state (v\<lparr>v_SE := v_SE u\<rparr>)"
proof -
  have b: "y AND VLLP_HDR_E = 0 \<longleftrightarrow> \<not> bit y 6" for y
    using bit_iff_and_push_bit_not_eq_0 [of y 6] by (simp add: VLLP_HDR_E_def)
  have "\<not> bit VLLP_HDR_S 6" by (simp add: VLLP_HDR_S_def)
  then show ?thesis by (simp add: rx_state_def v_E_def b bit_simps)
qed

lemma rx_upd_chan: "(\<And>c. chan_rx (f c) = chan_rx c) \<Longrightarrow> rx_state (upd_chan vc f v) = rx_state v"
  by (auto simp: rx_state_def v_E_def upd_chan_def fun_eq_iff option.map_comp comp_def)

lemma rx_upd_chan_fields [simp]:
  "rx_state (upd_chan vc (\<lambda>c. c\<lparr>vc_txq := q\<rparr>) v) = rx_state v"
  "rx_state (upd_chan vc (\<lambda>c. c\<lparr>vc_txq := vc_txq c @ q\<rparr>) v) = rx_state v"
  "rx_state (upd_chan vc (\<lambda>c. c\<lparr>vc_tx_iv := vc_tx_iv c + 1\<rparr>) v) = rx_state v"
  "rx_state (upd_chan vc (\<lambda>c. c\<lparr>vc_state := st\<rparr>) v) = rx_state v"
  "rx_state (upd_chan vc (\<lambda>c. c\<lparr>vc_app_closed := n\<rparr>) v) = rx_state v"
  "rx_state (upd_chan vc (\<lambda>c. c\<lparr>vc_net_closed := True\<rparr>) v) = rx_state v"
  by (rule rx_upd_chan; simp add: chan_rx_def)+

lemma rx_net_task_raise: "net_task_raise vc s v = Some v' \<Longrightarrow> rx_state v' = rx_state v"
  by (auto simp: net_task_raise_def split: if_splits)

lemma rx_refresh: "vllp_refresh_local_flow_status ops v = Some (b, v') \<Longrightarrow> rx_state v' = rx_state v"
  by (auto simp: vllp_refresh_local_flow_status_def Option.bind_eq_Some_conv split: if_splits)

lemma rx_packet: "vllp_packet pb v = Some (pb', v') \<Longrightarrow> rx_state v' = rx_state v"
  by (auto simp: vllp_packet_def Option.bind_eq_Some_conv)

lemma rx_tx_ack: "vllp_tx_ack pb v = Some (pb', v') \<Longrightarrow> rx_state v' = rx_state v"
  by (auto simp: vllp_tx_ack_def Let_def Option.bind_eq_Some_conv dest!: rx_packet split: if_splits)

lemma rx_send_cmc: "send_cmc_message cmc pb op t e v = Some v' \<Longrightarrow> rx_state v' = rx_state v"
  by (auto simp: send_cmc_message_def Let_def Option.bind_eq_Some_conv)

lemma rx_tx: "vllp_tx pb v = Some (pb', v') \<Longrightarrow> rx_state v' = rx_state v"
  by (cases "v_tx_buf v = []")
    (auto simp: vllp_tx_def Let_def Option.bind_eq_Some_conv if_None_eq_Some dest!: rx_packet split: list.splits
      simp del: split_paired_Ex)

lemma rx_fragment: "vllp_fragment pb v = Some (pb', v') \<Longrightarrow> rx_state v' = rx_state v"
  by (auto simp: vllp_fragment_def Let_def dest!: rx_tx split: list.splits)

lemma rx_ack_payload: "vllp_ack_payload pb v = Some (pb', v') \<Longrightarrow> rx_state v' = rx_state v"
  by (auto simp: vllp_ack_payload_def Let_def Option.bind_eq_Some_conv dest!: rx_fragment split: if_splits)

lemma rx_channel_tx: "vllp_channel_tx vc pb reuse v = Some (r, v') \<Longrightarrow> rx_state v' = rx_state v"
  by (auto simp: vllp_channel_tx_def Let_def Option.bind_eq_Some_conv dest!: rx_fragment)

lemma rx_tx_close: "vllp_tx_close vc v = Some (e, v') \<Longrightarrow> rx_state v' = rx_state v"
  by (auto simp: vllp_tx_close_def Let_def Option.bind_eq_Some_conv case_prod_unfold dest!: rx_send_cmc rx_channel_tx split: if_split_asm)

lemma kept_maybe_destroy: "vllp_channel_maybe_destroy vc v = Some (b, v') \<Longrightarrow> rx_kept v v'"
  by (auto simp: vllp_channel_maybe_destroy_def vllp_channel_destroy_def Option.bind_eq_Some_conv rx_kept_def v_E_def set_nb_def split: if_split_asm)

lemma kept_net_close:
  fixes v v' :: "'a vllp"
  assumes "vllp_channel_net_close ops vc v = Some v'" shows "rx_kept v v'"
proof -
  define u where "u = (upd_chan vc (\<lambda>c. c\<lparr>vc_net_closed := True\<rparr>) (v\<lparr>v_app := op_close ops vc (v_app v)\<rparr>))\<lparr>v_channels := remove1 vc (v_channels v)\<rparr>"
  have "v' = v \<or> (\<exists>b. vllp_channel_maybe_destroy vc u = Some (b, v'))"
    using assms by (auto simp: vllp_channel_net_close_def Let_def Option.bind_eq_Some_conv u_def split: if_split_asm)
  moreover have "rx_state u = rx_state v" by (simp add: u_def)
  ultimately show ?thesis using kept_maybe_destroy rx_kept_cong [of u v v' v'] by auto
qed

lemma kept_close_all: "vllp_close_all ops vcs v = Some v' \<Longrightarrow> rx_kept v v'"
  by (induction ops vcs v rule: vllp_close_all.induct)
    (auto simp: Option.bind_eq_Some_conv dest: kept_net_close intro: rx_kept_trans split: if_split_asm)

lemma kept_disconnect:
  fixes v v' :: "'a vllp"
  assumes "vllp_disconnect ops v = Some v'" shows "rx_kept v v'"
proof (cases "v_connected v")
  case True
  define u where "u = v\<lparr>v_ack_timer := 0, v_rtx_timer := 0, v_timeout_timer := 0\<rparr>"
  have eq: "vllp_disconnect ops v = do {
      w \<leftarrow> vllp_close_all ops (v_channels u) u;
      nb \<leftarrow> (if v_tx_buf w \<noteq> [] then pbuf_free (v_tx_buf w) (v_nb w) else Some (v_nb w));
      Some (((set_nb nb w)\<lparr>v_tx_buf := []\<rparr>)\<lparr>v_tx_len := 0, v_tx_channel := 0, v_connected := False\<rparr>) }"
    using True by (simp add: vllp_disconnect_def Let_def u_def)
  obtain w where w: "vllp_close_all ops (v_channels u) u = Some w" "rx_state v' = rx_state w"
    using assms unfolding eq by (auto simp: Option.bind_eq_Some_conv)
  have "rx_state u = rx_state v" by (simp add: u_def)
  then show ?thesis using kept_close_all [OF w(1)] rx_kept_cong [OF _ w(2)] by blast
qed (use assms in \<open>simp add: vllp_disconnect_def\<close>)

lemma kept_tx_loop: "vllp_tx_loop ops vcs reuse v = Some (r, v') \<Longrightarrow> rx_kept v v'" for v v' :: "'a vllp"
proof (induction vcs arbitrary: reuse v)
  case Nil
  then show ?case by (auto dest!: rx_tx_ack rx_kept_eq split: if_split_asm)
next
  case (Cons vc vcs)
  obtain c where c: "v_chan v vc = Some c" using Cons.prems by (auto simp: Option.bind_eq_Some_conv)
  have more: "rx_kept v v'" if "vllp_tx_loop ops vcs re u = Some (r, v')" "rx_state u = rx_state v" for re and u :: "'a vllp"
    using Cons.IH [OF that(1)] rx_kept_cong [OF that(2)] by blast
  have sent: "rx_kept v v'" if "vllp_channel_tx vc p reuse u = Some (r, v')" "rx_state u = rx_state v" for p and u :: "'a vllp"
    using rx_channel_tx [OF that(1)] that(2) by (simp add: rx_kept_eq)
  show ?case
  proof (cases "vc_app c")
    case False
    then show ?thesis using Cons.prems c
      by (auto simp: Let_def case_prod_unfold intro: more sent split: if_split_asm)
  next
    case app: True
    show ?thesis
    proof (cases "vc_app_closed c = 1")
      case False
      then show ?thesis using Cons.prems c app
        by (auto simp: Let_def case_prod_unfold intro: more sent split: if_split_asm)
    next
      case True
      obtain e u where u: "vllp_tx_close vc v = Some (e, u)" using Cons.prems c app True by (auto simp: Option.bind_eq_Some_conv)
      note ru = rx_tx_close [OF u]
      show ?thesis
      proof (cases "e = 0")
        case e: False
        then show ?thesis using Cons.prems c app True u ru by (auto intro: more)
      next
        case e: True
        then obtain b where "vllp_channel_maybe_destroy vc (upd_chan vc (\<lambda>c. c\<lparr>vc_app_closed := 2\<rparr>) u) = Some (b, v')"
          using Cons.prems c app True u by (auto simp: Let_def Option.bind_eq_Some_conv)
        then show ?thesis using kept_maybe_destroy rx_kept_cong [of "upd_chan vc (\<lambda>c. c\<lparr>vc_app_closed := 2\<rparr>) u" v v' v'] ru by auto
      qed
    qed
  qed
qed

lemma kept_maybe_tx: "vllp_maybe_tx ops reuse v = Some (r, v') \<Longrightarrow> rx_kept v v'"
  by (auto simp: vllp_maybe_tx_def dest: kept_tx_loop split: if_split_asm)

text \<open>
  The bytes of a packet as \<^const>\<open>vllp_rx\<close> reads them, a packet whose sequence bit S is \<open>s\<close> or that has no readable
  header, and a data packet that the connection expects and whose channel takes it without an error.
\<close>

definition vllp_bytes :: "pbuf list \<Rightarrow> 'a vllp \<Rightarrow> bytes option" where
  "vllp_bytes pb v = (case pb of [] \<Rightarrow> None
     | p # _ \<Rightarrow> do { u8s \<leftarrow> pb_rd p 0 (pb_buflen p) (v_nb v); if length u8s < 1 then None else vllp_unpad u8s })"

definition same_bit :: "u8 \<Rightarrow> pbuf list \<Rightarrow> 'a vllp \<Rightarrow> bool" where
  "same_bit s pb v \<longleftrightarrow> (case vllp_bytes pb v of None \<Rightarrow> True | Some d \<Rightarrow> hd d \<noteq> VLLP_SYN \<and> hd d AND VLLP_HDR_S = s)"

definition vllp_taken :: "'a vllp_ops \<Rightarrow> pbuf list \<Rightarrow> 'a vllp \<Rightarrow> bool" where
  "vllp_taken ops pb v \<longleftrightarrow>
     (case do {
        (_, w) \<leftarrow> vllp_refresh_local_flow_status ops (v\<lparr>v_timeout_timer := v_now v + of_nat (v_timeout v * 1000000)\<rparr>);
        d \<leftarrow> vllp_bytes pb w;
        if v_connected w \<and> hd d AND 0xf \<noteq> 0xf \<and> vllp_we_can_accept (hd d) w
        then vllp_channel_receive ops (unat (hd d AND 0xf)) d w else None
      } of None \<Rightarrow> False | Some (err, _) \<Rightarrow> err = 0)"

lemma accept_E: "vllp_we_can_accept h v \<longleftrightarrow> (h AND VLLP_HDR_S = 0) = (\<not> v_E v)"
  by (simp add: vllp_we_can_accept_def v_E_def)

lemma rx_connected_rest:
  fixes v v' x :: "'a vllp"
  assumes rx: "vllp_rx_connected ops p pb v = Some (r, v')" and con: "v_connected v"
    and x: "(if hd p AND 0xf \<noteq> 0xf then vllp_rx_data ops p (vllp_we_can_accept (hd p) v) v else Some (True, v)) = Some (True, x)"
  shows "rx_kept x v'"
proof -
  define pa where "pa = ((hd p AND VLLP_HDR_E = 0) \<noteq> (v_SE v AND VLLP_HDR_S = 0))"
  note def = vllp_rx_connected_def Let_def pa_def [symmetric]
  obtain pb' and u :: "'a vllp" where
    p: "(if v_tx_buf x \<noteq> [] then if \<not> pa then Some (pb, x\<lparr>v_rtx_timer := v_now x + 1000\<rparr>) else vllp_ack_payload pb x
         else Some (pb, x)) = Some (pb', u)" and u: "vllp_maybe_tx ops pb' u = Some (r, v')"
    using rx con x unfolding def by (auto simp: Option.bind_eq_Some_conv simp del: split_paired_Ex)
  from p have "rx_state u = rx_state x" by (auto split: if_split_asm dest: rx_ack_payload)
  then show ?thesis using kept_maybe_tx [OF u] rx_kept_cong by blast
qed

lemma kept_rx_connected:
  fixes v v' :: "'a vllp"
  assumes rx: "vllp_rx_connected ops p pb v = Some (r, v')" and na: "\<not> vllp_we_can_accept (hd p) v"
  shows "rx_kept v v'"
proof (cases "v_connected v")
  case False
  then show ?thesis using rx by (simp add: vllp_rx_connected_def Let_def)
next
  case True
  obtain y where y: "vllp_rx_data ops p False v = Some (True, y)" "rx_state y = rx_state v" by (simp add: vllp_rx_data_def Let_def)
  obtain x where x: "(if hd p AND 0xf \<noteq> 0xf then vllp_rx_data ops p (vllp_we_can_accept (hd p) v) v else Some (True, v)) = Some (True, x)"
    "rx_state x = rx_state v"
    using na y by (cases "hd p AND 0xf \<noteq> 0xf") auto
  then show ?thesis using rx_connected_rest [OF rx True x(1)] rx_kept_cong by blast
qed

lemma refresh_sel: "vllp_refresh_local_flow_status ops v = Some (b, v') \<Longrightarrow> v_nb v' = v_nb v \<and> v_connected v' = v_connected v"
  by (auto simp: vllp_refresh_local_flow_status_def Option.bind_eq_Some_conv v_nb_def split: if_splits)

lemma kept_rx:
  fixes v v' :: "'a vllp"
  assumes rx: "vllp_rx ops pb v = Some (r, v')" and sb: "same_bit s pb v" and E: "(s = 0) \<noteq> (\<not> v_E v)"
  shows "rx_kept v v'"
proof -
  define v0 where "v0 = v\<lparr>v_timeout_timer := v_now v + of_nat (v_timeout v * 1000000)\<rparr>"
  note def = vllp_rx_def Let_def v0_def [symmetric]
  obtain b v1 where v1: "vllp_refresh_local_flow_status ops v0 = Some (b, v1)"
    using rx unfolding def by (auto simp: Option.bind_eq_Some_conv)
  have s1: "rx_state v1 = rx_state v" "v_nb v1 = v_nb v" using rx_refresh [OF v1] refresh_sel [OF v1] by (simp_all add: v0_def v_nb_def)
  have E1: "v_E v1 = v_E v" using s1(1) by (simp add: rx_state_def)
  obtain u8s where u: "(case pb of [] \<Rightarrow> Some [] | p # _ \<Rightarrow> pb_rd p 0 (pb_buflen p) (v_nb v1)) = Some u8s"
    using rx v1 unfolding def by (auto simp: Option.bind_eq_Some_conv simp del: split_paired_Ex)
  have "rx_kept v1 v'"
  proof (cases "length u8s < 1")
    case True
    then show ?thesis using rx v1 u unfolding def by simp
  next
    case len: False
    show ?thesis
    proof (cases "vllp_unpad u8s")
      case None
      then have "vllp_disconnect ops v1 = Some v'" using rx v1 u len unfolding def by (auto simp: Option.bind_eq_Some_conv)
      then show ?thesis by (rule kept_disconnect)
    next
      case (Some p)
      let ?w = "v1\<lparr>v_remote_flow := ucast (p ! 1) OR push_bit 8 (ucast (p ! 2))\<rparr>"
      have "vllp_bytes pb v = Some p" using u len Some s1(2) by (cases pb) (auto simp: vllp_bytes_def)
      then have h: "hd p \<noteq> VLLP_SYN" "hd p AND VLLP_HDR_S = s" using sb by (auto simp: same_bit_def)
      have na: "\<not> vllp_we_can_accept (hd p) v1" "\<not> vllp_we_can_accept (hd p) ?w"
        using E E1 h(2) by (auto simp: accept_E v_E_def)
      have "v' = v1 \<or> vllp_rx_connected ops p pb ?w = Some (r, v') \<or> vllp_rx_connected ops p pb v1 = Some (r, v')"
        using rx v1 u len Some h(1) unfolding def by (auto split: if_split_asm)
      moreover have "rx_kept ?w v' = rx_kept v1 v'" by (rule rx_kept_cong) simp_all
      ultimately show ?thesis using kept_rx_connected [OF _ na(1)] kept_rx_connected [OF _ na(2)] rx_kept_refl by blast
    qed
  qed
  then show ?thesis using rx_kept_cong [OF s1(1)] by blast
qed

lemma E_taken:
  fixes v v' :: "'a vllp"
  assumes rx: "vllp_rx ops pb v = Some (r, v')" and tk: "vllp_taken ops pb v"
  shows "\<exists>d. vllp_bytes pb v = Some d \<and> (hd d AND VLLP_HDR_S = 0) = (\<not> v_E v) \<and> v_E v' = (\<not> v_E v)"
proof -
  define v0 where "v0 = v\<lparr>v_timeout_timer := v_now v + of_nat (v_timeout v * 1000000)\<rparr>"
  obtain b w d z where w: "vllp_refresh_local_flow_status ops v0 = Some (b, w)" "vllp_bytes pb w = Some d"
    "v_connected w" "hd d AND 0xf \<noteq> 0xf" "vllp_we_can_accept (hd d) w" "vllp_channel_receive ops (unat (hd d AND 0xf)) d w = Some (0, z)"
    using tk unfolding vllp_taken_def v0_def [symmetric]
    by (auto simp: Option.bind_eq_Some_conv split: option.split_asm if_split_asm)
  have s1: "rx_state w = rx_state v" "v_nb w = v_nb v" using rx_refresh [OF w(1)] refresh_sel [OF w(1)] by (simp_all add: v0_def v_nb_def)
  have E1: "v_E w = v_E v" using s1(1) by (simp add: rx_state_def)
  have vb: "vllp_bytes pb v = Some d" using w(2) s1(2) by (simp add: vllp_bytes_def split: list.splits)
  obtain p ps u8s where u: "pb = p # ps" "pb_rd p 0 (pb_buflen p) (v_nb w) = Some u8s" "\<not> length u8s < 1" "vllp_unpad u8s = Some d"
    using w(2) by (auto simp: vllp_bytes_def Option.bind_eq_Some_conv split: list.splits if_split_asm)
  have low: "x AND 0xf = 0xf" if "x AND 0x1f = 0x1f" for x :: u8
  proof -
    have "x AND 0xf = (x AND 0x1f) AND 0xf" by (simp add: and.assoc)
    then show ?thesis using that by simp
  qed
  have hd: "hd d \<noteq> VLLP_SYN" "hd d AND 0x1f \<noteq> 0x1f" using w(4) low by (auto simp: VLLP_SYN_def)
  have rc: "vllp_rx_connected ops d pb w = Some (r, v')"
    using rx w(1) u hd unfolding vllp_rx_def v0_def [symmetric] Let_def by simp
  obtain x where x: "vllp_rx_data ops d True w = Some (True, x)" "v_SE x = v_SE z XOR VLLP_HDR_E"
    using w(6) by (simp add: vllp_rx_data_def Let_def)
  have Ex: "v_E x = (\<not> v_E w)" using x(2) v_SE_receive [OF w(6)] we_can_accept_toggle by (simp add: v_E_def)
  have "rx_kept x v'" by (rule rx_connected_rest [OF rc w(3)]) (use w(4,5) x(1) in simp)
  then show ?thesis using vb w(5) Ex E1 by (auto simp: rx_kept_def accept_E)
qed

text \<open>The steps of \<^const>\<open>vllp_step\<close>, with packets of one sequence bit only.\<close>

inductive vllp_same_bit :: "'a vllp_ops \<Rightarrow> u8 \<Rightarrow> 'a vllp \<Rightarrow> 'a vllp \<Rightarrow> bool" for ops s where
  same_input: "vllp_input ops sid pb v = Some (r, v') \<Longrightarrow> sid = v_rxid v \<longrightarrow> same_bit s pb v \<Longrightarrow> vllp_same_bit ops s v v'"
| same_ack: "vllp_ack_timer ops v = Some v' \<Longrightarrow> vllp_same_bit ops s v v'"
| same_rtx: "vllp_rtx_timer ops v = Some v' \<Longrightarrow> vllp_same_bit ops s v v'"
| same_timeout: "vllp_timeout_timer ops v = Some v' \<Longrightarrow> vllp_same_bit ops s v v'"
| same_task: "vc \<noteq> v_cmc v \<Longrightarrow> vllp_channel_task_cb ops vc signals v = Some v' \<Longrightarrow> vllp_same_bit ops s v v'"
| same_event: "vllp_net_event_cb vc signals v = Some v' \<Longrightarrow> vllp_same_bit ops s v v'"
| same_env: "vllp_same_bit ops s v (v\<lparr>v_net := dn, v_app := a, v_now := t, v_signals := sg, v_tasks := ts\<rparr>)"

lemma kept_task:
  fixes v v' :: "'a vllp"
  assumes tk: "vllp_channel_task_cb ops vc signals v = Some v'" shows "rx_kept v v'"
proof -
  obtain c where c: "v_chan v vc = Some c" using tk by (auto simp: vllp_channel_task_cb_def Option.bind_eq_Some_conv)
  show ?thesis
  proof (cases "signals AND PUSHPULL_EVENT_CLOSE \<noteq> 0 \<and> vc_app_closed c \<noteq> 0")
    case True
    then show ?thesis using tk c by (simp add: vllp_channel_task_cb_def)
  next
    case False
    define u where "u = (if signals AND PUSHPULL_EVENT_CLOSE \<noteq> 0 then upd_chan vc (\<lambda>c. c\<lparr>vc_app_closed := 1\<rparr>) v else v)"
    have su: "rx_state u = rx_state v" by (simp add: u_def)
    obtain chg u1 where u1: "vllp_refresh_local_flow_status ops u = Some (chg, u1)"
      using tk c False by (auto simp: vllp_channel_task_cb_def Let_def Option.bind_eq_Some_conv u_def [symmetric] split: if_split_asm)
    obtain r u2 where u2: "(if chg then vllp_tx_ack [] u1 else Some ([], u1)) = Some (r, u2)"
      using tk c False u1 by (auto simp: vllp_channel_task_cb_def Let_def Option.bind_eq_Some_conv u_def [symmetric] simp del: split_paired_Ex split: if_split_asm)
    have s: "rx_state u2 = rx_state v" using rx_refresh [OF u1] u2 rx_tx_ack su by (fastforce split: if_split_asm)
    obtain r' where "vllp_maybe_tx ops [] u2 = Some (r', v')"
      using tk c False u1 u2 by (auto simp: vllp_channel_task_cb_def Let_def Option.bind_eq_Some_conv u_def [symmetric] split: if_split_asm)
    then show ?thesis using kept_maybe_tx rx_kept_cong [OF s] by blast
  qed
qed

lemma kept_input:
  fixes v v' :: "'a vllp"
  assumes "vllp_input ops sid pb v = Some (r, v')" "sid = v_rxid v \<longrightarrow> same_bit s pb v" "(s = 0) \<noteq> (\<not> v_E v)"
  shows "rx_kept v v'"
proof (cases "v_rxid v = sid")
  case True
  then obtain u r' where "vllp_rx ops pb v = Some (r', u)" "rx_state v' = rx_state u"
    using assms(1) by (auto simp: vllp_input_def Option.bind_eq_Some_conv)
  then show ?thesis using kept_rx assms(2,3) True rx_kept_cong by blast
qed (use assms(1) in \<open>simp add: vllp_input_def\<close>)

lemma kept_step:
  fixes v v' :: "'a vllp"
  assumes "vllp_same_bit ops s v v'" "(s = 0) \<noteq> (\<not> v_E v)"
  shows "rx_kept v v'"
  using assms(1)
proof (cases rule: vllp_same_bit.cases)
  case (same_input sid pb r)
  then show ?thesis using kept_input assms(2) by blast
next
  case same_ack
  then have "rx_state v' = rx_state v" using rx_refresh rx_tx_ack by (fastforce simp: vllp_ack_timer_def Option.bind_eq_Some_conv)
  then show ?thesis by (rule rx_kept_eq)
next
  case same_rtx
  then have "rx_state v' = rx_state v" using rx_refresh rx_tx by (fastforce simp: vllp_rtx_timer_def Option.bind_eq_Some_conv)
  then show ?thesis by (rule rx_kept_eq)
next
  case same_timeout
  then show ?thesis using kept_disconnect by (simp add: vllp_timeout_timer_def)
next
  case (same_task vc signals)
  then show ?thesis using kept_task by blast
next
  case (same_event vc signals)
  then show ?thesis using rx_net_task_raise rx_kept_eq by (simp add: vllp_net_event_cb_def) blast
next
  case (same_env dn a t sg ts)
  then show ?thesis by (simp add: rx_kept_eq)
qed

text \<open>The same services with other functions for taking messages and for opening channels: where a step does not depend on
  them, it does not call them.\<close>

definition swap_rx :: "(nat \<Rightarrow> pbuf list \<Rightarrow> net_bufs \<Rightarrow> 'a \<Rightarrow> u32 \<times> net_bufs \<times> 'a) \<Rightarrow> (bytes \<Rightarrow> nat option) \<Rightarrow>
    (nat \<Rightarrow> nat \<Rightarrow> net_bufs \<Rightarrow> 'a \<Rightarrow> int \<times> net_bufs \<times> 'a) \<Rightarrow> 'a vllp_ops \<Rightarrow> 'a vllp_ops" where
  "swap_rx f g k ops = ops\<lparr>op_push := f, op_service_find := g, op_service_open := k\<rparr>"

lemma swap_rx_sel [simp]:
  "op_may_push (swap_rx f g k ops) = op_may_push ops" "op_pull (swap_rx f g k ops) = op_pull ops" "op_close (swap_rx f g k ops) = op_close ops"
  by (simp_all add: swap_rx_def)

lemma swap_rx_flow: "flow_bits (swap_rx f g k ops) v vcs b = flow_bits ops v vcs b"
  by (induction vcs arbitrary: b) (simp_all cong: if_cong)

lemma swap_rx_refresh: "vllp_refresh_local_flow_status (swap_rx f g k ops) = vllp_refresh_local_flow_status ops"
  by (rule ext) (simp add: vllp_refresh_local_flow_status_def swap_rx_flow)

lemma swap_rx_tx_loop: "vllp_tx_loop (swap_rx f g k ops) vcs = vllp_tx_loop ops vcs"
  by (induction vcs) (rule ext, rule ext, simp cong: if_cong)+

lemma swap_rx_net_close: "vllp_channel_net_close (swap_rx f g k ops) vc v = vllp_channel_net_close ops vc v"
  unfolding vllp_channel_net_close_def swap_rx_sel ..

lemma swap_rx_close_all: "vllp_close_all (swap_rx f g k ops) vcs = vllp_close_all ops vcs"
  by (induction vcs) (rule ext, simp add: swap_rx_net_close)+

lemma swap_rx_disconnect: "vllp_disconnect (swap_rx f g k ops) = vllp_disconnect ops"
  by (rule ext) (simp add: vllp_disconnect_def swap_rx_close_all)

lemma swap_rx_maybe_tx: "vllp_maybe_tx (swap_rx f g k ops) = vllp_maybe_tx ops"
  by (rule ext, rule ext) (simp add: vllp_maybe_tx_def swap_rx_tx_loop)

lemmas swap_rx_simps = swap_rx_refresh swap_rx_disconnect swap_rx_maybe_tx

lemma swap_rx_rx_connected: "\<not> vllp_we_can_accept (hd p) v \<Longrightarrow> vllp_rx_connected (swap_rx f g k ops) p pb v = vllp_rx_connected ops p pb v"
proof -
  assume na: "\<not> vllp_we_can_accept (hd p) v"
  have "vllp_rx_data (swap_rx f g k ops) p False v = vllp_rx_data ops p False v" by (simp add: vllp_rx_data_def)
  with na show ?thesis unfolding vllp_rx_connected_def Let_def swap_rx_simps by (simp cong: if_cong)
qed

lemma swap_rx_rx:
  fixes v :: "'a vllp"
  assumes sb: "same_bit s pb v" and E: "(s = 0) \<noteq> (\<not> v_E v)"
  shows "vllp_rx (swap_rx f g k ops) pb v = vllp_rx ops pb v"
proof -
  define v0 :: "'a vllp" where "v0 = v\<lparr>v_timeout_timer := v_now v + of_nat (v_timeout v * 1000000)\<rparr>"
  note def = vllp_rx_def Let_def v0_def [symmetric] swap_rx_simps
  show ?thesis
  proof (cases "vllp_refresh_local_flow_status ops v0")
    case None
    then show ?thesis unfolding def by simp
  next
    case (Some bw)
    then obtain b w where w: "vllp_refresh_local_flow_status ops v0 = Some (b, w)" by (cases bw) simp
    have s1: "rx_state w = rx_state v" "v_nb w = v_nb v" using rx_refresh [OF w] refresh_sel [OF w] by (simp_all add: v0_def v_nb_def)
    have na: "\<not> vllp_we_can_accept (hd p) w \<and> \<not> vllp_we_can_accept (hd p) (w\<lparr>v_remote_flow := q\<rparr>) \<and> hd p \<noteq> VLLP_SYN"
      if "pb = x # xs" "pb_rd x 0 (pb_buflen x) (v_nb w) = Some u8s" "\<not> length u8s < 1" "vllp_unpad u8s = Some p" for x xs u8s p q
    proof -
      have "vllp_bytes pb v = Some p" using that s1(2) by (simp add: vllp_bytes_def)
      then show ?thesis using sb E s1(1) by (auto simp: same_bit_def accept_E rx_state_def v_E_def)
    qed
    show ?thesis
    proof (cases pb)
      case Nil
      then show ?thesis unfolding def by (simp add: w)
    next
      case (Cons x xs)
      show ?thesis
      proof (cases "pb_rd x 0 (pb_buflen x) (v_nb w)")
        case None
        then show ?thesis unfolding def by (simp add: w Cons)
      next
        case u: (Some u8s)
        show ?thesis
        proof (cases "length u8s < 1 \<or> vllp_unpad u8s = None")
          case True
          then show ?thesis unfolding def by (auto simp: w Cons u)
        next
          case False
          then obtain p where p: "\<not> length u8s < 1" "vllp_unpad u8s = Some p" by auto
          note n = na [OF Cons u p]
          show ?thesis using p n [of "ucast (p ! 1) OR push_bit 8 (ucast (p ! 2))"]
            unfolding def by (cases "hd p AND 0x1f = 0x1f") (simp_all add: w Cons u swap_rx_rx_connected)
        qed
      qed
    qed
  qed
qed

lemma swap_rx_step:
  assumes "vllp_same_bit ops s v v'" "(s = 0) \<noteq> (\<not> v_E v)"
  shows "vllp_same_bit (swap_rx f g k ops) s v v'"
  using assms(1)
proof (cases rule: vllp_same_bit.cases)
  case (same_input sid pb r)
  then have "vllp_input (swap_rx f g k ops) sid pb v = Some (r, v')"
    using swap_rx_rx [OF _ assms(2)] by (cases "v_rxid v = sid") (simp_all add: vllp_input_def)
  then show ?thesis using same_input(2) by (rule vllp_same_bit.same_input)
next
  case same_ack
  then show ?thesis by (intro vllp_same_bit.same_ack) (simp add: vllp_ack_timer_def swap_rx_simps)
next
  case same_rtx
  then show ?thesis by (intro vllp_same_bit.same_rtx) (simp add: vllp_rtx_timer_def swap_rx_simps)
next
  case same_timeout
  then show ?thesis by (intro vllp_same_bit.same_timeout) (simp add: vllp_timeout_timer_def swap_rx_simps)
next
  case (same_task vc signals)
  have "vllp_channel_task_cb (swap_rx f g k ops) = vllp_channel_task_cb ops"
    by (intro ext) (simp only: vllp_channel_task_cb_def swap_rx_simps)
  then show ?thesis using same_task vllp_same_bit.same_task by metis
next
  case (same_event vc signals)
  then show ?thesis by (rule vllp_same_bit.same_event)
next
  case (same_env dn a t sg ts)
  then show ?thesis by (simp only: vllp_same_bit.same_env)
qed

text \<open>C13. A packet is taken at most once, as long as no packet with the other sequence bit and no request to
  connect comes between. Let a data packet that the connection expects arrive and let its
  channel take it. In every run of the server from then on, whatever timers fire and services do, in
  which every packet that arrives for the server has the same sequence bit S as that one and is not a SYN
  (or has no readable header), nothing is received: the expected bit stays turned, the reassembly queue and
  the checksum seed of every channel stay as they are unless the channel is released, and the run is
  one whatever functions take messages for the services and open channels, so none of them is called. Only
  the next packet, which has the other bit, turns the expected bit back; a copy
  delayed past it would be taken, as the protocol numbers packets with a single bit.\<close>

theorem vllp_no_duplicates:
  assumes tk: "vllp_taken ops pb v" and inp: "vllp_input ops (v_rxid v) pb v = Some (r, v1)" and d: "vllp_bytes pb v = Some d"
    and run: "(vllp_same_bit ops (hd d AND VLLP_HDR_S))\<^sup>*\<^sup>* v1 v2"
  shows "rx_kept v1 v2 \<and> (vllp_same_bit (swap_rx push svc_find svc_open ops) (hd d AND VLLP_HDR_S))\<^sup>*\<^sup>* v1 v2"
proof -
  let ?s = "hd d AND VLLP_HDR_S"
  obtain u r' where u: "vllp_rx ops pb v = Some (r', u)" "rx_state v1 = rx_state u"
    using inp by (auto simp: vllp_input_def Option.bind_eq_Some_conv)
  have E: "(?s = 0) \<noteq> (\<not> v_E v1)" using E_taken [OF u(1) tk] d u(2) by (auto simp: rx_state_def)
  from run show ?thesis
  proof (induction rule: rtranclp_induct)
    case (step y z)
    have "(?s = 0) \<noteq> (\<not> v_E y)" using E step.IH by (simp add: rx_kept_def)
    then show ?case using kept_step [OF step(2)] swap_rx_step [OF step(2)] step.IH rx_kept_trans by (meson rtranclp.rtrancl_into_rtrancl)
  qed simp
qed

section \<open>Reassembly\<close>

text \<open>A reassembly queue of at most one buffer that holds the given bytes.\<close>

definition rxq_holds :: "net_bufs \<Rightarrow> pbuf list \<Rightarrow> bytes \<Rightarrow> bool" where
  "rxq_holds nb q d \<longleftrightarrow>
     q = [] \<and> d = [] \<or>
     (\<exists>p. q = [p] \<and> pb_offset p = 0 \<and> pb_buflen p = length d \<and> pb_pktlen p = length d \<and> pb_flags p = 0 \<and>
        length (nb_mem nb (pb_data p)) = PBUF_DATA_SIZE \<and> take (length d) (nb_mem nb (pb_data p)) = d)"

lemma vllp_store_holds:
  assumes h: "rxq_holds nb q d" and len: "length (d @ x) \<le> PBUF_DATA_SIZE" and rdy: "q = [] \<Longrightarrow> bufs_ready nb"
  obtains q' nb' where "vllp_store q x nb = Some (Some q', nb')"
    "rxq_holds nb' (set_head_pktlen (add16 (pb_pktlen (hd q')) (length x)) q') (d @ x)" "q' \<noteq> []"
proof (cases "q = []")
  case True
  then have d: "d = []" using h by (auto simp: rxq_holds_def)
  from pbuf_make0_ready [OF rdy [OF True], of 0 False] obtain p nb1 where
    p: "pbuf_make0 0 False nb = Some ([p], nb1)" "nb_mem nb1 = nb_mem nb" "pb_offset p = 0" "pb_buflen p = 0"
      "pb_pktlen p = 0" "length (nb_mem nb (pb_data p)) = PBUF_DATA_SIZE" .
  show ?thesis
    by (rule that [of "[p\<lparr>pb_flags := 0, pb_buflen := length x\<rparr>]"])
      (use p len d True in \<open>auto simp: vllp_store_def buf_copy_def rxq_holds_def set_head_pktlen_def add16_def PBUF_DATA_SIZE_def\<close>)
next
  case False
  then obtain p where p: "q = [p]" "pb_offset p = 0" "pb_buflen p = length d" "pb_pktlen p = length d" "pb_flags p = 0"
      "length (nb_mem nb (pb_data p)) = PBUF_DATA_SIZE" "take (length d) (nb_mem nb (pb_data p)) = d"
    using h by (auto simp: rxq_holds_def)
  have m: "min (PBUF_DATA_SIZE - length d) (length x) = length x" using len by simp
  show ?thesis
    by (rule that [of "[p\<lparr>pb_buflen := length d + length x\<rparr>]" "nb\<lparr>nb_mem := (nb_mem nb)(pb_data p :=
          d @ x @ drop (length d + length x) (nb_mem nb (pb_data p)))\<rparr>"])
      (use p len in \<open>auto simp: vllp_store_def Let_def m buf_copy_def rxq_holds_def set_head_pktlen_def add16_def PBUF_DATA_SIZE_def\<close>)
qed

lemma vllp_mark_single: "vllp_mark [p] = [p\<lparr>pb_flags := PBUF_EOP OR PBUF_SOP\<rparr>]"
  by (simp add: vllp_mark_def Let_def)

lemma pbuf_trim_single:
  assumes "k \<le> pb_buflen p" "0 < k"
  shows "pbuf_trim [p] k nb = Some ([p\<lparr>pb_buflen := pb_buflen p - k, pb_pktlen := pb_pktlen p - k\<rparr>], nb)"
proof -
  have z: "pbuf_trim q 0 nb = Some (q, nb)" for q by (subst pbuf_trim.simps) simp
  show ?thesis using assms by (subst pbuf_trim.simps) (simp add: Let_def set_head_pktlen_def min_def z)
qed

fun vllp_receive_all :: "'a vllp_ops \<Rightarrow> nat \<Rightarrow> bytes list \<Rightarrow> 'a vllp \<Rightarrow> (int \<times> 'a vllp) option" where
  "vllp_receive_all ops ch [] v = Some (0, v)"
| "vllp_receive_all ops ch (fr # frs) v = do {
     (err, v) \<leftarrow> vllp_channel_receive ops ch fr v;
     if err \<noteq> 0 then Some (err, v) else vllp_receive_all ops ch frs v
   }"

lemma vllp_receive_all_snoc:
  "vllp_receive_all ops ch frs v = Some (0, v') \<Longrightarrow>
   vllp_receive_all ops ch (frs @ [fr]) v = vllp_channel_receive ops ch fr v'"
  by (induction frs arbitrary: v) (auto simp: Option.bind_eq_Some_conv split: if_splits Option.bind_split)

abbreviation queued :: "nat \<Rightarrow> pbuf list \<Rightarrow> net_bufs \<Rightarrow> 'a vllp \<Rightarrow> 'a vllp" where
  "queued vc q nb v \<equiv> upd_chan vc (\<lambda>c. c\<lparr>vc_rxq := q\<rparr>) (set_nb nb v)"

lemma find_queued [simp]: "vllp_channel_find (queued vc q nb v) ch = vllp_channel_find v ch"
  unfolding vllp_channel_find_def by (rule arg_cong2 [of _ _ _ _ List.find]) (auto simp: upd_chan_def set_nb_def option.map_comp o_def)

lemma queued_queued [simp]: "queued vc q nb (queued vc q' nb' v) = queued vc q nb v"
  by (auto simp: upd_chan_def set_nb_def option.map_comp o_def)

lemma queued_chan: "v_chan v vc = Some c \<Longrightarrow> v_chan (queued vc q nb v) vc = Some (c\<lparr>vc_rxq := q\<rparr>)"
  by (simp add: upd_chan_def set_nb_def)

lemma vllp_receive_fragments:
  fixes v :: "'a vllp"
  assumes "vllp_channel_find v ch = Some vc" "v_chan v vc = Some c" "\<not> vc_net_closed c"
    and "rxq_holds (v_nb v) (vc_rxq c) d" "vc_rxq c = [] \<Longrightarrow> bufs_ready (v_nb v)"
    and "list_all (\<lambda>fr. fr \<noteq> [] \<and> hd fr AND VLLP_HDR_L = 0) frs" "length (d @ concat (map tl frs)) \<le> PBUF_DATA_SIZE"
  shows "\<exists>q nb. vllp_receive_all ops ch frs v = Some (0, queued vc q nb v) \<and> rxq_holds nb q (d @ concat (map tl frs)) \<and>
    (q = [] \<longrightarrow> bufs_ready nb)"
  using assms
proof (induction frs arbitrary: v c d)
  case Nil
  have "queued vc (vc_rxq c) (v_nb v) v = v" using Nil.prems(2) by (simp add: upd_chan_def set_nb_def v_nb_def map_upd_triv)
  then show ?case using Nil.prems by (intro exI [of _ "vc_rxq c"] exI [of _ "v_nb v"]) simp
next
  case (Cons fr frs)
  have fr: "fr \<noteq> []" "hd fr AND VLLP_HDR_L = 0" "list_all (\<lambda>fr. fr \<noteq> [] \<and> hd fr AND VLLP_HDR_L = 0) frs"
    "length (d @ tl fr) \<le> PBUF_DATA_SIZE" "length ((d @ tl fr) @ concat (map tl frs)) \<le> PBUF_DATA_SIZE"
    using Cons.prems(6,7) by auto
  from vllp_store_holds [OF Cons.prems(4) fr(4) Cons.prems(5)] obtain q nb where
    st: "vllp_store (vc_rxq c) (tl fr) (v_nb v) = Some (Some q, nb)"
      "rxq_holds nb (set_head_pktlen (add16 (pb_pktlen (hd q)) (length (tl fr))) q) (d @ tl fr)" "q \<noteq> []" by blast
  define q' where "q' = set_head_pktlen (add16 (pb_pktlen (hd q)) (length (tl fr))) q"
  have q': "q' \<noteq> []" using st(3) by (cases q) (simp_all add: q'_def set_head_pktlen_def)
  have step: "vllp_channel_receive ops ch fr v = Some (0, queued vc q' nb v)"
    using Cons.prems(1-3) fr(1,2) st
    by (simp add: vllp_channel_receive_def buf_rd_def hd_conv_nth Let_def drop_Suc q'_def)
  have "\<exists>q2 nb2. vllp_receive_all ops ch frs (queued vc q' nb v) = Some (0, queued vc q2 nb2 (queued vc q' nb v)) \<and>
      rxq_holds nb2 q2 ((d @ tl fr) @ concat (map tl frs)) \<and> (q2 = [] \<longrightarrow> bufs_ready nb2)"
    by (rule Cons.IH [of _ "c\<lparr>vc_rxq := q'\<rparr>"])
      (use Cons.prems(1-3) st(2) [folded q'_def] fr(3,5) q' in \<open>simp_all add: queued_chan\<close>)
  then show ?case using step by simp
qed

text \<open>The last fragment of a message.\<close>

lemma vllp_receive_last:
  fixes v :: "'a vllp"
  assumes find: "vllp_channel_find v ch = Some vc" "v_chan v vc = Some c" "\<not> vc_net_closed c" "vc_app c" "vc \<noteq> v_cmc v"
    and flow: "chan_bit ch AND v_local_flow v \<noteq> 0" and fr: "fr \<noteq> []" "hd fr AND VLLP_HDR_L \<noteq> 0"
    and q: "rxq_holds (v_nb v) (vc_rxq c) d" "vc_rxq c = [] \<Longrightarrow> bufs_ready (v_nb v)" "length (d @ tl fr) \<le> PBUF_DATA_SIZE"
    and msg: "d @ tl fr = m @ le32 w"
  shows "\<exists>v'. vllp_channel_receive ops ch fr v = Some (if w = NOT (crc32 (vc_rx_iv c) m) then 0 else ERR_CHECKSUM_ERROR, v') \<and>
    (if w = NOT (crc32 (vc_rx_iv c) m) then
       \<exists>pb nb ev. pkt_bytes (nb_mem nb) [pb] = m \<and> op_push ops vc [pb] nb (v_app v) = (ev, v_nb v', v_app v') \<and>
         map_option vc_rx_iv (v_chan v' vc) = Some (vc_rx_iv c + 1)
     else v_app v' = v_app v)"
proof -
  from vllp_store_holds [OF q(1,3,2)] obtain q nb where
    st: "vllp_store (vc_rxq c) (tl fr) (v_nb v) = Some (Some q, nb)"
      "rxq_holds nb (set_head_pktlen (add16 (pb_pktlen (hd q)) (length (tl fr))) q) (d @ tl fr)" "q \<noteq> []" by blast
  have "m @ le32 w \<noteq> []" using length_le32 [of w] by (metis append_is_Nil_conv length_0_conv zero_neq_numeral)
  then obtain p where p: "set_head_pktlen (add16 (pb_pktlen (hd q)) (length (tl fr))) q = [p]" "pb_offset p = 0" "pb_buflen p = length m + 4"
     "length (nb_mem nb (pb_data p)) = PBUF_DATA_SIZE" "take (length m + 4) (nb_mem nb (pb_data p)) = m @ le32 w"
    using st(2) unfolding rxq_holds_def msg by auto
  define p' where "p' = p\<lparr>pb_flags := PBUF_EOP OR PBUF_SOP\<rparr>"
  define u where "u = upd_chan vc (\<lambda>c. c\<lparr>vc_rxq := []\<rparr>) (set_nb nb v)"
  have "length (m @ le32 w) \<le> PBUF_DATA_SIZE" using q(3) msg by simp
  then have crc: "calc_crc32 [p'] iv nb = Some (NOT (crc32 iv (m @ le32 w)))" for iv
    using p by (simp add: calc_crc32_def calc_crc32_chain_def p'_def pb_rd_def buf_slice_def)
  have rc: "vllp_channel_receive ops ch fr v = vllp_complete ops vc c [p] (set_nb nb v)"
    using find flow fr st p(1) by (simp add: vllp_channel_receive_def buf_rd_def hd_conv_nth Let_def drop_Suc)
  show ?thesis
  proof (cases "w = NOT (crc32 (vc_rx_iv c) m)")
    case False
    then have "vllp_complete ops vc c [p] (set_nb nb v) = Some (ERR_CHECKSUM_ERROR, u)"
      using crc [of "vc_rx_iv c"] crc32_trailer_iff [of "vc_rx_iv c" m w]
      by (simp add: vllp_complete_def vllp_mark_single Let_def p'_def u_def v_nb_def upd_chan_def set_nb_def)
    then show ?thesis using False rc by (auto simp: u_def upd_chan_def set_nb_def)
  next
    case True
    define pb where "pb = p'\<lparr>pb_buflen := length m, pb_pktlen := pb_pktlen p' - 4\<rparr>"
    have tr: "pbuf_trim [p'] 4 nb = Some ([pb], nb)"
      using p(3) pbuf_trim_single [of 4 p'] by (simp add: p'_def pb_def)
    have bytes: "pkt_bytes (nb_mem nb) [pb] = m"
      using p(2) take_take [of "length m" "length m + 4" "nb_mem nb (pb_data p)"]
      by (simp add: pkt_bytes_def frag_bytes_def pb_def p'_def p(5))
    obtain ev nb' a where push: "op_push ops vc [pb] nb (v_app v) = (ev, nb', a)" by (rule prod_cases3)
    define y where "y = upd_chan vc (\<lambda>c. c\<lparr>vc_rx_iv := vc_rx_iv c + 1\<rparr>) u"
    define x where "x = (set_nb nb' (set_nb nb y))\<lparr>v_app := a\<rparr>"
    have sel: "v_nb u = nb" "v_nb y = nb" "v_nb (set_nb nb y) = nb" "v_cmc (set_nb nb y) = v_cmc v" "v_app (set_nb nb y) = v_app v"
      "v_cmc y = v_cmc v" "v_app y = v_app v"
      by (simp_all add: y_def u_def v_nb_def upd_chan_def set_nb_def)
    have "vllp_complete ops vc c [p] (set_nb nb v) =
      (if ev \<noteq> 0 then net_task_raise vc ev x else Some x) \<bind> (\<lambda>v. Some (0, v))"
      using True crc [of "vc_rx_iv c"] crc32_trailer_iff [of "vc_rx_iv c" m w] find tr push
      unfolding vllp_complete_def vllp_mark_single p'_def [symmetric] u_def [symmetric] y_def [symmetric] Let_def sel
      by (simp add: x_def sel)
    then obtain v' where v': "vllp_complete ops vc c [p] (set_nb nb v) = Some (0, v')"
      "v_nb v' = v_nb x" "v_app v' = v_app x" "v_chan v' = v_chan x"
      by (cases "ev = 0") (simp_all add: net_task_raise_def v_nb_def)
    have "v_nb x = nb'" "v_app x = a" "map_option vc_rx_iv (v_chan x vc) = Some (vc_rx_iv c + 1)"
      using find(2) by (simp_all add: x_def y_def u_def v_nb_def upd_chan_def set_nb_def)
    then show ?thesis using True rc v' push bytes by auto
  qed
qed

text \<open>C11. Fragments that together make a message of at most one buffer and its trailing checksum
  are put together again: when the checksum fits, the service of the channel gets exactly the
  message, once, and the channel goes on to the next checksum seed; otherwise the receiver
  reports the error and the service gets nothing.\<close>

theorem vllp_reassembly:
  fixes v :: "'a vllp"
  assumes find: "vllp_channel_find v ch = Some vc" "v_chan v vc = Some c" "\<not> vc_net_closed c" "vc_app c" "vc \<noteq> v_cmc v"
    and flow: "chan_bit ch AND v_local_flow v \<noteq> 0" and idle: "vc_rxq c = []" "bufs_ready (v_nb v)"
    and frs: "list_all (\<lambda>fr. fr \<noteq> [] \<and> hd fr AND VLLP_HDR_L = 0) frs" "fr \<noteq> []" "hd fr AND VLLP_HDR_L \<noteq> 0"
    and msg: "concat (map tl (frs @ [fr])) = m @ le32 w" "length m + 4 \<le> PBUF_DATA_SIZE"
  shows "\<exists>v'. vllp_receive_all ops ch (frs @ [fr]) v = Some (if w = NOT (crc32 (vc_rx_iv c) m) then 0 else ERR_CHECKSUM_ERROR, v') \<and>
    (if w = NOT (crc32 (vc_rx_iv c) m) then
       \<exists>pb nb ev. pkt_bytes (nb_mem nb) [pb] = m \<and> op_push ops vc [pb] nb (v_app v) = (ev, v_nb v', v_app v') \<and>
         map_option vc_rx_iv (v_chan v' vc) = Some (vc_rx_iv c + 1)
     else v_app v' = v_app v)"
proof -
  have h: "rxq_holds (v_nb v) (vc_rxq c) []" using idle by (simp add: rxq_holds_def)
  have len: "length (concat (map tl frs) @ tl fr) \<le> PBUF_DATA_SIZE" using arg_cong [OF msg(1), of length] msg(2) by simp
  then obtain q nb where r: "vllp_receive_all ops ch frs v = Some (0, queued vc q nb v)"
      "rxq_holds nb q (concat (map tl frs))" "q = [] \<Longrightarrow> bufs_ready nb"
    using vllp_receive_fragments [OF find(1-3) h idle(2) frs(1), of ops] by auto
  have sel: "v_nb (queued vc q nb v) = nb" "v_cmc (queued vc q nb v) = v_cmc v" "v_app (queued vc q nb v) = v_app v"
    "v_local_flow (queued vc q nb v) = v_local_flow v" by (simp_all add: v_nb_def upd_chan_def set_nb_def)
  have m: "concat (map tl frs) @ tl fr = m @ le32 w" using msg(1) by simp
  have rx: "vc_rx_iv (c\<lparr>vc_rxq := q\<rparr>) = vc_rx_iv c" by simp
  show ?thesis
    unfolding vllp_receive_all_snoc [OF r(1)]
    by (rule vllp_receive_last [of "queued vc q nb v" ch vc "c\<lparr>vc_rxq := q\<rparr>" fr "concat (map tl frs)", unfolded rx sel])
      (use find flow frs(2,3) r(2,3) len m in \<open>simp_all add: queued_chan\<close>)
qed

text \<open>A server that gets a request to connect.\<close>

definition demo_ops :: "nat vllp_ops" where
  "demo_ops = \<lparr>op_may_push = (\<lambda>_ _. True), op_push = (\<lambda>_ _ nb a. (0, nb, a + 1)), op_pull = (\<lambda>_ nb a. ([], nb, a)),
     op_close = (\<lambda>_ a. a), op_service_find = (\<lambda>_. Some 0), op_service_open = (\<lambda>_ _ nb a. (0, nb, a))\<rparr>"

definition demo_net :: dsig_net where
  "demo_net = \<lparr>dn_bufs = \<lparr>nb_pbufs = \<lparr>pp_items = [], pp_avail = 0, pp_total = 1, pp_wakeups = 0\<rparr>,
      nb_datas = \<lparr>pp_items = [], pp_avail = 0, pp_total = 1, pp_wakeups = 0\<rparr>,
      nb_mem = (\<lambda>_. [0x0f, 2, 63, 1, 2, 3, 4] @ replicate 25 0)\<rparr>, dn_sendq = [], dn_raises = 0,
      dn_subs = [], dn_pending = [], dn_solo = None\<rparr>"

definition demo_syn :: "pbuf list" where
  "demo_syn = [\<lparr>pb_self = 16, pb_flags = 3, pb_credits = 0, pb_pktlen = 7, pb_offset = 0, pb_buflen = 7, pb_data = 512\<rparr>]"

definition demo_server :: "nat vllp" where
  "demo_server = the (vllp_server_create 5 6 64 30 demo_net 0 1000 [4, 8, 12])"

lemma demo_created: "vllp_server_create 5 6 64 30 demo_net 0 1000 [4, 8, 12] = Some demo_server"
  by (simp add: demo_server_def vllp_server_create_def vllp_channel_make_def Let_def)

lemmas demo_defs = demo_ops_def demo_net_def demo_syn_def vllp_consts PBUF_DATA_SIZE_def

lemma demo_server_ready:
  "v_rxid demo_server = 6" "v_mtu demo_server = 63" "\<not> v_connected demo_server" "v_net demo_server = demo_net"
  "v_channels demo_server = [8]" "v_cmc demo_server = 8" "v_timeout demo_server = 30" "v_now demo_server = 1000"
  by (simp_all add: demo_server_def vllp_server_create_def vllp_channel_make_def upd_chan_def Let_def)

lemma demo_accepts: "\<exists>v. vllp_input demo_ops 6 demo_syn demo_server = Some ([], v) \<and> v_connected v"
proof -
  have r: "vllp_refresh_local_flow_status demo_ops (demo_server\<lparr>v_timeout_timer := t\<rparr>) =
    Some (True, demo_server\<lparr>v_timeout_timer := t, v_local_flow := 0xffff\<rparr>)" for t
    by (simp add: vllp_refresh_local_flow_status_def demo_server_def vllp_server_create_def vllp_channel_make_def upd_chan_def Let_def)
  have p: "pb_rd (hd demo_syn) 0 7 (dn_bufs demo_net) = Some [0x0f, 2, 63, 1, 2, 3, 4]"
    by (simp add: pb_rd_def buf_slice_def demo_defs)
  have c: "(case demo_syn of [] \<Rightarrow> Some [] | p # _ \<Rightarrow> pb_rd p 0 (pb_buflen p) (v_nb (demo_server\<lparr>v_timeout_timer := t, v_local_flow := 65535\<rparr>))) =
      Some [0x0f, 2, 63, 1, 2, 3, 4]" for t
    using p by (simp add: demo_syn_def v_nb_def demo_server_ready)
  have ack: "\<exists>u. vllp_tx_ack demo_syn v = Some ([], u) \<and> v_connected u = v_connected v" if "v_net v = demo_net" for v :: "nat vllp"
    using that
    by (simp add: vllp_tx_ack_def vllp_packet_def set_nb_def v_nb_def pbuf_reset_def pbuf_append_def demo_defs Let_def
        set_head_pktlen_def add16_def buf_copy_def buf_slice_def vllp_append_crc_def dsig_emit_pbuf_def pbuf_prepend_def
        pb_wr_def dsig_send_def)
  have "\<exists>u. vllp_accept_syn demo_ops [0x0f, 2, 63, 1, 2, 3, 4] demo_syn v = Some ([], u) \<and> v_connected u"
    if "v_net v = demo_net" "v_mtu v = 63" "\<not> v_connected v" for v
  proof -
    define u where "u = v\<lparr>v_connected := True, v_SE := VLLP_HDR_E, v_crc_iv := le32_dec 1 2 3 4, v_channel_iv_cnt := 0\<rparr>"
    obtain x w where g: "vllp_gen_channel_crc u = (x, w)" by fastforce
    then have "v_net w = demo_net" "v_connected w" using that by (auto simp: vllp_gen_channel_crc_def u_def Let_def)
    then obtain y where "vllp_tx_ack demo_syn (upd_chan (v_cmc w) (\<lambda>c. c\<lparr>vc_tx_iv := x, vc_rx_iv := NOT x\<rparr>) w) = Some ([], y)" "v_connected y"
      using ack [of "upd_chan (v_cmc w) (\<lambda>c. c\<lparr>vc_tx_iv := x, vc_rx_iv := NOT x\<rparr>) w"] by (auto simp: upd_chan_def)
    then show ?thesis using that g unfolding u_def by (simp add: vllp_accept_syn_def VLLP_VERSION_def Let_def rd32_le_def)
  qed
  from this [of "demo_server\<lparr>v_timeout_timer := 30001000, v_local_flow := 65535\<rparr>"] show ?thesis
    by (auto simp: vllp_input_def vllp_rx_def Let_def demo_server_ready r c vllp_unpad_def VLLP_SYN_def)
qed

theorem vllp_channels_never_dangle_witness:
  "\<exists>v. vllp_input demo_ops 6 demo_syn demo_server = Some ([], v) \<and> v_connected v \<and> vllp_inv v"
proof -
  obtain v where v: "vllp_input demo_ops 6 demo_syn demo_server = Some ([], v)" "v_connected v" using demo_accepts by blast
  then have "(vllp_step demo_ops)\<^sup>*\<^sup>* demo_server v" by (blast intro: vllp_step.step_input)
  then show ?thesis using vllp_channels_never_dangle [OF demo_created] v by auto
qed

text \<open>The same server with an open service channel.\<close>

definition demo_chan :: vllp_channel where
  "demo_chan = \<lparr>vc_id = 3, vc_rxq = [], vc_txq = [], vc_tx_iv = 0, vc_rx_iv = 0, vc_state = ESTABLISHED, vc_app = True,
     vc_max_fragment_size = 64, vc_preferred_offset = 0, vc_app_closed = 0, vc_net_closed = False\<rparr>"

definition demo_busy :: "nat vllp" where
  "demo_busy = demo_server\<lparr>v_chan := (v_chan demo_server)(12 \<mapsto> demo_chan), v_channels := [12, 8], v_local_flow := 0xffff,
     v_net := demo_net\<lparr>dn_bufs := demo_bufs\<rparr>\<rparr>"

lemma demo_busy_ready:
  "vllp_channel_find demo_busy 3 = Some 12" "v_chan demo_busy 12 = Some demo_chan" "v_cmc demo_busy \<noteq> 12"
  "chan_bit 3 AND v_local_flow demo_busy \<noteq> 0" "bufs_ready (v_nb demo_busy)" "v_app demo_busy = 0" "v_SE demo_busy = 0"
  "\<not> vc_net_closed demo_chan" "vc_app demo_chan" "vc_rxq demo_chan = []" "vc_rx_iv demo_chan = 0"
  by (simp_all add: demo_busy_def demo_chan_def vllp_channel_find_def demo_server_ready chan_bit_def bufs_ready_def v_nb_def
      demo_bufs_def bufs_inv_def addrs_ok_def data_addrs_def self_addrs_def PBUF_DATA_SIZE_def)
    (simp_all add: demo_server_def vllp_server_create_def vllp_channel_make_def upd_chan_def Let_def)

theorem vllp_reassembly_witness:
  "\<exists>v'. vllp_receive_all demo_ops 3 ([[3, 1, 2]] @ [0x13 # 5 # le32 (NOT (crc32 0 [1, 2, 5]))]) demo_busy = Some (0, v') \<and>
     v_app v' = 1"
  using vllp_reassembly [OF demo_busy_ready(1,2,8,9) demo_busy_ready(3) [symmetric] demo_busy_ready(4,10,5),
      of "[[3, 1, 2]]" "0x13 # 5 # le32 (NOT (crc32 0 [1, 2, 5]))" "[1, 2, 5]" "NOT (crc32 0 [1, 2, 5])" demo_ops]
  by (simp add: VLLP_HDR_L_def PBUF_DATA_SIZE_def demo_busy_ready) (auto simp: demo_ops_def)

text \<open>The same server in a connection, with a packet waiting to be acknowledged, that gets a fragment twice.\<close>

definition demo_data :: "pbuf list" where
  "demo_data = [\<lparr>pb_self = 96, pb_flags = 3, pb_credits = 0, pb_pktlen = 3, pb_offset = 0, pb_buflen = 3, pb_data = 1024\<rparr>]"
definition demo_open :: "nat vllp" where
  "demo_open = demo_busy\<lparr>v_connected := True, v_tx_buf := demo_data,
     v_net := demo_net\<lparr>dn_bufs := demo_bufs\<lparr>nb_mem := (\<lambda>a. if a = 1024 then [3, 1, 2] else [0, 0, 0, 0])\<rparr>\<rparr>\<rparr>"

lemma demo_open_ready:
  "vllp_channel_find demo_open 3 = Some 12" "v_chan demo_open 12 = Some demo_chan" "v_connected demo_open" "v_tx_buf demo_open = demo_data" "v_SE demo_open = 0"
  "v_rxid demo_open = 6" "v_channels demo_open = [12, 8]" "v_cmc demo_open = 8" "v_local_flow demo_open = 0xffff" 
  "v_nb demo_open = demo_bufs\<lparr>nb_mem := (\<lambda>a. if a = 1024 then [3, 1, 2] else [0, 0, 0, 0])\<rparr>"
  using demo_busy_ready by (simp_all add: demo_open_def vllp_channel_find_def demo_busy_def demo_server_ready v_nb_def)

lemma demo_store: "vllp_store [] [1, 2] (v_nb demo_open) =
   Some (Some [\<lparr>pb_self = 100, pb_flags = 0, pb_credits = 0, pb_pktlen = 0, pb_offset = 0, pb_buflen = 2, pb_data = 4096\<rparr>],
    \<lparr>nb_pbufs = \<lparr>pp_items = [104, 108], pp_avail = 2, pp_total = 5, pp_wakeups = 0\<rparr>,
     nb_datas = \<lparr>pp_items = [4608, 5120], pp_avail = 2, pp_total = 5, pp_wakeups = 0\<rparr>,
     nb_mem = (\<lambda>a. if a = 1024 then [3, 1, 2] else [0, 0, 0, 0])(4096 := [1, 2, 0, 0])\<rparr>)"
  by (simp add: vllp_store_def demo_open_ready(10) demo_bufs_def pbuf_make0_def pbuf_make_irq_blocked0_def pbuf_get0_def pbuf_data_get0_def pbuf_pool_get_def buf_copy_def Let_def PBUF_DATA_SIZE_def)

lemma demo_handled:
  fixes v x :: "nat vllp"
  assumes v: "v_connected v" "v_SE v AND VLLP_HDR_S = 0" "v_rxid v = 6" "nb_mem (v_nb v) 1024 = [3, 1, 2]"
    and f: "vllp_refresh_local_flow_status demo_ops (v\<lparr>v_timeout_timer := v_now v + of_nat (v_timeout v * 1000000)\<rparr>) = Some (False, w)"
    and w: "v_connected w" "v_SE w = v_SE v" "v_nb w = v_nb v"
    and x: "vllp_rx_data demo_ops [3, 1, 2] (vllp_we_can_accept 3 w) w = Some (True, x)" "v_tx_buf x = demo_data"
  shows "\<exists>nb. vllp_input demo_ops 6 demo_data v = Some ([], set_nb nb (x\<lparr>v_rtx_timer := v_now x + 1000\<rparr>)) \<and> nb_mem nb = nb_mem (v_nb x)"
proof -
  have cs: "(case demo_data of [] \<Rightarrow> Some [] | p # _ \<Rightarrow> pb_rd p 0 (pb_buflen p) (v_nb w)) = Some [3, 1, 2]"
    using v(4) w(3) by (simp add: pb_rd_def buf_slice_def demo_data_def)
  have c: "vllp_rx_connected demo_ops [3, 1, 2] demo_data w = Some (demo_data, x\<lparr>v_rtx_timer := v_now x + 1000\<rparr>)"
    using w v(2) x by (simp add: vllp_rx_connected_def Let_def vllp_consts vllp_maybe_tx_def demo_data_def)
  have "vllp_rx demo_ops demo_data v = Some (demo_data, x\<lparr>v_rtx_timer := v_now x + 1000\<rparr>)"
    unfolding vllp_rx_def Let_def f bind.bind_lunit prod.case cs by (simp add: vllp_unpad_def VLLP_SYN_def c)
  moreover obtain nb where "pbuf_free demo_data (v_nb (x\<lparr>v_rtx_timer := v_now x + 1000\<rparr>)) = Some nb" "nb_mem nb = nb_mem (v_nb x)"
    by (simp add: v_nb_def pbuf_free_def demo_data_def pbuf_put_both_def pbuf_data_put_def pbuf_put_def pbuf_pool_put_def)
  moreover have "demo_data \<noteq> []" by (simp add: demo_data_def)
  ultimately show ?thesis using v(3) by (auto simp: vllp_input_def)
qed

lemma demo_refresh:
  fixes v :: "nat vllp"
  assumes "v_channels v = [12, 8]" "v_cmc v = 8" "v_local_flow v = 0xffff" "v_chan v 12 = Some c" "\<not> vc_net_closed c" "vc_app c"
  shows "vllp_refresh_local_flow_status demo_ops v = Some (False, v)"
  using assms by (simp add: vllp_refresh_local_flow_status_def demo_ops_def)

lemma demo_first: "vllp_taken demo_ops demo_data demo_open"
  "\<exists>v1. vllp_input demo_ops 6 demo_data demo_open = Some ([], v1) \<and> v_connected v1 \<and> v_SE v1 = VLLP_HDR_E \<and> v_rxid v1 = 6 \<and>
     nb_mem (v_nb v1) 1024 = [3, 1, 2] \<and> v_tx_buf v1 = demo_data \<and> v_channels v1 = [12, 8] \<and> v_cmc v1 = 8 \<and> v_local_flow v1 = 0xffff \<and>
     (\<exists>c. v_chan v1 12 = Some c \<and> \<not> vc_net_closed c \<and> vc_app c)"
proof -
  define w where "w = demo_open\<lparr>v_timeout_timer := v_now demo_open + of_nat (v_timeout demo_open * 1000000)\<rparr>"
  have w: "v_connected w" "v_SE w = 0" "v_nb w = v_nb demo_open" "v_chan w 12 = Some demo_chan" "v_tx_buf w = demo_data" "v_channels w = [12, 8]" "v_cmc w = 8"
    "v_local_flow w = 0xffff" "v_rxid w = 6"
    by (simp_all add: w_def demo_open_ready v_nb_def)
  have fi: "vllp_channel_find w 3 = Some 12" using demo_open_ready(1) by (simp add: w_def vllp_channel_find_def)
  have f: "vllp_refresh_local_flow_status demo_ops w = Some (False, w)" by (rule demo_refresh) (use w demo_busy_ready in auto)
  obtain q nb where st: "vllp_store [] [1, 2] (v_nb w) = Some (Some q, nb)" "nb_mem nb 1024 = [3, 1, 2]" using demo_store w(3) by simp
  define z where "z = queued 12 (set_head_pktlen (add16 (pb_pktlen (hd q)) 2) q) nb w"
  have rc: "vllp_channel_receive demo_ops 3 [3, 1, 2] w = Some (0, z)"
    using w st fi demo_busy_ready(8,10) by (simp add: vllp_channel_receive_def buf_rd_def VLLP_HDR_L_def Let_def z_def numeral_2_eq_2)
  have ac: "vllp_we_can_accept 3 w" by (simp add: vllp_we_can_accept_def w vllp_consts)
  have vb: "vllp_bytes demo_data w = Some [3, 1, 2]" using w(3) by (simp add: vllp_bytes_def demo_open_ready pb_rd_def buf_slice_def demo_data_def vllp_unpad_def)
  show "vllp_taken demo_ops demo_data demo_open"
    unfolding vllp_taken_def w_def [symmetric] using f vb rc ac w(1) by simp
  define x where "x = z\<lparr>v_tx_local_flow := v_tx_local_flow z AND NOT (chan_bit 3), v_SE := v_SE z XOR VLLP_HDR_E,
     v_remote_flow := v_remote_flow z AND NOT (chan_bit 3), v_ack_timer := v_now z + 1000\<rparr>"
  have z: "v_SE z = 0" "v_tx_buf z = demo_data" "v_connected z" "v_channels z = [12, 8]" "v_cmc z = 8" "v_local_flow z = 0xffff" "v_rxid z = 6" "v_nb z = nb"
    "v_chan z 12 = Some (demo_chan\<lparr>vc_rxq := set_head_pktlen (add16 (pb_pktlen (hd q)) 2) q\<rparr>)"
    using w by (simp_all add: z_def upd_chan_def set_nb_def v_nb_def)
  have x: "vllp_rx_data demo_ops [3, 1, 2] (vllp_we_can_accept 3 w) w = Some (True, x)"
    using rc ac by (simp add: vllp_rx_data_def Let_def x_def VLLP_HDR_F_def)
  obtain nb' where i: "vllp_input demo_ops 6 demo_data demo_open = Some ([], set_nb nb' (x\<lparr>v_rtx_timer := v_now x + 1000\<rparr>))"
    "nb_mem nb' = nb_mem nb"
    using demo_handled [of demo_open w x, folded w_def, OF _ _ _ _ f w(1) _ w(3) x] w z demo_open_ready by (auto simp: x_def v_nb_def)
  then show "\<exists>v1. vllp_input demo_ops 6 demo_data demo_open = Some ([], v1) \<and> v_connected v1 \<and> v_SE v1 = VLLP_HDR_E \<and> v_rxid v1 = 6 \<and>
     nb_mem (v_nb v1) 1024 = [3, 1, 2] \<and> v_tx_buf v1 = demo_data \<and> v_channels v1 = [12, 8] \<and> v_cmc v1 = 8 \<and> v_local_flow v1 = 0xffff \<and>
     (\<exists>c. v_chan v1 12 = Some c \<and> \<not> vc_net_closed c \<and> vc_app c)"
    using z st(2) demo_busy_ready(8,9) by (auto simp: x_def set_nb_def v_nb_def)
qed

theorem vllp_no_duplicates_witness:
  "\<exists>v1 v2. vllp_taken demo_ops demo_data demo_open \<and> vllp_input demo_ops 6 demo_data demo_open = Some ([], v1) \<and>
     vllp_input demo_ops 6 demo_data v1 = Some ([], v2) \<and> rx_kept v1 v2"
proof -
  obtain v1 c where i: "vllp_input demo_ops 6 demo_data demo_open = Some ([], v1)" and v1: "v_connected v1" "v_SE v1 = VLLP_HDR_E" "v_rxid v1 = 6"
    "nb_mem (v_nb v1) 1024 = [3, 1, 2]" "v_tx_buf v1 = demo_data" "v_channels v1 = [12, 8]" "v_cmc v1 = 8" "v_local_flow v1 = 0xffff"
    "v_chan v1 12 = Some c" "\<not> vc_net_closed c" "vc_app c" using demo_first(2) by blast
  have vb: "vllp_bytes demo_data v = Some [3, 1, 2]" if "nb_mem (v_nb v) 1024 = [3, 1, 2]" for v :: "nat vllp"
    using that by (simp add: vllp_bytes_def pb_rd_def buf_slice_def demo_data_def vllp_unpad_def)
  define w where "w = v1\<lparr>v_timeout_timer := v_now v1 + of_nat (v_timeout v1 * 1000000)\<rparr>"
  have f: "vllp_refresh_local_flow_status demo_ops w = Some (False, w)" by (rule demo_refresh) (use v1 in \<open>auto simp: w_def\<close>)
  obtain x where x: "vllp_rx_data demo_ops [3, 1, 2] (vllp_we_can_accept 3 w) w = Some (True, x)" "v_tx_buf x = demo_data"
    using v1 by (simp add: vllp_we_can_accept_def w_def vllp_consts vllp_rx_data_def Let_def)
  obtain v2 where j: "vllp_input demo_ops 6 demo_data v1 = Some ([], v2)"
    using demo_handled [of v1 w x, folded w_def, OF _ _ _ _ f _ _ _ x] v1 by (auto simp: w_def v_nb_def vllp_consts)
  have sb: "same_bit (hd [3, 1, 2] AND VLLP_HDR_S) demo_data v1" using vb [OF v1(4)] by (simp add: same_bit_def VLLP_SYN_def)
  have "(vllp_same_bit demo_ops (hd [3, 1, 2] AND VLLP_HDR_S))\<^sup>*\<^sup>* v1 v2" using vllp_same_bit.same_input [OF j] sb by blast
  then have "rx_kept v1 v2"
    using vllp_no_duplicates [OF demo_first(1) i [folded demo_open_ready(6)] vb] by (simp add: demo_open_ready)
  then show ?thesis using demo_first(1) i j by blast
qed

end
