(* ===== verification/Sched.thy ===== *)
theory Sched
  imports Mios_Prelude
begin

text \<open>
  The scheduler of \<^verbatim>\<open>src/kernel/task.c\<close> on one CPU: ready queues per priority, wait lists, mutexes,
  condition variables, sleeping with and without a timeout, the life of threads.

  Tasks, waitables, mutexes and wait multiplexers are named by their addresses. A mutex shares
  its address with the list of its waiters, and its lock word is that list together with the
  lock bit, so the word is 0 when the list is empty and the bit is clear. The timer of a
  sleeping thread lives on its stack: it is the expiry time of the thread, 0 when disarmed.
  \<^verbatim>\<open>schedule()\<close> asks for a switch, which comes as soon as interrupts allow: the flag \<open>pending\<close>.

  A function that blocks is cut where it gives the CPU away, \<^verbatim>\<open>schedule(); irq_permit(irq_lower())\<close>:
  one definition up to that point, one for what follows. Every other function runs with
  switching forbidden and is one step. The checks of \<^verbatim>\<open>ENABLE_TASK_DEBUG\<close> and the assertions are
  part of the model; \<^const>\<open>None\<close> is a check that fails. Floating point contexts, accounting and
  names are left out.
\<close>

section \<open>Data\<close>

datatype task_state = TASK_STATE_NONE | TASK_STATE_RUNNING | TASK_STATE_READY | TASK_STATE_SLEEPING
  | TASK_STATE_ZOMBIE | TASK_STATE_MUXED_SLEEP

record sched =
  t_state :: "nat \<Rightarrow> task_state"
  t_prio :: "nat \<Rightarrow> nat"
  t_flags :: "nat \<Rightarrow> u8"
  t_index :: "nat \<Rightarrow> nat"
  t_refcount :: "nat \<Rightarrow> nat"
  t_timer :: "nat \<Rightarrow> u64"
  current :: nat
  idle :: nat
  active_queues :: u32
  readyqueue :: "nat \<Rightarrow> nat list"
  w_list :: "nat \<Rightarrow> nat list"
  m_lock :: "nat \<Rightarrow> bool"
  t_mux :: "nat \<Rightarrow> nat"
  wm_which :: "nat \<Rightarrow> int"
  allthreads :: "nat list"
  blocks :: "nat list"
  pending :: bool

definition TASK_PRIOS :: nat where "TASK_PRIOS = 32"
definition TASK_THREAD :: u8 where "TASK_THREAD = 1"
definition TASK_DETACHED :: u8 where "TASK_DETACHED = 2"

definition set_state :: "nat \<Rightarrow> task_state \<Rightarrow> 'x sched_scheme \<Rightarrow> 'x sched_scheme" where
  "set_state t s st = st\<lparr>t_state := (t_state st)(t := s)\<rparr>"

definition schedule :: "'x sched_scheme \<Rightarrow> 'x sched_scheme" where
  "schedule st = st\<lparr>pending := True\<rparr>"

section \<open>Ready queues\<close>

definition task_is_on_readyqueue :: "nat \<Rightarrow> 'x sched_scheme \<Rightarrow> bool" where
  "task_is_on_readyqueue t st = list_ex (\<lambda>i. t \<in> set (readyqueue st i)) [0..<TASK_PRIOS]"

definition readyqueue_insert :: "nat \<Rightarrow> 'x sched_scheme \<Rightarrow> 'x sched_scheme option" where
  "readyqueue_insert t st =
     (let p = t_prio st t in
      if task_is_on_readyqueue t st then None
      else if (readyqueue st p = []) = bit (active_queues st) p then None
      else if t_state st t = TASK_STATE_READY then None
      else Some (st\<lparr>readyqueue := (readyqueue st)(p := readyqueue st p @ [t]),
                    active_queues := active_queues st OR push_bit p 1,
                    t_state := (t_state st)(t := TASK_STATE_READY)\<rparr>))"

text \<open>
  One round of the loop of \<^verbatim>\<open>task_switch\<close>. Either it ends with a thread on the CPU, or it has
  taken a task without a stack off its queue, which is run, and goes round again.
\<close>

definition task_switch_pick :: "'x sched_scheme \<Rightarrow> (nat \<times> 'x sched_scheme) option" where
  "task_switch_pick st = do {
     st \<leftarrow> (if t_state st (current st) = TASK_STATE_RUNNING then readyqueue_insert (current st) st else Some st);
     if active_queues st = 0 then Some (idle st, st)
     else do {
       let which = 31 - clz32 (active_queues st);
       case readyqueue st which of
         [] \<Rightarrow> None
       | task # q \<Rightarrow>
           if t_state st task \<noteq> TASK_STATE_READY then None
           else Some (task, st\<lparr>readyqueue := (readyqueue st)(which := q),
                  active_queues := (if q = [] then active_queues st AND NOT (push_bit (t_prio st task) 1)
                                    else active_queues st)\<rparr>)
     }
   }"

definition task_switch_round :: "'x sched_scheme \<Rightarrow> (nat option \<times> 'x sched_scheme) option" where
  "task_switch_round st = do {
     (task, st) \<leftarrow> task_switch_pick st;
     if t_flags st task AND TASK_THREAD \<noteq> 0 then
       Some (None, (set_state task TASK_STATE_RUNNING st)\<lparr>current := task\<rparr>)
     else Some (Some task, set_state task TASK_STATE_NONE st)
   }"

definition task_run :: "nat \<Rightarrow> 'x sched_scheme \<Rightarrow> 'x sched_scheme option" where
  "task_run t st = do {
     st \<leftarrow> (if t_state st t = TASK_STATE_NONE then readyqueue_insert t st else Some st);
     Some (schedule st)
   }"

section \<open>Waking up\<close>

definition list_remove :: "nat \<Rightarrow> 'x sched_scheme \<Rightarrow> 'x sched_scheme" where
  "list_remove t st = st\<lparr>w_list := \<lambda>w. remove1 t (w_list st w)\<rparr>"

definition task_wake :: "nat \<Rightarrow> 'x sched_scheme \<Rightarrow> 'x sched_scheme option" where
  "task_wake t st =
     (if t \<noteq> current st then readyqueue_insert t st else Some (set_state t TASK_STATE_RUNNING st))"

partial_function (option) task_wakeup_loop ::
  "nat \<Rightarrow> bool \<Rightarrow> bool \<Rightarrow> 'x sched_scheme \<Rightarrow> 'x sched_scheme option" where
  "task_wakeup_loop w all do_sched st =
     (case w_list st w of
        [] \<Rightarrow> Some (if do_sched then schedule st else st)
      | t # _ \<Rightarrow>
          if t_state st t = TASK_STATE_MUXED_SLEEP then do {
            let st = set_state t TASK_STATE_NONE (list_remove t st);
            let wm = t_mux st t;
            st \<leftarrow> (if wm_which st wm = -1
                  then task_wakeup_loop wm True False (st\<lparr>wm_which := (wm_which st)(wm := int (t_index st t))\<rparr>)
                  else Some st);
            task_wakeup_loop w all do_sched st
          } else if t_state st t \<noteq> TASK_STATE_SLEEPING then None
          else do {
            let st = list_remove t st;
            let do_sched = (do_sched \<or> t = current st \<or> t_prio st t \<ge> t_prio st (current st));
            st \<leftarrow> task_wake t st;
            if \<not> all then Some (if do_sched then schedule st else st)
            else task_wakeup_loop w all do_sched st
          })"

declare task_wakeup_loop.simps [code]

definition task_wakeup_sched_locked :: "nat \<Rightarrow> bool \<Rightarrow> 'x sched_scheme \<Rightarrow> 'x sched_scheme option" where
  "task_wakeup_sched_locked w all st = task_wakeup_loop w all False st"

definition task_wakeup :: "nat \<Rightarrow> bool \<Rightarrow> 'x sched_scheme \<Rightarrow> 'x sched_scheme option" where
  "task_wakeup w all st = task_wakeup_sched_locked w all st"

section \<open>Sleeping\<close>

definition task_prio_cmp :: "(nat \<Rightarrow> nat) \<Rightarrow> nat \<Rightarrow> nat \<Rightarrow> bool" where
  "task_prio_cmp prio a b = (prio a \<le> prio b)"

definition task_insert_wait_list :: "nat \<Rightarrow> nat \<Rightarrow> 'x sched_scheme \<Rightarrow> 'x sched_scheme" where
  "task_insert_wait_list w t st =
     st\<lparr>w_list := (w_list st)(w := list_insert_sorted (task_prio_cmp (t_prio st)) t (w_list st w))\<rparr>"

definition task_sleep_abs_sched_locked_timeout :: "nat \<Rightarrow> 'x sched_scheme \<Rightarrow> 'x sched_scheme option" where
  "task_sleep_abs_sched_locked_timeout t st =
     (if t_state st t = TASK_STATE_SLEEPING then do {
        st \<leftarrow> task_wake t (list_remove t st);
        Some (schedule st)
      } else Some st)"

definition task_sleep_sched_locked :: "nat \<Rightarrow> 'x sched_scheme \<Rightarrow> 'x sched_scheme option" where
  "task_sleep_sched_locked w st =
     (let cur = current st in
      if t_state st cur \<noteq> TASK_STATE_RUNNING then None
      else do {
        let st = set_state cur TASK_STATE_SLEEPING st;
        if task_is_on_readyqueue cur st then None
        else Some (schedule (task_insert_wait_list w cur st))
      })"

definition task_sleep_abs_sched_locked :: "nat \<Rightarrow> u64 \<Rightarrow> 'x sched_scheme \<Rightarrow> 'x sched_scheme option" where
  "task_sleep_abs_sched_locked w deadline st =
     (let cur = current st in
      if t_state st cur \<noteq> TASK_STATE_RUNNING then None
      else do {
        let st = set_state cur TASK_STATE_SLEEPING st;
        if task_is_on_readyqueue cur st then None
        else do {
          let st = st\<lparr>t_timer := (t_timer st)(cur := deadline)\<rparr>;
          Some (schedule (task_insert_wait_list w cur st))
        }
      })"

text \<open>What is left when a thread that slept with a timeout runs again: the result tells whether the
  timer had fired.\<close>

definition task_sleep_abs_done :: "'x sched_scheme \<Rightarrow> bool \<times> 'x sched_scheme" where
  "task_sleep_abs_done st =
     (t_timer st (current st) = 0, st\<lparr>t_timer := (t_timer st)(current st := 0)\<rparr>)"

definition task_sleep :: "nat \<Rightarrow> 'x sched_scheme \<Rightarrow> 'x sched_scheme option" where
  "task_sleep w st = task_sleep_sched_locked w st"

definition task_sleep_delta :: "nat \<Rightarrow> u64 \<Rightarrow> u64 \<Rightarrow> 'x sched_scheme \<Rightarrow> 'x sched_scheme option" where
  "task_sleep_delta w now useconds st = task_sleep_abs_sched_locked w (now + useconds) st"

definition task_sleep_deadline :: "nat \<Rightarrow> u64 \<Rightarrow> 'x sched_scheme \<Rightarrow> 'x sched_scheme option" where
  "task_sleep_deadline w deadline st = task_sleep_abs_sched_locked w deadline st"

definition task_sleep_until_timeout :: "nat \<Rightarrow> 'x sched_scheme \<Rightarrow> 'x sched_scheme option" where
  "task_sleep_until_timeout t st =
     (if t_state st t \<noteq> TASK_STATE_SLEEPING then None
      else do { st \<leftarrow> task_wake t st; Some (schedule st) })"

definition thread_sleep_until :: "u64 \<Rightarrow> 'x sched_scheme \<Rightarrow> 'x sched_scheme option" where
  "thread_sleep_until deadline st =
     (let cur = current st in
      if t_state st cur \<noteq> TASK_STATE_RUNNING then None
      else Some (schedule ((set_state cur TASK_STATE_SLEEPING st)\<lparr>t_timer := (t_timer st)(cur := deadline)\<rparr>)))"

definition sleep_until :: "u64 \<Rightarrow> 'x sched_scheme \<Rightarrow> 'x sched_scheme option" where
  "sleep_until deadline st = thread_sleep_until deadline st"

definition usleep :: "u64 \<Rightarrow> u32 \<Rightarrow> 'x sched_scheme \<Rightarrow> 'x sched_scheme option" where
  "usleep now useconds st = thread_sleep_until (now + ucast useconds) st"

definition sleep :: "u64 \<Rightarrow> u32 \<Rightarrow> 'x sched_scheme \<Rightarrow> 'x sched_scheme option" where
  "sleep now sec st = usleep now (sec * 1000000) st"

section \<open>Mutexes and condition variables\<close>

text \<open>One pass of the loop of \<^verbatim>\<open>mutex_lock_sched_locked\<close>; the result tells whether the lock is ours.\<close>

definition mutex_lock_sched_locked :: "nat \<Rightarrow> 'x sched_scheme \<Rightarrow> (bool \<times> 'x sched_scheme) option" where
  "mutex_lock_sched_locked m st =
     (let cur = current st in
      if m_lock st m then
        if task_is_on_readyqueue cur st then None
        else if cur \<in> set (w_list st m) then None
        else
          let st = (if t_state st cur \<noteq> TASK_STATE_SLEEPING
                    then task_insert_wait_list m cur (set_state cur TASK_STATE_SLEEPING st) else st)
          in Some (False, schedule st)
      else Some (True, st\<lparr>m_lock := (m_lock st)(m := True)\<rparr>))"

definition mutex_lock_slow :: "nat \<Rightarrow> 'x sched_scheme \<Rightarrow> (bool \<times> 'x sched_scheme) option" where
  "mutex_lock_slow m st = mutex_lock_sched_locked m st"

text \<open>The compare and exchange of the fast paths is a weak one: \<open>hit\<close> tells whether it goes through
  when the word has the expected value.\<close>

definition mutex_lock :: "bool \<Rightarrow> nat \<Rightarrow> 'x sched_scheme \<Rightarrow> (bool \<times> 'x sched_scheme) option" where
  "mutex_lock hit m st =
     (if hit \<and> \<not> m_lock st m \<and> w_list st m = [] then Some (True, st\<lparr>m_lock := (m_lock st)(m := True)\<rparr>)
      else mutex_lock_slow m st)"

definition mutex_trylock_slow :: "nat \<Rightarrow> 'x sched_scheme \<Rightarrow> bool \<times> 'x sched_scheme" where
  "mutex_trylock_slow m st =
     (if m_lock st m then (True, st) else (False, st\<lparr>m_lock := (m_lock st)(m := True)\<rparr>))"

definition mutex_trylock :: "bool \<Rightarrow> nat \<Rightarrow> 'x sched_scheme \<Rightarrow> bool \<times> 'x sched_scheme" where
  "mutex_trylock hit m st =
     (if hit \<and> \<not> m_lock st m \<and> w_list st m = [] then (False, st\<lparr>m_lock := (m_lock st)(m := True)\<rparr>)
      else mutex_trylock_slow m st)"

definition mutex_unlock_sched_locked :: "nat \<Rightarrow> 'x sched_scheme \<Rightarrow> 'x sched_scheme option" where
  "mutex_unlock_sched_locked m st =
     (if \<not> m_lock st m \<and> w_list st m = [] then None
      else do {
        let st = st\<lparr>m_lock := (m_lock st)(m := False)\<rparr>;
        case w_list st m of
          [] \<Rightarrow> Some st
        | t # _ \<Rightarrow> do {
            st \<leftarrow> readyqueue_insert t (list_remove t st);
            Some (if t_prio st t \<ge> t_prio st (current st) then schedule st else st)
          }
      })"

definition mutex_unlock_slow :: "nat \<Rightarrow> 'x sched_scheme \<Rightarrow> 'x sched_scheme option" where
  "mutex_unlock_slow m st = mutex_unlock_sched_locked m st"

definition mutex_unlock :: "bool \<Rightarrow> nat \<Rightarrow> 'x sched_scheme \<Rightarrow> 'x sched_scheme option" where
  "mutex_unlock hit m st =
     (if hit \<and> m_lock st m \<and> w_list st m = [] then Some (st\<lparr>m_lock := (m_lock st)(m := False)\<rparr>)
      else mutex_unlock_slow m st)"

definition cond_signal :: "nat \<Rightarrow> 'x sched_scheme \<Rightarrow> 'x sched_scheme option" where
  "cond_signal c st = task_wakeup c False st"

definition cond_broadcast :: "nat \<Rightarrow> 'x sched_scheme \<Rightarrow> 'x sched_scheme option" where
  "cond_broadcast c st = task_wakeup c True st"

text \<open>\<^verbatim>\<open>cond_wait\<close> and \<^verbatim>\<open>cond_wait_timeout\<close> up to the sleep; then the mutex is locked again.\<close>

definition cond_wait :: "nat \<Rightarrow> nat \<Rightarrow> 'x sched_scheme \<Rightarrow> 'x sched_scheme option" where
  "cond_wait c m st = do { st \<leftarrow> mutex_unlock_sched_locked m st; task_sleep_sched_locked c st }"

definition cond_wait_timeout :: "nat \<Rightarrow> nat \<Rightarrow> u64 \<Rightarrow> 'x sched_scheme \<Rightarrow> 'x sched_scheme option" where
  "cond_wait_timeout c m deadline st = do {
     st \<leftarrow> mutex_unlock_sched_locked m st;
     task_sleep_abs_sched_locked c deadline st
   }"

section \<open>Threads\<close>

text \<open>A thread is made from the next block of the allocator. The layout of its stack is not
  modelled.\<close>

definition thread_create_va :: "u32 \<Rightarrow> nat \<Rightarrow> 'x sched_scheme \<Rightarrow> nat option \<times> 'x sched_scheme" where
  "thread_create_va flags prio st =
     (let prio = prio mod TASK_PRIOS; prio = (if prio = 0 then 1 else prio) in
      case blocks st of
        [] \<Rightarrow> (None, st)
      | t # bs \<Rightarrow>
          (Some t, schedule (st\<lparr>blocks := bs, t_refcount := (t_refcount st)(t := 1),
             t_state := (t_state st)(t := TASK_STATE_READY), t_prio := (t_prio st)(t := prio),
             t_flags := (t_flags st)(t := ucast flags OR TASK_THREAD),
             readyqueue := (readyqueue st)(prio := readyqueue st prio @ [t]),
             active_queues := active_queues st OR push_bit prio 1,
             allthreads := t # allthreads st\<rparr>)))"

definition thread_retain :: "nat \<Rightarrow> 'x sched_scheme \<Rightarrow> 'x sched_scheme" where
  "thread_retain t st = st\<lparr>t_refcount := (t_refcount st)(t := (t_refcount st t + 1) mod 256)\<rparr>"

definition thread_release :: "nat \<Rightarrow> 'x sched_scheme \<Rightarrow> 'x sched_scheme option" where
  "thread_release t st = do {
     let st = st\<lparr>t_refcount := (t_refcount st)(t := (t_refcount st t + 255) mod 256)\<rparr>;
     if t_refcount st t \<noteq> 0 then Some st
     else readyqueue_insert t (st\<lparr>t_flags := (t_flags st)(t := t_flags st t AND NOT TASK_THREAD),
                                  t_prio := (t_prio st)(t := 1)\<rparr>)
   }"

text \<open>The task that frees the memory of a thread; \<open>busy\<close> is the answer of \<^verbatim>\<open>free_try\<close>.\<close>

definition thread_exit2 :: "bool \<Rightarrow> nat \<Rightarrow> 'x sched_scheme \<Rightarrow> 'x sched_scheme option" where
  "thread_exit2 busy t st =
     (if busy then readyqueue_insert t st else Some (st\<lparr>blocks := t # blocks st\<rparr>))"

text \<open>\<open>join_wait\<close> is the address of the waitable of that name.\<close>

definition thread_exit :: "nat \<Rightarrow> 'x sched_scheme \<Rightarrow> 'x sched_scheme option" where
  "thread_exit join_wait st = do {
     let cur = current st;
     let st = st\<lparr>allthreads := remove1 cur (allthreads st)\<rparr>;
     st \<leftarrow> (if t_flags st cur AND TASK_DETACHED \<noteq> 0 then thread_release cur st
           else task_wakeup join_wait True (set_state cur TASK_STATE_ZOMBIE st));
     Some (schedule st)
   }"

text \<open>One pass of the loop of \<^verbatim>\<open>thread_join\<close>; the result tells whether the thread was joined.\<close>

definition thread_join :: "nat \<Rightarrow> nat \<Rightarrow> 'x sched_scheme \<Rightarrow> (bool \<times> 'x sched_scheme) option" where
  "thread_join join_wait t st =
     (if t_flags st t AND TASK_DETACHED \<noteq> 0 then None
      else if t_state st t \<noteq> TASK_STATE_ZOMBIE then do { st \<leftarrow> task_sleep join_wait st; Some (False, st) }
      else do { st \<leftarrow> thread_release t st; Some (True, st) })"

definition sched_cpu_init :: "nat \<Rightarrow> 'x sched_scheme \<Rightarrow> 'x sched_scheme" where
  "sched_cpu_init t st =
     st\<lparr>t_flags := (t_flags st)(t := TASK_THREAD), idle := t, current := t, active_queues := 0,
        readyqueue := (\<lambda>i. if i < TASK_PRIOS then [] else readyqueue st i)\<rparr>"

fun thread_after :: "nat \<Rightarrow> nat list \<Rightarrow> nat option" where
  "thread_after cur [] = None"
| "thread_after cur (t # ts) =
     (if t = cur then (case ts of [] \<Rightarrow> None | u # _ \<Rightarrow> Some u) else thread_after cur ts)"

text \<open>\<^const>\<open>None\<close> as an argument and in the first component of the result is NULL.\<close>

definition thread_get_next :: "nat option \<Rightarrow> 'x sched_scheme \<Rightarrow> (nat option \<times> 'x sched_scheme) option" where
  "thread_get_next cur st = do {
     let t = (case cur of None \<Rightarrow> (case allthreads st of [] \<Rightarrow> None | t # _ \<Rightarrow> Some t)
              | Some c \<Rightarrow> thread_after c (allthreads st));
     let st = (case t of None \<Rightarrow> st | Some t \<Rightarrow> thread_retain t st);
     st \<leftarrow> (case cur of None \<Rightarrow> Some st | Some c \<Rightarrow> thread_release c st);
     Some (t, st)
   }"

section \<open>The ready queues are consistent\<close>

text \<open>
  A task is on the queue of its priority, once, exactly when it is ready, and the bit mask tells
  which queues are not empty.
\<close>

definition queues_ok :: "'x sched_scheme \<Rightarrow> bool" where
  "queues_ok st \<longleftrightarrow>
     (\<forall>p. distinct (readyqueue st p)) \<and>
     (\<forall>p t. t \<in> set (readyqueue st p) \<longleftrightarrow> t_state st t = TASK_STATE_READY \<and> t_prio st t = p) \<and>
     (\<forall>t. t_prio st t < TASK_PRIOS) \<and>
     (\<forall>p < TASK_PRIOS. bit (active_queues st) p \<longleftrightarrow> readyqueue st p \<noteq> [])"

lemma queues_okD:
  assumes "queues_ok st"
  shows "distinct (readyqueue st p)" "t \<in> set (readyqueue st p) \<longleftrightarrow> t_state st t = TASK_STATE_READY \<and> t_prio st t = p"
    "t_prio st t < TASK_PRIOS" "p < TASK_PRIOS \<Longrightarrow> bit (active_queues st) p \<longleftrightarrow> readyqueue st p \<noteq> []"
  using assms unfolding queues_ok_def by blast+

lemma queues_ok_cong:
  assumes "queues_ok st" "readyqueue st' = readyqueue st" "active_queues st' = active_queues st" "t_prio st' = t_prio st"
    "\<And>t. t_state st' t = TASK_STATE_READY \<longleftrightarrow> t_state st t = TASK_STATE_READY"
  shows "queues_ok st'"
  using assms by (simp add: queues_ok_def)

lemma task_is_on_readyqueue_iff:
  "queues_ok st \<Longrightarrow> task_is_on_readyqueue t st \<longleftrightarrow> t_state st t = TASK_STATE_READY"
  using queues_okD(3) [of st t] by (auto simp: task_is_on_readyqueue_def list_ex_iff queues_okD(2))

definition rq_put :: "nat \<Rightarrow> 'x sched_scheme \<Rightarrow> 'x sched_scheme" where
  "rq_put t st = st\<lparr>readyqueue := (readyqueue st)(t_prio st t := readyqueue st (t_prio st t) @ [t]),
     active_queues := active_queues st OR push_bit (t_prio st t) 1,
     t_state := (t_state st)(t := TASK_STATE_READY)\<rparr>"

lemma bit_or_push: "p < 32 \<Longrightarrow> q < 32 \<Longrightarrow> bit (x OR 2 ^ p :: u32) q \<longleftrightarrow> bit x q \<or> q = p"
  by (auto simp: bit_simps)

lemma bit_andnot_push: "p < 32 \<Longrightarrow> q < 32 \<Longrightarrow> bit (x AND NOT (2 ^ p) :: u32) q \<longleftrightarrow> bit x q \<and> q \<noteq> p"
  by (auto simp: bit_simps)

lemma readyqueue_insert_ok:
  assumes q: "queues_ok st" and t: "t_state st t \<noteq> TASK_STATE_READY"
  shows "readyqueue_insert t st = Some (rq_put t st)" "queues_ok (rq_put t st)"
proof -
  note d = queues_okD [OF q]
  have p: "t_prio st t < 32" using d(3) by (simp add: TASK_PRIOS_def)
  show "readyqueue_insert t st = Some (rq_put t st)"
    using t d(3) d(4) [of "t_prio st t"]
    by (simp add: readyqueue_insert_def task_is_on_readyqueue_iff [OF q] rq_put_def Let_def)
  show "queues_ok (rq_put t st)"
    using d t p unfolding queues_ok_def rq_put_def by (auto simp: bit_or_push TASK_PRIOS_def)
qed

definition ready_task :: "'x sched_scheme \<Rightarrow> nat \<Rightarrow> bool" where
  "ready_task st t \<longleftrightarrow> t_state st t = TASK_STATE_READY \<or> t = current st \<and> t_state st t = TASK_STATE_RUNNING"

lemma task_switch_pick_ok:
  assumes q: "queues_ok st"
  defines "s1 \<equiv> (if t_state st (current st) = TASK_STATE_RUNNING then rq_put (current st) st else st)"
  shows "queues_ok s1"
    and "active_queues s1 = 0 \<Longrightarrow> task_switch_pick st = Some (idle st, s1)" "active_queues s1 = 0 \<Longrightarrow> t_state s1 t \<noteq> TASK_STATE_READY"
    and "active_queues s1 \<noteq> 0 \<Longrightarrow> \<exists>t q. readyqueue s1 (t_prio st t) = t # q \<and> t_state s1 t = TASK_STATE_READY \<and>
      (\<forall>u. t_state s1 u = TASK_STATE_READY \<longrightarrow> t_prio st u \<le> t_prio st t) \<and>
      task_switch_pick st = Some (t, s1\<lparr>readyqueue := (readyqueue s1)(t_prio st t := q),
         active_queues := (if q = [] then active_queues s1 AND NOT (push_bit (t_prio st t) 1) else active_queues s1)\<rparr>) \<and>
      (\<forall>ns. ns \<noteq> TASK_STATE_READY \<longrightarrow> queues_ok (set_state t ns (s1\<lparr>readyqueue := (readyqueue s1)(t_prio st t := q),
         active_queues := (if q = [] then active_queues s1 AND NOT (push_bit (t_prio st t) 1) else active_queues s1)\<rparr>)))"
proof -
  have ins: "(if t_state st (current st) = TASK_STATE_RUNNING then readyqueue_insert (current st) st else Some st) = Some s1"
    and q1: "queues_ok s1"
    using q readyqueue_insert_ok [OF q, of "current st"] by (auto simp: s1_def)
  show "queues_ok s1" by (rule q1)
  have same: "t_prio s1 = t_prio st" "idle s1 = idle st" by (simp_all add: s1_def rq_put_def)
  note d = queues_okD [OF q1]
  show "active_queues s1 = 0 \<Longrightarrow> task_switch_pick st = Some (idle st, s1)"
    using ins same by (simp add: task_switch_pick_def)
  show "active_queues s1 = 0 \<Longrightarrow> t_state s1 t \<noteq> TASK_STATE_READY"
    using d(2) [of t "t_prio s1 t"] d(4) [OF d(3), of t] by auto
  assume a: "active_queues s1 \<noteq> 0"
  note top = clz32_top [OF a]
  let ?p = "31 - clz32 (active_queues s1)"
  have p: "?p < TASK_PRIOS" using top(1) by (simp add: TASK_PRIOS_def)
  then obtain t r where tq: "readyqueue s1 ?p = t # r" using top(2) d(4) by (meson neq_Nil_conv)
  then have t: "t_state s1 t = TASK_STATE_READY" "t_prio st t = ?p" using d(2) [of t ?p] same by auto
  have max: "t_prio st u \<le> t_prio st t" if u: "t_state s1 u = TASK_STATE_READY" for u
  proof (rule ccontr)
    assume "\<not> ?thesis"
    then have "\<not> bit (active_queues s1) (t_prio st u)" using top(3) t(2) d(3) [of u] same by (auto simp: TASK_PRIOS_def)
    then show False using u d(2) [of u "t_prio s1 u"] d(4) [OF d(3), of u] same by auto
  qed
  have pick: "task_switch_pick st = Some (t, s1\<lparr>readyqueue := (readyqueue s1)(t_prio st t := r),
         active_queues := (if r = [] then active_queues s1 AND NOT (push_bit (t_prio st t) 1) else active_queues s1)\<rparr>)"
    using a tq t ins same unfolding task_switch_pick_def by (simp add: Let_def)
  have keep: "queues_ok (set_state t ns (s1\<lparr>readyqueue := (readyqueue s1)(t_prio st t := r),
         active_queues := (if r = [] then active_queues s1 AND NOT (push_bit (t_prio st t) 1) else active_queues s1)\<rparr>))"
    if "ns \<noteq> TASK_STATE_READY" for ns
  proof -
    have r: "distinct r" "t \<notin> set r" using d(1) [of ?p] tq by auto
    have m: "u \<in> set r \<longleftrightarrow> t_state s1 u = TASK_STATE_READY \<and> t_prio st u = ?p \<and> u \<noteq> t" for u
      using d(2) [of u ?p] tq r(2) same t by auto
    show ?thesis
      unfolding queues_ok_def set_state_def
      using that d r m t(2) p same tq by (auto simp: bit_andnot_push TASK_PRIOS_def)
  qed
  show "\<exists>t q. readyqueue s1 (t_prio st t) = t # q \<and> t_state s1 t = TASK_STATE_READY \<and>
      (\<forall>u. t_state s1 u = TASK_STATE_READY \<longrightarrow> t_prio st u \<le> t_prio st t) \<and>
      task_switch_pick st = Some (t, s1\<lparr>readyqueue := (readyqueue s1)(t_prio st t := q),
         active_queues := (if q = [] then active_queues s1 AND NOT (push_bit (t_prio st t) 1) else active_queues s1)\<rparr>) \<and>
      (\<forall>ns. ns \<noteq> TASK_STATE_READY \<longrightarrow> queues_ok (set_state t ns (s1\<lparr>readyqueue := (readyqueue s1)(t_prio st t := q),
         active_queues := (if q = [] then active_queues s1 AND NOT (push_bit (t_prio st t) 1) else active_queues s1)\<rparr>)))"
    using tq t max pick keep by (intro exI [of _ t] exI [of _ r]) auto
qed

end
