(* ===== verification/Sched_System.thy ===== *)
theory Sched_System
  imports Sched
begin

text \<open>
  Threads, interrupts and the CPU around the scheduler, as a step relation; an invariant of all
  its states; what follows for every run from the boot on: no check fails, mutexes exclude each
  other, no wakeup is lost.
\<close>

section \<open>A system of threads\<close>

text \<open>
  Around the scheduler: where each thread is, which mutexes it has locked and not unlocked, and
  what the CPU does. A thread runs its own code, is inside a blocking function (and what that
  function does after the sleep), or has exited. The CPU runs a thread, the loop of
  \<^verbatim>\<open>task_switch\<close>, or a task taken by it.
\<close>

datatype kont = K_return | K_relock nat | K_join nat

datatype pc = User | Locking nat | Asleep nat bool kont | Napping | Exited

datatype cpu_mode = In_thread | In_switch | In_task nat

record sys = sched +
  pc :: "nat \<Rightarrow> pc"
  held :: "nat \<Rightarrow> nat set"
  mode :: cpu_mode

definition set_pc :: "nat \<Rightarrow> pc \<Rightarrow> sys \<Rightarrow> sys" where
  "set_pc t p s = s\<lparr>pc := (pc s)(t := p)\<rparr>"

definition take_mutex :: "nat \<Rightarrow> nat \<Rightarrow> sys \<Rightarrow> sys" where
  "take_mutex t m s = s\<lparr>held := (held s)(t := insert m (held s t))\<rparr>"

definition drop_mutex :: "nat \<Rightarrow> nat \<Rightarrow> sys \<Rightarrow> sys" where
  "drop_mutex t m s = s\<lparr>held := (held s)(t := held s t - {m})\<rparr>"

definition lock_or_wait :: "nat \<Rightarrow> (bool \<times> sys) option \<Rightarrow> sys option" where
  "lock_or_wait m = map_option (\<lambda>(got, s).
     if got then set_pc (current s) User (take_mutex (current s) m s) else set_pc (current s) (Locking m) s)"

definition join_or_wait :: "nat \<Rightarrow> nat \<Rightarrow> (bool \<times> sys) option \<Rightarrow> sys option" where
  "join_or_wait jw t = map_option (\<lambda>(joined, s).
     set_pc (current s) (if joined then User else Asleep jw False (K_join t)) s)"

fun continue_with :: "nat \<Rightarrow> kont \<Rightarrow> sys \<Rightarrow> sys option" where
  "continue_with jw K_return s = Some (set_pc (current s) User s)"
| "continue_with jw (K_relock m) s = lock_or_wait m (mutex_lock_sched_locked m s)"
| "continue_with jw (K_join t) s = join_or_wait jw t (thread_join jw t s)"

definition can_act :: "sys \<Rightarrow> bool" where
  "can_act s \<longleftrightarrow> mode s = In_thread \<and> t_state s (current s) = TASK_STATE_RUNNING \<and> pc s (current s) = User"

definition can_block :: "sys \<Rightarrow> bool" where
  "can_block s \<longleftrightarrow> can_act s \<and> current s \<noteq> idle s"

definition can_resume :: "sys \<Rightarrow> bool" where
  "can_resume s \<longleftrightarrow> mode s = In_thread \<and> \<not> pending s"

definition is_thread :: "sys \<Rightarrow> nat \<Rightarrow> bool" where
  "is_thread s t \<longleftrightarrow> t_flags s t AND TASK_THREAD \<noteq> 0"

definition joinable :: "sys \<Rightarrow> nat \<Rightarrow> bool" where
  "joinable s t \<longleftrightarrow> is_thread s t \<and> t_flags s t AND TASK_DETACHED = 0 \<and> t \<noteq> idle s \<and>
     (\<forall>u w tm. pc s u \<noteq> Asleep w tm (K_join t))"

text \<open>
  What can happen. Threads lock and unlock mutexes of the set \<open>ms\<close>, unlocking only what they hold,
  wait on other waitables, sleep, create, join and exit; interrupts and tasks wake waiters, run
  tasks of the set \<open>ts\<close> and let timers fire at any time; the CPU switches when asked to. The idle
  thread does not block. The result is an option: \<^const>\<open>None\<close> is a failed check. Of \<^verbatim>\<open>task.c\<close> the steps
  leave out \<^verbatim>\<open>poll\<close> and \<^verbatim>\<open>thread_get_next\<close>.
\<close>

inductive sys_step :: "nat set \<Rightarrow> nat \<Rightarrow> nat set \<Rightarrow> sys \<Rightarrow> sys option \<Rightarrow> bool"
  for ms :: "nat set" and jw :: nat and ts :: "nat set" where
  step_lock: "can_block s \<Longrightarrow> m \<in> ms \<Longrightarrow> sys_step ms jw ts s (lock_or_wait m (mutex_lock hit m s))"
| step_relock: "can_resume s \<Longrightarrow> pc s (current s) = Locking m \<Longrightarrow>
    sys_step ms jw ts s (lock_or_wait m (mutex_lock_sched_locked m s))"
| step_trylock: "can_block s \<Longrightarrow> m \<in> ms \<Longrightarrow> mutex_trylock hit m s = (taken, s') \<Longrightarrow>
    sys_step ms jw ts s (Some (if taken then s' else take_mutex (current s) m s'))"
| step_unlock: "can_block s \<Longrightarrow> m \<in> held s (current s) \<Longrightarrow>
    sys_step ms jw ts s (map_option (drop_mutex (current s) m) (mutex_unlock hit m s))"
| step_sleep: "can_block s \<Longrightarrow> w \<notin> ms \<Longrightarrow>
    sys_step ms jw ts s (map_option (set_pc (current s) (Asleep w False K_return)) (task_sleep w s))"
| step_sleep_timed: "can_block s \<Longrightarrow> w \<notin> ms \<Longrightarrow> deadline \<noteq> 0 \<Longrightarrow>
    sys_step ms jw ts s (map_option (set_pc (current s) (Asleep w True K_return)) (task_sleep_deadline w deadline s))"
| step_cond_wait: "can_block s \<Longrightarrow> c \<notin> ms \<Longrightarrow> m \<in> held s (current s) \<Longrightarrow>
    sys_step ms jw ts s (map_option (set_pc (current s) (Asleep c False (K_relock m)) \<circ> drop_mutex (current s) m) (cond_wait c m s))"
| step_cond_wait_timed: "can_block s \<Longrightarrow> c \<notin> ms \<Longrightarrow> m \<in> held s (current s) \<Longrightarrow> deadline \<noteq> 0 \<Longrightarrow>
    sys_step ms jw ts s (map_option (set_pc (current s) (Asleep c True (K_relock m)) \<circ> drop_mutex (current s) m)
      (cond_wait_timeout c m deadline s))"
| step_nap: "can_block s \<Longrightarrow> deadline \<noteq> 0 \<Longrightarrow>
    sys_step ms jw ts s (map_option (set_pc (current s) Napping) (sleep_until deadline s))"
| step_awake: "can_resume s \<Longrightarrow> pc s (current s) = Asleep w tm k \<Longrightarrow>
    sys_step ms jw ts s (continue_with jw k (if tm then snd (task_sleep_abs_done s) else s))"
| step_denap: "can_resume s \<Longrightarrow> pc s (current s) = Napping \<Longrightarrow> sys_step ms jw ts s (Some (set_pc (current s) User s))"
| step_join: "can_block s \<Longrightarrow> joinable s t \<Longrightarrow> sys_step ms jw ts s (join_or_wait jw t (thread_join jw t s))"
| step_create: "can_act s \<Longrightarrow> thread_create_va flags prio s = (t, s') \<Longrightarrow>
    sys_step ms jw ts s (Some (case t of None \<Rightarrow> s' | Some t \<Rightarrow> set_pc t User s'))"
| step_exit: "can_block s \<Longrightarrow> held s (current s) = {} \<Longrightarrow>
    sys_step ms jw ts s (thread_exit jw (set_pc (current s) Exited s))"
| step_wakeup: "w \<notin> ms \<Longrightarrow> sys_step ms jw ts s (task_wakeup w all s)"
| step_timer: "t_timer s t \<noteq> 0 \<Longrightarrow> s1 = s\<lparr>t_timer := (t_timer s)(t := 0)\<rparr> \<Longrightarrow>
    sys_step ms jw ts s (if pc s t = Napping then task_sleep_until_timeout t s1
      else task_sleep_abs_sched_locked_timeout t s1)"
| step_run: "t \<in> ts \<Longrightarrow> sys_step ms jw ts s (task_run t s)"
| step_schedule: "sys_step ms jw ts s (Some (schedule s))"
| step_switch: "mode s = In_thread \<Longrightarrow> pending s \<Longrightarrow> sys_step ms jw ts s (Some (s\<lparr>mode := In_switch, pending := False\<rparr>))"
| step_round: "mode s = In_switch \<Longrightarrow>
    sys_step ms jw ts s (map_option (\<lambda>(r, s'). s'\<lparr>mode := (case r of None \<Rightarrow> In_thread | Some t \<Rightarrow> In_task t)\<rparr>) (task_switch_round s))"
| step_task_done: "mode s = In_task t \<Longrightarrow> pc s t \<noteq> Exited \<Longrightarrow> sys_step ms jw ts s (Some (s\<lparr>mode := In_switch\<rparr>))"
| step_reap: "mode s = In_task t \<Longrightarrow> pc s t = Exited \<Longrightarrow>
    sys_step ms jw ts s (map_option (\<lambda>s'. s'\<lparr>mode := In_switch\<rparr>) (thread_exit2 busy t s))"

text \<open>
  What holds of each thread, by where it is: its state, the wait list it is on, its timer. Blocks
  of the allocator count as exited threads. The idle thread starts as a zombie.
\<close>

definition on_lists :: "sys \<Rightarrow> nat \<Rightarrow> nat set" where
  "on_lists s t = {w. t \<in> set (w_list s w)}"

definition awake :: "task_state \<Rightarrow> bool" where
  "awake x \<longleftrightarrow> x = TASK_STATE_RUNNING \<or> x = TASK_STATE_READY"

definition pc_ok :: "nat set \<Rightarrow> pc \<Rightarrow> task_state \<Rightarrow> nat set \<Rightarrow> u64 \<Rightarrow> bool \<Rightarrow> bool" where
  "pc_ok ms p x ws timer thr =
     (case p of
        User \<Rightarrow> x \<noteq> TASK_STATE_SLEEPING \<and> x \<noteq> TASK_STATE_MUXED_SLEEP \<and> ws = {} \<and> timer = 0
      | Locking m \<Rightarrow> m \<in> ms \<and> thr \<and> timer = 0 \<and> (awake x \<and> ws = {} \<or> x = TASK_STATE_SLEEPING \<and> ws = {m})
      | Asleep w tm k \<Rightarrow> w \<notin> ms \<and> thr \<and> (tm \<or> timer = 0) \<and> (\<forall>m. k = K_relock m \<longrightarrow> m \<in> ms) \<and>
          (awake x \<and> ws = {} \<or> x = TASK_STATE_SLEEPING \<and> ws = {w})
      | Napping \<Rightarrow> thr \<and> ws = {} \<and> (awake x \<and> timer = 0 \<or> x = TASK_STATE_SLEEPING \<and> timer \<noteq> 0)
      | Exited \<Rightarrow> ws = {} \<and> timer = 0 \<and> (x = TASK_STATE_ZOMBIE \<and> thr \<or> x \<in> {TASK_STATE_READY, TASK_STATE_NONE} \<and> \<not> thr))"

definition threads_ok :: "nat set \<Rightarrow> nat set \<Rightarrow> sys \<Rightarrow> bool" where
  "threads_ok ms ts s \<longleftrightarrow>
     (\<forall>t. pc_ok ms (pc s t) (t_state s t) (on_lists s t) (t_timer s t) (is_thread s t)) \<and>
     (\<forall>t. t_state s t = TASK_STATE_RUNNING \<longrightarrow> t = current s \<and> is_thread s t) \<and>
     (\<forall>t. is_thread s t \<and> t \<noteq> idle s \<longrightarrow> t_refcount s t = 1) \<and>
     (\<forall>t. pc s t = Exited \<and> is_thread s t \<longrightarrow> t_flags s t AND TASK_DETACHED = 0) \<and>
     pc s (idle s) = User \<and> is_thread s (idle s) \<and>
     (\<forall>t\<in>ts. \<not> is_thread s t \<and> pc s t = User) \<and>
     (mode s = In_thread \<and> \<not> pending s \<longrightarrow> t_state s (current s) = TASK_STATE_RUNNING) \<and>
     (\<forall>t. t_state s t = TASK_STATE_ZOMBIE \<and> t \<noteq> idle s \<longrightarrow> pc s t = Exited)"

definition lists_ok :: "sys \<Rightarrow> bool" where
  "lists_ok s \<longleftrightarrow> (\<forall>w. distinct (w_list s w) \<and> sorted_wrt (\<lambda>a b. t_prio s b \<le> t_prio s a) (w_list s w))"

definition blocks_ok :: "sys \<Rightarrow> bool" where
  "blocks_ok s \<longleftrightarrow> distinct (blocks s) \<and>
     (\<forall>t. t \<in> set (blocks s) \<or> mode s = In_task t \<and> pc s t = Exited \<longrightarrow> pc s t = Exited \<and> t_state s t = TASK_STATE_NONE) \<and>
     (\<forall>t \<in> set (blocks s). mode s \<noteq> In_task t)"

definition joins_ok :: "sys \<Rightarrow> bool" where
  "joins_ok s \<longleftrightarrow>
     (\<forall>t u w tm. pc s t = Asleep w tm (K_join u) \<longrightarrow> is_thread s u \<and> t_flags s u AND TASK_DETACHED = 0 \<and> u \<noteq> idle s) \<and>
     (\<forall>t t' u w w' tm tm'. pc s t = Asleep w tm (K_join u) \<and> pc s t' = Asleep w' tm' (K_join u) \<longrightarrow> t = t')"

definition mutexes_ok :: "nat set \<Rightarrow> sys \<Rightarrow> bool" where
  "mutexes_ok ms s \<longleftrightarrow>
     (\<forall>t. held s t \<subseteq> ms) \<and> (\<forall>t. pc s t = Exited \<longrightarrow> held s t = {}) \<and>
     (\<forall>m\<in>ms. m_lock s m \<longleftrightarrow> (\<exists>t. m \<in> held s t)) \<and>
     (\<forall>t u m. m \<in> held s t \<and> m \<in> held s u \<longrightarrow> t = u) \<and>
     (\<forall>m\<in>ms. \<not> m_lock s m \<and> w_list s m \<noteq> [] \<longrightarrow> (\<exists>t. pc s t = Locking m \<and> awake (t_state s t)))"

definition sys_inv :: "nat set \<Rightarrow> nat set \<Rightarrow> sys \<Rightarrow> bool" where
  "sys_inv ms ts s \<longleftrightarrow> queues_ok s \<and> threads_ok ms ts s \<and> lists_ok s \<and> blocks_ok s \<and> joins_ok s \<and> mutexes_ok ms s"

section \<open>Every step keeps the invariant\<close>

lemma sys_invD:
  assumes "sys_inv ms ts s"
  shows "queues_ok s" "threads_ok ms ts s" "lists_ok s" "blocks_ok s" "joins_ok s" "mutexes_ok ms s"
  using assms by (simp_all add: sys_inv_def)

lemma threads_okD:
  assumes "threads_ok ms ts s"
  shows "pc_ok ms (pc s t) (t_state s t) (on_lists s t) (t_timer s t) (is_thread s t)"
    "t_state s t = TASK_STATE_RUNNING \<Longrightarrow> t = current s" "t_state s t = TASK_STATE_RUNNING \<Longrightarrow> is_thread s t"
    "is_thread s t \<Longrightarrow> t \<noteq> idle s \<Longrightarrow> t_refcount s t = 1"
    "pc s t = Exited \<Longrightarrow> is_thread s t \<Longrightarrow> t_flags s t AND TASK_DETACHED = 0"
    "pc s (idle s) = User" "is_thread s (idle s)" "t \<in> ts \<Longrightarrow> \<not> is_thread s t" "t \<in> ts \<Longrightarrow> pc s t = User"
    "mode s = In_thread \<Longrightarrow> \<not> pending s \<Longrightarrow> t_state s (current s) = TASK_STATE_RUNNING"
    "t_state s t = TASK_STATE_ZOMBIE \<Longrightarrow> t \<noteq> idle s \<Longrightarrow> pc s t = Exited"
  using assms unfolding threads_ok_def by blast+

interpretation prio_order: sorted_insert "task_prio_cmp pr" "\<lambda>a b. pr b \<le> pr a" for pr
  by unfold_locales (auto simp: task_prio_cmp_def)

text \<open>Who is on which list after a change of one list.\<close>

lemma on_lists_remove:
  assumes "lists_ok s"
  shows "on_lists (list_remove t s) u = (if u = t then {} else on_lists s u)"
  using assms by (auto simp: on_lists_def list_remove_def lists_ok_def)

lemma on_lists_insert:
  "on_lists (task_insert_wait_list w t s) u = (if u = t then insert w (on_lists s t) else on_lists s u)"
  by (auto simp: on_lists_def task_insert_wait_list_def)

lemma lists_ok_remove: "lists_ok s \<Longrightarrow> lists_ok (list_remove t s)"
  by (auto simp: lists_ok_def list_remove_def sorted_wrt_remove1)

lemma lists_ok_insert: "lists_ok s \<Longrightarrow> on_lists s t = {} \<Longrightarrow> lists_ok (task_insert_wait_list w t s)"
  by (auto simp: lists_ok_def task_insert_wait_list_def on_lists_def prio_order.insert_keeps_sorted)

lemma lists_ok_cong: "lists_ok s \<Longrightarrow> w_list s' = w_list s \<Longrightarrow> t_prio s' = t_prio s \<Longrightarrow> lists_ok s'"
  by (simp add: lists_ok_def)

text \<open>
  The parts of the invariant that a change of one thread \<open>t\<close> has to look at again. Everything else
  the invariant speaks of stays as it is.
\<close>

lemma threads_ok_upd:
  assumes ok: "threads_ok ms ts s"
    and same: "\<And>u. u \<noteq> t \<Longrightarrow> pc s' u = pc s u \<and> t_state s' u = t_state s u \<and> on_lists s' u = on_lists s u \<and>
        t_timer s' u = t_timer s u \<and> t_flags s' u = t_flags s u \<and> t_refcount s' u = t_refcount s u"
    and cur: "current s' = current s" "idle s' = idle s"
    and t: "pc_ok ms (pc s' t) (t_state s' t) (on_lists s' t) (t_timer s' t) (is_thread s' t)"
      "t_state s' t = TASK_STATE_RUNNING \<Longrightarrow> t = current s \<and> is_thread s' t" "is_thread s' t \<Longrightarrow> t \<noteq> idle s \<Longrightarrow> t_refcount s' t = 1"
      "pc s' t = Exited \<Longrightarrow> is_thread s' t \<Longrightarrow> t_flags s' t AND TASK_DETACHED = 0"
      "t_state s' t = TASK_STATE_ZOMBIE \<Longrightarrow> t \<noteq> idle s \<Longrightarrow> pc s' t = Exited"
    and fixed: "t = idle s \<Longrightarrow> pc s' t = User \<and> is_thread s' t" "t \<in> ts \<Longrightarrow> \<not> is_thread s' t \<and> pc s' t = User"
    and run: "mode s' = In_thread \<Longrightarrow> \<not> pending s' \<Longrightarrow> t_state s' (current s) = TASK_STATE_RUNNING"
  shows "threads_ok ms ts s'"
  unfolding threads_ok_def
proof (intro conjI allI impI ballI)
  note d = threads_okD [OF ok]
  have th: "is_thread s' u = is_thread s u" if "u \<noteq> t" for u using same [OF that] by (simp add: is_thread_def)
  fix u
  show "pc_ok ms (pc s' u) (t_state s' u) (on_lists s' u) (t_timer s' u) (is_thread s' u)"
    using d(1) [of u] t(1) same [of u] th [of u] by (cases "u = t") simp_all
  show "u = current s'" if "t_state s' u = TASK_STATE_RUNNING"
    using that d(2) [of u] t(2) same [of u] cur by (cases "u = t") auto
  show "is_thread s' u" if "t_state s' u = TASK_STATE_RUNNING"
    using that d(3) [of u] t(2) same [of u] th [of u] by (cases "u = t") auto
  show "t_refcount s' u = 1" if "is_thread s' u \<and> u \<noteq> idle s'"
    using that cur(2) d(4) [of u] t(3) same [of u] th [of u] by (cases "u = t") auto
  show "t_flags s' u AND TASK_DETACHED = 0" if "pc s' u = Exited \<and> is_thread s' u"
    using that d(5) [of u] t(4) same [of u] th [of u] by (cases "u = t") auto
  show "pc s' (idle s') = User" "is_thread s' (idle s')"
    using d(6,7) fixed(1) same [of "idle s"] th [of "idle s"] cur by (cases "idle s = t"; simp)+
  show "\<not> is_thread s' u" "pc s' u = User" if "u \<in> ts"
    using that d(8,9) [of u] fixed(2) same [of u] th [of u] by (cases "u = t"; simp)+
  show "t_state s' (current s') = TASK_STATE_RUNNING" if "mode s' = In_thread \<and> \<not> pending s'"
    using that run cur by simp
  show "pc s' u = Exited" if "t_state s' u = TASK_STATE_ZOMBIE \<and> u \<noteq> idle s'"
    using that d(11) [of u] t(5) same [of u] cur by (cases "u = t") auto
qed

text \<open>What a sleeping thread can be.\<close>

lemma sleeping_cases:
  assumes "threads_ok ms ts s" "t_state s t = TASK_STATE_SLEEPING"
  obtains (locking) m where "pc s t = Locking m" "m \<in> ms" "on_lists s t = {m}" "is_thread s t" "t_timer s t = 0"
  | (asleep) w tm k where "pc s t = Asleep w tm k" "w \<notin> ms" "on_lists s t = {w}" "is_thread s t" "tm \<or> t_timer s t = 0"
      "\<forall>m. k = K_relock m \<longrightarrow> m \<in> ms"
  | (napping) "pc s t = Napping" "on_lists s t = {}" "is_thread s t" "t_timer s t \<noteq> 0"
  using threads_okD(1) [OF assms(1), of t] assms(2)
  by (auto simp: pc_ok_def awake_def split: pc.splits)

lemma sleeping_not_fixed:
  assumes "threads_ok ms ts s" "t_state s t = TASK_STATE_SLEEPING"
  shows "t \<noteq> idle s" "t \<notin> ts" "is_thread s t" "pc s t \<noteq> User" "pc s t \<noteq> Exited"
  using assms threads_okD(6,9) [OF assms(1)] by (auto elim!: sleeping_cases)

text \<open>A thread that sleeps is made to run or ready; its timer may be cleared with that.\<close>

definition wake_post :: "nat \<Rightarrow> sys \<Rightarrow> sys" where
  "wake_post t s = (if t \<noteq> current s then rq_put t (list_remove t s) else set_state t TASK_STATE_RUNNING (list_remove t s))"

lemma list_remove_sel [simp]:
  "t_state (list_remove t s) = t_state s" "t_prio (list_remove t s) = t_prio s" "current (list_remove t s) = current s"
  "readyqueue (list_remove t s) = readyqueue s" "active_queues (list_remove t s) = active_queues s"
  "t_timer (list_remove t s) = t_timer s" "m_lock (list_remove t s) = m_lock s" "pending (list_remove t s) = pending s"
  by (simp_all add: list_remove_def)

lemma wake_post_sel [simp]:
  "t_state (wake_post t s) = (t_state s)(t := if t = current s then TASK_STATE_RUNNING else TASK_STATE_READY)"
  "w_list (wake_post t s) = w_list (list_remove t s)" "t_prio (wake_post t s) = t_prio s" "pc (wake_post t s) = pc s"
  "held (wake_post t s) = held s" "m_lock (wake_post t s) = m_lock s" "current (wake_post t s) = current s"
  "idle (wake_post t s) = idle s" "t_flags (wake_post t s) = t_flags s" "t_refcount (wake_post t s) = t_refcount s"
  "t_timer (wake_post t s) = t_timer s" "mode (wake_post t s) = mode s" "pending (wake_post t s) = pending s"
  "blocks (wake_post t s) = blocks s" "t_index (wake_post t s) = t_index s" "allthreads (wake_post t s) = allthreads s"
  by (simp_all add: wake_post_def rq_put_def set_state_def list_remove_def)

lemma task_wake_ok:
  assumes "queues_ok s" "t_state s t = TASK_STATE_SLEEPING"
  shows "task_wake t (list_remove t s) = Some (wake_post t s)" "queues_ok (wake_post t s)"
proof -
  have q: "queues_ok (list_remove t s)" by (rule queues_ok_cong [OF assms(1)]) simp_all
  show "task_wake t (list_remove t s) = Some (wake_post t s)"
    using readyqueue_insert_ok(1) [OF q, of t] assms(2) by (simp add: task_wake_def wake_post_def)
  show "queues_ok (wake_post t s)"
  proof (cases "t = current s")
    case True
    show ?thesis by (rule queues_ok_cong [OF q]) (use True assms(2) in \<open>simp_all add: wake_post_def set_state_def\<close>)
  next
    case False
    then show ?thesis using readyqueue_insert_ok(2) [OF q, of t] assms(2) by (simp add: wake_post_def)
  qed
qed

lemma blocks_ok_upd:
  assumes "blocks_ok s" "blocks s' = blocks s" "mode s' = mode s"
    and "\<And>u. u \<noteq> t \<Longrightarrow> pc s' u = pc s u \<and> t_state s' u = t_state s u" "pc s t \<noteq> Exited" "pc s' t \<noteq> Exited"
  shows "blocks_ok s'"
  using assms unfolding blocks_ok_def by metis

lemma joins_ok_upd:
  assumes "joins_ok s" "t_flags s' = t_flags s" "idle s' = idle s"
    and "\<And>u. u \<noteq> t \<Longrightarrow> pc s' u = pc s u" "\<And>w tm u. pc s' t = Asleep w tm (K_join u) \<Longrightarrow> \<exists>w tm. pc s t = Asleep w tm (K_join u)"
  shows "joins_ok s'"
proof -
  have th: "is_thread s' u = is_thread s u" for u using assms(2) by (simp add: is_thread_def)
  have k: "\<exists>w tm. pc s v = Asleep w tm (K_join u)" if "pc s' v = Asleep w tm (K_join u)" for v w tm u
    using that assms(4,5) by (cases "v = t") auto
  show ?thesis
    unfolding joins_ok_def th assms(2,3)
    by (intro conjI allI impI) (use assms(1) k in \<open>unfold joins_ok_def; metis\<close>)+
qed

lemma mutexes_ok_upd:
  assumes "mutexes_ok ms s" "held s' = held s" "m_lock s' = m_lock s" "\<And>u. u \<noteq> t \<Longrightarrow> pc s' u = pc s u \<and> t_state s' u = t_state s u"
    and "pc s' t = Exited \<Longrightarrow> held s t = {}" "\<And>m. pc s t = Locking m \<Longrightarrow> awake (t_state s t) \<Longrightarrow> pc s' t = Locking m \<and> awake (t_state s' t)"
    and "\<And>m. m \<in> ms \<Longrightarrow> \<not> m_lock s m \<Longrightarrow> w_list s' m \<noteq> [] \<Longrightarrow> w_list s m \<noteq> []"
  shows "mutexes_ok ms s'"
proof -
  have "\<exists>u. pc s' u = Locking m \<and> awake (t_state s' u)" if m: "m \<in> ms" "\<not> m_lock s m" "w_list s' m \<noteq> []" for m
  proof -
    obtain u where "pc s u = Locking m" "awake (t_state s u)"
      using assms(1,7) m unfolding mutexes_ok_def by blast
    then show ?thesis using assms(4) [of u] assms(6) by (cases "u = t") auto
  qed
  moreover have "held s u = {}" if "pc s' u = Exited" for u
    using that assms(1,4,5) unfolding mutexes_ok_def by (cases "u = t") auto
  ultimately show ?thesis using assms(1) unfolding mutexes_ok_def assms(2,3) by blast
qed

lemma sys_inv_same:
  assumes inv: "sys_inv ms ts s"
    and eq: "t_state s' = t_state s" "t_prio s' = t_prio s" "t_flags s' = t_flags s" "t_refcount s' = t_refcount s"
      "t_timer s' = t_timer s" "current s' = current s" "idle s' = idle s" "active_queues s' = active_queues s"
      "readyqueue s' = readyqueue s" "w_list s' = w_list s" "blocks s' = blocks s" "pc s' = pc s" "mode s' = mode s"
    and run: "mode s = In_thread \<Longrightarrow> \<not> pending s' \<Longrightarrow> t_state s (current s) = TASK_STATE_RUNNING"
    and m: "mutexes_ok ms s'"
  shows "sys_inv ms ts s'"
proof -
  note d = sys_invD [OF inv]
  have e: "is_thread s' = is_thread s" "on_lists s' = on_lists s"
    by (simp_all add: fun_eq_iff is_thread_def on_lists_def eq)
  have "threads_ok ms ts s'" using d(2) run unfolding threads_ok_def e eq by blast
  moreover have "queues_ok s'" by (rule queues_ok_cong [OF d(1)]) (simp_all add: eq)
  moreover have "lists_ok s'" by (rule lists_ok_cong [OF d(3)]) (simp_all add: eq)
  moreover have "blocks_ok s'" using d(4) unfolding blocks_ok_def eq .
  moreover have "joins_ok s'" using d(5) unfolding joins_ok_def e eq .
  ultimately show ?thesis using m by (simp add: sys_inv_def)
qed

lemma mutexes_ok_cong:
  assumes "mutexes_ok ms s" "held s' = held s" "m_lock s' = m_lock s" "pc s' = pc s" "w_list s' = w_list s" "t_state s' = t_state s"
  shows "mutexes_ok ms s'"
  using assms(1) unfolding mutexes_ok_def assms(2-) .

lemma sys_inv_schedule:
  assumes "sys_inv ms ts s"
  shows "sys_inv ms ts (schedule s)"
  by (rule sys_inv_same [OF assms]) (auto simp: schedule_def intro: mutexes_ok_cong [OF sys_invD(6) [OF assms]])

lemma wake_inv:
  assumes inv: "sys_inv ms ts s" and sl: "t_state s t = TASK_STATE_SLEEPING"
    and tv: "tv = 0 \<or> tv = t_timer s t \<and> pc s t \<noteq> Napping"
  shows "sys_inv ms ts ((wake_post t s)\<lparr>t_timer := (t_timer s)(t := tv)\<rparr>)"
proof -
  define s' where "s' = (wake_post t s)\<lparr>t_timer := (t_timer s)(t := tv)\<rparr>"
  note d = sys_invD [OF inv]
  note nf = sleeping_not_fixed [OF d(2) sl]
  have ol: "on_lists s' u = (if u = t then {} else on_lists s u)" for u
    using on_lists_remove [OF d(3), of t u] by (simp add: on_lists_def s'_def)
  have th: "is_thread s' u = is_thread s u" for u by (simp add: is_thread_def s'_def)
  have aw: "awake (t_state s' t)" by (simp add: s'_def awake_def)
  have "queues_ok s'" by (rule queues_ok_cong [OF task_wake_ok(2) [OF d(1) sl]]) (simp_all add: s'_def)
  moreover have "threads_ok ms ts s'"
  proof (rule threads_ok_upd [OF d(2), where t = t])
    show "pc_ok ms (pc s' t) (t_state s' t) (on_lists s' t) (t_timer s' t) (is_thread s' t)"
      using d(2) sl
    proof (cases rule: sleeping_cases)
      case (locking m)
      then show ?thesis using tv aw by (auto simp: pc_ok_def ol th) (auto simp: s'_def)
    next
      case (asleep w tm k)
      then show ?thesis using tv aw by (auto simp: pc_ok_def ol th) (auto simp: s'_def)
    next
      case napping
      then show ?thesis using tv aw by (auto simp: pc_ok_def ol th) (auto simp: s'_def)
    qed
    show "t_state s' t = TASK_STATE_RUNNING \<Longrightarrow> t = current s \<and> is_thread s' t"
      using nf(3) th by (auto simp: s'_def split: if_splits)
    show "mode s' = In_thread \<Longrightarrow> \<not> pending s' \<Longrightarrow> t_state s' (current s) = TASK_STATE_RUNNING"
      using threads_okD(10) [OF d(2)] by (simp add: s'_def)
  qed (use nf threads_okD(4,5) [OF d(2)] in \<open>auto simp: ol th\<close>, auto simp: s'_def split: if_splits)
  moreover have "lists_ok s'" by (rule lists_ok_cong [OF lists_ok_remove [OF d(3)]]) (simp_all add: s'_def)
  moreover have "blocks_ok s'" by (rule blocks_ok_upd [OF d(4), where t = t]) (use nf in \<open>simp_all add: s'_def\<close>)
  moreover have "joins_ok s'" by (rule joins_ok_upd [OF d(5), where t = t]) (auto simp: s'_def)
  moreover have "mutexes_ok ms s'"
  proof (rule mutexes_ok_upd [OF d(6), where t = t])
    show "w_list s' m \<noteq> [] \<Longrightarrow> w_list s m \<noteq> []" for m by (auto simp: s'_def list_remove_def)
  qed (use nf sl in \<open>auto simp: s'_def awake_def\<close>)
  ultimately show ?thesis by (simp add: sys_inv_def s'_def)
qed

lemma on_list_sleeping:
  assumes "threads_ok ms ts s" "t \<in> set (w_list s w)"
  shows "t_state s t = TASK_STATE_SLEEPING" "pc s t \<noteq> Napping" "on_lists s t = {w}"
    "w \<in> ms \<Longrightarrow> pc s t = Locking w"
proof -
  have "w \<in> on_lists s t" using assms(2) by (simp add: on_lists_def)
  then show "t_state s t = TASK_STATE_SLEEPING" "pc s t \<noteq> Napping" "on_lists s t = {w}" "w \<in> ms \<Longrightarrow> pc s t = Locking w"
    using threads_okD(1) [OF assms(1), of t] by (auto simp: pc_ok_def split: pc.splits)
qed

lemma wake_inv_plain:
  assumes "sys_inv ms ts s" "t_state s t = TASK_STATE_SLEEPING" "pc s t \<noteq> Napping"
  shows "sys_inv ms ts (wake_post t s)"
proof -
  have e: "(wake_post t s)\<lparr>t_timer := (t_timer s)(t := t_timer s t)\<rparr> = wake_post t s"
    by (cases "t = current s") (simp_all add: wake_post_def rq_put_def set_state_def list_remove_def)
  show ?thesis using wake_inv [OF assms(1,2), of "t_timer s t"] assms(3) unfolding e by blast
qed

text \<open>\<^verbatim>\<open>thread_exit\<close> wakes the joiners with a switch still to be asked for: the invariant holds but for that.\<close>

lemma wake_post_schedule: "wake_post t (schedule s) = schedule (wake_post t s)"
  by (simp add: wake_post_def schedule_def rq_put_def set_state_def list_remove_def)

lemma wakeup_inv_pending:
  fixes b :: bool
  defines "f \<equiv> \<lambda>s. if b then schedule s else s"
  assumes "sys_inv ms ts (f s)"
  shows "\<exists>s'. task_wakeup w all s = Some s' \<and> sys_inv ms ts (f s')"
proof -
  have fs: "w_list (f s) = w_list s" "t_state (f s) = t_state s" "pc (f s) = pc s" "wake_post t (f s) = f (wake_post t s)" for s t
    by (simp_all add: f_def wake_post_schedule) (simp_all add: schedule_def)
  have fq: "queues_ok s" if "sys_inv ms ts (f s)" for s
    by (rule queues_ok_cong [OF sys_invD(1) [OF that]]) (simp_all add: f_def schedule_def)
  have fsched: "sys_inv ms ts (f (schedule s))" if "sys_inv ms ts (f s)" for s
    using that sys_inv_schedule [of ms ts "f s"] by (auto simp: f_def split: if_splits)
  have "\<exists>s'. task_wakeup_loop w all ds s = Some s' \<and> sys_inv ms ts (f s')" for ds
    using assms(2)
  proof (induction "length (w_list s w)" arbitrary: s ds)
    case 0
    then show ?case by (subst task_wakeup_loop.simps) (simp add: fsched)
  next
    case (Suc n)
    obtain t r where w: "w_list s w = t # r" using Suc.hyps(2) by (cases "w_list s w") auto
    have t: "t_state s t = TASK_STATE_SLEEPING" "pc s t \<noteq> Napping"
      using on_list_sleeping(1,2) [OF sys_invD(2) [OF Suc.prems], of t w] w by (simp_all add: fs)
    note tw = task_wake_ok(1) [OF fq [OF Suc.prems] t(1)]
    have inv: "sys_inv ms ts (f (wake_post t s))" using wake_inv_plain [OF Suc.prems, of t] t by (simp add: fs)
    have "length (w_list (wake_post t s) w) = n" using Suc.hyps(2) w by (simp add: list_remove_def)
    note IH = Suc.hyps(1) [OF this [symmetric] inv]
    define ds' where "ds' = (ds \<or> t = current s \<or> t_prio s (current s) \<le> t_prio s t)"
    have "task_wakeup_loop w all ds s =
        (if \<not> all then Some (if ds' then schedule (wake_post t s) else wake_post t s)
         else task_wakeup_loop w all ds' (wake_post t s))"
      by (subst task_wakeup_loop.simps) (simp add: w t tw Let_def ds'_def)
    then show ?case using IH [of ds'] inv fsched [OF inv] by auto
  qed
  then show ?thesis by (simp add: task_wakeup_def task_wakeup_sched_locked_def)
qed

lemmas task_wakeup_inv = wakeup_inv_pending [where b = False, unfolded if_False]
lemmas task_wakeup_inv_pending = wakeup_inv_pending [where b = True, unfolded if_True]

lemma timeout_inv:
  assumes inv: "sys_inv ms ts s" and tm: "t_timer s t \<noteq> 0"
  defines "s1 \<equiv> s\<lparr>t_timer := (t_timer s)(t := 0)\<rparr>"
  shows "\<exists>s'. (if pc s t = Napping then task_sleep_until_timeout t s1 else task_sleep_abs_sched_locked_timeout t s1) = Some s' \<and>
    sys_inv ms ts s'"
proof (cases "t_state s t = TASK_STATE_SLEEPING")
  case True
  have q: "queues_ok s1" by (rule queues_ok_cong [OF sys_invD(1) [OF inv]]) (simp_all add: s1_def)
  have s1: "t_state s1 t = TASK_STATE_SLEEPING" using True by (simp add: s1_def)
  have w: "wake_post t s1 = (wake_post t s)\<lparr>t_timer := (t_timer s)(t := 0)\<rparr>"
    by (simp add: s1_def wake_post_def rq_put_def set_state_def list_remove_def)
  have i: "sys_inv ms ts (wake_post t s1)" unfolding w by (rule wake_inv [OF inv True]) simp
  note tw = task_wake_ok(1) [OF q s1]
  have nap: "list_remove t s1 = s1" if "pc s t = Napping"
  proof -
    have "on_lists s t = {}" using that threads_okD(1) [OF sys_invD(2) [OF inv], of t] by (simp add: pc_ok_def)
    then have "w_list s1 = (\<lambda>w. remove1 t (w_list s1 w))" by (auto simp: on_lists_def s1_def fun_eq_iff remove1_idem)
    then show ?thesis by (simp add: list_remove_def)
  qed
  show ?thesis
    using s1 tw nap sys_inv_schedule [OF i]
    by (auto simp: task_sleep_until_timeout_def task_sleep_abs_sched_locked_timeout_def)
next
  case False
  note d = sys_invD [OF inv]
  have pc: "pc s t \<noteq> Napping" "\<exists>w k. pc s t = Asleep w True k"
    using False tm threads_okD(1) [OF d(2), of t] by (auto simp: pc_ok_def split: pc.splits)
  have e: "on_lists s1 = on_lists s" "is_thread s1 = is_thread s" by (auto simp: s1_def on_lists_def is_thread_def fun_eq_iff)
  have "threads_ok ms ts s1"
  proof (rule threads_ok_upd [OF d(2), where t = t])
    show "pc_ok ms (pc s1 t) (t_state s1 t) (on_lists s1 t) (t_timer s1 t) (is_thread s1 t)"
      using threads_okD(1) [OF d(2), of t] pc unfolding e by (auto simp: s1_def pc_ok_def)
    show "mode s1 = In_thread \<Longrightarrow> \<not> pending s1 \<Longrightarrow> t_state s1 (current s) = TASK_STATE_RUNNING"
      using threads_okD(10) [OF d(2)] by (simp add: s1_def)
    show "t_state s1 t = TASK_STATE_RUNNING \<Longrightarrow> t = current s \<and> is_thread s1 t"
      using threads_okD(2,3) [OF d(2), of t] unfolding e by (simp add: s1_def)
    show "t = idle s \<Longrightarrow> pc s1 t = User \<and> is_thread s1 t" "t \<in> ts \<Longrightarrow> \<not> is_thread s1 t \<and> pc s1 t = User"
      using threads_okD(6-9) [OF d(2)] unfolding e by (auto simp: s1_def)
    show "is_thread s1 t \<Longrightarrow> t \<noteq> idle s \<Longrightarrow> t_refcount s1 t = 1" "pc s1 t = Exited \<Longrightarrow> is_thread s1 t \<Longrightarrow> t_flags s1 t AND TASK_DETACHED = 0"
      "t_state s1 t = TASK_STATE_ZOMBIE \<Longrightarrow> t \<noteq> idle s \<Longrightarrow> pc s1 t = Exited"
      using threads_okD(4,5,11) [OF d(2), of t] unfolding e by (auto simp: s1_def)
  qed (simp_all add: e, simp_all add: s1_def)
  moreover have "queues_ok s1" by (rule queues_ok_cong [OF d(1)]) (simp_all add: s1_def)
  moreover have "lists_ok s1" by (rule lists_ok_cong [OF d(3)]) (simp_all add: s1_def)
  moreover have "blocks_ok s1" "mutexes_ok ms s1" using d(4,6) by (simp_all add: s1_def blocks_ok_def mutexes_ok_def)
  moreover have "joins_ok s1" by (rule joins_ok_upd [OF d(5), where t = t]) (auto simp: s1_def)
  ultimately have "sys_inv ms ts s1" by (simp add: sys_inv_def)
  then show ?thesis using False pc by (simp add: task_sleep_abs_sched_locked_timeout_def s1_def)
qed

lemma joins_ok_set:
  assumes ok: "joins_ok s" and same: "t_flags s' = t_flags s" "idle s' = idle s" "\<And>u. u \<noteq> t \<Longrightarrow> pc s' u = pc s u"
    and t: "\<And>w tm u. pc s' t = Asleep w tm (K_join u) \<Longrightarrow> is_thread s u \<and> t_flags s u AND TASK_DETACHED = 0 \<and> u \<noteq> idle s \<and>
      (\<forall>v w tm. v \<noteq> t \<longrightarrow> pc s v \<noteq> Asleep w tm (K_join u))"
  shows "joins_ok s'"
proof -
  have th: "is_thread s' u = is_thread s u" for u using same(1) by (simp add: is_thread_def)
  show ?thesis
    unfolding joins_ok_def th same(1,2)
  proof (intro conjI allI impI)
    fix v u w tm
    assume "pc s' v = Asleep w tm (K_join u)"
    then have "is_thread s u \<and> t_flags s u AND TASK_DETACHED = 0 \<and> u \<noteq> idle s"
      using t [of w tm u] same(3) [of v] ok unfolding joins_ok_def by (cases "v = t") auto
    then show "is_thread s u" "t_flags s u AND TASK_DETACHED = 0" "u \<noteq> idle s" by auto
  next
    fix v v' u w w' tm tm'
    assume a: "pc s' v = Asleep w tm (K_join u) \<and> pc s' v' = Asleep w' tm' (K_join u)"
    show "v = v'"
    proof (cases "v = t \<or> v' = t")
      case True
      then show ?thesis using a t [of w tm u] t [of w' tm' u] same(3) [of v] same(3) [of v'] by metis
    next
      case False
      then show ?thesis using a ok same(3) [of v] same(3) [of v'] unfolding joins_ok_def by metis
    qed
  qed
qed

text \<open>The running thread goes to sleep, on a wait list or with a timer only.\<close>

definition block_post :: "nat option \<Rightarrow> u64 \<Rightarrow> pc \<Rightarrow> sys \<Rightarrow> sys" where
  "block_post wo d p s = (let cur = current s; s1 = (set_state cur TASK_STATE_SLEEPING s)\<lparr>t_timer := (t_timer s)(cur := d)\<rparr> in
     set_pc cur p (schedule (case wo of None \<Rightarrow> s1 | Some w \<Rightarrow> task_insert_wait_list w cur s1)))"

lemma block_post_sel [simp]:
  "t_state (block_post wo d p s) = (t_state s)(current s := TASK_STATE_SLEEPING)" "t_prio (block_post wo d p s) = t_prio s"
  "pc (block_post wo d p s) = (pc s)(current s := p)" "t_timer (block_post wo d p s) = (t_timer s)(current s := d)"
  "held (block_post wo d p s) = held s" "m_lock (block_post wo d p s) = m_lock s" "current (block_post wo d p s) = current s"
  "idle (block_post wo d p s) = idle s" "t_flags (block_post wo d p s) = t_flags s" "t_refcount (block_post wo d p s) = t_refcount s"
  "mode (block_post wo d p s) = mode s" "pending (block_post wo d p s)" "blocks (block_post wo d p s) = blocks s"
  "readyqueue (block_post wo d p s) = readyqueue s" "active_queues (block_post wo d p s) = active_queues s"
  "w_list (block_post wo d p s) = (case wo of None \<Rightarrow> w_list s | Some w \<Rightarrow> w_list (task_insert_wait_list w (current s) s))"
  by (simp_all add: block_post_def Let_def set_pc_def schedule_def task_insert_wait_list_def set_state_def split: option.splits)

lemma running_facts:
  assumes "threads_ok ms ts s" "t_state s (current s) = TASK_STATE_RUNNING"
  shows "is_thread s (current s)" "on_lists s (current s) = {}" "current s \<notin> ts" "pc s (current s) \<noteq> Exited"
    "current s \<noteq> idle s \<Longrightarrow> t_refcount s (current s) = 1"
  using threads_okD(1,3,4,8) [OF assms(1), of "current s"] assms(2) by (auto simp: pc_ok_def split: pc.splits)

lemma block_inv:
  assumes inv: "sys_inv ms ts s" and run: "t_state s (current s) = TASK_STATE_RUNNING" and ni: "current s \<noteq> idle s"
    and p: "pc_ok ms p TASK_STATE_SLEEPING (set_option wo) d True"
    and keep: "\<And>m. pc s (current s) = Locking m \<Longrightarrow> m_lock s m" "\<And>w. wo = Some w \<Longrightarrow> w \<in> ms \<Longrightarrow> m_lock s w"
    and j: "\<And>w tm u. p = Asleep w tm (K_join u) \<Longrightarrow> is_thread s u \<and> t_flags s u AND TASK_DETACHED = 0 \<and> u \<noteq> idle s \<and>
      (\<forall>v w tm. v \<noteq> current s \<longrightarrow> pc s v \<noteq> Asleep w tm (K_join u))"
  shows "sys_inv ms ts (block_post wo d p s)"
proof -
  let ?c = "current s" and ?s = "block_post wo d p s"
  note dd = sys_invD [OF inv]
  note rf = running_facts [OF dd(2) run]
  have pe: "p \<noteq> Exited" "p \<noteq> User" using p by (auto simp: pc_ok_def awake_def)
  have ol: "on_lists ?s u = (if u = ?c then set_option wo else on_lists s u)" for u
    using on_lists_insert [of _ ?c s u] rf(2) by (cases wo) (auto simp: on_lists_def)
  have th: "is_thread ?s u = is_thread s u" for u by (simp add: is_thread_def)
  have "queues_ok ?s" by (rule queues_ok_cong [OF dd(1)]) (simp_all add: run)
  moreover have "threads_ok ms ts ?s"
    by (rule threads_ok_upd [OF dd(2), where t = ?c]) (use p rf ni pe in \<open>simp_all add: ol th\<close>)
  moreover have "lists_ok ?s"
    by (cases wo) (use dd(3) lists_ok_insert [OF dd(3) rf(2)] in \<open>simp_all add: lists_ok_def task_insert_wait_list_def\<close>)
  moreover have "blocks_ok ?s" by (rule blocks_ok_upd [OF dd(4), where t = ?c]) (use rf pe in simp_all)
  moreover have "joins_ok ?s" by (rule joins_ok_set [OF dd(5), where t = ?c]) (use j in simp_all)
  moreover have "mutexes_ok ms ?s"
  proof -
    have "\<exists>u. pc ?s u = Locking m \<and> awake (t_state ?s u)" if m: "m \<in> ms" "\<not> m_lock s m" "w_list ?s m \<noteq> []" for m
    proof -
      have "wo \<noteq> Some m" using keep(2) m by blast
      then have "w_list s m \<noteq> []" using m(3) by (auto simp: task_insert_wait_list_def split: option.splits if_splits)
      then obtain u where u: "pc s u = Locking m" "awake (t_state s u)" using dd(6) m unfolding mutexes_ok_def by blast
      then have "u \<noteq> ?c" using keep(1) m by auto
      then show ?thesis using u by auto
    qed
    then show ?thesis using dd(6) pe unfolding mutexes_ok_def by auto
  qed
  ultimately show ?thesis by (simp add: sys_inv_def)
qed

text \<open>A blocking function of the running thread ends.\<close>

lemma user_inv:
  assumes inv: "sys_inv ms ts s" and run: "t_state s (current s) = TASK_STATE_RUNNING"
    and keep: "\<And>m. pc s (current s) = Locking m \<Longrightarrow> m_lock s m"
  shows "sys_inv ms ts (set_pc (current s) User (s\<lparr>t_timer := (t_timer s)(current s := 0)\<rparr>))"
proof -
  let ?c = "current s"
  define s' where "s' = set_pc ?c User (s\<lparr>t_timer := (t_timer s)(?c := 0)\<rparr>)"
  note dd = sys_invD [OF inv]
  note rf = running_facts [OF dd(2) run]
  have ol: "on_lists s' = on_lists s" "is_thread s' = is_thread s" by (auto simp: s'_def set_pc_def on_lists_def is_thread_def fun_eq_iff)
  have "queues_ok s'" by (rule queues_ok_cong [OF dd(1)]) (simp_all add: s'_def set_pc_def)
  moreover have "threads_ok ms ts s'"
    by (rule threads_ok_upd [OF dd(2), where t = ?c])
      (use rf run in \<open>simp_all add: ol\<close>, use rf run in \<open>simp_all add: s'_def set_pc_def pc_ok_def awake_def\<close>)
  moreover have "lists_ok s'" by (rule lists_ok_cong [OF dd(3)]) (simp_all add: s'_def set_pc_def)
  moreover have "blocks_ok s'" by (rule blocks_ok_upd [OF dd(4), where t = ?c]) (use rf in \<open>simp_all add: s'_def set_pc_def\<close>)
  moreover have "joins_ok s'" by (rule joins_ok_upd [OF dd(5), where t = ?c]) (auto simp: s'_def set_pc_def)
  moreover have "mutexes_ok ms s'"
  proof -
    have "\<exists>u. pc s' u = Locking m \<and> awake (t_state s' u)" if m: "m \<in> ms" "\<not> m_lock s m" "w_list s m \<noteq> []" for m
    proof -
      obtain u where u: "pc s u = Locking m" "awake (t_state s u)" using dd(6) m unfolding mutexes_ok_def by blast
      then have "u \<noteq> ?c" using keep m by auto
      then show ?thesis using u by (auto simp: s'_def set_pc_def)
    qed
    then show ?thesis using dd(6) unfolding mutexes_ok_def by (auto simp: s'_def set_pc_def)
  qed
  ultimately show ?thesis by (simp add: sys_inv_def s'_def)
qed

text \<open>The lock bit and the holder change together.\<close>

lemma sys_inv_mutex:
  assumes inv: "sys_inv ms ts s" and m: "mutexes_ok ms (s\<lparr>m_lock := l, held := h\<rparr>)"
  shows "sys_inv ms ts (s\<lparr>m_lock := l, held := h\<rparr>)"
  by (rule sys_inv_same [OF inv _ _ _ _ _ _ _ _ _ _ _ _ _ _ m]) (use threads_okD(10) [OF sys_invD(2) [OF inv]] in simp_all)

lemma mutexes_okD:
  assumes "mutexes_ok ms s"
  shows "held s t \<subseteq> ms" "pc s t = Exited \<Longrightarrow> held s t = {}" "m \<in> ms \<Longrightarrow> m_lock s m \<longleftrightarrow> (\<exists>t. m \<in> held s t)"
    "m \<in> held s t \<Longrightarrow> m \<in> held s u \<Longrightarrow> t = u"
    "m \<in> ms \<Longrightarrow> \<not> m_lock s m \<Longrightarrow> w_list s m \<noteq> [] \<Longrightarrow> \<exists>t. pc s t = Locking m \<and> awake (t_state s t)"
  using assms unfolding mutexes_ok_def by blast+

lemma mutexes_okI:
  assumes "\<And>t. held s t \<subseteq> ms" "\<And>t. pc s t = Exited \<Longrightarrow> held s t = {}" "\<And>m. m \<in> ms \<Longrightarrow> m_lock s m \<longleftrightarrow> (\<exists>t. m \<in> held s t)"
    "\<And>t u m. m \<in> held s t \<Longrightarrow> m \<in> held s u \<Longrightarrow> t = u"
    "\<And>m. m \<in> ms \<Longrightarrow> \<not> m_lock s m \<Longrightarrow> w_list s m \<noteq> [] \<Longrightarrow> \<exists>t. pc s t = Locking m \<and> awake (t_state s t)"
  shows "mutexes_ok ms s"
  using assms unfolding mutexes_ok_def by blast

lemma acquire_inv:
  assumes inv: "sys_inv ms ts s" and m: "m \<in> ms" "\<not> m_lock s m" and e: "pc s c \<noteq> Exited"
  shows "sys_inv ms ts (take_mutex c m (s\<lparr>m_lock := (m_lock s)(m := True)\<rparr>))"
proof -
  note d = mutexes_okD [OF sys_invD(6) [OF inv]]
  have n: "m \<notin> held s t" for t using d(3) m by blast
  have ex: "(\<exists>t. x \<in> ((held s)(c := insert m (held s c))) t) \<longleftrightarrow> x = m \<or> (\<exists>t. x \<in> held s t)" for x
    by (metis fun_upd_apply insert_iff)
  define s' where "s' = s\<lparr>m_lock := (m_lock s)(m := True), held := (held s)(c := insert m (held s c))\<rparr>"
  have f: "held s' = (held s)(c := insert m (held s c))" "m_lock s' = (m_lock s)(m := True)" "pc s' = pc s" "w_list s' = w_list s"
    "t_state s' = t_state s" by (simp_all add: s'_def)
  have "mutexes_ok ms s'"
    by (rule mutexes_okI; unfold f ex) (use d m n e in \<open>auto split: if_splits\<close>)
  then show ?thesis using sys_inv_mutex [OF inv] by (simp add: take_mutex_def s'_def)
qed

lemma drop_inv:
  assumes inv: "sys_inv ms ts s" and m: "m \<in> held s c"
    and w: "w_list s m \<noteq> [] \<Longrightarrow> \<exists>t. pc s t = Locking m \<and> awake (t_state s t)"
  shows "sys_inv ms ts (drop_mutex c m (s\<lparr>m_lock := (m_lock s)(m := False)\<rparr>))"
proof -
  note d = mutexes_okD [OF sys_invD(6) [OF inv]]
  have n: "m \<notin> held s t" if "t \<noteq> c" for t using d(4) m that by blast
  have ex: "(\<exists>t. x \<in> ((held s)(c := held s c - {m})) t) \<longleftrightarrow> x \<noteq> m \<and> (\<exists>t. x \<in> held s t)" for x
    using n by (metis Diff_iff empty_iff fun_upd_apply insert_iff)
  define s' where "s' = s\<lparr>m_lock := (m_lock s)(m := False), held := (held s)(c := held s c - {m})\<rparr>"
  have f: "held s' = (held s)(c := held s c - {m})" "m_lock s' = (m_lock s)(m := False)" "pc s' = pc s" "w_list s' = w_list s"
    "t_state s' = t_state s" by (simp_all add: s'_def)
  have "mutexes_ok ms s'"
    by (rule mutexes_okI; unfold f ex) (use d m n w in \<open>auto split: if_splits\<close>)
  then show ?thesis using sys_inv_mutex [OF inv] by (simp add: drop_mutex_def s'_def)
qed

section \<open>Operations of the running thread\<close>

lemma timer_idle: "t_timer s c = 0 \<Longrightarrow> (t_timer s)(c := 0) = t_timer s"
  by (simp add: fun_upd_idem)

lemma sleep_sched_locked_eq:
  assumes "queues_ok s" "t_state s (current s) = TASK_STATE_RUNNING" "t_timer s (current s) = 0"
  shows "map_option (set_pc (current s) p) (task_sleep_sched_locked w s) = Some (block_post (Some w) 0 p s)"
proof -
  have "queues_ok (set_state (current s) TASK_STATE_SLEEPING s)"
    by (rule queues_ok_cong [OF assms(1)]) (simp_all add: set_state_def assms(2))
  then have "\<not> task_is_on_readyqueue (current s) (set_state (current s) TASK_STATE_SLEEPING s)"
    by (simp add: task_is_on_readyqueue_iff) (simp add: set_state_def)
  then show ?thesis
    using assms(2,3) by (simp add: task_sleep_sched_locked_def block_post_def Let_def set_state_def timer_idle)
qed

lemma sleep_abs_sched_locked_eq:
  assumes "queues_ok s" "t_state s (current s) = TASK_STATE_RUNNING"
  shows "map_option (set_pc (current s) p) (task_sleep_abs_sched_locked w d s) = Some (block_post (Some w) d p s)"
proof -
  have "queues_ok (set_state (current s) TASK_STATE_SLEEPING s)"
    by (rule queues_ok_cong [OF assms(1)]) (simp_all add: set_state_def assms(2))
  then have "\<not> task_is_on_readyqueue (current s) (set_state (current s) TASK_STATE_SLEEPING s)"
    by (simp add: task_is_on_readyqueue_iff) (simp add: set_state_def)
  then show ?thesis
    using assms(2) by (simp add: task_sleep_abs_sched_locked_def block_post_def Let_def) (simp add: set_state_def)
qed

lemma lock_ok:
  assumes inv: "sys_inv ms ts s" and run: "t_state s (current s) = TASK_STATE_RUNNING" and ni: "current s \<noteq> idle s"
    and m: "m \<in> ms" and tz: "t_timer s (current s) = 0" and lk: "\<And>x. pc s (current s) = Locking x \<Longrightarrow> x = m"
  shows "\<exists>s'. lock_or_wait m (mutex_lock_sched_locked m s) = Some s' \<and> sys_inv ms ts s'"
proof (cases "m_lock s m")
  case True
  note d = sys_invD [OF inv]
  note rf = running_facts [OF d(2) run]
  have "\<not> task_is_on_readyqueue (current s) s" using task_is_on_readyqueue_iff [OF d(1)] run by simp
  moreover have "current s \<notin> set (w_list s m)" using rf(2) by (auto simp: on_lists_def)
  ultimately have "lock_or_wait m (mutex_lock_sched_locked m s) = Some (block_post (Some m) 0 (Locking m) s)"
    using True run tz
    by (simp add: lock_or_wait_def mutex_lock_sched_locked_def block_post_def Let_def)
      (simp add: task_insert_wait_list_def set_state_def schedule_def timer_idle)
  moreover have "sys_inv ms ts (block_post (Some m) 0 (Locking m) s)"
    by (rule block_inv [OF inv run ni]) (use m True lk in \<open>auto simp: pc_ok_def\<close>)
  ultimately show ?thesis by blast
next
  case False
  note rf = running_facts [OF sys_invD(2) [OF inv] run]
  define s1 where "s1 = take_mutex (current s) m (s\<lparr>m_lock := (m_lock s)(m := True)\<rparr>)"
  have i1: "sys_inv ms ts s1" unfolding s1_def by (rule acquire_inv [OF inv m False rf(4)])
  have c: "current s1 = current s" "t_state s1 = t_state s" "t_timer s1 = t_timer s" "pc s1 = pc s" "m_lock s1 = (m_lock s)(m := True)"
    by (simp_all add: s1_def take_mutex_def)
  have "sys_inv ms ts (set_pc (current s1) User (s1\<lparr>t_timer := (t_timer s1)(current s1 := 0)\<rparr>))"
    by (rule user_inv [OF i1]) (use c run lk in auto)
  moreover have "s1\<lparr>t_timer := (t_timer s1)(current s1 := 0)\<rparr> = s1" using c tz by (simp add: timer_idle)
  moreover have "lock_or_wait m (mutex_lock_sched_locked m s) = Some (set_pc (current s1) User s1)"
    using False c by (simp add: lock_or_wait_def mutex_lock_sched_locked_def Let_def s1_def)
  ultimately show ?thesis by simp
qed

lemma mutex_lock_eq: "mutex_lock hit m s = mutex_lock_sched_locked m s"
  by (simp add: mutex_lock_def mutex_lock_slow_def mutex_lock_sched_locked_def Let_def)

lemma mutex_trylock_eq: "mutex_trylock hit m s = mutex_trylock_slow m s"
  by (simp add: mutex_trylock_def mutex_trylock_slow_def)

lemma mutex_unlock_eq: "mutex_unlock hit m s = mutex_unlock_sched_locked m s"
  by (simp add: mutex_unlock_def mutex_unlock_slow_def mutex_unlock_sched_locked_def Let_def)

lemma schedule_sel [simp]:
  "current (schedule s) = current s" "t_state (schedule s) = t_state s" "idle (schedule s) = idle s" "t_timer (schedule s) = t_timer s"
  "t_prio (schedule s) = t_prio s" "pc (schedule s) = pc s" "mode (schedule s) = mode s" "pending (schedule s)" "held (schedule s) = held s"
  "t_flags (schedule s) = t_flags s" "w_list (schedule s) = w_list s" "m_lock (schedule s) = m_lock s"
  "t_refcount (schedule s) = t_refcount s" "readyqueue (schedule s) = readyqueue s" "active_queues (schedule s) = active_queues s"
  "blocks (schedule s) = blocks s"
  by (simp_all add: schedule_def)

lemma drop_mutex_commute:
  "drop_mutex c m (schedule s) = schedule (drop_mutex c m s)"
  "drop_mutex c m (wake_post t s) = wake_post t (drop_mutex c m s)"
  by (simp_all add: drop_mutex_def schedule_def wake_post_def rq_put_def list_remove_def set_state_def)

lemma unlock_ok:
  assumes inv: "sys_inv ms ts s" and run: "t_state s (current s) = TASK_STATE_RUNNING" and h: "m \<in> held s (current s)"
  shows "\<exists>u. mutex_unlock_sched_locked m s = Some u \<and> sys_inv ms ts (drop_mutex (current s) m u) \<and>
    current u = current s \<and> t_state u (current s) = TASK_STATE_RUNNING \<and> idle u = idle s \<and> t_timer u = t_timer s \<and>
    pc u = pc s \<and> mode u = mode s"
proof -
  let ?c = "current s"
  note d = sys_invD [OF inv]
  note md = mutexes_okD [OF d(6)]
  have m: "m \<in> ms" "m_lock s m" using md(1) [of ?c] h md(3) by auto
  define s1 where "s1 = s\<lparr>m_lock := (m_lock s)(m := False)\<rparr>"
  have c: "current s1 = ?c" "t_state s1 = t_state s" "w_list s1 = w_list s" "t_prio s1 = t_prio s" by (simp_all add: s1_def)
  show ?thesis
  proof (cases "w_list s m")
    case Nil
    have "mutex_unlock_sched_locked m s = Some s1" using Nil m by (simp add: mutex_unlock_sched_locked_def s1_def)
    then show ?thesis using drop_inv [OF inv h] Nil run by (simp add: s1_def)
  next
    case (Cons t r)
    note sl = on_list_sleeping [OF d(2), of t m]
    have t: "t_state s t = TASK_STATE_SLEEPING" "pc s t \<noteq> Napping" "pc s t = Locking m" using sl Cons m by simp_all
    have tc: "t \<noteq> ?c" using t run by auto
    have q: "queues_ok s1" by (rule queues_ok_cong [OF d(1)]) (simp_all add: s1_def)
    have ins: "readyqueue_insert t (list_remove t s1) = Some (wake_post t s1)"
      using task_wake_ok(1) [OF q, of t] t tc c by (simp add: task_wake_def)
    have un: "mutex_unlock_sched_locked m s =
        Some (if t_prio s (current s) \<le> t_prio s t then schedule (wake_post t s1) else wake_post t s1)"
      using ins Cons m c by (simp add: mutex_unlock_sched_locked_def s1_def [symmetric])
    have iw: "sys_inv ms ts (wake_post t s)" by (rule wake_inv_plain [OF inv t(1,2)])
    have hw: "m \<in> held (wake_post t s) ?c" using h by simp
    have ex: "\<exists>x. pc (wake_post t s) x = Locking m \<and> awake (t_state (wake_post t s) x)"
      using t tc by (intro exI [of _ t]) (simp add: awake_def)
    have "sys_inv ms ts (drop_mutex ?c m ((wake_post t s)\<lparr>m_lock := (m_lock (wake_post t s))(m := False)\<rparr>))"
      by (rule drop_inv [OF iw hw]) (rule ex)
    moreover have "(wake_post t s)\<lparr>m_lock := (m_lock (wake_post t s))(m := False)\<rparr> = wake_post t s1"
      by (simp add: s1_def wake_post_def rq_put_def list_remove_def set_state_def)
    ultimately have i: "sys_inv ms ts (drop_mutex ?c m (wake_post t s1))" by simp
    show ?thesis
      unfolding un using i sys_inv_schedule [OF i] tc run
      by (simp add: drop_mutex_commute(1)) (simp add: s1_def)
  qed
qed

lemma cond_wait_ok:
  assumes inv: "sys_inv ms ts s" and run: "t_state s (current s) = TASK_STATE_RUNNING" and ni: "current s \<noteq> idle s"
    and h: "m \<in> held s (current s)" and c: "c \<notin> ms" and us: "pc s (current s) = User"
  shows "\<exists>s'. map_option (set_pc (current s) (Asleep c False (K_relock m)) \<circ> drop_mutex (current s) m) (cond_wait c m s) = Some s' \<and> sys_inv ms ts s'"
    "\<exists>s'. map_option (set_pc (current s) (Asleep c True (K_relock m)) \<circ> drop_mutex (current s) m) (cond_wait_timeout c m d s) = Some s' \<and> sys_inv ms ts s'"
proof -
  let ?c = "current s"
  have mm: "m \<in> ms" using mutexes_okD(1) [OF sys_invD(6) [OF inv], of ?c] h by auto
  have tz: "t_timer s ?c = 0" using threads_okD(1) [OF sys_invD(2) [OF inv], of ?c] us by (simp add: pc_ok_def)
  obtain u where u: "mutex_unlock_sched_locked m s = Some u" "sys_inv ms ts (drop_mutex ?c m u)" "current u = ?c"
    "t_state u ?c = TASK_STATE_RUNNING" "idle u = idle s" "t_timer u = t_timer s" "pc u = pc s"
    using unlock_ok [OF inv run h] by blast
  define v where "v = drop_mutex ?c m u"
  have v: "current v = ?c" "t_state v ?c = TASK_STATE_RUNNING" "idle v = idle s" "t_timer v ?c = 0" "pc v ?c = User" "queues_ok v"
    using u tz us sys_invD(1) [OF u(2)] by (simp_all add: v_def drop_mutex_def)
  have comm: "map_option (set_pc ?c p \<circ> drop_mutex ?c m) (task_sleep_sched_locked c u) = map_option (set_pc ?c p) (task_sleep_sched_locked c v)"
    "map_option (set_pc ?c p \<circ> drop_mutex ?c m) (task_sleep_abs_sched_locked c d u) = map_option (set_pc ?c p) (task_sleep_abs_sched_locked c d v)" for p
    by (cases u; simp add: v_def task_sleep_sched_locked_def task_sleep_abs_sched_locked_def Let_def drop_mutex_def set_pc_def set_state_def
        schedule_def task_insert_wait_list_def task_is_on_readyqueue_def)+
  have "sys_inv ms ts (block_post (Some c) 0 (Asleep c False (K_relock m)) v)"
    by (rule block_inv) (use u(2) v ni c mm in \<open>auto simp: pc_ok_def v_def [symmetric]\<close>)
  then show "\<exists>s'. map_option (set_pc ?c (Asleep c False (K_relock m)) \<circ> drop_mutex ?c m) (cond_wait c m s) = Some s' \<and> sys_inv ms ts s'"
    using sleep_sched_locked_eq [of v "Asleep c False (K_relock m)" c] v u(1) comm(1) by (simp add: cond_wait_def del: map_option_eq_Some)
  have "sys_inv ms ts (block_post (Some c) d (Asleep c True (K_relock m)) v)"
    by (rule block_inv) (use u(2) v ni c mm in \<open>auto simp: pc_ok_def v_def [symmetric]\<close>)
  then show "\<exists>s'. map_option (set_pc ?c (Asleep c True (K_relock m)) \<circ> drop_mutex ?c m) (cond_wait_timeout c m d s) = Some s' \<and> sys_inv ms ts s'"
    using sleep_abs_sched_locked_eq [of v "Asleep c True (K_relock m)" c d] v u(1) comm(2) by (simp add: cond_wait_timeout_def del: map_option_eq_Some)
qed

lemma can_blockD:
  assumes "sys_inv ms ts s" "can_block s"
  shows "t_state s (current s) = TASK_STATE_RUNNING" "current s \<noteq> idle s" "pc s (current s) = User"
    "t_timer s (current s) = 0" "mode s = In_thread"
  using assms threads_okD(1) [OF sys_invD(2) [OF assms(1)], of "current s"]
  by (auto simp: can_block_def can_act_def pc_ok_def)

lemma sleep_steps_ok:
  assumes inv: "sys_inv ms ts s" and cb: "can_block s"
  shows "w \<notin> ms \<Longrightarrow> \<exists>s'. map_option (set_pc (current s) (Asleep w False K_return)) (task_sleep w s) = Some s' \<and> sys_inv ms ts s'"
    "w \<notin> ms \<Longrightarrow> \<exists>s'. map_option (set_pc (current s) (Asleep w True K_return)) (task_sleep_deadline w d s) = Some s' \<and> sys_inv ms ts s'"
    "d \<noteq> 0 \<Longrightarrow> \<exists>s'. map_option (set_pc (current s) Napping) (sleep_until d s) = Some s' \<and> sys_inv ms ts s'"
proof -
  note c = can_blockD [OF inv cb]
  note q = sys_invD(1) [OF inv]
  show "\<exists>s'. map_option (set_pc (current s) (Asleep w False K_return)) (task_sleep w s) = Some s' \<and> sys_inv ms ts s'" if "w \<notin> ms"
    unfolding task_sleep_def sleep_sched_locked_eq [OF q c(1,4)]
    using block_inv [OF inv c(1,2), of "Asleep w False K_return" "Some w" 0] that c by (simp add: pc_ok_def)
  show "\<exists>s'. map_option (set_pc (current s) (Asleep w True K_return)) (task_sleep_deadline w d s) = Some s' \<and> sys_inv ms ts s'" if "w \<notin> ms"
    unfolding task_sleep_deadline_def sleep_abs_sched_locked_eq [OF q c(1)]
    using block_inv [OF inv c(1,2), of "Asleep w True K_return" "Some w" d] that c by (simp add: pc_ok_def)
  assume d: "d \<noteq> 0"
  have "map_option (set_pc (current s) Napping) (sleep_until d s) = Some (block_post None d Napping s)"
    using c(1) by (simp add: sleep_until_def thread_sleep_until_def block_post_def Let_def set_state_def)
  then show "\<exists>s'. map_option (set_pc (current s) Napping) (sleep_until d s) = Some s' \<and> sys_inv ms ts s'"
    using block_inv [OF inv c(1,2), of Napping None d] d c by (simp add: pc_ok_def del: map_option_eq_Some)
qed

lemma trylock_ok:
  assumes inv: "sys_inv ms ts s" and cb: "can_block s" and m: "m \<in> ms" and e: "mutex_trylock hit m s = (taken, s')"
  shows "sys_inv ms ts (if taken then s' else take_mutex (current s) m s')"
  using e acquire_inv [OF inv m, of "current s"] can_blockD(3) [OF inv cb] inv
  by (auto simp: mutex_trylock_eq mutex_trylock_slow_def split: if_splits)

text \<open>The timer of a thread that has woken up is disarmed.\<close>

lemma timer_clear_inv:
  assumes inv: "sys_inv ms ts s" and st: "t_state s t \<noteq> TASK_STATE_SLEEPING" and pc: "pc s t \<noteq> Napping"
  shows "sys_inv ms ts (s\<lparr>t_timer := (t_timer s)(t := 0)\<rparr>)"
proof (cases "t_timer s t = 0")
  case True
  then show ?thesis using inv by (simp add: timer_idle)
next
  case False
  then show ?thesis using timeout_inv [OF inv False] st pc by (simp add: task_sleep_abs_sched_locked_timeout_def)
qed

lemma user_inv_plain:
  assumes "sys_inv ms ts s" "t_state s (current s) = TASK_STATE_RUNNING" "t_timer s (current s) = 0" "\<And>m. pc s (current s) \<noteq> Locking m"
  shows "sys_inv ms ts (set_pc (current s) User s)"
  using user_inv [OF assms(1,2)] assms(3,4) by (simp add: timer_idle)

text \<open>A task is put on the ready queue: a thread is made or released, a task is run, the running
  thread is preempted.\<close>

lemma queues_ok_prio:
  assumes "queues_ok s" "t_state s t \<noteq> TASK_STATE_READY" "p < TASK_PRIOS"
    "t_prio s' = (t_prio s)(t := p)" "t_state s' = t_state s" "readyqueue s' = readyqueue s" "active_queues s' = active_queues s"
  shows "queues_ok s'"
  using assms(1-3) unfolding queues_ok_def assms(4-) by auto

lemma put_inv:
  assumes inv: "sys_inv ms ts s" and nr: "t_state s t \<noteq> TASK_STATE_READY"
    and q: "queues_ok s'" and st: "t_state s' = (t_state s)(t := TASK_STATE_READY)"
    and same: "t_timer s' = t_timer s" "current s' = current s" "idle s' = idle s" "w_list s' = w_list s" "m_lock s' = m_lock s"
      "held s' = held s"
    and others: "\<And>u. u \<noteq> t \<Longrightarrow> pc s' u = pc s u \<and> t_flags s' u = t_flags s u \<and> t_refcount s' u = t_refcount s u \<and> t_prio s' u = t_prio s u"
    and pc: "pc_ok ms (pc s' t) TASK_STATE_READY {} (t_timer s t) (is_thread s' t)"
    and rc: "is_thread s' t \<Longrightarrow> t \<noteq> idle s \<Longrightarrow> t_refcount s' t = 1"
    and fixed: "t = idle s \<Longrightarrow> pc s' t = User \<and> is_thread s' t" "t \<in> ts \<Longrightarrow> \<not> is_thread s' t \<and> pc s' t = User"
    and run: "mode s' = In_thread \<Longrightarrow> \<not> pending s' \<Longrightarrow> current s \<noteq> t \<and> t_state s (current s) = TASK_STATE_RUNNING"
    and ol: "on_lists s t = {}" and b: "blocks_ok s'" and j: "joins_ok s'"
    and m: "pc s' t = Exited \<Longrightarrow> held s t = {}" "\<And>m. pc s t = Locking m \<Longrightarrow> pc s' t = Locking m"
  shows "sys_inv ms ts s'"
proof -
  note d = sys_invD [OF inv]
  have e: "on_lists s' = on_lists s" by (simp add: fun_eq_iff on_lists_def same)
  have "threads_ok ms ts s'"
  proof (rule threads_ok_upd [OF d(2), where t = t])
    show "pc s' t = Exited \<Longrightarrow> is_thread s' t \<Longrightarrow> t_flags s' t AND TASK_DETACHED = 0" using pc by (simp add: pc_ok_def)
  qed (use others pc rc fixed run ol in \<open>auto simp: e st same\<close>)
  moreover have "lists_ok s'"
  proof -
    have "t \<notin> set (w_list s w)" for w using ol by (auto simp: on_lists_def)
    then have "t_prio s' u = t_prio s u" if "u \<in> set (w_list s w)" for u w using that others by metis
    then show ?thesis using d(3) unfolding lists_ok_def same by (metis (no_types, lifting) sorted_wrt_mono_rel)
  qed
  moreover have "mutexes_ok ms s'"
  proof (rule mutexes_okI)
    note md = mutexes_okD [OF d(6)]
    show "held s' u = {}" if "pc s' u = Exited" for u using that md(2) [of u] others [of u] m(1) same by (cases "u = t") auto
    show "\<exists>u. pc s' u = Locking x \<and> awake (t_state s' u)" if x: "x \<in> ms" "\<not> m_lock s' x" "w_list s' x \<noteq> []" for x
    proof -
      obtain u where u: "pc s u = Locking x" "awake (t_state s u)" using md(5) [of x] x same by auto
      then show ?thesis using others [of u] m(2) [of x] st by (cases "u = t") (auto simp: awake_def)
    qed
    show "held s' u \<subseteq> ms" "x \<in> ms \<Longrightarrow> m_lock s' x \<longleftrightarrow> (\<exists>t. x \<in> held s' t)"
      "x \<in> held s' u \<Longrightarrow> x \<in> held s' v \<Longrightarrow> u = v" for u v x
      unfolding same by (rule md; assumption?)+
  qed
  ultimately show ?thesis using q b j by (simp add: sys_inv_def)
qed

lemma rq_put_sel [simp]:
  "t_state (rq_put t s) = (t_state s)(t := TASK_STATE_READY)" "t_prio (rq_put t s) = t_prio s" "t_flags (rq_put t s) = t_flags s"
  "t_refcount (rq_put t s) = t_refcount s" "t_timer (rq_put t s) = t_timer s" "current (rq_put t s) = current s"
  "idle (rq_put t s) = idle s" "w_list (rq_put t s) = w_list s" "m_lock (rq_put t s) = m_lock s" "blocks (rq_put t s) = blocks s"
  "pending (rq_put t s) = pending s" "pc (rq_put t s) = pc s" "held (rq_put t s) = held s" "mode (rq_put t s) = mode s"
  by (simp_all add: rq_put_def)

lemma run_ok:
  assumes inv: "sys_inv ms ts s" and t: "t \<in> ts"
  shows "\<exists>s'. task_run t s = Some s' \<and> sys_inv ms ts s'"
proof (cases "t_state s t = TASK_STATE_NONE")
  case True
  note d = sys_invD [OF inv]
  have nr: "t_state s t \<noteq> TASK_STATE_READY" using True by simp
  note ins = readyqueue_insert_ok [OF d(1) nr]
  have u: "pc s t = User" "\<not> is_thread s t" using threads_okD(8,9) [OF d(2) t] by auto
  have k: "on_lists s t = {}" "t_timer s t = 0" using threads_okD(1) [OF d(2), of t] u by (simp_all add: pc_ok_def)
  have ti: "t \<noteq> idle s" using threads_okD(7) [OF d(2)] u(2) by auto
  have th: "is_thread (rq_put t s) t = is_thread s t" by (simp add: is_thread_def)
  have "sys_inv ms ts (rq_put t s)"
  proof (rule put_inv [OF inv nr ins(2)])
    show "pc_ok ms (pc (rq_put t s) t) TASK_STATE_READY {} (t_timer s t) (is_thread (rq_put t s) t)"
      using u k by (simp add: pc_ok_def)
    show "blocks_ok (rq_put t s)" by (rule blocks_ok_upd [OF d(4), where t = t]) (use u in simp_all)
    show "joins_ok (rq_put t s)" by (rule joins_ok_upd [OF d(5), where t = t]) auto
    show "mode (rq_put t s) = In_thread \<Longrightarrow> \<not> pending (rq_put t s) \<Longrightarrow> current s \<noteq> t \<and> t_state s (current s) = TASK_STATE_RUNNING"
      using threads_okD(10) [OF d(2)] True by auto
  qed (use u k ti in \<open>simp_all add: th\<close>)
  then show ?thesis using ins(1) True by (simp add: task_run_def sys_inv_schedule)
next
  case False
  then show ?thesis using inv by (simp add: task_run_def sys_inv_schedule)
qed

text \<open>The last reference to a thread is dropped: what is left of it becomes a task of priority 1.\<close>

lemma joins_ok_flags:
  assumes "joins_ok s" "pc s' = (pc s)(t := p)" "idle s' = idle s" "\<And>w tm u. p \<noteq> Asleep w tm (K_join u)"
    "\<And>u. u \<noteq> t \<Longrightarrow> t_flags s' u = t_flags s u" "\<And>u w tm. pc s u \<noteq> Asleep w tm (K_join t)"
  shows "joins_ok s'"
proof -
  have th: "is_thread s' u = is_thread s u" if "u \<noteq> t" for u using assms(5) [OF that] by (simp add: is_thread_def)
  have k: "pc s v = Asleep w tm (K_join u) \<and> u \<noteq> t" if "pc s' v = Asleep w tm (K_join u)" for v w tm u
    using that assms(2,4,6) by (cases "v = t") auto
  show ?thesis
    unfolding joins_ok_def assms(3)
    by (intro conjI allI impI) (use assms(1) k th assms(5) in \<open>unfold joins_ok_def; metis\<close>)+
qed

lemma release_put:
  assumes inv: "sys_inv ms ts s" and t: "is_thread s t" "t \<noteq> idle s" "pc s t = User \<or> pc s t = Exited"
    and st: "t_state s t = TASK_STATE_RUNNING \<or> t_state s t = TASK_STATE_ZOMBIE" and h: "held s t = {}" and m: "mode s = In_thread"
    and nj: "\<And>u w tm. pc s u \<noteq> Asleep w tm (K_join t)"
    and s0: "t_prio s0 = (t_prio s)(t := 1)" "t_flags s0 = (t_flags s)(t := t_flags s t AND NOT TASK_THREAD)"
      "t_refcount s0 = (t_refcount s)(t := 0)" "pc s0 = (pc s)(t := Exited)" "t_state s0 = t_state s" "readyqueue s0 = readyqueue s"
      "active_queues s0 = active_queues s" "t_timer s0 = t_timer s" "current s0 = current s" "idle s0 = idle s"
      "w_list s0 = w_list s" "m_lock s0 = m_lock s" "held s0 = held s" "blocks s0 = blocks s" "mode s0 = mode s"
  shows "readyqueue_insert t s0 = Some (rq_put t s0)" "sys_inv ms ts (schedule (rq_put t s0))"
    "current s \<noteq> t \<Longrightarrow> t_state s (current s) = TASK_STATE_RUNNING \<Longrightarrow> sys_inv ms ts (rq_put t s0)"
proof -
  note d = sys_invD [OF inv]
  have nr: "t_state s t \<noteq> TASK_STATE_READY" using st by auto
  have q0: "queues_ok s0" by (rule queues_ok_prio [OF d(1) nr, of 1]) (simp_all add: s0 TASK_PRIOS_def)
  have nr0: "t_state s0 t \<noteq> TASK_STATE_READY" using nr by (simp add: s0)
  note ins = readyqueue_insert_ok [OF q0 nr0]
  show "readyqueue_insert t s0 = Some (rq_put t s0)" by (rule ins(1))
  have k: "on_lists s t = {}" "t_timer s t = 0" using threads_okD(1) [OF d(2), of t] t(3) by (auto simp: pc_ok_def)
  have nts: "t \<notin> ts" using threads_okD(8) [OF d(2), of t] t(1) by blast
  have nb: "t \<notin> set (blocks s)" using d(4) st unfolding blocks_ok_def by auto
  have i: "sys_inv ms ts s'" if s': "s' = rq_put t s0 \<or> s' = schedule (rq_put t s0)"
    and run: "\<not> pending s' \<Longrightarrow> current s \<noteq> t \<and> t_state s (current s) = TASK_STATE_RUNNING" for s'
  proof -
    have f: "t_state s' = (t_state s)(t := TASK_STATE_READY)" "t_timer s' = t_timer s" "current s' = current s" "idle s' = idle s"
      "w_list s' = w_list s" "m_lock s' = m_lock s" "held s' = held s" "pc s' = (pc s)(t := Exited)" "blocks s' = blocks s"
      "t_flags s' = (t_flags s)(t := t_flags s t AND NOT TASK_THREAD)" "t_refcount s' = (t_refcount s)(t := 0)"
      "t_prio s' = (t_prio s)(t := 1)" "mode s' = mode s" "queues_ok s'"
      using s' ins(2) by (auto simp: s0 intro: queues_ok_cong)
    have nth: "\<not> is_thread s' t" by (simp add: is_thread_def f and.assoc)
    have bl: "blocks_ok s'" using d(4) nb m unfolding blocks_ok_def f by auto
    have jo: "joins_ok s'" by (rule joins_ok_flags [OF d(5), where t = t and p = Exited]) (use nj in \<open>auto simp: f\<close>)
    show ?thesis
      by (rule put_inv [OF inv nr f(14,1-7) _ _ _ _ _ _ k(1) bl jo])
        (use k nth h t nts run in \<open>auto simp: pc_ok_def f(8-13)\<close>)
  qed
  show "sys_inv ms ts (schedule (rq_put t s0))" by (rule i) simp_all
  show "sys_inv ms ts (rq_put t s0)" if "current s \<noteq> t" "t_state s (current s) = TASK_STATE_RUNNING"
    by (rule i) (use that in simp_all)
qed


lemma exit_ok:
  assumes inv: "sys_inv ms ts s" and cb: "can_block s" and h: "held s (current s) = {}"
  shows "\<exists>s'. thread_exit jw (set_pc (current s) Exited s) = Some s' \<and> sys_inv ms ts s'"
proof -
  let ?c = "current s"
  note c = can_blockD [OF inv cb]
  note d = sys_invD [OF inv]
  note rf = running_facts [OF d(2) c(1)]
  define s1 where "s1 = (set_pc ?c Exited s)\<lparr>allthreads := remove1 ?c (allthreads s)\<rparr>"
  have e1: "thread_exit jw (set_pc ?c Exited s) = map_option schedule (if t_flags s ?c AND TASK_DETACHED \<noteq> 0 then thread_release ?c s1
      else task_wakeup jw True (set_state ?c TASK_STATE_ZOMBIE s1))"
    by (simp add: thread_exit_def s1_def set_pc_def Let_def) (auto split: Option.bind_splits)
  show ?thesis
  proof (cases "t_flags s ?c AND TASK_DETACHED = 0")
    case False
    have nj: "pc s u \<noteq> Asleep w tm (K_join ?c)" for u w tm using d(5) False unfolding joins_ok_def by blast
    define s0 where "s0 = s1\<lparr>t_refcount := (t_refcount s1)(?c := 0), t_flags := (t_flags s1)(?c := t_flags s1 ?c AND NOT TASK_THREAD),
      t_prio := (t_prio s1)(?c := 1)\<rparr>"
    have "thread_release ?c s1 = readyqueue_insert ?c s0"
      using rf(5) c(2) by (simp add: thread_release_def Let_def s0_def s1_def set_pc_def)
    moreover have "readyqueue_insert ?c s0 = Some (rq_put ?c s0)" "sys_inv ms ts (schedule (rq_put ?c s0))"
      by (rule release_put [OF inv rf(1) c(2)]; use c h nj in \<open>simp add: s0_def s1_def set_pc_def\<close>)+
    ultimately show ?thesis using e1 False by simp
  next
    case True
    define s2 where "s2 = set_state ?c TASK_STATE_ZOMBIE s1"
    define s3 where "s3 = schedule s2"
    have f: "t_state s3 = (t_state s)(?c := TASK_STATE_ZOMBIE)" "pc s3 = (pc s)(?c := Exited)"
      "t_flags s3 = t_flags s" "t_refcount s3 = t_refcount s" "t_timer s3 = t_timer s"
      "current s3 = current s" "idle s3 = idle s" "w_list s3 = w_list s" "t_prio s3 = t_prio s"
      "mode s3 = mode s" "held s3 = held s" "m_lock s3 = m_lock s" "blocks s3 = blocks s"
      "active_queues s3 = active_queues s" "readyqueue s3 = readyqueue s" "pending s3"
      by (simp_all add: s3_def s2_def s1_def set_state_def set_pc_def)
    have e: "is_thread s3 = is_thread s" "on_lists s3 = on_lists s"
      by (simp_all add: fun_eq_iff is_thread_def on_lists_def f)
    have "sys_inv ms ts s3"
      unfolding sys_inv_def
    proof (intro conjI)
      show "queues_ok s3" by (rule queues_ok_cong [OF d(1)]) (use c(1) in \<open>auto simp: f\<close>)
      show "threads_ok ms ts s3"
        by (rule threads_ok_upd [OF d(2), where t = ?c]; unfold e f) (use rf c True f(16) in \<open>auto simp: pc_ok_def\<close>)
      show "lists_ok s3" by (rule lists_ok_cong [OF d(3)]) (simp_all add: f)
      show "blocks_ok s3" using d(4) c unfolding blocks_ok_def f by auto
      show "joins_ok s3" by (rule joins_ok_upd [OF d(5), where t = ?c]) (auto simp: f)
      show "mutexes_ok ms s3"
      proof (rule mutexes_okI; unfold f)
        fix m
        assume "m \<in> ms" "\<not> m_lock s m" "w_list s m \<noteq> []"
        then obtain u where u: "pc s u = Locking m" "awake (t_state s u)" using mutexes_okD(5) [OF d(6)] by blast
        then have "u \<noteq> ?c" using c(3) by auto
        then show "\<exists>u. ((pc s)(?c := Exited)) u = Locking m \<and> awake (((t_state s)(?c := TASK_STATE_ZOMBIE)) u)"
          using u by (intro exI [of _ u]) simp
      qed (use mutexes_okD(1-4) [OF d(6)] h in \<open>auto split: if_splits\<close>)
    qed
    then obtain s' where "task_wakeup jw True s2 = Some s'" "sys_inv ms ts (schedule s')" unfolding s3_def using task_wakeup_inv_pending by blast
    then show ?thesis using e1 True by (simp add: s2_def)
  qed
qed

lemma join_ok:
  assumes inv: "sys_inv ms ts s" and run: "t_state s (current s) = TASK_STATE_RUNNING" and ni: "current s \<noteq> idle s"
    and tz: "t_timer s (current s) = 0" and jw: "jw \<notin> ms" and md: "mode s = In_thread"
    and t: "is_thread s t" "t_flags s t AND TASK_DETACHED = 0" "t \<noteq> idle s" "\<And>u w tm. u \<noteq> current s \<Longrightarrow> pc s u \<noteq> Asleep w tm (K_join t)"
    and nl: "\<And>m. pc s (current s) \<noteq> Locking m"
  shows "\<exists>s'. join_or_wait jw t (thread_join jw t s) = Some s' \<and> sys_inv ms ts s'"
proof (cases "t_state s t = TASK_STATE_ZOMBIE")
  case False
  note d = sys_invD [OF inv]
  have "join_or_wait jw t (thread_join jw t s) =
      map_option (set_pc (current s) (Asleep jw False (K_join t))) (task_sleep_sched_locked jw s)"
    using False t(2) by (auto simp: join_or_wait_def thread_join_def task_sleep_def task_sleep_sched_locked_def Let_def
        set_state_def task_insert_wait_list_def schedule_def)
  also have "\<dots> = Some (block_post (Some jw) 0 (Asleep jw False (K_join t)) s)"
    by (rule sleep_sched_locked_eq [OF d(1) run tz])
  finally show ?thesis
    using block_inv [OF inv run ni, of "Asleep jw False (K_join t)" "Some jw" 0] jw nl t by (auto simp: pc_ok_def)
next
  case True
  note d = sys_invD [OF inv]
  have te: "pc s t = Exited" using threads_okD(11) [OF d(2) True] t(3) by simp
  have tc: "t \<noteq> current s" using True run by auto
  define s1 where "s1 = set_pc (current s) User s"
  have i1: "sys_inv ms ts s1" unfolding s1_def by (rule user_inv_plain [OF inv run tz nl])
  have f: "t_state s1 = t_state s" "t_flags s1 = t_flags s" "t_refcount s1 = t_refcount s" "current s1 = current s" "idle s1 = idle s"
    "mode s1 = mode s" "held s1 = held s" "pc s1 = (pc s)(current s := User)" "t_prio s1 = t_prio s"
    by (simp_all add: s1_def set_pc_def)
  define rel where "rel = (\<lambda>s :: sys. s\<lparr>t_refcount := (t_refcount s)(t := 0), t_flags := (t_flags s)(t := t_flags s t AND NOT TASK_THREAD),
      t_prio := (t_prio s)(t := 1)\<rparr>)"
  have e1: "rel s1 = set_pc (current s) User (rel s)" "rq_put t (set_pc (current s) User u) = set_pc (current s) User (rq_put t u)" for u
    by (simp_all add: rel_def s1_def set_pc_def rq_put_def)
  have h: "held s t = {}" using mutexes_okD(2) [OF d(6) te] .
  have th: "is_thread s1 t" using t(1) by (simp add: is_thread_def f)
  have r: "readyqueue_insert t (rel s1) = Some (rq_put t (rel s1))" "sys_inv ms ts (rq_put t (rel s1))"
    by (rule release_put [OF i1 th]; use True te t tc h md run in \<open>simp add: f rel_def fun_upd_idem\<close>)+
  have rs: "readyqueue_insert t (rel s) = Some (rq_put t (rel s))"
  proof (rule readyqueue_insert_ok(1))
    show "queues_ok (rel s)" by (rule queues_ok_prio [OF d(1), of t 1]) (use True in \<open>simp_all add: rel_def TASK_PRIOS_def\<close>)
    show "t_state (rel s) t \<noteq> TASK_STATE_READY" using True by (simp add: rel_def)
  qed
  have "thread_release t s = readyqueue_insert t (rel s)"
    using threads_okD(4) [OF d(2) t(1,3)] by (simp add: thread_release_def rel_def Let_def)
  then have "join_or_wait jw t (thread_join jw t s) = Some (rq_put t (rel s1))"
    using t(2) True rs by (simp add: join_or_wait_def thread_join_def e1) (simp add: rel_def)
  then show ?thesis using r(2) by simp
qed

lemma join_step_ok:
  assumes inv: "sys_inv ms ts s" and cb: "can_block s" and jw: "jw \<notin> ms" and t: "joinable s t"
  shows "\<exists>s'. join_or_wait jw t (thread_join jw t s) = Some s' \<and> sys_inv ms ts s'"
  by (rule join_ok [OF inv]) (use can_blockD [OF inv cb] jw t in \<open>auto simp: joinable_def\<close>)

lemma awake_ok:
  assumes inv: "sys_inv ms ts s" and cr: "can_resume s" and pc: "pc s (current s) = Asleep w tm k" and jw: "jw \<notin> ms"
  shows "\<exists>s'. continue_with jw k (if tm then snd (task_sleep_abs_done s) else s) = Some s' \<and> sys_inv ms ts s'"
proof -
  let ?c = "current s"
  note d = sys_invD [OF inv]
  have run: "t_state s ?c = TASK_STATE_RUNNING" using threads_okD(10) [OF d(2)] cr by (simp add: can_resume_def)
  have pk: "tm \<or> t_timer s ?c = 0" "\<forall>m. k = K_relock m \<longrightarrow> m \<in> ms"
    using threads_okD(1) [OF d(2), of ?c] pc by (auto simp: pc_ok_def)
  have ni: "?c \<noteq> idle s" using threads_okD(6) [OF d(2)] pc by auto
  define s1 where "s1 = s\<lparr>t_timer := (t_timer s)(?c := 0)\<rparr>"
  have s1: "(if tm then snd (task_sleep_abs_done s) else s) = s1"
    using pk(1) by (auto simp: s1_def task_sleep_abs_done_def timer_idle)
  have i1: "sys_inv ms ts s1" unfolding s1_def by (rule timer_clear_inv [OF inv]) (use run pc in simp_all)
  have f: "current s1 = ?c" "t_state s1 ?c = TASK_STATE_RUNNING" "idle s1 = idle s" "t_timer s1 ?c = 0" "pc s1 = pc s"
    "mode s1 = mode s" "t_flags s1 = t_flags s" using run by (simp_all add: s1_def)
  have md: "mode s = In_thread" using cr by (simp add: can_resume_def)
  show ?thesis
    unfolding s1
  proof (cases k)
    case K_return
    have "sys_inv ms ts (set_pc (current s1) User s1)" by (rule user_inv_plain [OF i1]) (use f pc in simp_all)
    then show "\<exists>s'. continue_with jw k s1 = Some s' \<and> sys_inv ms ts s'" using K_return by simp
  next
    case (K_relock m)
    have "\<exists>s'. lock_or_wait m (mutex_lock_sched_locked m s1) = Some s' \<and> sys_inv ms ts s'"
      by (rule lock_ok [OF i1]) (use f pc ni pk K_relock in simp_all)
    then show "\<exists>s'. continue_with jw k s1 = Some s' \<and> sys_inv ms ts s'" using K_relock by simp
  next
    case (K_join t)
    note j = d(5) [unfolded joins_ok_def]
    have jt: "is_thread s t" "t_flags s t AND TASK_DETACHED = 0" "t \<noteq> idle s" using j pc K_join by blast+
    have ju: "pc s u \<noteq> Asleep w' tm' (K_join t)" if "u \<noteq> ?c" for u w' tm' using j pc K_join that by blast
    have "\<exists>s'. join_or_wait jw t (thread_join jw t s1) = Some s' \<and> sys_inv ms ts s'"
      by (rule join_ok [OF i1]) (use f pc ni jw jt ju md in \<open>simp_all add: is_thread_def\<close>)
    then show "\<exists>s'. continue_with jw k s1 = Some s' \<and> sys_inv ms ts s'" using K_join by simp
  qed
qed

lemma blocks_okD:
  assumes "blocks_ok s" "t \<in> set (blocks s)"
  shows "pc s t = Exited" "t_state s t = TASK_STATE_NONE" "mode s \<noteq> In_task t"
  using assms unfolding blocks_ok_def by blast+

lemma exited_none:
  assumes "threads_ok ms ts s" "pc s t = Exited" "t_state s t = TASK_STATE_NONE"
  shows "\<not> is_thread s t" "on_lists s t = {}" "t_timer s t = 0" "t \<notin> ts" "t \<noteq> idle s"
  using threads_okD(1,9) [OF assms(1), of t] threads_okD(6) [OF assms(1)] assms(2,3) by (auto simp: pc_ok_def)

lemma create_ok:
  assumes inv: "sys_inv ms ts s" and c: "thread_create_va flags prio s = (r, s')"
  shows "sys_inv ms ts (case r of None \<Rightarrow> s' | Some t \<Rightarrow> set_pc t User s')"
proof (cases "blocks s")
  case Nil
  then show ?thesis using c inv by (auto simp: thread_create_va_def Let_def)
next
  case (Cons t bs)
  note d = sys_invD [OF inv]
  define p where "p = (if prio mod TASK_PRIOS = 0 then 1 else prio mod TASK_PRIOS)"
  define s0 where "s0 = s\<lparr>t_prio := (t_prio s)(t := p)\<rparr>"
  have p: "p < TASK_PRIOS" by (simp add: p_def TASK_PRIOS_def)
  have t: "pc s t = Exited" "t_state s t = TASK_STATE_NONE" "mode s \<noteq> In_task t" using blocks_okD [OF d(4), of t] Cons by simp_all
  note n = exited_none [OF d(2) t(1,2)]
  have nr: "t_state s t \<noteq> TASK_STATE_READY" using t by simp
  have q0: "queues_ok s0" by (rule queues_ok_prio [OF d(1) nr p]) (simp_all add: s0_def)
  have nj: "pc s u \<noteq> Asleep w tm (K_join t)" for u w tm using d(5) n(1) unfolding joins_ok_def by blast
  have rp: "r = Some t" "queues_ok (set_pc t User s')"
    "t_state (set_pc t User s') = (t_state s)(t := TASK_STATE_READY)" "t_timer (set_pc t User s') = t_timer s"
    "current (set_pc t User s') = current s" "idle (set_pc t User s') = idle s" "w_list (set_pc t User s') = w_list s"
    "m_lock (set_pc t User s') = m_lock s" "held (set_pc t User s') = held s" "pc (set_pc t User s') = (pc s)(t := User)"
    "blocks (set_pc t User s') = bs" "mode (set_pc t User s') = mode s" "pending (set_pc t User s')"
    "t_flags (set_pc t User s') = (t_flags s)(t := ucast flags OR TASK_THREAD)"
    "t_refcount (set_pc t User s') = (t_refcount s)(t := 1)" "t_prio (set_pc t User s') = (t_prio s)(t := p)"
    using c Cons queues_ok_cong [OF readyqueue_insert_ok(2) [OF q0, of t], of s'] nr
    by (auto simp: thread_create_va_def Let_def p_def [symmetric] set_pc_def s0_def rq_put_def schedule_def
        intro!: queues_ok_cong [OF readyqueue_insert_ok(2) [OF q0, of t]])
  define s1 where "s1 = set_pc t User s'"
  note f = rp(3-16) [folded s1_def]
  have th: "is_thread s1 t" by (simp add: is_thread_def f word_ao_absorbs TASK_THREAD_def)
  have "sys_inv ms ts s1"
  proof (rule put_inv [OF inv nr rp(2) [folded s1_def] f(1-7)])
    show "blocks_ok s1" using d(4) t(3) Cons unfolding blocks_ok_def f by auto
    show "joins_ok s1" by (rule joins_ok_flags [OF d(5), where t = t and p = User]) (use nj in \<open>auto simp: f\<close>)
  qed (use n th t f(11) in \<open>auto simp: pc_ok_def f(8-10,12-14)\<close>)
  then show ?thesis using rp(1) by (simp add: s1_def)
qed

text \<open>The CPU enters the loop of \<^verbatim>\<open>task_switch\<close>, or comes back to it from a task.\<close>

lemma mode_inv:
  assumes inv: "sys_inv ms ts s"
  shows "sys_inv ms ts (s\<lparr>mode := In_switch, pending := P\<rparr>)"
proof -
  define s' where "s' = s\<lparr>mode := In_switch, pending := P\<rparr>"
  note d = sys_invD [OF inv]
  have f: "t_state s' = t_state s" "t_prio s' = t_prio s" "t_flags s' = t_flags s" "t_refcount s' = t_refcount s"
      "t_timer s' = t_timer s" "current s' = current s" "idle s' = idle s" "active_queues s' = active_queues s"
      "readyqueue s' = readyqueue s" "w_list s' = w_list s" "blocks s' = blocks s" "pc s' = pc s" "mode s' = In_switch"
      "held s' = held s" "m_lock s' = m_lock s" by (simp_all add: s'_def)
  have e: "is_thread s' = is_thread s" "on_lists s' = on_lists s" by (simp_all add: fun_eq_iff is_thread_def on_lists_def f)
  have "threads_ok ms ts s'" using d(2) unfolding threads_ok_def e f by blast
  moreover have "blocks_ok s'" using d(4) unfolding blocks_ok_def f by blast
  moreover have "joins_ok s'" using d(5) unfolding joins_ok_def e f .
  ultimately show ?thesis
    using queues_ok_cong [OF d(1), of s'] lists_ok_cong [OF d(3), of s'] mutexes_ok_cong [OF d(6), of s'] f
    by (simp add: sys_inv_def s'_def)
qed

lemma reap_ok:
  assumes inv: "sys_inv ms ts s" and m: "mode s = In_task t" and e: "pc s t = Exited"
  shows "\<exists>s'. map_option (\<lambda>s'. s'\<lparr>mode := In_switch\<rparr>) (thread_exit2 busy t s) = Some s' \<and> sys_inv ms ts s'"
proof -
  note d = sys_invD [OF inv]
  have none: "t_state s t = TASK_STATE_NONE" and nb: "t \<notin> set (blocks s)" using d(4) m e unfolding blocks_ok_def by auto
  note n = exited_none [OF d(2) e none]
  have i: "sys_inv ms ts (s\<lparr>mode := In_switch, pending := pending s\<rparr>)" by (rule mode_inv [OF inv])
  define s1 where "s1 = s\<lparr>mode := In_switch\<rparr>"
  have i1: "sys_inv ms ts s1" using i by (simp add: s1_def)
  note d1 = sys_invD [OF i1]
  have nr: "t_state s t \<noteq> TASK_STATE_READY" "t_state s1 t \<noteq> TASK_STATE_READY" using none by (simp_all add: s1_def)
  have f: "on_lists s1 t = {}" "t_timer s1 t = 0" "pc s1 t = Exited" "mode s1 = In_switch" "idle s1 = idle s" "blocks s1 = blocks s"
    "t_state s1 t = TASK_STATE_NONE" "pc s1 = pc s" "\<not> is_thread s1 t"
    using n e none by (simp_all add: s1_def on_lists_def is_thread_def)
  show ?thesis
  proof (cases busy)
    case True
    have th: "\<not> is_thread (rq_put t s1) t" using f(9) by (simp add: is_thread_def)
    have "sys_inv ms ts (rq_put t s1)"
    proof (rule put_inv [OF i1 nr(2) readyqueue_insert_ok(2) [OF d1(1) nr(2)]])
      show "blocks_ok (rq_put t s1)" using d1(4) nb unfolding blocks_ok_def by (simp add: f)
      show "joins_ok (rq_put t s1)" by (rule joins_ok_upd [OF d1(5), where t = t]) auto
    qed (use f n th mutexes_okD(2) [OF d1(6), of t] in \<open>auto simp: pc_ok_def\<close>)
    moreover have "rq_put t s1 = (rq_put t s)\<lparr>mode := In_switch\<rparr>" by (simp add: s1_def rq_put_def)
    ultimately show ?thesis using True readyqueue_insert_ok(1) [OF d(1) nr(1)] by (simp add: thread_exit2_def)
  next
    case False
    define s2 where "s2 = s1\<lparr>blocks := t # blocks s1\<rparr>"
    have g: "t_state s2 = t_state s1" "t_prio s2 = t_prio s1" "t_flags s2 = t_flags s1" "t_refcount s2 = t_refcount s1"
      "t_timer s2 = t_timer s1" "current s2 = current s1" "idle s2 = idle s1" "active_queues s2 = active_queues s1"
      "readyqueue s2 = readyqueue s1" "w_list s2 = w_list s1" "blocks s2 = t # blocks s1" "pc s2 = pc s1" "mode s2 = In_switch"
      "held s2 = held s1" "m_lock s2 = m_lock s1" "pending s2 = pending s1" by (simp_all add: s2_def f)
    have ee: "is_thread s2 = is_thread s1" "on_lists s2 = on_lists s1" by (simp_all add: fun_eq_iff is_thread_def on_lists_def g)
    have "threads_ok ms ts s2" using d1(2) unfolding threads_ok_def ee g by blast
    moreover have "blocks_ok s2" using d1(4) nb f unfolding blocks_ok_def g by auto
    moreover have "joins_ok s2" using d1(5) unfolding joins_ok_def ee g .
    ultimately have "sys_inv ms ts s2"
      using queues_ok_cong [OF d1(1), of s2] lists_ok_cong [OF d1(3), of s2] mutexes_ok_cong [OF d1(6), of s2] g
      by (simp add: sys_inv_def)
    moreover have "map_option (\<lambda>s'. s'\<lparr>mode := In_switch\<rparr>) (thread_exit2 busy t s) = Some s2"
      using False by (simp add: thread_exit2_def s2_def s1_def)
    ultimately show ?thesis by blast
  qed
qed


text \<open>One round of the loop: the thread that ran goes back to its queue, the first task of the
  highest queue is taken.\<close>

lemma reinsert_inv:
  assumes inv: "sys_inv ms ts s" and m: "mode s = In_switch" and run: "t_state s (current s) = TASK_STATE_RUNNING"
  shows "sys_inv ms ts (rq_put (current s) s)"
proof -
  let ?c = "current s"
  note d = sys_invD [OF inv]
  note rf = running_facts [OF d(2) run]
  have nr: "t_state s ?c \<noteq> TASK_STATE_READY" using run by simp
  have th: "is_thread (rq_put t s) u = is_thread s u" for t u by (simp add: is_thread_def)
  show ?thesis
  proof (rule put_inv [OF inv nr readyqueue_insert_ok(2) [OF d(1) nr]])
    show "pc_ok ms (pc (rq_put ?c s) ?c) TASK_STATE_READY {} (t_timer s ?c) (is_thread (rq_put ?c s) ?c)"
      using threads_okD(1) [OF d(2), of ?c] run rf unfolding th by (auto simp: pc_ok_def awake_def split: pc.splits)
    show "blocks_ok (rq_put ?c s)" by (rule blocks_ok_upd [OF d(4), where t = ?c]) (use rf in simp_all)
    show "joins_ok (rq_put ?c s)" by (rule joins_ok_upd [OF d(5), where t = ?c]) auto
  qed (use rf m threads_okD(6,7) [OF d(2)] in \<open>auto simp: th\<close>)
qed

lemma pick_inv:
  assumes inv: "sys_inv ms ts s" and m: "mode s = In_switch" and nr: "\<And>u. t_state s u \<noteq> TASK_STATE_RUNNING"
    and t: "t_state s t = TASK_STATE_READY \<or> t = idle s" and q: "queues_ok s'"
    and f: "t_state s' = (t_state s)(t := if is_thread s t then TASK_STATE_RUNNING else TASK_STATE_NONE)"
      "current s' = (if is_thread s t then t else current s)" "mode s' = (if is_thread s t then In_thread else In_task t)"
      "t_prio s' = t_prio s" "t_flags s' = t_flags s" "t_refcount s' = t_refcount s" "t_timer s' = t_timer s" "idle s' = idle s"
      "w_list s' = w_list s" "m_lock s' = m_lock s" "held s' = held s" "pc s' = pc s" "blocks s' = blocks s"
  shows "sys_inv ms ts s'"
proof -
  note d = sys_invD [OF inv]
  have e: "is_thread s' = is_thread s" "on_lists s' = on_lists s" by (simp_all add: fun_eq_iff is_thread_def on_lists_def f)
  have idle: "pc s (idle s) = User" "is_thread s (idle s)" using threads_okD(6,7) [OF d(2)] .
  note pk = threads_okD(1) [OF d(2), of t]
  define v where "v = s\<lparr>current := current s'\<rparr>"
  have ev: "is_thread v = is_thread s" "on_lists v = on_lists s" by (simp_all add: fun_eq_iff is_thread_def on_lists_def v_def)
  have "threads_ok ms ts v" using d(2) nr m unfolding threads_ok_def ev by (simp add: v_def)
  then have "threads_ok ms ts s'"
  proof (rule threads_ok_upd [where t = t])
    show "pc_ok ms (pc s' t) (t_state s' t) (on_lists s' t) (t_timer s' t) (is_thread s' t)"
      using pk t idle unfolding e by (auto simp: pc_ok_def awake_def f split: pc.splits)
    show "pc s' t = Exited \<Longrightarrow> is_thread s' t \<Longrightarrow> t_flags s' t AND TASK_DETACHED = 0"
      using threads_okD(5) [OF d(2), of t] unfolding e by (simp add: f)
  qed (use threads_okD(4,8,9) [OF d(2), of t] idle in \<open>auto simp: e ev, auto simp: v_def f split: if_splits\<close>)
  moreover have "lists_ok s'" by (rule lists_ok_cong [OF d(3)]) (simp_all add: f)
  moreover have "t \<notin> set (blocks s)" using d(4) t idle unfolding blocks_ok_def by auto
  then have "blocks_ok s'" using d(4) m unfolding blocks_ok_def f by auto
  moreover have "joins_ok s'" using d(5) unfolding joins_ok_def e f .
  moreover have "mutexes_ok ms s'"
  proof (rule mutexes_ok_upd [OF d(6), where t = t])
    show "pc s t = Locking m \<Longrightarrow> awake (t_state s t) \<Longrightarrow> pc s' t = Locking m \<and> awake (t_state s' t)" for m
      using pk by (auto simp: pc_ok_def f awake_def)
  qed (use mutexes_okD(2) [OF d(6), of t] in \<open>auto simp: f\<close>)
  ultimately show ?thesis using q by (simp add: sys_inv_def)
qed

lemma round_ok:
  assumes inv: "sys_inv ms ts s" and m: "mode s = In_switch"
  shows "\<exists>s'. map_option (\<lambda>(r, s'). s'\<lparr>mode := (case r of None \<Rightarrow> In_thread | Some t \<Rightarrow> In_task t)\<rparr>) (task_switch_round s) = Some s' \<and>
    sys_inv ms ts s'"
proof -
  note d = sys_invD [OF inv]
  define s1 where "s1 = (if t_state s (current s) = TASK_STATE_RUNNING then rq_put (current s) s else s)"
  note pick = task_switch_pick_ok [OF d(1), folded s1_def]
  have i1: "sys_inv ms ts s1" using reinsert_inv [OF inv m] inv by (simp add: s1_def)
  have f: "t_flags s1 = t_flags s" "idle s1 = idle s" "mode s1 = In_switch" "t_prio s1 = t_prio s" by (simp_all add: s1_def m)
  have nr: "t_state s1 u \<noteq> TASK_STATE_RUNNING" for u using threads_okD(2) [OF d(2), of u] by (auto simp: s1_def)
  obtain t s2 where p: "task_switch_pick s = Some (t, s2)" and t: "t_state s1 t = TASK_STATE_READY \<or> t = idle s1"
    and q: "\<And>ns. is_thread s t \<longrightarrow> ns = TASK_STATE_RUNNING \<Longrightarrow> ns \<noteq> TASK_STATE_READY \<Longrightarrow> queues_ok (set_state t ns s2)"
    and g: "\<exists>q a. s2 = s1\<lparr>readyqueue := q, active_queues := a\<rparr>"
  proof (cases "active_queues s1 = 0")
    case True
    have qi: "queues_ok (set_state (idle s) ns s1)" if "ns \<noteq> TASK_STATE_READY" for ns
      by (rule queues_ok_cong [OF pick(1)]) (use that pick(3) [OF True, of "idle s"] in \<open>auto simp: set_state_def\<close>)
    have "\<exists>q a. s1 = s1\<lparr>readyqueue := q, active_queues := a\<rparr>"
      by (rule exI [of _ "readyqueue s1"], rule exI [of _ "active_queues s1"]) simp
    then show ?thesis by (rule that [OF pick(2) [OF True], rotated 2]) (use f qi in simp_all)
  next
    case False
    obtain t r where "t_state s1 t = TASK_STATE_READY"
      "task_switch_pick s = Some (t, s1\<lparr>readyqueue := (readyqueue s1)(t_prio s t := r),
         active_queues := (if r = [] then active_queues s1 AND NOT (push_bit (t_prio s t) 1) else active_queues s1)\<rparr>)"
      "\<forall>ns. ns \<noteq> TASK_STATE_READY \<longrightarrow> queues_ok (set_state t ns (s1\<lparr>readyqueue := (readyqueue s1)(t_prio s t := r),
         active_queues := (if r = [] then active_queues s1 AND NOT (push_bit (t_prio s t) 1) else active_queues s1)\<rparr>))"
      using pick(4) [OF False] by blast
    then show ?thesis using that by blast
  qed
  obtain rq aq where s2: "s2 = s1\<lparr>readyqueue := rq, active_queues := aq\<rparr>" using g by blast
  define ns where "ns = (if is_thread s1 t then TASK_STATE_RUNNING else TASK_STATE_NONE)"
  define s' where "s' = (set_state t ns s2)\<lparr>current := (if is_thread s1 t then t else current s2),
      mode := (if is_thread s1 t then In_thread else In_task t)\<rparr>"
  have th: "is_thread s1 = is_thread s" by (simp add: fun_eq_iff is_thread_def f)
  have "sys_inv ms ts s'"
  proof (rule pick_inv [OF i1 f(3) nr t])
    have "queues_ok (set_state t ns s2)" by (rule q) (simp_all add: ns_def th)
    then show "queues_ok s'" by (rule queues_ok_cong) (simp_all add: s'_def)
  qed (simp_all add: s'_def ns_def s2 set_state_def)
  moreover have "map_option (\<lambda>(r, s'). s'\<lparr>mode := (case r of None \<Rightarrow> In_thread | Some t \<Rightarrow> In_task t)\<rparr>) (task_switch_round s) = Some s'"
    using p by (simp add: task_switch_round_def s'_def ns_def s2 is_thread_def set_state_def)
  ultimately show ?thesis by blast
qed

lemma relock_ok:
  assumes inv: "sys_inv ms ts s" and cr: "can_resume s" and pc: "pc s (current s) = Locking m"
  shows "\<exists>s'. lock_or_wait m (mutex_lock_sched_locked m s) = Some s' \<and> sys_inv ms ts s'"
proof -
  note d = sys_invD [OF inv]
  have "t_state s (current s) = TASK_STATE_RUNNING" using threads_okD(10) [OF d(2)] cr by (simp add: can_resume_def)
  moreover have "m \<in> ms" "t_timer s (current s) = 0" using threads_okD(1) [OF d(2), of "current s"] pc by (auto simp: pc_ok_def)
  moreover have "current s \<noteq> idle s" using threads_okD(6) [OF d(2)] pc by auto
  ultimately show ?thesis using lock_ok [OF inv] pc by simp
qed

lemma denap_ok:
  assumes inv: "sys_inv ms ts s" and cr: "can_resume s" and pc: "pc s (current s) = Napping"
  shows "sys_inv ms ts (set_pc (current s) User s)"
proof -
  note d = sys_invD [OF inv]
  have run: "t_state s (current s) = TASK_STATE_RUNNING" using threads_okD(10) [OF d(2)] cr by (simp add: can_resume_def)
  have "t_timer s (current s) = 0" using threads_okD(1) [OF d(2), of "current s"] pc run by (auto simp: pc_ok_def)
  then show ?thesis using user_inv_plain [OF inv run] pc by simp
qed

lemma sys_step_ok:
  assumes "sys_step ms jw ts s r" "sys_inv ms ts s" "jw \<notin> ms"
  shows "\<exists>s'. r = Some s' \<and> sys_inv ms ts s'"
  using assms
proof (cases rule: sys_step.cases)
  case (step_lock m hit)
  then show ?thesis using lock_ok [OF assms(2), of m] can_blockD [OF assms(2)] by (simp add: mutex_lock_eq)
next
  case (step_relock m)
  then show ?thesis using relock_ok [OF assms(2)] by blast
next
  case (step_trylock m hit taken s')
  then show ?thesis using trylock_ok [OF assms(2)] by blast
next
  case (step_unlock m hit)
  then show ?thesis using unlock_ok [OF assms(2), of m] can_blockD(1) [OF assms(2)] by (auto simp: mutex_unlock_eq)
next
  case (step_sleep w)
  then show ?thesis using sleep_steps_ok(1) [OF assms(2)] by blast
next
  case (step_sleep_timed w deadline)
  then show ?thesis using sleep_steps_ok(2) [OF assms(2)] by blast
next
  case (step_cond_wait c m)
  then show ?thesis using cond_wait_ok(1) [OF assms(2)] can_blockD [OF assms(2)] by blast
next
  case (step_cond_wait_timed c m deadline)
  then show ?thesis using cond_wait_ok(2) [OF assms(2)] can_blockD [OF assms(2)] by blast
next
  case (step_nap deadline)
  then show ?thesis using sleep_steps_ok(3) [OF assms(2)] by blast
next
  case (step_awake w tm k)
  then show ?thesis using awake_ok [OF assms(2)] assms(3) by blast
next
  case step_denap
  then show ?thesis using denap_ok [OF assms(2)] by blast
next
  case (step_join t)
  then show ?thesis using join_step_ok [OF assms(2)] assms(3) by blast
next
  case (step_create flags prio t s')
  then show ?thesis using create_ok [OF assms(2)] by blast
next
  case step_exit
  then show ?thesis using exit_ok [OF assms(2)] by blast
next
  case (step_wakeup w all)
  then show ?thesis using task_wakeup_inv [OF assms(2)] by blast
next
  case (step_timer t s1)
  then show ?thesis using timeout_inv [OF assms(2), of t] by blast
next
  case (step_run t)
  then show ?thesis using run_ok [OF assms(2)] by blast
next
  case step_schedule
  then show ?thesis using sys_inv_schedule [OF assms(2)] by blast
next
  case step_switch
  then show ?thesis using mode_inv [OF assms(2)] by blast
next
  case step_round
  then show ?thesis using round_ok [OF assms(2)] by blast
next
  case (step_task_done t)
  then show ?thesis using mode_inv [OF assms(2), of "pending s"] by simp
next
  case (step_reap t busy)
  then show ?thesis using reap_ok [OF assms(2)] by blast
qed

section \<open>From the boot on\<close>

text \<open>
  \<^verbatim>\<open>cpu_init\<close> makes the idle thread, a zombie of priority 0, and the CPU's scheduler; the first block
  of the allocator becomes the thread that runs \<^verbatim>\<open>main\<close>. Everything else is zeroed memory.
\<close>

definition cpu_init :: "nat \<Rightarrow> nat list \<Rightarrow> (nat \<Rightarrow> nat) \<Rightarrow> sys" where
  "cpu_init t bs prio = sched_cpu_init t
     \<lparr>t_state = (\<lambda>_. TASK_STATE_NONE)(t := TASK_STATE_ZOMBIE), t_prio = prio(t := 0), t_flags = (\<lambda>_. 0), t_index = (\<lambda>_. 0),
      t_refcount = (\<lambda>_. 0), t_timer = (\<lambda>_. 0), current = 0, idle = 0, active_queues = 0, readyqueue = (\<lambda>_. []),
      w_list = (\<lambda>_. []), m_lock = (\<lambda>_. False), t_mux = (\<lambda>_. 0), wm_which = (\<lambda>_. 0), allthreads = [], blocks = bs,
      pending = False, pc = (\<lambda>u. if u \<in> set bs then Exited else User), held = (\<lambda>_. {}), mode = In_thread\<rparr>"

definition thread_create_shell :: "'x sched_scheme \<Rightarrow> nat option \<times> 'x sched_scheme" where
  "thread_create_shell st = thread_create_va (ucast TASK_DETACHED) 2 st"

definition sys_boot :: "nat \<Rightarrow> nat list \<Rightarrow> (nat \<Rightarrow> nat) \<Rightarrow> sys" where
  "sys_boot t bs prio =
     (case thread_create_shell (cpu_init t bs prio) of (None, s) \<Rightarrow> s | (Some t, s) \<Rightarrow> set_pc t User s)"

text \<open>The addresses of the idle thread, the blocks and the static tasks differ, and \<^verbatim>\<open>join_wait\<close> is not a
  mutex.\<close>

definition boot_ok :: "nat set \<Rightarrow> nat \<Rightarrow> nat set \<Rightarrow> nat \<Rightarrow> nat list \<Rightarrow> (nat \<Rightarrow> nat) \<Rightarrow> bool" where
  "boot_ok ms jw ts t bs prio \<longleftrightarrow> jw \<notin> ms \<and> distinct bs \<and> bs \<noteq> [] \<and> t \<notin> set bs \<and> t \<notin> ts \<and> ts \<inter> set bs = {} \<and>
     (\<forall>u. prio u < TASK_PRIOS)"

inductive sys_reach :: "nat set \<Rightarrow> nat \<Rightarrow> nat set \<Rightarrow> sys \<Rightarrow> sys \<Rightarrow> bool"
  for ms :: "nat set" and jw :: nat and ts :: "nat set" and s0 :: sys where
  reach_start: "sys_reach ms jw ts s0 s0"
| reach_step: "sys_reach ms jw ts s0 s \<Longrightarrow> sys_step ms jw ts s (Some s') \<Longrightarrow> sys_reach ms jw ts s0 s'"

lemma boot_inv:
  assumes "boot_ok ms jw ts t bs prio"
  shows "sys_inv ms ts (sys_boot t bs prio)"
proof -
  define s where "s = schedule (cpu_init t bs prio)"
  note b = assms [unfolded boot_ok_def]
  have f: "t_state s = (\<lambda>_. TASK_STATE_NONE)(t := TASK_STATE_ZOMBIE)" "t_prio s = prio(t := 0)" "t_flags s = (\<lambda>_. 0)(t := TASK_THREAD)"
    "t_timer s = (\<lambda>_. 0)" "idle s = t" "active_queues s = 0" "readyqueue s = (\<lambda>_. [])" "w_list s = (\<lambda>_. [])" "m_lock s = (\<lambda>_. False)"
    "blocks s = bs" "pending s" "pc s = (\<lambda>u. if u \<in> set bs then Exited else User)" "held s = (\<lambda>_. {})" "mode s = In_thread"
    by (simp_all add: s_def cpu_init_def sched_cpu_init_def schedule_def fun_eq_iff)
  have th: "is_thread s u \<longleftrightarrow> u = t" for u by (simp add: is_thread_def f TASK_THREAD_def)
  have ol: "on_lists s u = {}" for u by (simp add: on_lists_def f)
  have "sys_inv ms ts s"
    unfolding sys_inv_def
  proof (intro conjI)
    show "queues_ok s" using b by (auto simp: queues_ok_def f TASK_PRIOS_def)
    show "threads_ok ms ts s" unfolding threads_ok_def th ol using b f(11) by (auto simp: f(1-10,12-) pc_ok_def)
    show "lists_ok s" by (simp add: lists_ok_def f)
    show "blocks_ok s" using b by (auto simp: blocks_ok_def f)
    show "joins_ok s" by (simp add: joins_ok_def f)
    show "mutexes_ok ms s" by (simp add: mutexes_ok_def f)
  qed
  moreover obtain r s' where c: "thread_create_va (ucast TASK_DETACHED) 2 s = (r, s')" by fastforce
  ultimately have "sys_inv ms ts (case r of None \<Rightarrow> s' | Some t \<Rightarrow> set_pc t User s')" by (rule create_ok)
  moreover have "thread_create_va (ucast TASK_DETACHED) 2 (cpu_init t bs prio) = (r, s')"
    using c b f(10) unfolding thread_create_va_def s_def Let_def by (cases bs) (simp_all add: schedule_def)
  ultimately show ?thesis by (simp add: sys_boot_def thread_create_shell_def split: option.splits)
qed

lemma reach_inv:
  assumes "sys_reach ms jw ts (sys_boot t bs prio) s" "boot_ok ms jw ts t bs prio"
  shows "sys_inv ms ts s"
  using assms
proof (induction rule: sys_reach.induct)
  case reach_start
  then show ?case by (rule boot_inv)
next
  case (reach_step s s')
  then show ?case using sys_step_ok [OF reach_step.hyps(2)] by (auto simp: boot_ok_def)
qed

section \<open>What holds in every run\<close>

text \<open>C2. Every run of any number of threads, interrupts, tasks and timer expiries, in any order, from the
  boot on, over the operations of \<^verbatim>\<open>task.c\<close> that \<open>sys_step\<close> has: mutexes, condition variables, waiting with
  and without a deadline, sleeping, waking, running tasks, creating, joining and leaving threads, and the task
  switch. Whatever of these comes next, it returns: none of the checks of the task debugging code and none of
  the assertions in their code can fail, and no loop of theirs runs forever. Not among them are \<^verbatim>\<open>poll\<close>
  and \<^verbatim>\<open>thread_get_next\<close>, the walk over the threads of the \<^verbatim>\<open>ps\<close> command; with the latter a check does fail
  (\<open>ps_of_exiting_thread\<close>).\<close>

theorem sched_never_panics:
  assumes "boot_ok ms jw ts t bs prio" "sys_reach ms jw ts (sys_boot t bs prio) s" "sys_step ms jw ts s r"
  shows "r \<noteq> None"
  using sys_step_ok [OF assms(3) reach_inv [OF assms(2,1)]] assms(1) by (auto simp: boot_ok_def)

text \<open>C4. In every state of every run two threads never hold the same mutex, and the lock bit of a mutex is
  set exactly when some thread holds it.\<close>

theorem mutex_mutual_exclusion:
  assumes "boot_ok ms jw ts t bs prio" "sys_reach ms jw ts (sys_boot t bs prio) s" "m \<in> ms"
  shows "(m_lock s m \<longleftrightarrow> (\<exists>u. m \<in> held s u)) \<and> (\<forall>u v. m \<in> held s u \<and> m \<in> held s v \<longrightarrow> u = v)"
  using mutexes_okD [OF sys_invD(6) [OF reach_inv [OF assms(2,1)]]] assms(3) by blast

text \<open>C17. No wakeup is lost: in every state of every run, a mutex with threads on its wait list is locked, or one
  of the threads that want it has been woken, is ready or running, and will try the lock again. Every
  waiter on the list is asleep, and the list has the highest priority first.\<close>

theorem mutex_no_lost_wakeup:
  assumes "boot_ok ms jw ts t bs prio" "sys_reach ms jw ts (sys_boot t bs prio) s" "m \<in> ms"
  shows "(w_list s m = [] \<or> m_lock s m \<or> (\<exists>u. pc s u = Locking m \<and> t_state s u \<in> {TASK_STATE_READY, TASK_STATE_RUNNING})) \<and>
    list_all (\<lambda>u. t_state s u = TASK_STATE_SLEEPING \<and> pc s u = Locking m) (w_list s m) \<and>
    sorted_wrt (\<lambda>a b. t_prio s b \<le> t_prio s a) (w_list s m)"
proof -
  note d = sys_invD [OF reach_inv [OF assms(2,1)]]
  have "\<exists>u. pc s u = Locking m \<and> t_state s u \<in> {TASK_STATE_READY, TASK_STATE_RUNNING}" if "w_list s m \<noteq> []" "\<not> m_lock s m"
    using mutexes_okD(5) [OF d(6) assms(3)] that by (auto simp: awake_def)
  moreover have "t_state s u = TASK_STATE_SLEEPING \<and> pc s u = Locking m" if "u \<in> set (w_list s m)" for u
    using on_list_sleeping(1,4) [OF d(2) that] assms(3) by simp
  ultimately show ?thesis using d(3) unfolding lists_ok_def list_all_iff by blast
qed

text \<open>C18. A task switch hands the CPU to the first task of the highest priority among all that are ready, the
  thread that was running included, which goes to the end of its queue; the idle thread is chosen
  only when nothing is ready. The queues and the bit mask of active queues stay consistent.\<close>

theorem task_switch_highest_first:
  assumes "queues_ok st"
  defines "s1 \<equiv> (if t_state st (current st) = TASK_STATE_RUNNING then rq_put (current st) st else st)"
  shows "\<exists>t st'. task_switch_pick st = Some (t, st') \<and> queues_ok (set_state t TASK_STATE_RUNNING st') \<and>
    (if \<exists>u. t_state s1 u = TASK_STATE_READY
     then t_state s1 t = TASK_STATE_READY \<and> (\<forall>u. t_state s1 u = TASK_STATE_READY \<longrightarrow> t_prio st u \<le> t_prio st t) \<and>
       readyqueue s1 (t_prio st t) = t # readyqueue st' (t_prio st t)
     else t = idle st)"
proof (cases "active_queues s1 = 0")
  case True
  note pick = task_switch_pick_ok [OF assms(1), folded s1_def]
  have "queues_ok (set_state (idle st) TASK_STATE_RUNNING s1)"
    by (rule queues_ok_cong [OF pick(1)]) (use pick(3) [OF True, of "idle st"] in \<open>auto simp: set_state_def\<close>)
  then show ?thesis using pick(2,3) [OF True] by auto
next
  case False
  note pick = task_switch_pick_ok(4) [OF assms(1), folded s1_def, OF False]
  then obtain t q where tq: "readyqueue s1 (t_prio st t) = t # q" "t_state s1 t = TASK_STATE_READY"
      "\<forall>u. t_state s1 u = TASK_STATE_READY \<longrightarrow> t_prio st u \<le> t_prio st t"
    and p: "task_switch_pick st = Some (t, s1\<lparr>readyqueue := (readyqueue s1)(t_prio st t := q),
         active_queues := (if q = [] then active_queues s1 AND NOT (push_bit (t_prio st t) 1) else active_queues s1)\<rparr>)"
    and qo: "\<forall>ns. ns \<noteq> TASK_STATE_READY \<longrightarrow> queues_ok (set_state t ns (s1\<lparr>readyqueue := (readyqueue s1)(t_prio st t := q),
         active_queues := (if q = [] then active_queues s1 AND NOT (push_bit (t_prio st t) 1) else active_queues s1)\<rparr>))"
    by blast
  have ex: "\<exists>u. t_state s1 u = TASK_STATE_READY" using tq(2) by blast
  show ?thesis
    by (rule exI, rule exI, rule conjI [OF p], rule conjI) (use qo tq ex in simp_all)
qed

text \<open>A run: the boot, the switch to \<^verbatim>\<open>main\<close>, which takes a mutex and creates a thread of a higher priority.\<close>

definition run_boot :: sys where "run_boot = sys_boot 0 [1, 2] (\<lambda>_. 1)"
definition run_switch :: sys where "run_switch = run_boot\<lparr>mode := In_switch, pending := False\<rparr>"
definition run_main :: sys where
  "run_main = the (map_option (\<lambda>(r, s'). s'\<lparr>mode := (case r of None \<Rightarrow> In_thread | Some t \<Rightarrow> In_task t)\<rparr>) (task_switch_round run_switch))"
definition run_locked :: sys where "run_locked = the (lock_or_wait 10 (mutex_lock True 10 run_main))"
definition run_created :: sys where "run_created = set_pc 2 User (snd (thread_create_va (ucast TASK_DETACHED) 5 run_locked))"
definition run_switch2 :: sys where "run_switch2 = run_created\<lparr>mode := In_switch, pending := False\<rparr>"
definition run_second :: sys where
  "run_second = the (map_option (\<lambda>(r, s'). s'\<lparr>mode := (case r of None \<Rightarrow> In_thread | Some t \<Rightarrow> In_task t)\<rparr>) (task_switch_round run_switch2))"
definition run_waiting :: sys where "run_waiting = the (lock_or_wait 10 (mutex_lock True 10 run_second))"

lemma run_boot_ok: "boot_ok {10} 20 {} 0 [1, 2] (\<lambda>_. 1)"
  by (simp add: boot_ok_def TASK_PRIOS_def)

lemma reach_the:
  assumes "sys_reach ms jw ts (sys_boot t bs prio) s" "boot_ok ms jw ts t bs prio" "sys_step ms jw ts s r"
  shows "sys_reach ms jw ts (sys_boot t bs prio) (the r)"
  using sys_step_ok [OF assms(3) reach_inv [OF assms(1,2)]] assms reach_step by (auto simp: boot_ok_def)

lemma run_reach: "sys_reach {10} 20 {} run_boot run_locked" "sys_step {10} 20 {} run_main (lock_or_wait 10 (mutex_lock True 10 run_main))"
  "sys_reach {10} 20 {} run_boot run_main"
proof -
  note r = reach_the [OF _ run_boot_ok, folded run_boot_def]
  have "mode run_boot = In_thread" "pending run_boot" by code_simp+
  then have "sys_reach {10} 20 {} run_boot run_switch"
    using r [OF reach_start] sys_step.step_switch [of run_boot "{10}" 20 "{}"] unfolding run_switch_def by force
  moreover have "mode run_switch = In_switch" by code_simp
  ultimately show m: "sys_reach {10} 20 {} run_boot run_main"
    unfolding run_main_def by (rule r [OF _ sys_step.step_round])
  have "can_block run_main" by code_simp
  then show "sys_step {10} 20 {} run_main (lock_or_wait 10 (mutex_lock True 10 run_main))" by (rule sys_step.step_lock) simp
  then show "sys_reach {10} 20 {} run_boot run_locked" unfolding run_locked_def by (rule r [OF m])
qed

theorem sched_never_panics_witness:
  "boot_ok {10} 20 {} 0 [1, 2] (\<lambda>_. 1) \<and> sys_reach {10} 20 {} (sys_boot 0 [1, 2] (\<lambda>_. 1)) run_main \<and>
   sys_step {10} 20 {} run_main (lock_or_wait 10 (mutex_lock True 10 run_main)) \<and> lock_or_wait 10 (mutex_lock True 10 run_main) \<noteq> None"
  using sched_never_panics [OF run_boot_ok run_reach(3) [unfolded run_boot_def] run_reach(2)] run_boot_ok run_reach(2,3) by (simp add: run_boot_def)

theorem mutex_mutual_exclusion_witness:
  "m_lock run_locked 10 \<and> (\<forall>u. 10 \<in> held run_locked u \<longleftrightarrow> u = 1)"
proof -
  have "held run_locked 1 = {10}" by code_simp
  then show ?thesis using mutex_mutual_exclusion [OF run_boot_ok run_reach(1) [unfolded run_boot_def], of 10] by blast
qed


lemma run_reach2: "sys_reach {10} 20 {} run_boot run_created" "sys_reach {10} 20 {} run_boot run_waiting"
proof -
  note r = reach_the [OF _ run_boot_ok, folded run_boot_def]
  have "can_act run_locked" by code_simp
  moreover have "fst (thread_create_va (ucast TASK_DETACHED) 5 run_locked) = Some 2" by code_simp
  then have "thread_create_va (ucast TASK_DETACHED) 5 run_locked = (Some 2, snd (thread_create_va (ucast TASK_DETACHED) 5 run_locked))"
    by (metis prod.collapse)
  ultimately show c: "sys_reach {10} 20 {} run_boot run_created"
    using r [OF run_reach(1)] sys_step.step_create [of run_locked "ucast TASK_DETACHED" 5] unfolding run_created_def by force
  have "mode run_created = In_thread" "pending run_created" by code_simp+
  then have "sys_reach {10} 20 {} run_boot run_switch2"
    using r [OF c] sys_step.step_switch [of run_created "{10}" 20 "{}"] unfolding run_switch2_def by force
  moreover have "mode run_switch2 = In_switch" by code_simp
  ultimately have m: "sys_reach {10} 20 {} run_boot run_second"
    unfolding run_second_def by (rule r [OF _ sys_step.step_round])
  have "can_block run_second" by code_simp
  then show "sys_reach {10} 20 {} run_boot run_waiting" unfolding run_waiting_def by (rule r [OF m sys_step.step_lock]) simp
qed

theorem mutex_no_lost_wakeup_witness:
  "w_list run_waiting 10 = [2] \<and>
   (w_list run_waiting 10 = [] \<or> m_lock run_waiting 10 \<or>
     (\<exists>u. pc run_waiting u = Locking 10 \<and> t_state run_waiting u \<in> {TASK_STATE_READY, TASK_STATE_RUNNING})) \<and>
   list_all (\<lambda>u. t_state run_waiting u = TASK_STATE_SLEEPING \<and> pc run_waiting u = Locking 10) (w_list run_waiting 10) \<and>
   sorted_wrt (\<lambda>a b. t_prio run_waiting b \<le> t_prio run_waiting a) (w_list run_waiting 10)"
proof -
  have "w_list run_waiting 10 = [2]" by code_simp
  then show ?thesis using mutex_no_lost_wakeup [OF run_boot_ok run_reach2(2) [unfolded run_boot_def], of 10] by blast
qed

theorem task_switch_highest_first_witness:
  "queues_ok run_created \<and> (\<exists>st'. task_switch_pick run_created = Some (2, st') \<and> queues_ok (set_state 2 TASK_STATE_RUNNING st'))"
proof -
  have q: "queues_ok run_created" by (rule sys_invD(1) [OF reach_inv [OF run_reach2(1) [unfolded run_boot_def] run_boot_ok]])
  have "map_option fst (task_switch_pick run_created) = Some 2" by code_simp
  then show ?thesis using task_switch_highest_first [OF q] q by auto
qed

text \<open>
  A reference taken by \<^verbatim>\<open>thread_get_next\<close> (the \<^verbatim>\<open>ps\<close> command) does not keep a detached thread that
  exits in order. Its state stays running, so the next switch puts it back on the ready queue;
  when the reference is dropped, \<^verbatim>\<open>thread_release\<close> inserts it once more, and the check of the ready
  queue fails.
\<close>

definition run_ps :: "sys option" where
  "run_ps = do {
     (a, s) \<leftarrow> thread_get_next None run_second;
     (b, s) \<leftarrow> thread_get_next a s;
     s \<leftarrow> task_sleep 30 s;
     (_, s) \<leftarrow> task_switch_round s;
     s \<leftarrow> thread_exit 20 s;
     s \<leftarrow> task_wakeup 30 True s;
     (_, s) \<leftarrow> task_switch_round s;
     Some s }"

lemma ps_of_exiting_thread:
  "map_option (\<lambda>s. (current s, t_state s 1, t_refcount s 1)) run_ps = Some (2, TASK_STATE_READY, 1)"
  "run_ps \<bind> thread_get_next (Some 1) = None"
  by code_simp+

end
