(* ===== verification/Ipv4.thy ===== *)
theory Ipv4
  imports Mios_Prelude
begin

text \<open>
  IPv4 of \<^verbatim>\<open>src/net/ipv4/ipv4.c\<close> and UDP of \<^verbatim>\<open>src/net/ipv4/udp.c\<close>: checksums, routes, ICMP echo, the input
  path. A packet is the list of the byte strings of its fragments, which is how the operations
  on packet buffers act on it (see the theory of the packet buffers). The CPU is little endian:
  a field in network order is stored through \<^verbatim>\<open>htons\<close> and \<^verbatim>\<open>htonl\<close>, and addresses and ports are
  compared as they are in memory. \<^const>\<open>None\<close> is an access outside the first fragment or a failed
  assertion.
\<close>

type_synonym pkt = "bytes list"

definition frags_len :: "pkt \<Rightarrow> nat" where
  "frags_len pb = sum_list (map length pb)"

section \<open>Byte order\<close>

definition htons :: "u16 \<Rightarrow> u16" where
  "htons x = push_bit 8 x OR drop_bit 8 x"

definition htonl :: "u32 \<Rightarrow> u32" where
  "htonl x = push_bit 24 x OR (push_bit 8 x AND 0xff0000) OR (drop_bit 8 x AND 0xff00) OR drop_bit 24 x"

definition le16 :: "u16 \<Rightarrow> bytes" where
  "le16 w = [ucast w, ucast (drop_bit 8 w)]"

definition le16_dec :: "u8 \<Rightarrow> u8 \<Rightarrow> u16" where
  "le16_dec a b = ucast a OR push_bit 8 (ucast b)"

text \<open>Fields of a header at the start of the packet.\<close>

definition get8 :: "pkt \<Rightarrow> nat \<Rightarrow> u8 option" where
  "get8 pb off = (case pb of [] \<Rightarrow> None | f # _ \<Rightarrow> buf_rd f off)"

definition get16 :: "pkt \<Rightarrow> nat \<Rightarrow> u16 option" where
  "get16 pb off = do { a \<leftarrow> get8 pb off; b \<leftarrow> get8 pb (off + 1); Some (le16_dec a b) }"

definition get32 :: "pkt \<Rightarrow> nat \<Rightarrow> u32 option" where
  "get32 pb off = do {
     a \<leftarrow> get8 pb off; b \<leftarrow> get8 pb (off + 1); c \<leftarrow> get8 pb (off + 2); d \<leftarrow> get8 pb (off + 3);
     Some (le32_dec a b c d) }"

definition put_bytes :: "nat \<Rightarrow> bytes \<Rightarrow> pkt \<Rightarrow> pkt option" where
  "put_bytes off bs pb = (case pb of [] \<Rightarrow> None
     | f # fs \<Rightarrow> do { f \<leftarrow> buf_copy f off bs; Some (f # fs) })"

section \<open>Operations on fragments\<close>

text \<open>\<^verbatim>\<open>pbuf_drop(pb, bytes, 0)\<close>, \<^verbatim>\<open>pbuf_pullup\<close> (\<^const>\<open>None\<close>: the packet is too short) and \<^verbatim>\<open>pbuf_trim\<close>.\<close>

fun frags_drop :: "nat \<Rightarrow> pkt \<Rightarrow> pkt" where
  "frags_drop n [] = []"
| "frags_drop n (f # fs) =
     (if n < length f then drop n f # fs
      else case fs of [] \<Rightarrow> [[]] | _ # _ \<Rightarrow> frags_drop (n - length f) fs)"

definition frags_pullup :: "nat \<Rightarrow> pkt \<Rightarrow> pkt option" where
  "frags_pullup n pb =
     (case pb of
        [] \<Rightarrow> None
      | f # fs \<Rightarrow>
          if n \<le> length f then Some pb
          else if frags_len pb < n then None
          else Some (take n (concat pb) # (if frags_len pb = n then [] else frags_drop (n - length f) fs)))"

function frags_trim :: "nat \<Rightarrow> pkt \<Rightarrow> pkt" where
  "frags_trim n pb =
     (if n = 0 \<or> pb = [] then pb
      else
        let f = last pb; c = min n (length f); f' = take (length f - c) f in
        if f' = [] \<and> butlast pb \<noteq> [] then frags_trim (n - c) (butlast pb) else butlast pb @ [f'])"
  by pat_completeness auto
termination by (relation "measure (\<lambda>(n, pb). length pb)") (auto simp: Let_def)

declare frags_trim.simps [simp del]

section \<open>Checksums\<close>

fun ipv4_cksum_add :: "u32 \<Rightarrow> bytes \<Rightarrow> u32" where
  "ipv4_cksum_add s (a # b # r) = ipv4_cksum_add (s + ucast (le16_dec a b)) r"
| "ipv4_cksum_add s [a] = s + ucast a"
| "ipv4_cksum_add s [] = s"

definition ipv4_cksum_pseudo :: "u32 \<Rightarrow> u32 \<Rightarrow> u8 \<Rightarrow> u16 \<Rightarrow> u32" where
  "ipv4_cksum_pseudo src_addr dst_addr protocol len =
     ipv4_cksum_add 0 (le32 src_addr @ le32 dst_addr @ [0, protocol] @ le16 (htons len))"

lemma unat_bound: "unat (w :: 'a :: len word) < 2 ^ LENGTH('a)"
  by (rule unsigned_less)

lemma fold_step:
  fixes s :: u32
  shows "unat (drop_bit 16 s + (s AND 0xffff)) = unat s div 65536 + unat s mod 65536"
proof -
  have m: "s AND 0xffff = take_bit 16 s" by (simp add: take_bit_eq_mask mask_eq_exp_minus_1)
  have a: "unat (drop_bit 16 s) = unat s div 65536" "unat (take_bit 16 s) = unat s mod 65536"
    by (simp_all add: drop_bit_eq_div take_bit_eq_mod unat_div unat_mod)
  have "unat s < 2 ^ 32" using unat_bound [of s] by simp
  then have "unat (drop_bit 16 s) + unat (take_bit 16 s) < 2 ^ LENGTH(32)"
    unfolding a by simp
  then show ?thesis unfolding m by (simp add: unat_add_lem [THEN iffD1] a)
qed

lemma fold_less: "65535 < x \<Longrightarrow> x div 65536 + x mod 65536 < (x :: nat)"
  using div_mult_mod_eq [of x 65536] by (cases "x div 65536") auto

function ipv4_cksum_fold :: "u32 \<Rightarrow> u16" where
  "ipv4_cksum_fold s = (if s > 0xffff then ipv4_cksum_fold (drop_bit 16 s + (s AND 0xffff)) else ucast s)"
  by pat_completeness auto
termination
  by (relation "measure unat") (auto simp: fold_step fold_less word_less_nat_alt)

declare ipv4_cksum_fold.simps [simp del]

fun ipv4_cksum_frags :: "u32 \<Rightarrow> pkt \<Rightarrow> nat \<Rightarrow> nat \<Rightarrow> u32" where
  "ipv4_cksum_frags s [] offset len = s"
| "ipv4_cksum_frags s (f # fs) offset len =
     (if len = 0 then s
      else if offset > length f then ipv4_cksum_frags s fs (offset - length f) len
      else
        let clen = min len (length f - offset) in
        ipv4_cksum_frags (ipv4_cksum_add s (take clen (drop offset f))) fs 0 (len - clen))"

definition ipv4_cksum_pbuf :: "u32 \<Rightarrow> pkt \<Rightarrow> nat \<Rightarrow> nat \<Rightarrow> u16" where
  "ipv4_cksum_pbuf s pb offset len = NOT (ipv4_cksum_fold (ipv4_cksum_frags s pb offset len))"


section \<open>Routes and output\<close>

text \<open>
  The state of the layer: the interfaces in the order of their list, the next hops with the
  interface each goes through, the counters of dropped packets, the packets given to the output
  functions of the interfaces. What the rest of the system answers is a list that is used up:
  \<^verbatim>\<open>rand\<close>, whether memory for a next hop is there, whether \<^verbatim>\<open>pbuf_make\<close> finds a buffer, the results of
  the output functions. When a list is empty the answer is 0, or a failed allocation.
\<close>

record netif =
  ni_ipv4_local_addr :: u32
  ni_ipv4_local_prefixlen :: nat
  ni_flags :: u16

record ipv4 =
  netifs :: "nat list"
  netif_of :: "nat \<Rightarrow> netif"
  ipv4_nexthops :: "(u32 \<times> nat) list"
  ni_ipv4_bad :: nat
  ni_ipv4_bad_cksum :: nat
  ni_ipv4_fragmented :: nat
  ip_sent :: "(nat \<times> u32 \<times> pkt) list"
  ans_rand :: "u32 list"
  ans_xalloc :: "nat list"
  ans_pbuf :: "bool list"
  ans_out :: "int list"

definition NETIF_F_TX_IPV4_CKSUM_OFFLOAD :: u16 where "NETIF_F_TX_IPV4_CKSUM_OFFLOAD = 0x100"
definition NETIF_F_TX_ICMP_CKSUM_OFFLOAD :: u16 where "NETIF_F_TX_ICMP_CKSUM_OFFLOAD = 0x200"
definition NETIF_F_TX_TCP_CKSUM_OFFLOAD :: u16 where "NETIF_F_TX_TCP_CKSUM_OFFLOAD = 0x800"

definition rand_c :: "'x ipv4_scheme \<Rightarrow> u32 \<times> 'x ipv4_scheme" where
  "rand_c s = (case ans_rand s of [] \<Rightarrow> (0, s) | r # rs \<Rightarrow> (r, s\<lparr>ans_rand := rs\<rparr>))"

definition xalloc_ans :: "'x ipv4_scheme \<Rightarrow> nat \<times> 'x ipv4_scheme" where
  "xalloc_ans s = (case ans_xalloc s of [] \<Rightarrow> (0, s) | a # as \<Rightarrow> (a, s\<lparr>ans_xalloc := as\<rparr>))"

definition pbuf_ans :: "'x ipv4_scheme \<Rightarrow> bool \<times> 'x ipv4_scheme" where
  "pbuf_ans s = (case ans_pbuf s of [] \<Rightarrow> (False, s) | a # as \<Rightarrow> (a, s\<lparr>ans_pbuf := as\<rparr>))"

definition ni_output_ipv4 :: "nat \<Rightarrow> u32 \<Rightarrow> pkt \<Rightarrow> 'x ipv4_scheme \<Rightarrow> int \<times> 'x ipv4_scheme" where
  "ni_output_ipv4 ni nh pb s =
     (let s = s\<lparr>ip_sent := ip_sent s @ [(ni, nh, pb)]\<rparr> in
      case ans_out s of [] \<Rightarrow> (0, s) | r # rs \<Rightarrow> (r, s\<lparr>ans_out := rs\<rparr>))"

definition ipv4_prefix_match :: "u32 \<Rightarrow> u32 \<Rightarrow> nat \<Rightarrow> bool" where
  "ipv4_prefix_match addr prefix prefixlen =
     (let m = htonl (mask_from_prefixlen prefixlen) in addr AND m = prefix AND m)"

text \<open>The interface of the next hop, \<^const>\<open>None\<close> for NULL.\<close>

definition ipv4_nexthop_resolve :: "u32 \<Rightarrow> 'x ipv4_scheme \<Rightarrow> nat option \<times> 'x ipv4_scheme" where
  "ipv4_nexthop_resolve addr s =
     (case find (\<lambda>(a, _). a = addr) (ipv4_nexthops s) of
        Some (_, ni) \<Rightarrow> (Some ni, s)
      | None \<Rightarrow>
          (case find (\<lambda>ni. ni_ipv4_local_addr (netif_of s ni) \<noteq> 0 \<and>
                 ipv4_prefix_match addr (ni_ipv4_local_addr (netif_of s ni)) (ni_ipv4_local_prefixlen (netif_of s ni))) (netifs s) of
             None \<Rightarrow> (None, s)
           | Some ni \<Rightarrow>
               let (a, s) = xalloc_ans s in
               if a = 0 then (None, s) else (Some ni, s\<lparr>ipv4_nexthops := (addr, ni) # ipv4_nexthops s\<rparr>)))"

text \<open>The IPv4 header that \<^verbatim>\<open>tcp_output\<close> and \<^verbatim>\<open>udp_send\<close> put in front, without its checksum.\<close>

definition ipv4_header :: "u8 \<Rightarrow> u16 \<Rightarrow> u16 \<Rightarrow> u16 \<Rightarrow> u32 \<Rightarrow> u32 \<Rightarrow> bytes" where
  "ipv4_header proto total_length ident fragment_info src dst =
     [0x45, 0] @ le16 (htons total_length) @ le16 ident @ le16 (htons fragment_info) @ [255, proto] @ [0, 0] @ le32 src @ le32 dst"

definition ipv4_prepend :: "u8 \<Rightarrow> u16 \<Rightarrow> u32 \<Rightarrow> u32 \<Rightarrow> netif \<Rightarrow> pkt \<Rightarrow> 'x ipv4_scheme \<Rightarrow> (pkt \<times> 'x ipv4_scheme) option" where
  "ipv4_prepend proto fragment_info src dst ni pb s = do {
     (f, fs) \<leftarrow> (case pb of [] \<Rightarrow> None | f # fs \<Rightarrow> Some (f, fs));
     let (ident, s) = rand_c s;
     let pb = (ipv4_header proto (of_nat (frags_len pb + 20)) (ucast ident) fragment_info src dst @ f) # fs;
     pb \<leftarrow> (if ni_flags ni AND NETIF_F_TX_IPV4_CKSUM_OFFLOAD = 0 then put_bytes 10 (le16 (ipv4_cksum_pbuf 0 pb 0 20)) pb else Some pb);
     Some (pb, s)
   }"

section \<open>ICMP echo\<close>

text \<open>The packet is answered in place: the addresses are exchanged, the type becomes a reply.\<close>

definition icmp_input_icmp_echo :: "netif \<Rightarrow> pkt \<Rightarrow> nat \<Rightarrow> 'x ipv4_scheme \<Rightarrow> 'x ipv4_scheme option" where
  "icmp_input_icmp_echo ni pb icmp_offset s = do {
     src \<leftarrow> get32 pb 12;
     case ipv4_nexthop_resolve src s of
       (None, s) \<Rightarrow> Some s
     | (Some out, s) \<Rightarrow> do {
         pb \<leftarrow> put_bytes 16 (le32 src) pb;
         pb \<leftarrow> put_bytes 12 (le32 (ni_ipv4_local_addr ni)) pb;
         pb \<leftarrow> put_bytes icmp_offset [0] pb;
         let oi = netif_of s out;
         pb \<leftarrow> put_bytes (icmp_offset + 2) [0, 0] pb;
         pb \<leftarrow> (if ni_flags oi AND NETIF_F_TX_ICMP_CKSUM_OFFLOAD = 0
                then put_bytes (icmp_offset + 2) (le16 (ipv4_cksum_pbuf 0 pb icmp_offset (2 ^ 31 - 1))) pb else Some pb);
         pb \<leftarrow> put_bytes 10 [0, 0] pb;
         pb \<leftarrow> (if ni_flags oi AND NETIF_F_TX_IPV4_CKSUM_OFFLOAD = 0
                then put_bytes 10 (le16 (ipv4_cksum_pbuf 0 pb 0 20)) pb else Some pb);
         Some (snd (ni_output_ipv4 out src pb s))
       }
   }"

text \<open>The first component of the result tells whether the packet is given back to the caller, which frees it.\<close>

definition ipv4_input_icmp :: "netif \<Rightarrow> bool \<Rightarrow> pkt \<Rightarrow> nat \<Rightarrow> 'x ipv4_scheme \<Rightarrow> (bool \<times> 'x ipv4_scheme) option" where
  "ipv4_input_icmp ni mcast pb icmp_offset s =
     (if ni_ipv4_local_addr ni = 0 then Some (True, s)
      else if mcast then Some (True, s)
      else if ipv4_cksum_pbuf 0 pb icmp_offset (2 ^ 31 - 1) \<noteq> 0 then Some (True, s)
      else case frags_pullup (icmp_offset + 4) pb of
        None \<Rightarrow> Some (True, s)
      | Some pb \<Rightarrow> do {
          t \<leftarrow> get8 pb icmp_offset;
          if t = 8 then do { s \<leftarrow> icmp_input_icmp_echo ni pb icmp_offset s; Some (False, s) } else Some (True, s)
        })"

section \<open>Input\<close>

text \<open>The handlers of IGMP, UDP and TCP are a parameter; they get the packet and whether it was sent to a
  multicast address.\<close>

definition ipv4_input ::
  "(u8 \<Rightarrow> bool \<Rightarrow> pkt \<Rightarrow> 'x ipv4_scheme \<Rightarrow> (bool \<times> 'x ipv4_scheme) option) \<Rightarrow> netif \<Rightarrow> bool \<Rightarrow> pkt \<Rightarrow> 'x ipv4_scheme \<Rightarrow>
    (bool \<times> 'x ipv4_scheme) option" where
  "ipv4_input handler ni cksum_ok pb s =
     (case frags_pullup 20 pb of
        None \<Rightarrow> Some (True, s)
      | Some pb \<Rightarrow> do {
          ver_ihl \<leftarrow> get8 pb 0;
          if ver_ihl \<noteq> 0x45 then Some (True, s)
          else if \<not> cksum_ok \<and> ipv4_cksum_pbuf 0 pb 0 20 \<noteq> 0 then
            Some (True, s\<lparr>ni_ipv4_bad_cksum := ni_ipv4_bad_cksum s + 1\<rparr>)
          else do {
            frag \<leftarrow> get16 pb 6;
            if htons frag AND 0x3fff \<noteq> 0 then Some (True, s\<lparr>ni_ipv4_fragmented := ni_ipv4_fragmented s + 1\<rparr>)
            else do {
              total \<leftarrow> get16 pb 2;
              let len = unat (htons total);
              if len > frags_len pb then Some (True, s\<lparr>ni_ipv4_bad := ni_ipv4_bad s + 1\<rparr>)
              else do {
                let pb = (if len < frags_len pb then frags_trim (frags_len pb - len) pb else pb);
                dst \<leftarrow> get32 pb 16;
                let mcast = (dst \<noteq> 0xffffffff \<and> dst AND htonl 0xf0000000 = htonl 0xe0000000);
                proto \<leftarrow> get8 pb 9;
                if proto = 1 then ipv4_input_icmp ni mcast pb 20 s
                else if proto = 2 \<or> proto = 17 \<or> proto = 6 then handler proto mcast pb s
                else Some (True, s)
              }
            }
          }
        })"

section \<open>UDP\<close>

text \<open>Ports with the functions that take their packets, in the order of the linker section.\<close>

definition udp_input_ipv4 ::
  "(u16 \<times> (pkt \<Rightarrow> 'x ipv4_scheme \<Rightarrow> (bool \<times> 'x ipv4_scheme) option)) list \<Rightarrow> pkt \<Rightarrow> nat \<Rightarrow> 'x ipv4_scheme \<Rightarrow> (bool \<times> 'x ipv4_scheme) option" where
  "udp_input_ipv4 inputs pb udp_offset s = do {
     p \<leftarrow> get16 pb (udp_offset + 2);
     case find (\<lambda>(port, _). port = htons p) inputs of None \<Rightarrow> Some (True, s) | Some (_, f) \<Rightarrow> f pb s
   }"

text \<open>The buffers for the headers are waited for, so prepending cannot fail. \<open>nh\<close> is the address of the next hop
  given by the caller together with an interface.\<close>

definition udp_send :: "nat option \<Rightarrow> pkt \<Rightarrow> u32 \<Rightarrow> u32 \<Rightarrow> u16 \<Rightarrow> u16 \<Rightarrow> 'x ipv4_scheme \<Rightarrow> 'x ipv4_scheme option" where
  "udp_send ni pb dst_addr nh src_port dst_port s =
     (case (case ni of Some n \<Rightarrow> (Some n, nh, s)
            | None \<Rightarrow> (case ipv4_nexthop_resolve dst_addr s of (n, s) \<Rightarrow> (n, dst_addr, s))) of
        (None, _, s) \<Rightarrow> Some s
      | (Some n, nh, s) \<Rightarrow> do {
          let i = netif_of s n;
          (f, fs) \<leftarrow> (case pb of [] \<Rightarrow> None | f # fs \<Rightarrow> Some (f, fs));
          let len = (of_nat (frags_len pb + 8) :: u16);
          let pb = (le16 (htons src_port) @ le16 (htons dst_port) @ le16 (htons len) @ [0, 0] @ f) # fs;
          pb \<leftarrow> (if ni_flags i AND NETIF_F_TX_IPV4_CKSUM_OFFLOAD = 0
                 then put_bytes 6 (le16 (ipv4_cksum_pbuf (ipv4_cksum_pseudo (ni_ipv4_local_addr i) dst_addr 17 len) pb 0 (unat len))) pb
                 else Some pb);
          (pb, s) \<leftarrow> ipv4_prepend 17 0 (ni_ipv4_local_addr i) dst_addr i pb s;
          Some (snd (ni_output_ipv4 n nh pb s))
        })"

section \<open>The checksum\<close>

text \<open>The sum of the 16-bit words of a byte string, the last byte padded with zero.\<close>

fun word_sum :: "bytes \<Rightarrow> nat" where
  "word_sum (a # b # r) = unat a + 256 * unat b + word_sum r"
| "word_sum [a] = unat a"
| "word_sum [] = 0"

lemma unat_ucast_u8 [simp]: "unat (ucast (a :: u8) :: u16) = unat a" "unat (ucast (a :: u8) :: u32) = unat a"
  using less_trans [OF unat_u8_less [of a], of "2 ^ 16"] less_trans [OF unat_u8_less [of a], of "2 ^ 32"]
  by (simp_all add: unsigned_ucast_eq take_bit_nat_eq_self)

lemma unat_le16_dec: "unat (le16_dec a b) = unat a + 256 * unat b"
proof -
  have "le16_dec a b = ucast a + push_bit 8 (ucast b)"
    unfolding le16_dec_def
    by (rule disjunctive_add [symmetric]) (auto simp: bit_simps dest: bit_imp_le_length)
  moreover have l: "unat a < 256" "unat b < 256" by simp_all
  then have "unat a + 256 * unat b < 65536" by linarith
  moreover have "unat (push_bit 8 (ucast b) :: u16) = 256 * unat b"
  proof -
    have "push_bit 8 (ucast b) = (256 :: u16) * ucast b" by (simp add: push_bit_eq_mult mult.commute)
    also have "unat \<dots> = 256 * unat b" using l by (subst unat_mult_lem [THEN iffD1]) simp_all
    finally show ?thesis .
  qed
  ultimately show ?thesis by (subst \<open>le16_dec a b = _\<close>, subst unat_add_lem [THEN iffD1]) simp_all
qed

lemma word_sum_le: "word_sum xs \<le> 65535 * ((length xs + 1) div 2)"
proof (induction xs rule: word_sum.induct)
  case (1 a b r)
  have "unat a < 256" "unat b < 256" by simp_all
  then have "unat a + 256 * unat b \<le> 65535" by linarith
  then show ?case using 1 by simp
next
  case (2 a)
  have "unat a < 256" by simp
  then have "unat a \<le> 65535" by linarith
  then show ?case by simp
qed simp

lemma word_sum_append: "even (length xs) \<Longrightarrow> word_sum (xs @ ys) = word_sum xs + word_sum ys"
  by (induction xs rule: word_sum.induct) auto

lemma unat_cksum_add:
  "unat s + word_sum xs < 2 ^ 32 \<Longrightarrow> unat (ipv4_cksum_add s xs) = unat s + word_sum xs"
proof (induction s xs rule: ipv4_cksum_add.induct)
  case (1 s a b r)
  have "unat (s + ucast (le16_dec a b)) = unat s + (unat a + 256 * unat b)"
    using 1(2) by (subst unat_add_lem [THEN iffD1]) (simp_all add: unat_le16_dec unsigned_ucast_eq take_bit_nat_eq_self)
  then show ?case using 1 by simp
next
  case (2 s a)
  then show ?case by (subst unat_add_lem [THEN iffD1] | simp add: unsigned_ucast_eq take_bit_nat_eq_self)+
qed simp

lemma cksum_add_append: "even (length xs) \<Longrightarrow> ipv4_cksum_add s (xs @ ys) = ipv4_cksum_add (ipv4_cksum_add s xs) ys"
  by (induction s xs rule: ipv4_cksum_add.induct) auto

text \<open>Fragments of even length: the sum does not see where they end.\<close>

lemma cksum_frags_concat:
  "\<forall>f \<in> set (butlast pb). even (length f) \<Longrightarrow> even off \<Longrightarrow>
    ipv4_cksum_frags s pb off len = ipv4_cksum_add s (take len (drop off (concat pb)))"
proof (induction s pb off len rule: ipv4_cksum_frags.induct)
  case (2 s f fs off len)
  have ev: "fs \<noteq> [] \<Longrightarrow> even (length f)" "\<forall>g \<in> set (butlast fs). even (length g)" using 2(3) by (auto split: if_splits)
  show ?case
  proof (cases "len = 0 \<or> length f < off")
    case True
    then show ?thesis using 2 ev by (cases "fs = []") auto
  next
    case False
    let ?c = "min len (length f - off)"
    have "take len (drop off (concat (f # fs))) = take ?c (drop off f) @ take (len - ?c) (concat fs)"
      using False by (cases "len \<le> length f - off") (auto simp: min_def)
    moreover have "fs = [] \<or> len - ?c = 0 \<or> even (length (take ?c (drop off f)))"
      using ev(1) 2(4) by (auto simp: min_def)
    ultimately have "ipv4_cksum_add s (take len (drop off (concat (f # fs)))) =
        ipv4_cksum_add (ipv4_cksum_add s (take ?c (drop off f))) (take (len - ?c) (concat fs))"
      using cksum_add_append [of "take ?c (drop off f)" s] by auto
    then show ?thesis using False 2(2) ev by (simp add: Let_def)
  qed
qed simp

lemma fold_mod: "unat (ipv4_cksum_fold s) mod 65535 = unat s mod 65535 \<and> (ipv4_cksum_fold s = 0 \<longleftrightarrow> s = 0)"
proof (induction s rule: ipv4_cksum_fold.induct)
  case (1 s)
  show ?case
  proof (cases "s > 0xffff")
    case True
    let ?t = "drop_bit 16 s + (s AND 0xffff)"
    have "unat s = 65535 * (unat s div 65536) + (unat s div 65536 + unat s mod 65536)"
      using div_mult_mod_eq [of "unat s" 65536] by simp
    then have "unat ?t mod 65535 = unat s mod 65535" unfolding fold_step by (metis mod_mult_self4)
    moreover have "?t \<noteq> 0"
      using True fold_step [of s] by (auto simp: word_less_nat_alt unat_eq_0 [symmetric] simp del: unat_eq_0)
    ultimately show ?thesis using 1 True by (subst (1 2) ipv4_cksum_fold.simps) auto
  next
    case False
    then have "unat s < 65536" by (simp add: word_less_nat_alt not_less word_le_nat_alt)
    then have "unat (ucast s :: u16) = unat s" by (simp add: unsigned_ucast_eq take_bit_nat_eq_self)
    then show ?thesis using False by (subst (1 2) ipv4_cksum_fold.simps) (auto simp: unat_eq_0 [symmetric] simp del: unat_eq_0)
  qed
qed

lemma cksum_zero_iff: "NOT (ipv4_cksum_fold s) = 0 \<longleftrightarrow> s \<noteq> 0 \<and> unat s mod 65535 = 0"
proof -
  let ?f = "ipv4_cksum_fold s"
  have "NOT ?f = 0 \<longleftrightarrow> ?f = - 1" by (metis bit.compl_zero bit.double_compl)
  also have "\<dots> \<longleftrightarrow> unat ?f = 65535" by (simp add: word_unat_eq_iff unsigned_minus_1_eq_mask mask_eq_exp_minus_1)
  also have "\<dots> \<longleftrightarrow> unat ?f \<noteq> 0 \<and> unat ?f mod 65535 = 0"
  proof -
    have "unat ?f < 65536" using unat_bound [of ?f] by simp
    then show ?thesis by (auto simp: dvd_def mod_eq_0_iff_dvd)
  qed
  finally show ?thesis using fold_mod [of s] by (simp add: unat_eq_0)
qed


text \<open>\<^verbatim>\<open>htons\<close> and \<^verbatim>\<open>htonl\<close> reverse the bytes.\<close>

lemma le16_htons: "le16 (htons x) = [ucast (drop_bit 8 x), ucast x]"
  by (auto simp: le16_def htons_def bit_eq_iff bit_simps)

lemma bit_0xff00: "bit (0xff00 :: int) n \<longleftrightarrow> 8 \<le> n \<and> n < 16" "bit (0xff0000 :: int) n \<longleftrightarrow> 16 \<le> n \<and> n < 24"
proof -
  have "(0xff00 :: int) = push_bit 8 (mask 8)" "(0xff0000 :: int) = push_bit 16 (mask 8)" by (simp_all add: mask_eq_exp_minus_1)
  then show "bit (0xff00 :: int) n \<longleftrightarrow> 8 \<le> n \<and> n < 16" "bit (0xff0000 :: int) n \<longleftrightarrow> 16 \<le> n \<and> n < 24"
    by (auto simp only: bit_push_bit_iff bit_mask_iff possible_bit_def) auto
qed

lemma le32_htonl: "le32 (htonl x) = rev (le32 x)"
  by (auto simp: le32_def htonl_def bit_eq_iff bit_simps bit_0xff00)

lemma length_le16 [simp]: "length (le16 x) = 2"
  by (simp add: le16_def)

lemma le16_dec_le16: "le16_dec (ucast x) (ucast (drop_bit 8 x)) = x"
  by (auto simp: le16_dec_def bit_eq_iff bit_simps dest: bit_imp_le_length)

lemma word_sum_le16 [simp]: "word_sum (le16 x) = unat x"
  using unat_le16_dec [of "ucast x" "ucast (drop_bit 8 x)"] by (simp add: le16_def le16_dec_le16)

text \<open>The checksum put into its field, which was zero, makes the whole sum verify; a change of any single
  byte afterwards does not.\<close>

lemma unat_not_u16: "unat (NOT (x :: u16)) = 65535 - unat x"
proof -
  have "NOT x = - 1 - x" by (simp add: not_eq_complement)
  moreover have "x \<le> - 1" by simp
  ultimately show ?thesis by (simp add: unat_sub unsigned_minus_1_eq_mask mask_eq_exp_minus_1)
qed

lemma cksum_field:
  assumes ev: "even (length xs)" and n: "length xs + 2 + length ys \<le> 65536" and s: "unat s \<le> 1000000"
    and c: "c = NOT (ipv4_cksum_fold (ipv4_cksum_add s (xs @ [0, 0] @ ys)))"
  shows "NOT (ipv4_cksum_fold (ipv4_cksum_add s (xs @ le16 c @ ys))) = 0"
proof -
  let ?t = "word_sum xs + word_sum ys" and ?s0 = "ipv4_cksum_add s (xs @ [0, 0] @ ys)"
  let ?f = "unat (ipv4_cksum_fold ?s0)"
  have "(length xs + 1) div 2 + (length ys + 1) div 2 \<le> 32769" using n by linarith
  then have t: "?t \<le> 65535 * 32769" using word_sum_le [of xs] word_sum_le [of ys] by linarith
  have w0: "word_sum (xs @ [0, 0] @ ys) = ?t" and w1: "word_sum (xs @ le16 c @ ys) = ?t + unat c"
    using ev word_sum_append [of "[0, 0]" ys] word_sum_append [of "le16 c" ys] by (simp_all add: word_sum_append)
  have c16: "unat c < 65536" "?f < 65536" using unat_bound [of c] unat_bound [of "ipv4_cksum_fold ?s0"] by simp_all
  have s0: "unat ?s0 = unat s + ?t" using unat_cksum_add [of s "xs @ [0, 0] @ ys"] w0 t s by simp
  have s1: "unat (ipv4_cksum_add s (xs @ le16 c @ ys)) = unat s + ?t + unat c"
    using unat_cksum_add [of s "xs @ le16 c @ ys"] w1 t s c16 by simp
  have uc: "unat c = 65535 - ?f" unfolding c by (rule unat_not_u16)
  have "(unat s + ?t + unat c) mod 65535 = (?f + unat c) mod 65535"
    using fold_mod [of ?s0] s0 by (metis mod_add_left_eq)
  also have "\<dots> = 0" using uc c16 by simp
  finally have m: "(unat s + ?t + unat c) mod 65535 = 0" .
  have "unat s + ?t + unat c \<noteq> 0"
  proof (cases "unat s + ?t = 0")
    case True
    then have "?s0 = 0" using s0 by (simp only: unat_eq_0)
    then have "?f = 0" using fold_mod [of ?s0] by simp
    then show ?thesis using uc by simp
  next
    case False
    then show ?thesis by linarith
  qed
  then have "ipv4_cksum_add s (xs @ le16 c @ ys) \<noteq> 0" using s1 by (metis unat_0)
  then show ?thesis using m s1 by (simp add: cksum_zero_iff)
qed


lemma word_sum_upd:
  "i < length xs \<Longrightarrow>
    int (word_sum (xs[i := b])) = int (word_sum xs) + (if even i then 1 else 256) * (int (unat b) - int (unat (xs ! i)))"
proof (induction xs arbitrary: i rule: word_sum.induct)
  case (1 x y r)
  consider "i = 0" | "i = 1" | j where "i = Suc (Suc j)" by (metis One_nat_def not0_implies_Suc)
  then show ?case
  proof cases
    case 3
    then show ?thesis using 1 by simp
  qed simp_all
qed auto

lemma cksum_detects:
  assumes ok: "NOT (ipv4_cksum_fold (ipv4_cksum_add s xs)) = 0" and n: "length xs \<le> 65536" and s: "unat s \<le> 1000000"
    and i: "i < length xs" "b \<noteq> xs ! i"
  shows "NOT (ipv4_cksum_fold (ipv4_cksum_add s (xs[i := b]))) \<noteq> 0"
proof
  assume bad: "NOT (ipv4_cksum_fold (ipv4_cksum_add s (xs[i := b]))) = 0"
  have w: "word_sum ys < 2 ^ 32 - 1000000" if "length ys = length xs" for ys
    using word_sum_le [of ys] n that by (auto elim!: order.strict_trans1)
  let ?d = "(if even i then 1 else 256) * (int (unat b) - int (unat (xs ! i)))"
  have "unat (ipv4_cksum_add s ys) = unat s + word_sum ys" if "length ys = length xs" for ys
    using w [OF that] s by (intro unat_cksum_add) linarith
  then have "65535 dvd unat s + word_sum xs" "65535 dvd unat s + word_sum (xs[i := b])"
    using ok bad by (simp_all add: cksum_zero_iff mod_eq_0_iff_dvd)
  then have "int 65535 dvd int (unat s + word_sum xs)" "int 65535 dvd int (unat s + word_sum (xs[i := b]))"
    by (simp_all only: of_nat_dvd_iff)
  then have "int 65535 dvd int (unat s + word_sum (xs[i := b])) - int (unat s + word_sum xs)" by (rule dvd_diff [rotated])
  then have "65535 dvd ?d" using word_sum_upd [OF i(1), of b] by simp
  moreover have "?d \<noteq> 0" using i(2) unfolding word_uint_eq_iff by auto
  moreover have "\<bar>?d\<bar> < 65535"
  proof -
    have "\<bar>(if even i then 1 else 256) * (x - y)\<bar> < 65535" if "0 \<le> x" "x < 256" "0 \<le> y" "y < 256" for x y :: int
      using that by (auto simp: abs_if)
    then show ?thesis using unat_u8_less [of b] unat_u8_less [of "xs ! i"] by (metis of_nat_0_le_iff of_nat_less_iff of_nat_numeral)
  qed
  ultimately show False using zdvd_not_zless [of "\<bar>?d\<bar>" 65535] by (simp add: dvd_abs_iff)
qed

lemma put_bytes_concat:
  assumes "put_bytes off bs pb = Some pb'"
  shows "concat pb' = take off (concat pb) @ bs @ drop (off + length bs) (concat pb)" "map length pb' = map length pb"
    "off + length bs \<le> length (concat pb)"
  using assms by (auto simp: put_bytes_def buf_copy_def split: list.splits if_splits)

lemma even_frags: "map length pb' = map length pb \<Longrightarrow> (\<forall>f \<in> set (butlast pb'). even (length f)) = (\<forall>f \<in> set (butlast pb). even (length f))"
proof -
  assume "map length pb' = map length pb"
  then have "map length (butlast pb') = map length (butlast pb)" by (simp add: map_butlast)
  then have "length ` set (butlast pb') = length ` set (butlast pb)" by (metis set_map)
  then show ?thesis by (metis (no_types, opaque_lifting) image_iff)
qed

text \<open>C19. A checksum computed by \<^verbatim>\<open>ipv4_cksum_pbuf\<close> over a part of a packet, with its field zero, and stored in the
  field makes the check of the receiver over the same part give 0, for every packet of up to 64
  kilobytes whose fragments but the last have even length and any pseudo header; after a change of
  one byte of that part the check does not give 0.\<close>

theorem ipv4_cksum_verifies:
  assumes ev: "\<forall>f \<in> set (butlast pb). even (length f)" "even off" "even start" and r: "start \<le> off" "off + 2 \<le> start + len"
    and n: "frags_len pb \<le> 65536" "unat s \<le> 1000000"
    and p0: "put_bytes off [0, 0] pb = Some pb0" and p1: "put_bytes off (le16 (ipv4_cksum_pbuf s pb0 start len)) pb0 = Some pb1"
  shows "ipv4_cksum_pbuf s pb1 start len = 0 \<and>
    (\<forall>i b. start \<le> i \<and> i < start + len \<and> i < frags_len pb \<and> b \<noteq> concat pb1 ! i \<longrightarrow>
      ipv4_cksum_pbuf s [(concat pb1)[i := b]] start len \<noteq> 0)"
proof -
  let ?C = "concat pb" and ?c = "ipv4_cksum_pbuf s pb0 start len"
  note c0 = put_bytes_concat [OF p0] and c1 = put_bytes_concat [OF p1]
  have len: "length ?C = frags_len pb" by (simp add: frags_len_def length_concat)
  have l: "off + 2 \<le> length ?C" using c0(3) by simp
  define xs where "xs = take (off - start) (drop start ?C)"
  define ys where "ys = take (len - (off - start) - 2) (drop (off + 2) ?C)"
  have split: "take len (drop start (take off ?C @ z @ drop (off + 2) ?C)) = xs @ z @ ys" if "length z = 2" for z
  proof -
    obtain k where "off = start + k" using r(1) le_iff_add by blast
    then show ?thesis using that r l by (simp add: xs_def ys_def drop_take min_def)
  qed
  have C0: "concat pb0 = take off ?C @ [0, 0] @ drop (off + 2) ?C" using c0(1) by simp
  have C1: "concat pb1 = take off ?C @ le16 ?c @ drop (off + 2) ?C"
    using c1(1) l by (simp add: C0)
  have e0: "\<forall>f \<in> set (butlast pb0). even (length f)" "\<forall>f \<in> set (butlast pb1). even (length f)"
    using ev(1) even_frags [OF c0(2)] even_frags [OF c1(2)] by blast+
  have x: "even (length xs)" "length xs + 2 + length ys \<le> 65536" using ev r n l len by (auto simp: xs_def ys_def)
  have f1: "ipv4_cksum_frags s pb1 start len = ipv4_cksum_add s (xs @ le16 ?c @ ys)"
    using cksum_frags_concat [OF e0(2) ev(3)] split [of "le16 ?c"] by (simp add: C1)
  have "?c = NOT (ipv4_cksum_fold (ipv4_cksum_add s (xs @ [0, 0] @ ys)))"
    using cksum_frags_concat [OF e0(1) ev(3), of s len] split [of "[0, 0]"] by (simp add: ipv4_cksum_pbuf_def C0)
  note ok = cksum_field [OF x n(2) this]
  have "ipv4_cksum_pbuf s [(concat pb1)[i := b]] start len \<noteq> 0"
    if i: "start \<le> i" "i < start + len" "i < frags_len pb" "b \<noteq> concat pb1 ! i" for i b
  proof -
    let ?D = "take len (drop start (concat pb1))"
    have D: "?D = xs @ le16 ?c @ ys" using split [of "le16 ?c"] by (simp add: C1)
    have l1: "length (concat pb1) = frags_len pb" using l len by (simp add: C1)
    have "take len (drop start ((concat pb1)[i := b])) = ?D[i - start := b]"
      using i by (simp add: drop_update_swap take_update_swap)
    moreover have "b \<noteq> ?D ! (i - start)" "i - start < length ?D" using i l1 by auto
    moreover have "length ?D \<le> 65536" using l1 n by simp
    ultimately show ?thesis
      using cksum_detects [of s ?D "i - start" b] ok n(2) cksum_frags_concat [of "[(concat pb1)[i := b]]" start s len] ev(3)
      unfolding D by (simp add: ipv4_cksum_pbuf_def)
  qed
  then show ?thesis using ok f1 by (simp add: ipv4_cksum_pbuf_def)
qed


definition demo_ping :: pkt where
  "demo_ping = [[8, 0, 0, 0, 1, 2], [3, 4, 5]]"

definition demo_pong :: pkt where
  "demo_pong = [[8, 0, 238, 249, 1, 2], [3, 4, 5]]"

theorem ipv4_cksum_verifies_witness:
  "ipv4_cksum_pbuf 0 demo_ping 0 9 = le16_dec 238 249 \<and> ipv4_cksum_pbuf 0 demo_pong 0 9 = 0 \<and>
   ipv4_cksum_pbuf 0 [(concat demo_pong)[7 := 9]] 0 9 \<noteq> 0"
proof -
  have c: "ipv4_cksum_pbuf 0 demo_ping 0 9 = le16_dec 238 249"
    by (simp add: ipv4_cksum_pbuf_def demo_ping_def ipv4_cksum_fold.simps le16_dec_def Let_def)
  have p: "put_bytes 2 [0, 0] demo_ping = Some demo_ping" "put_bytes 2 (le16 (le16_dec 238 249)) demo_ping = Some demo_pong"
    by (simp_all add: put_bytes_def buf_copy_def demo_ping_def demo_pong_def le16_def le16_dec_def)
  have n: "\<forall>f \<in> set (butlast demo_ping). even (length f)" "frags_len demo_ping \<le> 65536" "concat demo_pong ! 7 \<noteq> 9" "frags_len demo_ping = 9"
    by (simp_all add: demo_ping_def demo_pong_def frags_len_def)
  note v = ipv4_cksum_verifies [of demo_ping 2 0 9 0 demo_ping demo_pong, unfolded c, OF n(1) _ _ _ _ n(2) _ p]
  have "ipv4_cksum_pbuf 0 demo_pong 0 9 = 0" using v by simp
  moreover have "ipv4_cksum_pbuf 0 [(concat demo_pong)[7 := 9]] 0 9 \<noteq> 0"
    using v [THEN conjunct2, rule_format, of 7 9] n(3,4) by simp
  ultimately show ?thesis using c by blast
qed

end
