(* ===== verification/Tcp.thy ===== *)
theory Tcp
  imports Ipv4
begin

text \<open>
  TCP of \<^verbatim>\<open>src/net/ipv4/tcp.c\<close>. A connection is the record of the C structure; its two ring buffers are byte
  strings of their sizes. Sequence numbers are 32-bit words and wrap. Packets are lists of fragments
  as in the theory of IPv4. A timer is its expiry time, 0 when disarmed; waking the readers and
  writers of a stream is a counter; signals raised for the network task are kept until the task runs.

  Connections live at addresses; a freed one is gone from the memory, and using it is \<^const>\<open>None\<close>, as is an
  access outside a ring buffer or a header, an assertion that fails and a loop that never ends. A
  function that blocks is cut where the thread sleeps. Logging and the printing commands are left
  out, and so are the fields that are never read (urgent pointers, \<^verbatim>\<open>srtt\<close>, \<^verbatim>\<open>rttvar\<close>).
\<close>

section \<open>Data\<close>

datatype tcp_state = TCP_STATE_CLOSED | TCP_STATE_LISTEN | TCP_STATE_SYN_SENT | TCP_STATE_SYN_RECEIVED | TCP_STATE_ESTABLISHED
  | TCP_STATE_FIN_WAIT1 | TCP_STATE_FIN_WAIT2 | TCP_STATE_CLOSING | TCP_STATE_TIME_WAIT | TCP_STATE_CLOSE_WAIT | TCP_STATE_LAST_ACK

record tcb =
  tcb_state :: tcp_state
  tcb_app_closed :: bool
  tcb_pending_syn :: u8
  tcb_pending_fin :: u8
  tcb_fin_received :: bool
  rcv_window_closed :: bool
  fast_reject_limiter :: nat
  tcb_wnd_scale_ok :: bool
  tcb_snd_wnd_shift :: nat
  snd_wrptr :: u32
  snd_nxt :: u32
  snd_una :: u32
  snd_wnd :: u32
  snd_wl1 :: u32
  snd_wl2 :: u32
  tcb_iss :: u32
  rcv_rdptr :: u32
  rcv_nxt :: u32
  rcv_mss :: u16
  tcb_local_addr :: u32
  tcb_remote_addr :: u32
  tcb_remote_port :: u16
  tcb_local_port :: u16
  tcb_max_segment_size :: u16
  tcb_txfifo_size :: u32
  tcb_rxfifo_size :: u32
  tcb_rtx_timer :: u64
  tcb_delayed_ack_timer :: u64
  tcb_time_wait_timer :: u64
  tcb_rto :: u32
  tcb_tx_bytes :: u64
  tcb_rx_bytes :: u64
  tcb_rtx_bytes :: u64
  tcb_last_rx :: u64
  tcb_timo :: u32
  tcb_rx_wakeups :: nat
  tcb_tx_wakeups :: nat
  tcb_signals :: u32
  tcb_txfifo :: bytes
  tcb_rxfifo :: bytes

record tcp = ipv4 +
  tcbs :: "nat list"
  tcb_mem :: "nat \<Rightarrow> tcb option"
  clock :: u64

definition TCP_EVENT_CONNECT :: u32 where "TCP_EVENT_CONNECT = 0x1"
definition TCP_EVENT_CLOSE :: u32 where "TCP_EVENT_CLOSE = 0x2"
definition TCP_EVENT_EMIT :: u32 where "TCP_EVENT_EMIT = 0x4"
definition TCP_EVENT_WND_OPEN :: u32 where "TCP_EVENT_WND_OPEN = 0x8"
definition TCP_EVENT_FLUSH :: u32 where "TCP_EVENT_FLUSH = 0x10"
definition TCP_KEEPALIVE_INTERVAL :: u32 where "TCP_KEEPALIVE_INTERVAL = 10000"
definition TCP_TIMEOUT_INTERVAL :: u32 where "TCP_TIMEOUT_INTERVAL = 21000"
definition TCP_TIMEOUT_HANDSHAKE :: u32 where "TCP_TIMEOUT_HANDSHAKE = 5000"
definition TCP_F_FIN :: u8 where "TCP_F_FIN = 0x01"
definition TCP_F_SYN :: u8 where "TCP_F_SYN = 0x02"
definition TCP_F_RST :: u8 where "TCP_F_RST = 0x04"
definition TCP_F_PSH :: u8 where "TCP_F_PSH = 0x08"
definition TCP_F_ACK :: u8 where "TCP_F_ACK = 0x10"

text \<open>A flag of a segment, and the difference of two sequence numbers as a C \<^verbatim>\<open>int\<close>.\<close>

definition has :: "u8 \<Rightarrow> u8 \<Rightarrow> bool" where
  "has flag f \<longleftrightarrow> flag AND f \<noteq> 0"

definition sdiff :: "u32 \<Rightarrow> u32 \<Rightarrow> int" where
  "sdiff a b = sint (a - b)"

section \<open>Ring buffers\<close>

definition tcb_txfifo_used :: "tcb \<Rightarrow> u32" where
  "tcb_txfifo_used tcb = snd_wrptr tcb - snd_una tcb"

definition tcb_txfifo_avail :: "tcb \<Rightarrow> u32" where
  "tcb_txfifo_avail tcb = tcb_txfifo_size tcb - tcb_txfifo_used tcb"

definition tcb_rxfifo_used :: "tcb \<Rightarrow> u32" where
  "tcb_rxfifo_used tcb = rcv_nxt tcb - rcv_rdptr tcb"

definition tcb_rxfifo_avail :: "tcb \<Rightarrow> u32" where
  "tcb_rxfifo_avail tcb = tcb_rxfifo_size tcb - tcb_rxfifo_used tcb"

definition wtol_memcpy :: "bytes \<Rightarrow> u32 \<Rightarrow> u32 \<Rightarrow> u32 \<Rightarrow> bytes option" where
  "wtol_memcpy fifo len offset sz =
     (let msk = sz - 1; offset = offset AND msk; e = (offset + len) AND msk in
      if e \<ge> offset then buf_slice fifo (unat offset) (unat len)
      else do {
        a \<leftarrow> buf_slice fifo (unat offset) (unat (sz - offset));
        b \<leftarrow> buf_slice fifo 0 (unat e);
        Some (a @ b)
      })"

definition ltow_memcpy :: "bytes \<Rightarrow> bytes \<Rightarrow> u32 \<Rightarrow> u32 \<Rightarrow> bytes option" where
  "ltow_memcpy fifo src offset sz =
     (let msk = sz - 1; offset = offset AND msk; e = (offset + of_nat (length src)) AND msk in
      if e \<ge> offset then buf_copy fifo (unat offset) src
      else do {
        fifo \<leftarrow> buf_copy fifo (unat offset) (take (unat (sz - offset)) src);
        buf_copy fifo 0 (take (unat e) (drop (unat (sz - offset)) src))
      })"

section \<open>Output\<close>

definition tcp_output :: "pkt \<Rightarrow> u32 \<Rightarrow> u32 \<Rightarrow> 'x ipv4_scheme \<Rightarrow> (int \<times> 'x ipv4_scheme) option" where
  "tcp_output pb local_addr remote_addr s =
     (case ipv4_nexthop_resolve remote_addr s of
        (None, s) \<Rightarrow> Some (ERR_NO_ROUTE, s)
      | (Some n, s) \<Rightarrow> do {
          let ni = netif_of s n;
          let local_addr = (if local_addr = 0 then ni_ipv4_local_addr ni else local_addr);
          pb \<leftarrow> put_bytes 16 [0, 0, 0, 0] pb;
          pb \<leftarrow> (if ni_flags ni AND NETIF_F_TX_TCP_CKSUM_OFFLOAD = 0
                 then put_bytes 16 (le16 (ipv4_cksum_pbuf (ipv4_cksum_pseudo local_addr remote_addr 6 (of_nat (frags_len pb)))
                        pb 0 (frags_len pb))) pb
                 else Some pb);
          (pb, s) \<leftarrow> ipv4_prepend 6 0x4000 local_addr remote_addr ni pb s;
          Some (ni_output_ipv4 n remote_addr pb s)
        })"

definition pkt_append :: "pkt \<Rightarrow> bytes \<Rightarrow> pkt" where
  "pkt_append pb bs = butlast pb @ [last pb @ bs]"

definition tcp_output_tcb :: "tcb \<Rightarrow> pkt \<Rightarrow> 'x ipv4_scheme \<Rightarrow> (int \<times> 'x ipv4_scheme) option" where
  "tcp_output_tcb tcb pb s = do {
     pb \<leftarrow> put_bytes 0 (le16 (tcb_local_port tcb)) pb;
     pb \<leftarrow> put_bytes 2 (le16 (tcb_remote_port tcb)) pb;
     pb \<leftarrow> put_bytes 8 (le32 (htonl (rcv_nxt tcb))) pb;
     pb \<leftarrow> put_bytes 14 (le16 (htons (ucast (min (tcb_rxfifo_avail tcb) 65535)))) pb;
     flg \<leftarrow> get8 pb 13;
     pb \<leftarrow> (if has flg TCP_F_SYN then do {
              let pb = pkt_append pb [2, 4, ucast (drop_bit 8 (rcv_mss tcb)), ucast (rcv_mss tcb)];
              let send_wsopt = (if has flg TCP_F_ACK then tcb_wnd_scale_ok tcb else True);
              if send_wsopt then put_bytes 12 [0x70] (pkt_append pb [1, 3, 3, 0]) else put_bytes 12 [0x60] pb
            } else put_bytes 12 [0x50] pb);
     tcp_output pb (tcb_local_addr tcb) (tcb_remote_addr tcb) s
   }"

definition wnd_room :: "tcb \<Rightarrow> u32" where
  "wnd_room tcb =
     (let in_flight = snd_nxt tcb - snd_una tcb in
      if snd_wnd tcb > in_flight then snd_wnd tcb - in_flight else 0)"

text \<open>
  The loop that fills a data segment from the ring buffer. The header of 20 bytes starts at offset 36
  of the first buffer, so the first fragment holds up to 476 bytes; a new buffer holds 512.
\<close>

partial_function (option) tcp_fill ::
  "tcb \<Rightarrow> u32 \<Rightarrow> u32 \<Rightarrow> pkt \<Rightarrow> u32 \<Rightarrow> 'x ipv4_scheme \<Rightarrow> (pkt \<times> u32 \<times> 'x ipv4_scheme) option" where
  "tcp_fill tcb bytes_in_fifo seq pb tot s =
     (if bytes_in_fifo = 0 \<or> frags_len pb \<ge> 1480 then Some (pb, tot, s)
      else
        let cap = (if length pb = 1 then 476 else 512);
            (ok, pb, s) = (if length (last pb) = cap
              then (case pbuf_ans s of (ok, s) \<Rightarrow> if ok then (True, pb @ [[]], s) else (False, pb, s)) else (True, pb, s)) in
        if \<not> ok then Some (pb, tot, s)
        else do {
          let cap = (if length pb = 1 then 476 else 512);
          let to_copy = min (unat bytes_in_fifo) (cap - length (last pb));
          let to_copy = min (1480 - frags_len pb) to_copy;
          d \<leftarrow> wtol_memcpy (tcb_txfifo tcb) (of_nat to_copy) seq (tcb_txfifo_size tcb);
          tcp_fill tcb (bytes_in_fifo - of_nat to_copy) (seq + of_nat to_copy) (pkt_append pb d) (tot + of_nat to_copy) s
        })"

declare tcp_fill.simps [code]

text \<open>How much an emission at \<open>seq\<close> may take: new data only as far as the window of the peer goes.\<close>

definition emit_bytes :: "u32 \<Rightarrow> tcb \<Rightarrow> u32" where
  "emit_bytes seq tcb =
     (let bytes_in_fifo = snd_wrptr tcb - seq in
      if seq = snd_nxt tcb then min bytes_in_fifo (wnd_room tcb) else bytes_in_fifo)"

text \<open>A segment that is a header only, and one with data.\<close>

definition tcp_emit_seg :: "u8 \<Rightarrow> u32 \<Rightarrow> tcb \<Rightarrow> 'x ipv4_scheme \<Rightarrow> (int \<times> 'x ipv4_scheme) option" where
  "tcp_emit_seg flg seq tcb s = do {
     pb \<leftarrow> put_bytes 13 [flg] [replicate 20 0];
     pb \<leftarrow> put_bytes 4 (le32 (htonl seq)) pb;
     tcp_output_tcb tcb pb s
   }"

definition tcp_emit_data :: "u32 \<Rightarrow> u32 \<Rightarrow> tcb \<Rightarrow> 'x ipv4_scheme \<Rightarrow> (int \<times> tcb \<times> 'x ipv4_scheme) option" where
  "tcp_emit_data bytes_in_fifo seq tcb s = do {
     pb \<leftarrow> put_bytes 13 [TCP_F_PSH OR TCP_F_ACK] [replicate 20 0];
     pb \<leftarrow> put_bytes 4 (le32 (htonl seq)) pb;
     (pb, tot, s) \<leftarrow> tcp_fill tcb bytes_in_fifo seq pb 0 s;
     (err, s) \<leftarrow> tcp_output_tcb tcb pb s;
     if err \<noteq> 0 then Some (err, tcb, s)
     else if snd_nxt tcb = seq
       then Some (0, tcb\<lparr>snd_nxt := snd_nxt tcb + tot, tcb_tx_bytes := tcb_tx_bytes tcb + ucast tot\<rparr>, s)
     else Some (0, tcb\<lparr>tcb_rtx_bytes := tcb_rtx_bytes tcb + ucast tot\<rparr>, s)
   }"

definition tcp_emit :: "bool \<Rightarrow> u32 \<Rightarrow> bool \<Rightarrow> tcb \<Rightarrow> 'x ipv4_scheme \<Rightarrow> (int \<times> tcb \<times> 'x ipv4_scheme) option" where
  "tcp_emit have_pb seq gen_ack tcb s =
     (case (if have_pb then (True, s) else pbuf_ans s) of
        (False, s) \<Rightarrow> Some (ERR_NO_BUFFER, tcb, s)
      | (True, s) \<Rightarrow>
          let tcb = tcb\<lparr>tcb_delayed_ack_timer := 0\<rparr>; bytes_in_fifo = emit_bytes seq tcb in
          if tcb_pending_syn tcb \<noteq> 0 then do {
            (r, s) \<leftarrow> tcp_emit_seg (tcb_pending_syn tcb) (tcb_iss tcb) tcb s;
            Some (r, tcb, s)
          } else if bytes_in_fifo = 0 then
            (if gen_ack then do {
               (r, s) \<leftarrow> tcp_emit_seg TCP_F_ACK seq tcb s;
               Some (r, tcb, s)
             } else Some (0, tcb, s))
          else if tcb_pending_fin tcb \<noteq> 0 \<and> bytes_in_fifo = 1 then do {
            let tcb = tcb\<lparr>snd_nxt := snd_wrptr tcb\<rparr>;
            (r, s) \<leftarrow> tcp_emit_seg (tcb_pending_fin tcb) seq tcb s;
            Some (r, tcb, s)
          } else tcp_emit_data (if tcb_pending_fin tcb \<noteq> 0 then bytes_in_fifo - 1 else bytes_in_fifo) seq tcb s)"

section \<open>Sending and timers\<close>

definition ms_to_us :: "u32 \<Rightarrow> u64" where
  "ms_to_us ms = ucast (ms * 1000)"

definition tcp_send_syn :: "u64 \<Rightarrow> u8 \<Rightarrow> bool \<Rightarrow> tcb \<Rightarrow> 'x ipv4_scheme \<Rightarrow> (tcb \<times> 'x ipv4_scheme) option" where
  "tcp_send_syn now flags have_pb tcb s = do {
     let tcb = (if snd_una tcb = snd_nxt tcb then tcb\<lparr>tcb_rtx_timer := now + ms_to_us (tcb_rto tcb)\<rparr> else tcb);
     let tcb = tcb\<lparr>tcb_pending_syn := flags, snd_nxt := snd_nxt tcb + 1\<rparr>;
     (_, tcb, s) \<leftarrow> tcp_emit have_pb (snd_nxt tcb) False tcb s;
     Some (tcb, s)
   }"

definition tcp_send_fin :: "u64 \<Rightarrow> u8 \<Rightarrow> tcb \<Rightarrow> 'x ipv4_scheme \<Rightarrow> (tcb \<times> 'x ipv4_scheme) option" where
  "tcp_send_fin now flags tcb s = do {
     let tcb = (if snd_una tcb = snd_nxt tcb then tcb\<lparr>tcb_rtx_timer := now + ms_to_us (tcb_rto tcb)\<rparr> else tcb);
     let tcb = tcb\<lparr>tcb_pending_fin := flags, snd_wrptr := snd_wrptr tcb + 1\<rparr>;
     (_, tcb, s) \<leftarrow> tcp_emit False (snd_nxt tcb) False tcb s;
     Some (tcb, s)
   }"

definition arm_rtx :: "tcb \<Rightarrow> u64 \<Rightarrow> tcb" where
  "arm_rtx tcb now =
     tcb\<lparr>tcb_rtx_timer := now + ms_to_us (if snd_una tcb \<noteq> snd_nxt tcb then tcb_rto tcb else TCP_KEEPALIVE_INTERVAL)\<rparr>"

definition tcb_raise :: "u32 \<Rightarrow> tcb \<Rightarrow> tcb" where
  "tcb_raise sig tcb = tcb\<lparr>tcb_signals := tcb_signals tcb OR sig\<rparr>"

definition tcp_ack :: "tcb \<Rightarrow> u32 \<Rightarrow> tcb" where
  "tcp_ack tcb cnt =
     (if cnt = 0 then tcb
      else
        let tcb = tcb\<lparr>snd_una := snd_una tcb + cnt, tcb_pending_syn := 0, tcb_tx_wakeups := tcb_tx_wakeups tcb + 1\<rparr>;
            tcb = arm_rtx tcb (tcb_last_rx tcb) in
        if snd_wrptr tcb \<noteq> snd_nxt tcb then tcb_raise TCP_EVENT_EMIT tcb else tcb)"

definition tcp_set_state :: "tcp_state \<Rightarrow> tcb \<Rightarrow> tcb" where
  "tcp_set_state st tcb = (if tcb_state tcb = st then tcb else tcb\<lparr>tcb_state := st\<rparr>)"

definition tcp_disarm_all_timers :: "tcb \<Rightarrow> tcb" where
  "tcp_disarm_all_timers tcb = tcb\<lparr>tcb_rtx_timer := 0, tcb_delayed_ack_timer := 0, tcb_time_wait_timer := 0\<rparr>"

definition tcp_time_wait :: "u64 \<Rightarrow> tcb \<Rightarrow> tcb" where
  "tcp_time_wait now tcb = (tcp_disarm_all_timers (tcp_set_state TCP_STATE_TIME_WAIT tcb))\<lparr>tcb_time_wait_timer := now + 5000000\<rparr>"

text \<open>Functions of one connection, on the connection at an address.\<close>

definition put_tcb :: "nat \<Rightarrow> tcb \<Rightarrow> tcp \<Rightarrow> tcp" where
  "put_tcb a tcb w = w\<lparr>tcb_mem := (tcb_mem w)(a := Some tcb)\<rparr>"

definition tcp_destroy :: "nat \<Rightarrow> tcp \<Rightarrow> tcp option" where
  "tcp_destroy a w = do {
     tcb \<leftarrow> tcb_mem w a;
     if tcb_state tcb \<noteq> TCP_STATE_CLOSED then Some w
     else if \<not> tcb_app_closed tcb then Some w
     else Some (w\<lparr>tcb_mem := (tcb_mem w)(a := None)\<rparr>)
   }"

definition tcp_close :: "nat \<Rightarrow> tcp \<Rightarrow> tcp option" where
  "tcp_close a w = do {
     tcb \<leftarrow> tcb_mem w a;
     let tcb = tcp_disarm_all_timers tcb;
     if a \<notin> set (tcbs w) then None
     else do {
       let w = w\<lparr>tcbs := remove1 a (tcbs w)\<rparr>;
       let tcb = tcp_set_state TCP_STATE_CLOSED tcb;
       let tcb = tcb\<lparr>tcb_rx_wakeups := tcb_rx_wakeups tcb + 1, tcb_tx_wakeups := tcb_tx_wakeups tcb + 1\<rparr>;
       tcp_destroy a (put_tcb a tcb w)
     }
   }"

definition tcp_time_wait_cb :: "nat \<Rightarrow> tcp \<Rightarrow> tcp option" where
  "tcp_time_wait_cb a w = tcp_close a w"

definition tcp_delayed_ack_cb :: "nat \<Rightarrow> tcp \<Rightarrow> tcp option" where
  "tcp_delayed_ack_cb a w = do {
     tcb \<leftarrow> tcb_mem w a;
     (_, tcb, w) \<leftarrow> tcp_emit False (snd_nxt tcb) True tcb w;
     Some (put_tcb a tcb w)
   }"

definition tcp_rtx_cb :: "nat \<Rightarrow> u64 \<Rightarrow> tcp \<Rightarrow> tcp option" where
  "tcp_rtx_cb a now w = do {
     tcb \<leftarrow> tcb_mem w a;
     if now > tcb_last_rx tcb + ucast (tcb_timo tcb) then tcp_close a w
     else do {
       (tcb, w) \<leftarrow>
         (if snd_una tcb = snd_wrptr tcb then
            if tcb_state tcb = TCP_STATE_ESTABLISHED then
              (case pbuf_ans w of
                 (False, w) \<Rightarrow> Some (tcb, w)
               | (True, w) \<Rightarrow> do {
                   (_, w) \<leftarrow> tcp_emit_seg (TCP_F_ACK OR TCP_F_PSH) (snd_una tcb - 1) tcb w;
                   Some (tcb, w)
                 })
            else Some (tcb, w)
          else do {
            (_, tcb, w) \<leftarrow> tcp_emit False (snd_una tcb) False tcb w;
            Some (tcb, w)
          });
       Some (put_tcb a (arm_rtx tcb now) w)
     }
   }"

section \<open>The network task of a connection\<close>

fun tcb_find_loop :: "u32 \<Rightarrow> u16 \<Rightarrow> u16 \<Rightarrow> nat list \<Rightarrow> tcp \<Rightarrow> nat option option" where
  "tcb_find_loop remote_addr remote_port local_port [] w = Some None"
| "tcb_find_loop remote_addr remote_port local_port (a # as) w = do {
     tcb \<leftarrow> tcb_mem w a;
     if tcb_remote_addr tcb = remote_addr \<and> tcb_remote_port tcb = remote_port \<and> tcb_local_port tcb = local_port then Some (Some a)
     else tcb_find_loop remote_addr remote_port local_port as w
   }"

definition tcb_find :: "u32 \<Rightarrow> u16 \<Rightarrow> u16 \<Rightarrow> tcp \<Rightarrow> nat option option" where
  "tcb_find remote_addr remote_port local_port w = tcb_find_loop remote_addr remote_port local_port (tcbs w) w"

text \<open>The loop of \<^verbatim>\<open>tcp_do_connect\<close> that draws a port; drawing from an empty list of answers never ends.\<close>

fun tcp_pick_port :: "u32 \<Rightarrow> u16 \<Rightarrow> u32 list \<Rightarrow> tcp \<Rightarrow> (u16 \<times> tcp) option" where
  "tcp_pick_port remote_addr remote_port [] w = None"
| "tcp_pick_port remote_addr remote_port (r # rs) w =
     (let local_port = ucast r :: u16; w = w\<lparr>ans_rand := rs\<rparr> in
      if local_port < 1024 then tcp_pick_port remote_addr remote_port rs w
      else do {
        f \<leftarrow> tcb_find remote_addr remote_port (htons local_port) w;
        if f \<noteq> None then tcp_pick_port remote_addr remote_port rs w else Some (htons local_port, w)
      })"

definition tcp_do_connect :: "nat \<Rightarrow> tcp \<Rightarrow> tcp option" where
  "tcp_do_connect a w = do {
     tcb \<leftarrow> tcb_mem w a;
     (local_port, w) \<leftarrow> tcp_pick_port (tcb_remote_addr tcb) (tcb_remote_port tcb) (ans_rand w) w;
     let tcb = tcb\<lparr>tcb_local_port := local_port, tcb_last_rx := clock w\<rparr>;
     (tcb, w) \<leftarrow> tcp_send_syn (clock w) TCP_F_SYN False tcb w;
     let w = put_tcb a tcb w;
     Some (w\<lparr>tcbs := a # tcbs w\<rparr>)
   }"

partial_function (option) tcp_emit_loop :: "bool \<Rightarrow> tcb \<Rightarrow> 'x ipv4_scheme \<Rightarrow> (tcb \<times> 'x ipv4_scheme) option" where
  "tcp_emit_loop force tcb s =
     (if snd_wrptr tcb = snd_nxt tcb then Some (tcb, s)
      else if wnd_room tcb = 0 then Some (tcb, s)
      else if \<not> force \<and> snd_wrptr tcb - snd_nxt tcb < ucast (tcb_max_segment_size tcb) \<and> snd_una tcb \<noteq> snd_nxt tcb then Some (tcb, s)
      else do {
        (err, tcb, s) \<leftarrow> tcp_emit False (snd_nxt tcb) False tcb s;
        if err \<noteq> 0 then Some (tcb, s) else tcp_emit_loop force tcb s
      })"

declare tcp_emit_loop.simps [code]

text \<open>The signals are handled in this order: connect, window open, emit or flush, close.\<close>

definition tcp_task_wnd_open :: "tcb \<Rightarrow> 'x ipv4_scheme \<Rightarrow> (tcb \<times> 'x ipv4_scheme) option" where
  "tcp_task_wnd_open tcb w =
     (if tcb_state tcb = TCP_STATE_ESTABLISHED then do { (_, tcb, w) \<leftarrow> tcp_emit False (snd_nxt tcb) True tcb w; Some (tcb, w) }
      else Some (tcb, w))"

definition tcp_task_emit :: "bool \<Rightarrow> tcb \<Rightarrow> tcp \<Rightarrow> (tcb \<times> tcp) option" where
  "tcp_task_emit force tcb w =
     (if tcb_state tcb \<in> {TCP_STATE_ESTABLISHED, TCP_STATE_FIN_WAIT1, TCP_STATE_FIN_WAIT2, TCP_STATE_CLOSE_WAIT, TCP_STATE_CLOSING}
      then tcp_emit_loop force (if snd_una tcb = snd_nxt tcb then tcb\<lparr>tcb_rtx_timer := clock w + ms_to_us (tcb_rto tcb)\<rparr> else tcb) w
      else Some (tcb, w))"

definition tcp_task_close :: "nat \<Rightarrow> tcb \<Rightarrow> tcp \<Rightarrow> tcp option" where
  "tcp_task_close a tcb w = do {
     let tcb = tcb\<lparr>tcb_app_closed := True\<rparr>;
     (tcb, w) \<leftarrow>
       (case tcb_state tcb of
          TCP_STATE_ESTABLISHED \<Rightarrow> tcp_send_fin (clock w) (TCP_F_FIN OR TCP_F_ACK) (tcp_set_state TCP_STATE_FIN_WAIT1 tcb) w
        | TCP_STATE_SYN_RECEIVED \<Rightarrow> tcp_send_fin (clock w) (TCP_F_FIN OR TCP_F_ACK) (tcp_set_state TCP_STATE_FIN_WAIT1 tcb) w
        | TCP_STATE_CLOSE_WAIT \<Rightarrow> tcp_send_fin (clock w) (TCP_F_FIN OR TCP_F_ACK) (tcp_set_state TCP_STATE_LAST_ACK tcb) w
        | _ \<Rightarrow> Some (tcb, w));
     tcp_destroy a (put_tcb a tcb w)
   }"

definition tcp_task_cb :: "nat \<Rightarrow> u32 \<Rightarrow> tcp \<Rightarrow> tcp option" where
  "tcp_task_cb a signals w = do {
     w \<leftarrow> (if signals AND TCP_EVENT_CONNECT \<noteq> 0 then tcp_do_connect a w else Some w);
     tcb \<leftarrow> tcb_mem w a;
     (tcb, w) \<leftarrow> (if signals AND TCP_EVENT_WND_OPEN \<noteq> 0 then tcp_task_wnd_open tcb w else Some (tcb, w));
     (tcb, w) \<leftarrow> (if signals AND (TCP_EVENT_EMIT OR TCP_EVENT_FLUSH) \<noteq> 0 then tcp_task_emit (signals AND TCP_EVENT_FLUSH \<noteq> 0) tcb w
       else Some (tcb, w));
     if signals AND TCP_EVENT_CLOSE \<noteq> 0 then tcp_task_close a tcb w else Some (put_tcb a tcb w)
   }"

section \<open>The stream of the application\<close>

definition tcb_rxfifo_user_bytes :: "tcb \<Rightarrow> int" where
  "tcb_rxfifo_user_bytes tcb =
     (if tcb_state tcb = TCP_STATE_CLOSED then ERR_NOT_CONNECTED
      else
        let used = tcb_rxfifo_used tcb in
        if tcb_fin_received tcb then if used \<le> 1 then ERR_NOT_CONNECTED else sint (used - 1)
        else sint used)"

definition tcp_rxfifo_consume :: "u32 \<Rightarrow> tcb \<Rightarrow> tcb" where
  "tcp_rxfifo_consume bytes tcb =
     (let tcb = tcb\<lparr>rcv_rdptr := rcv_rdptr tcb + bytes\<rparr> in
      if \<not> rcv_window_closed tcb then tcb
      else
        let thres = max (tcb_rxfifo_size tcb div 2) (ucast (rcv_mss tcb) * 2) in
        if tcb_rxfifo_avail tcb < thres then tcb
        else tcb_raise TCP_EVENT_WND_OPEN (tcb\<lparr>rcv_window_closed := False\<rparr>))"

text \<open>What a blocking call comes to: a result, or the thread sleeps and goes on from here when woken.\<close>

datatype stream_result = Returns int | Sleeps

function tcp_stream_read :: "nat \<Rightarrow> nat \<Rightarrow> bytes \<Rightarrow> tcb \<Rightarrow> (stream_result \<times> bytes \<times> tcb) option" where
  "tcp_stream_read sz require buf tcb =
     (if sz = 0 then Some (Returns (int (length buf)), buf, tcb)
      else
        let used = tcb_rxfifo_user_bytes tcb in
        if used < 0 then Some (Returns used, buf, tcb)
        else if used = 0 then
          if length buf \<ge> require then Some (Returns (int (length buf)), buf, tcb) else Some (Sleeps, buf, tcb)
        else do {
          let to_copy = min sz (nat used);
          d \<leftarrow> wtol_memcpy (tcb_rxfifo tcb) (of_nat to_copy) (rcv_rdptr tcb) (tcb_rxfifo_size tcb);
          tcp_stream_read (sz - to_copy) require (buf @ d) (tcp_rxfifo_consume (of_nat to_copy) tcb)
        })"
  by pat_completeness auto
termination by (relation "measure (\<lambda>(sz, require, buf, tcb). sz)") auto

declare tcp_stream_read.simps [simp del]

definition STREAM_WRITE_NO_WAIT :: u32 where "STREAM_WRITE_NO_WAIT = 0x1"
definition STREAM_WRITE_ALL :: u32 where "STREAM_WRITE_ALL = 0x2"

text \<open>The vectors that are left to write when the thread sleeps are the third component.\<close>

function tcp_write_loop :: "u32 \<Rightarrow> bytes list \<Rightarrow> nat \<Rightarrow> tcb \<Rightarrow> (stream_result option \<times> nat \<times> bytes list \<times> tcb) option" where
  "tcp_write_loop flags [] written tcb = Some (None, written, [], tcb)"
| "tcp_write_loop flags (buf # iov) written tcb =
     (if buf = [] then tcp_write_loop flags iov written tcb
      else
        let avail = tcb_txfifo_avail tcb in
        if avail = 0 then
          if flags AND STREAM_WRITE_NO_WAIT \<noteq> 0 \<or> tcb_state tcb = TCP_STATE_CLOSED
          then Some (Some (Returns (int written)), written, buf # iov, tcb)
          else Some (Some Sleeps, written, buf # iov, tcb_raise TCP_EVENT_EMIT tcb)
        else do {
          let to_copy = min (length buf) (unat avail);
          f \<leftarrow> ltow_memcpy (tcb_txfifo tcb) (take to_copy buf) (snd_wrptr tcb) (tcb_txfifo_size tcb);
          tcp_write_loop flags (drop to_copy buf # iov) (written + to_copy)
            (tcb\<lparr>tcb_txfifo := f, snd_wrptr := snd_wrptr tcb + of_nat to_copy\<rparr>)
        })"
  by pat_completeness auto
termination
  by (relation "measures [\<lambda>(flags, iov, written, tcb). length (concat iov), \<lambda>(flags, iov, written, tcb). length iov]")
    (auto simp: min_def unat_gt_0)

definition tcp_stream_writev :: "bytes list \<Rightarrow> u32 \<Rightarrow> tcb \<Rightarrow> (stream_result \<times> nat \<times> bytes list \<times> tcb) option" where
  "tcp_stream_writev iov flags tcb =
     (if tcb_state tcb = TCP_STATE_CLOSED then Some (Returns ERR_NOT_CONNECTED, 0, iov, tcb)
      else if flags AND STREAM_WRITE_ALL \<noteq> 0 \<and> unat (tcb_txfifo_avail tcb) < length (concat iov) then Some (Returns 0, 0, iov, tcb)
      else do {
        (r, written, rest, tcb) \<leftarrow> tcp_write_loop flags iov 0 tcb;
        case r of
          Some r \<Rightarrow> Some (r, written, rest, tcb)
        | None \<Rightarrow>
            let unsent = snd_wrptr tcb - snd_nxt tcb;
                tcb = (if unsent \<ge> ucast (tcb_max_segment_size tcb) \<or> snd_una tcb = snd_nxt tcb then tcb_raise TCP_EVENT_EMIT tcb else tcb)
            in Some (Returns (int written), written, [], tcb)
      })"

definition tcp_stream_write :: "bytes option \<Rightarrow> u32 \<Rightarrow> tcb \<Rightarrow> (stream_result \<times> nat \<times> bytes list \<times> tcb) option" where
  "tcp_stream_write buf flags tcb =
     (case buf of
        None \<Rightarrow> Some (Returns 0, 0, [], tcb_raise TCP_EVENT_FLUSH tcb)
      | Some b \<Rightarrow> tcp_stream_writev [b] flags tcb)"

definition tcp_stream_close :: "tcb \<Rightarrow> tcb" where
  "tcp_stream_close tcb = tcb_raise TCP_EVENT_CLOSE (tcb_raise TCP_EVENT_FLUSH tcb)"

text \<open>\<^const>\<open>True\<close> when the stream is ready, so that there is nothing to wait for.\<close>

definition tcp_stream_poll :: "bool \<Rightarrow> tcb \<Rightarrow> bool" where
  "tcp_stream_poll rd tcb = (if rd then tcb_rxfifo_user_bytes tcb \<noteq> 0 else tcb_txfifo_avail tcb \<noteq> 0)"

text \<open>The offset of the data in the ring buffer and how much of it is contiguous.\<close>

definition tcp_stream_peek :: "bool \<Rightarrow> tcb \<Rightarrow> (stream_result \<times> nat)" where
  "tcp_stream_peek wait tcb =
     (let used = tcb_rxfifo_user_bytes tcb in
      if used = 0 \<and> wait then (Sleeps, 0)
      else if used < 1 then (Returns used, 0)
      else
        let offset = unat (rcv_rdptr tcb AND (tcb_rxfifo_size tcb - 1)) in
        (Returns (if nat used + offset > unat (tcb_rxfifo_size tcb) then int (unat (tcb_rxfifo_size tcb) - offset) else used), offset))"

definition tcp_stream_drop :: "nat \<Rightarrow> tcb \<Rightarrow> (int \<times> tcb) option" where
  "tcp_stream_drop bytes tcb =
     (let used = tcb_rxfifo_user_bytes tcb in
      if used < 1 then Some (used, tcb)
      else if int bytes > used then None
      else Some (int bytes, tcp_rxfifo_consume (of_nat bytes) tcb))"

section \<open>Input\<close>

record tcp_hdr =
  th_src_port :: u16
  th_dst_port :: u16
  th_seq :: u32
  th_ack :: u32
  th_flg :: u8
  th_wnd :: u16
  th_hdr_len :: nat
  th_seg_len :: u32

text \<open>The options lie in the first fragment of the packet: \<open>buf\<close> is what follows the header there.\<close>

partial_function (option) tcp_parse_options :: "tcb \<Rightarrow> bytes \<Rightarrow> nat \<Rightarrow> tcb option" where
  "tcp_parse_options tcb buf len =
     (if len = 0 then Some tcb
      else do {
        opt \<leftarrow> buf_rd buf 0;
        if opt = 0 then Some tcb
        else if opt = 1 then tcp_parse_options tcb (drop 1 buf) (len - 1)
        else if len < 2 then Some tcb
        else do {
          b1 \<leftarrow> buf_rd buf 1;
          let optlen = unat b1;
          if optlen > len then Some tcb
          else do {
            tcb \<leftarrow> (if opt = 2 then do {
                       b3 \<leftarrow> buf_rd buf 3; b2 \<leftarrow> buf_rd buf 2;
                       Some (tcb\<lparr>tcb_max_segment_size := ucast b3 OR push_bit 8 (ucast b2)\<rparr>) }
                    else if opt = 3 \<and> optlen = 3 then do {
                       shift \<leftarrow> buf_rd buf 2;
                       Some (tcb\<lparr>tcb_snd_wnd_shift := min (unat shift) 14, tcb_wnd_scale_ok := True\<rparr>) }
                    else Some tcb);
            tcp_parse_options tcb (drop optlen buf) (len - optlen)
          }
        }
      })"

declare tcp_parse_options.simps [code]

text \<open>The ring buffers of a new connection are not cleared; nothing reads them before they are written.\<close>

definition tcb_create :: "u32 \<Rightarrow> u32 \<Rightarrow> 'x ipv4_scheme \<Rightarrow> (nat \<times> tcb \<times> 'x ipv4_scheme)" where
  "tcb_create txfifo_size rxfifo_size s =
     (let (a, s) = xalloc_ans s; (iss, s) = (if a = 0 then (0, s) else rand_c s) in
      (a, \<lparr>tcb_state = TCP_STATE_CLOSED, tcb_app_closed = False, tcb_pending_syn = 0, tcb_pending_fin = 0, tcb_fin_received = False,
           rcv_window_closed = False, fast_reject_limiter = 0, tcb_wnd_scale_ok = False, tcb_snd_wnd_shift = 0,
           snd_wrptr = iss + 1, snd_nxt = iss, snd_una = iss, snd_wnd = 0, snd_wl1 = 0, snd_wl2 = 0, tcb_iss = iss,
           rcv_rdptr = 0, rcv_nxt = 0, rcv_mss = 1460, tcb_local_addr = 0, tcb_remote_addr = 0, tcb_remote_port = 0, tcb_local_port = 0,
           tcb_max_segment_size = 536, tcb_txfifo_size = txfifo_size, tcb_rxfifo_size = rxfifo_size,
           tcb_rtx_timer = 0, tcb_delayed_ack_timer = 0, tcb_time_wait_timer = 0, tcb_rto = 250,
           tcb_tx_bytes = 0, tcb_rx_bytes = 0, tcb_rtx_bytes = 0, tcb_last_rx = 0, tcb_timo = TCP_TIMEOUT_HANDSHAKE * 1000,
           tcb_rx_wakeups = 0, tcb_tx_wakeups = 0, tcb_signals = 0,
           tcb_txfifo = replicate (unat txfifo_size) 0, tcb_rxfifo = replicate (unat rxfifo_size) 0\<rparr>, s))"

definition tcp_reply :: "netif \<Rightarrow> tcp_hdr \<Rightarrow> u32 \<Rightarrow> u32 \<Rightarrow> u32 \<Rightarrow> u8 \<Rightarrow> u32 \<Rightarrow> 'x ipv4_scheme \<Rightarrow> (bool \<times> 'x ipv4_scheme) option" where
  "tcp_reply ni h remote_addr seq ack flag rcv_wnd s = do {
     let pb = [le16 (th_dst_port h) @ le16 (th_src_port h) @ le32 (htonl seq) @ le32 (htonl ack) @ [0x50, flag] @
               le16 (htons (ucast (min rcv_wnd 65535))) @ [0, 0, 0, 0]];
     (_, s) \<leftarrow> tcp_output pb (ni_ipv4_local_addr ni) remote_addr s;
     Some (False, s)
   }"

definition tcp_reject :: "netif \<Rightarrow> tcp_hdr \<Rightarrow> u32 \<Rightarrow> u32 \<Rightarrow> 'x ipv4_scheme \<Rightarrow> (bool \<times> 'x ipv4_scheme) option" where
  "tcp_reject ni h remote_addr ack s = tcp_reply ni h remote_addr 0 ack (TCP_F_ACK OR TCP_F_RST) 0 s"

text \<open>A service: what its function \<^verbatim>\<open>open_stream\<close> answers, if it has one, and the sizes of its ring buffers.\<close>

record service =
  svc_open_stream :: "int option"
  svc_txfifo_size_log2 :: nat
  svc_rxfifo_size_log2 :: nat

text \<open>A segment that belongs to no connection. The first component of a result tells, as everywhere, whether
  the packet goes back to the caller.\<close>

definition tcp_input_new ::
  "(u16 \<Rightarrow> service option) \<Rightarrow> netif \<Rightarrow> tcp_hdr \<Rightarrow> pkt \<Rightarrow> u32 \<Rightarrow> tcp \<Rightarrow> (bool \<times> tcp) option" where
  "tcp_input_new service_find_by_ip_port ni h pb remote_addr w =
     (if th_flg h \<noteq> TCP_F_SYN then
        if has (th_flg h) TCP_F_RST then Some (True, w)
        else if has (th_flg h) TCP_F_ACK then tcp_reply ni h remote_addr (th_ack h) 0 TCP_F_RST 0 w
        else tcp_reply ni h remote_addr 0 (th_seq h + th_seg_len h) (TCP_F_RST OR TCP_F_ACK) 0 w
      else if th_dst_port h = 0 then Some (True, w)
      else case service_find_by_ip_port (htons (th_dst_port h)) of
        None \<Rightarrow> tcp_reject ni h remote_addr (th_seq h + 1) w
      | Some svc \<Rightarrow>
          (case svc_open_stream svc of
             None \<Rightarrow> tcp_reject ni h remote_addr (th_seq h + 1) w
           | Some err \<Rightarrow>
               let txfifo_size = (if svc_txfifo_size_log2 svc \<noteq> 0 then push_bit (svc_txfifo_size_log2 svc) 1 else 4096);
                   rxfifo_size = (if svc_rxfifo_size_log2 svc \<noteq> 0 then push_bit (svc_rxfifo_size_log2 svc) 1 else 2048);
                   (a, tcb, w) = tcb_create txfifo_size rxfifo_size w in
               if a = 0 then tcp_reject ni h remote_addr (th_seq h + 1) w
               else do {
                 let tcb = tcb\<lparr>tcb_local_addr := ni_ipv4_local_addr ni, tcb_remote_addr := remote_addr,
                   tcb_local_port := th_dst_port h, tcb_remote_port := th_src_port h,
                   rcv_nxt := th_seq h + 1, rcv_rdptr := th_seq h + 1\<rparr>;
                 tcb \<leftarrow> (case frags_pullup (th_hdr_len h) pb of
                     None \<Rightarrow> Some tcb
                   | Some pb \<Rightarrow> tcp_parse_options tcb (drop 20 (hd pb)) (th_hdr_len h - 20));
                 if err \<noteq> 0 then tcp_reject ni h remote_addr (th_seq h + 1) w
                 else do {
                   (tcb, w) \<leftarrow> tcp_send_syn (clock w) (TCP_F_SYN OR TCP_F_ACK) True tcb w;
                   let w = put_tcb a (tcp_set_state TCP_STATE_SYN_RECEIVED tcb) w;
                   Some (False, w\<lparr>tcbs := a # tcbs w\<rparr>)
                 }
               }))"

definition tcp_input_syn_sent :: "netif \<Rightarrow> tcp_hdr \<Rightarrow> u32 \<Rightarrow> nat \<Rightarrow> tcb \<Rightarrow> tcp \<Rightarrow> (bool \<times> tcp) option" where
  "tcp_input_syn_sent ni h remote_addr a tcb w =
     (let una_ack = sdiff (th_ack h) (snd_una tcb); ack_iss = sdiff (th_ack h) (tcb_iss tcb); ack_nxt = sdiff (th_ack h) (snd_nxt tcb) in
      if has (th_flg h) TCP_F_ACK \<and> (ack_iss \<le> 0 \<or> ack_nxt > 0) then
        if has (th_flg h) TCP_F_RST then Some (True, w)
        else tcp_reply ni h remote_addr (snd_nxt tcb) 0 TCP_F_RST 0 w
      else
        let ack_acceptance = (has (th_flg h) TCP_F_ACK \<and> una_ack > 0 \<and> ack_nxt \<ge> 0) in
        if has (th_flg h) TCP_F_RST then
          if ack_acceptance then do { w \<leftarrow> tcp_close a w; Some (True, w) } else Some (True, w)
        else if has (th_flg h) TCP_F_SYN then do {
          let tcb = tcb\<lparr>tcb_last_rx := clock w, rcv_nxt := th_seq h + 1, rcv_rdptr := th_seq h + 1\<rparr>;
          let tcb = (if has (th_flg h) TCP_F_ACK then tcp_ack tcb (th_ack h - snd_una tcb) else tcb);
          let una_iss = sdiff (snd_una tcb) (tcb_iss tcb);
          let tcb = tcb\<lparr>snd_wnd := ucast (th_wnd h), snd_wl1 := th_seq h, snd_wl2 := th_ack h\<rparr>;
          if una_iss > 0 then do {
            let tcb = tcp_set_state TCP_STATE_ESTABLISHED (tcb\<lparr>tcb_timo := TCP_TIMEOUT_INTERVAL * 1000\<rparr>);
            (_, tcb, w) \<leftarrow> tcp_emit True (snd_nxt tcb) True tcb w;
            Some (False, put_tcb a tcb w)
          } else do {
            (tcb, w) \<leftarrow> tcp_send_syn (clock w) (TCP_F_SYN OR TCP_F_ACK) True tcb w;
            Some (False, put_tcb a (tcp_set_state TCP_STATE_SYN_RECEIVED tcb) w)
          }
        } else Some (True, w))"

definition tcp_acceptable :: "tcp_hdr \<Rightarrow> tcb \<Rightarrow> bool" where
  "tcp_acceptable h tcb =
     (let nxt_seq = th_seq h - rcv_nxt tcb; rcv_wnd = tcb_rxfifo_avail tcb in
      if th_seg_len h = 0 then if rcv_wnd = 0 then nxt_seq = 0 else nxt_seq < rcv_nxt tcb + rcv_wnd
      else if rcv_wnd = 0 then False else nxt_seq = 0)"

text \<open>Acknowledgements in the states from \<^verbatim>\<open>ESTABLISHED\<close> to \<^verbatim>\<open>CLOSING\<close>; \<^const>\<open>True\<close> for an acknowledgement of data
  that was never sent, which is answered at once.\<close>

definition tcp_input_acked :: "tcp_hdr \<Rightarrow> tcb \<Rightarrow> bool \<times> tcb" where
  "tcp_input_acked h tcb =
     (let una_ack = sdiff (th_ack h) (snd_una tcb); ack_nxt = sdiff (snd_nxt tcb) (th_ack h) in
      if una_ack \<ge> 0 \<and> ack_nxt \<ge> 0 then
        let tcb = tcp_ack tcb (th_ack h - snd_una tcb);
            wl1_seq = sdiff (th_seq h) (snd_wl1 tcb); wl2_ack = sdiff (th_ack h) (snd_wl2 tcb);
            tcb = (if wl1_seq > 0 \<or> wl1_seq = 0 \<and> wl2_ack \<ge> 0
              then tcb\<lparr>snd_wnd := push_bit (tcb_snd_wnd_shift tcb) (ucast (th_wnd h)), snd_wl1 := th_seq h, snd_wl2 := th_ack h\<rparr> else tcb)
        in (False, tcb)
      else if una_ack < 0 then (False, tcb)
      else (True, tcb))"

definition tcp_input_fin_acked :: "tcp_hdr \<Rightarrow> u32 \<Rightarrow> tcb \<Rightarrow> tcb" where
  "tcp_input_fin_acked h nxt tcb =
     (if sdiff nxt (th_ack h) = 0 then
        (case tcb_state tcb of
           TCP_STATE_FIN_WAIT1 \<Rightarrow> tcp_set_state TCP_STATE_FIN_WAIT2 tcb
         | TCP_STATE_CLOSING \<Rightarrow> tcp_set_state TCP_STATE_FIN_WAIT2 tcb
         | _ \<Rightarrow> tcb)
      else tcb)"

fun tcp_rx_copy :: "pkt \<Rightarrow> tcb \<Rightarrow> tcb option" where
  "tcp_rx_copy [] tcb = Some tcb"
| "tcp_rx_copy (f # fs) tcb = do {
     r \<leftarrow> ltow_memcpy (tcb_rxfifo tcb) f (rcv_nxt tcb) (tcb_rxfifo_size tcb);
     tcp_rx_copy fs (tcb\<lparr>tcb_rxfifo := r, rcv_nxt := rcv_nxt tcb + of_nat (length f)\<rparr>)
   }"

text \<open>The payload; the first component tells whether the packet is still there.\<close>

definition tcp_input_payload :: "pkt \<Rightarrow> tcb \<Rightarrow> 'x ipv4_scheme \<Rightarrow> (bool \<times> tcb \<times> 'x ipv4_scheme) option" where
  "tcp_input_payload pb tcb s =
     (if tcb_state tcb \<in> {TCP_STATE_ESTABLISHED, TCP_STATE_FIN_WAIT1, TCP_STATE_FIN_WAIT2} \<and> frags_len pb \<noteq> 0 \<and>
         unat (tcb_rxfifo_avail tcb) \<ge> frags_len pb then do {
        tcb \<leftarrow> tcp_rx_copy pb tcb;
        let tcb = tcb\<lparr>tcb_rx_bytes := tcb_rx_bytes tcb + of_nat (frags_len pb), tcb_rx_wakeups := tcb_rx_wakeups tcb + 1,
          rcv_window_closed := sint (tcb_rxfifo_avail tcb) < int (unat (rcv_mss tcb))\<rparr>;
        if snd_wrptr tcb = snd_nxt tcb then
          let armed = (tcb_delayed_ack_timer tcb \<noteq> 0); tcb = tcb\<lparr>tcb_delayed_ack_timer := 0\<rparr> in
          if armed \<or> rcv_window_closed tcb then do {
            (_, tcb, s) \<leftarrow> tcp_emit True (snd_nxt tcb) True tcb s;
            Some (False, tcb, s)
          } else Some (True, tcb\<lparr>tcb_delayed_ack_timer := tcb_last_rx tcb + 20000\<rparr>, s)
        else Some (True, tcb\<lparr>tcb_delayed_ack_timer := tcb_last_rx tcb + 20000\<rparr>, s)
      } else Some (True, tcb, s))"

definition tcp_input_fin :: "u64 \<Rightarrow> tcp_hdr \<Rightarrow> bool \<Rightarrow> tcb \<Rightarrow> 'x ipv4_scheme \<Rightarrow> (bool \<times> tcb \<times> 'x ipv4_scheme) option" where
  "tcp_input_fin now h have_pb tcb s =
     (if \<not> has (th_flg h) TCP_F_FIN then Some (have_pb, tcb, s)
      else if tcb_state tcb \<in> {TCP_STATE_CLOSED, TCP_STATE_LISTEN, TCP_STATE_SYN_SENT} then Some (have_pb, tcb, s)
      else do {
        let tcb = tcb\<lparr>tcb_fin_received := True, tcb_rx_wakeups := tcb_rx_wakeups tcb + 1, rcv_nxt := rcv_nxt tcb + 1\<rparr>;
        (_, tcb, s) \<leftarrow> tcp_emit have_pb (snd_nxt tcb) True tcb s;
        let tcb = (case tcb_state tcb of
            TCP_STATE_SYN_RECEIVED \<Rightarrow> tcp_set_state TCP_STATE_CLOSE_WAIT tcb
          | TCP_STATE_ESTABLISHED \<Rightarrow> tcp_set_state TCP_STATE_CLOSE_WAIT tcb
          | TCP_STATE_FIN_WAIT1 \<Rightarrow> if th_ack h = snd_nxt tcb then tcp_time_wait now tcb else tcp_set_state TCP_STATE_CLOSING tcb
          | TCP_STATE_FIN_WAIT2 \<Rightarrow> tcp_time_wait now tcb
          | _ \<Rightarrow> tcb);
        Some (False, tcb, s)
      })"

text \<open>From the acknowledgement on. \<open>nxt\<close> is what \<^verbatim>\<open>snd.nxt\<close> was when the segment came.\<close>

definition tcp_input_synchronized :: "netif \<Rightarrow> tcp_hdr \<Rightarrow> pkt \<Rightarrow> u32 \<Rightarrow> u32 \<Rightarrow> u32 \<Rightarrow> nat \<Rightarrow> tcb \<Rightarrow> tcp \<Rightarrow> (bool \<times> tcp) option" where
  "tcp_input_synchronized ni h pb remote_addr rcv_wnd nxt a tcb w = do {
     (reply, w) \<leftarrow>
       (if tcb_state tcb \<in> {TCP_STATE_ESTABLISHED, TCP_STATE_FIN_WAIT1, TCP_STATE_FIN_WAIT2, TCP_STATE_CLOSE_WAIT, TCP_STATE_CLOSING} then
          let (too_new, tcb) = tcp_input_acked h tcb in
          Some (too_new, put_tcb a (if too_new then tcb else tcp_input_fin_acked h nxt tcb) w)
        else if tcb_state tcb = TCP_STATE_LAST_ACK then do { w \<leftarrow> tcp_close a (put_tcb a tcb w); Some (False, w) }
        else Some (False, put_tcb a tcb w));
     tcb \<leftarrow> tcb_mem w a;
     if reply then tcp_reply ni h remote_addr (snd_nxt tcb) (rcv_nxt tcb) TCP_F_ACK rcv_wnd w
     else do {
       (have_pb, tcb, w) \<leftarrow> tcp_input_payload (frags_drop (th_hdr_len h) pb) tcb w;
       (have_pb, tcb, w) \<leftarrow> tcp_input_fin (clock w) h have_pb tcb w;
       Some (have_pb, put_tcb a tcb w)
     }
   }"

text \<open>A segment of a connection that is past the handshake.\<close>

definition tcp_input_tcb :: "netif \<Rightarrow> tcp_hdr \<Rightarrow> pkt \<Rightarrow> u32 \<Rightarrow> nat \<Rightarrow> tcb \<Rightarrow> tcp \<Rightarrow> (bool \<times> tcp) option" where
  "tcp_input_tcb ni h pb remote_addr a tcb w =
     (let rcv_wnd = tcb_rxfifo_avail tcb; nxt = snd_nxt tcb in
      if \<not> tcp_acceptable h tcb then
        if has (th_flg h) TCP_F_RST then Some (True, w)
        else if fast_reject_limiter tcb = 5 then Some (True, w)
        else tcp_reply ni h remote_addr (snd_nxt tcb) (rcv_nxt tcb) TCP_F_ACK rcv_wnd
               (put_tcb a (tcb\<lparr>fast_reject_limiter := fast_reject_limiter tcb + 1\<rparr>) w)
      else
        let tcb = tcb\<lparr>fast_reject_limiter := 0\<rparr>; w = put_tcb a tcb w in
        if has (th_flg h) TCP_F_RST then do { w \<leftarrow> tcp_close a w; Some (True, w) }
        else if has (th_flg h) TCP_F_SYN then tcp_reply ni h remote_addr (snd_nxt tcb) (rcv_nxt tcb) TCP_F_RST 0 w
        else if \<not> has (th_flg h) TCP_F_ACK then Some (True, w)
        else
          let tcb = tcb\<lparr>tcb_last_rx := clock w\<rparr>;
              syn_ok = (sdiff (th_ack h) (snd_una tcb) \<ge> 0 \<and> sdiff nxt (th_ack h) \<le> 0);
              syn_received = (tcb_state tcb = TCP_STATE_SYN_RECEIVED) in
          if syn_received \<and> \<not> syn_ok then
            tcp_reply ni h remote_addr (snd_nxt tcb) (rcv_nxt tcb) TCP_F_RST 0 (put_tcb a tcb w)
          else do {
            let tcb = (if syn_received then
                 (tcp_set_state TCP_STATE_ESTABLISHED (tcb\<lparr>tcb_timo := TCP_TIMEOUT_INTERVAL * 1000\<rparr>))
                   \<lparr>snd_wnd := push_bit (tcb_snd_wnd_shift tcb) (ucast (th_wnd h)), snd_wl1 := th_seq h, snd_wl2 := th_ack h\<rparr> else tcb);
            tcp_input_synchronized ni h pb remote_addr rcv_wnd nxt a tcb w
          })"

definition tcp_header :: "pkt \<Rightarrow> (tcp_hdr option) option" where
  "tcp_header pb = do {
     off \<leftarrow> get8 pb 12;
     flag \<leftarrow> get8 pb 13;
     src_port \<leftarrow> get16 pb 0;
     dst_port \<leftarrow> get16 pb 2;
     seq \<leftarrow> get32 pb 4;
     ack \<leftarrow> get32 pb 8;
     wnd \<leftarrow> get16 pb 14;
     let hdr_len = unat (drop_bit 2 (off AND 0xf0));
     if hdr_len > frags_len pb \<or> hdr_len < 20 then Some None
     else Some (Some \<lparr>th_src_port = src_port, th_dst_port = dst_port, th_seq = htonl seq, th_ack = htonl ack, th_flg = flag,
       th_wnd = htons wnd, th_hdr_len = hdr_len,
       th_seg_len = of_nat (frags_len pb - hdr_len) + (if has flag TCP_F_SYN then 1 else 0) + (if has flag TCP_F_FIN then 1 else 0)\<rparr>)
   }"

definition tcp_input_ipv4 :: "(u16 \<Rightarrow> service option) \<Rightarrow> netif \<Rightarrow> pkt \<Rightarrow> nat \<Rightarrow> tcp \<Rightarrow> (bool \<times> tcp) option" where
  "tcp_input_ipv4 service_find_by_ip_port ni pb tcp_offset w = do {
     dst_addr \<leftarrow> get32 pb 16;
     if dst_addr \<noteq> ni_ipv4_local_addr ni then Some (True, w)
     else do {
       remote_addr \<leftarrow> get32 pb 12;
       if tcp_offset > frags_len pb then None
       else case frags_pullup 20 (frags_drop tcp_offset pb) of
         None \<Rightarrow> Some (True, w)
       | Some pb \<Rightarrow> do {
           hdr \<leftarrow> tcp_header pb;
           case hdr of
             None \<Rightarrow> Some (True, w)
           | Some h \<Rightarrow> do {
               f \<leftarrow> tcb_find remote_addr (th_src_port h) (th_dst_port h) w;
               case f of
                 None \<Rightarrow> tcp_input_new service_find_by_ip_port ni h pb remote_addr w
               | Some a \<Rightarrow> do {
                   tcb \<leftarrow> tcb_mem w a;
                   if tcb_state tcb = TCP_STATE_SYN_SENT then tcp_input_syn_sent ni h remote_addr a tcb w
                   else tcp_input_tcb ni h pb remote_addr a tcb w
                 }
             }
         }
     }
   }"

section \<open>Sockets\<close>

definition tcp_create_socket :: "u32 \<Rightarrow> u32 \<Rightarrow> tcp \<Rightarrow> nat \<times> tcp" where
  "tcp_create_socket txfifo_size rxfifo_size w =
     (let txfifo_size = max (round_down_pow2 txfifo_size) 2048; rxfifo_size = max (round_down_pow2 rxfifo_size) 2048;
          (a, tcb, w) = tcb_create txfifo_size rxfifo_size w in
      if a = 0 then (0, w) else (a, put_tcb a tcb w))"

definition tcp_connect :: "u32 \<Rightarrow> u16 \<Rightarrow> tcb \<Rightarrow> tcb" where
  "tcp_connect dst_addr dst_port tcb =
     tcb_raise TCP_EVENT_CONNECT ((tcp_set_state TCP_STATE_SYN_SENT tcb)\<lparr>tcb_remote_addr := dst_addr, tcb_remote_port := htons dst_port\<rparr>)"

text \<open>The debugging command \<^verbatim>\<open>tcp_kill\<close> cuts every connection off by changing its port.\<close>

fun killtcp_loop :: "nat list \<Rightarrow> tcp \<Rightarrow> tcp option" where
  "killtcp_loop [] w = Some w"
| "killtcp_loop (a # as) w = do {
     tcb \<leftarrow> tcb_mem w a;
     killtcp_loop as (put_tcb a (tcb\<lparr>tcb_local_port := NOT (tcb_local_port tcb)\<rparr>) w)
   }"

definition cmd_killtcp :: "tcp \<Rightarrow> tcp option" where
  "cmd_killtcp w = killtcp_loop (tcbs w) w"

end
