(* ===== verification/Tcp_Send.thy ===== *)
theory Tcp_Send
  imports Tcp
begin

text \<open>
  What a TCP connection sends. The ring buffers hold a window of a stream of bytes; a segment that
  goes out carries a piece of the stream of the application at the place its sequence number tells,
  whatever is retransmitted.
\<close>

section \<open>The ring buffers hold what was written\<close>

text \<open>The place of the byte with sequence number \<open>q + i\<close>.\<close>

definition ring_pos :: "u32 \<Rightarrow> u32 \<Rightarrow> nat \<Rightarrow> nat" where
  "ring_pos sz q i = (unat q + i) mod unat sz"

definition ring_size :: "u32 \<Rightarrow> bool" where
  "ring_size sz \<longleftrightarrow> (\<exists>k. 0 < k \<and> k < 31 \<and> sz = 2 ^ k)"

lemma ring_sizeD:
  assumes "ring_size sz"
  shows "0 < unat sz" "unat sz \<le> 1073741824" "unat sz dvd 2 ^ 32" "unat (x AND (sz - 1)) = unat x mod unat sz"
proof -
  obtain k where k: "k < 31" "sz = 2 ^ k" using assms by (auto simp: ring_size_def)
  have u: "unat sz = 2 ^ k"
  proof -
    have "unat (of_nat (2 ^ k) :: u32) = 2 ^ k mod 2 ^ 32" by (simp only: unat_of_nat) simp
    moreover have "(2 :: nat) ^ k < 2 ^ 32" using k(1) by (intro power_strict_increasing) auto
    ultimately show ?thesis using k(2) by simp
  qed
  show "0 < unat sz" using u by simp
  show "unat sz \<le> 1073741824" unfolding u using k power_increasing [of k 30 "2 :: nat"] by simp
  show "unat sz dvd 2 ^ 32" unfolding u using k by (intro le_imp_power_dvd) auto
  have "sz - 1 = mask k" using k by (simp add: mask_eq_exp_minus_1)
  then have "x AND (sz - 1) = take_bit k x" by (simp add: take_bit_eq_mask)
  then have "unat (x AND (sz - 1)) = take_bit k (unat x)" by (simp only: unsigned_take_bit_eq)
  then show "unat (x AND (sz - 1)) = unat x mod unat sz" unfolding u by (simp only: take_bit_eq_mod)
qed

lemma ring_pos_add:
  assumes "ring_size sz"
  shows "ring_pos sz (q + of_nat j) i = ring_pos sz q (j + i)"
proof -
  have "unat (q + of_nat j) = (unat q + j) mod 2 ^ 32" by (simp add: unat_word_ariths unat_of_nat mod_simps)
  then have "(unat (q + of_nat j) + i) mod unat sz = ((unat q + j) mod 2 ^ 32 mod unat sz + i) mod unat sz"
    by (simp add: mod_simps)
  also have "\<dots> = ((unat q + j) + i) mod unat sz" using ring_sizeD(3) [OF assms] by (simp add: mod_mod_cancel mod_simps)
  finally show ?thesis by (simp add: ring_pos_def add.assoc)
qed

lemma ring_pos_less: "ring_size sz \<Longrightarrow> ring_pos sz q i < unat sz"
  using ring_sizeD(1) by (simp add: ring_pos_def)

lemma ring_pos_inj:
  assumes "ring_size sz" "i \<le> j" "j < i + unat sz" "ring_pos sz q i = ring_pos sz q j"
  shows "i = j"
proof -
  have "(unat q + j) mod unat sz = (unat q + i) mod unat sz" using assms(4) by (simp add: ring_pos_def)
  then have "unat sz dvd j - i" using assms(2) by (metis mod_eq_dvd_iff_nat add_le_cancel_left add_diff_cancel_left)
  moreover have "j - i < unat sz" using assms(2,3) by linarith
  ultimately have "j - i = 0" using nat_dvd_not_less by (cases "j - i = 0") auto
  then show ?thesis using assms(2) by simp
qed

text \<open>Where the two copies meet: the offset, the end.\<close>

lemma ring_end:
  fixes q :: u32
  assumes sz: "ring_size sz" and n: "n \<le> unat sz"
  defines "off \<equiv> unat (q AND (sz - 1))" and "e \<equiv> unat (((q AND (sz - 1)) + of_nat n) AND (sz - 1))"
  shows "off < unat sz" "off \<le> e \<Longrightarrow> e = off + n \<or> n = unat sz" "e < off \<Longrightarrow> e + unat sz = off + n"
    "unat (sz - (q AND (sz - 1))) = unat sz - off" "ring_pos sz q i = (off + i) mod unat sz"
proof -
  note d = ring_sizeD [OF sz]
  show o: "off < unat sz" using d(1,4) by (simp add: off_def)
  have "unat (of_nat n :: u32) = n" using n d(2) by (simp add: unat_of_nat)
  moreover have "off + n < 4294967296" using o n d(2) by linarith
  ultimately have "unat ((q AND (sz - 1)) + of_nat n) = off + n"
    by (simp add: off_def unat_add_lem [THEN iffD1])
  then have e: "e = (off + n) mod unat sz" using d(4) by (simp add: e_def)
  show "off \<le> e \<Longrightarrow> e = off + n \<or> n = unat sz" "e < off \<Longrightarrow> e + unat sz = off + n"
  proof -
    have "off + n < unat sz \<Longrightarrow> e = off + n" using e by simp
    moreover have "unat sz \<le> off + n \<Longrightarrow> e = off + n - unat sz" using e o n by (simp add: mod_if le_mod_geq)
    ultimately show "off \<le> e \<Longrightarrow> e = off + n \<or> n = unat sz" "e < off \<Longrightarrow> e + unat sz = off + n" using o n by linarith+
  qed
  have "q AND (sz - 1) \<le> sz" using o by (simp add: word_le_nat_alt off_def)
  then show "unat (sz - (q AND (sz - 1))) = unat sz - off" by (simp add: unat_sub off_def)
  show "ring_pos sz q i = (off + i) mod unat sz" using d(4) by (simp add: ring_pos_def off_def mod_simps)
qed

lemma wtol_bytes:
  assumes sz: "ring_size sz" and f: "length fifo = unat sz" and n: "n \<le> unat sz" and w: "wtol_memcpy fifo (of_nat n) q sz = Some d"
  shows "length d = n" "i < n \<Longrightarrow> d ! i = fifo ! ring_pos sz q i"
proof -
  define off where "off = q AND (sz - 1)"
  define e where "e = (off + of_nat n) AND (sz - 1)"
  note r = ring_end [OF sz n, of q, folded off_def, folded e_def]
  have un: "unat (of_nat n :: u32) = n" using n ring_sizeD(2) [OF sz] by (simp add: unat_of_nat)
  have w': "(if off \<le> e then buf_slice fifo (unat off) n
      else do { a \<leftarrow> buf_slice fifo (unat off) (unat sz - unat off); b \<leftarrow> buf_slice fifo 0 (unat e); Some (a @ b) }) = Some d"
    using w unfolding wtol_memcpy_def Let_def un off_def [symmetric] e_def [symmetric] r(4) .
  have "length d = n \<and> (\<forall>i<n. d ! i = fifo ! ((unat off + i) mod unat sz))"
  proof (cases "off \<le> e")
    case True
    then have d: "unat off + n \<le> unat sz" "d = take n (drop (unat off) fifo)" using w' f by (auto simp: buf_slice_def split: if_splits)
    then show ?thesis using f by (auto simp: min_def)
  next
    case False
    then have l: "unat e + unat sz = unat off + n" using r(3) by (simp add: word_le_nat_alt)
    have d: "d = drop (unat off) fifo @ take (unat e) fifo"
      using w' False f by (auto simp: buf_slice_def split: if_splits Option.bind_splits)
    have "(unat off + i) mod unat sz = unat off + i - unat sz" if "unat sz \<le> unat off + i" "i < n" for i
      using that n r(1) by (simp add: mod_if le_mod_geq)
    then show ?thesis using l d r(1) f n by (auto simp: nth_append add.commute)
  qed
  then show "length d = n" "i < n \<Longrightarrow> d ! i = fifo ! ring_pos sz q i" using r(5) by auto
qed

lemma ltow_bytes:
  assumes sz: "ring_size sz" and f: "length fifo = unat sz" and n: "length src \<le> unat sz" and w: "ltow_memcpy fifo src q sz = Some g"
  shows "length g = unat sz" "i < length src \<Longrightarrow> g ! ring_pos sz q i = src ! i"
    "p < unat sz \<Longrightarrow> (\<And>i. i < length src \<Longrightarrow> ring_pos sz q i \<noteq> p) \<Longrightarrow> g ! p = fifo ! p"
proof -
  let ?n = "length src"
  define off where "off = q AND (sz - 1)"
  define e where "e = (off + of_nat ?n) AND (sz - 1)"
  note r = ring_end [OF sz n, of q, folded off_def, folded e_def]
  have w': "(if off \<le> e then buf_copy fifo (unat off) src
      else do { a \<leftarrow> buf_copy fifo (unat off) (take (unat sz - unat off) src); buf_copy a 0 (take (unat e) (drop (unat sz - unat off) src)) }) = Some g"
    using w unfolding ltow_memcpy_def Let_def off_def [symmetric] e_def [symmetric] r(4) .
  have main: "length g = unat sz \<and> (\<forall>i<?n. g ! ((unat off + i) mod unat sz) = src ! i) \<and>
      (\<forall>p<unat sz. (\<forall>i<?n. (unat off + i) mod unat sz \<noteq> p) \<longrightarrow> g ! p = fifo ! p)"
  proof (cases "off \<le> e")
    case True
    then have g: "unat off + ?n \<le> unat sz" "g = take (unat off) fifo @ src @ drop (unat off + ?n) fifo"
      using w' f by (auto simp: buf_copy_def split: if_splits)
    have same: "g ! p = fifo ! p" if p: "p < unat sz" "\<forall>i<?n. (unat off + i) mod unat sz \<noteq> p" for p
    proof (cases "p < unat off \<or> unat off + ?n \<le> p")
      case True
      then show ?thesis using g f p by (auto simp: nth_append min_def)
    next
      case False
      then have "p - unat off < ?n" "(unat off + (p - unat off)) mod unat sz = p" using p(1) by auto
      then show ?thesis using p(2) by blast
    qed
    show ?thesis using g f same by (auto simp: nth_append min_def)
  next
    case False
    then have l: "unat e + unat sz = unat off + ?n" "unat e < unat off" using r(3) by (auto simp: word_le_nat_alt)
    let ?k = "unat sz - unat off"
    have k: "?k \<le> ?n" using l by linarith
    have le: "unat e = ?n + unat off - unat sz" using l(1) by linarith
    have g: "g = drop ?k src @ drop (unat e) (take (unat off) fifo) @ take ?k src"
      using w' False f l k r(1) by (auto simp: buf_copy_def min_def le split: if_splits Option.bind_splits)
    have wrap: "(unat off + i) mod unat sz = (if i < ?k then unat off + i else i - ?k)" if "i < ?n" for i
      using that n r(1) by (auto simp: mod_if le_mod_geq)
    have bk: "i + (unat sz + unat e) - (?n + unat off) = i" "unat e + (i + unat sz) - (unat off + ?n) = i" "unat e + (i + unat sz) - (?n + unat off) = i" for i using l(1) by linarith+
    have put: "g ! ((unat off + i) mod unat sz) = src ! i" if "i < ?n" for i
      using that g f l k r(1) unfolding wrap [OF that] by (auto simp: nth_append min_def bk)
    have same: "g ! p = fifo ! p" if p: "p < unat sz" "\<forall>i<?n. (unat off + i) mod unat sz \<noteq> p" for p
    proof (cases "unat e \<le> p \<and> p < unat off")
      case True
      then show ?thesis using g f l k r(1) by (auto simp: nth_append min_def bk)
    next
      case False
      define i where "i = (if p < unat e then p + ?k else p - unat off)"
      have "i < ?n" "(unat off + i) mod unat sz = p" using False p(1) l k r(1) wrap [of i] by (auto simp: i_def)
      then show ?thesis using p(2) by blast
    qed
    have "length g = unat sz" using g f l k r(1) by simp
    then show ?thesis using put same by blast
  qed
  then show "length g = unat sz" "i < ?n \<Longrightarrow> g ! ring_pos sz q i = src ! i"
    "p < unat sz \<Longrightarrow> (\<And>i. i < ?n \<Longrightarrow> ring_pos sz q i \<noteq> p) \<Longrightarrow> g ! p = fifo ! p" using r(5) by auto
qed


text \<open>A buffer that holds the bytes of a stream from position \<open>u\<close> on, where position 0 has the sequence
  number \<open>q\<close>.\<close>

definition ring_holds :: "bytes \<Rightarrow> u32 \<Rightarrow> u32 \<Rightarrow> nat \<Rightarrow> bytes \<Rightarrow> bool" where
  "ring_holds fifo sz q u ws \<longleftrightarrow> length fifo = unat sz \<and> (\<forall>i. u \<le> i \<and> i < length ws \<longrightarrow> fifo ! ring_pos sz q i = ws ! i)"

lemma ring_read:
  assumes "ring_size sz" "ring_holds fifo sz q u ws" "u \<le> j" "j + n \<le> length ws" "n \<le> unat sz"
    and "wtol_memcpy fifo (of_nat n) (q + of_nat j) sz = Some d"
  shows "d = take n (drop j ws)"
proof (rule nth_equalityI)
  have f: "length fifo = unat sz" using assms(2) by (simp add: ring_holds_def)
  note w = wtol_bytes [OF assms(1) f assms(5,6)]
  show "length d = length (take n (drop j ws))" using w(1) assms(4) by simp
  fix i assume "i < length d"
  then show "d ! i = take n (drop j ws) ! i"
    using w assms(2-4) ring_pos_add [OF assms(1), of q j i] by (simp add: ring_holds_def)
qed

lemma ring_write:
  assumes sz: "ring_size sz" and h: "ring_holds fifo sz q u ws" and n: "u \<le> length ws" "length ws + length src \<le> u + unat sz"
    and w: "ltow_memcpy fifo src (q + of_nat (length ws)) sz = Some g"
  shows "ring_holds g sz q u (ws @ src)"
  unfolding ring_holds_def
proof (intro conjI allI impI)
  have f: "length fifo = unat sz" using h by (simp add: ring_holds_def)
  have l: "length src \<le> unat sz" using n by linarith
  note b = ltow_bytes [OF sz f l w]
  note pa = ring_pos_add [OF sz, of q "length ws"]
  show "length g = unat sz" by (rule b(1))
  fix i assume i: "u \<le> i \<and> i < length (ws @ src)"
  show "g ! ring_pos sz q i = (ws @ src) ! i"
  proof (cases "i < length ws")
    case True
    have "ring_pos sz q (length ws + k) \<noteq> ring_pos sz q i" if "k < length src" for k
      using ring_pos_inj [OF sz, of i "length ws + k" q] True that n i by auto
    then have "g ! ring_pos sz q i = fifo ! ring_pos sz q i" using b(3) [OF ring_pos_less [OF sz]] pa by simp
    then show ?thesis using True i h by (simp add: ring_holds_def nth_append)
  next
    case False
    then show ?thesis using b(2) [of "i - length ws"] pa i by (auto simp: nth_append)
  qed
qed

lemma ring_holds_mono: "ring_holds fifo sz q u ws \<Longrightarrow> u \<le> v \<Longrightarrow> ring_holds fifo sz q v ws"
  by (auto simp: ring_holds_def)

text \<open>The copies do not leave the buffer unless the whole buffer is copied at an offset: then they do.\<close>

lemma wtol_returns:
  assumes sz: "ring_size sz" and f: "length fifo = unat sz" and n: "n < unat sz"
  shows "wtol_memcpy fifo (of_nat n) q sz \<noteq> None"
proof -
  define off where "off = q AND (sz - 1)"
  define e where "e = (off + of_nat n) AND (sz - 1)"
  note r = ring_end [OF sz less_imp_le [OF n], of q, folded off_def, folded e_def]
  have un: "unat (of_nat n :: u32) = n" using n ring_sizeD(2) [OF sz] by (simp add: unat_of_nat)
  have e: "unat e < unat sz" using ring_sizeD(1,4) [OF sz] by (simp add: e_def)
  show ?thesis
    unfolding wtol_memcpy_def Let_def un off_def [symmetric] e_def [symmetric] r(4)
    using f r(1,2) e n by (auto simp: buf_slice_def word_le_nat_alt)
qed

lemma ltow_returns:
  assumes sz: "ring_size sz" and f: "length fifo = unat sz" and n: "length src < unat sz"
  shows "ltow_memcpy fifo src q sz \<noteq> None"
proof -
  define off where "off = q AND (sz - 1)"
  define e where "e = (off + of_nat (length src)) AND (sz - 1)"
  note r = ring_end [OF sz less_imp_le [OF n], of q, folded off_def, folded e_def]
  have e: "unat e < unat sz" using ring_sizeD(1,4) [OF sz] by (simp add: e_def)
  show ?thesis
    unfolding ltow_memcpy_def Let_def off_def [symmetric] e_def [symmetric] r(4)
    using f r(1,2) e n by (auto simp: buf_copy_def word_le_nat_alt)
qed

lemma ltow_full_overruns:
  assumes sz: "ring_size sz" and f: "length fifo = unat sz" "length src = unat sz" and q: "unat q mod unat sz \<noteq> 0"
  shows "ltow_memcpy fifo src q sz = None" "wtol_memcpy fifo sz q sz = None"
proof -
  define off where "off = q AND (sz - 1)"
  have o: "unat off = unat q mod unat sz" using ring_sizeD(4) [OF sz] by (simp add: off_def)
  have len: "of_nat (length src) = sz" using f(2) by simp
  have "off + sz AND (sz - 1) = off"
  proof -
    have "unat (off + sz AND (sz - 1)) = unat (off + sz) mod unat sz" by (rule ring_sizeD(4) [OF sz])
    also have "unat (off + sz) = unat off + unat sz"
      using o ring_sizeD(1,2) [OF sz] mod_less_divisor [OF ring_sizeD(1) [OF sz], of "unat q"] by (simp add: unat_add_lem [THEN iffD1])
    finally show ?thesis using o by (simp add: word_unat_eq_iff)
  qed
  then show "ltow_memcpy fifo src q sz = None" "wtol_memcpy fifo sz q sz = None"
    using o q f unfolding ltow_memcpy_def wtol_memcpy_def Let_def off_def [symmetric] len by (simp_all add: buf_copy_def buf_slice_def)
qed

section \<open>What goes out\<close>

text \<open>The sequence number and the data of an IPv4 packet with a TCP segment, as a receiver reads them.\<close>

definition seg_data :: "bytes \<Rightarrow> (u32 \<times> bytes) option" where
  "seg_data bs = (case tcp_header [drop 20 bs] of
     Some (Some h) \<Rightarrow> Some (th_seq h, drop (20 + th_hdr_len h) bs) | _ \<Rightarrow> None)"

definition sends :: "(bytes \<Rightarrow> bool) \<Rightarrow> 'x ipv4_scheme \<Rightarrow> 'y ipv4_scheme \<Rightarrow> bool" where
  "sends P s s' \<longleftrightarrow> (\<exists>ps. ip_sent s' = ip_sent s @ ps \<and> (\<forall>p \<in> set ps. P (concat (snd (snd p)))))"

lemma sends_refl [simp]: "ip_sent s' = ip_sent s \<Longrightarrow> sends P s s'"
  by (auto simp: sends_def)

lemma sends_trans: "sends P s s' \<Longrightarrow> sends P s' s'' \<Longrightarrow> sends P s s''"
  by (fastforce simp: sends_def)

lemma sends_mono: "sends P s s' \<Longrightarrow> (\<And>bs. P bs \<Longrightarrow> Q bs) \<Longrightarrow> sends Q s s'"
  by (fastforce simp: sends_def)

lemma ans_sent [simp]:
  "ip_sent (snd (rand_c s)) = ip_sent s" "ip_sent (snd (xalloc_ans s)) = ip_sent s" "ip_sent (snd (pbuf_ans s)) = ip_sent s"
  by (simp_all add: rand_c_def xalloc_ans_def pbuf_ans_def split: list.splits)

lemma resolve_sent: "ipv4_nexthop_resolve addr s = (r, s') \<Longrightarrow> ip_sent s' = ip_sent s"
  by (auto simp: ipv4_nexthop_resolve_def xalloc_ans_def Let_def split: option.splits prod.splits list.splits if_splits)

lemma put_bytes_nth:
  assumes "put_bytes off bs pb = Some pb'"
  shows "length (concat pb') = length (concat pb)" "map length pb' = map length pb"
    "i < length (concat pb) \<Longrightarrow> concat pb' ! i = (if off \<le> i \<and> i < off + length bs then bs ! (i - off) else concat pb ! i)"
proof -
  note c = put_bytes_concat [OF assms]
  show "length (concat pb') = length (concat pb)" using c(1,3) by simp
  show "map length pb' = map length pb" by (rule c(2))
  assume "i < length (concat pb)"
  then show "concat pb' ! i = (if off \<le> i \<and> i < off + length bs then bs ! (i - off) else concat pb ! i)"
    using c(1,3) by (auto simp: nth_append min_def)
qed

lemma put_bytes_cong: "map length pb' = map length pb \<Longrightarrow> (put_bytes off bs pb' = None) = (put_bytes off bs pb = None)"
  by (auto simp: put_bytes_def buf_copy_def split: list.splits)

lemma put_bytes_some: "pb \<noteq> [] \<Longrightarrow> off + length bs \<le> length (hd pb) \<Longrightarrow> put_bytes off bs pb \<noteq> None"
  by (auto simp: put_bytes_def buf_copy_def split: list.splits)

lemma prepend_bytes:
  assumes "ipv4_prepend proto fi src dst ni pb s = Some (pb', s')"
  shows "ip_sent s' = ip_sent s" "length (take 20 (concat pb')) = 20" "drop 20 (concat pb') = concat pb"
proof -
  obtain f fs where pb: "pb = f # fs" using assms by (auto simp: ipv4_prepend_def split: list.splits)
  obtain ident s1 where r: "rand_c s = (ident, s1)" by fastforce
  define hdr where "hdr = ipv4_header proto (of_nat (frags_len pb + 20)) (ucast ident) fi src dst"
  have lh: "length hdr = 20" by (simp add: hdr_def ipv4_header_def)
  let ?p0 = "(hdr @ f) # fs"
  have p: "s' = s1" "pb' = ?p0 \<or> (\<exists>c. put_bytes 10 (le16 c) ?p0 = Some pb')"
    using assms by (auto simp: ipv4_prepend_def pb r hdr_def Let_def split: if_splits Option.bind_splits)
  show "ip_sent s' = ip_sent s" using p(1) ans_sent(1) [of s] by (simp add: r)
  have "concat ?p0 = hdr @ concat pb" by (simp add: pb)
  then have "length (concat pb') = 20 + length (concat pb) \<and> drop 20 (concat pb') = concat pb"
    using p(2)
  proof (elim disjE exE)
    fix c assume "put_bytes 10 (le16 c) ?p0 = Some pb'"
    then show ?thesis using put_bytes_concat [of 10 "le16 c" ?p0 pb'] lh by (simp add: pb)
  qed (simp add: lh)
  then show "length (take 20 (concat pb')) = 20" "drop 20 (concat pb') = concat pb" by auto
qed

text \<open>\<^verbatim>\<open>tcp_output\<close> changes the checksum and the urgent pointer only.\<close>

definition same_tcp :: "bytes \<Rightarrow> bytes \<Rightarrow> bool" where
  "same_tcp c bs \<longleftrightarrow> length bs = 20 + length c \<and> (\<forall>i < length c. \<not> (16 \<le> i \<and> i < 20) \<longrightarrow> bs ! (20 + i) = c ! i)"

lemma tcp_output_sends:
  assumes "tcp_output pb la ra s = Some (r, s')"
  shows "sends (same_tcp (concat pb)) s s'"
proof (cases "ipv4_nexthop_resolve ra s")
  case (Pair n s1)
  note rs = resolve_sent [OF Pair]
  show ?thesis
  proof (cases n)
    case None
    then show ?thesis using assms Pair rs by (simp add: tcp_output_def)
  next
    case (Some nn)
    obtain p1 where p1: "put_bytes 16 [0, 0, 0, 0] pb = Some p1"
      using assms by (auto simp: tcp_output_def Pair Some Let_def split: Option.bind_splits)
    obtain p2 p3 s2 where p2: "p2 = p1 \<or> (\<exists>c. put_bytes 16 (le16 c) p1 = Some p2)"
      and p3: "ipv4_prepend 6 0x4000 (if la = 0 then ni_ipv4_local_addr (netif_of s1 nn) else la) ra (netif_of s1 nn) p2 s1 = Some (p3, s2)"
      and o: "ni_output_ipv4 nn ra p3 s2 = (r, s')"
      using assms by (auto simp: tcp_output_def Pair Some p1 Let_def split: if_splits Option.bind_splits)
    note pre = prepend_bytes [OF p3]
    note n1 = put_bytes_nth [OF p1]
    have n2: "length (concat p2) = length (concat p1) \<and>
        (\<forall>i < length (concat p1). \<not> (16 \<le> i \<and> i < 20) \<longrightarrow> concat p2 ! i = concat p1 ! i)"
      using p2
    proof (elim disjE exE)
      fix c assume c: "put_bytes 16 (le16 c) p1 = Some p2"
      show ?thesis using put_bytes_nth [OF c] by auto
    qed simp
    have l2: "length (concat p2) = length (concat pb)" "i < length (concat pb) \<Longrightarrow> \<not> (16 \<le> i \<and> i < 20) \<Longrightarrow> concat p2 ! i = concat pb ! i" for i
      using n1(1,3) n2 by auto
    have "same_tcp (concat pb) (concat p3)"
      unfolding same_tcp_def
    proof (intro conjI allI impI)
      show "length (concat p3) = 20 + length (concat pb)" using pre(2) arg_cong [OF pre(3), of length] l2(1) by auto
      fix i assume i: "i < length (concat pb)" "\<not> (16 \<le> i \<and> i < 20)"
      have "concat p3 ! (20 + i) = drop 20 (concat p3) ! i" using pre(2) by (subst nth_drop) auto
      then show "concat p3 ! (20 + i) = concat pb ! i" using pre(3) l2(2) [OF i] by simp
    qed
    moreover have "ip_sent s' = ip_sent s2 @ [(nn, ra, p3)]"
      using o by (auto simp: ni_output_ipv4_def Let_def split: list.splits)
    ultimately show ?thesis using pre(1) rs by (auto simp: sends_def)
  qed
qed


text \<open>What a receiver reads from a packet that carries the segment \<open>c\<close>.\<close>

lemma get8_single [simp]: "get8 [x] i = (if i < length x then Some (x ! i) else None)"
  by (simp add: get8_def buf_rd_def)

lemma tcp_header_single:
  assumes "20 \<le> length x"
  shows "tcp_header [x] = Some (let hdr_len = unat (drop_bit 2 (x ! 12 AND 0xf0)) in
    if hdr_len > length x \<or> hdr_len < 20 then None
    else Some \<lparr>th_src_port = le16_dec (x ! 0) (x ! 1), th_dst_port = le16_dec (x ! 2) (x ! 3),
       th_seq = htonl (le32_dec (x ! 4) (x ! 5) (x ! 6) (x ! 7)), th_ack = htonl (le32_dec (x ! 8) (x ! 9) (x ! 10) (x ! 11)),
       th_flg = x ! 13, th_wnd = htons (le16_dec (x ! 14) (x ! 15)), th_hdr_len = hdr_len,
       th_seg_len = of_nat (length x - hdr_len) + (if has (x ! 13) TCP_F_SYN then 1 else 0) + (if has (x ! 13) TCP_F_FIN then 1 else 0)\<rparr>)"
  using assms by (cases "x = []") (simp_all add: tcp_header_def get16_def get32_def frags_len_def Let_def)

definition seq_of :: "bytes \<Rightarrow> u32" where
  "seq_of c = htonl (le32_dec (c ! 4) (c ! 5) (c ! 6) (c ! 7))"

lemma same_tcp_data:
  assumes st: "same_tcp c bs" and l: "20 \<le> length c" and h: "hdr_len = unat (drop_bit 2 (c ! 12 AND 0xf0))" "20 \<le> hdr_len" "hdr_len \<le> length c"
  shows "seg_data bs = Some (seq_of c, drop hdr_len c)"
proof -
  let ?x = "drop 20 bs"
  have lx: "length ?x = length c" using st by (simp add: same_tcp_def)
  have x: "?x ! i = c ! i" if "i < length c" "\<not> (16 \<le> i \<and> i < 20)" for i
    using st that by (subst nth_drop) (auto simp: same_tcp_def)
  have e: "?x ! 4 = c ! 4" "?x ! 5 = c ! 5" "?x ! 6 = c ! 6" "?x ! 7 = c ! 7" "?x ! 12 = c ! 12" by (rule x; use l in simp)+
  have d: "drop (20 + hdr_len) bs = drop hdr_len c"
  proof (rule nth_equalityI)
    show "length (drop (20 + hdr_len) bs) = length (drop hdr_len c)" using st by (simp add: same_tcp_def)
    fix i assume "i < length (drop (20 + hdr_len) bs)"
    then have i: "hdr_len + i < length c" using st by (simp add: same_tcp_def)
    then have "?x ! (hdr_len + i) = c ! (hdr_len + i)" by (rule x) (use h(2) in simp)
    then show "drop (20 + hdr_len) bs ! i = drop hdr_len c ! i" using i lx by (simp add: add.assoc)
  qed
  have "20 \<le> length ?x" using lx l by simp
  then show ?thesis
    unfolding seg_data_def tcp_header_single [OF \<open>20 \<le> length ?x\<close>] e Let_def lx using h d by (simp add: seq_of_def)
qed

text \<open>\<^verbatim>\<open>tcp_output_tcb\<close> keeps the sequence number, the flags and all that follows the header.\<close>

definition kept :: "nat \<Rightarrow> bool" where
  "kept i \<longleftrightarrow> 4 \<le> i \<and> i < 8 \<or> i = 13 \<or> 16 \<le> i"

definition keeps :: "pkt \<Rightarrow> pkt \<Rightarrow> bool" where
  "keeps pb pb' \<longleftrightarrow> map length pb' = map length pb \<and> length (concat pb') = length (concat pb) \<and>
     (\<forall>i < length (concat pb). kept i \<longrightarrow> concat pb' ! i = concat pb ! i)"

lemma keeps_put:
  assumes "put_bytes off bs pb = Some pb'" "\<And>i. off \<le> i \<Longrightarrow> i < off + length bs \<Longrightarrow> \<not> kept i"
  shows "keeps pb pb'"
  using put_bytes_nth [OF assms(1)] assms(2) unfolding keeps_def by auto

lemma keeps_trans: "keeps p q \<Longrightarrow> keeps q r \<Longrightarrow> keeps p r"
  by (simp add: keeps_def)

lemma keeps_seq: "keeps pb pb' \<Longrightarrow> 20 \<le> length (concat pb) \<Longrightarrow> seq_of (concat pb') = seq_of (concat pb)"
  by (simp add: keeps_def kept_def seq_of_def)

lemma keeps_drop: "keeps pb pb' \<Longrightarrow> drop 20 (concat pb') = drop 20 (concat pb)"
  by (rule nth_equalityI) (auto simp: keeps_def kept_def)

lemma get8_concat: "pb \<noteq> [] \<Longrightarrow> i < length (hd pb) \<Longrightarrow> get8 pb i = Some (concat pb ! i)"
  by (cases pb) (auto simp: get8_def buf_rd_def nth_append)

lemma concat_append_pkt: "pb \<noteq> [] \<Longrightarrow> concat (pkt_append pb bs) = concat pb @ bs"
  by (cases pb rule: rev_cases) (auto simp: pkt_append_def)

lemma keeps_hd: "keeps pb pb' \<Longrightarrow> pb \<noteq> [] \<Longrightarrow> pb' \<noteq> [] \<and> length (hd pb') = length (hd pb)"
  unfolding keeps_def by (cases pb; cases pb') auto

lemma hdr_len_bits: "unat (drop_bit 2 ((0x50 :: u8) AND 0xf0)) = 20" "unat (drop_bit 2 ((0x60 :: u8) AND 0xf0)) = 24"
  "unat (drop_bit 2 ((0x70 :: u8) AND 0xf0)) = 28"
  by simp_all

lemma output_tcb_segs:
  assumes out: "tcp_output_tcb tcb pb s = Some (r, s')" and pb: "pb \<noteq> []" "20 \<le> length (hd pb)"
  shows "\<not> has (concat pb ! 13) TCP_F_SYN \<Longrightarrow> sends (\<lambda>bs. seg_data bs = Some (seq_of (concat pb), drop 20 (concat pb))) s s'"
    "has (concat pb ! 13) TCP_F_SYN \<Longrightarrow> length (concat pb) = 20 \<Longrightarrow> sends (\<lambda>bs. \<exists>q. seg_data bs = Some (q, [])) s s'"
proof -
  have l: "20 \<le> length (concat pb)" using pb by (cases pb) auto
  obtain p1 where p1: "put_bytes 0 (le16 (tcb_local_port tcb)) pb = Some p1"
    using out by (auto simp: tcp_output_tcb_def split: Option.bind_splits)
  obtain p2 where p2: "put_bytes 2 (le16 (tcb_remote_port tcb)) p1 = Some p2"
    using out by (auto simp: tcp_output_tcb_def p1 split: Option.bind_splits)
  obtain p3 where p3: "put_bytes 8 (le32 (htonl (rcv_nxt tcb))) p2 = Some p3"
    using out by (auto simp: tcp_output_tcb_def p1 p2 split: Option.bind_splits)
  obtain p4 where p4: "put_bytes 14 (le16 (htons (ucast (min (tcb_rxfifo_avail tcb) 65535)))) p3 = Some p4"
    using out by (auto simp: tcp_output_tcb_def p1 p2 p3 split: Option.bind_splits)
  have k1: "keeps pb p1" by (rule keeps_put [OF p1]) (auto simp: kept_def)
  have k2: "keeps p1 p2" by (rule keeps_put [OF p2]) (auto simp: kept_def)
  have k3: "keeps p2 p3" by (rule keeps_put [OF p3]) (auto simp: kept_def)
  have k4: "keeps p3 p4" by (rule keeps_put [OF p4]) (auto simp: kept_def)
  have k: "keeps pb p4" using k1 k2 k3 k4 keeps_trans by blast
  note hd4 = keeps_hd [OF k pb(1)]
  have l4: "length (concat p4) = length (concat pb)" using k by (simp add: keeps_def)
  have flg: "get8 p4 13 = Some (concat pb ! 13)"
  proof -
    have "kept 13" by (simp add: kept_def)
    then have "concat p4 ! 13 = concat pb ! 13" using k l unfolding keeps_def by auto
    then show ?thesis using get8_concat [of p4 13] hd4 pb by simp
  qed
  note o = out [unfolded tcp_output_tcb_def p1 p2 p3 p4 flg bind.bind_lunit]
  show "sends (\<lambda>bs. seg_data bs = Some (seq_of (concat pb), drop 20 (concat pb))) s s'" if ns: "\<not> has (concat pb ! 13) TCP_F_SYN"
  proof -
    obtain p5 where p5: "put_bytes 12 [0x50] p4 = Some p5" and t: "tcp_output p5 (tcb_local_addr tcb) (tcb_remote_addr tcb) s = Some (r, s')"
      using o ns by (auto split: Option.bind_splits)
    have k5: "keeps pb p5" by (rule keeps_trans [OF k keeps_put [OF p5]]) (auto simp: kept_def)
    have c12: "concat p5 ! 12 = 0x50" using put_bytes_nth(3) [OF p5, of 12] l l4 by simp
    have l5: "length (concat p5) = length (concat pb)" using k5 by (simp add: keeps_def)
    show ?thesis
    proof (rule sends_mono [OF tcp_output_sends [OF t]])
      fix bs assume st: "same_tcp (concat p5) bs"
      have "seg_data bs = Some (seq_of (concat p5), drop 20 (concat p5))"
        by (rule same_tcp_data [OF st]) (use l l5 c12 hdr_len_bits in simp_all)
      then show "seg_data bs = Some (seq_of (concat pb), drop 20 (concat pb))" using keeps_seq [OF k5 l] keeps_drop [OF k5] by simp
    qed
  qed
  show "sends (\<lambda>bs. \<exists>q. seg_data bs = Some (q, [])) s s'" if sy: "has (concat pb ! 13) TCP_F_SYN" and l20: "length (concat pb) = 20"
  proof -
    obtain p5 bs b where p5: "put_bytes 12 [b] (pkt_append p4 bs) = Some p5"
      and b: "unat (drop_bit 2 (b AND 0xf0)) = 20 + length bs" and t: "tcp_output p5 (tcb_local_addr tcb) (tcb_remote_addr tcb) s = Some (r, s')"
    proof -
      let ?o1 = "[2, 4, ucast (drop_bit 8 (rcv_mss tcb)), ucast (rcv_mss tcb)] :: bytes"
      have app: "pkt_append (pkt_append p4 ?o1) [1, 3, 3, 0] = pkt_append p4 (?o1 @ [1, 3, 3, 0])" by (simp add: pkt_append_def)
      show ?thesis
      proof (cases "if has (concat pb ! 13) TCP_F_ACK then tcb_wnd_scale_ok tcb else True")
        case True
        then obtain p5 where "put_bytes 12 [0x70] (pkt_append p4 (?o1 @ [1, 3, 3, 0])) = Some p5"
          "tcp_output p5 (tcb_local_addr tcb) (tcb_remote_addr tcb) s = Some (r, s')"
          using o sy app by (auto simp: Let_def split: Option.bind_splits if_splits)
        then show ?thesis using that [of "0x70" "?o1 @ [1, 3, 3, 0]" p5] by simp
      next
        case False
        then obtain p5 where "put_bytes 12 [0x60] (pkt_append p4 ?o1) = Some p5"
          "tcp_output p5 (tcb_local_addr tcb) (tcb_remote_addr tcb) s = Some (r, s')"
          using o sy by (auto simp: Let_def split: Option.bind_splits if_splits)
        then show ?thesis using that [of "0x60" ?o1 p5] by simp
      qed
    qed
    note n5 = put_bytes_nth [OF p5]
    have l5: "length (concat p5) = 20 + length bs" using n5(1) concat_append_pkt [of p4 bs] hd4 l4 l20 by simp
    have c12: "concat p5 ! 12 = b" using n5(3) [of 12] n5(1) l5 by simp
    show ?thesis
    proof (rule sends_mono [OF tcp_output_sends [OF t]])
      fix xs assume st: "same_tcp (concat p5) xs"
      have "seg_data xs = Some (seq_of (concat p5), drop (20 + length bs) (concat p5))"
        by (rule same_tcp_data [OF st]) (use l5 c12 b in simp_all)
      then show "\<exists>q. seg_data xs = Some (q, [])" using l5 by simp
    qed
  qed
qed

section \<open>The sending half of a connection\<close>

text \<open>
  \<open>ws\<close> is all that the application has written. The first byte has the sequence number after the
  initial one; the final FIN counts as one more. What is not acknowledged is in the ring buffer.
\<close>

definition snd_base :: "tcb \<Rightarrow> u32" where
  "snd_base tcb = tcb_iss tcb + 1"

definition fin_len :: "tcb \<Rightarrow> nat" where
  "fin_len tcb = (if tcb_pending_fin tcb \<noteq> 0 then 1 else 0)"

definition snd_at :: "tcb \<Rightarrow> bytes \<Rightarrow> nat \<Rightarrow> nat \<Rightarrow> bool" where
  "snd_at tcb ws u n \<longleftrightarrow>
     u \<le> n \<and> n \<le> length ws + fin_len tcb \<and> length ws \<le> u + unat (tcb_txfifo_size tcb) \<and>
     ring_holds (tcb_txfifo tcb) (tcb_txfifo_size tcb) (snd_base tcb) u ws \<and>
     snd_nxt tcb = snd_base tcb + of_nat n \<and>
     (if tcb_pending_syn tcb \<noteq> 0 then n = 0 \<and> snd_una tcb = tcb_iss tcb \<and> length ws < unat (tcb_txfifo_size tcb)
      else snd_una tcb = snd_base tcb + of_nat u)"

definition snd_inv :: "tcb \<Rightarrow> bytes \<Rightarrow> bool" where
  "snd_inv tcb ws \<longleftrightarrow>
     ring_size (tcb_txfifo_size tcb) \<and> snd_wrptr tcb = snd_base tcb + of_nat (length ws + fin_len tcb) \<and>
     (tcb_pending_syn tcb \<noteq> 0 \<longrightarrow> has (tcb_pending_syn tcb) TCP_F_SYN) \<and> \<not> has (tcb_pending_fin tcb) TCP_F_SYN \<and>
     (\<exists>u n. snd_at tcb ws u n)"

text \<open>A packet whose data, if it has any, is a piece of the stream at the place its sequence number says.\<close>

definition seg_ok :: "u32 \<Rightarrow> bytes \<Rightarrow> bytes \<Rightarrow> bool" where
  "seg_ok q ws bs \<longleftrightarrow> (\<forall>sq d. seg_data bs = Some (sq, d) \<longrightarrow> d = [] \<or>
     (\<exists>j. sq = q + of_nat j \<and> j + length d \<le> length ws \<and> d = take (length d) (drop j ws)))"

lemma seg_ok_mono: "seg_ok q ws bs \<Longrightarrow> seg_ok q (ws @ vs) bs"
  unfolding seg_ok_def
proof (intro allI impI)
  fix sq d
  assume ok: "\<forall>sq d. seg_data bs = Some (sq, d) \<longrightarrow> d = [] \<or> (\<exists>j. sq = q + of_nat j \<and> j + length d \<le> length ws \<and> d = take (length d) (drop j ws))"
    and bs: "seg_data bs = Some (sq, d)"
  show "d = [] \<or> (\<exists>j. sq = q + of_nat j \<and> j + length d \<le> length (ws @ vs) \<and> d = take (length d) (drop j (ws @ vs)))"
  proof (cases "d = []")
    case False
    then obtain j where j: "sq = q + of_nat j" "j + length d \<le> length ws" "d = take (length d) (drop j ws)" using ok bs by blast
    have "take (length d) (drop j (ws @ vs)) = take (length d) (drop j ws)" using j(2) by simp
    then show ?thesis using j by auto
  qed simp
qed

text \<open>What belongs to the receiving half, and the identity of the connection.\<close>

definition rcv_part :: "tcb \<Rightarrow> u32 \<times> u32 \<times> bytes \<times> u32 \<times> bool" where
  "rcv_part tcb = (rcv_rdptr tcb, rcv_nxt tcb, tcb_rxfifo tcb, tcb_rxfifo_size tcb, tcb_fin_received tcb)"

definition frag_cap :: "pkt \<Rightarrow> nat" where
  "frag_cap pb = (if length pb = 1 then 476 else 512)"

definition fill_pb :: "pkt \<Rightarrow> bool" where
  "fill_pb pb \<longleftrightarrow> pb \<noteq> [] \<and> 20 \<le> length (hd pb) \<and> length (last pb) \<le> frag_cap pb"

text \<open>The state after the test for a full buffer.\<close>

definition fill_next :: "pkt \<Rightarrow> 'x ipv4_scheme \<Rightarrow> bool \<times> pkt \<times> 'x ipv4_scheme" where
  "fill_next pb s = (if length (last pb) = frag_cap pb
     then (case pbuf_ans s of (ok, s) \<Rightarrow> if ok then (True, pb @ [[]], s) else (False, pb, s)) else (True, pb, s))"

lemma fill_next_ok:
  assumes "fill_pb pb" "fill_next pb s = (ok, pb1, s1)"
  shows "fill_pb pb1" "ok \<Longrightarrow> length (last pb1) < frag_cap pb1" "concat pb1 = concat pb" "ip_sent s1 = ip_sent s"
    "length (last pb) < frag_cap pb \<Longrightarrow> ok" "ipv4.more s1 = ipv4.more s"
proof -
  obtain k s2 where p: "pbuf_ans s = (k, s2)" by fastforce
  have "ip_sent s2 = ip_sent s" using ans_sent(3) [of s] by (simp add: p)
  then show "ip_sent s1 = ip_sent s" using assms(2) by (auto simp: fill_next_def p split: if_splits)
  have "ipv4.more s2 = ipv4.more s" using p by (auto simp: pbuf_ans_def split: list.splits)
  then show "ipv4.more s1 = ipv4.more s" using assms(2) by (auto simp: fill_next_def p split: if_splits)
  show "fill_pb pb1" "ok \<Longrightarrow> length (last pb1) < frag_cap pb1" "concat pb1 = concat pb" "length (last pb) < frag_cap pb \<Longrightarrow> ok"
    using assms by (auto simp: fill_next_def fill_pb_def frag_cap_def p split: if_splits)
qed

lemma frags_len_concat: "frags_len pb = length (concat pb)"
  by (simp add: frags_len_def length_concat)

lemma tcp_fill_unfold:
  assumes "b \<noteq> 0" "frags_len pb < 1480" "fill_next pb s = (ok, pb1, s1)" "fill_pb pb"
  defines "c \<equiv> min (1480 - frags_len pb) (min (unat b) (frag_cap pb1 - length (last pb1)))"
  shows "tcp_fill tcb b sq pb tot s = (if \<not> ok then Some (pb1, tot, s1)
    else do { d \<leftarrow> wtol_memcpy (tcb_txfifo tcb) (of_nat c) sq (tcb_txfifo_size tcb);
      tcp_fill tcb (b - of_nat c) (sq + of_nat c) (pkt_append pb1 d) (tot + of_nat c) s1 })"
proof -
  have l: "frags_len pb1 = frags_len pb" using fill_next_ok(3) [OF assms(4,3)] by (simp add: frags_len_concat)
  have e: "(if length (last pb) = (if length pb = 1 then 476 else 512)
      then (case pbuf_ans s of (ok, s) \<Rightarrow> if ok then (True, pb @ [[]], s) else (False, pb, s)) else (True, pb, s)) = (ok, pb1, s1)"
    using assms(3) by (simp add: fill_next_def frag_cap_def)
  show ?thesis
    by (subst tcp_fill.simps, unfold Let_def e) (use assms(1,2) l in \<open>simp add: c_def frag_cap_def\<close>)
qed


text \<open>What the loop copies: the next \<open>k\<close> bytes of the stream, at least one when there is room.\<close>

lemma fill_pb_append:
  "fill_pb pb \<Longrightarrow> length d \<le> frag_cap pb - length (last pb) \<Longrightarrow> fill_pb (pkt_append pb d)"
  by (cases pb rule: rev_cases) (auto simp: fill_pb_def pkt_append_def frag_cap_def hd_append split: if_splits)

definition filled :: "bytes \<Rightarrow> nat \<Rightarrow> nat \<Rightarrow> pkt \<Rightarrow> u32 \<Rightarrow> 'x ipv4_scheme \<Rightarrow> pkt \<Rightarrow> u32 \<Rightarrow> 'x ipv4_scheme \<Rightarrow> bool" where
  "filled ws j k pb tot s pb' tot' s' \<longleftrightarrow> j + k \<le> length ws \<and> fill_pb pb' \<and> concat pb' = concat pb @ take k (drop j ws) \<and>
     tot' = tot + of_nat k \<and> ip_sent s' = ip_sent s \<and> ipv4.more s' = ipv4.more s"

lemma filled_step:
  assumes "filled ws (j + c) k (pkt_append pb1 (take c (drop j ws))) (tot + of_nat c) s1 pb' tot' s'"
    and "concat pb1 = concat pb" "ip_sent s1 = ip_sent s" "ipv4.more s1 = ipv4.more s" "pb1 \<noteq> []" "j + c \<le> length ws"
  shows "filled ws j (c + k) pb tot s pb' tot' s'"
  using assms by (auto simp: filled_def concat_append_pkt take_add add.commute)

lemma tcp_fill_data:
  assumes "ring_size (tcb_txfifo_size tcb)" "ring_holds (tcb_txfifo tcb) (tcb_txfifo_size tcb) q u ws"
    "length ws \<le> u + unat (tcb_txfifo_size tcb)"
  shows "fill_pb pb \<Longrightarrow> u \<le> j \<Longrightarrow> j + unat b \<le> length ws \<Longrightarrow> tcp_fill tcb b (q + of_nat j) pb tot s = Some (pb', tot', s') \<Longrightarrow>
    \<exists>k \<le> unat b. filled ws j k pb tot s pb' tot' s' \<and> (b \<noteq> 0 \<and> frags_len pb < 1480 \<and> length (last pb) < frag_cap pb \<longrightarrow> 0 < k)"
proof (induction "unat b" arbitrary: b j pb tot s rule: less_induct)
  case less
  show ?case
  proof (cases "b = 0 \<or> 1480 \<le> frags_len pb")
    case True
    then have "pb' = pb" "tot' = tot" "s' = s" using less.prems(4) by (auto simp: tcp_fill.simps)
    then show ?thesis using less.prems True by (intro exI [of _ 0]) (auto simp: filled_def)
  next
    case False
    obtain ok pb1 s1 where n: "fill_next pb s = (ok, pb1, s1)" by (metis surj_pair)
    note fo = fill_next_ok [OF less.prems(1) n]
    define c where "c = min (1480 - frags_len pb) (min (unat b) (frag_cap pb1 - length (last pb1)))"
    have b0: "b \<noteq> 0" "frags_len pb < 1480" using False by auto
    have u: "tcp_fill tcb b (q + of_nat j) pb tot s = (if \<not> ok then Some (pb1, tot, s1)
      else do { d \<leftarrow> wtol_memcpy (tcb_txfifo tcb) (of_nat c) (q + of_nat j) (tcb_txfifo_size tcb);
        tcp_fill tcb (b - of_nat c) (q + of_nat j + of_nat c) (pkt_append pb1 d) (tot + of_nat c) s1 })"
      unfolding c_def by (rule tcp_fill_unfold [OF b0 n less.prems(1)])
    show ?thesis
    proof (cases ok)
      case False
      then have "pb' = pb1" "tot' = tot" "s' = s1" using less.prems(4) u by auto
      then show ?thesis using fo False less.prems by (intro exI [of _ 0]) (auto simp: filled_def)
    next
      case True
      obtain d where d: "wtol_memcpy (tcb_txfifo tcb) (of_nat c) (q + of_nat j) (tcb_txfifo_size tcb) = Some d"
        and r: "tcp_fill tcb (b - of_nat c) (q + of_nat (j + c)) (pkt_append pb1 d) (tot + of_nat c) s1 = Some (pb', tot', s')"
        using less.prems(4) u True by (auto simp: add.assoc split: Option.bind_splits)
      have ub: "0 < unat b" using b0(1) by (simp add: unat_gt_0)
      have c: "0 < c" "c \<le> unat b" "c \<le> frag_cap pb1 - length (last pb1)" using b0 ub fo(2) [OF True] by (auto simp: c_def)
      have dd: "d = take c (drop j ws)"
        by (rule ring_read [OF assms(1,2) less.prems(2) _ _ d]) (use c less.prems(2,3) assms(3) in linarith)+
      have uc: "unat (of_nat c :: u32) = c" using c(2) unat_bound [of b] by (simp add: unat_of_nat)
      have ubc: "unat (b - of_nat c) = unat b - c" using c(2) uc by (simp add: unat_sub word_le_nat_alt)
      have fp: "fill_pb (pkt_append pb1 d)" by (rule fill_pb_append [OF fo(1)]) (use c(3) dd in simp)
      obtain k where k: "k \<le> unat b - c" "filled ws (j + c) k (pkt_append pb1 d) (tot + of_nat c) s1 pb' tot' s'"
        using less.hyps [of "b - of_nat c" "pkt_append pb1 d" "j + c"] fp r ubc c ub less.prems(2,3) by auto
      have "filled ws j (c + k) pb tot s pb' tot' s'"
        by (rule filled_step [OF k(2) [unfolded dd] fo(3,4,6)]) (use fo(1) less.prems(3) c(2) in \<open>auto simp: fill_pb_def\<close>)
      then show ?thesis using k(1) c by (intro exI [of _ "c + k"]) auto
    qed
  qed
qed

subsection \<open>Emitting a segment\<close>

definition outs :: "(bytes \<Rightarrow> bool) \<Rightarrow> 'x ipv4_scheme \<Rightarrow> 'x ipv4_scheme \<Rightarrow> bool" where
  "outs P s s' \<longleftrightarrow> sends P s s' \<and> ipv4.more s' = ipv4.more s"

lemma outs_refl [simp]: "outs P s s"
  by (simp add: outs_def)

lemma outs_trans: "outs P s s' \<Longrightarrow> outs P s' s'' \<Longrightarrow> outs P s s''"
  using sends_trans by (auto simp: outs_def)

lemma outs_mono: "outs P s s' \<Longrightarrow> (\<And>bs. P bs \<Longrightarrow> Q bs) \<Longrightarrow> outs Q s s'"
  by (auto simp: outs_def intro: sends_mono [of P])

lemma outs_pbuf: "pbuf_ans s = (ok, s') \<Longrightarrow> outs P s s'"
  using ans_sent(3) [of s] by (auto simp: outs_def pbuf_ans_def split: list.splits)

lemma resolve_more: "ipv4_nexthop_resolve addr s = (r, s') \<Longrightarrow> ipv4.more s' = ipv4.more s"
  by (auto simp: ipv4_nexthop_resolve_def xalloc_ans_def Let_def split: option.splits prod.splits list.splits if_splits)

lemma tcp_output_more: "tcp_output pb la ra s = Some (r, s') \<Longrightarrow> ipv4.more s' = ipv4.more s"
  by (auto simp: tcp_output_def ipv4_prepend_def rand_c_def ni_output_ipv4_def Let_def dest!: resolve_more
      split: prod.splits option.splits list.splits if_splits Option.bind_splits)

lemma output_tcb_more: "tcp_output_tcb tcb pb s = Some (r, s') \<Longrightarrow> ipv4.more s' = ipv4.more s"
  by (auto simp: tcp_output_tcb_def Let_def dest: tcp_output_more split: Option.bind_splits if_splits)

lemma output_tcb_outs:
  assumes "tcp_output_tcb tcb pb s = Some (r, s')" "pb \<noteq> []" "20 \<le> length (hd pb)" "\<not> has (concat pb ! 13) TCP_F_SYN"
  shows "outs (\<lambda>bs. seg_data bs = Some (seq_of (concat pb), drop 20 (concat pb))) s s'"
  using output_tcb_segs(1) [OF assms] output_tcb_more [OF assms(1)] by (simp add: outs_def)

lemma output_tcb_outs_empty:
  assumes "tcp_output_tcb tcb pb s = Some (r, s')" "length (hd pb) = 20" "length pb = 1"
  shows "outs (\<lambda>bs. \<exists>q. seg_data bs = Some (q, [])) s s'"
proof -
  obtain x where x: "pb = [x]" "length x = 20" using assms(2,3) by (cases pb) auto
  show ?thesis
  proof (cases "has (concat pb ! 13) TCP_F_SYN")
    case True
    then show ?thesis using output_tcb_segs(2) [OF assms(1)] output_tcb_more [OF assms(1)] x by (simp add: outs_def)
  next
    case False
    then show ?thesis using outs_mono [OF output_tcb_outs [OF assms(1)]] x by simp
  qed
qed

lemma seg_ok_empty: "\<exists>q. seg_data bs = Some (q, []) \<Longrightarrow> seg_ok q ws bs"
  by (auto simp: seg_ok_def)

lemma htonl_htonl [simp]: "htonl (htonl x) = x"
proof -
  have "le32 (htonl (htonl x)) = le32 x" by (simp add: le32_htonl)
  then show ?thesis by (simp add: le32_inject)
qed

text \<open>A header with its flags and its sequence number.\<close>

lemma put_header:
  assumes "put_bytes 13 [f] [replicate 20 0] = Some p1" "put_bytes 4 (le32 (htonl sq)) p1 = Some p2"
  obtains x where "p2 = [x]" "length x = 20" "x ! 13 = f" "seq_of x = sq"
proof -
  have p1: "p1 = [replicate 13 0 @ [f] @ replicate 6 0]"
    using assms(1) by (auto simp: put_bytes_def buf_copy_def drop_replicate eval_nat_numeral)
  show ?thesis
  proof (rule that)
    let ?x = "replicate 4 0 @ le32 (htonl sq) @ replicate 5 0 @ [f] @ replicate 6 0"
    show "p2 = [?x]" using assms(2) by (auto simp: p1 put_bytes_def buf_copy_def eval_nat_numeral)
    show "length ?x = 20" by simp
    show "?x ! 13 = f" by (simp add: nth_append)
    show "seq_of ?x = sq" by (simp add: seq_of_def nth_append nth_Cons' le32_def le32_dec_le32)
  qed
qed


text \<open>What an emission may change.\<close>

definition emit_frame :: "tcb \<Rightarrow> tcb \<Rightarrow> bool" where
  "emit_frame tcb tcb' \<longleftrightarrow> (\<exists>d n t r. tcb' = tcb\<lparr>tcb_delayed_ack_timer := d, snd_nxt := n, tcb_tx_bytes := t, tcb_rtx_bytes := r\<rparr>)"

lemma emit_frameI: "emit_frame tcb (tcb\<lparr>tcb_delayed_ack_timer := d, snd_nxt := n, tcb_tx_bytes := t, tcb_rtx_bytes := r\<rparr>)"
  by (auto simp: emit_frame_def)

lemma emit_frame_cases [simp]:
  "emit_frame tcb tcb" "emit_frame tcb (tcb\<lparr>tcb_delayed_ack_timer := d\<rparr>)" "emit_frame tcb (tcb\<lparr>tcb_delayed_ack_timer := d, snd_nxt := n\<rparr>)"
  "emit_frame tcb (tcb\<lparr>tcb_delayed_ack_timer := d, snd_nxt := n, tcb_tx_bytes := t\<rparr>)" "emit_frame tcb (tcb\<lparr>tcb_delayed_ack_timer := d, tcb_rtx_bytes := r\<rparr>)"
  using emit_frameI [where tcb = tcb and d = "tcb_delayed_ack_timer tcb" and n = "snd_nxt tcb" and t = "tcb_tx_bytes tcb" and r = "tcb_rtx_bytes tcb"]
    emit_frameI [where tcb = tcb and d = d and n = "snd_nxt tcb" and t = "tcb_tx_bytes tcb" and r = "tcb_rtx_bytes tcb"]
    emit_frameI [where tcb = tcb and d = d and n = n and t = "tcb_tx_bytes tcb" and r = "tcb_rtx_bytes tcb"]
    emit_frameI [where tcb = tcb and d = d and n = n and t = t and r = "tcb_rtx_bytes tcb"]
    emit_frameI [where tcb = tcb and d = d and n = "snd_nxt tcb" and t = "tcb_tx_bytes tcb" and r = r]
  by (cases tcb; simp)+

definition emit_at :: "tcb \<Rightarrow> bytes \<Rightarrow> nat \<Rightarrow> nat \<Rightarrow> u32 \<Rightarrow> nat \<Rightarrow> bool" where
  "emit_at tcb ws u n sq j \<longleftrightarrow> snd_at tcb ws u n \<and> u \<le> j \<and> j \<le> n \<and> sq = snd_base tcb + of_nat j \<and> (sq = snd_nxt tcb \<longrightarrow> j = n)"

lemma emit_at_exists:
  assumes "snd_inv tcb ws" "tcb_pending_syn tcb = 0" "sq = snd_nxt tcb \<or> sq = snd_una tcb"
  obtains u n j where "emit_at tcb ws u n sq j"
proof -
  obtain u n where "snd_at tcb ws u n" using assms(1) by (auto simp: snd_inv_def)
  then have "emit_at tcb ws u n sq (if sq = snd_nxt tcb then n else u)" using assms(2,3) by (auto simp: emit_at_def snd_at_def)
  then show ?thesis by (rule that)
qed

lemma fin_len_le: "fin_len tcb \<le> 1"
  by (simp add: fin_len_def)

lemma emit_bytes_le:
  assumes "snd_inv tcb ws" "emit_at tcb ws u n sq j"
  shows "unat (snd_wrptr tcb - sq) = length ws + fin_len tcb - j" "j + unat (emit_bytes sq tcb) \<le> length ws + fin_len tcb"
proof -
  have l: "j \<le> length ws + fin_len tcb" "length ws + fin_len tcb - j < 4294967296"
    using assms(2) ring_sizeD(2) [of "tcb_txfifo_size tcb"] assms(1) fin_len_le [of tcb] by (auto simp: snd_inv_def emit_at_def snd_at_def)
  have "snd_wrptr tcb - sq = of_nat (length ws + fin_len tcb - j)"
    using assms l(1) by (simp add: snd_inv_def emit_at_def of_nat_diff)
  then show w: "unat (snd_wrptr tcb - sq) = length ws + fin_len tcb - j" using l(2) by (simp add: unat_of_nat)
  have "emit_bytes sq tcb \<le> snd_wrptr tcb - sq" by (simp add: emit_bytes_def Let_def)
  then show "j + unat (emit_bytes sq tcb) \<le> length ws + fin_len tcb" using w l(1) by (simp add: word_le_nat_alt)
qed

lemma snd_inv_emit:
  assumes "emit_frame tcb tcb'" "snd_inv tcb ws"
    and "snd_nxt tcb' = snd_nxt tcb \<or>
      tcb_pending_syn tcb = 0 \<and> (\<exists>u n n'. snd_at tcb ws u n \<and> u \<le> n' \<and> n' \<le> length ws + fin_len tcb \<and> snd_nxt tcb' = snd_base tcb + of_nat n')"
  shows "snd_inv tcb' ws"
proof -
  have e: "tcb_pending_syn tcb' = tcb_pending_syn tcb" "snd_wrptr tcb' = snd_wrptr tcb" "snd_una tcb' = snd_una tcb"
    "tcb_txfifo tcb' = tcb_txfifo tcb" "tcb_txfifo_size tcb' = tcb_txfifo_size tcb" "tcb_iss tcb' = tcb_iss tcb" "tcb_pending_fin tcb' = tcb_pending_fin tcb"
    using assms(1) by (auto simp: emit_frame_def)
  have at: "snd_at tcb' ws u m" if "snd_at tcb ws u n" "snd_nxt tcb' = snd_base tcb + of_nat m" "u \<le> m" "m \<le> length ws + fin_len tcb"
    "tcb_pending_syn tcb = 0 \<or> m = n" for u n m
    using that by (auto simp: snd_at_def fin_len_def snd_base_def e)
  obtain u n m where "snd_at tcb ws u n" "snd_nxt tcb' = snd_base tcb + of_nat m" "u \<le> m" "m \<le> length ws + fin_len tcb"
    "tcb_pending_syn tcb = 0 \<or> m = n"
    using assms(3)
  proof (elim disjE conjE exE)
    assume "snd_nxt tcb' = snd_nxt tcb"
    moreover obtain u n where "snd_at tcb ws u n" using assms(2) by (auto simp: snd_inv_def)
    ultimately show ?thesis using that [of u n n] by (simp add: snd_at_def)
  qed (rule that; assumption?; simp)
  then have "\<exists>u n. snd_at tcb' ws u n" using at by blast
  then show ?thesis using assms(2) by (auto simp: snd_inv_def fin_len_def snd_base_def e)
qed

text \<open>The emission, when a buffer is there.\<close>

definition emitted :: "u32 \<Rightarrow> tcb \<Rightarrow> bytes \<Rightarrow> 'x ipv4_scheme \<Rightarrow> int \<Rightarrow> tcb \<Rightarrow> 'x ipv4_scheme \<Rightarrow> bool" where
  "emitted sq tcb ws s err tcb' s' \<longleftrightarrow>
     emit_frame tcb tcb' \<and> snd_inv tcb' ws \<and> outs (seg_ok (snd_base tcb) ws) s s' \<and>
     (err = 0 \<and> sq = snd_nxt tcb \<and> tcb_pending_syn tcb = 0 \<and> emit_bytes sq tcb \<noteq> 0 \<longrightarrow>
        unat (snd_wrptr tcb' - snd_nxt tcb') < unat (snd_wrptr tcb - snd_nxt tcb))"

lemma emit_seg_outs:
  assumes "tcp_emit_seg f sq tcb s = Some (r, s')"
  shows "outs (seg_ok q ws) s s'"
proof -
  obtain p1 p2 where h: "put_bytes 13 [f] [replicate 20 0] = Some p1" "put_bytes 4 (le32 (htonl sq)) p1 = Some p2" "tcp_output_tcb tcb p2 s = Some (r, s')"
    using assms by (auto simp: tcp_emit_seg_def split: Option.bind_splits)
  obtain x where x: "p2 = [x]" "length x = 20" by (rule put_header [OF h(1,2)])
  show ?thesis by (rule outs_mono [OF output_tcb_outs_empty [OF h(3)] seg_ok_empty]) (simp_all add: x)
qed

lemma emit_data_outs:
  assumes inv: "snd_inv tcb ws" "emit_at tcb ws u n sq j" and b: "b \<noteq> 0" "j + unat b \<le> length ws"
    and e: "tcp_emit_data b sq tcb s = Some (err, tcb', s')"
  obtains k where "0 < k" "j + k \<le> length ws" "outs (seg_ok (snd_base tcb) ws) s s'"
    "tcb' = (if err \<noteq> 0 then tcb else if snd_nxt tcb = sq then tcb\<lparr>snd_nxt := snd_nxt tcb + of_nat k, tcb_tx_bytes := tcb_tx_bytes tcb + ucast (of_nat k :: u32)\<rparr>
       else tcb\<lparr>tcb_rtx_bytes := tcb_rtx_bytes tcb + ucast (of_nat k :: u32)\<rparr>)"
proof -
  obtain p1 p2 where h: "put_bytes 13 [TCP_F_PSH OR TCP_F_ACK] [replicate 20 0] = Some p1" "put_bytes 4 (le32 (htonl sq)) p1 = Some p2"
    using e by (auto simp: tcp_emit_data_def split: Option.bind_splits)
  obtain pb tot s1 where f: "tcp_fill tcb b sq p2 0 s = Some (pb, tot, s1)" using e h by (auto simp: tcp_emit_data_def split: Option.bind_splits)
  obtain r where o: "tcp_output_tcb tcb pb s1 = Some (r, s')" and tc: "err = r \<and> tcb' = (if r \<noteq> 0 then tcb
      else if snd_nxt tcb = sq then tcb\<lparr>snd_nxt := snd_nxt tcb + tot, tcb_tx_bytes := tcb_tx_bytes tcb + ucast tot\<rparr>
      else tcb\<lparr>tcb_rtx_bytes := tcb_rtx_bytes tcb + ucast tot\<rparr>)"
    using e h f by (cases "tcp_output_tcb tcb pb s1") (auto simp: tcp_emit_data_def split: if_splits)
  obtain x where x: "p2 = [x]" "length x = 20" "x ! 13 = TCP_F_PSH OR TCP_F_ACK" "seq_of x = sq" by (rule put_header [OF h])
  have at: "u \<le> j" "sq = snd_base tcb + of_nat j" "ring_holds (tcb_txfifo tcb) (tcb_txfifo_size tcb) (snd_base tcb) u ws"
    "length ws \<le> u + unat (tcb_txfifo_size tcb)" using inv(2) by (auto simp: emit_at_def snd_at_def)
  have sz: "ring_size (tcb_txfifo_size tcb)" using inv(1) by (simp add: snd_inv_def)
  have fp: "fill_pb p2" "frags_len p2 < 1480" "length (last p2) < frag_cap p2" using x by (auto simp: fill_pb_def frag_cap_def frags_len_def)
  obtain k where k: "k \<le> unat b" "filled ws j k p2 0 s pb tot s1" "0 < k"
    using tcp_fill_data [OF sz at(3,4) fp(1) at(1) b(2) f [unfolded at(2)]] b(1) fp(2,3) by blast
  have c: "concat pb = x @ take k (drop j ws)" "fill_pb pb" "j + k \<le> length ws" "tot = of_nat k" using k(2) x(1) by (auto simp: filled_def)
  have o1: "outs (seg_ok (snd_base tcb) ws) s s1" using k(2) by (simp add: filled_def outs_def)
  have o2: "outs (\<lambda>bs. seg_data bs = Some (seq_of (concat pb), drop 20 (concat pb))) s1 s'"
    by (rule output_tcb_outs [OF o]) (use c x(2,3) in \<open>auto simp: fill_pb_def nth_append has_def TCP_F_PSH_def TCP_F_ACK_def TCP_F_SYN_def\<close>)
  have d: "seq_of (concat pb) = sq" "drop 20 (concat pb) = take k (drop j ws)"
    using c(1) x by (auto simp: seq_of_def nth_append)
  have "outs (seg_ok (snd_base tcb) ws) s1 s'"
    by (rule outs_mono [OF o2 [unfolded d]]) (use at(2) c(3) in \<open>auto simp: seg_ok_def\<close>)
  then show ?thesis using that [of k] outs_trans [OF o1] k(3) c(3,4) tc by simp
qed


lemma nxt_progress:
  assumes "snd_inv tcb ws" "emit_at tcb ws u n sq n" "n < m" "m \<le> length ws + fin_len tcb"
    and "snd_nxt tcb' = snd_base tcb + of_nat m" "snd_wrptr tcb' = snd_wrptr tcb"
  shows "unat (snd_wrptr tcb' - snd_nxt tcb') < unat (snd_wrptr tcb - snd_nxt tcb)"
proof -
  have nx: "snd_nxt tcb = sq" using assms(2) by (simp add: emit_at_def snd_at_def)
  have l: "length ws + fin_len tcb - n < 4294967296"
    using emit_bytes_le(1) [OF assms(1,2)] unat_bound [of "snd_wrptr tcb - sq"] by simp
  have "snd_wrptr tcb' - snd_nxt tcb' = of_nat (length ws + fin_len tcb - m)"
    using assms(1,4,5,6) by (simp add: snd_inv_def of_nat_diff)
  then have "unat (snd_wrptr tcb' - snd_nxt tcb') = length ws + fin_len tcb - m" using l assms(3) by (simp add: unat_of_nat)
  then show ?thesis unfolding nx emit_bytes_le(1) [OF assms(1,2)] using assms(3,4) by linarith
qed

text \<open>The two emissions that move the sender on: the end of the stream, and data.\<close>

lemma emitted_fin:
  assumes inv: "snd_inv tcb ws" and sq: "sq = snd_nxt tcb \<or> sq = snd_una tcb" and f: "tcb_pending_syn tcb = 0" "emit_bytes sq tcb \<noteq> 0"
    and tc: "tcb' = tcb\<lparr>tcb_delayed_ack_timer := 0, snd_nxt := snd_wrptr tcb\<rparr>" and o: "outs (seg_ok (snd_base tcb) ws) s s'"
  shows "emitted sq tcb ws s err tcb' s'"
proof -
  have fr: "emit_frame tcb tcb'" by (simp add: tc)
  obtain u n j where at: "emit_at tcb ws u n sq j" by (rule emit_at_exists [OF inv f(1) sq])
  have w: "snd_nxt tcb' = snd_base tcb + of_nat (length ws + fin_len tcb)" using inv by (simp add: tc snd_inv_def)
  have at': "snd_at tcb ws u n" "u \<le> length ws + fin_len tcb" using at by (auto simp: emit_at_def snd_at_def)
  have "snd_inv tcb' ws" by (rule snd_inv_emit [OF fr inv]) (use at' w f(1) in blast)
  moreover have "unat (snd_wrptr tcb' - snd_nxt tcb') < unat (snd_wrptr tcb - snd_nxt tcb)" if "sq = snd_nxt tcb"
  proof -
    have jn: "j = n" using at that by (simp add: emit_at_def)
    have "0 < unat (emit_bytes sq tcb)" using f(2) by (simp add: unat_gt_0)
    then have lt: "n < length ws + fin_len tcb" using emit_bytes_le(2) [OF inv at] jn by simp
    show ?thesis by (rule nxt_progress [OF inv at [unfolded jn] lt order_refl w]) (simp add: tc)
  qed
  ultimately show ?thesis using fr o by (simp add: emitted_def)
qed

lemma emitted_data:
  assumes inv: "snd_inv tcb ws" and sq: "sq = snd_nxt tcb \<or> sq = snd_una tcb" and f: "tcb_pending_syn tcb = 0"
    and b: "emit_bytes sq tcb \<noteq> 0" "tcb_pending_fin tcb \<noteq> 0 \<Longrightarrow> emit_bytes sq tcb \<noteq> 1"
    and e: "tcp_emit_data (if tcb_pending_fin tcb \<noteq> 0 then emit_bytes sq tcb - 1 else emit_bytes sq tcb) sq (tcb\<lparr>tcb_delayed_ack_timer := 0\<rparr>) s = Some (err, tcb', s')"
  shows "emitted sq tcb ws s err tcb' s'"
proof -
  define t0 where "t0 = tcb\<lparr>tcb_delayed_ack_timer := 0\<rparr>"
  define c where "c = (if tcb_pending_fin tcb \<noteq> 0 then emit_bytes sq tcb - 1 else emit_bytes sq tcb)"
  obtain u n j where at: "emit_at tcb ws u n sq j" by (rule emit_at_exists [OF inv f sq])
  have at0: "emit_at t0 ws u n sq j" using at by (simp add: emit_at_def snd_at_def t0_def snd_base_def fin_len_def)
  have inv0: "snd_inv t0 ws" by (rule snd_inv_emit [OF _ inv]) (simp_all add: t0_def)
  have "0 < unat (emit_bytes sq tcb)" using b(1) by (simp add: unat_gt_0)
  then have c: "c \<noteq> 0" "j + unat c \<le> length ws"
    using b emit_bytes_le(2) [OF inv at] by (auto simp: c_def fin_len_def unat_minus_one split: if_splits)
  obtain k where k: "0 < k" "j + k \<le> length ws" "outs (seg_ok (snd_base t0) ws) s s'"
    "tcb' = (if err \<noteq> 0 then t0 else if snd_nxt t0 = sq then t0\<lparr>snd_nxt := snd_nxt t0 + of_nat k, tcb_tx_bytes := tcb_tx_bytes t0 + ucast (of_nat k :: u32)\<rparr>
       else t0\<lparr>tcb_rtx_bytes := tcb_rtx_bytes t0 + ucast (of_nat k :: u32)\<rparr>)"
    by (rule emit_data_outs [OF inv0 at0 c e [folded c_def t0_def]])
  have n0: "snd_nxt t0 = snd_nxt tcb" "snd_base t0 = snd_base tcb" by (simp_all add: t0_def snd_base_def)
  have fr: "emit_frame tcb tcb'" by (simp add: k(4) t0_def)
  have nx: "snd_nxt tcb' = snd_base tcb + of_nat (j + k)" if "err = 0" "snd_nxt tcb = sq" using that at by (simp add: k(4) n0 emit_at_def)
  have same: "snd_nxt tcb' = snd_nxt tcb" if "\<not> (err = 0 \<and> snd_nxt tcb = sq)" using that by (auto simp: k(4) t0_def)
  have "snd_at tcb ws u n" "u \<le> j + k" "j + k \<le> length ws + fin_len tcb" using at k(2) by (auto simp: emit_at_def)
  then have "snd_inv tcb' ws" using nx same f by (intro snd_inv_emit [OF fr inv]) blast
  moreover have "unat (snd_wrptr tcb' - snd_nxt tcb') < unat (snd_wrptr tcb - snd_nxt tcb)" if "err = 0" "sq = snd_nxt tcb"
  proof -
    have jn: "j = n" using at that by (simp add: emit_at_def)
    show ?thesis by (rule nxt_progress [OF inv at [unfolded jn] _ _ nx [unfolded jn]]) (use that k(1,2) jn in \<open>auto simp: k(4) t0_def\<close>)
  qed
  ultimately show ?thesis using fr k(3) n0 by (auto simp: emitted_def)
qed

lemma emit_ok:
  assumes e: "tcp_emit hp sq ga tcb s = Some (err, tcb', s')" and inv: "snd_inv tcb ws" and sq: "sq = snd_nxt tcb \<or> sq = snd_una tcb"
  shows "emitted sq tcb ws s err tcb' s'"
proof -
  let ?P = "seg_ok (snd_base tcb) ws"
  obtain ok s0 where p: "(if hp then (True, s) else pbuf_ans s) = (ok, s0)" by fastforce
  have o0: "outs P s s0" for P using p outs_pbuf by (auto split: if_splits)
  have from0: "emitted sq tcb ws s0 err tcb' s' \<Longrightarrow> ?thesis" using outs_trans [OF o0, of ?P] by (auto simp: emitted_def)
  define t0 where "t0 = tcb\<lparr>tcb_delayed_ack_timer := 0\<rparr>"
  have inv0: "snd_inv t0 ws" by (rule snd_inv_emit [OF _ inv]) (simp_all add: t0_def)
  have b0: "emit_bytes sq t0 = emit_bytes sq tcb" by (simp add: t0_def emit_bytes_def wnd_room_def Let_def)
  show ?thesis
  proof (cases ok)
    case False
    then have "err = ERR_NO_BUFFER" "tcb' = tcb" "s' = s0" using e by (auto simp: tcp_emit_def p)
    then show ?thesis using inv o0 by (auto simp: emitted_def ERR_NO_BUFFER_def)
  next
    case True
    note em = e [unfolded tcp_emit_def p Let_def t0_def [symmetric] b0, simplified True prod.case]
    consider (syn) "tcb_pending_syn tcb \<noteq> 0" | (none) "tcb_pending_syn tcb = 0" "emit_bytes sq tcb = 0"
      | (fin) "tcb_pending_syn tcb = 0" "tcb_pending_fin tcb \<noteq> 0" "emit_bytes sq tcb = 1"
      | (data) "tcb_pending_syn tcb = 0" "emit_bytes sq tcb \<noteq> 0" "\<not> (tcb_pending_fin tcb \<noteq> 0 \<and> emit_bytes sq tcb = 1)" by blast
    then show ?thesis
    proof cases
      case syn
      then have "tcb' = t0" "outs ?P s0 s'" using em emit_seg_outs by (auto simp: t0_def split: Option.bind_splits)
      then show ?thesis using inv0 syn by (intro from0) (simp add: emitted_def t0_def)
    next
      case none
      then have "tcb' = t0" "outs ?P s0 s'" using em emit_seg_outs by (auto simp: t0_def split: Option.bind_splits if_splits)
      then show ?thesis using inv0 none by (intro from0) (simp add: emitted_def t0_def)
    next
      case fin
      then have "tcb' = tcb\<lparr>tcb_delayed_ack_timer := 0, snd_nxt := snd_wrptr tcb\<rparr>" "outs ?P s0 s'"
        using em emit_seg_outs by (auto simp: t0_def split: Option.bind_splits)
      then show ?thesis using emitted_fin [OF inv sq fin(1)] fin(3) by (intro from0) simp
    next
      case data
      then have "tcp_emit_data (if tcb_pending_fin tcb \<noteq> 0 then emit_bytes sq tcb - 1 else emit_bytes sq tcb) sq t0 s0 = Some (err, tcb', s')"
        using em by (auto simp: t0_def)
      then show ?thesis using data unfolding t0_def by (intro from0 emitted_data [OF inv sq]) auto
    qed
  qed
qed

end
