(* ===== verification/Tcp_Conn.thy ===== *)
theory Tcp_Conn
  imports Tcp_Send
begin

text \<open>
  One connection: its sending and its receiving half keep their invariants under acknowledgements,
  reads, writes, segments of every kind, the network task and the timers.
\<close>

lemma emit_frame_trans: "emit_frame t1 t2 \<Longrightarrow> emit_frame t2 t3 \<Longrightarrow> emit_frame t1 t3"
  unfolding emit_frame_def by (elim exE, intro exI) simp

lemma snd_base_frame: "emit_frame tcb tcb' \<Longrightarrow> snd_base tcb' = snd_base tcb"
  by (auto simp: emit_frame_def snd_base_def)

definition emit_ran :: "bytes \<Rightarrow> tcb \<Rightarrow> 'x ipv4_scheme \<Rightarrow> tcb \<times> 'x ipv4_scheme \<Rightarrow> bool" where
  "emit_ran ws tcb s r \<longleftrightarrow> emit_frame tcb (fst r) \<and> snd_inv (fst r) ws \<and> outs (seg_ok (snd_base tcb) ws) s (snd r)"

lemma emit_ran_trans: "emit_ran ws tcb s (t1, s1) \<Longrightarrow> emit_ran ws t1 s1 r \<Longrightarrow> emit_ran ws tcb s r"
  unfolding emit_ran_def by (metis emit_frame_trans outs_trans snd_base_frame fst_conv snd_conv)

lemma emit_ran_emit: "tcp_emit hp sq ga tcb s = Some (err, t1, s1) \<Longrightarrow> snd_inv tcb ws \<Longrightarrow> sq = snd_nxt tcb \<or> sq = snd_una tcb \<Longrightarrow>
    emit_ran ws tcb s (t1, s1)"
  using emit_ok [of hp sq ga tcb s err t1 s1 ws] by (simp add: emit_ran_def emitted_def)

lemma emit_loop_ok:
  assumes ret: "tcp_emit_loop force tcb s = Some r" and inv: "snd_inv tcb ws"
  shows "emit_ran ws tcb s r"
proof -
  have "snd_inv tcb ws \<longrightarrow> emit_ran ws tcb s r"
    apply (rule tcp_emit_loop.raw_induct [where P = "\<lambda>force tcb s r. snd_inv tcb ws \<longrightarrow> emit_ran ws tcb s r", OF _ ret])
    subgoal premises 1 for loop force tcb s r
    proof
      assume inv: "snd_inv tcb ws"
      consider "r = (tcb, s)" | e t1 s1 where "tcp_emit False (snd_nxt tcb) False tcb s = Some (e, t1, s1)" "r = (t1, s1) \<or> loop force t1 s1 = Some r"
        using 1(2) by (auto split: if_splits Option.bind_splits)
      then show "emit_ran ws tcb s r"
      proof cases
        case 1
        then show ?thesis using inv by (simp add: emit_ran_def)
      next
        case 2
        have e: "emit_ran ws tcb s (t1, s1)" using emit_ran_emit [OF 2(1) inv] by simp
        then have "snd_inv t1 ws" by (simp add: emit_ran_def)
        then have "r = (t1, s1) \<or> emit_ran ws t1 s1 r" using 2(2) 1(1) by blast
        then show ?thesis using e emit_ran_trans by blast
      qed
    qed
    done
  then show ?thesis using inv by simp
qed

subsection \<open>Acknowledgements, writes, the end of the stream\<close>

text \<open>The sending half: what its invariant looks at.\<close>

definition snd_part :: "tcb \<Rightarrow> u8 \<times> u8 \<times> u32 \<times> u32 \<times> u32 \<times> u32 \<times> u32 \<times> bytes" where
  "snd_part tcb = (tcb_pending_syn tcb, tcb_pending_fin tcb, snd_wrptr tcb, snd_nxt tcb, snd_una tcb, tcb_iss tcb, tcb_txfifo_size tcb, tcb_txfifo tcb)"

lemma snd_inv_cong: "snd_part tcb' = snd_part tcb \<Longrightarrow> snd_inv tcb' ws = snd_inv tcb ws"
  by (simp add: snd_part_def snd_inv_def snd_at_def snd_base_def fin_len_def)

lemma sdiff_between:
  assumes "0 \<le> sdiff a u" "0 \<le> sdiff n a" "n = u + of_nat d" "d < 2147483648"
  shows "unat (a - u) \<le> d"
proof -
  have pos: "unat w < 2147483648" if "0 \<le> sint w" for w :: u32
  proof -
    have lt: "sint w < 2147483648" using sint_lt [of w] by simp
    have "uint w = sint w mod 4294967296" using uint_word_of_int [of "sint w", where 'a = 32] by simp
    then have "uint w < 2147483648" using that lt by simp
    moreover have "uint w = int (unat w)" by simp
    ultimately show ?thesis by linarith
  qed
  have l: "unat (a - u) < 2147483648" "unat (n - a) < 2147483648" using assms(1,2) pos by (auto simp: sdiff_def)
  have "(a - u) + (n - a) = of_nat d" using assms(3) by simp
  then have "unat ((a - u) + (n - a)) = d" using assms(4) by (simp add: unat_of_nat)
  moreover have "unat ((a - u) + (n - a)) = unat (a - u) + unat (n - a)" by (rule unat_add_lem [THEN iffD1]) (use l in simp)
  ultimately show ?thesis by linarith
qed


lemma ack_fields:
  "snd_part (tcp_ack tcb c) = (if c = 0 then snd_part tcb else snd_part (tcb\<lparr>snd_una := snd_una tcb + c, tcb_pending_syn := 0\<rparr>))"
  by (simp add: tcp_ack_def arm_rtx_def tcb_raise_def Let_def snd_part_def)

lemma ack_inv:
  assumes inv: "snd_inv tcb ws" and a: "0 \<le> sdiff a (snd_una tcb)" "0 \<le> sdiff (snd_nxt tcb) a"
  shows "snd_inv (tcp_ack tcb (a - snd_una tcb)) ws"
proof (cases "a - snd_una tcb = 0")
  case True
  then show ?thesis using inv snd_inv_cong ack_fields by metis
next
  case False
  define c where "c = unat (a - snd_una tcb)"
  have ca: "a - snd_una tcb = of_nat c" by (simp add: c_def)
  have c0: "0 < c" using False by (simp add: c_def unat_gt_0)
  obtain u n where at: "snd_at tcb ws u n" using inv by (auto simp: snd_inv_def)
  have sz: "unat (tcb_txfifo_size tcb) \<le> 1073741824" using inv ring_sizeD(2) by (simp add: snd_inv_def)
  have "n \<le> length ws + fin_len tcb" "length ws \<le> u + unat (tcb_txfifo_size tcb)" using at by (auto simp: snd_at_def)
  then have nu: "n - u \<le> 1073741825" using sz fin_len_le [of tcb] by linarith
  let ?t = "tcb\<lparr>snd_una := snd_una tcb + of_nat c, tcb_pending_syn := 0\<rparr>"
  have at': "\<exists>u n. snd_at ?t ws u n"
  proof (cases "tcb_pending_syn tcb = 0")
    case True
    have "snd_nxt tcb = snd_una tcb + of_nat (n - u)" using at True by (simp add: snd_at_def of_nat_diff)
    then have "c \<le> n - u" unfolding c_def by (rule sdiff_between [OF a]) (use nu in simp)
    then have "snd_at ?t ws (u + c) n" using at True ring_holds_mono [of _ _ _ u ws "u + c"] by (auto simp: snd_at_def snd_base_def fin_len_def)
    then show ?thesis by blast
  next
    case False
    have "snd_nxt tcb = snd_una tcb + of_nat 1" using at False by (simp add: snd_at_def snd_base_def)
    then have "c \<le> 1" unfolding c_def by (rule sdiff_between [OF a]) simp
    then have "c = 1" using c0 by simp
    then have "snd_at ?t ws u n" using at False by (auto simp: snd_at_def snd_base_def fin_len_def)
    then show ?thesis by blast
  qed
  then have "snd_inv ?t ws" using inv by (auto simp: snd_inv_def snd_base_def fin_len_def)
  moreover have "snd_part (tcp_ack tcb (a - snd_una tcb)) = snd_part ?t" using False ack_fields [of tcb "a - snd_una tcb"] ca by simp
  ultimately show ?thesis using snd_inv_cong by blast
qed

text \<open>The receiving half, which acknowledgements, emissions and the application's writes leave alone.\<close>

lemma ack_rcv: "rcv_part (tcp_ack tcb c) = rcv_part tcb" "tcb_state (tcp_ack tcb c) = tcb_state tcb" "tcb_iss (tcp_ack tcb c) = tcb_iss tcb"
  "tcb_pending_fin (tcp_ack tcb c) = tcb_pending_fin tcb"
  by (simp_all add: tcp_ack_def arm_rtx_def tcb_raise_def Let_def rcv_part_def)

lemma acked_inv:
  assumes "tcp_input_acked h tcb = (b, tcb')" "snd_inv tcb ws"
  shows "snd_inv tcb' ws" "rcv_part tcb' = rcv_part tcb" "tcb_state tcb' = tcb_state tcb" "tcb_iss tcb' = tcb_iss tcb" "tcb_pending_fin tcb' = tcb_pending_fin tcb"
proof -
  let ?a = "tcp_ack tcb (th_ack h - snd_una tcb)"
  consider "tcb' = tcb" | "0 \<le> sdiff (th_ack h) (snd_una tcb)" "0 \<le> sdiff (snd_nxt tcb) (th_ack h)" "snd_part tcb' = snd_part ?a" "rcv_part tcb' = rcv_part ?a"
      "tcb_state tcb' = tcb_state ?a" "tcb_iss tcb' = tcb_iss ?a" "tcb_pending_fin tcb' = tcb_pending_fin ?a"
    using assms(1) by (auto simp: tcp_input_acked_def Let_def snd_part_def rcv_part_def split: if_splits)
  then have "snd_inv tcb' ws \<and> rcv_part tcb' = rcv_part tcb \<and> tcb_state tcb' = tcb_state tcb \<and> tcb_iss tcb' = tcb_iss tcb \<and> tcb_pending_fin tcb' = tcb_pending_fin tcb"
  proof cases
    case 2
    then show ?thesis using ack_inv [OF assms(2) 2(1,2)] snd_inv_cong [OF 2(3)] ack_rcv by simp
  qed (use assms(2) in simp)
  then show "snd_inv tcb' ws" "rcv_part tcb' = rcv_part tcb" "tcb_state tcb' = tcb_state tcb" "tcb_iss tcb' = tcb_iss tcb" "tcb_pending_fin tcb' = tcb_pending_fin tcb" by auto
qed

lemma snd_avail:
  assumes inv: "snd_inv tcb ws" and at: "snd_at tcb ws u n" and fin: "tcb_pending_fin tcb = 0"
  shows "unat (tcb_txfifo_avail tcb) + length ws + (if tcb_pending_syn tcb = 0 then 0 else 1) = u + unat (tcb_txfifo_size tcb)"
proof -
  define k where "k = length ws - u + (if tcb_pending_syn tcb = 0 then 0 else 1)"
  have f: "fin_len tcb = 0" using fin by (simp add: fin_len_def)
  have u: "u \<le> length ws" "tcb_pending_syn tcb \<noteq> 0 \<Longrightarrow> u = 0" using at f by (auto simp: snd_at_def)
  have kb: "k \<le> unat (tcb_txfifo_size tcb)" using at u by (auto simp: snd_at_def k_def)
  have "tcb_txfifo_used tcb = of_nat k"
    using inv at f u by (auto simp: tcb_txfifo_used_def k_def snd_inv_def snd_at_def snd_base_def of_nat_diff)
  moreover have "unat (of_nat k :: u32) = k" using kb unat_bound [of "tcb_txfifo_size tcb"] by (simp add: unat_of_nat)
  ultimately have "unat (tcb_txfifo_avail tcb) = unat (tcb_txfifo_size tcb) - k"
    using kb by (simp add: tcb_txfifo_avail_def unat_sub word_le_nat_alt)
  then show ?thesis using kb u(1) by (auto simp: k_def)
qed

lemma write_inv:
  assumes inv: "snd_inv tcb ws" and fin: "tcb_pending_fin tcb = 0" and l: "length d \<le> unat (tcb_txfifo_avail tcb)"
    and w: "ltow_memcpy (tcb_txfifo tcb) d (snd_wrptr tcb) (tcb_txfifo_size tcb) = Some f"
  shows "snd_inv (tcb\<lparr>tcb_txfifo := f, snd_wrptr := snd_wrptr tcb + of_nat (length d)\<rparr>) (ws @ d)"
proof -
  obtain u n where at: "snd_at tcb ws u n" using inv by (auto simp: snd_inv_def)
  have f0: "fin_len tcb = 0" using fin by (simp add: fin_len_def)
  have wr: "snd_wrptr tcb = snd_base tcb + of_nat (length ws)" and sz: "ring_size (tcb_txfifo_size tcb)" using inv f0 by (auto simp: snd_inv_def)
  have u: "u \<le> length ws" "ring_holds (tcb_txfifo tcb) (tcb_txfifo_size tcb) (snd_base tcb) u ws" "tcb_pending_syn tcb \<noteq> 0 \<Longrightarrow> u = 0" using at f0 by (auto simp: snd_at_def)
  have le: "length ws + length d + (if tcb_pending_syn tcb = 0 then 0 else 1) \<le> u + unat (tcb_txfifo_size tcb)"
    using snd_avail [OF inv at fin] l by linarith
  have "ring_holds f (tcb_txfifo_size tcb) (snd_base tcb) u (ws @ d)"
    by (rule ring_write [OF sz u(2,1) _ w [unfolded wr]]) (use le in linarith)
  then have "snd_at (tcb\<lparr>tcb_txfifo := f, snd_wrptr := snd_wrptr tcb + of_nat (length d)\<rparr>) (ws @ d) u n"
    using at f0 le u(3) by (auto simp: snd_at_def snd_base_def fin_len_def split: if_splits)
  then show ?thesis using inv f0 wr by (auto simp: snd_inv_def snd_base_def fin_len_def)
qed

definition same_but_tx :: "tcb \<Rightarrow> tcb \<Rightarrow> bool" where
  "same_but_tx tcb tcb' \<longleftrightarrow> rcv_part tcb' = rcv_part tcb \<and> tcb_state tcb' = tcb_state tcb \<and> tcb_iss tcb' = tcb_iss tcb"

lemma write_loop_inv:
  assumes "tcp_write_loop flags iov written tcb = Some (r, written', rest, tcb')" "snd_inv tcb ws" "tcb_pending_fin tcb = 0"
  shows "\<exists>vs. snd_inv tcb' (ws @ vs) \<and> concat iov = vs @ concat rest \<and> written' = written + length vs \<and> same_but_tx tcb tcb' \<and> tcb_pending_fin tcb' = 0"
  using assms
proof (induction flags iov written tcb arbitrary: ws rule: tcp_write_loop.induct)
  case (1 flags written tcb)
  then show ?case by (intro exI [of _ "[]"]) (auto simp: same_but_tx_def)
next
  case (2 flags buf iov written tcb)
  let ?av = "tcb_txfifo_avail tcb"
  show ?case
  proof (cases "buf = [] \<or> ?av = 0")
    case True
    then show ?thesis
    proof (cases "buf = []")
      case True
      then show ?thesis using 2 by simp
    next
      case False
      then have "snd_part tcb' = snd_part tcb" "rest = buf # iov" "written' = written" "same_but_tx tcb tcb'" "tcb_pending_fin tcb' = tcb_pending_fin tcb" using True 2(3)
        by (auto simp: tcb_raise_def snd_part_def same_but_tx_def rcv_part_def split: if_splits)
      then show ?thesis using 2(4,5) snd_inv_cong [of tcb' tcb ws] by (intro exI [of _ "[]"]) simp
    qed
  next
    case False
    define c where "c = min (length buf) (unat ?av)"
    obtain f where f: "ltow_memcpy (tcb_txfifo tcb) (take c buf) (snd_wrptr tcb) (tcb_txfifo_size tcb) = Some f"
      and t: "tcp_write_loop flags (drop c buf # iov) (written + c) (tcb\<lparr>tcb_txfifo := f, snd_wrptr := snd_wrptr tcb + of_nat c\<rparr>) = Some (r, written', rest, tcb')"
      using 2(3) False by (auto simp: c_def Let_def split: Option.bind_splits)
    let ?t = "tcb\<lparr>tcb_txfifo := f, snd_wrptr := snd_wrptr tcb + of_nat c\<rparr>"
    have "snd_inv ?t (ws @ take c buf)" using write_inv [OF 2(4,5) _ f] by (simp add: c_def)
    then obtain vs where v: "snd_inv tcb' ((ws @ take c buf) @ vs)" "concat (drop c buf # iov) = vs @ concat rest" "written' = written + c + length vs" "same_but_tx ?t tcb'" "tcb_pending_fin tcb' = 0"
      using 2(2) [OF _ refl _ refl, of f "ws @ take c buf"] False t 2(5) f unfolding c_def [symmetric] by auto
    have "concat (buf # iov) = (take c buf @ vs) @ concat rest" using v(2) by simp (metis append.assoc append_take_drop_id)
    then show ?thesis using v by (intro exI [of _ "take c buf @ vs"]) (auto simp: same_but_tx_def rcv_part_def c_def)
  qed
qed

lemma send_fin_inv:
  assumes s: "tcp_send_fin now flags tcb s = Some (tcb', s')" and inv: "snd_inv tcb ws" and f: "tcb_pending_fin tcb = 0" "flags \<noteq> 0" "\<not> has flags TCP_F_SYN"
  shows "snd_inv tcb' ws" "same_but_tx tcb tcb'" "outs (seg_ok (snd_base tcb) ws) s s'"
proof -
  define t1 where "t1 = (if snd_una tcb = snd_nxt tcb then tcb\<lparr>tcb_rtx_timer := now + ms_to_us (tcb_rto tcb)\<rparr> else tcb)\<lparr>tcb_pending_fin := flags, snd_wrptr := snd_wrptr tcb + 1\<rparr>"
  have t1: "snd_part t1 = snd_part (tcb\<lparr>tcb_pending_fin := flags, snd_wrptr := snd_wrptr tcb + 1\<rparr>)" "same_but_tx tcb t1"
    by (auto simp: t1_def snd_part_def same_but_tx_def rcv_part_def)
  have "snd_inv (tcb\<lparr>tcb_pending_fin := flags, snd_wrptr := snd_wrptr tcb + 1\<rparr>) ws"
  proof -
    obtain u n where "snd_at tcb ws u n" using inv by (auto simp: snd_inv_def)
    then have "snd_at (tcb\<lparr>tcb_pending_fin := flags, snd_wrptr := snd_wrptr tcb + 1\<rparr>) ws u n"
      using f by (auto simp: snd_at_def snd_base_def fin_len_def split: if_splits)
    then show ?thesis using inv f by (auto simp: snd_inv_def snd_base_def fin_len_def)
  qed
  then have i1: "snd_inv t1 ws" using snd_inv_cong [OF t1(1)] by simp
  obtain e where em: "tcp_emit False (snd_nxt t1) False t1 s = Some (e, tcb', s')"
    using s by (auto simp: tcp_send_fin_def Let_def t1_def split: Option.bind_splits if_splits)
  note r = emit_ran_emit [OF em i1]
  show "snd_inv tcb' ws" using r by (simp add: emit_ran_def)
  show "same_but_tx tcb tcb'" using r t1(2) by (auto simp: emit_ran_def emit_frame_def same_but_tx_def rcv_part_def)
  have "snd_base t1 = snd_base tcb" using t1(2) by (simp add: same_but_tx_def snd_base_def)
  then show "outs (seg_ok (snd_base tcb) ws) s s'" using r by (simp add: emit_ran_def)
qed

section \<open>The receiving half of a connection\<close>

text \<open>\<open>R\<close> is all that was received, \<open>r\<close> how much of it was read; \<open>ib\<close> is the sequence number of the first byte.\<close>

definition rcv_inv :: "u32 \<Rightarrow> bytes \<Rightarrow> nat \<Rightarrow> tcb \<Rightarrow> bool" where
  "rcv_inv ib R r tcb \<longleftrightarrow>
     ring_size (tcb_rxfifo_size tcb) \<and> r \<le> length R \<and> length R \<le> r + unat (tcb_rxfifo_size tcb) \<and>
     ring_holds (tcb_rxfifo tcb) (tcb_rxfifo_size tcb) ib r R \<and>
     rcv_nxt tcb = ib + of_nat (length R + (if tcb_fin_received tcb then 1 else 0)) \<and> rcv_rdptr tcb = ib + of_nat r"

lemma rcv_inv_cong: "rcv_part tcb' = rcv_part tcb \<Longrightarrow> rcv_inv ib R r tcb' = rcv_inv ib R r tcb"
  by (simp add: rcv_part_def rcv_inv_def)

lemma rcv_used:
  assumes "rcv_inv ib R r tcb"
  shows "unat (tcb_rxfifo_used tcb) = length R - r + (if tcb_fin_received tcb then 1 else 0)"
    "sint (tcb_rxfifo_used tcb) = int (length R - r + (if tcb_fin_received tcb then 1 else 0))"
proof -
  define k where "k = length R - r + (if tcb_fin_received tcb then 1 else 0)"
  have l: "k \<le> 1073741825" using assms ring_sizeD(2) [of "tcb_rxfifo_size tcb"] by (auto simp: rcv_inv_def k_def)
  have w: "tcb_rxfifo_used tcb = of_nat k" using assms by (auto simp: tcb_rxfifo_used_def rcv_inv_def of_nat_diff k_def)
  have "unat (tcb_rxfifo_used tcb) = k" using l w by (simp add: unat_of_nat)
  moreover have "sint (tcb_rxfifo_used tcb) = int k" unfolding w using sint_of_int [of "int k"] l by simp
  ultimately show "unat (tcb_rxfifo_used tcb) = length R - r + (if tcb_fin_received tcb then 1 else 0)"
    "sint (tcb_rxfifo_used tcb) = int (length R - r + (if tcb_fin_received tcb then 1 else 0))" by (simp_all only: k_def)
qed

lemma rcv_avail:
  assumes "rcv_inv ib R r tcb" "\<not> tcb_fin_received tcb"
  shows "unat (tcb_rxfifo_avail tcb) + length R = r + unat (tcb_rxfifo_size tcb)"
proof -
  have u: "unat (tcb_rxfifo_used tcb) = length R - r" using rcv_used(1) [OF assms(1)] assms(2) by simp
  have l: "r \<le> length R" "length R \<le> r + unat (tcb_rxfifo_size tcb)" using assms(1) by (auto simp: rcv_inv_def)
  then have "unat (tcb_rxfifo_avail tcb) = unat (tcb_rxfifo_size tcb) - (length R - r)"
    using u by (simp add: tcb_rxfifo_avail_def unat_sub word_le_nat_alt)
  then show ?thesis using l by linarith
qed

lemma user_bytes:
  assumes "rcv_inv ib R r tcb"
  shows "tcb_rxfifo_user_bytes tcb = ERR_NOT_CONNECTED \<or> tcb_rxfifo_user_bytes tcb = int (length R - r)"
proof (cases "tcb_fin_received tcb \<and> \<not> tcb_rxfifo_used tcb \<le> 1")
  case True
  have "tcb_rxfifo_used tcb \<noteq> 0" using True by auto
  then have "unat (tcb_rxfifo_used tcb - 1) = length R - r" using True rcv_used(1) [OF assms] by (simp add: unat_minus_one)
  moreover have "length R - r \<le> 1073741824" using assms ring_sizeD(2) [of "tcb_rxfifo_size tcb"] by (auto simp: rcv_inv_def)
  moreover have "sint (tcb_rxfifo_used tcb - 1) = sint (of_int (int (unat (tcb_rxfifo_used tcb - 1))) :: u32)" by simp
  ultimately have "sint (tcb_rxfifo_used tcb - 1) = int (length R - r)" using sint_of_int [of "int (length R - r)"] by simp
  then show ?thesis using True by (simp add: tcb_rxfifo_user_bytes_def Let_def)
next
  case False
  then show ?thesis using rcv_used(2) [OF assms] by (auto simp: tcb_rxfifo_user_bytes_def Let_def)
qed

text \<open>Reading takes the next bytes.\<close>

lemma consume_fields:
  "snd_part (tcp_rxfifo_consume n tcb) = snd_part tcb" "rcv_part (tcp_rxfifo_consume n tcb) = rcv_part (tcb\<lparr>rcv_rdptr := rcv_rdptr tcb + n\<rparr>)"
  "tcb_state (tcp_rxfifo_consume n tcb) = tcb_state tcb"
  by (simp_all add: tcp_rxfifo_consume_def tcb_raise_def Let_def snd_part_def rcv_part_def)

lemma consume_inv:
  assumes "rcv_inv ib R r tcb" "r + n \<le> length R"
  shows "rcv_inv ib R (r + n) (tcp_rxfifo_consume (of_nat n) tcb)"
proof -
  have "rcv_inv ib R (r + n) (tcb\<lparr>rcv_rdptr := rcv_rdptr tcb + of_nat n\<rparr>)"
    using assms ring_holds_mono [of _ _ _ r R "r + n"] by (auto simp: rcv_inv_def)
  then show ?thesis using rcv_inv_cong [OF consume_fields(2)] by simp
qed

lemma read_inv:
  assumes "tcp_stream_read sz require buf tcb = Some (res, buf', tcb')" "rcv_inv ib R r tcb"
  shows "\<exists>n. r + n \<le> length R \<and> buf' = buf @ take n (drop r R) \<and> rcv_inv ib R (r + n) tcb' \<and>
    snd_part tcb' = snd_part tcb \<and> tcb_state tcb' = tcb_state tcb \<and> tcb_fin_received tcb' = tcb_fin_received tcb"
  using assms
proof (induction sz require buf tcb arbitrary: r rule: tcp_stream_read.induct)
  case (1 sz require buf tcb)
  let ?u = "tcb_rxfifo_user_bytes tcb"
  show ?case
  proof (cases "sz = 0 \<or> ?u \<le> 0")
    case True
    then have "tcb' = tcb" "buf' = buf" using 1(2) by (subst (asm) tcp_stream_read.simps; auto simp: Let_def split: if_splits)+
    then show ?thesis using 1(3) by (intro exI [of _ 0]) (auto simp: rcv_inv_def)
  next
    case False
    then have u: "?u = int (length R - r)" using user_bytes [OF 1(3)] by (auto simp: ERR_NOT_CONNECTED_def)
    define c where "c = min sz (nat ?u)"
    obtain d where d: "wtol_memcpy (tcb_rxfifo tcb) (of_nat c) (rcv_rdptr tcb) (tcb_rxfifo_size tcb) = Some d"
      and t: "tcp_stream_read (sz - c) require (buf @ d) (tcp_rxfifo_consume (of_nat c) tcb) = Some (res, buf', tcb')"
      using 1(2) False by (subst (asm) tcp_stream_read.simps) (auto simp: Let_def c_def split: Option.bind_splits)
    have c: "r + c \<le> length R" "c \<le> unat (tcb_rxfifo_size tcb)" using 1(3) u False by (auto simp: rcv_inv_def c_def)
    have dd: "d = take c (drop r R)"
      by (rule ring_read [of "tcb_rxfifo_size tcb" "tcb_rxfifo tcb" ib r]) (use 1(3) c d in \<open>auto simp: rcv_inv_def\<close>)
    let ?t = "tcp_rxfifo_consume (of_nat c) tcb"
    have i: "rcv_inv ib R (r + c) ?t" by (rule consume_inv [OF 1(3) c(1)])
    obtain n where n: "r + c + n \<le> length R" "buf' = (buf @ d) @ take n (drop (r + c) R)" "rcv_inv ib R (r + c + n) tcb'"
      "snd_part tcb' = snd_part ?t" "tcb_state tcb' = tcb_state ?t" "tcb_fin_received tcb' = tcb_fin_received ?t"
      using 1(1) [OF _ refl _ _ refl d [unfolded c_def], of "r + c"] t i False unfolding c_def [symmetric] by auto
    have "tcb_fin_received ?t = tcb_fin_received tcb" using consume_fields(2) [of "of_nat c" tcb] by (simp add: rcv_part_def)
    moreover have "take (c + n) (drop r R) = take c (drop r R) @ take n (drop (r + c) R)" by (simp add: take_add add.commute)
    ultimately show ?thesis using n dd consume_fields by (intro exI [of _ "c + n"]) (simp add: add.assoc)
  qed
qed

lemma rx_copy_inv:
  assumes "tcp_rx_copy fs tcb = Some tcb'" "rcv_inv ib R r tcb" "\<not> tcb_fin_received tcb" "length R + length (concat fs) \<le> r + unat (tcb_rxfifo_size tcb)"
  shows "rcv_inv ib (R @ concat fs) r tcb' \<and> snd_part tcb' = snd_part tcb \<and> tcb_state tcb' = tcb_state tcb \<and> tcb_fin_received tcb' = tcb_fin_received tcb"
  using assms
proof (induction fs tcb arbitrary: R rule: tcp_rx_copy.induct)
  case (2 f fs tcb)
  obtain g where g: "ltow_memcpy (tcb_rxfifo tcb) f (rcv_nxt tcb) (tcb_rxfifo_size tcb) = Some g"
    and t: "tcp_rx_copy fs (tcb\<lparr>tcb_rxfifo := g, rcv_nxt := rcv_nxt tcb + of_nat (length f)\<rparr>) = Some tcb'"
    using 2(2) by (auto split: Option.bind_splits)
  let ?t = "tcb\<lparr>tcb_rxfifo := g, rcv_nxt := rcv_nxt tcb + of_nat (length f)\<rparr>"
  have nx: "rcv_nxt tcb = ib + of_nat (length R)" using 2(3,4) by (simp add: rcv_inv_def)
  have "ring_holds g (tcb_rxfifo_size tcb) ib r (R @ f)"
    by (rule ring_write [OF _ _ _ _ g [unfolded nx]]) (use 2(3,5) in \<open>auto simp: rcv_inv_def\<close>)
  then have "rcv_inv ib (R @ f) r ?t" using 2(3-5) nx by (auto simp: rcv_inv_def)
  then show ?case using 2(1) [OF g t, of "R @ f"] 2(4,5) by (auto simp: snd_part_def)
qed simp

text \<open>The invariant of a connection past the handshake: \<open>q\<close> and \<open>ib\<close> are the first sequence numbers of the two streams.\<close>

definition fin_unsent :: "tcp_state \<Rightarrow> bool" where
  "fin_unsent st \<longleftrightarrow> st \<in> {TCP_STATE_SYN_RECEIVED, TCP_STATE_ESTABLISHED, TCP_STATE_CLOSE_WAIT}"

definition conn_inv :: "u32 \<Rightarrow> u32 \<Rightarrow> bytes \<Rightarrow> bytes \<Rightarrow> nat \<Rightarrow> tcb \<Rightarrow> bool" where
  "conn_inv q ib W R r tcb \<longleftrightarrow> snd_inv tcb W \<and> snd_base tcb = q \<and> rcv_inv ib R r tcb \<and> tcb_state tcb \<noteq> TCP_STATE_SYN_SENT \<and>
     (fin_unsent (tcb_state tcb) \<longrightarrow> tcb_pending_fin tcb = 0)"

text \<open>The states never go back.\<close>

definition state_step :: "tcp_state \<Rightarrow> tcp_state \<Rightarrow> bool" where
  "state_step st st' \<longleftrightarrow> (st \<noteq> TCP_STATE_SYN_SENT \<longrightarrow> st' \<noteq> TCP_STATE_SYN_SENT) \<and> (fin_unsent st' \<longrightarrow> fin_unsent st)"

lemma state_step_refl [simp]: "state_step st st" "state_step st TCP_STATE_CLOSED"
  by (simp_all add: state_step_def fin_unsent_def)

lemma conn_inv_cong:
  "snd_part tcb' = snd_part tcb \<Longrightarrow> rcv_part tcb' = rcv_part tcb \<Longrightarrow> state_step (tcb_state tcb) (tcb_state tcb') \<Longrightarrow> conn_inv q ib W R r tcb \<Longrightarrow> conn_inv q ib W R r tcb'"
  using snd_inv_cong [of tcb' tcb W] rcv_inv_cong [of tcb' tcb ib R r] by (auto simp: conn_inv_def state_step_def snd_part_def snd_base_def)

lemma emit_conn:
  assumes "tcp_emit hp sq ga tcb s = Some (err, tcb', s')" "conn_inv q ib W R r tcb" "sq = snd_nxt tcb \<or> sq = snd_una tcb"
  shows "conn_inv q ib W R r tcb'" "outs (seg_ok q W) s s'" "tcb_state tcb' = tcb_state tcb"
proof -
  have e: "emit_ran W tcb s (tcb', s')" by (rule emit_ran_emit [OF assms(1) _ assms(3)]) (use assms(2) in \<open>simp add: conn_inv_def\<close>)
  then have "rcv_part tcb' = rcv_part tcb" "tcb_state tcb' = tcb_state tcb" "tcb_pending_fin tcb' = tcb_pending_fin tcb" by (auto simp: emit_ran_def emit_frame_def rcv_part_def)
  then show "conn_inv q ib W R r tcb'" "tcb_state tcb' = tcb_state tcb"
    using e assms(2) rcv_inv_cong [of tcb' tcb ib R r] by (auto simp: conn_inv_def emit_ran_def dest: snd_base_frame)
  show "outs (seg_ok q W) s s'" using e assms(2) by (simp add: conn_inv_def emit_ran_def)
qed

lemma payload_inv:
  assumes p: "tcp_input_payload pb tcb s = Some (hp, tcb', s')" and inv: "conn_inv q ib W R r tcb" and f: "\<not> tcb_fin_received tcb \<or> frags_len pb = 0"
  shows "\<exists>d. (d = [] \<or> \<not> tcb_fin_received tcb \<and> d = concat pb) \<and> conn_inv q ib W (R @ d) r tcb' \<and> outs (seg_ok q W) s s' \<and>
    tcb_fin_received tcb' = tcb_fin_received tcb"
proof (cases "tcb_state tcb \<in> {TCP_STATE_ESTABLISHED, TCP_STATE_FIN_WAIT1, TCP_STATE_FIN_WAIT2} \<and> frags_len pb \<noteq> 0 \<and> unat (tcb_rxfifo_avail tcb) \<ge> frags_len pb")
  case False
  then have "tcb' = tcb" "s' = s" using p by (auto simp: tcp_input_payload_def split: if_splits)
  then show ?thesis using inv by (intro exI [of _ "[]"]) simp
next
  case True
  have nf: "\<not> tcb_fin_received tcb" using f True by simp
  obtain t1 where t1: "tcp_rx_copy pb tcb = Some t1" using p True by (auto simp: tcp_input_payload_def split: Option.bind_splits)
  have ri: "rcv_inv ib R r tcb" using inv by (simp add: conn_inv_def)
  have c: "rcv_inv ib (R @ concat pb) r t1" "snd_part t1 = snd_part tcb" "tcb_state t1 = tcb_state tcb" "tcb_fin_received t1 = tcb_fin_received tcb"
    using rx_copy_inv [OF t1 ri nf] rcv_avail [OF ri nf] True by (auto simp: frags_len_concat)
  have i1: "conn_inv q ib W (R @ concat pb) r t1" using c inv snd_inv_cong [OF c(2)] by (auto simp: conn_inv_def snd_part_def snd_base_def)
  define t2 where "t2 = t1\<lparr>tcb_rx_bytes := tcb_rx_bytes t1 + of_nat (frags_len pb), tcb_rx_wakeups := tcb_rx_wakeups t1 + 1,
          rcv_window_closed := sint (tcb_rxfifo_avail t1) < int (unat (rcv_mss t1))\<rparr>"
  have upd: "conn_inv q ib W (R @ concat pb) r (t2\<lparr>tcb_delayed_ack_timer := x\<rparr>)" "tcb_fin_received (t2\<lparr>tcb_delayed_ack_timer := x\<rparr>) = tcb_fin_received tcb"
    "snd_nxt (t2\<lparr>tcb_delayed_ack_timer := x\<rparr>) = snd_nxt t2" for x
    by (rule conn_inv_cong [OF _ _ _ i1]) (use i1 c(4) in \<open>simp_all add: t2_def snd_part_def rcv_part_def conn_inv_def\<close>)
  consider x where "tcb' = t2\<lparr>tcb_delayed_ack_timer := x\<rparr>" "s' = s"
    | e where "tcp_emit True (snd_nxt t2) True (t2\<lparr>tcb_delayed_ack_timer := 0\<rparr>) s = Some (e, tcb', s')"
    using p True t1 unfolding tcp_input_payload_def by (auto simp: Let_def t2_def split: if_splits Option.bind_splits)
  then have "conn_inv q ib W (R @ concat pb) r tcb' \<and> outs (seg_ok q W) s s' \<and> tcb_fin_received tcb' = tcb_fin_received tcb"
  proof cases
    case 1
    then show ?thesis using upd by simp
  next
    case 2
    have "emit_ran W (t2\<lparr>tcb_delayed_ack_timer := 0\<rparr>) s (tcb', s')" by (rule emit_ran_emit [OF 2]) (use upd(1) [of 0] in \<open>simp_all add: conn_inv_def\<close>)
    then have "tcb_fin_received tcb' = tcb_fin_received tcb" using upd(2) [of 0] by (auto simp: emit_ran_def emit_frame_def)
    then show ?thesis using emit_conn [OF 2 upd(1)] by simp
  qed
  then show ?thesis using nf by blast
qed

lemma fin_inv:
  assumes f: "tcp_input_fin now h hp tcb s = Some (hp', tcb', s')" and inv: "conn_inv q ib W R r tcb" and nf: "has (th_flg h) TCP_F_FIN \<Longrightarrow> \<not> tcb_fin_received tcb"
  shows "conn_inv q ib W R r tcb'" "outs (seg_ok q W) s s'"
proof -
  have "conn_inv q ib W R r tcb' \<and> outs (seg_ok q W) s s'"
  proof (cases "has (th_flg h) TCP_F_FIN \<and> tcb_state tcb \<notin> {TCP_STATE_CLOSED, TCP_STATE_LISTEN, TCP_STATE_SYN_SENT}")
    case False
    then have "tcb' = tcb" "s' = s" using f by (auto simp: tcp_input_fin_def split: if_splits)
    then show ?thesis using inv by simp
  next
    case True
    define t1 where "t1 = tcb\<lparr>tcb_fin_received := True, tcb_rx_wakeups := tcb_rx_wakeups tcb + 1, rcv_nxt := rcv_nxt tcb + 1\<rparr>"
    have "rcv_inv ib R r t1" using inv nf True by (auto simp: t1_def conn_inv_def rcv_inv_def)
    moreover have "snd_part t1 = snd_part tcb" by (simp add: t1_def snd_part_def)
    ultimately have i1: "conn_inv q ib W R r t1"
      using inv snd_inv_cong [of t1 tcb W] by (auto simp: conn_inv_def t1_def snd_base_def)
    obtain e t2 where em: "tcp_emit hp (snd_nxt t1) True t1 s = Some (e, t2, s')"
      and t': "tcb' = (case tcb_state t2 of
            TCP_STATE_SYN_RECEIVED \<Rightarrow> tcp_set_state TCP_STATE_CLOSE_WAIT t2
          | TCP_STATE_ESTABLISHED \<Rightarrow> tcp_set_state TCP_STATE_CLOSE_WAIT t2
          | TCP_STATE_FIN_WAIT1 \<Rightarrow> if th_ack h = snd_nxt t2 then tcp_time_wait now t2 else tcp_set_state TCP_STATE_CLOSING t2
          | TCP_STATE_FIN_WAIT2 \<Rightarrow> tcp_time_wait now t2
          | _ \<Rightarrow> t2)"
      using f True unfolding tcp_input_fin_def by (auto simp: Let_def t1_def split: Option.bind_splits)
    note e2 = emit_conn [OF em i1]
    have "conn_inv q ib W R r tcb'"
      by (rule conn_inv_cong [OF _ _ _ e2(1)])
        (auto simp: t' snd_part_def rcv_part_def state_step_def fin_unsent_def tcp_set_state_def tcp_time_wait_def tcp_disarm_all_timers_def split: tcp_state.splits)
    then show ?thesis using e2(2) by simp
  qed
  then show "conn_inv q ib W R r tcb'" "outs (seg_ok q W) s s'" by auto
qed

section \<open>Segments that arrive\<close>

lemma frags_drop_concat: "concat (frags_drop n pb) = drop n (concat pb)"
proof (induction n pb rule: frags_drop.induct)
  case (2 n f fs)
  then show ?case by (cases fs) auto
qed simp

lemma frags_pullup_concat:
  assumes "frags_pullup n pb = Some pb'"
  shows "concat pb' = concat pb" "n \<le> length (hd pb')" "pb' \<noteq> []"
proof -
  obtain f fs where pb: "pb = f # fs" using assms by (auto simp: frags_pullup_def split: list.splits)
  show "concat pb' = concat pb" "n \<le> length (hd pb')" "pb' \<noteq> []"
    using assms append_take_drop_id [of n "concat pb"] by (auto simp: pb frags_pullup_def frags_drop_concat frags_len_concat split: if_splits)
qed

lemma tcp_header_concat:
  assumes "pb \<noteq> []" "20 \<le> length (hd pb)"
  shows "tcp_header pb = tcp_header [concat pb]"
proof -
  have g: "get8 pb i = get8 [concat pb] i" if "i < 20" for i
    using assms that by (cases pb) (auto simp: get8_def buf_rd_def nth_append)
  have l: "frags_len [concat pb] = frags_len pb" by (simp add: frags_len_def length_concat)
  show ?thesis unfolding tcp_header_def l by (simp add: get16_def get32_def g del: get8_single)
qed

text \<open>A header whose length field tells what follows it.\<close>

lemma seg_len_zero:
  assumes "tcp_header pb = Some (Some h)" "frags_len pb < 2147483648" "th_seg_len h = 0"
  shows "frags_len pb - th_hdr_len h = 0" "\<not> has (th_flg h) TCP_F_FIN" "\<not> has (th_flg h) TCP_F_SYN"
proof -
  define n where "n = frags_len pb - th_hdr_len h + ((if has (th_flg h) TCP_F_SYN then 1 else 0) + (if has (th_flg h) TCP_F_FIN then 1 else 0))"
  have "th_seg_len h = of_nat n" using assms(1) by (auto simp: tcp_header_def n_def Let_def split: if_splits Option.bind_splits)
  moreover have "n < 4294967296" using assms(2) by (auto simp: n_def)
  ultimately have "n = 0" using assms(3) unat_of_nat [of n, where 'a = 32] by simp
  then show "frags_len pb - th_hdr_len h = 0" "\<not> has (th_flg h) TCP_F_FIN" "\<not> has (th_flg h) TCP_F_SYN" by (auto simp: n_def split: if_splits)
qed

lemma reply_outs:
  assumes "tcp_reply ni h ra sq ack flag wnd s = Some (b, s')"
  shows "outs (seg_ok q W) s s'"
proof -
  define x where "x = le16 (th_dst_port h) @ le16 (th_src_port h) @ le32 (htonl sq) @ le32 (htonl ack) @ [0x50, flag] @
               le16 (htons (ucast (min wnd 65535))) @ [0, 0, 0, 0 :: u8]"
  have x: "length x = 20" "x ! 12 = 0x50" by (simp_all add: x_def nth_append le16_def le32_def)
  obtain r where o: "tcp_output [x] (ni_ipv4_local_addr ni) ra s = Some (r, s')"
    using assms by (auto simp: tcp_reply_def Let_def x_def split: Option.bind_splits)
  have "sends (seg_ok q W) s s'"
  proof (rule sends_mono [OF tcp_output_sends [OF o]])
    fix bs assume st: "same_tcp (concat [x]) bs"
    have "seg_data bs = Some (seq_of x, drop 20 x)" by (rule same_tcp_data) (use st x hdr_len_bits in simp_all)
    then show "seg_ok q W bs" using x by (simp add: seg_ok_def)
  qed
  then show ?thesis using tcp_output_more [OF o] by (simp add: outs_def)
qed

text \<open>A connection at an address of the memory, if it still is there.\<close>

definition conn_at :: "nat \<Rightarrow> (tcb \<Rightarrow> bool) \<Rightarrow> tcp \<Rightarrow> bool" where
  "conn_at a P w \<longleftrightarrow> (\<forall>tcb. tcb_mem w a = Some tcb \<longrightarrow> P tcb)"

lemma outs_world: "outs P w w' \<Longrightarrow> tcb_mem w' = tcb_mem w \<and> tcbs w' = tcbs w \<and> clock w' = clock (w :: tcp)"
  by (cases w; cases w') (simp add: outs_def)

lemma put_tcb_simps [simp]: "tcb_mem (put_tcb a tcb w) a = Some tcb" "ip_sent (put_tcb a tcb w) = ip_sent w" "tcbs (put_tcb a tcb w) = tcbs w" "clock (put_tcb a tcb w) = clock w"
  by (simp_all add: put_tcb_def)

lemma sends_put [simp]: "sends P (put_tcb a tcb w) w' = sends P w w'" "sends P w (put_tcb a tcb w') = sends P w w'"
  by (simp_all add: sends_def)

definition conn_step_ok :: "nat \<Rightarrow> u32 \<Rightarrow> u32 \<Rightarrow> bytes \<Rightarrow> bytes \<Rightarrow> nat \<Rightarrow> tcp \<Rightarrow> tcp \<Rightarrow> bool" where
  "conn_step_ok a q ib W R r w w' \<longleftrightarrow> sends (seg_ok q W) w w' \<and> conn_at a (conn_inv q ib W R r) w'"

lemma step_put: "conn_inv q ib W R r tcb \<Longrightarrow> sends (seg_ok q W) w w' \<Longrightarrow> conn_step_ok a q ib W R r w (put_tcb a tcb w')"
  by (simp add: conn_step_ok_def conn_at_def)

lemma step_outs: "outs (seg_ok q W) w1 w' \<Longrightarrow> conn_step_ok a q ib W R r w w1 \<Longrightarrow> conn_step_ok a q ib W R r w w'"
  using sends_trans [of "seg_ok q W" w w1 w'] outs_world [of "seg_ok q W" w1 w'] by (simp add: conn_step_ok_def conn_at_def outs_def)

lemma close_ok:
  assumes "tcp_close a w = Some w'" "conn_step_ok a q ib W R r w0 w"
  shows "conn_step_ok a q ib W R r w0 w'"
proof -
  obtain tcb where m: "tcb_mem w a = Some tcb" using assms(1) by (auto simp: tcp_close_def split: Option.bind_splits)
  have i: "conn_inv q ib W R r tcb" using assms(2) m by (simp add: conn_step_ok_def conn_at_def)
  have sent: "ip_sent w' = ip_sent w" using assms(1) by (auto simp: tcp_close_def tcp_destroy_def Let_def m split: if_splits)
  have "conn_at a (conn_inv q ib W R r) w'"
    unfolding conn_at_def
  proof (intro allI impI)
    fix tcb' assume m': "tcb_mem w' a = Some tcb'"
    have "snd_part tcb' = snd_part tcb \<and> rcv_part tcb' = rcv_part tcb \<and> state_step (tcb_state tcb) (tcb_state tcb')"
      using assms(1) m' by (auto simp: tcp_close_def tcp_destroy_def Let_def m tcp_set_state_def tcp_disarm_all_timers_def snd_part_def rcv_part_def split: if_splits)
    then show "conn_inv q ib W R r tcb'" using conn_inv_cong i by blast
  qed
  then show ?thesis using assms(2) sent by (simp add: conn_step_ok_def sends_def)
qed


text \<open>A segment of an existing connection adds at most its own data, and only at the place where it belongs.\<close>

lemma fin_acked_fields: "snd_part (tcp_input_fin_acked h nxt tcb) = snd_part tcb" "rcv_part (tcp_input_fin_acked h nxt tcb) = rcv_part tcb"
  "state_step (tcb_state tcb) (tcb_state (tcp_input_fin_acked h nxt tcb))"
  by (simp_all add: state_step_def fin_unsent_def tcp_input_fin_acked_def tcp_set_state_def snd_part_def rcv_part_def split: tcp_state.splits)

text \<open>After the acknowledgement the connection, if it is still there, has the same receiving half.\<close>

lemma synchronized_acked:
  assumes t: "tcp_input_synchronized ni h pb ra wnd nxt a tcb w = Some (b, w')" and inv: "conn_inv q ib W R r tcb"
  obtains rp w1 t1 where "tcb_mem w1 a = Some t1" "conn_inv q ib W R r t1" "rcv_part t1 = rcv_part tcb" "ip_sent w1 = ip_sent w"
    "(if rp then tcp_reply ni h ra (snd_nxt t1) (rcv_nxt t1) TCP_F_ACK wnd w1
     else do { (hp, tcb, w) \<leftarrow> tcp_input_payload (frags_drop (th_hdr_len h) pb) t1 w1;
       (hp, tcb, w) \<leftarrow> tcp_input_fin (clock w) h hp tcb w; Some (hp, put_tcb a tcb w) }) = Some (b, w')"
proof -
  have si: "snd_inv tcb W" using inv by (simp add: conn_inv_def)
  consider (ack) "tcb_state tcb \<in> {TCP_STATE_ESTABLISHED, TCP_STATE_FIN_WAIT1, TCP_STATE_FIN_WAIT2, TCP_STATE_CLOSE_WAIT, TCP_STATE_CLOSING}"
    | (last) "tcb_state tcb = TCP_STATE_LAST_ACK"
    | (other) "tcb_state tcb \<notin> {TCP_STATE_ESTABLISHED, TCP_STATE_FIN_WAIT1, TCP_STATE_FIN_WAIT2, TCP_STATE_CLOSE_WAIT, TCP_STATE_CLOSING, TCP_STATE_LAST_ACK}"
    by blast
  then show ?thesis
  proof cases
    case ack
    obtain rp t0 where k: "tcp_input_acked h tcb = (rp, t0)" by fastforce
    define t1 where "t1 = (if rp then t0 else tcp_input_fin_acked h nxt t0)"
    note ai = acked_inv [OF k si]
    have i0: "conn_inv q ib W R r t0" using ai inv rcv_inv_cong [OF ai(2)] by (auto simp: conn_inv_def snd_base_def)
    have i1: "conn_inv q ib W R r t1" using i0 conn_inv_cong [OF fin_acked_fields i0] by (auto simp: t1_def)
    show ?thesis
      by (rule that [of "put_tcb a t1 w" t1 rp]) (use i1 ai(2) t ack in \<open>auto simp: t1_def fin_acked_fields tcp_input_synchronized_def k\<close>)
  next
    case last
    obtain w1 t1 where c: "tcp_close a (put_tcb a tcb w) = Some w1" "tcb_mem w1 a = Some t1"
      using t last by (auto simp: tcp_input_synchronized_def split: Option.bind_splits)
    have "snd_part t1 = snd_part tcb" "rcv_part t1 = rcv_part tcb" "state_step (tcb_state tcb) (tcb_state t1)" "ip_sent w1 = ip_sent w"
      using c by (auto simp: tcp_close_def tcp_destroy_def Let_def tcp_set_state_def tcp_disarm_all_timers_def snd_part_def rcv_part_def split: if_splits)
    then show ?thesis
      by (intro that [of w1 t1 False]) (use c t last conn_inv_cong [OF _ _ _ inv] in \<open>auto simp: tcp_input_synchronized_def\<close>)
  next
    case other
    show ?thesis by (rule that [of "put_tcb a tcb w" tcb False]) (use other inv t in \<open>auto simp: tcp_input_synchronized_def\<close>)
  qed
qed

lemma synchronized_ok:
  assumes t: "tcp_input_synchronized ni h pb ra wnd nxt a tcb w = Some (b, w')" and inv: "conn_inv q ib W R r tcb"
    and hd: "tcp_header pb = Some (Some h)" "frags_len pb < 2147483648" and fin: "tcb_fin_received tcb \<Longrightarrow> th_seg_len h = 0"
  shows "\<exists>d. (d = [] \<or> \<not> tcb_fin_received tcb \<and> d = drop (th_hdr_len h) (concat pb)) \<and> conn_step_ok a q ib W (R @ d) r w w'"
proof -
  obtain rp w1 t1 where c: "tcb_mem w1 a = Some t1" "conn_inv q ib W R r t1" "rcv_part t1 = rcv_part tcb" "ip_sent w1 = ip_sent w"
    "(if rp then tcp_reply ni h ra (snd_nxt t1) (rcv_nxt t1) TCP_F_ACK wnd w1
     else do { (hp, tcb, w) \<leftarrow> tcp_input_payload (frags_drop (th_hdr_len h) pb) t1 w1;
       (hp, tcb, w) \<leftarrow> tcp_input_fin (clock w) h hp tcb w; Some (hp, put_tcb a tcb w) }) = Some (b, w')"
    by (rule synchronized_acked [OF t inv])
  have fr: "tcb_fin_received t1 = tcb_fin_received tcb" using c(3) by (simp add: rcv_part_def)
  have s1: "conn_step_ok a q ib W R r w w1" using c(1,2,4) by (simp add: conn_step_ok_def conn_at_def)
  show ?thesis
  proof (cases rp)
    case True
    then have "conn_step_ok a q ib W R r w w'" using c(5) step_outs [OF reply_outs s1] by auto
    then show ?thesis by (intro exI [of _ "[]"]) simp
  next
    case False
    obtain hp t2 w2 where p: "tcp_input_payload (frags_drop (th_hdr_len h) pb) t1 w1 = Some (hp, t2, w2)"
      using c(5) False by (cases "tcp_input_payload (frags_drop (th_hdr_len h) pb) t1 w1") auto
    obtain hp' t3 w3 where f: "tcp_input_fin (clock w2) h hp t2 w2 = Some (hp', t3, w3)" and w': "w' = put_tcb a t3 w3"
      using c(5) False p by (cases "tcp_input_fin (clock w2) h hp t2 w2") auto
    have z: "frags_len (frags_drop (th_hdr_len h) pb) = 0 \<and> \<not> has (th_flg h) TCP_F_FIN" if "tcb_fin_received tcb"
      using seg_len_zero [OF hd fin [OF that]] by (simp add: frags_len_concat frags_drop_concat)
    obtain d where d: "d = [] \<or> \<not> tcb_fin_received t1 \<and> d = concat (frags_drop (th_hdr_len h) pb)" "conn_inv q ib W (R @ d) r t2" "outs (seg_ok q W) w1 w2"
      "tcb_fin_received t2 = tcb_fin_received t1"
    proof -
      have "\<not> tcb_fin_received t1 \<or> frags_len (frags_drop (th_hdr_len h) pb) = 0" using z fr by auto
      from payload_inv [OF p c(2) this] show thesis using that by blast
    qed
    have "has (th_flg h) TCP_F_FIN \<Longrightarrow> \<not> tcb_fin_received t2" using d(4) fr z by auto
    note fi = fin_inv [OF f d(2) this]
    have "sends (seg_ok q W) w w3" using outs_trans [OF d(3) fi(2)] c(4) by (simp add: outs_def sends_def)
    then have "conn_step_ok a q ib W (R @ d) r w w'" unfolding w' using step_put [OF fi(1)] by blast
    then show ?thesis using d(1) fr by (auto simp: frags_drop_concat)
  qed
qed

lemma input_tcb_ok:
  assumes t: "tcp_input_tcb ni h pb ra a tcb w = Some (b, w')" and m: "tcb_mem w a = Some tcb" and inv: "conn_inv q ib W R r tcb"
    and hd: "tcp_header pb = Some (Some h)" "frags_len pb < 2147483648" and fin: "tcb_fin_received tcb \<Longrightarrow> th_seg_len h = 0 \<or> th_seq h \<noteq> rcv_nxt tcb"
  shows "\<exists>d. (d = [] \<or> \<not> tcb_fin_received tcb \<and> th_seq h = rcv_nxt tcb \<and> d = drop (th_hdr_len h) (concat pb)) \<and> conn_step_ok a q ib W (R @ d) r w w'"
proof -
  have same: "conn_step_ok a q ib W R r w (put_tcb a tcb' (put_tcb a t0 w))" "conn_step_ok a q ib W R r w (put_tcb a tcb' w)"
    if "snd_part tcb' = snd_part tcb" "rcv_part tcb' = rcv_part tcb" "tcb_state tcb' = tcb_state tcb" for tcb' t0
    using step_put [OF conn_inv_cong [OF that(1,2) _ inv]] that(3) by simp_all
  have here: "conn_step_ok a q ib W R r w w" using m inv by (simp add: conn_step_ok_def conn_at_def)
  have nil: ?thesis if "conn_step_ok a q ib W R r w w'" using that by (intro exI [of _ "[]"]) simp
  have rp: "conn_step_ok a q ib W R r w w'"
    if "tcp_reply ni h ra x y f wnd w1 = Some (b, w')" "conn_step_ok a q ib W R r w w1" for x y f wnd w1
    by (rule step_outs [OF reply_outs [OF that(1)] that(2)])
  let ?t0 = "tcb\<lparr>fast_reject_limiter := 0\<rparr>"
  let ?t1 = "?t0\<lparr>tcb_last_rx := clock w\<rparr>"
  let ?t2 = "if tcb_state tcb = TCP_STATE_SYN_RECEIVED then (tcp_set_state TCP_STATE_ESTABLISHED (?t1\<lparr>tcb_timo := TCP_TIMEOUT_INTERVAL * 1000\<rparr>))
      \<lparr>snd_wnd := push_bit (tcb_snd_wnd_shift ?t1) (ucast (th_wnd h)), snd_wl1 := th_seq h, snd_wl2 := th_ack h\<rparr> else ?t1"
  have s0: "conn_step_ok a q ib W R r w (put_tcb a ?t0 w)" "conn_step_ok a q ib W R r w (put_tcb a ?t1 (put_tcb a ?t0 w))"
    "conn_step_ok a q ib W R r w (put_tcb a (tcb\<lparr>fast_reject_limiter := fast_reject_limiter tcb + 1\<rparr>) w)"
    by (rule same; simp add: snd_part_def rcv_part_def)+
  consider (fini) "conn_step_ok a q ib W R r w w'"
    | (sync) "tcp_acceptable h tcb" "tcp_input_synchronized ni h pb ra (tcb_rxfifo_avail tcb) (snd_nxt tcb) a ?t2 (put_tcb a ?t0 w) = Some (b, w')"
  proof (cases "tcp_acceptable h tcb")
    case False
    then show ?thesis using t s0 here rp that(1) by (auto simp: tcp_input_tcb_def Let_def split: if_splits)
  next
    case True
    note u = t [unfolded tcp_input_tcb_def Let_def, simplified True]
    consider (rst) "tcp_close a (put_tcb a ?t0 w) = Some w'" | (reply) x y f w1 where "tcp_reply ni h ra x y f 0 w1 = Some (b, w')" "conn_step_ok a q ib W R r w w1"
      | "w' = put_tcb a ?t0 w" | "tcp_input_synchronized ni h pb ra (tcb_rxfifo_avail tcb) (snd_nxt tcb) a ?t2 (put_tcb a ?t0 w) = Some (b, w')"
      using u s0 by (simp split: if_splits Option.bind_splits)
    then show ?thesis
    proof cases
      case rst then show ?thesis using close_ok s0(1) that(1) by blast
    next
      case reply then show ?thesis using rp that(1) by blast
    qed (use that True s0 in blast)+
  qed
  then show ?thesis
  proof cases
    case fini then show ?thesis by (rule nil)
  next
    case sync
    have acc: "th_seg_len h = 0 \<or> th_seq h = rcv_nxt tcb" using sync(1) by (auto simp: tcp_acceptable_def Let_def split: if_splits)
    have p: "snd_part ?t2 = snd_part tcb" "rcv_part ?t2 = rcv_part tcb" "state_step (tcb_state tcb) (tcb_state ?t2)"
      by (simp_all add: state_step_def fin_unsent_def tcp_set_state_def snd_part_def rcv_part_def)
    have fr: "tcb_fin_received ?t2 = tcb_fin_received tcb" using p(2) by (simp only: rcv_part_def prod.inject)
    obtain d where d: "d = [] \<or> \<not> tcb_fin_received tcb \<and> d = drop (th_hdr_len h) (concat pb)" "conn_step_ok a q ib W (R @ d) r (put_tcb a ?t0 w) w'"
      using synchronized_ok [OF sync(2) conn_inv_cong [OF p inv] hd] fin acc unfolding fr by blast
    have "d \<noteq> [] \<Longrightarrow> th_seg_len h \<noteq> 0" using seg_len_zero(1) [OF hd] d(1) by (auto simp: frags_len_concat)
    then show ?thesis using d acc by (auto simp: conn_step_ok_def)
  qed
qed

text \<open>The whole input path. \<open>seg_hdr\<close> is the header that the packet has behind its IP header.\<close>

definition seg_hdr :: "pkt \<Rightarrow> nat \<Rightarrow> tcp_hdr option" where
  "seg_hdr pb off = (case tcp_header [drop off (concat pb)] of Some (Some h) \<Rightarrow> Some h | _ \<Rightarrow> None)"

definition seg_text :: "pkt \<Rightarrow> nat \<Rightarrow> bytes" where
  "seg_text pb off = (case seg_hdr pb off of Some h \<Rightarrow> drop (th_hdr_len h) (drop off (concat pb)) | None \<Rightarrow> [])"

lemma seg_data_text: "seg_hdr pb 20 = Some h \<Longrightarrow> seg_data (concat pb) = Some (th_seq h, seg_text pb 20)"
  by (auto simp: seg_hdr_def seg_text_def seg_data_def add.commute split: option.splits)

lemma input_ok:
  assumes t: "tcp_input_ipv4 svc ni pb off w = Some (b, w')" and h: "seg_hdr pb off = Some h" and l: "length (concat pb) < 2147483648"
    and f: "get32 pb 12 = Some ra" "tcb_find ra (th_src_port h) (th_dst_port h) w = Some (Some a)"
    and m: "tcb_mem w a = Some tcb" and inv: "conn_inv q ib W R r tcb" and fin: "tcb_fin_received tcb \<Longrightarrow> th_seg_len h = 0 \<or> th_seq h \<noteq> rcv_nxt tcb"
  shows "\<exists>d. (d = [] \<or> \<not> tcb_fin_received tcb \<and> th_seq h = rcv_nxt tcb \<and> d = seg_text pb off) \<and> conn_step_ok a q ib W (R @ d) r w w'"
proof -
  have nss: "tcb_state tcb \<noteq> TCP_STATE_SYN_SENT" using inv by (simp add: conn_inv_def)
  consider "w' = w" | p where "frags_pullup 20 (frags_drop off pb) = Some p" "tcp_header p = Some (Some h)" "tcp_input_tcb ni h p ra a tcb w = Some (b, w')"
  proof (cases "frags_pullup 20 (frags_drop off pb)")
    case None
    then show ?thesis using t that(1) by (auto simp: tcp_input_ipv4_def split: if_splits Option.bind_splits)
  next
    case (Some p)
    note pc = frags_pullup_concat [OF Some]
    have "tcp_header p = tcp_header [drop off (concat pb)]" using tcp_header_concat [OF pc(3,2)] pc(1) by (simp add: frags_drop_concat)
    then have th: "tcp_header p = Some (Some h)" using h by (auto simp: seg_hdr_def split: option.splits)
    then show ?thesis using t that Some f m nss by (auto simp: tcp_input_ipv4_def split: if_splits Option.bind_splits)
  qed
  then show ?thesis
  proof cases
    case 1
    then show ?thesis using m inv by (intro exI [of _ "[]"]) (auto simp: conn_step_ok_def conn_at_def)
  next
    case 2
    have c: "concat p = drop off (concat pb)" using frags_pullup_concat(1) [OF 2(1)] by (simp add: frags_drop_concat)
    have "frags_len p < 2147483648" using l c by (simp add: frags_len_concat)
    then show ?thesis using input_tcb_ok [OF 2(3) m inv 2(2) _ fin] c h by (simp add: seg_text_def)
  qed
qed

section \<open>The network task and the timers\<close>

lemma send_fin_conn:
  assumes s: "tcp_send_fin now (TCP_F_FIN OR TCP_F_ACK) (tcp_set_state st tcb) s = Some (tcb', s')" and inv: "conn_inv q ib W R r tcb"
    and st: "fin_unsent (tcb_state tcb)" "\<not> fin_unsent st" "st \<noteq> TCP_STATE_SYN_SENT"
  shows "conn_inv q ib W R r tcb'" "outs (seg_ok q W) s s'"
proof -
  let ?t = "tcp_set_state st tcb"
  have p: "snd_part ?t = snd_part tcb" "rcv_part ?t = rcv_part tcb" "tcb_state ?t = st" by (auto simp: tcp_set_state_def snd_part_def rcv_part_def)
  have i: "conn_inv q ib W R r ?t" by (rule conn_inv_cong [OF p(1,2) _ inv]) (use st p(3) in \<open>simp add: state_step_def\<close>)
  have f: "tcb_pending_fin ?t = 0" using p(1) inv st(1) by (simp add: snd_part_def conn_inv_def)
  note sf = send_fin_inv [OF s _ f, of W]
  have fl: "TCP_F_FIN OR TCP_F_ACK \<noteq> 0" "\<not> has (TCP_F_FIN OR TCP_F_ACK) TCP_F_SYN"
    by (simp_all add: TCP_F_FIN_def TCP_F_ACK_def TCP_F_SYN_def has_def)
  have si: "snd_inv ?t W" "snd_base ?t = q" using i by (auto simp: conn_inv_def)
  show "conn_inv q ib W R r tcb'"
    using sf(1,2) [OF si(1) fl] i p(3) st(2,3) rcv_inv_cong [of tcb' ?t ib R r] by (auto simp: conn_inv_def same_but_tx_def snd_base_def)
  show "outs (seg_ok q W) s s'" using sf(3) [OF si(1) fl] si(2) by simp
qed

lemma emit_loop_conn:
  assumes "tcp_emit_loop force tcb s = Some (tcb', s')" "conn_inv q ib W R r tcb"
  shows "conn_inv q ib W R r tcb'" "outs (seg_ok q W) s s'"
proof -
  have e: "emit_ran W tcb s (tcb', s')" by (rule emit_loop_ok [OF assms(1)]) (use assms(2) in \<open>simp add: conn_inv_def\<close>)
  then have "rcv_part tcb' = rcv_part tcb" "tcb_state tcb' = tcb_state tcb" "tcb_pending_fin tcb' = tcb_pending_fin tcb"
    by (auto simp: emit_ran_def emit_frame_def rcv_part_def)
  then show "conn_inv q ib W R r tcb'"
    using e assms(2) rcv_inv_cong [of tcb' tcb ib R r] by (auto simp: conn_inv_def emit_ran_def dest: snd_base_frame)
  show "outs (seg_ok q W) s s'" using e assms(2) by (simp add: conn_inv_def emit_ran_def)
qed

lemma destroy_ok:
  assumes "tcp_destroy a w = Some w'" "conn_step_ok a q ib W R r w0 w"
  shows "conn_step_ok a q ib W R r w0 w'"
  using assms by (auto simp: tcp_destroy_def conn_step_ok_def conn_at_def sends_def split: Option.bind_splits if_splits)

lemma task_wnd_open_ok:
  "tcp_task_wnd_open tcb w = Some (tcb', w') \<Longrightarrow> conn_inv q ib W R r tcb \<Longrightarrow> conn_inv q ib W R r tcb' \<and> outs (seg_ok q W) w w'"
  using emit_conn [of False "snd_nxt tcb" True tcb w _ tcb' w'] by (auto simp: tcp_task_wnd_open_def split: if_splits Option.bind_splits)

lemma task_emit_ok:
  assumes "tcp_task_emit force tcb w = Some (tcb', w')" "conn_inv q ib W R r tcb"
  shows "conn_inv q ib W R r tcb' \<and> outs (seg_ok q W) w w'"
proof -
  let ?t = "if snd_una tcb = snd_nxt tcb then tcb\<lparr>tcb_rtx_timer := clock w + ms_to_us (tcb_rto tcb)\<rparr> else tcb"
  have i: "conn_inv q ib W R r ?t" by (rule conn_inv_cong [OF _ _ _ assms(2)]) (simp_all add: snd_part_def rcv_part_def)
  consider "tcb' = tcb" "w' = w" | "tcp_emit_loop force ?t w = Some (tcb', w')" 
    using assms(1) unfolding tcp_task_emit_def by (metis option.inject prod.inject)
  then show ?thesis
  proof cases
    case 2
    then show ?thesis using emit_loop_conn [OF 2 i] by simp
  qed (use assms(2) in simp)
qed

lemma task_close_ok:
  assumes t: "tcp_task_close a tcb w = Some w'" and inv: "conn_inv q ib W R r tcb"
  shows "conn_step_ok a q ib W R r w w'"
proof -
  let ?t = "tcb\<lparr>tcb_app_closed := True\<rparr>"
  have i: "conn_inv q ib W R r ?t" by (rule conn_inv_cong [OF _ _ _ inv]) (simp_all add: snd_part_def rcv_part_def)
  obtain t1 w1 where c: "(t1, w1) = (?t, w) \<or> (\<exists>st. fin_unsent (tcb_state tcb) \<and> \<not> fin_unsent st \<and> st \<noteq> TCP_STATE_SYN_SENT \<and>
        tcp_send_fin (clock w) (TCP_F_FIN OR TCP_F_ACK) (tcp_set_state st ?t) w = Some (t1, w1))"
    and d: "tcp_destroy a (put_tcb a t1 w1) = Some w'"
    using t by (auto simp: tcp_task_close_def Let_def fin_unsent_def split: tcp_state.splits Option.bind_splits)
  have "conn_inv q ib W R r t1 \<and> outs (seg_ok q W) w w1" using c
  proof (elim disjE exE conjE)
    fix st assume "fin_unsent (tcb_state tcb)" "\<not> fin_unsent st" "st \<noteq> TCP_STATE_SYN_SENT"
      "tcp_send_fin (clock w) (TCP_F_FIN OR TCP_F_ACK) (tcp_set_state st ?t) w = Some (t1, w1)"
    then show ?thesis using send_fin_conn [OF _ i, of "clock w" st w t1 w1] by simp
  qed (use i in simp)
  then have "conn_step_ok a q ib W R r w (put_tcb a t1 w1)" using step_put by (auto simp: outs_def)
  then show ?thesis using destroy_ok [OF d] by blast
qed

lemma task_ok:
  assumes t: "tcp_task_cb a signals w = Some w'" and m: "tcb_mem w a = Some tcb" and inv: "conn_inv q ib W R r tcb" and nc: "signals AND TCP_EVENT_CONNECT = 0"
  shows "conn_step_ok a q ib W R r w w'"
proof -
  obtain t1 w1 where o1: "(if signals AND TCP_EVENT_WND_OPEN \<noteq> 0 then tcp_task_wnd_open tcb w else Some (tcb, w)) = Some (t1, w1)"
    using t nc m by (auto simp: tcp_task_cb_def split: Option.bind_splits)
  obtain t2 w2 where o2: "(if signals AND (TCP_EVENT_EMIT OR TCP_EVENT_FLUSH) \<noteq> 0 then tcp_task_emit (signals AND TCP_EVENT_FLUSH \<noteq> 0) t1 w1
       else Some (t1, w1)) = Some (t2, w2)"
    and c: "(if signals AND TCP_EVENT_CLOSE \<noteq> 0 then tcp_task_close a t2 w2 else Some (put_tcb a t2 w2)) = Some w'"
    using t nc m o1 unfolding tcp_task_cb_def by (auto split: Option.bind_splits)
  have i1: "conn_inv q ib W R r t1" "outs (seg_ok q W) w w1" using o1 inv task_wnd_open_ok [of tcb w t1 w1 q ib W R r] by (auto split: if_splits)
  have i2: "conn_inv q ib W R r t2" "outs (seg_ok q W) w1 w2" using o2 i1(1) task_emit_ok [of "signals AND TCP_EVENT_FLUSH \<noteq> 0" t1 w1 t2 w2 q ib W R r] by (auto split: if_splits)
  have s: "sends (seg_ok q W) w w2" using outs_trans [OF i1(2) i2(2)] by (simp add: outs_def)
  show ?thesis
  proof (cases "signals AND TCP_EVENT_CLOSE \<noteq> 0")
    case True
    then have "conn_step_ok a q ib W R r w2 w'" using c task_close_ok [OF _ i2(1)] by simp
    then show ?thesis using sends_trans [OF s] by (auto simp: conn_step_ok_def)
  next
    case False
    then show ?thesis using c step_put [OF i2(1) s] by auto
  qed
qed

lemma delayed_ack_ok:
  assumes "tcp_delayed_ack_cb a w = Some w'" "tcb_mem w a = Some tcb" "conn_inv q ib W R r tcb"
  shows "conn_step_ok a q ib W R r w w'"
proof -
  obtain e t1 w1 where em: "tcp_emit False (snd_nxt tcb) True tcb w = Some (e, t1, w1)" and w': "w' = put_tcb a t1 w1"
    using assms(1,2) by (auto simp: tcp_delayed_ack_cb_def split: Option.bind_splits)
  show ?thesis unfolding w' using step_put emit_conn [OF em assms(3)] by (auto simp: outs_def)
qed

lemma rtx_ok:
  assumes t: "tcp_rtx_cb a now w = Some w'" and m: "tcb_mem w a = Some tcb" and inv: "conn_inv q ib W R r tcb"
  shows "conn_step_ok a q ib W R r w w'"
proof (cases "now > tcb_last_rx tcb + ucast (tcb_timo tcb)")
  case True
  have "conn_step_ok a q ib W R r w w" using m inv by (simp add: conn_step_ok_def conn_at_def)
  then show ?thesis using t m True close_ok [of a w w'] by (simp add: tcp_rtx_cb_def)
next
  case False
  obtain t1 w1 where w': "w' = put_tcb a (arm_rtx t1 now) w1" and c:
    "(t1, w1) = (tcb, w) \<or> (\<exists>w0. t1 = tcb \<and> pbuf_ans w = (False, w0) \<and> w1 = w0) \<or>
     (\<exists>e. tcp_emit False (snd_una tcb) False tcb w = Some (e, t1, w1)) \<or>
     (\<exists>w0 e. t1 = tcb \<and> pbuf_ans w = (True, w0) \<and> tcp_emit_seg (TCP_F_ACK OR TCP_F_PSH) (snd_una tcb - 1) tcb w0 = Some (e, w1))"
    using t m False by (auto simp: tcp_rtx_cb_def split: Option.bind_splits if_splits prod.splits bool.splits)
  have "conn_inv q ib W R r t1 \<and> outs (seg_ok q W) w w1" using c
  proof (elim disjE exE conjE)
    fix w0 e
    assume p: "t1 = tcb" "pbuf_ans w = (True, w0)" "tcp_emit_seg (TCP_F_ACK OR TCP_F_PSH) (snd_una tcb - 1) tcb w0 = Some (e, w1)"
    then show ?thesis using outs_trans [OF outs_pbuf [OF p(2)] emit_seg_outs [OF p(3)]] inv by simp
  qed (use inv emit_conn [of False "snd_una tcb" False tcb w _ t1 w1 q ib W R r] outs_pbuf in auto)
  moreover have "conn_inv q ib W R r (arm_rtx t1 now)" if "conn_inv q ib W R r t1"
    by (rule conn_inv_cong [OF _ _ _ that]) (simp_all add: arm_rtx_def snd_part_def rcv_part_def)
  ultimately show ?thesis unfolding w' using step_put by (auto simp: outs_def)
qed

end
