(* ===== verification/Tcp_Stream.thy ===== *)
theory Tcp_Stream
  imports Tcp_Conn "HOL-Library.Sublist"
begin

text \<open>
  Two hosts with a connection between them: the streams arrive in order and without gaps over a
  network that may lose, repeat, reorder and forge. How connections are opened, that
  sending comes to an end, and runs of the model.
\<close>

section \<open>A connection between two hosts\<close>

text \<open>
  One end of a connection: the host, all that the application has written, the packets that the
  connection has sent and all that the application has read.
\<close>

record endpoint =
  ep_world :: tcp
  ep_written :: bytes
  ep_sent :: "bytes list"
  ep_read :: bytes

definition new_sent :: "tcp \<Rightarrow> tcp \<Rightarrow> bytes list" where
  "new_sent w w' = map (\<lambda>p. concat (snd (snd p))) (drop (length (ip_sent w)) (ip_sent w'))"

text \<open>
  What can happen at one end, the connection at address \<open>a\<close> past its handshake. \<open>arrives pb off\<close> tells which packets
  the network may deliver, with the TCP header at \<open>off\<close>. All that does not
  concern the connection, the clock and the allocators included, may change at any time.

  The rules leave out what the code does not keep the streams in order for. The application does
  not write after it closed the stream (\<open>tcb_pending_fin tcb = 0\<close>). No
  segment continues a stream that already ended: \<open>continues_after_fin\<close> below. \<open>tcp.c\<close> takes the bytes of such a
  segment like any others, and it can send one: the FIN goes out at the sequence number of the
  last data sent although the ring may hold more, and a retransmission goes past it (lines 414
  and 1532).
\<close>

definition continues_after_fin :: "tcb \<Rightarrow> tcp_hdr \<Rightarrow> bool" where
  "continues_after_fin tcb h \<longleftrightarrow> tcb_fin_received tcb \<and> th_seg_len h \<noteq> 0 \<and> th_seq h = rcv_nxt tcb"

inductive conn_step :: "nat \<Rightarrow> (pkt \<Rightarrow> nat \<Rightarrow> bool) \<Rightarrow> endpoint \<Rightarrow> endpoint \<Rightarrow> bool" for a arrives where
  Write: "tcb_mem (ep_world e) a = Some tcb \<Longrightarrow> tcb_pending_fin tcb = 0 \<Longrightarrow> tcp_stream_writev iov flags tcb = Some (res, n, rest, tcb') \<Longrightarrow>
    conn_step a arrives e (e\<lparr>ep_world := put_tcb a tcb' (ep_world e), ep_written := ep_written e @ take n (concat iov)\<rparr>)"
| Write_more: "tcb_mem (ep_world e) a = Some tcb \<Longrightarrow> tcb_pending_fin tcb = 0 \<Longrightarrow> tcp_write_loop flags iov m tcb = Some (res, n, rest, tcb') \<Longrightarrow>
    conn_step a arrives e (e\<lparr>ep_world := put_tcb a tcb' (ep_world e), ep_written := ep_written e @ take (n - m) (concat iov)\<rparr>)"
| Signal: "tcb_mem (ep_world e) a = Some tcb \<Longrightarrow>
    conn_step a arrives e (e\<lparr>ep_world := put_tcb a (tcb_raise sig tcb) (ep_world e)\<rparr>)"
| Read: "tcb_mem (ep_world e) a = Some tcb \<Longrightarrow> tcp_stream_read sz require buf tcb = Some (res, buf', tcb') \<Longrightarrow>
    conn_step a arrives e (e\<lparr>ep_world := put_tcb a tcb' (ep_world e), ep_read := ep_read e @ drop (length buf) buf'\<rparr>)"
| Peek_drop: "tcb_mem (ep_world e) a = Some tcb \<Longrightarrow> tcp_stream_peek wait tcb = (Returns n, off) \<Longrightarrow> int m \<le> n \<Longrightarrow>
      tcp_stream_drop m tcb = Some (res, tcb') \<Longrightarrow>
    conn_step a arrives e (e\<lparr>ep_world := put_tcb a tcb' (ep_world e), ep_read := ep_read e @ take m (drop off (tcb_rxfifo tcb))\<rparr>)"
| Task: "tcb_mem (ep_world e) a = Some tcb \<Longrightarrow> tcb_signals tcb AND TCP_EVENT_CONNECT = 0 \<Longrightarrow>
      tcp_task_cb a (tcb_signals tcb) (put_tcb a (tcb\<lparr>tcb_signals := 0\<rparr>) (ep_world e)) = Some w' \<Longrightarrow>
    conn_step a arrives e (e\<lparr>ep_world := w', ep_sent := ep_sent e @ new_sent (ep_world e) w'\<rparr>)"
| Retransmit: "tcp_rtx_cb a now (ep_world e) = Some w' \<Longrightarrow>
    conn_step a arrives e (e\<lparr>ep_world := w', ep_sent := ep_sent e @ new_sent (ep_world e) w'\<rparr>)"
| Delayed_ack: "tcp_delayed_ack_cb a (ep_world e) = Some w' \<Longrightarrow>
    conn_step a arrives e (e\<lparr>ep_world := w', ep_sent := ep_sent e @ new_sent (ep_world e) w'\<rparr>)"
| Time_wait: "tcp_time_wait_cb a (ep_world e) = Some w' \<Longrightarrow> conn_step a arrives e (e\<lparr>ep_world := w'\<rparr>)"
| Input: "seg_hdr pb off = Some h \<Longrightarrow> get32 pb 12 = Some ra \<Longrightarrow> tcb_find ra (th_src_port h) (th_dst_port h) (ep_world e) = Some (Some a) \<Longrightarrow>
      tcb_mem (ep_world e) a = Some tcb \<Longrightarrow> arrives pb off \<Longrightarrow> length (concat pb) < 2147483648 \<Longrightarrow>
      \<not> continues_after_fin tcb h \<Longrightarrow>
      tcp_input_ipv4 svc ni pb off (ep_world e) = Some (back_to_caller, w') \<Longrightarrow>
    conn_step a arrives e (e\<lparr>ep_world := w', ep_sent := ep_sent e @ new_sent (ep_world e) w'\<rparr>)"
| Other: "tcb_mem w' a = tcb_mem (ep_world e) a \<Longrightarrow> conn_step a arrives e (e\<lparr>ep_world := w'\<rparr>)"

text \<open>
  The two ends and the network between them. The packets of the peer arrive in any order, any number
  of times or never, cut into fragments anyhow; packets without data arrive from anywhere.
\<close>

definition from_peer :: "endpoint \<Rightarrow> pkt \<Rightarrow> nat \<Rightarrow> bool" where
  "from_peer peer pb off \<longleftrightarrow> off = 20 \<and> concat pb \<in> set (ep_sent peer) \<or> seg_text pb off = []"

inductive pair_step :: "nat \<Rightarrow> nat \<Rightarrow> endpoint \<times> endpoint \<Rightarrow> endpoint \<times> endpoint \<Rightarrow> bool" for a b where
  Left: "conn_step a (from_peer y) x x' \<Longrightarrow> pair_step a b (x, y) (x', y)"
| Right: "conn_step b (from_peer x) y y' \<Longrightarrow> pair_step a b (x, y) (x, y')"

subsection \<open>The invariant\<close>

text \<open>\<open>V\<close> is what the peer has written.\<close>

definition ep_inv :: "nat \<Rightarrow> u32 \<Rightarrow> u32 \<Rightarrow> bytes \<Rightarrow> endpoint \<Rightarrow> bool" where
  "ep_inv a q ib V e \<longleftrightarrow>
     (\<exists>R r. prefix R V \<and> r \<le> length R \<and> ep_read e = take r R \<and> conn_at a (conn_inv q ib (ep_written e) R r) (ep_world e)) \<and>
     (\<forall>bs \<in> set (ep_sent e). seg_ok q (ep_written e) bs)"

lemma ep_inv_grow: "ep_inv a q ib V e \<Longrightarrow> ep_inv a q ib (V @ vs) e"
  unfolding ep_inv_def by (meson prefix_order.trans prefixI)

lemma new_sent_ok: "sends P w w' \<Longrightarrow> \<forall>bs \<in> set (new_sent w w'). P bs"
  by (auto simp: sends_def new_sent_def)

lemma ep_inv_sent:
  assumes "ep_inv a q ib V e" "\<And>R r tcb. tcb_mem (ep_world e) a = Some tcb \<Longrightarrow> conn_inv q ib (ep_written e) R r tcb \<Longrightarrow> prefix R V \<Longrightarrow>
      \<exists>d. prefix (R @ d) V \<and> conn_step_ok a q ib (ep_written e) (R @ d) r (ep_world e) w'" "tcb_mem (ep_world e) a = Some tcb"
  shows "ep_inv a q ib V (e\<lparr>ep_world := w', ep_sent := ep_sent e @ new_sent (ep_world e) w'\<rparr>)"
proof -
  obtain R r where R: "prefix R V" "r \<le> length R" "ep_read e = take r R" "conn_inv q ib (ep_written e) R r tcb"
    using assms(1,3) by (auto simp: ep_inv_def conn_at_def)
  obtain d where d: "prefix (R @ d) V" "conn_step_ok a q ib (ep_written e) (R @ d) r (ep_world e) w'" using assms(2) [OF assms(3) R(4,1)] by blast
  have "take r (R @ d) = take r R" using R(2) by simp
  moreover have "\<forall>bs \<in> set (new_sent (ep_world e) w'). seg_ok q (ep_written e) bs" using d(2) new_sent_ok by (auto simp: conn_step_ok_def)
  moreover have "conn_at a (conn_inv q ib (ep_written e) (R @ d) r) w'" using d(2) by (simp add: conn_step_ok_def)
  moreover have "r \<le> length (R @ d)" using R(2) by simp
  ultimately show ?thesis using assms(1) R(3) d(1) unfolding ep_inv_def by (auto intro!: exI [of _ "R @ d"] exI [of _ r])
qed

lemma ep_inv_step_ok:
  assumes "ep_inv a q ib V e" "tcb_mem (ep_world e) a = Some tcb"
    "\<And>R r. conn_inv q ib (ep_written e) R r tcb \<Longrightarrow> conn_step_ok a q ib (ep_written e) R r (ep_world e) w'"
  shows "ep_inv a q ib V (e\<lparr>ep_world := w', ep_sent := ep_sent e @ new_sent (ep_world e) w'\<rparr>)"
  by (rule ep_inv_sent [OF assms(1) _ assms(2)]) (use assms(2,3) in \<open>auto intro!: exI [of _ "[]"]\<close>)

text \<open>The data of a segment that arrives belongs where the receiver puts it.\<close>

lemma arrives_prefix:
  assumes "from_peer peer pb off" "seg_hdr pb off = Some h" "\<forall>bs \<in> set (ep_sent peer). seg_ok ib V bs" "prefix R V" "length V < 4294967296"
    and "th_seq h = ib + of_nat (length R)"
  shows "prefix (R @ seg_text pb off) V"
proof (cases "seg_text pb off = []")
  case True
  then show ?thesis using assms(4) by simp
next
  case False
  then have "off = 20" "concat pb \<in> set (ep_sent peer)" using assms(1) by (auto simp: from_peer_def)
  then have "seg_ok ib V (concat pb)" "seg_data (concat pb) = Some (th_seq h, seg_text pb off)" using assms(2,3) seg_data_text by auto
  then have "\<exists>j. th_seq h = ib + of_nat j \<and> j + length (seg_text pb off) \<le> length V \<and> seg_text pb off = take (length (seg_text pb off)) (drop j V)"
    using False unfolding seg_ok_def by blast
  then obtain j n where j: "th_seq h = ib + of_nat j" "j \<le> length V" and n: "seg_text pb off = take n (drop j V)" by force
  have lr: "length R \<le> length V" using assms(4) by (rule prefix_length_le)
  have w: "of_nat j = (of_nat (length R) :: u32)" using j(1) assms(6) by simp
  have "unat (of_nat j :: u32) = j" "unat (of_nat (length R) :: u32) = length R" using j(2) lr assms(5) by (simp_all add: unat_of_nat)
  then have "j = length R" by (metis w)
  moreover obtain zs where "V = R @ zs" using assms(4) by (auto simp: prefix_def)
  ultimately show ?thesis unfolding n by (simp add: take_is_prefix)
qed

lemma write_loop_conn:
  assumes "tcp_write_loop flags iov m tcb = Some (res, n, rest, tcb')" "conn_inv q ib W R r tcb" "tcb_pending_fin tcb = 0"
  shows "conn_inv q ib (W @ take (n - m) (concat iov)) R r tcb'"
proof -
  obtain vs where v: "snd_inv tcb' (W @ vs)" "concat iov = vs @ concat rest" "n = m + length vs" "same_but_tx tcb tcb'" "tcb_pending_fin tcb' = 0"
    using write_loop_inv [OF assms(1) _ assms(3)] assms(2) by (auto simp: conn_inv_def)
  have "take (n - m) (concat iov) = vs" using v(2,3) by simp
  then show ?thesis using v assms(2) rcv_inv_cong [of tcb' tcb ib R r] by (auto simp: conn_inv_def same_but_tx_def snd_base_def)
qed

lemma raise_conn: "conn_inv q ib W R r tcb \<Longrightarrow> conn_inv q ib W R r (tcb_raise sig tcb)"
  by (rule conn_inv_cong) (simp_all add: tcb_raise_def snd_part_def rcv_part_def)

lemma writev_conn:
  assumes t: "tcp_stream_writev iov flags tcb = Some (res, n, rest, tcb')" and inv: "conn_inv q ib W R r tcb" and f: "tcb_pending_fin tcb = 0"
  shows "conn_inv q ib (W @ take n (concat iov)) R r tcb'"
proof -
  consider "n = 0" "tcb' = tcb" | r1 n1 rest1 t1 where "tcp_write_loop flags iov 0 tcb = Some (r1, n1, rest1, t1)" "n = n1" "tcb' = t1 \<or> tcb' = tcb_raise TCP_EVENT_EMIT t1"
    using t by (auto simp: tcp_stream_writev_def Let_def split: if_splits Option.bind_splits option.splits)
  then show ?thesis
  proof cases
    case 2
    have "conn_inv q ib (W @ take n (concat iov)) R r t1" using write_loop_conn [OF 2(1) inv f] 2(2) by simp
    then show ?thesis using 2(3) raise_conn by blast
  qed (use inv in simp)
qed

lemma read_conn:
  assumes "tcp_stream_read sz require buf tcb = Some (res, buf', tcb')" "conn_inv q ib W R r tcb"
  shows "\<exists>n. r + n \<le> length R \<and> drop (length buf) buf' = take n (drop r R) \<and> conn_inv q ib W R (r + n) tcb'"
proof -
  obtain n where n: "r + n \<le> length R" "buf' = buf @ take n (drop r R)" "rcv_inv ib R (r + n) tcb'" "snd_part tcb' = snd_part tcb" "tcb_state tcb' = tcb_state tcb"
  proof -
    have "rcv_inv ib R r tcb" using assms(2) by (simp add: conn_inv_def)
    from read_inv [OF assms(1) this] show thesis using that by blast
  qed
  then show ?thesis using assms(2) snd_inv_cong [OF n(4)] by (intro exI [of _ n]) (auto simp: conn_inv_def snd_base_def snd_part_def)
qed

text \<open>Peeking shows the next bytes where they lie in the buffer.\<close>

lemma peek_bytes:
  assumes p: "tcp_stream_peek wait tcb = (Returns n, off)" and inv: "rcv_inv ib R r tcb" and m: "int m \<le> n" "0 < m"
  shows "r + m \<le> length R" "take m (drop off (tcb_rxfifo tcb)) = take m (drop r R)" "tcb_rxfifo_user_bytes tcb = int (length R - r)"
proof -
  let ?sz = "tcb_rxfifo_size tcb" and ?u = "tcb_rxfifo_user_bytes tcb"
  have u1: "\<not> ?u < 1" using p m by (auto simp: tcp_stream_peek_def Let_def split: if_splits)
  then show u: "?u = int (length R - r)" using user_bytes [OF inv] by (auto simp: ERR_NOT_CONNECTED_def)
  have off: "off = unat (rcv_rdptr tcb AND (?sz - 1))" and n: "n = (if nat ?u + off > unat ?sz then int (unat ?sz - off) else ?u)"
    using p u1 by (auto simp: tcp_stream_peek_def Let_def split: if_splits)
  have sz: "ring_size ?sz" and l: "r \<le> length R" "length R \<le> r + unat ?sz" and rd: "rcv_rdptr tcb = ib + of_nat r"
    and h: "ring_holds (tcb_rxfifo tcb) ?sz ib r R" using inv by (auto simp: rcv_inv_def)
  have mo: "m + off \<le> unat ?sz" "m \<le> length R - r" using m n u by (auto split: if_splits)
  then show rm: "r + m \<le> length R" using l by linarith
  have pos: "ring_pos ?sz ib (r + i) = off + i" if "i < m" for i
  proof -
    have "ring_pos ?sz ib (r + i) = ring_pos ?sz (rcv_rdptr tcb) i" using ring_pos_add [OF sz, of ib r i] rd by simp
    also have "\<dots> = (off + i) mod unat ?sz" by (rule ring_end(5) [OF sz order_refl, of "rcv_rdptr tcb" i, folded off])
    finally show ?thesis using mo(1) that by simp
  qed
  have "tcb_rxfifo tcb ! (off + i) = R ! (r + i)" if "i < m" for i
    using h rm that pos [OF that, symmetric] by (simp add: ring_holds_def)
  moreover have "length (tcb_rxfifo tcb) = unat ?sz" using h by (simp add: ring_holds_def)
  ultimately show "take m (drop off (tcb_rxfifo tcb)) = take m (drop r R)"
    using mo rm by (intro nth_equalityI) auto
qed

lemma peek_drop_conn:
  assumes p: "tcp_stream_peek wait tcb = (Returns n, off)" "int m \<le> n" and d: "tcp_stream_drop m tcb = Some (res, tcb')" and inv: "conn_inv q ib W R r tcb"
  shows "\<exists>k. r + k \<le> length R \<and> take m (drop off (tcb_rxfifo tcb)) = take k (drop r R) \<and> conn_inv q ib W R (r + k) tcb'"
proof (cases "m = 0 \<or> tcb_rxfifo_user_bytes tcb < 1")
  case True
  have ri: "rcv_inv ib R r tcb" using inv by (simp add: conn_inv_def)
  have m0: "m = 0" using True peek_bytes(3) [OF p(1) ri p(2)] peek_bytes(1) [OF p(1) ri p(2)] by (cases "m = 0") auto
  have "tcb' = tcb \<or> tcb' = tcp_rxfifo_consume 0 tcb" using d m0 by (auto simp: tcp_stream_drop_def Let_def split: if_splits)
  moreover have "rcv_part (tcb\<lparr>rcv_rdptr := rcv_rdptr tcb + 0\<rparr>) = rcv_part tcb" by (simp add: rcv_part_def)
  ultimately have "conn_inv q ib W R r tcb'" using conn_inv_cong [OF _ _ _ inv] consume_fields [of 0 tcb] inv by auto
  then show ?thesis using m0 ri by (intro exI [of _ 0]) (auto simp: rcv_inv_def)
next
  case False
  have ri: "rcv_inv ib R r tcb" using inv by (simp add: conn_inv_def)
  have m: "0 < m" using False by simp
  note pb = peek_bytes [OF p(1) ri p(2) m]
  have t: "tcb' = tcp_rxfifo_consume (of_nat m) tcb" using d False by (auto simp: tcp_stream_drop_def Let_def split: if_splits)
  have "conn_inv q ib W R (r + m) tcb'"
    using inv consume_inv [OF ri pb(1)] snd_inv_cong [OF consume_fields(1)] consume_fields [of "of_nat m" tcb]
    by (auto simp: conn_inv_def t snd_base_def snd_part_def)
  then show ?thesis using pb by blast
qed


text \<open>Steps of the application.\<close>

lemma ep_inv_write:
  assumes "ep_inv a q ib V e" "tcb_mem (ep_world e) a = Some tcb" "\<And>R r. conn_inv q ib (ep_written e) R r tcb \<Longrightarrow> conn_inv q ib (ep_written e @ vs) R r tcb'"
  shows "ep_inv a q ib V (e\<lparr>ep_world := put_tcb a tcb' (ep_world e), ep_written := ep_written e @ vs\<rparr>)"
  using assms by (auto simp: ep_inv_def conn_at_def intro: seg_ok_mono)

lemma ep_inv_read:
  assumes e: "ep_inv a q ib V e" "tcb_mem (ep_world e) a = Some tcb"
    and d: "\<And>R r. conn_inv q ib (ep_written e) R r tcb \<Longrightarrow> \<exists>n. r + n \<le> length R \<and> ds = take n (drop r R) \<and> conn_inv q ib (ep_written e) R (r + n) tcb'"
  shows "ep_inv a q ib V (e\<lparr>ep_world := put_tcb a tcb' (ep_world e), ep_read := ep_read e @ ds\<rparr>)"
proof -
  obtain R r where R: "prefix R V" "r \<le> length R" "ep_read e = take r R" "conn_inv q ib (ep_written e) R r tcb"
    using e by (auto simp: ep_inv_def conn_at_def)
  obtain n where n: "r + n \<le> length R" "ds = take n (drop r R)" "conn_inv q ib (ep_written e) R (r + n) tcb'" using d [OF R(4)] by blast
  have "ep_read e @ ds = take (r + n) R" using R(3) n(2) by (simp add: take_add)
  then show ?thesis using e(1) R n unfolding ep_inv_def by (auto simp: conn_at_def intro!: exI [of _ R] exI [of _ "r + n"])
qed

lemma conn_step_inv:
  assumes "conn_step a (from_peer peer) e e'" and inv: "ep_inv a q ib V e" and pk: "\<forall>bs \<in> set (ep_sent peer). seg_ok ib V bs" "length V < 4294967296"
  shows "ep_inv a q ib V e' \<and> prefix (ep_written e) (ep_written e')"
  using assms(1)
proof cases
  case (Write tcb iov flags res n rest tcb')
  then show ?thesis using ep_inv_write [OF inv Write(2) writev_conn [OF Write(4) _ Write(3)]] by simp
next
  case (Write_more tcb flags iov m res n rest tcb')
  then show ?thesis using ep_inv_write [OF inv Write_more(2) write_loop_conn [OF Write_more(4) _ Write_more(3)]] by simp
next
  case (Signal tcb sig)
  then show ?thesis using ep_inv_write [OF inv Signal(2), of "[]" "tcb_raise sig tcb"] raise_conn by simp
next
  case (Read tcb sz require buf res buf' tcb')
  then show ?thesis using ep_inv_read [OF inv Read(2) read_conn [OF Read(3)]] by simp
next
  case (Peek_drop tcb wait n off m res tcb')
  then show ?thesis using ep_inv_read [OF inv Peek_drop(2) peek_drop_conn [OF Peek_drop(3,4,5)]] by simp
next
  case (Task tcb w')
  let ?t = "tcb\<lparr>tcb_signals := 0\<rparr>"
  have "conn_step_ok a q ib (ep_written e) R r (ep_world e) w'" if c: "conn_inv q ib (ep_written e) R r tcb" for R r
  proof -
    have "conn_inv q ib (ep_written e) R r ?t" by (rule conn_inv_cong [OF _ _ _ c]) (simp_all add: snd_part_def rcv_part_def)
    from task_ok [OF Task(4) put_tcb_simps(1) this Task(3)] show ?thesis by (simp add: conn_step_ok_def)
  qed
  then show ?thesis using ep_inv_step_ok [OF inv Task(2)] Task(1) by simp
next
  case (Retransmit now w')
  obtain tcb where m: "tcb_mem (ep_world e) a = Some tcb" using Retransmit(2) by (auto simp: tcp_rtx_cb_def split: Option.bind_splits)
  show ?thesis using ep_inv_step_ok [OF inv m rtx_ok [OF Retransmit(2) m]] Retransmit(1) by simp
next
  case (Delayed_ack w')
  obtain tcb where m: "tcb_mem (ep_world e) a = Some tcb" using Delayed_ack(2) by (auto simp: tcp_delayed_ack_cb_def split: Option.bind_splits)
  show ?thesis using ep_inv_step_ok [OF inv m delayed_ack_ok [OF Delayed_ack(2) m]] Delayed_ack(1) by simp
next
  case (Time_wait w')
  have "conn_at a (conn_inv q ib (ep_written e) R r) w'" if "conn_at a (conn_inv q ib (ep_written e) R r) (ep_world e)" for R r
    using close_ok [of a "ep_world e" w' q ib "ep_written e" R r "ep_world e"] Time_wait(2) that by (simp add: tcp_time_wait_cb_def conn_step_ok_def)
  then show ?thesis using inv Time_wait(1) by (fastforce simp: ep_inv_def)
next
  case (Input pb off h ra tcb svc ni back_to_caller w')
  have "\<exists>d. prefix (R @ d) V \<and> conn_step_ok a q ib (ep_written e) (R @ d) r (ep_world e) w'"
    if c: "conn_inv q ib (ep_written e) R r tcb" and p: "prefix R V" for R r
  proof -
    have fin: "tcb_fin_received tcb \<Longrightarrow> th_seg_len h = 0 \<or> th_seq h \<noteq> rcv_nxt tcb" using Input(8) by (simp add: continues_after_fin_def)
    obtain d where d: "d = [] \<or> \<not> tcb_fin_received tcb \<and> th_seq h = rcv_nxt tcb \<and> d = seg_text pb off" "conn_step_ok a q ib (ep_written e) (R @ d) r (ep_world e) w'"
      using input_ok [OF Input(9,2,7,3,4,5) c fin] by blast
    have nx: "\<not> tcb_fin_received tcb \<Longrightarrow> rcv_nxt tcb = ib + of_nat (length R)" using c by (simp add: conn_inv_def rcv_inv_def)
    have "prefix (R @ d) V" using d(1) p nx arrives_prefix [OF Input(6,2) pk(1) p pk(2)] by auto
    then show ?thesis using d(2) by blast
  qed
  then show ?thesis using ep_inv_sent [OF inv _ Input(5), of w'] Input(1,5) by simp
next
  case (Other w')
  then show ?thesis using inv by (auto simp: ep_inv_def conn_at_def)
qed

definition pair_inv :: "nat \<Rightarrow> nat \<Rightarrow> u32 \<Rightarrow> u32 \<Rightarrow> endpoint \<times> endpoint \<Rightarrow> bool" where
  "pair_inv a b q ib p \<longleftrightarrow> ep_inv a q ib (ep_written (snd p)) (fst p) \<and> ep_inv b ib q (ep_written (fst p)) (snd p)"

lemma pair_step_inv:
  assumes "pair_step a b p p'" "pair_inv a b q ib p" "length (ep_written (fst p)) < 4294967296" "length (ep_written (snd p)) < 4294967296"
  shows "pair_inv a b q ib p'" "prefix (ep_written (fst p)) (ep_written (fst p'))" "prefix (ep_written (snd p)) (ep_written (snd p'))"
proof -
  have "pair_inv a b q ib p' \<and> prefix (ep_written (fst p)) (ep_written (fst p')) \<and> prefix (ep_written (snd p)) (ep_written (snd p'))"
    using assms(1)
  proof cases
    case (Left y x x')
    have i: "ep_inv a q ib (ep_written y) x" "ep_inv b ib q (ep_written x) y" "length (ep_written y) < 4294967296" using assms Left by (auto simp: pair_inv_def)
    have s: "\<forall>bs \<in> set (ep_sent y). seg_ok ib (ep_written y) bs" using i(2) by (simp add: ep_inv_def)
    note c = conn_step_inv [OF Left(3) i(1) s i(3)]
    then obtain vs where "ep_written x' = ep_written x @ vs" by (auto simp: prefix_def)
    then show ?thesis using c i(2) ep_inv_grow Left by (auto simp: pair_inv_def)
  next
    case (Right x y y')
    have i: "ep_inv a q ib (ep_written y) x" "ep_inv b ib q (ep_written x) y" "length (ep_written x) < 4294967296" using assms Right by (auto simp: pair_inv_def)
    have s: "\<forall>bs \<in> set (ep_sent x). seg_ok q (ep_written x) bs" using i(1) by (simp add: ep_inv_def)
    note c = conn_step_inv [OF Right(3) i(2) s i(3)]
    then obtain vs where "ep_written y' = ep_written y @ vs" by (auto simp: prefix_def)
    then show ?thesis using c i(1) ep_inv_grow Right by (auto simp: pair_inv_def)
  qed
  then show "pair_inv a b q ib p'" "prefix (ep_written (fst p)) (ep_written (fst p'))" "prefix (ep_written (snd p)) (ep_written (snd p'))" by auto
qed

lemma conn_step_written: "conn_step a arrives e e' \<Longrightarrow> prefix (ep_written e) (ep_written e')"
  by (auto elim: conn_step.cases)

lemma pair_step_written:
  assumes "pair_step a b p p'"
  shows "length (ep_written (fst p)) \<le> length (ep_written (fst p'))" "length (ep_written (snd p)) \<le> length (ep_written (snd p'))"
  using assms by (auto elim!: pair_step.cases dest!: conn_step_written prefix_length_le)

text \<open>A connection right after the handshake, or waiting for its last acknowledgement: nothing was written or received yet.\<close>

definition opened :: "u32 \<Rightarrow> u32 \<Rightarrow> tcb \<Rightarrow> bool" where
  "opened q ib tcb \<longleftrightarrow>
     tcb_state tcb \<noteq> TCP_STATE_SYN_SENT \<and> tcb_pending_fin tcb = 0 \<and> \<not> tcb_fin_received tcb \<and>
     ring_size (tcb_txfifo_size tcb) \<and> length (tcb_txfifo tcb) = unat (tcb_txfifo_size tcb) \<and>
     ring_size (tcb_rxfifo_size tcb) \<and> length (tcb_rxfifo tcb) = unat (tcb_rxfifo_size tcb) \<and>
     tcb_iss tcb + 1 = q \<and> snd_wrptr tcb = q \<and> snd_nxt tcb = q \<and>
     (tcb_pending_syn tcb = 0 \<and> snd_una tcb = q \<or> has (tcb_pending_syn tcb) TCP_F_SYN \<and> snd_una tcb = tcb_iss tcb) \<and>
     rcv_nxt tcb = ib \<and> rcv_rdptr tcb = ib"

lemma opened_inv: "opened q ib tcb \<Longrightarrow> conn_inv q ib [] [] 0 tcb"
proof -
  assume o: "opened q ib tcb"
  have z: "\<not> has 0 TCP_F_SYN" by (simp add: has_def)
  have "0 < unat (tcb_txfifo_size tcb)" using o ring_sizeD(1) by (simp add: opened_def)
  then have "snd_at tcb [] 0 0" using o z by (auto simp: opened_def snd_at_def snd_base_def fin_len_def ring_holds_def)
  then have "snd_inv tcb []" using o z by (auto simp: opened_def snd_inv_def snd_base_def fin_len_def)
  then show ?thesis using o by (auto simp: opened_def conn_inv_def snd_base_def rcv_inv_def ring_holds_def)
qed

definition fresh_end :: "nat \<Rightarrow> u32 \<Rightarrow> u32 \<Rightarrow> endpoint \<Rightarrow> bool" where
  "fresh_end a q ib e \<longleftrightarrow> (case tcb_mem (ep_world e) a of Some tcb \<Rightarrow> opened q ib tcb | None \<Rightarrow> False) \<and>
     ep_written e = [] \<and> ep_sent e = [] \<and> ep_read e = []"

lemma fresh_inv: "fresh_end a q ib e \<Longrightarrow> ep_inv a q ib V e"
  using opened_inv by (auto simp: fresh_end_def ep_inv_def conn_at_def split: option.splits intro!: exI [of _ "[]"])

lemma pair_steps_inv:
  assumes "(pair_step a b)\<^sup>*\<^sup>* p p'" "pair_inv a b q ib p"
    and "length (ep_written (fst p')) < 4294967296" "length (ep_written (snd p')) < 4294967296"
  shows "pair_inv a b q ib p'"
  using assms
proof (induction rule: rtranclp_induct)
  case (step p1 p2)
  note l = pair_step_written [OF step(2)]
  have "pair_inv a b q ib p1" using step.IH step.prems l by linarith
  then show ?case using pair_step_inv(1) [OF step(2)] step.prems l by auto
qed

text \<open>
  C3. The two streams of a connection arrive, as long as no data follow a FIN: whatever packets the
  network loses, repeats, reorders or cuts anew, and whatever packets without data it makes up, what
  the application at each end has read is a prefix of what the application at the other end has
  written. It holds for every interleaving of the two hosts, from the state after the handshake,
  under these conditions. An end that has received a FIN is not given a segment that occupies
  sequence numbers and starts at the next one it expects (\<open>continues_after_fin\<close>): the code takes the bytes of such a
  segment, and as the peer's code may put its FIN before data still in its ring, the prefix
  can fail there. An application does not write after it closed its stream. The signal to
  connect is not raised again. Packets are shorter than 2 GiB, and each end
  writes less than 4 GiB, where the sequence numbers wrap.
\<close>

theorem tcp_stream_prefix:
  assumes "(pair_step a b)\<^sup>*\<^sup>* (x0, y0) (x, y)" "fresh_end a q ib x0" "fresh_end b ib q y0"
    and "length (ep_written x) < 2 ^ 32" "length (ep_written y) < 2 ^ 32"
  shows "prefix (ep_read y) (ep_written x) \<and> prefix (ep_read x) (ep_written y)"
proof -
  have "pair_inv a b q ib (x0, y0)" using fresh_inv [OF assms(2)] fresh_inv [OF assms(3)] by (simp add: pair_inv_def)
  then have i: "pair_inv a b q ib (x, y)" using pair_steps_inv [OF assms(1)] assms(4,5) by simp
  have "prefix (ep_read e) V" if ei: "ep_inv c q' ib' V e" for c q' ib' V e
    using that prefix_order.trans take_is_prefix by (fastforce simp: ep_inv_def)
  then show ?thesis using i by (auto simp: pair_inv_def)
qed

text \<open>A run of the two hosts: one writes five bytes and its network task sends them, the other receives and reads
  three. The sequence numbers and the ring buffers wrap on the way.\<close>

definition run_tcb :: "u32 \<Rightarrow> u32 \<Rightarrow> u32 \<Rightarrow> u32 \<Rightarrow> u16 \<Rightarrow> u16 \<Rightarrow> tcb" where
  "run_tcb q ib la ra lp rp =
     \<lparr>tcb_state = TCP_STATE_ESTABLISHED, tcb_app_closed = False, tcb_pending_syn = 0, tcb_pending_fin = 0, tcb_fin_received = False,
      rcv_window_closed = False, fast_reject_limiter = 0, tcb_wnd_scale_ok = False, tcb_snd_wnd_shift = 0,
      snd_wrptr = q, snd_nxt = q, snd_una = q, snd_wnd = 100, snd_wl1 = 0, snd_wl2 = 0, tcb_iss = q - 1,
      rcv_rdptr = ib, rcv_nxt = ib, rcv_mss = 1460, tcb_local_addr = la, tcb_remote_addr = ra, tcb_remote_port = rp, tcb_local_port = lp,
      tcb_max_segment_size = 536, tcb_txfifo_size = 16, tcb_rxfifo_size = 16,
      tcb_rtx_timer = 0, tcb_delayed_ack_timer = 0, tcb_time_wait_timer = 0, tcb_rto = 250,
      tcb_tx_bytes = 0, tcb_rx_bytes = 0, tcb_rtx_bytes = 0, tcb_last_rx = 0, tcb_timo = 5000000,
      tcb_rx_wakeups = 0, tcb_tx_wakeups = 0, tcb_signals = 0, tcb_txfifo = replicate 16 0, tcb_rxfifo = replicate 16 0\<rparr>"

definition run_world :: "u32 \<Rightarrow> u32 \<Rightarrow> tcb \<Rightarrow> tcp" where
  "run_world la ra tcb =
     \<lparr>netifs = [1], netif_of = (\<lambda>_. \<lparr>ni_ipv4_local_addr = la, ni_ipv4_local_prefixlen = 24, ni_flags = 0x900\<rparr>), ipv4_nexthops = [(ra, 1)],
      ni_ipv4_bad = 0, ni_ipv4_bad_cksum = 0, ni_ipv4_fragmented = 0, ip_sent = [], ans_rand = [7, 8, 9], ans_xalloc = [],
      ans_pbuf = [True, True], ans_out = [], tcbs = [1], tcb_mem = (\<lambda>_. None)(1 := Some tcb), clock = 1000\<rparr>"

definition run_tx :: tcb where "run_tx = run_tcb 0xfffffffe 101 10 20 80 90"
definition run_ty :: tcb where "run_ty = run_tcb 101 0xfffffffe 20 10 90 80"

definition run_end :: "u32 \<Rightarrow> u32 \<Rightarrow> tcb \<Rightarrow> endpoint" where
  "run_end la ra tcb = \<lparr>ep_world = run_world la ra tcb, ep_written = [], ep_sent = [], ep_read = []\<rparr>"

definition run_tx1 :: tcb where
  "run_tx1 = run_tx\<lparr>snd_wrptr := 3, tcb_signals := 4, tcb_txfifo := [3, 4, 5, 0, 0, 0, 0, 0, 0, 0, 0, 0, 0, 0, 1, 2]\<rparr>"

definition run_task :: "tcp option" where
  "run_task = tcp_task_cb 1 4 (put_tcb 1 (run_tx1\<lparr>tcb_signals := 0\<rparr>) (put_tcb 1 run_tx1 (run_world 10 20 run_tx)))"

definition run_pkt :: pkt where
  "run_pkt = [[69, 0, 0, 45, 7, 0, 64, 0, 255, 6, 0, 0, 10, 0, 0, 0, 20, 0, 0, 0, 80, 0, 90, 0, 255, 255, 255, 254, 0, 0],
     [0, 101, 80, 24, 0, 16, 0, 0, 0, 0, 1, 2, 3, 4, 5]]"

definition run_input :: "(bool \<times> tcp) option" where
  "run_input = tcp_input_ipv4 (\<lambda>_. None) \<lparr>ni_ipv4_local_addr = 20, ni_ipv4_local_prefixlen = 24, ni_flags = 0x900\<rparr> run_pkt 20 (run_world 20 10 run_ty)"

definition run_ty1 :: tcb where
  "run_ty1 = run_ty\<lparr>rcv_window_closed := True, rcv_nxt := 3, tcb_rx_bytes := 5, tcb_last_rx := 1000, tcb_rx_wakeups := 1,
     tcb_rxfifo := [3, 4, 5, 0, 0, 0, 0, 0, 0, 0, 0, 0, 0, 0, 1, 2]\<rparr>"

definition run_x :: endpoint where
  "run_x = \<lparr>ep_world = the run_task, ep_written = [1, 2, 3, 4, 5], ep_sent = [concat run_pkt], ep_read = []\<rparr>"

definition run_y :: endpoint where
  "run_y = \<lparr>ep_world = put_tcb 1 (run_ty1\<lparr>rcv_rdptr := 1\<rparr>) (snd (the run_input)), ep_written = [],
     ep_sent = new_sent (run_world 20 10 run_ty) (snd (the run_input)), ep_read = [1, 2, 3]\<rparr>"

lemma run_write: "tcp_stream_writev [[1, 2, 3], [4, 5]] 0 run_tx = Some (Returns 5, 5, [], run_tx1)"
  by code_simp

lemma run_task_ok: "\<not> Option.is_none run_task" "new_sent (put_tcb 1 run_tx1 (run_world 10 20 run_tx)) (the run_task) = [concat run_pkt]"
  by code_simp+

lemma run_input_ok: "\<not> Option.is_none run_input" "tcb_mem (snd (the run_input)) 1 = Some run_ty1"
  by code_simp+

lemma run_read: "tcp_stream_read 3 1 [] run_ty1 = Some (Returns 3, [1, 2, 3], run_ty1\<lparr>rcv_rdptr := 1\<rparr>)"
  by code_simp


lemma run_steps: "(pair_step 1 1)\<^sup>*\<^sup>* (run_end 10 20 run_tx, run_end 20 10 run_ty) (run_x, run_y)"
proof -
  let ?x0 = "run_end 10 20 run_tx" and ?y0 = "run_end 20 10 run_ty"
  define x1 where "x1 = ?x0\<lparr>ep_world := put_tcb 1 run_tx1 (ep_world ?x0), ep_written := ep_written ?x0 @ take 5 (concat [[1, 2, 3], [4, 5]])\<rparr>"
  have s1: "conn_step 1 arrives ?x0 x1" for arrives
    unfolding x1_def by (rule conn_step.Write [OF _ _ run_write]) (simp_all add: run_end_def run_world_def run_tx_def run_tcb_def)
  have x1: "ep_world x1 = put_tcb 1 run_tx1 (run_world 10 20 run_tx)" "ep_written x1 = [1, 2, 3, 4, 5]" "ep_sent x1 = []" "ep_read x1 = []"
    by (simp_all add: x1_def run_end_def)
  have sg: "tcb_signals run_tx1 = 4" by (simp add: run_tx1_def)
  have t: "run_task = Some (the run_task)" using run_task_ok(1) by (simp add: Option.is_none_def)
  have "conn_step 1 arrives x1 (x1\<lparr>ep_world := the run_task, ep_sent := ep_sent x1 @ new_sent (ep_world x1) (the run_task)\<rparr>)" for arrives
    by (rule conn_step.Task [where tcb = run_tx1]) (use t in \<open>simp_all add: x1 sg TCP_EVENT_CONNECT_def run_task_def\<close>)
  moreover have "x1\<lparr>ep_world := the run_task, ep_sent := ep_sent x1 @ new_sent (ep_world x1) (the run_task)\<rparr> = run_x"
    using run_task_ok(2) by (simp add: x1 run_x_def)
  ultimately have s2: "conn_step 1 arrives x1 run_x" for arrives by simp
  define y1 where "y1 = ?y0\<lparr>ep_world := snd (the run_input), ep_sent := ep_sent ?y0 @ new_sent (ep_world ?y0) (snd (the run_input))\<rparr>"
  obtain h where h: "seg_hdr run_pkt 20 = Some h" "tcb_find 10 (th_src_port h) (th_dst_port h) (run_world 20 10 run_ty) = Some (Some 1)"
  proof -
    have "case seg_hdr run_pkt 20 of Some h \<Rightarrow> tcb_find 10 (th_src_port h) (th_dst_port h) (run_world 20 10 run_ty) = Some (Some 1) | None \<Rightarrow> False"
      by code_simp
    then show thesis using that by (auto split: option.splits)
  qed
  have i: "run_input = Some (fst (the run_input), snd (the run_input))" using run_input_ok(1) by (cases run_input) (simp_all add: Option.is_none_def)
  have g: "get32 run_pkt 12 = Some 10" by code_simp
  have y0: "ep_world ?y0 = run_world 20 10 run_ty" by (simp add: run_end_def)
  have i': "tcp_input_ipv4 (\<lambda>_. None) \<lparr>ni_ipv4_local_addr = 20, ni_ipv4_local_prefixlen = 24, ni_flags = 0x900\<rparr> run_pkt 20 (ep_world ?y0) =
      Some (fst (the run_input), snd (the run_input))" using i unfolding y0 by (simp only: run_input_def)
  have s3: "conn_step 1 (from_peer run_x) ?y0 y1"
    unfolding y1_def
  proof (rule conn_step.Input [OF h(1) g _ _ _ _ _ i'])
    show "tcb_find 10 (th_src_port h) (th_dst_port h) (ep_world ?y0) = Some (Some 1)" using h(2) y0 by simp
    show "tcb_mem (ep_world ?y0) 1 = Some run_ty" by (simp add: y0 run_world_def)
    show "from_peer run_x run_pkt 20" by (simp add: from_peer_def run_x_def)
    show "length (concat run_pkt) < 2147483648" by (simp add: run_pkt_def)
    show "\<not> continues_after_fin run_ty h" by (simp add: continues_after_fin_def run_ty_def run_tcb_def)
  qed
  have m1: "tcb_mem (ep_world y1) 1 = Some run_ty1" using run_input_ok(2) by (simp add: y1_def)
  have "conn_step 1 (from_peer run_x) y1 (y1\<lparr>ep_world := put_tcb 1 (run_ty1\<lparr>rcv_rdptr := 1\<rparr>) (ep_world y1), ep_read := ep_read y1 @ drop (length ([] :: bytes)) [1, 2, 3]\<rparr>)"
    by (rule conn_step.Read [OF m1 run_read])
  moreover have "y1\<lparr>ep_world := put_tcb 1 (run_ty1\<lparr>rcv_rdptr := 1\<rparr>) (ep_world y1), ep_read := ep_read y1 @ drop (length ([] :: bytes)) [1, 2, 3]\<rparr> = run_y"
    by (simp add: y1_def run_y_def run_end_def)
  ultimately have s4: "conn_step 1 (from_peer run_x) y1 run_y" by simp
  have "pair_step 1 1 (?x0, ?y0) (x1, ?y0)" "pair_step 1 1 (x1, ?y0) (run_x, ?y0)" by (rule pair_step.Left, rule s1 s2)+
  moreover have "pair_step 1 1 (run_x, ?y0) (run_x, y1)" "pair_step 1 1 (run_x, y1) (run_x, run_y)" by (rule pair_step.Right, rule s3 s4)+
  ultimately show ?thesis by (meson converse_rtranclp_into_rtranclp rtranclp.rtrancl_refl)
qed

lemma run_ends_fresh: "fresh_end 1 0xfffffffe 101 (run_end 10 20 run_tx)" "fresh_end 1 101 0xfffffffe (run_end 20 10 run_ty)"
proof -
  have "ring_size 16" unfolding ring_size_def by (intro exI [of _ 4]) simp
  then show "fresh_end 1 0xfffffffe 101 (run_end 10 20 run_tx)" "fresh_end 1 101 0xfffffffe (run_end 20 10 run_ty)"
    by (simp_all add: fresh_end_def opened_def run_end_def run_world_def run_tx_def run_ty_def run_tcb_def)
qed

theorem tcp_stream_prefix_witness:
  "ep_read run_y = [1, 2, 3] \<and> ep_written run_x = [1, 2, 3, 4, 5] \<and> prefix (ep_read run_y) (ep_written run_x)"
  using tcp_stream_prefix [OF run_steps run_ends_fresh] by (simp add: run_x_def run_y_def)

section \<open>Sending ends\<close>

text \<open>With a ring buffer of more than 512 bytes no copy leaves it, so an emission always comes to an end.\<close>

lemma put_bytes_ex:
  assumes "pb \<noteq> []" "off + length bs \<le> length (hd pb)"
  obtains pb' where "put_bytes off bs pb = Some pb'" "map length pb' = map length pb" "pb' \<noteq> []" "length (hd pb') = length (hd pb)"
proof -
  obtain pb' where p: "put_bytes off bs pb = Some pb'" using put_bytes_some [OF assms] by auto
  have "map length pb' = map length pb" by (rule put_bytes_nth(2) [OF p])
  moreover from this have "pb' \<noteq> []" "length (hd pb') = length (hd pb)" using assms(1) by (cases pb'; cases pb; simp)+
  ultimately show ?thesis using that p by blast
qed

lemma prepend_returns:
  assumes "pb \<noteq> []"
  shows "ipv4_prepend proto fi src dst ni pb s \<noteq> None"
proof -
  obtain f fs where pb: "pb = f # fs" using assms by (cases pb) auto
  obtain ident s1 where r: "rand_c s = (ident, s1)" by fastforce
  show ?thesis by (auto simp: ipv4_prepend_def pb r Let_def put_bytes_def buf_copy_def ipv4_header_def split: Option.bind_splits)
qed

lemma tcp_output_returns:
  assumes "pb \<noteq> []" "20 \<le> length (hd pb)"
  obtains r s' where "tcp_output pb la ra s = Some (r, s')" "length (ip_sent s') \<le> length (ip_sent s) + 1"
proof (cases "ipv4_nexthop_resolve ra s")
  case (Pair n s1)
  note rs = resolve_sent [OF Pair]
  show ?thesis
  proof (cases n)
    case None
    then show ?thesis using that Pair rs by (simp add: tcp_output_def)
  next
    case (Some nn)
    obtain p1 where p1: "put_bytes 16 [0, 0, 0, 0] pb = Some p1" "p1 \<noteq> []" "length (hd p1) = length (hd pb)"
      using put_bytes_ex [of pb 16 "[0, 0, 0, 0]"] assms by auto
    obtain p2 where p2: "(if ni_flags (netif_of s1 nn) AND NETIF_F_TX_TCP_CKSUM_OFFLOAD = 0
        then put_bytes 16 (le16 (ipv4_cksum_pbuf (ipv4_cksum_pseudo (if la = 0 then ni_ipv4_local_addr (netif_of s1 nn) else la) ra 6 (of_nat (frags_len p1)))
          p1 0 (frags_len p1))) p1 else Some p1) = Some p2" "p2 \<noteq> []"
    proof -
      have "\<exists>p2. put_bytes 16 (le16 x) p1 = Some p2 \<and> p2 \<noteq> []" for x
      proof -
        have "16 + length (le16 x) \<le> length (hd p1)" using p1(3) assms(2) by (simp add: le16_def)
        then show ?thesis using put_bytes_ex [OF p1(2), of 16 "le16 x"] by blast
      qed
      then show thesis using that p1(2) by (metis (full_types))
    qed
    obtain p3 s2 where p3: "ipv4_prepend 6 0x4000 (if la = 0 then ni_ipv4_local_addr (netif_of s1 nn) else la) ra (netif_of s1 nn) p2 s1 = Some (p3, s2)"
      using prepend_returns [OF p2(2)] by (metis not_None_eq surj_pair)
    obtain r s' where o: "ni_output_ipv4 nn ra p3 s2 = (r, s')" by fastforce
    have "tcp_output pb la ra s = Some (r, s')" unfolding tcp_output_def Pair Some prod.case option.case Let_def p1(1) bind.bind_lunit p2(1) p3 o by simp
    moreover have "length (ip_sent s') \<le> length (ip_sent s) + 1"
      using o prepend_bytes(1) [OF p3] rs by (auto simp: ni_output_ipv4_def Let_def split: list.splits)
    ultimately show ?thesis by (rule that)
  qed
qed

lemma output_tcb_returns:
  assumes pb: "pb \<noteq> []" "20 \<le> length (hd pb)"
  obtains r s' where "tcp_output_tcb tcb pb s = Some (r, s')" "length (ip_sent s') \<le> length (ip_sent s) + 1"
proof -
  obtain p1 where p1: "put_bytes 0 (le16 (tcb_local_port tcb)) pb = Some p1" "p1 \<noteq> []" "length (hd p1) = length (hd pb)"
    using put_bytes_ex [of pb 0 "le16 (tcb_local_port tcb)"] pb by auto
  obtain p2 where p2: "put_bytes 2 (le16 (tcb_remote_port tcb)) p1 = Some p2" "p2 \<noteq> []" "length (hd p2) = length (hd pb)"
    using put_bytes_ex [of p1 2 "le16 (tcb_remote_port tcb)"] p1 pb by auto
  obtain p3 where p3: "put_bytes 8 (le32 (htonl (rcv_nxt tcb))) p2 = Some p3" "p3 \<noteq> []" "length (hd p3) = length (hd pb)"
    using put_bytes_ex [of p2 8 "le32 (htonl (rcv_nxt tcb))"] p2 pb by auto
  obtain p4 where p4: "put_bytes 14 (le16 (htons (ucast (min (tcb_rxfifo_avail tcb) 65535)))) p3 = Some p4" "p4 \<noteq> []" "length (hd p4) = length (hd pb)"
    using put_bytes_ex [of p3 14 "le16 (htons (ucast (min (tcb_rxfifo_avail tcb) 65535)))"] p3 pb by auto
  define flg where "flg = concat p4 ! 13"
  have g: "get8 p4 13 = Some flg" using get8_concat [of p4 13] p4 pb by (simp add: flg_def)
  have app: "pkt_append p bs \<noteq> [] \<and> length (hd p) \<le> length (hd (pkt_append p bs))" if "p \<noteq> []" for p bs
    using that by (cases p rule: rev_cases) (auto simp: pkt_append_def hd_append)
  let ?o = "\<lambda>p5. tcp_output p5 (tcb_local_addr tcb) (tcb_remote_addr tcb) s"
  obtain p5 where p5: "tcp_output_tcb tcb pb s = ?o p5" "p5 \<noteq> []" "20 \<le> length (hd p5)"
  proof -
    obtain p b where p: "tcp_output_tcb tcb pb s = do { p5 \<leftarrow> put_bytes 12 [b] p; ?o p5 }" "p \<noteq> []" "20 \<le> length (hd p)"
    proof -
      let ?q = "pkt_append p4 [2, 4, ucast (drop_bit 8 (rcv_mss tcb)), ucast (rcv_mss tcb)]"
      let ?q2 = "pkt_append ?q [1, 3, 3, 0]"
      have q1: "?q \<noteq> []" "20 \<le> length (hd ?q)" using app [OF p4(2), of "[2, 4, ucast (drop_bit 8 (rcv_mss tcb)), ucast (rcv_mss tcb)]"] p4(3) pb(2) by auto
      have q2: "?q2 \<noteq> []" "20 \<le> length (hd ?q2)" using app [OF q1(1), of "[1, 3, 3, 0]"] q1(2) by auto
      note u = tcp_output_tcb_def [of tcb pb s, unfolded p1(1) p2(1) p3(1) p4(1) g bind.bind_lunit Let_def]
      show ?thesis
      proof (cases "has flg TCP_F_SYN")
        case False
        then show ?thesis using that [of "0x50" p4] u p4 pb by simp
      next
        case True
        show ?thesis
          by (cases "if has flg TCP_F_ACK then tcb_wnd_scale_ok tcb else True")
            (use that [of "0x70" ?q2] that [of "0x60" ?q] u True q1 q2 in \<open>simp_all split: if_splits\<close>)
      qed
    qed
    obtain p5 where "put_bytes 12 [b] p = Some p5" "p5 \<noteq> []" "length (hd p5) = length (hd p)" using put_bytes_ex [of p 12 "[b]"] p by auto
    then show ?thesis using that p by simp
  qed
  show ?thesis using tcp_output_returns [OF p5(2,3)] that p5(1) by metis
qed

lemma fill_returns:
  assumes "ring_size (tcb_txfifo_size tcb)" "length (tcb_txfifo tcb) = unat (tcb_txfifo_size tcb)" "512 < unat (tcb_txfifo_size tcb)"
  shows "fill_pb pb \<Longrightarrow> \<exists>pb' tot' s'. tcp_fill tcb b sq pb tot s = Some (pb', tot', s') \<and> fill_pb pb' \<and> ip_sent s' = ip_sent s"
proof (induction "unat b" arbitrary: b sq pb tot s rule: less_induct)
  case less
  show ?case
  proof (cases "b = 0 \<or> 1480 \<le> frags_len pb")
    case True
    then show ?thesis using less.prems by (auto simp: tcp_fill.simps)
  next
    case False
    obtain ok pb1 s1 where n: "fill_next pb s = (ok, pb1, s1)" by (metis surj_pair)
    note fo = fill_next_ok [OF less.prems n]
    define c where "c = min (1480 - frags_len pb) (min (unat b) (frag_cap pb1 - length (last pb1)))"
    have b0: "b \<noteq> 0" "frags_len pb < 1480" using False by auto
    have u: "tcp_fill tcb b sq pb tot s = (if \<not> ok then Some (pb1, tot, s1)
      else do { d \<leftarrow> wtol_memcpy (tcb_txfifo tcb) (of_nat c) sq (tcb_txfifo_size tcb);
        tcp_fill tcb (b - of_nat c) (sq + of_nat c) (pkt_append pb1 d) (tot + of_nat c) s1 })"
      unfolding c_def by (rule tcp_fill_unfold [OF b0 n less.prems])
    show ?thesis
    proof (cases ok)
      case True
      have c: "0 < c" "c \<le> unat b" "c \<le> frag_cap pb1 - length (last pb1)" using b0 fo(2) [OF True] unat_gt_0 [of b] by (auto simp: c_def)
      have c512: "c \<le> 512" using c(3) by (auto simp: frag_cap_def split: if_splits)
      then obtain d where d: "wtol_memcpy (tcb_txfifo tcb) (of_nat c) sq (tcb_txfifo_size tcb) = Some d"
        using wtol_returns [OF assms(1,2), of c sq] assms(3) by auto
      have "length d = c" using wtol_bytes(1) [OF assms(1,2) _ d] c512 assms(3) by simp
      then have fp: "fill_pb (pkt_append pb1 d)" using fill_pb_append [OF fo(1)] c(3) by simp
      have "unat (of_nat c :: u32) = c" using c512 by (simp add: unat_of_nat)
      then have "unat (b - of_nat c) < unat b" using c by (simp add: unat_sub word_le_nat_alt)
      from less.hyps [OF this fp, of "sq + of_nat c" "tot + of_nat c" s1] show ?thesis using u True d fo(4) by simp
    qed (use u fo in simp)
  qed
qed


lemma header_ex:
  obtains p1 p2 x where "put_bytes 13 [f] [replicate 20 0] = Some p1" "put_bytes 4 (le32 (htonl sq)) p1 = Some p2" "p2 = [x]" "length x = 20"
proof -
  obtain p1 where p1: "put_bytes 13 [f] [replicate 20 0] = Some p1" "p1 \<noteq> []" "length (hd p1) = 20" using put_bytes_ex [of "[replicate 20 0]" 13 "[f]"] by auto
  obtain p2 where p2: "put_bytes 4 (le32 (htonl sq)) p1 = Some p2" using put_bytes_ex [of p1 4 "le32 (htonl sq)"] p1 by auto
  obtain x where "p2 = [x]" "length x = 20" by (rule put_header [OF p1(1) p2])
  then show ?thesis using that p1(1) p2 by blast
qed

lemma emit_seg_returns:
  obtains r s' where "tcp_emit_seg f q t s = Some (r, s')" "length (ip_sent s') \<le> length (ip_sent s) + 1"
proof -
  obtain p1 p2 x where h: "put_bytes 13 [f] [replicate 20 0] = Some p1" "put_bytes 4 (le32 (htonl q)) p1 = Some p2" "p2 = [x]" "length x = 20" by (rule header_ex)
  obtain r s' where "tcp_output_tcb t p2 s = Some (r, s')" "length (ip_sent s') \<le> length (ip_sent s) + 1"
    using output_tcb_returns [of p2 t s] h(3,4) by auto
  then show ?thesis using that h by (simp add: tcp_emit_seg_def)
qed

lemma emit_data_returns:
  assumes t: "ring_size (tcb_txfifo_size t)" "length (tcb_txfifo t) = unat (tcb_txfifo_size t)" "512 < unat (tcb_txfifo_size t)"
  obtains err t' s' where "tcp_emit_data b q t s = Some (err, t', s')" "length (ip_sent s') \<le> length (ip_sent s) + 1"
proof -
  obtain p1 p2 x where h: "put_bytes 13 [TCP_F_PSH OR TCP_F_ACK] [replicate 20 0] = Some p1" "put_bytes 4 (le32 (htonl q)) p1 = Some p2" "p2 = [x]" "length x = 20"
    by (rule header_ex)
  have fp: "fill_pb p2" using h(3,4) by (simp add: fill_pb_def frag_cap_def)
  obtain pb tot s1 where f: "tcp_fill t b q p2 0 s = Some (pb, tot, s1)" and k: "fill_pb pb" "ip_sent s1 = ip_sent s" using fill_returns [OF t fp, of b q 0 s] by auto
  obtain r s' where o: "tcp_output_tcb t pb s1 = Some (r, s')" "length (ip_sent s') \<le> length (ip_sent s1) + 1"
    using output_tcb_returns [of pb t s1] k by (auto simp: fill_pb_def)
  have "\<exists>err t'. tcp_emit_data b q t s = Some (err, t', s')" using h f o(1) by (simp add: tcp_emit_data_def)
  then show ?thesis using that o(2) k(2) by auto
qed

lemma emit_returns:
  assumes inv: "snd_inv tcb ws" and sz: "512 < unat (tcb_txfifo_size tcb)"
  obtains err tcb' s' where "tcp_emit hp sq ga tcb s = Some (err, tcb', s')" "length (ip_sent s') \<le> length (ip_sent s) + 1"
proof -
  obtain ok s0 where p: "(if hp then (True, s) else pbuf_ans s) = (ok, s0)" by fastforce
  have s0: "ip_sent s0 = ip_sent s" using p ans_sent(3) [of s] by (cases hp) (auto dest: arg_cong [of _ _ snd])
  define t0 where "t0 = tcb\<lparr>tcb_delayed_ack_timer := 0\<rparr>"
  have t0: "ring_size (tcb_txfifo_size t0)" "length (tcb_txfifo t0) = unat (tcb_txfifo_size t0)" "512 < unat (tcb_txfifo_size t0)"
    using inv sz by (auto simp: t0_def snd_inv_def snd_at_def ring_holds_def)
  have "\<exists>r. tcp_emit hp sq ga tcb s = Some r \<and> length (ip_sent (snd (snd r))) \<le> length (ip_sent s0) + 1"
  proof (cases ok)
    case True
    note u = tcp_emit_def [of hp sq ga tcb s, unfolded p Let_def t0_def [symmetric], simplified True prod.case]
    obtain r1 s1 r2 s2 r3 s3 r4 t4 s4 where
      "tcp_emit_seg (tcb_pending_syn t0) (tcb_iss t0) t0 s0 = Some (r1, s1)" "length (ip_sent s1) \<le> length (ip_sent s0) + 1"
      "tcp_emit_seg TCP_F_ACK sq t0 s0 = Some (r2, s2)" "length (ip_sent s2) \<le> length (ip_sent s0) + 1"
      "tcp_emit_seg (tcb_pending_fin t0) sq (t0\<lparr>snd_nxt := snd_wrptr t0\<rparr>) s0 = Some (r3, s3)" "length (ip_sent s3) \<le> length (ip_sent s0) + 1"
      "tcp_emit_data (if tcb_pending_fin t0 \<noteq> 0 then emit_bytes sq t0 - 1 else emit_bytes sq t0) sq t0 s0 = Some (r4, t4, s4)" "length (ip_sent s4) \<le> length (ip_sent s0) + 1"
      by (metis emit_seg_returns emit_data_returns [OF t0])
    then show ?thesis unfolding u by simp
  qed (simp add: tcp_emit_def p)
  then show ?thesis using that s0 by auto
qed

text \<open>
  C35. The loop of the network task that sends what was written comes to an end when no SYN is pending and the
  ring buffer for sending is larger than 512 bytes, and it sends at most
  one segment for each byte that was waiting: every segment it sends without an error takes at least one byte of the
  stream, or the FIN, off the backlog. The state of the sender is one that the operations keep (\<open>snd_inv\<close>). With a
  SYN pending (\<open>tcb_pending_syn\<close> not 0) the loop can repeat the SYN without end (\<^verbatim>\<open>tcp.c\<close> line 1411).
\<close>

theorem tcp_emit_loop_returns:
  assumes "snd_inv tcb ws" "tcb_pending_syn tcb = 0" "512 < unat (tcb_txfifo_size tcb)"
  shows "\<exists>tcb' s'. tcp_emit_loop force tcb s = Some (tcb', s') \<and>
    length (ip_sent s') \<le> length (ip_sent s) + unat (snd_wrptr tcb - snd_nxt tcb)"
  using assms
proof (induction "unat (snd_wrptr tcb - snd_nxt tcb)" arbitrary: tcb s rule: less_induct)
  case less
  show ?case
  proof (cases "snd_wrptr tcb = snd_nxt tcb \<or> wnd_room tcb = 0 \<or>
      \<not> force \<and> snd_wrptr tcb - snd_nxt tcb < ucast (tcb_max_segment_size tcb) \<and> snd_una tcb \<noteq> snd_nxt tcb")
    case True
    then show ?thesis by (subst tcp_emit_loop.simps) auto
  next
    case False
    obtain err t1 s1 where e: "tcp_emit False (snd_nxt tcb) False tcb s = Some (err, t1, s1)" "length (ip_sent s1) \<le> length (ip_sent s) + 1"
      by (rule emit_returns [OF less.prems(1,3)])
    have em: "emitted (snd_nxt tcb) tcb ws s err t1 s1" by (rule emit_ok [OF e(1) less.prems(1)]) simp
    have b: "emit_bytes (snd_nxt tcb) tcb \<noteq> 0" using False by (auto simp: emit_bytes_def Let_def min_def)
    have w: "0 < unat (snd_wrptr tcb - snd_nxt tcb)" using False by (simp add: unat_gt_0)
    have u: "tcp_emit_loop force tcb s = (if err \<noteq> 0 then Some (t1, s1) else tcp_emit_loop force t1 s1)"
      using False e(1) by (subst tcp_emit_loop.simps) auto
    show ?thesis
    proof (cases "err = 0")
      case True
      have lt: "unat (snd_wrptr t1 - snd_nxt t1) < unat (snd_wrptr tcb - snd_nxt tcb)" using em True b less.prems(2) by (simp add: emitted_def)
      have "snd_inv t1 ws" "tcb_pending_syn t1 = 0" "512 < unat (tcb_txfifo_size t1)" using em less.prems by (auto simp: emitted_def emit_frame_def)
      then obtain t2 s2 where "tcp_emit_loop force t1 s1 = Some (t2, s2)" "length (ip_sent s2) \<le> length (ip_sent s1) + unat (snd_wrptr t1 - snd_nxt t1)"
        using less.hyps [OF lt] by blast
      then show ?thesis using u True e(2) lt by simp
    qed (use u e(2) w in simp)
  qed
qed

section \<open>Opening a connection\<close>

subsection \<open>A segment without data on the wire\<close>

text \<open>The bytes of a segment that is a header only, and what a receiver reads in the packet that carries it.\<close>

definition seg_options :: "u8 \<Rightarrow> tcb \<Rightarrow> bytes" where
  "seg_options f tcb = (if has f TCP_F_SYN then [2, 4, ucast (drop_bit 8 (rcv_mss tcb)), ucast (rcv_mss tcb)] @
     (if has f TCP_F_ACK \<longrightarrow> tcb_wnd_scale_ok tcb then [1, 3, 3, 0] else []) else [])"

definition seg_bytes :: "u8 \<Rightarrow> u32 \<Rightarrow> tcb \<Rightarrow> bytes" where
  "seg_bytes f q tcb = le16 (tcb_local_port tcb) @ le16 (tcb_remote_port tcb) @ le32 (htonl q) @ le32 (htonl (rcv_nxt tcb)) @
     [if seg_options f tcb = [] then 0x50 else if length (seg_options f tcb) = 4 then 0x60 else 0x70, f] @
     le16 (htons (ucast (min (tcb_rxfifo_avail tcb) 65535))) @ [0, 0, 0, 0] @ seg_options f tcb"

lemma emit_seg_bytes: "tcp_emit_seg f q tcb s = tcp_output [seg_bytes f q tcb] (tcb_local_addr tcb) (tcb_remote_addr tcb) s"
proof -
  have l16: "\<exists>a b. le16 x = [a, b]" for x by (simp add: le16_def)
  have l32: "\<exists>a b c d. le32 x = [a, b, c, d]" for x by (simp add: le32_def)
  obtain a0 a1 b0 b1 w0 w1 where l: "le16 (tcb_local_port tcb) = [a0, a1]" "le16 (tcb_remote_port tcb) = [b0, b1]"
    "le16 (htons (ucast (min (tcb_rxfifo_avail tcb) 65535))) = [w0, w1]" using l16 by metis
  obtain q0 q1 q2 q3 r0 r1 r2 r3 where m: "le32 (htonl q) = [q0, q1, q2, q3]" "le32 (htonl (rcv_nxt tcb)) = [r0, r1, r2, r3]" using l32 by metis
  show ?thesis
    by (simp add: tcp_emit_seg_def tcp_output_tcb_def put_bytes_def buf_copy_def eval_nat_numeral l m seg_bytes_def seg_options_def
        pkt_append_def get8_def buf_rd_def Let_def)
qed

lemma tcp_output_sent:
  assumes "tcp_output pb la ra s = Some (r, s')" "map_of (ipv4_nexthops s) ra = Some n"
  obtains p where "ip_sent s' = ip_sent s @ [(n, ra, p)]" "same_tcp (concat pb) (concat p)"
proof -
  have "find (\<lambda>(a, _). a = ra) xs = Some (ra, n)" if "map_of xs ra = Some n" for xs :: "(u32 \<times> nat) list"
    using that by (induction xs) (auto split: if_splits)
  from this [OF assms(2)] have n: "ipv4_nexthop_resolve ra s = (Some n, s)" by (simp add: ipv4_nexthop_resolve_def)
  have "\<exists>p. ip_sent s' = ip_sent s @ [(n, ra, p)]"
    using assms(1) by (auto simp: tcp_output_def n Let_def ni_output_ipv4_def dest!: prepend_bytes(1) split: Option.bind_splits list.splits if_splits)
  then show ?thesis using that tcp_output_sends [OF assms(1)] by (fastforce simp: sends_def)
qed

lemma same_tcp_hdr:
  assumes "same_tcp c (concat p)" "tcp_header [c] = Some (Some h)" "20 \<le> length c"
  shows "seg_hdr p 20 = Some h"
proof -
  let ?x = "drop 20 (concat p)"
  have lx: "length ?x = length c" using assms(1) by (simp add: same_tcp_def)
  have x: "?x ! i = c ! i" if "i < length c" "\<not> (16 \<le> i \<and> i < 20)" for i
    using assms(1) that by (subst nth_drop) (auto simp: same_tcp_def)
  have e: "?x ! i = c ! i" if "i < 16" for i using x [of i] that assms(3) by simp
  have n: "?x ! 0 = c ! 0" "?x ! 1 = c ! 1" "?x ! 2 = c ! 2" "?x ! 3 = c ! 3" "?x ! 4 = c ! 4" "?x ! 5 = c ! 5" "?x ! 6 = c ! 6" "?x ! 7 = c ! 7"
    "?x ! 8 = c ! 8" "?x ! 9 = c ! 9" "?x ! 10 = c ! 10" "?x ! 11 = c ! 11" "?x ! 12 = c ! 12" "?x ! 13 = c ! 13" "?x ! 14 = c ! 14" "?x ! 15 = c ! 15"
    by (rule e; simp)+
  have "20 \<le> length ?x" using assms(3) lx by simp
  then have "tcp_header [?x] = tcp_header [c]" by (simp only: tcp_header_single [OF assms(3)] tcp_header_single lx n)
  then show ?thesis using assms(2) by (simp add: seg_hdr_def)
qed

text \<open>The packet \<open>p\<close> carries a segment of the connection without data, with the flags \<open>f\<close> and the sequence
  number \<open>q\<close>, that acknowledges all that the connection received.\<close>

definition seg_says :: "pkt \<Rightarrow> tcb \<Rightarrow> u8 \<Rightarrow> u32 \<Rightarrow> bool" where
  "seg_says p tcb f q \<longleftrightarrow> (case seg_hdr p 20 of None \<Rightarrow> False
     | Some s \<Rightarrow> th_src_port s = tcb_local_port tcb \<and> th_dst_port s = tcb_remote_port tcb \<and> th_flg s = f \<and> th_seq s = q \<and> th_ack s = rcv_nxt tcb) \<and>
     seg_text p 20 = []"

lemma seg_bytes_hdr:
  obtains h where "tcp_header [seg_bytes f q tcb] = Some (Some h)" "th_src_port h = tcb_local_port tcb" "th_dst_port h = tcb_remote_port tcb"
    "th_flg h = f" "th_seq h = q" "th_ack h = rcv_nxt tcb" "th_hdr_len h = length (seg_bytes f q tcb)"
proof -
  define x where "x = seg_bytes f q tcb"
  define c where "c = length (seg_options f tcb)"
  have c: "c = 0 \<or> c = 4 \<or> c = 8" by (simp add: c_def seg_options_def)
  have l: "length x = 20 + c" by (simp add: x_def seg_bytes_def c_def)
  have b: "x ! 12 = (if c = 0 then 0x50 else if c = 4 then 0x60 else 0x70)" by (simp add: x_def seg_bytes_def c_def le16_def le32_def)
  have h: "unat (drop_bit 2 (x ! 12 AND 0xf0)) = length x" using c b l hdr_len_bits by (elim disjE) simp_all
  have f: "le16_dec (x ! 0) (x ! 1) = tcb_local_port tcb" "le16_dec (x ! 2) (x ! 3) = tcb_remote_port tcb"
    "htonl (le32_dec (x ! 4) (x ! 5) (x ! 6) (x ! 7)) = q" "htonl (le32_dec (x ! 8) (x ! 9) (x ! 10) (x ! 11)) = rcv_nxt tcb" "x ! 13 = f"
    by (simp_all add: x_def seg_bytes_def le16_def le32_def le16_dec_le16 le32_dec_le32)
  have "20 \<le> length x" using l by simp
  note t = tcp_header_single [OF this, unfolded h f Let_def]
  show thesis using that t l unfolding x_def by simp
qed

lemma seg_bytes_says:
  assumes "same_tcp (seg_bytes f q tcb) (concat p)"
  shows "seg_says p tcb f q"
proof -
  obtain h where h: "tcp_header [seg_bytes f q tcb] = Some (Some h)" "th_src_port h = tcb_local_port tcb" "th_dst_port h = tcb_remote_port tcb"
    "th_flg h = f" "th_seq h = q" "th_ack h = rcv_nxt tcb" "th_hdr_len h = length (seg_bytes f q tcb)" by (rule seg_bytes_hdr)
  have l: "20 \<le> length (seg_bytes f q tcb)" by (simp add: seg_bytes_def)
  have "length (concat p) = 20 + length (seg_bytes f q tcb)" using assms by (simp add: same_tcp_def)
  then show ?thesis using same_tcp_hdr [OF assms h(1) l] h by (simp add: seg_says_def seg_text_def)
qed

lemma emit_seg_sent:
  assumes "tcp_emit_seg f q tcb s = Some (r, s')" "map_of (ipv4_nexthops s) (tcb_remote_addr tcb) = Some n"
  shows "\<exists>p. ip_sent s' = ip_sent s @ [(n, tcb_remote_addr tcb, p)] \<and> seg_says p tcb f q"
  using tcp_output_sent [OF assms(1) [unfolded emit_seg_bytes] assms(2)] seg_bytes_says by (metis concat.simps append_Nil2)

subsection \<open>The handshake\<close>

text \<open>While a SYN is pending an emission sends that SYN and changes nothing else.\<close>

lemma emit_syn:
  assumes "tcp_emit hp sq ga tcb s = Some (err, tcb', s')" "tcb_pending_syn tcb \<noteq> 0"
  shows "\<exists>d. tcb' = tcb\<lparr>tcb_delayed_ack_timer := d\<rparr>" "outs (seg_ok q ws) s s'"
proof -
  obtain ok s0 where p: "(if hp then (True, s) else pbuf_ans s) = (ok, s0)" by fastforce
  have o0: "outs (seg_ok q ws) s s0" using p outs_pbuf by (auto split: if_splits)
  have "(\<exists>d. tcb' = tcb\<lparr>tcb_delayed_ack_timer := d\<rparr>) \<and> outs (seg_ok q ws) s s'"
  proof (cases ok)
    case True
    then have "tcb' = tcb\<lparr>tcb_delayed_ack_timer := 0\<rparr>" "outs (seg_ok q ws) s0 s'"
      using assms emit_seg_outs by (auto simp: tcp_emit_def p Let_def split: Option.bind_splits)
    then show ?thesis using outs_trans [OF o0] by blast
  next
    case False
    then have "tcb' = tcb" "s' = s0" using assms(1) by (auto simp: tcp_emit_def p)
    then show ?thesis using o0 by (auto intro!: exI [of _ "tcb_delayed_ack_timer tcb"])
  qed
  then show "\<exists>d. tcb' = tcb\<lparr>tcb_delayed_ack_timer := d\<rparr>" "outs (seg_ok q ws) s s'" by auto
qed

lemma send_syn_fields:
  assumes "tcp_send_syn now flags hp tcb s = Some (tcb', s')" "flags \<noteq> 0"
  shows "\<exists>d t. tcb' = tcb\<lparr>tcb_rtx_timer := t, tcb_pending_syn := flags, snd_nxt := snd_nxt tcb + 1, tcb_delayed_ack_timer := d\<rparr>" "outs (seg_ok q ws) s s'"
proof -
  define t1 where "t1 = (if snd_una tcb = snd_nxt tcb then tcb\<lparr>tcb_rtx_timer := now + ms_to_us (tcb_rto tcb)\<rparr> else tcb)\<lparr>tcb_pending_syn := flags, snd_nxt := snd_nxt tcb + 1\<rparr>"
  have t1: "\<exists>t. t1 = tcb\<lparr>tcb_rtx_timer := t, tcb_pending_syn := flags, snd_nxt := snd_nxt tcb + 1\<rparr>"
    unfolding t1_def by (intro exI [of _ "if snd_una tcb = snd_nxt tcb then now + ms_to_us (tcb_rto tcb) else tcb_rtx_timer tcb"]) simp
  obtain e where em: "tcp_emit hp (snd_nxt t1) False t1 s = Some (e, tcb', s')"
    using assms(1) by (auto simp: tcp_send_syn_def Let_def t1_def split: Option.bind_splits if_splits)
  have ps: "tcb_pending_syn t1 \<noteq> 0" using assms(2) by (simp add: t1_def)
  show "\<exists>d t. tcb' = tcb\<lparr>tcb_rtx_timer := t, tcb_pending_syn := flags, snd_nxt := snd_nxt tcb + 1, tcb_delayed_ack_timer := d\<rparr>"
    using emit_syn(1) [OF em ps] t1 by auto
  show "outs (seg_ok q ws) s s'" by (rule emit_syn(2) [OF em ps])
qed

lemma parse_options_fields:
  assumes "tcp_parse_options tcb buf len = Some tcb'"
  shows "snd_part tcb' = snd_part tcb \<and> rcv_part tcb' = rcv_part tcb \<and> tcb_state tcb' = tcb_state tcb"
  apply (rule tcp_parse_options.raw_induct [where P = "\<lambda>tcb buf len tcb'. snd_part tcb' = snd_part tcb \<and> rcv_part tcb' = rcv_part tcb \<and> tcb_state tcb' = tcb_state tcb", OF _ assms])
  subgoal premises 1 for loop tcb buf len r
    using 1(2) by (auto simp: Let_def snd_part_def rcv_part_def split: if_splits Option.bind_splits dest!: 1(1))
  done

lemma ring_size_pow: "0 < k \<Longrightarrow> k < 31 \<Longrightarrow> ring_size (push_bit k 1)"
  by (auto simp: ring_size_def push_bit_eq_mult)

lemma syn_ack_flags: "TCP_F_SYN OR TCP_F_ACK \<noteq> 0" "has (TCP_F_SYN OR TCP_F_ACK) TCP_F_SYN" "TCP_F_SYN \<noteq> 0" "has TCP_F_SYN TCP_F_SYN"
  by (simp_all add: TCP_F_SYN_def TCP_F_ACK_def has_def)


lemma ring_size_socket:
  assumes "x < 0x80000000"
  shows "ring_size (max (round_down_pow2 x) 2048)"
proof (cases "round_down_pow2 x \<le> 2048")
  case True
  have "ring_size (push_bit 11 1)" by (rule ring_size_pow) simp_all
  then show ?thesis using True by (simp add: max_def)
next
  case False
  then have x: "x \<noteq> 0" by (auto simp: round_down_pow2_def)
  define k where "k = 31 - clz32 x"
  have r: "round_down_pow2 x = push_bit k 1" using x by (simp add: round_down_pow2_def k_def)
  have "bit x k" using clz32_top(2) [OF x] by (simp add: k_def)
  moreover have "\<not> bit x 31"
  proof
    assume b: "bit x 31"
    have "unat x < 2 ^ 31" using assms by (simp add: word_less_nat_alt)
    then have "unat (take_bit 31 x) = unat x" by (simp add: unsigned_take_bit_eq take_bit_nat_eq_self)
    then have "take_bit 31 x = x" by (simp add: word_unat_eq_iff)
    then have "bit (take_bit 31 x) 31" using b by simp
    then show False by (simp add: bit_take_bit_iff)
  qed
  ultimately have k: "k < 31" by (cases "k = 31") (auto simp: k_def)
  have "0 < k" using False r by (cases k) (auto simp: push_bit_eq_mult)
  from ring_size_pow [OF this k] show ?thesis using False unfolding r by (simp add: max_def)
qed

definition connecting :: "tcb \<Rightarrow> bool" where
  "connecting tcb \<longleftrightarrow> tcb_state tcb = TCP_STATE_SYN_SENT \<and> tcb_pending_syn tcb = TCP_F_SYN \<and> tcb_pending_fin tcb = 0 \<and> \<not> tcb_fin_received tcb \<and>
     ring_size (tcb_txfifo_size tcb) \<and> length (tcb_txfifo tcb) = unat (tcb_txfifo_size tcb) \<and>
     ring_size (tcb_rxfifo_size tcb) \<and> length (tcb_rxfifo tcb) = unat (tcb_rxfifo_size tcb) \<and>
     snd_una tcb = tcb_iss tcb \<and> snd_nxt tcb = tcb_iss tcb + 1 \<and> snd_wrptr tcb = tcb_iss tcb + 1"

lemma set_state_eq: "tcp_set_state st tcb = tcb\<lparr>tcb_state := st\<rparr>"
  by (cases tcb) (simp add: tcp_set_state_def)

lemma socket_connecting:
  assumes s: "tcp_create_socket tx rx w = (a, w1)" "a \<noteq> 0" "tx < 0x80000000" "rx < 0x80000000" and m: "tcb_mem w1 a = Some t1"
    and c: "tcp_do_connect a (put_tcb a (tcp_connect addr port t1) w1) = Some w2" and m2: "tcb_mem w2 a = Some t2"
  shows "connecting t2"
proof -
  let ?c = "tcp_connect addr port t1"
  have f1: "tcb_pending_fin t1 = 0" "\<not> tcb_fin_received t1" "ring_size (tcb_txfifo_size t1)" "length (tcb_txfifo t1) = unat (tcb_txfifo_size t1)"
    "ring_size (tcb_rxfifo_size t1)" "length (tcb_rxfifo t1) = unat (tcb_rxfifo_size t1)" "snd_una t1 = tcb_iss t1" "snd_nxt t1 = tcb_iss t1" "snd_wrptr t1 = tcb_iss t1 + 1"
    using s m ring_size_socket [OF s(3)] ring_size_socket [OF s(4)]
    by (auto simp: tcp_create_socket_def tcb_create_def Let_def split: prod.splits if_splits)
  obtain lp w0 t3 w3 where sy: "tcp_send_syn (clock w0) TCP_F_SYN False (?c\<lparr>tcb_local_port := lp, tcb_last_rx := clock w0\<rparr>) w0 = Some (t3, w3)"
    and w2: "w2 = (put_tcb a t3 w3)\<lparr>tcbs := a # tcbs (put_tcb a t3 w3)\<rparr>"
    using c by (auto simp: tcp_do_connect_def Let_def split: Option.bind_splits)
  have "t2 = t3" using m2 w2 by (simp add: put_tcb_def)
  then show ?thesis using send_syn_fields(1) [OF sy syn_ack_flags(3)] f1
    by (auto simp: connecting_def tcp_connect_def tcb_raise_def set_state_eq)
qed

lemma socket_iss:
  assumes "tcp_do_connect a (put_tcb a (tcp_connect addr port t1) w1) = Some w2" "tcb_mem w2 a = Some t2"
  shows "tcb_iss t2 = tcb_iss t1"
proof -
  obtain lp w0 t3 w3 where sy: "tcp_send_syn (clock w0) TCP_F_SYN False (tcp_connect addr port t1\<lparr>tcb_local_port := lp, tcb_last_rx := clock w0\<rparr>) w0 = Some (t3, w3)"
    and w2: "w2 = (put_tcb a t3 w3)\<lparr>tcbs := a # tcbs (put_tcb a t3 w3)\<rparr>"
    using assms(1) by (auto simp: tcp_do_connect_def Let_def split: Option.bind_splits)
  have "t2 = t3" using assms(2) w2 by (simp add: put_tcb_def)
  then show ?thesis using send_syn_fields(1) [OF sy syn_ack_flags(3)] by (auto simp: tcp_connect_def tcb_raise_def set_state_eq)
qed

lemma syn_sent_opened:
  assumes c: "connecting t2" and f: "has (th_flg h) TCP_F_SYN" "has (th_flg h) TCP_F_ACK" "\<not> has (th_flg h) TCP_F_RST" "th_ack h = tcb_iss t2 + 1"
  shows "\<exists>w' t4. tcp_input_syn_sent ni h ra a t2 w = Some (False, w') \<and> tcb_mem w' a = Some t4 \<and> tcb_state t4 = TCP_STATE_ESTABLISHED \<and>
    opened (tcb_iss t2 + 1) (th_seq h + 1) t4 \<and> tcb_pending_syn t4 = 0 \<and>
    (\<forall>n. map_of (ipv4_nexthops w) (tcb_remote_addr t2) = Some n \<longrightarrow>
      (\<exists>p. ip_sent w' = ip_sent w @ [(n, tcb_remote_addr t2, p)] \<and> seg_says p t4 TCP_F_ACK (tcb_iss t2 + 1)))"
proof -
  have st2: "snd_una t2 = tcb_iss t2" "snd_nxt t2 = tcb_iss t2 + 1" using c by (auto simp: connecting_def)
  define t3 where "t3 = tcp_ack (t2\<lparr>tcb_last_rx := clock w, rcv_nxt := th_seq h + 1, rcv_rdptr := th_seq h + 1\<rparr>) 1"
  define t3' where "t3' = tcp_set_state TCP_STATE_ESTABLISHED (t3\<lparr>snd_wnd := ucast (th_wnd h), snd_wl1 := th_seq h, snd_wl2 := th_ack h, tcb_timo := TCP_TIMEOUT_INTERVAL * 1000\<rparr>)"
  define t4 where "t4 = t3'\<lparr>tcb_delayed_ack_timer := 0\<rparr>"
  have sd: "sdiff (x + 1) x = 1" "sdiff x x = 0" for x by (simp_all add: sdiff_def)
  have una: "snd_una t3 = tcb_iss t2 + 1" "tcb_iss t3 = tcb_iss t2"
    by (auto simp: t3_def Let_def tcp_ack_def arm_rtx_def tcb_raise_def st2)
  have i: "tcp_input_syn_sent ni h ra a t2 w = do { (_, tcb, w) \<leftarrow> tcp_emit True (snd_nxt t3') True t3' w; Some (False, put_tcb a tcb w) }"
    unfolding tcp_input_syn_sent_def Let_def using f una
    by (simp add: st2 sd t3'_def t3_def [symmetric])
  have o3: "opened (tcb_iss t2 + 1) (th_seq h + 1) t3'" "tcb_pending_syn t3' = 0" "tcb_state t3' = TCP_STATE_ESTABLISHED" "tcb_remote_addr t3' = tcb_remote_addr t2"
    using c f(2) by (auto simp: t3'_def t3_def Let_def opened_def connecting_def tcp_ack_def arm_rtx_def tcb_raise_def set_state_eq)
  have "emit_bytes (snd_nxt t4) t4 = 0" using o3(1) by (simp add: t4_def opened_def emit_bytes_def Let_def)
  then have em: "tcp_emit True (snd_nxt t3') True t3' w = do { (r, s) \<leftarrow> tcp_emit_seg TCP_F_ACK (snd_nxt t4) t4 w; Some (r, t4, s) }"
    using o3(2) by (simp add: tcp_emit_def t4_def Let_def)
  obtain r s where e: "tcp_emit_seg TCP_F_ACK (snd_nxt t4) t4 w = Some (r, s)" using emit_seg_returns by metis
  have ie: "tcp_input_syn_sent ni h ra a t2 w = Some (False, put_tcb a t4 s)" by (simp add: i em e)
  have o4: "opened (tcb_iss t2 + 1) (th_seq h + 1) t4" "tcb_pending_syn t4 = 0" "tcb_state t4 = TCP_STATE_ESTABLISHED" "tcb_remote_addr t4 = tcb_remote_addr t2" "snd_nxt t4 = tcb_iss t2 + 1"
    using o3 by (auto simp: t4_def opened_def)
  show ?thesis using emit_seg_sent [OF e] o4 by (intro exI [of _ "put_tcb a t4 s"] exI [of _ t4]) (simp add: ie put_tcb_def)
qed

lemma socket_remote:
  assumes "tcp_do_connect a (put_tcb a (tcp_connect addr port t1) w1) = Some w2" "tcb_mem w2 a = Some t2"
  shows "tcb_remote_addr t2 = addr"
proof -
  obtain lp w0 t3 w3 where sy: "tcp_send_syn (clock w0) TCP_F_SYN False (tcp_connect addr port t1\<lparr>tcb_local_port := lp, tcb_last_rx := clock w0\<rparr>) w0 = Some (t3, w3)"
    and w2: "w2 = (put_tcb a t3 w3)\<lparr>tcbs := a # tcbs (put_tcb a t3 w3)\<rparr>"
    using assms(1) by (auto simp: tcp_do_connect_def Let_def split: Option.bind_splits)
  have "t2 = t3" using assms(2) w2 by (simp add: put_tcb_def)
  then show ?thesis using send_syn_fields(1) [OF sy syn_ack_flags(3)] by (auto simp: tcp_connect_def tcb_raise_def set_state_eq)
qed

text \<open>
  C36. An active open: let \<^verbatim>\<open>tcp_create_socket\<close> have given a new socket with ring buffers of less than
  2 GiB and let the network task have connected it, its SYN being out. A segment for it with the
  flags SYN and ACK and without RST that acknowledges the SYN, that is the initial sequence number drawn plus
  one, makes the connection established, whatever else the host did in between: its own stream starts
  after the initial sequence number, the peer's after the sequence number of the answer, nothing is
  written or received yet and no SYN is pending. The step returns, and with a known next hop to the peer
  it sends exactly one packet, an ACK of the answer.
\<close>

theorem tcp_active_open:
  assumes "tcp_create_socket tx rx w = (a, w1)" "a \<noteq> 0" "tx < 0x80000000" "rx < 0x80000000" "tcb_mem w1 a = Some t1"
    and "tcp_do_connect a (put_tcb a (tcp_connect addr port t1) w1) = Some w2" "tcb_mem w2 a = Some t2"
    and "has (th_flg h) TCP_F_SYN" "has (th_flg h) TCP_F_ACK" "\<not> has (th_flg h) TCP_F_RST" "th_ack h = tcb_iss t1 + 1"
    and "map_of (ipv4_nexthops w3) addr = Some n"
  shows "\<exists>w4 t4 p. tcp_input_syn_sent ni h ra a t2 w3 = Some (False, w4) \<and> tcb_mem w4 a = Some t4 \<and> tcb_state t4 = TCP_STATE_ESTABLISHED \<and>
    opened (tcb_iss t1 + 1) (th_seq h + 1) t4 \<and> tcb_pending_syn t4 = 0 \<and>
    ip_sent w4 = ip_sent w3 @ [(n, addr, p)] \<and> seg_says p t4 TCP_F_ACK (tcb_iss t1 + 1)"
proof -
  have c: "connecting t2" by (rule socket_connecting [OF assms(1-7)])
  have i: "tcb_iss t2 = tcb_iss t1" "tcb_remote_addr t2 = addr" using socket_iss [OF assms(6,7)] socket_remote [OF assms(6,7)] by auto
  show ?thesis using syn_sent_opened [OF c assms(8-10), of ni ra a w3] assms(11,12) by (fastforce simp: i)
qed

lemma default_ring_sizes: "ring_size 4096" "ring_size 2048"
  using ring_size_pow [of 12] ring_size_pow [of 11] by simp_all

text \<open>The options of a header that the loop over them gets through: no option has length 0, and none is cut off by the
  end of the buffer.\<close>

function options_end :: "bytes \<Rightarrow> nat \<Rightarrow> bool" where
  "options_end buf len =
     (if len = 0 then True
      else if buf = [] then False
      else if buf ! 0 = 0 then True
      else if buf ! 0 = 1 then options_end (drop 1 buf) (len - 1)
      else if len < 2 then True
      else if length buf < 2 then False
      else if len < unat (buf ! 1) then True
      else if buf ! 1 = 0 \<or> buf ! 0 = 2 \<and> length buf < 4 \<or> buf ! 0 = 3 \<and> buf ! 1 = 3 \<and> length buf < 3 then False
      else options_end (drop (unat (buf ! 1)) buf) (len - unat (buf ! 1)))"
  by pat_completeness auto
termination by (relation "measure snd") (auto simp: unat_gt_0)

declare options_end.simps [simp del]

lemma parse_options_returns: "options_end buf len \<Longrightarrow> \<exists>t. tcp_parse_options tcb buf len = Some t"
proof (induction buf len arbitrary: tcb rule: options_end.induct)
  case (1 buf len)
  have u: "unat (buf ! 1) = 3 \<longleftrightarrow> buf ! 1 = 3" by (simp add: word_unat_eq_iff)
  note o = 1(3) [unfolded options_end.simps [of buf len]]
  show ?case
  proof (cases "len = 0 \<or> buf ! 0 = 0 \<or> buf ! 0 = 1 \<or> len < 2 \<or> len < unat (buf ! 1)")
    case True
    then show ?thesis using o 1(1)
      by (subst tcp_parse_options.simps) (auto simp: buf_rd_def Let_def split: if_splits)
  next
    case False
    then have g: "1 < length buf" "buf ! 1 \<noteq> 0" "buf ! 0 = 2 \<longrightarrow> \<not> length buf < 4" "buf ! 0 = 3 \<longrightarrow> buf ! 1 = 3 \<longrightarrow> \<not> length buf < 3"
      "options_end (drop (unat (buf ! 1)) buf) (len - unat (buf ! 1))" using o by (auto split: if_splits)
    have "buf \<noteq> []" using g(1) by auto
    moreover have IH: "\<exists>t. tcp_parse_options tcb (drop (unat (buf ! 1)) buf) (len - unat (buf ! 1)) = Some t" for tcb
      using 1(2) [of tcb] False g calculation by auto
    ultimately show ?thesis using False g(1-4) IH u
      by (subst tcp_parse_options.simps) (auto simp: buf_rd_def Let_def)
  qed
qed


definition addr_part :: "tcb \<Rightarrow> u32 \<times> u16 \<times> u16" where
  "addr_part tcb = (tcb_remote_addr tcb, tcb_local_port tcb, tcb_remote_port tcb)"

lemma parse_options_addr:
  assumes "tcp_parse_options tcb buf len = Some tcb'"
  shows "addr_part tcb' = addr_part tcb"
  apply (rule tcp_parse_options.raw_induct [where P = "\<lambda>tcb buf len tcb'. addr_part tcb' = addr_part tcb", OF _ assms])
  subgoal premises 1 for loop tcb buf len r
    using 1(2) by (auto simp: Let_def addr_part_def split: if_splits Option.bind_splits dest!: 1(1))
  done

lemma send_syn_sent:
  assumes "flags \<noteq> 0"
  obtains tcb' s' where "tcp_send_syn now flags True tcb s = Some (tcb', s')"
    "map_of (ipv4_nexthops s) (tcb_remote_addr tcb) = Some n \<Longrightarrow>
      \<exists>p. ip_sent s' = ip_sent s @ [(n, tcb_remote_addr tcb, p)] \<and> seg_says p tcb' flags (tcb_iss tcb)"
proof -
  define t1 where "t1 = (if snd_una tcb = snd_nxt tcb then tcb\<lparr>tcb_rtx_timer := now + ms_to_us (tcb_rto tcb)\<rparr> else tcb)
    \<lparr>tcb_pending_syn := flags, snd_nxt := snd_nxt tcb + 1, tcb_delayed_ack_timer := 0\<rparr>"
  obtain r s' where e: "tcp_emit_seg flags (tcb_iss t1) t1 s = Some (r, s')" using emit_seg_returns by metis
  have f: "tcb_remote_addr t1 = tcb_remote_addr tcb" "tcb_iss t1 = tcb_iss tcb" by (simp_all add: t1_def)
  have "tcp_send_syn now flags True tcb s = Some (t1, s')"
    using assms e by (cases "snd_una tcb = snd_nxt tcb") (simp_all add: tcp_send_syn_def tcp_emit_def Let_def t1_def)
  then show ?thesis using that emit_seg_sent [OF e] f by simp
qed

definition syn_options_end :: "tcp_hdr \<Rightarrow> pkt \<Rightarrow> bool" where
  "syn_options_end h pb = (case frags_pullup (th_hdr_len h) pb of None \<Rightarrow> True | Some pb \<Rightarrow> options_end (drop 20 (hd pb)) (th_hdr_len h - 20))"

text \<open>
  C37. A passive open: a segment whose only flag is SYN, for a port other than 0 with a service
  that accepts the connection, adds exactly one connection, in front of the list, when the allocator
  has memory for it, the ring buffers of the service are smaller than 2 GiB and the options of the
  header are ones the loop over them gets through. The connection has received the SYN, its ports and addresses
  are those of the segment, nothing is written or received yet and the peer's stream starts after the sequence number of
  the SYN. With a known next hop to the peer exactly one packet is sent: the answer with the flags
  SYN and ACK, at the initial sequence number drawn, that acknowledges the SYN.
\<close>

theorem tcp_passive_open:
  assumes "th_flg h = TCP_F_SYN" "th_dst_port h \<noteq> 0" "syn_options_end h pb"
    and "find_svc (htons (th_dst_port h)) = Some svc" "svc_open_stream svc = Some 0" "svc_txfifo_size_log2 svc < 31" "svc_rxfifo_size_log2 svc < 31"
    and "fst (xalloc_ans w) = a" "a \<noteq> 0" "map_of (ipv4_nexthops w) ra = Some n"
  shows "\<exists>w' tcb p. tcp_input_new find_svc ni h pb ra w = Some (False, w') \<and> tcbs w' = a # tcbs w \<and> tcb_mem w' a = Some tcb \<and>
    tcb_state tcb = TCP_STATE_SYN_RECEIVED \<and> opened (tcb_iss tcb + 1) (th_seq h + 1) tcb \<and>
    tcb_local_port tcb = th_dst_port h \<and> tcb_remote_port tcb = th_src_port h \<and> tcb_remote_addr tcb = ra \<and>
    ip_sent w' = ip_sent w @ [(n, ra, p)] \<and> seg_says p tcb (TCP_F_SYN OR TCP_F_ACK) (tcb_iss tcb)"
proof -
  define tx where "tx = (if svc_txfifo_size_log2 svc \<noteq> 0 then push_bit (svc_txfifo_size_log2 svc) 1 else (4096 :: u32))"
  define rx where "rx = (if svc_rxfifo_size_log2 svc \<noteq> 0 then push_bit (svc_rxfifo_size_log2 svc) 1 else (2048 :: u32))"
  have rs: "ring_size tx" "ring_size rx" using ring_size_pow default_ring_sizes assms(6,7) by (auto simp: tx_def rx_def)
  have "fst (tcb_create tx rx w) = a" using assms(8) by (auto simp: tcb_create_def Let_def split: prod.split)
  then obtain t0 w0 where cr: "tcb_create tx rx w = (a, t0, w0)" by (metis prod.collapse)
  have w0: "tcbs w0 = tcbs w" "ip_sent w0 = ip_sent w" "ipv4_nexthops w0 = ipv4_nexthops w"
    using cr by (auto simp: tcb_create_def xalloc_ans_def rand_c_def Let_def split: list.splits if_splits)
  have f0: "tcb_pending_fin t0 = 0" "\<not> tcb_fin_received t0" "tcb_txfifo_size t0 = tx" "length (tcb_txfifo t0) = unat tx" "tcb_rxfifo_size t0 = rx" "length (tcb_rxfifo t0) = unat rx"
    "snd_una t0 = tcb_iss t0" "snd_nxt t0 = tcb_iss t0" "snd_wrptr t0 = tcb_iss t0 + 1"
    using cr by (auto simp: tcb_create_def Let_def split: prod.splits)
  let ?t = "t0\<lparr>tcb_local_addr := ni_ipv4_local_addr ni, tcb_remote_addr := ra, tcb_local_port := th_dst_port h, tcb_remote_port := th_src_port h,
     rcv_nxt := th_seq h + 1, rcv_rdptr := th_seq h + 1\<rparr>"
  obtain t1 where t1: "(case frags_pullup (th_hdr_len h) pb of None \<Rightarrow> Some ?t | Some pb \<Rightarrow> tcp_parse_options ?t (drop 20 (hd pb)) (th_hdr_len h - 20)) = Some t1"
    using assms(3) parse_options_returns [of _ _ ?t] by (fastforce simp: syn_options_end_def split: option.splits)
  have sp: "snd_part t1 = snd_part ?t" "rcv_part t1 = rcv_part ?t" "addr_part t1 = addr_part ?t"
    using t1 parse_options_fields [of ?t _ _ t1] parse_options_addr [of ?t _ _ t1] by (auto split: option.splits)
  have ra1: "tcb_remote_addr t1 = ra" using sp(3) by (simp add: addr_part_def)
  obtain t2 w2 where t2: "tcp_send_syn (clock w0) (TCP_F_SYN OR TCP_F_ACK) True t1 w0 = Some (t2, w2)"
    and sent: "\<exists>p. ip_sent w2 = ip_sent w0 @ [(n, ra, p)] \<and> seg_says p t2 (TCP_F_SYN OR TCP_F_ACK) (tcb_iss t1)"
    using send_syn_sent [OF syn_ack_flags(1), of "clock w0" t1 w0 n] ra1 w0(3) assms(10) by metis
  let ?r = "tcp_set_state TCP_STATE_SYN_RECEIVED t2"
  let ?w = "(put_tcb a ?r w2)\<lparr>tcbs := a # tcbs w2\<rparr>"
  have "tcp_input_new find_svc ni h pb ra w = Some (False, ?w)"
    unfolding tcp_input_new_def assms(1,4,5) option.case Let_def tx_def [symmetric] rx_def [symmetric] cr prod.case t1 bind.bind_lunit t2
    using assms(2,9) by (simp add: put_tcb_def)
  moreover have tw: "tcbs w2 = tcbs w" using outs_world [OF send_syn_fields(2) [OF t2 syn_ack_flags(1)]] w0 by simp
  moreover have "opened (tcb_iss ?r + 1) (th_seq h + 1) ?r" "tcb_local_port ?r = th_dst_port h" "tcb_remote_port ?r = th_src_port h" "tcb_remote_addr ?r = ra" "tcb_iss t1 = tcb_iss ?r"
    using send_syn_fields(1) [OF t2 syn_ack_flags(1)] sp f0 rs syn_ack_flags by (auto simp: opened_def snd_part_def rcv_part_def addr_part_def set_state_eq)
  moreover obtain p where "ip_sent w2 = ip_sent w @ [(n, ra, p)]" "seg_says p ?r (TCP_F_SYN OR TCP_F_ACK) (tcb_iss t1)"
    using sent w0(2) by (auto simp: seg_says_def set_state_eq split: option.splits)
  ultimately show ?thesis by (intro exI [of _ ?w] exI [of _ ?r] exI [of _ p]) (simp add: put_tcb_def set_state_eq)
qed

subsection \<open>Runs\<close>

definition run_backlog :: tcb where
  "run_backlog = run_tx\<lparr>snd_wrptr := 0xffffffff, tcb_txfifo_size := 1024, tcb_txfifo := replicate 1024 0\<rparr>"

theorem tcp_emit_loop_returns_witness:
  "snd_inv run_backlog [0] \<and> (\<exists>tcb' s'. tcp_emit_loop True run_backlog (run_world 10 20 run_tx) = Some (tcb', s') \<and> length (ip_sent s') \<le> 1)"
proof -
  have r: "ring_size 1024" using ring_size_pow [of 10] by simp
  have "ring_pos 1024 0xfffffffe 0 < 1024" using ring_pos_less [OF r, of "0xfffffffe" 0] by simp
  then have "ring_holds (replicate 1024 0) 1024 0xfffffffe 0 [0]" by (simp add: ring_holds_def)
  then have "snd_at run_backlog [0] 0 0" by (simp add: snd_at_def run_backlog_def run_tx_def run_tcb_def snd_base_def fin_len_def)
  then have i: "snd_inv run_backlog [0]"
    using r by (auto simp: snd_inv_def run_backlog_def run_tx_def run_tcb_def snd_base_def fin_len_def has_def)
  have "tcb_pending_syn run_backlog = 0" "512 < unat (tcb_txfifo_size run_backlog)" "unat (snd_wrptr run_backlog - snd_nxt run_backlog) = 1"
    by (simp_all add: run_backlog_def run_tx_def run_tcb_def)
  with tcp_emit_loop_returns [OF i, of True "run_world 10 20 run_tx"] i show ?thesis by (simp add: run_world_def)
qed

definition run_listen :: tcp where
  "run_listen = (run_world 10 20 run_tx)\<lparr>tcbs := [], tcb_mem := (\<lambda>_. None), ans_xalloc := [5], ans_rand := [7, 0x2345, 8]\<rparr>"

definition run_syn :: tcp_hdr where
  "run_syn = \<lparr>th_src_port = 90, th_dst_port = 0x5000, th_seq = 0xffffffff, th_ack = 0, th_flg = TCP_F_SYN, th_wnd = 1000, th_hdr_len = 24, th_seg_len = 1\<rparr>"

definition run_syn_pkt :: pkt where
  "run_syn_pkt = [replicate 20 0 @ [2, 4, 5, 180]]"

definition run_service :: "u16 \<Rightarrow> service option" where
  "run_service port = (if port = 80 then Some \<lparr>svc_open_stream = Some 0, svc_txfifo_size_log2 = 1, svc_rxfifo_size_log2 = 2\<rparr> else None)"

definition run_accept :: "(bool \<times> tcp) option" where
  "run_accept = tcp_input_new run_service \<lparr>ni_ipv4_local_addr = 10, ni_ipv4_local_prefixlen = 24, ni_flags = 0x900\<rparr> run_syn run_syn_pkt 20 run_listen"

theorem tcp_passive_open_witness:
  "\<exists>w' tcb p. run_accept = Some (False, w') \<and> tcbs w' = [5] \<and> tcb_mem w' 5 = Some tcb \<and> tcb_state tcb = TCP_STATE_SYN_RECEIVED \<and>
     opened (tcb_iss tcb + 1) 0 tcb \<and> ip_sent w' = [(1, 20, p)] \<and> seg_says p tcb (TCP_F_SYN OR TCP_F_ACK) (tcb_iss tcb)"
proof -
  have o: "syn_options_end run_syn run_syn_pkt" by code_simp
  have f: "run_service (htons (th_dst_port run_syn)) = Some \<lparr>svc_open_stream = Some 0, svc_txfifo_size_log2 = 1, svc_rxfifo_size_log2 = 2\<rparr>" by code_simp
  have a: "fst (xalloc_ans run_listen) = 5" by code_simp
  have n: "map_of (ipv4_nexthops run_listen) 20 = Some 1" "tcbs run_listen = []" "ip_sent run_listen = []" by (simp_all add: run_listen_def run_world_def)
  have h: "th_flg run_syn = TCP_F_SYN" "th_dst_port run_syn \<noteq> 0" "th_seq run_syn + 1 = 0" by (simp_all add: run_syn_def)
  note p = tcp_passive_open [where find_svc = run_service, OF h(1,2) o f _ _ _ a _ n(1), of "\<lparr>ni_ipv4_local_addr = 10, ni_ipv4_local_prefixlen = 24, ni_flags = 0x900\<rparr>", folded run_accept_def]
  show ?thesis using p unfolding n(2,3) h(3) by auto
qed

definition run_syn_ack :: tcp_hdr where
  "run_syn_ack = \<lparr>th_src_port = 0x5000, th_dst_port = 0x4523, th_seq = 500, th_ack = 8, th_flg = TCP_F_SYN OR TCP_F_ACK, th_wnd = 1000, th_hdr_len = 20, th_seg_len = 1\<rparr>"

definition run_netif :: netif where
  "run_netif = \<lparr>ni_ipv4_local_addr = 10, ni_ipv4_local_prefixlen = 24, ni_flags = 0x900\<rparr>"

lemma run_open:
  "case tcp_create_socket 100 100 run_listen of (a, w1) \<Rightarrow> a = 5 \<and>
     (case tcb_mem w1 5 of None \<Rightarrow> False | Some t1 \<Rightarrow> tcb_iss t1 = 7 \<and>
     (case tcp_do_connect 5 (put_tcb 5 (tcp_connect 20 80 t1) w1) of None \<Rightarrow> False | Some w2 \<Rightarrow>
     tcb_mem w2 5 \<noteq> None \<and> map_of (ipv4_nexthops w2) 20 = Some 1))"
  by code_simp

theorem tcp_active_open_witness:
  "\<exists>w1 t1 w2 t2 w4 t4 p. tcp_create_socket 100 100 run_listen = (5, w1) \<and> tcb_mem w1 5 = Some t1 \<and>
     tcp_do_connect 5 (put_tcb 5 (tcp_connect 20 80 t1) w1) = Some w2 \<and> tcb_mem w2 5 = Some t2 \<and>
     tcp_input_syn_sent run_netif run_syn_ack 20 5 t2 w2 = Some (False, w4) \<and> tcb_mem w4 5 = Some t4 \<and>
     tcb_state t4 = TCP_STATE_ESTABLISHED \<and> opened 8 501 t4 \<and> ip_sent w4 = ip_sent w2 @ [(1, 20, p)] \<and> seg_says p t4 TCP_F_ACK 8"
proof -
  obtain w1 t1 w2 t2 where r: "tcp_create_socket 100 100 run_listen = (5, w1)" "tcb_mem w1 5 = Some t1" "tcb_iss t1 = 7"
    "tcp_do_connect 5 (put_tcb 5 (tcp_connect 20 80 t1) w1) = Some w2" "tcb_mem w2 5 = Some t2" "map_of (ipv4_nexthops w2) 20 = Some 1"
    using run_open by (auto split: prod.splits option.splits)
  have f: "has (th_flg run_syn_ack) TCP_F_SYN" "has (th_flg run_syn_ack) TCP_F_ACK" "\<not> has (th_flg run_syn_ack) TCP_F_RST"
    by (simp_all add: run_syn_ack_def has_def TCP_F_SYN_def TCP_F_ACK_def TCP_F_RST_def)
  have k: "th_ack run_syn_ack = tcb_iss t1 + 1" using r(3) by (simp add: run_syn_ack_def)
  have "tcb_iss t1 + 1 = 8" "th_seq run_syn_ack + 1 = 501" using r(3) by (simp_all add: run_syn_ack_def)
  then show ?thesis using tcp_active_open [OF r(1) _ _ _ r(2,4,5) f k r(6), of run_netif 20] r by auto
qed

section \<open>Where the code goes wrong\<close>

text \<open>Options of length 0 are never passed: the loop over the options does not end.\<close>

lemma tcp_parse_options_stuck:
  assumes "2 \<le> len" "1 < length buf" "buf ! 0 \<notin> {0, 1, 2}" "buf ! 1 = 0"
  shows "tcp_parse_options tcb buf len = None"
proof -
  have "\<not> (2 \<le> len \<and> 1 < length buf \<and> buf ! 0 \<notin> {0, 1, 2} \<and> buf ! 1 = 0)" if ret: "tcp_parse_options tcb buf len = Some r" for r
    apply (rule tcp_parse_options.raw_induct [where P = "\<lambda>tcb buf len r. \<not> (2 \<le> len \<and> 1 < length buf \<and> buf ! 0 \<notin> {0, 1, 2} \<and> buf ! 1 = 0)", OF _ ret])
    subgoal premises 1 for loop tcb buf len r
    proof
      assume c: "2 \<le> len \<and> 1 < length buf \<and> buf ! 0 \<notin> {0, 1, 2} \<and> buf ! 1 = 0"
      then have "loop tcb buf len = Some r" using 1(2) by (auto simp: buf_rd_def Let_def split: if_splits)
      then show False using 1(1) c by blast
    qed
    done
  then show ?thesis using assms by (cases "tcp_parse_options tcb buf len") auto
qed

end
