(* ===== verification/Cli_Edit.thy ===== *)
theory Cli_Edit
  imports Cstring
begin

text \<open>
  The line editor of the shell, \<^verbatim>\<open>src/shell/cli_edit.c\<close>: a buffer with a cursor, the keys of an
  emacs-like editor and the escape sequences a terminal sends for its function keys. Positions are
  integers and a move of a negative number of bytes is a failure, so nothing about the cursor
  is built into the model. The second half gives the editor as it is meant: a line cut in two at
  the cursor, and keys that act on it.
\<close>

section \<open>State\<close>

definition CLI_LINE_BUF_SIZE :: int where "CLI_LINE_BUF_SIZE = 80"

datatype cli_ed_event = CLI_ED_NONE | CLI_ED_ENTER | CLI_ED_TAB | CLI_ED_HELP | CLI_ED_HIST_UP | CLI_ED_HIST_DOWN
  | CLI_ED_CLEAR | CLI_ED_CANCEL | CLI_ED_EOF

datatype cli_esc = CLI_ESC_NONE | CLI_ESC_ESC | CLI_ESC_BRACKET | CLI_ESC_PARAM1 | CLI_ESC_SEMI | CLI_ESC_PARAM2 | CLI_ESC_TILDE

record cli_ed =
  ed_buf :: bytes
  ed_pos :: int
  ed_len :: int
  ed_esc_state :: cli_esc
  ed_esc_param1 :: u8
  ed_esc_param2 :: u8

text \<open>Accesses to the buffer at positions and with sizes of type \<^verbatim>\<open>int\<close>.\<close>

definition ed_get :: "int \<Rightarrow> cli_ed \<Rightarrow> u8 option" where
  "ed_get i ed = (if i < 0 then None else buf_rd (ed_buf ed) (nat i))"

definition ed_put :: "int \<Rightarrow> u8 \<Rightarrow> cli_ed \<Rightarrow> cli_ed option" where
  "ed_put i c ed = (if i < 0 then None else map_option (\<lambda>b. ed\<lparr>ed_buf := b\<rparr>) (buf_wr (ed_buf ed) (nat i) c))"

definition ed_move :: "int \<Rightarrow> int \<Rightarrow> int \<Rightarrow> cli_ed \<Rightarrow> cli_ed option" where
  "ed_move d s n ed =
     (if d < 0 \<or> s < 0 \<or> n < 0 then None
      else map_option (\<lambda>b. ed\<lparr>ed_buf := b\<rparr>) (memmove (ed_buf ed) (nat d) (nat s) (nat n)))"

section \<open>Operations\<close>

definition cli_ed_init :: cli_ed where
  "cli_ed_init = \<lparr>ed_buf = replicate 80 0, ed_pos = 0, ed_len = 0, ed_esc_state = CLI_ESC_NONE, ed_esc_param1 = 0, ed_esc_param2 = 0\<rparr>"

text \<open>The insertion of one character, which \<^verbatim>\<open>cli_ed_insert\<close> and \<^verbatim>\<open>cli_ed_input\<close> both contain.\<close>

definition ed_insert_char :: "u8 \<Rightarrow> cli_ed \<Rightarrow> cli_ed option" where
  "ed_insert_char c ed = do {
     ed \<leftarrow> ed_move (ed_pos ed + 1) (ed_pos ed) (ed_len ed - ed_pos ed) ed;
     ed \<leftarrow> ed_put (ed_pos ed) c ed;
     let ed = ed\<lparr>ed_pos := ed_pos ed + 1, ed_len := ed_len ed + 1\<rparr>;
     ed_put (ed_len ed) 0 ed
   }"

fun cli_ed_insert :: "bytes \<Rightarrow> cli_ed \<Rightarrow> cli_ed option" where
  "cli_ed_insert [] ed = Some ed"
| "cli_ed_insert (c # text) ed =
     (if ed_len ed \<ge> CLI_LINE_BUF_SIZE - 1 then Some ed
      else do { ed \<leftarrow> ed_insert_char c ed; cli_ed_insert text ed })"

definition cli_ed_set :: "bytes option \<Rightarrow> cli_ed \<Rightarrow> cli_ed option" where
  "cli_ed_set text ed =
     (case text of
        Some text \<Rightarrow> do {
          tlen \<leftarrow> strlen text;
          let tlen = (if int tlen \<ge> CLI_LINE_BUF_SIZE then CLI_LINE_BUF_SIZE - 1 else int tlen);
          b \<leftarrow> buf_copy (ed_buf ed) 0 (take (nat tlen) text);
          ed \<leftarrow> ed_put tlen 0 (ed\<lparr>ed_buf := b\<rparr>);
          Some (ed\<lparr>ed_pos := tlen, ed_len := tlen\<rparr>)
        }
      | None \<Rightarrow> do {
          ed \<leftarrow> ed_put 0 0 ed;
          Some (ed\<lparr>ed_pos := 0, ed_len := 0\<rparr>)
        })"

definition cli_ed_clear :: "cli_ed \<Rightarrow> cli_ed option" where
  "cli_ed_clear ed = do {
     ed \<leftarrow> ed_put 0 0 ed;
     Some (ed\<lparr>ed_pos := 0, ed_len := 0\<rparr>)
   }"

definition delete_char_at :: "int \<Rightarrow> cli_ed \<Rightarrow> cli_ed option" where
  "delete_char_at pos ed =
     (if pos \<ge> ed_len ed then Some ed
      else do {
        ed \<leftarrow> ed_move pos (pos + 1) (ed_len ed - pos - 1) ed;
        let ed = ed\<lparr>ed_len := ed_len ed - 1\<rparr>;
        ed_put (ed_len ed) 0 ed
      })"

text \<open>The loops that move the cursor back, over blanks (\<open>blank\<close>) or over other characters, and forward.\<close>

function ed_back_while :: "bool \<Rightarrow> cli_ed \<Rightarrow> cli_ed option" where
  "ed_back_while blank ed =
     (if ed_pos ed > 0 then do {
        c \<leftarrow> ed_get (ed_pos ed - 1) ed;
        if (c = 32) = blank then ed_back_while blank (ed\<lparr>ed_pos := ed_pos ed - 1\<rparr>) else Some ed
      } else Some ed)"
  by pat_completeness auto
termination by (relation "measure (\<lambda>(_, ed). nat (ed_pos ed))") auto

function ed_forward_while :: "bool \<Rightarrow> cli_ed \<Rightarrow> cli_ed option" where
  "ed_forward_while blank ed =
     (if ed_pos ed < ed_len ed then do {
        c \<leftarrow> ed_get (ed_pos ed) ed;
        if (c = 32) = blank then ed_forward_while blank (ed\<lparr>ed_pos := ed_pos ed + 1\<rparr>) else Some ed
      } else Some ed)"
  by pat_completeness auto
termination by (relation "measure (\<lambda>(_, ed). nat (ed_len ed - ed_pos ed))") auto

declare ed_back_while.simps [simp del] ed_forward_while.simps [simp del]

definition kill_word_back :: "cli_ed \<Rightarrow> cli_ed option" where
  "kill_word_back ed =
     (if ed_pos ed = 0 then Some ed
      else do {
        let e = ed_pos ed;
        ed \<leftarrow> ed_back_while True ed;
        ed \<leftarrow> ed_back_while False ed;
        let removed = e - ed_pos ed;
        ed \<leftarrow> ed_move (ed_pos ed) e (ed_len ed - e) ed;
        let ed = ed\<lparr>ed_len := ed_len ed - removed\<rparr>;
        ed_put (ed_len ed) 0 ed
      })"

definition word_forward :: "cli_ed \<Rightarrow> cli_ed option" where
  "word_forward ed = do { ed \<leftarrow> ed_forward_while False ed; ed_forward_while True ed }"

definition word_backward :: "cli_ed \<Rightarrow> cli_ed option" where
  "word_backward ed = do { ed \<leftarrow> ed_back_while True ed; ed_back_while False ed }"

definition handle_csi_final :: "cli_ed \<Rightarrow> int \<Rightarrow> (cli_ed_event \<times> cli_ed) option" where
  "handle_csi_final ed fin =
     (let p1 = ed_esc_param1 ed; p2 = ed_esc_param2 ed; none = map_option (Pair CLI_ED_NONE) in
      if fin = 65 then Some (CLI_ED_HIST_UP, ed)
      else if fin = 66 then Some (CLI_ED_HIST_DOWN, ed)
      else if fin = 67 then
        none (if p2 = 5 then word_forward ed
              else Some (if ed_pos ed < ed_len ed then ed\<lparr>ed_pos := ed_pos ed + 1\<rparr> else ed))
      else if fin = 68 then
        none (if p2 = 5 then word_backward ed
              else Some (if ed_pos ed > 0 then ed\<lparr>ed_pos := ed_pos ed - 1\<rparr> else ed))
      else if fin = 72 then none (Some (ed\<lparr>ed_pos := 0\<rparr>))
      else if fin = 70 then none (Some (ed\<lparr>ed_pos := ed_len ed\<rparr>))
      else if fin = 126 then none (if p1 = 3 then delete_char_at (ed_pos ed) ed else Some ed)
      else none (Some ed))"

definition esc_digit :: "int \<Rightarrow> bool" where
  "esc_digit c \<longleftrightarrow> c \<ge> 48 \<and> c \<le> 57"

text \<open>Characters outside an escape sequence.\<close>

definition ed_backspace :: "cli_ed \<Rightarrow> cli_ed option" where
  "ed_backspace ed =
     (if ed_pos ed > 0 then let ed = ed\<lparr>ed_pos := ed_pos ed - 1\<rparr> in delete_char_at (ed_pos ed) ed else Some ed)"

definition cli_ed_normal :: "cli_ed \<Rightarrow> int \<Rightarrow> (cli_ed_event \<times> cli_ed) option" where
  "cli_ed_normal ed c =
     (let none = map_option (Pair CLI_ED_NONE) in
      if c = 27 then none (Some (ed\<lparr>ed_esc_state := CLI_ESC_ESC\<rparr>))
      else if c = 1 then none (Some (ed\<lparr>ed_pos := 0\<rparr>))
      else if c = 2 then none (Some (if ed_pos ed > 0 then ed\<lparr>ed_pos := ed_pos ed - 1\<rparr> else ed))
      else if c = 3 then Some (CLI_ED_CANCEL, ed)
      else if c = 4 then if ed_len ed = 0 then Some (CLI_ED_EOF, ed) else none (delete_char_at (ed_pos ed) ed)
      else if c = 5 then none (Some (ed\<lparr>ed_pos := ed_len ed\<rparr>))
      else if c = 6 then none (Some (if ed_pos ed < ed_len ed then ed\<lparr>ed_pos := ed_pos ed + 1\<rparr> else ed))
      else if c = 9 then Some (CLI_ED_TAB, ed)
      else if c = 10 \<or> c = 13 then Some (CLI_ED_ENTER, ed)
      else if c = 11 then none (let ed = ed\<lparr>ed_len := ed_pos ed\<rparr> in ed_put (ed_len ed) 0 ed)
      else if c = 12 then Some (CLI_ED_CLEAR, ed)
      else if c = 21 then none (cli_ed_clear ed)
      else if c = 23 then none (kill_word_back ed)
      else if c = 127 then none (ed_backspace ed)
      else if c = 8 then none (ed_backspace ed)
      else if c = 63 then Some (CLI_ED_HELP, ed)
      else if c \<ge> 32 \<and> c < 127 \<and> ed_len ed < CLI_LINE_BUF_SIZE - 1 then none (ed_insert_char (of_int c) ed)
      else none (Some ed))"

definition cli_ed_input :: "cli_ed \<Rightarrow> int \<Rightarrow> (cli_ed_event \<times> cli_ed) option" where
  "cli_ed_input ed c =
     (case ed_esc_state ed of
        CLI_ESC_ESC \<Rightarrow>
          let ed = ed\<lparr>ed_esc_state := CLI_ESC_NONE\<rparr> in
          if c = 91 then Some (CLI_ED_NONE, ed\<lparr>ed_esc_state := CLI_ESC_BRACKET, ed_esc_param1 := 0, ed_esc_param2 := 0\<rparr>)
          else map_option (Pair CLI_ED_NONE)
            (if c = 98 then word_backward ed else if c = 102 then word_forward ed else Some ed)
      | CLI_ESC_BRACKET \<Rightarrow>
          if esc_digit c then Some (CLI_ED_NONE, ed\<lparr>ed_esc_param1 := of_int (c - 48), ed_esc_state := CLI_ESC_PARAM1\<rparr>)
          else handle_csi_final (ed\<lparr>ed_esc_state := CLI_ESC_NONE\<rparr>) c
      | CLI_ESC_PARAM1 \<Rightarrow>
          if esc_digit c then Some (CLI_ED_NONE, ed\<lparr>ed_esc_param1 := ed_esc_param1 ed * 10 + of_int (c - 48)\<rparr>)
          else if c = 59 then Some (CLI_ED_NONE, ed\<lparr>ed_esc_state := CLI_ESC_SEMI\<rparr>)
          else handle_csi_final (ed\<lparr>ed_esc_state := CLI_ESC_NONE\<rparr>) c
      | CLI_ESC_SEMI \<Rightarrow>
          if esc_digit c then Some (CLI_ED_NONE, ed\<lparr>ed_esc_param2 := of_int (c - 48), ed_esc_state := CLI_ESC_PARAM2\<rparr>)
          else Some (CLI_ED_NONE, ed\<lparr>ed_esc_state := CLI_ESC_NONE\<rparr>)
      | CLI_ESC_PARAM2 \<Rightarrow>
          if esc_digit c then Some (CLI_ED_NONE, ed\<lparr>ed_esc_param2 := ed_esc_param2 ed * 10 + of_int (c - 48)\<rparr>)
          else handle_csi_final (ed\<lparr>ed_esc_state := CLI_ESC_NONE\<rparr>) c
      | _ \<Rightarrow> cli_ed_normal ed c)"

section \<open>The editor as it is meant\<close>

text \<open>The text in front of the cursor and the text from the cursor on.\<close>

type_synonym line = "bytes \<times> bytes"

definition ed_holds :: "cli_ed \<Rightarrow> line \<Rightarrow> bool" where
  "ed_holds ed ln \<longleftrightarrow>
     (case ln of (l, r) \<Rightarrow> length (ed_buf ed) = 80 \<and> length l + length r < 80 \<and> ed_pos ed = int (length l) \<and>
        ed_len ed = int (length l + length r) \<and> take (length l + length r + 1) (ed_buf ed) = l @ r @ [0])"

datatype edit = Insert u8 | Backspace | Delete | CharLeft | CharRight | Home | End | KillEol | KillLine | KillWord | WordLeft | WordRight

definition word_split :: "bytes \<Rightarrow> nat" where
  "word_split s = length (takeWhile (\<lambda>c. c = 32) s) + length (takeWhile (\<lambda>c. c \<noteq> 32) (dropWhile (\<lambda>c. c = 32) s))"

fun line_edit :: "edit \<Rightarrow> line \<Rightarrow> line" where
  "line_edit (Insert c) (l, r) = (if length l + length r < 79 then (l @ [c], r) else (l, r))"
| "line_edit Backspace (l, r) = (butlast l, r)"
| "line_edit Delete (l, r) = (l, drop 1 r)"
| "line_edit CharLeft (l, r) = (if l = [] then (l, r) else (butlast l, last l # r))"
| "line_edit CharRight (l, r) = (l @ take 1 r, drop 1 r)"
| "line_edit Home (l, r) = ([], l @ r)"
| "line_edit End (l, r) = (l @ r, [])"
| "line_edit KillEol (l, r) = (l, [])"
| "line_edit KillLine (l, r) = ([], [])"
| "line_edit KillWord (l, r) = (take (length l - word_split (rev l)) l, r)"
| "line_edit WordLeft (l, r) = (let n = length l - word_split (rev l) in (take n l, drop n l @ r))"
| "line_edit WordRight (l, r) =
     (let w = takeWhile (\<lambda>c. c \<noteq> 32) r @ takeWhile (\<lambda>c. c = 32) (dropWhile (\<lambda>c. c \<noteq> 32) r) in (l @ w, drop (length w) r))"

section \<open>Edits of the buffer\<close>

text \<open>The buffer is the line, the terminator and something that does not matter.\<close>

lemma ed_holds_iff:
  "ed_holds ed (l, r) \<longleftrightarrow>
     (\<exists>rest. ed_buf ed = l @ r @ 0 # rest \<and> length (l @ r @ rest) = 79) \<and> ed_pos ed = int (length l) \<and> ed_len ed = int (length l + length r)"
proof -
  have "(length b = 80 \<and> length l + length r < 80 \<and> take (length l + length r + 1) b = l @ r @ [0]) \<longleftrightarrow>
      (\<exists>rest. b = l @ r @ 0 # rest \<and> length (l @ r @ rest) = 79)" for b :: bytes
  proof
    assume a: "length b = 80 \<and> length l + length r < 80 \<and> take (length l + length r + 1) b = l @ r @ [0]"
    then have "b = (l @ r @ [0]) @ drop (length l + length r + 1) b" by (metis append_take_drop_id)
    then have "b = l @ r @ 0 # drop (length l + length r + 1) b" by simp
    moreover have "length (l @ r @ drop (length l + length r + 1) b) = 79" using a by simp
    ultimately show "\<exists>rest. b = l @ r @ 0 # rest \<and> length (l @ r @ rest) = 79" by blast
  qed auto
  then show ?thesis by (auto simp: ed_holds_def)
qed

lemma ed_put_at: "ed_buf ed = a @ x # b \<Longrightarrow> i = int (length a) \<Longrightarrow> ed_put i c ed = Some (ed\<lparr>ed_buf := a @ c # b\<rparr>)"
  by (simp add: ed_put_def buf_wr_def)

lemma ed_get_at: "ed_buf ed = a @ x # b \<Longrightarrow> i = int (length a) \<Longrightarrow> ed_get i ed = Some x"
  by (simp add: ed_get_def buf_rd_def)

lemma ed_move_down:
  assumes "ed_buf ed = a @ g @ m @ b" "d = int (length a)" "s = int (length a + length g)" "n = int (length m)"
  shows "\<exists>b'. ed_move d s n ed = Some (ed\<lparr>ed_buf := a @ m @ b'\<rparr>) \<and> length b' = length g + length b \<and> (g = [] \<longrightarrow> b' = b)"
proof -
  have "moved (a @ g @ m @ b) (length a) (length a + length g) (length m) = a @ m @ drop (length m) (g @ m @ b)"
    by (simp add: moved_def)
  then show ?thesis
    using assms by (intro exI [of _ "drop (length m) (g @ m @ b)"]) (auto simp: ed_move_def memmove_moves nat_int_add)
qed

lemma ed_move_up:
  assumes "ed_buf ed = a @ m @ x # b" "d = int (length a) + 1" "s = int (length a)" "n = int (length m)"
  shows "\<exists>y. ed_move d s n ed = Some (ed\<lparr>ed_buf := a @ y # m @ b\<rparr>)"
proof -
  have "moved (a @ m @ x # b) (length a + 1) (length a) (length m) = a @ hd (m @ [x]) # m @ b"
    by (cases m) (auto simp: moved_def)
  then show ?thesis using assms by (intro exI [of _ "hd (m @ [x])"]) (auto simp: ed_move_def memmove_moves nat_add_distrib)
qed

text \<open>What an edit does not touch.\<close>

definition ed_esc :: "cli_ed \<Rightarrow> cli_esc \<times> u8 \<times> u8" where
  "ed_esc ed = (ed_esc_state ed, ed_esc_param1 ed, ed_esc_param2 ed)"

definition edits :: "cli_ed option \<Rightarrow> cli_ed \<Rightarrow> line \<Rightarrow> bool" where
  "edits res ed ln \<longleftrightarrow> (\<exists>ed'. res = Some ed' \<and> ed_holds ed' ln \<and> ed_esc ed' = ed_esc ed)"

lemma ed_insert_char_edits:
  assumes h: "ed_holds ed (l, r)" and n: "length l + length r < 79"
  shows "edits (ed_insert_char c ed) ed (l @ [c], r)"
proof -
  from h obtain rest where b: "ed_buf ed = l @ r @ 0 # rest" "length (l @ r @ rest) = 79"
    and p: "ed_pos ed = int (length l)" "ed_len ed = int (length l + length r)" by (auto simp: ed_holds_iff)
  from n b obtain x rest' where rest: "rest = x # rest'" by (cases rest) auto
  obtain y where m: "ed_move (ed_pos ed + 1) (ed_pos ed) (ed_len ed - ed_pos ed) ed = Some (ed\<lparr>ed_buf := l @ y # r @ rest\<rparr>)"
    using ed_move_up [of ed l r 0 rest, OF b(1)] p by fastforce
  have p1: "ed_put (int (length l)) c (ed\<lparr>ed_buf := l @ y # r @ rest\<rparr>) = Some (ed\<lparr>ed_buf := l @ c # r @ rest\<rparr>)"
    using ed_put_at [of "ed\<lparr>ed_buf := l @ y # r @ rest\<rparr>" l y "r @ rest" "int (length l)" c] by simp
  have p2: "ed_put (int (length l) + int (length r) + 1) 0
      (ed\<lparr>ed_buf := l @ c # r @ rest, ed_pos := int (length l) + 1, ed_len := int (length l) + int (length r) + 1\<rparr>) =
      Some (ed\<lparr>ed_buf := l @ c # r @ 0 # rest', ed_pos := int (length l) + 1, ed_len := int (length l) + int (length r) + 1\<rparr>)"
    using ed_put_at [of _ "l @ c # r" x rest' "int (length l) + int (length r) + 1" 0] rest by simp
  show ?thesis
    using b p m [unfolded p, simplified] p1 p2 by (auto simp: ed_insert_char_def edits_def ed_esc_def ed_holds_iff rest)
qed

lemma delete_char_edits:
  assumes h: "ed_holds ed (l, r)"
  shows "edits (delete_char_at (ed_pos ed) ed) ed (l, drop 1 r)"
proof (cases r)
  case Nil
  then show ?thesis using h by (simp add: delete_char_at_def edits_def ed_holds_iff)
next
  case (Cons c r')
  from h obtain rest where b: "ed_buf ed = l @ [c] @ r' @ 0 # rest" "length (l @ r @ rest) = 79"
    and p: "ed_pos ed = int (length l)" "ed_len ed = int (length l + length r)" by (auto simp: ed_holds_iff Cons)
  obtain b' where m: "ed_move (ed_pos ed) (ed_pos ed + 1) (ed_len ed - ed_pos ed - 1) ed = Some (ed\<lparr>ed_buf := l @ r' @ b'\<rparr>)"
      "length b' = Suc (Suc (length rest))"
    using ed_move_down [of ed l "[c]" r' "0 # rest" "ed_pos ed" "ed_pos ed + 1" "ed_len ed - ed_pos ed - 1", OF b(1)] p Cons by auto
  then obtain x b2 where b': "b' = x # b2" by (cases b') auto
  show ?thesis
    using b p m by (auto simp: delete_char_at_def edits_def ed_esc_def ed_holds_iff Cons b'
      ed_put_at [of "ed\<lparr>ed_buf := l @ r' @ x # b2, ed_len := int (length l) + int (length r')\<rparr>" "l @ r'" x b2])
qed

text \<open>An editor that is the same but for its cursor.\<close>

lemma ed_holds_cursor:
  "ed_holds ed (l @ m, r) \<Longrightarrow> ed_pos ed' = int (length l) \<Longrightarrow> ed_buf ed' = ed_buf ed \<Longrightarrow> ed_len ed' = ed_len ed \<Longrightarrow> ed_holds ed' (l, m @ r)"
  "ed_holds ed (l, m @ r) \<Longrightarrow> ed_pos ed' = int (length l + length m) \<Longrightarrow> ed_buf ed' = ed_buf ed \<Longrightarrow> ed_len ed' = ed_len ed \<Longrightarrow> ed_holds ed' (l @ m, r)"
  by (auto simp: ed_holds_iff)

lemma ed_backspace_edits:
  assumes h: "ed_holds ed (l, r)"
  shows "edits (ed_backspace ed) ed (butlast l, r)"
proof (cases l rule: rev_cases)
  case Nil
  then show ?thesis using h by (simp add: ed_backspace_def edits_def ed_holds_iff)
next
  case (snoc l' c)
  let ?ed = "ed\<lparr>ed_pos := int (length l')\<rparr>"
  have "ed_holds ?ed (l', c # r)" using h snoc by (intro ed_holds_cursor(1) [of ed l' "[c]" r, simplified]) auto
  from delete_char_edits [OF this] show ?thesis using h snoc by (auto simp: ed_backspace_def edits_def ed_holds_iff ed_esc_def)
qed

lemma ed_clear_edits:
  assumes "ed_holds ed (l, r)"
  shows "edits (cli_ed_clear ed) ed ([], [])"
proof -
  from assms obtain x b where "ed_buf ed = [] @ x # b" "length b = 79" by (cases "ed_buf ed") (auto simp: ed_holds_def)
  then show ?thesis by (auto simp: cli_ed_clear_def edits_def ed_esc_def ed_holds_iff ed_put_at [of ed "[]" x b])
qed

lemma ed_kill_eol_edits:
  assumes "ed_holds ed (l, r)"
  shows "edits (ed_put (ed_pos ed) 0 (ed\<lparr>ed_len := ed_pos ed\<rparr>)) ed (l, [])"
proof -
  from assms obtain rest where b: "ed_buf ed = l @ r @ 0 # rest" "length (l @ r @ rest) = 79" "ed_pos ed = int (length l)"
    by (auto simp: ed_holds_iff)
  moreover obtain x b' where x: "r @ 0 # rest = x # b'" by (cases "r @ 0 # rest") auto
  moreover have "length b' = length r + length rest" using arg_cong [OF x, of length] by simp
  ultimately show ?thesis
    by (auto simp: edits_def ed_esc_def ed_holds_iff ed_put_at [of "ed\<lparr>ed_len := int (length l)\<rparr>" l x b'])
qed

section \<open>Moving over words\<close>

lemma back_while_edits:
  assumes "ed_holds ed (l, r)" "P = (\<lambda>c. (c = 32) = blank)"
  shows "\<exists>ed'. ed_back_while blank ed = Some ed' \<and> ed_esc ed' = ed_esc ed \<and> ed_buf ed' = ed_buf ed \<and> ed_len ed' = ed_len ed \<and>
    ed_pos ed' = int (length l - length (takeWhile P (rev l)))"
  using assms
proof (induction l arbitrary: ed r rule: rev_induct)
  case Nil
  then show ?case by (subst ed_back_while.simps) (simp add: ed_holds_iff)
next
  case (snoc c l)
  from snoc.prems obtain rest where b: "ed_buf ed = l @ c # r @ 0 # rest" "ed_pos ed = int (length l) + 1" by (auto simp: ed_holds_iff)
  have g: "ed_get (ed_pos ed - 1) ed = Some c" using ed_get_at [OF b(1), of "ed_pos ed - 1"] b(2) by simp
  show ?case
  proof (cases "P c")
    case True
    let ?ed = "ed\<lparr>ed_pos := ed_pos ed - 1\<rparr>"
    have "ed_holds ?ed (l, c # r)" using snoc.prems b(2) by (intro ed_holds_cursor(1) [of ed l "[c]" r, simplified]) auto
    from snoc.IH [OF this] show ?thesis using True g b(2) snoc.prems(2) by (subst ed_back_while.simps) (auto simp: ed_esc_def)
  next
    case False
    then show ?thesis using g b(2) snoc.prems(2) by (subst ed_back_while.simps) auto
  qed
qed

lemma forward_while_edits:
  assumes "ed_holds ed (l, r)" "P = (\<lambda>c. (c = 32) = blank)"
  shows "edits (ed_forward_while blank ed) ed (l @ takeWhile P r, dropWhile P r)"
  using assms
proof (induction r arbitrary: ed l)
  case Nil
  then show ?case by (subst ed_forward_while.simps) (simp add: ed_holds_iff edits_def)
next
  case (Cons c r)
  from Cons.prems obtain rest where b: "ed_buf ed = l @ c # r @ 0 # rest" "ed_pos ed = int (length l)" "ed_pos ed < ed_len ed"
    by (auto simp: ed_holds_iff)
  have g: "ed_get (ed_pos ed) ed = Some c" using ed_get_at [OF b(1,2)] .
  show ?case
  proof (cases "P c")
    case True
    let ?ed = "ed\<lparr>ed_pos := ed_pos ed + 1\<rparr>"
    have "ed_holds ?ed (l @ [c], r)" using Cons.prems b(2) by (intro ed_holds_cursor(2) [of ed l "[c]" r, simplified]) auto
    from Cons.IH [OF this] show ?thesis using True g b(3) Cons.prems(2) by (subst ed_forward_while.simps) (auto simp: edits_def ed_esc_def)
  next
    case False
    then show ?thesis using g b(3) Cons.prems by (subst ed_forward_while.simps) (auto simp: edits_def)
  qed
qed

lemma dropWhile_take_rev: "dropWhile P (rev l) = rev (take (length l - length (takeWhile P (rev l))) l)"
  by (metis dropWhile_eq_drop length_rev rev_rev_ident rev_take drop_rev)

lemma word_back_pos:
  assumes h: "ed_holds ed (l, r)"
  shows "\<exists>e1 e2. ed_back_while True ed = Some e1 \<and> ed_back_while False e1 = Some e2 \<and> ed_esc e2 = ed_esc ed \<and>
    ed_buf e2 = ed_buf ed \<and> ed_len e2 = ed_len ed \<and> ed_pos e2 = int (length l - word_split (rev l))"
proof -
  let ?k = "length l - length (takeWhile (\<lambda>c. c = 32) (rev l))" and ?P = "\<lambda>c :: u8. (c = 32) = False"
  obtain e1 where e1: "ed_back_while True ed = Some e1" "ed_esc e1 = ed_esc ed" "ed_buf e1 = ed_buf ed" "ed_len e1 = ed_len ed" "ed_pos e1 = int ?k"
    using back_while_edits [OF h, of "\<lambda>c. c = 32" True] by auto
  have "ed_holds ed (take ?k l @ drop ?k l, r)" using h by simp
  from ed_holds_cursor(1) [OF this] have "ed_holds e1 (take ?k l, drop ?k l @ r)" using e1 by simp
  from back_while_edits [OF this, of ?P False] e1 dropWhile_take_rev [of "\<lambda>c. c = 32" l]
  show ?thesis by (auto simp: word_split_def)
qed

lemma word_backward_edits:
  assumes h: "ed_holds ed (l, r)"
  shows "edits (word_backward ed) ed (line_edit WordLeft (l, r))"
proof -
  let ?n = "length l - word_split (rev l)"
  from word_back_pos [OF h] obtain e1 e2 where e: "ed_back_while True ed = Some e1" "ed_back_while False e1 = Some e2" "ed_esc e2 = ed_esc ed"
    "ed_buf e2 = ed_buf ed" "ed_len e2 = ed_len ed" "ed_pos e2 = int ?n" by blast
  have "ed_holds e2 (take ?n l, drop ?n l @ r)" using e h by (intro ed_holds_cursor(1) [of ed]) auto
  then show ?thesis using e by (auto simp: word_backward_def edits_def Let_def)
qed

lemma word_forward_edits:
  assumes h: "ed_holds ed (l, r)"
  shows "edits (word_forward ed) ed (line_edit WordRight (l, r))"
proof -
  let ?a = "takeWhile (\<lambda>c. c \<noteq> 32) r" and ?r = "dropWhile (\<lambda>c. c \<noteq> 32) r"
  let ?b = "takeWhile (\<lambda>c. c = 32) ?r"
  obtain e1 where e1: "ed_forward_while False ed = Some e1" "ed_holds e1 (l @ ?a, ?r)" "ed_esc e1 = ed_esc ed"
    using forward_while_edits [OF h, of "\<lambda>c. c \<noteq> 32" False] by (auto simp: edits_def)
  have "drop (length (?a @ ?b)) r = dropWhile (\<lambda>c. c = 32) ?r"
    by (simp add: dropWhile_eq_drop add.commute)
  then show ?thesis using e1 forward_while_edits [OF e1(2), of "\<lambda>c. c = 32" True] by (simp add: word_forward_def edits_def Let_def)
qed

lemma kill_word_edits:
  assumes h: "ed_holds ed (l, r)"
  shows "edits (kill_word_back ed) ed (line_edit KillWord (l, r))"
proof (cases "l = []")
  case True
  then show ?thesis using h by (simp add: kill_word_back_def edits_def ed_holds_iff)
next
  case False
  let ?n = "length l - word_split (rev l)"
  have n: "?n \<le> length l" by simp
  from h obtain rest where "ed_buf ed = l @ r @ 0 # rest" and b2: "length (l @ r @ rest) = 79"
    and p: "ed_pos ed = int (length l)" "ed_len ed = int (length l + length r)" by (auto simp: ed_holds_iff)
  then have b: "ed_buf ed = take ?n l @ drop ?n l @ r @ 0 # rest" "length (l @ r @ rest) = 79"
    by (metis append.assoc append_take_drop_id, simp add: b2)
  from word_back_pos [OF h] obtain e1 e2 where e: "ed_back_while True ed = Some e1" "ed_back_while False e1 = Some e2" "ed_esc e2 = ed_esc ed"
    "ed_buf e2 = ed_buf ed" "ed_len e2 = ed_len ed" "ed_pos e2 = int ?n" by blast
  define k where "k = ed_len e2 - (ed_pos ed - ed_pos e2)"
  have k: "k = int (?n + length r)" using e p by (auto simp: k_def)
  obtain b' where m: "ed_move (ed_pos e2) (ed_pos ed) (ed_len e2 - ed_pos ed) e2 = Some (e2\<lparr>ed_buf := take ?n l @ r @ b'\<rparr>)"
      "length b' = length l - ?n + Suc (length rest)"
    using ed_move_down [of e2 "take ?n l" "drop ?n l" r "0 # rest" "ed_pos e2" "ed_pos ed" "ed_len e2 - ed_pos ed"] b e p n by auto
  then obtain x b2 where b': "b' = x # b2" by (cases b') auto
  have w: "ed_put k 0 (e2\<lparr>ed_buf := take ?n l @ r @ b', ed_len := k\<rparr>) = Some (e2\<lparr>ed_buf := take ?n l @ r @ 0 # b2, ed_len := k\<rparr>)"
    using ed_put_at [of "e2\<lparr>ed_buf := take ?n l @ r @ b', ed_len := k\<rparr>" "take ?n l @ r" x b2 k 0] b' k by simp
  have "ed_pos ed \<noteq> 0" using False p by simp
  then have "kill_word_back ed = Some (e2\<lparr>ed_buf := take ?n l @ r @ 0 # b2, ed_len := k\<rparr>)"
    unfolding kill_word_back_def Let_def using e(1,2) m(1) w by (simp add: k_def)
  then show ?thesis using m b e b' n k by (auto simp: edits_def ed_holds_iff ed_esc_def)
qed

lemma ed_set_edits:
  assumes h: "ed_holds ed (l, r)" and t: "text = Some (s @ 0 # t)" "0 \<notin> set s"
  shows "edits (cli_ed_set text ed) ed (take 79 s, [])"
proof -
  let ?s = "take 79 s"
  have len: "length (ed_buf ed) = 80" using h by (auto simp: ed_holds_def)
  have sl: "strlen (s @ 0 # t) = Some (length s)" using t(2) by (induction s) auto
  have n: "(if int (length s) \<ge> CLI_LINE_BUF_SIZE then CLI_LINE_BUF_SIZE - 1 else int (length s)) = int (length ?s)"
    by (simp add: CLI_LINE_BUF_SIZE_def min_def)
  have c: "buf_copy (ed_buf ed) 0 ?s = Some (?s @ drop (length ?s) (ed_buf ed))" using len by (simp add: buf_copy_def)
  obtain x b where x: "drop (length ?s) (ed_buf ed) = x # b" using len by (cases "drop (length ?s) (ed_buf ed)") auto
  have lb: "length b = 79 - length ?s" using arg_cong [OF x, of length] len by simp
  have tk: "take (length ?s) (s @ 0 # t) = ?s" by (simp add: min_def)
  have w: "ed_put (int (length ?s)) 0 (ed\<lparr>ed_buf := ?s @ x # b\<rparr>) = Some (ed\<lparr>ed_buf := ?s @ 0 # b\<rparr>)"
    using ed_put_at [of "ed\<lparr>ed_buf := ?s @ x # b\<rparr>" ?s x b "int (length ?s)" 0] by simp
  have "cli_ed_set text ed = Some (ed\<lparr>ed_buf := ?s @ 0 # b, ed_pos := int (length ?s), ed_len := int (length ?s)\<rparr>)"
    unfolding cli_ed_set_def t(1) option.case sl bind.bind_lunit Let_def n nat_int tk using c w by (simp add: x del: length_take)
  then show ?thesis using lb by (simp add: edits_def ed_holds_iff ed_esc_def)
qed

lemma ed_set_none: "cli_ed_set None ed = cli_ed_clear ed"
  by (simp add: cli_ed_set_def cli_ed_clear_def)

lemma cli_ed_insert_edits:
  "ed_holds ed (l, r) \<Longrightarrow> edits (cli_ed_insert t ed) ed (l @ take (79 - (length l + length r)) t, r)"
proof (induction t arbitrary: ed l)
  case (Cons c t)
  show ?case
  proof (cases "length l + length r < 79")
    case True
    from ed_insert_char_edits [OF Cons.prems this, of c] obtain ed' where
      e: "ed_insert_char c ed = Some ed'" "ed_holds ed' (l @ [c], r)" "ed_esc ed' = ed_esc ed" by (auto simp: edits_def)
    have "ed_len ed < CLI_LINE_BUF_SIZE - 1" using Cons.prems True by (simp add: ed_holds_iff CLI_LINE_BUF_SIZE_def)
    then show ?thesis using e Cons.IH [OF e(2)] True by (simp add: edits_def take_Cons' Suc_diff_Suc)
  next
    case False
    then show ?thesis using Cons.prems by (simp add: edits_def ed_holds_iff CLI_LINE_BUF_SIZE_def)
  qed
qed (simp add: edits_def)

section \<open>Keys\<close>

text \<open>Which edit a control character or a final character of an escape sequence stands for.\<close>

definition plain_key :: "int \<Rightarrow> edit option" where
  "plain_key c =
     (if c = 1 then Some Home else if c = 2 then Some CharLeft else if c = 4 then Some Delete else if c = 5 then Some End
      else if c = 6 then Some CharRight else if c = 11 then Some KillEol else if c = 21 then Some KillLine
      else if c = 23 then Some KillWord else if c = 127 \<or> c = 8 then Some Backspace
      else if 32 \<le> c \<and> c < 127 \<and> c \<noteq> 63 then Some (Insert (of_int c)) else None)"

definition csi_key :: "u8 \<Rightarrow> u8 \<Rightarrow> int \<Rightarrow> edit option" where
  "csi_key p1 p2 c =
     (if c = 67 then Some (if p2 = 5 then WordRight else CharRight) else if c = 68 then Some (if p2 = 5 then WordLeft else CharLeft)
      else if c = 72 then Some Home else if c = 70 then Some End else if c = 126 \<and> p1 = 3 then Some Delete else None)"

lemma cursor_edits:
  assumes h: "ed_holds ed (l, r)"
  shows "edits (Some (if ed_pos ed > 0 then ed\<lparr>ed_pos := ed_pos ed - 1\<rparr> else ed)) ed (line_edit CharLeft (l, r))"
    and "edits (Some (if ed_pos ed < ed_len ed then ed\<lparr>ed_pos := ed_pos ed + 1\<rparr> else ed)) ed (line_edit CharRight (l, r))"
    and "edits (Some (ed\<lparr>ed_pos := 0\<rparr>)) ed (line_edit Home (l, r))"
    and "edits (Some (ed\<lparr>ed_pos := ed_len ed\<rparr>)) ed (line_edit End (l, r))"
proof -
  show "edits (Some (if ed_pos ed > 0 then ed\<lparr>ed_pos := ed_pos ed - 1\<rparr> else ed)) ed (line_edit CharLeft (l, r))"
    using h by (cases l rule: rev_cases) (auto simp: edits_def ed_esc_def ed_holds_iff)
  show "edits (Some (if ed_pos ed < ed_len ed then ed\<lparr>ed_pos := ed_pos ed + 1\<rparr> else ed)) ed (line_edit CharRight (l, r))"
    using h by (cases r) (auto simp: edits_def ed_esc_def ed_holds_iff)
qed (use h in \<open>auto simp: edits_def ed_esc_def ed_holds_iff\<close>)

lemma ed_len_full: "ed_holds ed (l, r) \<Longrightarrow> ed_len ed < CLI_LINE_BUF_SIZE - 1 \<longleftrightarrow> length l + length r < 79"
  by (auto simp: ed_holds_iff CLI_LINE_BUF_SIZE_def)

lemma insert_full: "ed_holds ed (l, r) \<Longrightarrow> \<not> length l + length r < 79 \<Longrightarrow> edits (Some ed) ed (line_edit (Insert c) (l, r))"
  by (simp add: edits_def)

lemmas edit_facts = cursor_edits delete_char_edits ed_backspace_edits ed_clear_edits ed_kill_eol_edits word_backward_edits
  word_forward_edits kill_word_edits ed_insert_char_edits

lemma none_edits: "edits res ed ln \<Longrightarrow> \<exists>ed'. map_option (Pair CLI_ED_NONE) res = Some (CLI_ED_NONE, ed') \<and> ed_holds ed' ln \<and> ed_esc ed' = ed_esc ed"
  by (auto simp: edits_def)

lemma normal_key:
  assumes h: "ed_holds ed (l, r)" and k: "plain_key c = Some k" and d: "c = 4 \<Longrightarrow> l @ r \<noteq> []"
  shows "\<exists>ed'. cli_ed_normal ed c = Some (CLI_ED_NONE, ed') \<and> ed_holds ed' (line_edit k (l, r)) \<and> ed_esc ed' = ed_esc ed"
proof -
  have "ed_len ed = int (length (l @ r))" using h by (simp add: ed_holds_iff)
  then have len: "ed_len ed = 0 \<longleftrightarrow> l @ r = []" by (simp only: of_nat_eq_0_iff length_0_conv)
  note f = edit_facts [OF h, THEN none_edits]
  consider "c = 1" | "c = 2" | "c = 5" | "c = 6" | "c = 4" | "c = 11" | "c = 21" | "c = 23" | "c = 127" | "c = 8" | "k = Insert (of_int c)" "32 \<le> c" "c < 127" "c \<noteq> 63"
    using k by (auto simp: plain_key_def split: if_splits)
  then show ?thesis
  proof cases
    case 1
    then show ?thesis using k f(3) by (simp add: cli_ed_normal_def plain_key_def)
  next
    case 2
    then show ?thesis using k f(1) by (simp add: cli_ed_normal_def plain_key_def)
  next
    case 3
    then show ?thesis using k f(4) by (simp add: cli_ed_normal_def plain_key_def)
  next
    case 4
    then show ?thesis using k f(2) by (simp add: cli_ed_normal_def plain_key_def)
  next
    case 5
    then show ?thesis using k f(5) d len by (simp add: cli_ed_normal_def plain_key_def)
  next
    case 6
    then show ?thesis using k f(8) by (simp add: cli_ed_normal_def plain_key_def)
  next
    case 7
    then show ?thesis using k f(7) by (simp add: cli_ed_normal_def plain_key_def)
  next
    case 8
    then show ?thesis using k f(11) by (simp add: cli_ed_normal_def plain_key_def)
  next
    case 9
    then show ?thesis using k f(6) by (simp add: cli_ed_normal_def plain_key_def)
  next
    case 10
    then show ?thesis using k f(6) by (simp add: cli_ed_normal_def plain_key_def)
  next
    case 11
    then show ?thesis
      using ed_insert_char_edits [OF h, THEN none_edits, of "of_int c"] insert_full [OF h, THEN none_edits, of "of_int c"] ed_len_full [OF h]
      by (cases "length l + length r < 79") (simp_all add: cli_ed_normal_def)
  qed
qed

text \<open>Same line; only the state of the escape sequence may have changed.\<close>

definition same_line :: "cli_ed \<Rightarrow> cli_ed \<Rightarrow> bool" where
  "same_line ed ed' \<longleftrightarrow> ed_buf ed' = ed_buf ed \<and> ed_pos ed' = ed_pos ed \<and> ed_len ed' = ed_len ed"

lemma same_line_holds: "same_line ed ed' \<Longrightarrow> ed_holds ed ln \<Longrightarrow> ed_holds ed' ln"
  by (auto simp: same_line_def ed_holds_def split: prod.splits)

lemma normal_other:
  assumes "plain_key c = None \<or> c = 4 \<and> ed_len ed = 0"
  shows "\<exists>ev ed'. cli_ed_normal ed c = Some (ev, ed') \<and> same_line ed ed'"
  using assms by (auto simp: cli_ed_normal_def plain_key_def Let_def same_line_def split: if_splits)

lemma csi_final_key:
  assumes h: "ed_holds ed (l, r)" and k: "csi_key (ed_esc_param1 ed) (ed_esc_param2 ed) c = Some k"
  shows "\<exists>ed'. handle_csi_final ed c = Some (CLI_ED_NONE, ed') \<and> ed_holds ed' (line_edit k (l, r)) \<and> ed_esc ed' = ed_esc ed"
  using k edit_facts(1-5,9,10) [OF h, THEN none_edits]
  by (auto simp: handle_csi_final_def csi_key_def Let_def split: if_splits)

lemma csi_final_other:
  "csi_key (ed_esc_param1 ed) (ed_esc_param2 ed) c = None \<Longrightarrow> \<exists>ev ed'. handle_csi_final ed c = Some (ev, ed') \<and> same_line ed ed'"
  by (auto simp: handle_csi_final_def csi_key_def Let_def same_line_def split: if_splits)

section \<open>Every input\<close>

text \<open>The editor is well-formed: a string that fits with its terminator, the cursor inside.\<close>

definition ed_wf :: "cli_ed \<Rightarrow> bool" where
  "ed_wf ed \<longleftrightarrow> length (ed_buf ed) = 80 \<and> 0 \<le> ed_pos ed \<and> ed_pos ed \<le> ed_len ed \<and> ed_len ed < CLI_LINE_BUF_SIZE \<and>
     ed_buf ed ! nat (ed_len ed) = 0 \<and> 0 \<notin> set (take (nat (ed_len ed)) (ed_buf ed))"

lemma ed_wf_iff: "ed_wf ed \<longleftrightarrow> (\<exists>l r. ed_holds ed (l, r) \<and> 0 \<notin> set (l @ r))"
proof
  assume w: "ed_wf ed"
  let ?t = "take (nat (ed_len ed)) (ed_buf ed)"
  have "nat (ed_len ed) < length (ed_buf ed)" using w by (auto simp: ed_wf_def CLI_LINE_BUF_SIZE_def)
  from take_Suc_conv_app_nth [OF this] have "take (nat (ed_len ed) + 1) (ed_buf ed) = ?t @ [0]" using w by (simp add: ed_wf_def)
  moreover have "nat (ed_len ed) < 80" "length ?t = nat (ed_len ed)" "nat (ed_pos ed) \<le> nat (ed_len ed)"
    using w by (auto simp: ed_wf_def CLI_LINE_BUF_SIZE_def)
  ultimately have "ed_holds ed (take (nat (ed_pos ed)) ?t, drop (nat (ed_pos ed)) ?t)"
    using w by (simp add: ed_holds_def ed_wf_def CLI_LINE_BUF_SIZE_def del: take_take flip: append_assoc)
  moreover have "0 \<notin> set (take (nat (ed_pos ed)) ?t @ drop (nat (ed_pos ed)) ?t)"
    unfolding append_take_drop_id using w by (simp add: ed_wf_def)
  ultimately show "\<exists>l r. ed_holds ed (l, r) \<and> 0 \<notin> set (l @ r)" by blast
next
  assume "\<exists>l r. ed_holds ed (l, r) \<and> 0 \<notin> set (l @ r)"
  then show "ed_wf ed" by (auto simp: ed_wf_def ed_holds_iff CLI_LINE_BUF_SIZE_def nat_int_add nth_append)
qed

lemma notin_while: "x \<notin> set xs \<Longrightarrow> x \<notin> set (takeWhile P xs)" "x \<notin> set xs \<Longrightarrow> x \<notin> set (dropWhile P xs)"
  by (auto dest: set_takeWhileD set_dropWhileD)

lemma line_edit_no_nul: "0 \<notin> set (l @ r) \<Longrightarrow> k \<noteq> Insert 0 \<Longrightarrow> line_edit k (l, r) = (l', r') \<Longrightarrow> 0 \<notin> set (l' @ r')"
  by (cases k) (auto simp: Let_def notin_while split: if_splits dest: in_set_takeD in_set_dropD in_set_butlastD last_in_set)

lemma plain_key_no_nul: "plain_key c = Some k \<Longrightarrow> k \<noteq> Insert 0"
proof (rule notI)
  assume k: "plain_key c = Some k" "k = Insert 0"
  then have c: "32 \<le> c" "c < 127" "(of_int c :: u8) = 0" by (auto simp: plain_key_def split: if_splits)
  have "uint (of_int c :: u8) = c" using c(1,2) by (simp add: unsigned_of_int take_bit_int_eq_self)
  with c show False by (metis unsigned_0 not_numeral_le_zero)
qed

lemma csi_key_no_nul: "csi_key p q c = Some k \<Longrightarrow> k \<noteq> Insert 0"
  by (auto simp: csi_key_def split: if_splits)

lemma ed_wf_same: "same_line ed ed' \<Longrightarrow> ed_wf ed \<Longrightarrow> ed_wf ed'"
  by (simp add: same_line_def ed_wf_def)

lemma ed_wf_edit: "ed_holds ed' (line_edit k (l, r)) \<Longrightarrow> 0 \<notin> set (l @ r) \<Longrightarrow> k \<noteq> Insert 0 \<Longrightarrow> ed_wf ed'"
  unfolding ed_wf_iff using line_edit_no_nul by (metis surj_pair)

lemma normal_wf:
  assumes "ed_wf ed"
  shows "\<exists>ev ed'. cli_ed_normal ed c = Some (ev, ed') \<and> ed_wf ed'"
proof (cases "plain_key c = None \<or> c = 4 \<and> ed_len ed = 0")
  case True
  then show ?thesis using normal_other [OF True] ed_wf_same assms by blast
next
  case False
  from assms obtain l r where h: "ed_holds ed (l, r)" "0 \<notin> set (l @ r)" unfolding ed_wf_iff by blast
  from False obtain k where k: "plain_key c = Some k" by auto
  have "c = 4 \<Longrightarrow> l @ r \<noteq> []" using False h(1) k by (auto simp: ed_holds_iff)
  from normal_key [OF h(1) k this] obtain ed' where "cli_ed_normal ed c = Some (CLI_ED_NONE, ed')" "ed_holds ed' (line_edit k (l, r))" by blast
  with ed_wf_edit h(2) plain_key_no_nul [OF k] show ?thesis by blast
qed

lemma csi_wf:
  assumes "ed_wf ed"
  shows "\<exists>ev ed'. handle_csi_final ed c = Some (ev, ed') \<and> ed_wf ed'"
proof (cases "csi_key (ed_esc_param1 ed) (ed_esc_param2 ed) c")
  case None
  then show ?thesis using csi_final_other ed_wf_same assms by blast
next
  case (Some k)
  from assms obtain l r where h: "ed_holds ed (l, r)" "0 \<notin> set (l @ r)" unfolding ed_wf_iff by blast
  from csi_final_key [OF h(1) Some] obtain ed' where "handle_csi_final ed c = Some (CLI_ED_NONE, ed')" "ed_holds ed' (line_edit k (l, r))" by blast
  with ed_wf_edit h(2) csi_key_no_nul [OF Some] show ?thesis by blast
qed

lemma word_wf:
  assumes "ed_wf ed"
  shows "\<exists>ed'. word_backward ed = Some ed' \<and> ed_wf ed'" "\<exists>ed'. word_forward ed = Some ed' \<and> ed_wf ed'"
proof -
  from assms obtain l r where h: "ed_holds ed (l, r)" "0 \<notin> set (l @ r)" unfolding ed_wf_iff by blast
  show "\<exists>ed'. word_backward ed = Some ed' \<and> ed_wf ed'"
    using word_backward_edits [OF h(1)] ed_wf_edit [OF _ h(2), of _ WordLeft] unfolding edits_def by blast
  show "\<exists>ed'. word_forward ed = Some ed' \<and> ed_wf ed'"
    using word_forward_edits [OF h(1)] ed_wf_edit [OF _ h(2), of _ WordRight] unfolding edits_def by blast
qed

lemma ed_wf_esc [simp]: "ed_wf (ed\<lparr>ed_esc_state := s\<rparr>) = ed_wf ed" "ed_wf (ed\<lparr>ed_esc_param1 := p\<rparr>) = ed_wf ed"
  "ed_wf (ed\<lparr>ed_esc_param2 := p\<rparr>) = ed_wf ed"
  by (simp_all add: ed_wf_def)

lemma input_wf:
  assumes w: "ed_wf ed"
  shows "\<exists>ev ed'. cli_ed_input ed c = Some (ev, ed') \<and> ed_wf ed'"
proof (cases "ed_esc_state ed")
  case CLI_ESC_ESC
  then show ?thesis using word_wf [of "ed\<lparr>ed_esc_state := CLI_ESC_NONE\<rparr>"] w by (auto simp: cli_ed_input_def Let_def)
next
  case CLI_ESC_BRACKET
  then show ?thesis using csi_wf [of "ed\<lparr>ed_esc_state := CLI_ESC_NONE\<rparr>" c] w by (auto simp: cli_ed_input_def)
next
  case CLI_ESC_PARAM1
  then show ?thesis using csi_wf [of "ed\<lparr>ed_esc_state := CLI_ESC_NONE\<rparr>" c] w by (auto simp: cli_ed_input_def)
next
  case CLI_ESC_PARAM2
  then show ?thesis using csi_wf [of "ed\<lparr>ed_esc_state := CLI_ESC_NONE\<rparr>" c] w by (auto simp: cli_ed_input_def)
qed (use w normal_wf in \<open>auto simp: cli_ed_input_def\<close>)

lemma insert_wf:
  assumes "ed_wf ed" "0 \<notin> set t"
  shows "\<exists>ed'. cli_ed_insert t ed = Some ed' \<and> ed_wf ed'"
proof -
  from assms(1) obtain l r where h: "ed_holds ed (l, r)" "0 \<notin> set (l @ r)" unfolding ed_wf_iff by blast
  have "0 \<notin> set ((l @ take (79 - (length l + length r)) t) @ r)" using h(2) assms(2) by (auto dest: in_set_takeD)
  then show ?thesis using cli_ed_insert_edits [OF h(1), of t] unfolding edits_def ed_wf_iff by blast
qed

lemma clear_wf: "ed_wf ed \<Longrightarrow> \<exists>ed'. cli_ed_clear ed = Some ed' \<and> ed_wf ed' \<and> ed_len ed' = 0"
  using ed_clear_edits unfolding edits_def ed_wf_iff by (force simp: ed_holds_iff)

lemma set_wf:
  assumes "ed_wf ed" "0 \<notin> set s"
  shows "\<exists>ed'. cli_ed_set (Some (s @ 0 # t)) ed = Some ed' \<and> ed_wf ed' \<and> take (nat (ed_len ed')) (ed_buf ed') = take 79 s"
proof -
  from assms(1) obtain l r where h: "ed_holds ed (l, r)" unfolding ed_wf_iff by blast
  have "0 \<notin> set (take 79 s @ [])" using assms(2) by (auto dest: in_set_takeD)
  moreover obtain ed' where "cli_ed_set (Some (s @ 0 # t)) ed = Some ed'" "ed_holds ed' (take 79 s, [])"
    using ed_set_edits [OF h refl assms(2), of t] by (auto simp: edits_def)
  moreover from this(2) have "take (nat (ed_len ed')) (ed_buf ed') = take 79 s" by (auto simp: ed_holds_iff min_def)
  ultimately show ?thesis unfolding ed_wf_iff by blast
qed

lemma init_wf: "ed_wf cli_ed_init"
  by (simp add: ed_wf_def cli_ed_init_def CLI_LINE_BUF_SIZE_def)

section \<open>Sequences\<close>

text \<open>Characters fed to the editor one after the other, with the events they cause.\<close>

fun ed_feed :: "int list \<Rightarrow> cli_ed \<Rightarrow> (cli_ed_event list \<times> cli_ed) option" where
  "ed_feed [] ed = Some ([], ed)"
| "ed_feed (c # cs) ed = do {
     (ev, ed) \<leftarrow> cli_ed_input ed c;
     (evs, ed) \<leftarrow> ed_feed cs ed;
     Some (ev # evs, ed)
   }"

lemma ed_feed_append:
  "ed_feed (cs @ ds) ed = do { (evs, ed) \<leftarrow> ed_feed cs ed; (evs', ed) \<leftarrow> ed_feed ds ed; Some (evs @ evs', ed) }"
  by (induction cs arbitrary: ed) (auto split: bind_splits prod.splits)

text \<open>C39. Whatever characters arrive, in whatever state an escape sequence is, the editor never reads or
  writes outside its buffer: from a well-formed editor (the text fits with its terminator and has
  no other NUL, the cursor is inside it) every input returns and leaves a well-formed editor, and
  so do inserting text and replacing the line.\<close>

theorem cli_ed_always_wf:
  assumes "ed_wf ed" "0 \<notin> set t"
  shows "(\<exists>evs ed'. ed_feed cs ed = Some (evs, ed') \<and> length evs = length cs \<and> ed_wf ed') \<and>
    (\<exists>ed'. cli_ed_insert t ed = Some ed' \<and> ed_wf ed') \<and>
    (\<exists>ed'. cli_ed_set (Some (t @ 0 # u)) ed = Some ed' \<and> ed_wf ed') \<and>
    (\<exists>ed'. cli_ed_clear ed = Some ed' \<and> ed_wf ed') \<and> ed_wf cli_ed_init"
proof -
  have "\<exists>evs ed'. ed_feed cs ed = Some (evs, ed') \<and> length evs = length cs \<and> ed_wf ed'"
    using assms(1)
  proof (induction cs arbitrary: ed)
    case (Cons c cs)
    from input_wf [OF Cons.prems, of c] obtain ev ed1 where e: "cli_ed_input ed c = Some (ev, ed1)" "ed_wf ed1" by blast
    from Cons.IH [OF e(2)] e(1) show ?case by auto
  qed simp
  then show ?thesis using insert_wf [OF assms] set_wf [OF assms, of u] clear_wf [OF assms(1)] init_wf by blast
qed

text \<open>The bytes a terminal sends for a key.\<close>

fun key_codes :: "edit \<Rightarrow> int list list" where
  "key_codes (Insert c) = (if 32 \<le> uint c \<and> uint c < 127 \<and> c \<noteq> 63 then [[uint c]] else [])"
| "key_codes Backspace = [[127], [8]]"
| "key_codes Delete = [[27, 91, 51, 126]]"
| "key_codes CharLeft = [[2], [27, 91, 68]]"
| "key_codes CharRight = [[6], [27, 91, 67]]"
| "key_codes Home = [[1], [27, 91, 72]]"
| "key_codes End = [[5], [27, 91, 70]]"
| "key_codes KillEol = [[11]]"
| "key_codes KillLine = [[21]]"
| "key_codes KillWord = [[23]]"
| "key_codes WordLeft = [[27, 98], [27, 91, 49, 59, 53, 68]]"
| "key_codes WordRight = [[27, 102], [27, 91, 49, 59, 53, 67]]"

text \<open>Typing: keys one after the other, control-D for delete only while the line is not empty.\<close>

inductive typing :: "line \<Rightarrow> int list \<Rightarrow> line \<Rightarrow> bool" for ln where
  nothing: "typing ln [] ln"
| key: "typing ln s ln' \<Longrightarrow> code \<in> set (key_codes k) \<Longrightarrow> typing ln (s @ code) (line_edit k ln')"
| control_d: "typing ln s (l, r) \<Longrightarrow> l @ r \<noteq> [] \<Longrightarrow> typing ln (s @ [4]) (line_edit Delete (l, r))"

definition ed_none :: "cli_ed \<Rightarrow> bool" where
  "ed_none ed \<longleftrightarrow> ed_esc_state ed = CLI_ESC_NONE"

lemma ed_holds_esc [simp]: "ed_holds (ed\<lparr>ed_esc_state := s\<rparr>) ln = ed_holds ed ln" "ed_holds (ed\<lparr>ed_esc_param1 := p\<rparr>) ln = ed_holds ed ln"
  "ed_holds (ed\<lparr>ed_esc_param2 := p\<rparr>) ln = ed_holds ed ln"
  by (auto simp: ed_holds_def split: prod.splits)

lemma feed_plain:
  assumes "ed_holds ed (l, r)" "ed_none ed" "plain_key c = Some k" "c = 4 \<Longrightarrow> l @ r \<noteq> []"
  shows "\<exists>ed'. ed_feed [c] ed = Some ([CLI_ED_NONE], ed') \<and> ed_holds ed' (line_edit k (l, r)) \<and> ed_none ed'"
  using normal_key [OF assms(1,3,4)] assms(2) by (auto simp: cli_ed_input_def ed_none_def ed_esc_def)

text \<open>What comes after \<^verbatim>\<open>ESC [\<close>, and the parameters it sets.\<close>

definition csi_params :: "int list \<Rightarrow> u8 \<times> u8" where
  "csi_params ps = (if ps = [51] then (3, 0) else if ps = [49, 59, 53] then (1, 5) else (0, 0))"

lemma feed_csi:
  assumes h: "ed_holds ed (l, r)" "ed_none ed" and p: "ps \<in> {[], [51], [49, 59, 53]}" and c: "c \<in> {67, 68, 70, 72, 126}"
    and k: "csi_key (fst (csi_params ps)) (snd (csi_params ps)) c = Some k"
  shows "\<exists>evs ed'. ed_feed (27 # 91 # ps @ [c]) ed = Some (evs, ed') \<and> set evs = {CLI_ED_NONE} \<and> ed_holds ed' (line_edit k (l, r)) \<and> ed_none ed'"
proof -
  let ?ed = "ed\<lparr>ed_esc_state := CLI_ESC_NONE, ed_esc_param1 := fst (csi_params ps), ed_esc_param2 := snd (csi_params ps)\<rparr>"
  have d: "\<not> esc_digit c" "c \<noteq> 59" using c by (auto simp: esc_digit_def)
  have "ed_holds ?ed (l, r)" using h by simp
  from csi_final_key [OF this, of c k] k obtain ed' where
    e: "handle_csi_final ?ed c = Some (CLI_ED_NONE, ed')" "ed_holds ed' (line_edit k (l, r))" "ed_esc ed' = ed_esc ?ed" by auto
  have n: "ed_none ed'" using e(3) by (simp add: ed_none_def ed_esc_def)
  obtain evs ed1 where f: "ed_feed (27 # 91 # ps) ed = Some (evs, ed1)" "set evs = {CLI_ED_NONE}"
    and f1: "ed_esc_state ed1 \<in> {CLI_ESC_BRACKET, CLI_ESC_PARAM1, CLI_ESC_PARAM2}" "ed1\<lparr>ed_esc_state := CLI_ESC_NONE\<rparr> = ?ed"
    using p h(2) by (cases ed) (auto simp: cli_ed_input_def cli_ed_normal_def esc_digit_def csi_params_def ed_none_def)
  have "cli_ed_input ed1 c = Some (CLI_ED_NONE, ed')"
    using f1 e(1) d by (auto simp: cli_ed_input_def)
  then show ?thesis using f e(2) n ed_feed_append [of "27 # 91 # ps" "[c]" ed] by simp
qed

lemma feed_meta:
  assumes h: "ed_holds ed (l, r)" "ed_none ed"
  shows "\<exists>ed'. ed_feed [27, 98] ed = Some ([CLI_ED_NONE, CLI_ED_NONE], ed') \<and> ed_holds ed' (line_edit WordLeft (l, r)) \<and> ed_none ed'"
    and "\<exists>ed'. ed_feed [27, 102] ed = Some ([CLI_ED_NONE, CLI_ED_NONE], ed') \<and> ed_holds ed' (line_edit WordRight (l, r)) \<and> ed_none ed'"
proof -
  have h': "ed_holds (ed\<lparr>ed_esc_state := CLI_ESC_NONE\<rparr>) (l, r)" using h by simp
  have esc: "cli_ed_input ed 27 = Some (CLI_ED_NONE, ed\<lparr>ed_esc_state := CLI_ESC_ESC\<rparr>)"
    using h(2) by (simp add: cli_ed_input_def cli_ed_normal_def ed_none_def)
  have w: "cli_ed_input (ed\<lparr>ed_esc_state := CLI_ESC_ESC\<rparr>) 98 = map_option (Pair CLI_ED_NONE) (word_backward (ed\<lparr>ed_esc_state := CLI_ESC_NONE\<rparr>))"
      "cli_ed_input (ed\<lparr>ed_esc_state := CLI_ESC_ESC\<rparr>) 102 = map_option (Pair CLI_ED_NONE) (word_forward (ed\<lparr>ed_esc_state := CLI_ESC_NONE\<rparr>))"
    by (simp_all add: cli_ed_input_def)
  show "\<exists>ed'. ed_feed [27, 98] ed = Some ([CLI_ED_NONE, CLI_ED_NONE], ed') \<and> ed_holds ed' (line_edit WordLeft (l, r)) \<and> ed_none ed'"
    using word_backward_edits [OF h'] by (auto simp: esc w edits_def ed_none_def ed_esc_def)
  show "\<exists>ed'. ed_feed [27, 102] ed = Some ([CLI_ED_NONE, CLI_ED_NONE], ed') \<and> ed_holds ed' (line_edit WordRight (l, r)) \<and> ed_none ed'"
    using word_forward_edits [OF h'] by (auto simp: esc w edits_def ed_none_def ed_esc_def)
qed

text \<open>The forms of the codes: a control character, \<^verbatim>\<open>ESC\<close> and a letter, a control sequence.\<close>

definition key_form :: "edit \<Rightarrow> int list \<Rightarrow> bool" where
  "key_form k code \<longleftrightarrow>
     code = [hd code] \<and> hd code \<noteq> 4 \<and> plain_key (hd code) = Some k \<or> code = [27, 98] \<and> k = WordLeft \<or> code = [27, 102] \<and> k = WordRight \<or>
     code = 27 # 91 # butlast (drop 2 code) @ [last code] \<and> butlast (drop 2 code) \<in> {[], [51], [49, 59, 53]} \<and> last code \<in> {67, 68, 70, 72, 126} \<and>
       csi_key (fst (csi_params (butlast (drop 2 code)))) (snd (csi_params (butlast (drop 2 code)))) (last code) = Some k"

lemma key_codes_form: "list_all (key_form k) (key_codes k)"
proof (cases k)
  case (Insert c)
  have "c \<noteq> 63 \<Longrightarrow> uint c \<noteq> 63" by (auto simp: word_uint_eq_iff)
  then show ?thesis using Insert by (auto simp: key_form_def plain_key_def)
qed (simp_all add: key_form_def plain_key_def csi_key_def csi_params_def)

lemma feed_key:
  assumes "ed_holds ed ln" "ed_none ed" "code \<in> set (key_codes k)"
  shows "\<exists>evs ed'. ed_feed code ed = Some (evs, ed') \<and> set evs = {CLI_ED_NONE} \<and> ed_holds ed' (line_edit k ln) \<and> ed_none ed'"
proof -
  obtain l r where ln: "ln = (l, r)" by force
  have h: "ed_holds ed (l, r)" using assms(1) ln by simp
  consider "code = [hd code]" "hd code \<noteq> 4" "plain_key (hd code) = Some k" | "code = [27, 98]" "k = WordLeft" | "code = [27, 102]" "k = WordRight"
    | ps c where "code = 27 # 91 # ps @ [c]" "ps \<in> {[], [51], [49, 59, 53]}" "c \<in> {67, 68, 70, 72, 126}"
        "csi_key (fst (csi_params ps)) (snd (csi_params ps)) c = Some k"
    using key_codes_form [of k] assms(3) unfolding list_all_iff key_form_def by metis
  then show ?thesis
  proof cases
    case 1
    then show ?thesis using feed_plain [OF h assms(2) 1(3)] ln by (metis empty_set list.simps(15))
  next
    case 2
    then show ?thesis using feed_meta(1) [OF h assms(2)] ln by force
  next
    case 3
    then show ?thesis using feed_meta(2) [OF h assms(2)] ln by force
  next
    case 4
    then show ?thesis using feed_csi [OF h assms(2) 4(2-4)] ln by simp
  qed
qed

text \<open>C8. The editor does what its keys mean: typing any sequence of keys into an editor that holds a line,
  with the bytes a terminal sends for them (escape sequences, control characters, either form of
  those that have two), causes no event but the plain ones and leaves the line that results from
  editing at the cursor: inserting, deleting, moving by characters and words, and killing words and
  ends of lines.\<close>

theorem cli_ed_keys_refine:
  assumes "ed_holds ed ln" "ed_esc_state ed = CLI_ESC_NONE" "typing ln s ln'"
  shows "\<exists>evs ed'. ed_feed s ed = Some (evs, ed') \<and> set evs \<subseteq> {CLI_ED_NONE} \<and> ed_holds ed' ln' \<and> ed_esc_state ed' = CLI_ESC_NONE"
  using assms(3)
proof induction
  case nothing
  then show ?case using assms by simp
next
  case (key s ln' code k)
  then obtain evs ed1 where e: "ed_feed s ed = Some (evs, ed1)" "set evs \<subseteq> {CLI_ED_NONE}" "ed_holds ed1 ln'" "ed_none ed1"
    by (auto simp: ed_none_def)
  from feed_key [OF e(3,4) key.hyps(2)] show ?case using e(1,2) by (auto simp: ed_feed_append ed_none_def)
next
  case (control_d s l r)
  then obtain evs ed1 where e: "ed_feed s ed = Some (evs, ed1)" "set evs \<subseteq> {CLI_ED_NONE}" "ed_holds ed1 (l, r)" "ed_none ed1"
    by (auto simp: ed_none_def)
  have "plain_key 4 = Some Delete" by (simp add: plain_key_def)
  from feed_plain [OF e(3,4) this] show ?case using e(1,2) control_d.hyps(2) by (auto simp: ed_feed_append ed_none_def simp del: ed_feed.simps)
qed

text \<open>The text ``ls x'' with its last word removed and another one typed, and a character deleted at its start.\<close>

theorem cli_ed_keys_refine_witness:
  "\<exists>evs ed'. ed_feed [108, 115, 32, 120, 23, 97, 27, 91, 72, 27, 91, 51, 126] cli_ed_init = Some (evs, ed') \<and> set evs \<subseteq> {CLI_ED_NONE} \<and>
     ed_holds ed' ([], [115, 32, 97]) \<and> ed_esc_state ed' = CLI_ESC_NONE"
proof -
  have h: "ed_holds cli_ed_init ([], [])" "ed_esc_state cli_ed_init = CLI_ESC_NONE" by (simp_all add: ed_holds_def cli_ed_init_def)
  have "typing ([], []) [108, 115, 32, 120] ([108, 115, 32, 120], [])"
    using typing.key [OF typing.key [OF typing.key [OF typing.key [OF typing.nothing [of "([], [])"],
      of "[108]" "Insert 108"], of "[115]" "Insert 115"], of "[32]" "Insert 32"], of "[120]" "Insert 120"] by simp
  from typing.key [OF typing.key [OF typing.key [OF typing.key [OF this, of "[23]" KillWord], of "[97]" "Insert 97"], of "[27, 91, 72]" Home],
      of "[27, 91, 51, 126]" Delete]
  have "typing ([], []) [108, 115, 32, 120, 23, 97, 27, 91, 72, 27, 91, 51, 126] ([], [115, 32, 97])" by (simp add: word_split_def)
  from cli_ed_keys_refine [OF h this] show ?thesis .
qed

theorem cli_ed_always_wf_witness:
  "(\<exists>evs ed'. ed_feed [27, 200, 0, 104, 27, 91, 51, 59, 3, 105] cli_ed_init = Some (evs, ed') \<and> length evs = 10 \<and> ed_wf ed') \<and>
   (\<exists>ed'. cli_ed_insert [104, 105] cli_ed_init = Some ed' \<and> ed_wf ed')"
proof -
  have n: "length [27, 200, 0, 104, 27, 91, 51, 59, 3, 105 :: int] = 10" "0 \<notin> set [104, 105 :: u8]" by simp_all
  from cli_ed_always_wf [OF init_wf n(2), of "[27, 200, 0, 104, 27, 91, 51, 59, 3, 105]" "[]", unfolded n(1)] show ?thesis by blast
qed

end
