(* ===== verification/Cli.thy ===== *)
theory Cli
  imports Cli_Edit Stdio
begin

text \<open>
  The shell: \<^verbatim>\<open>src/shell/cli.c\<close> and the history of \<^verbatim>\<open>src/shell/history.c\<close>. A line is cut into tokens, the tokens are
  joined to the name of a command, names are completed, old lines come back, and a loop turns the
  events of the line editor into these actions and draws the line. The table of commands is a
  parameter, a command a function of its arguments and of the rest of the system. Output is the
  bytes written; a terminal that interprets them stands at the end. A string is the bytes from its
  address on, with the terminator.
\<close>

section \<open>History\<close>

definition HISTORY_SIZE :: int where "HISTORY_SIZE = 8"

record history =
  history_lines :: "bytes option list"
  history_wpos :: int
  history_count :: int

definition history_init :: history where
  "history_init = \<lparr>history_lines = replicate 8 None, history_wpos = 0, history_count = 0\<rparr>"

text \<open>A copy of a string; \<^verbatim>\<open>malloc\<close> stops the system when there is no memory.\<close>

definition str_copy :: "bytes \<Rightarrow> bytes option" where
  "str_copy s = map_option (\<lambda>n. take (n + 1) s) (strlen s)"

definition history_add :: "bytes \<Rightarrow> history \<Rightarrow> history option" where
  "history_add line h = do {
     same \<leftarrow> (if history_count h > 0 then do {
         l \<leftarrow> buf_rd (history_lines h) (nat ((history_wpos h - 1 + HISTORY_SIZE) mod HISTORY_SIZE));
         l \<leftarrow> l;
         r \<leftarrow> strcmp line l;
         Some (r = 0)
       } else Some False);
     if same then Some h
     else do {
       c \<leftarrow> str_copy line;
       ls \<leftarrow> buf_wr (history_lines h) (nat (history_wpos h)) (Some c);
       Some \<lparr>history_lines = ls, history_wpos = (history_wpos h + 1) mod HISTORY_SIZE, history_count = history_count h + 1\<rparr>
     }
   }"

text \<open>The result is NULL or a string.\<close>

definition history_get :: "int \<Rightarrow> history \<Rightarrow> bytes option option" where
  "history_get offset h =
     (let avail = min (history_count h) HISTORY_SIZE in
      if offset \<ge> 0 \<and> offset < avail then do {
        l \<leftarrow> buf_rd (history_lines h) (nat ((history_wpos h - 1 - offset + HISTORY_SIZE) mod HISTORY_SIZE));
        l \<leftarrow> l;
        c \<leftarrow> str_copy l;
        Some (Some c)
      } else Some None)"

section \<open>Tokens\<close>

definition CLI_MAX_ARGC :: nat where "CLI_MAX_ARGC = 10"

function tok_skip :: "bytes \<Rightarrow> nat \<Rightarrow> nat option" where
  "tok_skip b i = do { c \<leftarrow> buf_rd b i; if c > 0 \<and> c < 33 then tok_skip b (i + 1) else Some i }"
  by pat_completeness auto
termination by (relation "measure (\<lambda>(b, i). length b - i)") (auto simp: buf_rd_def split: if_splits)

function tok_word :: "bytes \<Rightarrow> nat \<Rightarrow> nat option" where
  "tok_word b i = do { c \<leftarrow> buf_rd b i; if c > 32 then tok_word b (i + 1) else Some i }"
  by pat_completeness auto
termination by (relation "measure (\<lambda>(b, i). length b - i)") (auto simp: buf_rd_def split: if_splits)

declare tok_skip.simps [simp del] tok_word.simps [simp del]

text \<open>The loop of \<^verbatim>\<open>tokenize\<close>: \<open>room\<close> is what is left of the vector; the tokens are offsets into the buffer.\<close>

fun tokenize_loop :: "nat \<Rightarrow> bytes \<Rightarrow> nat \<Rightarrow> (nat list \<times> bytes) option" where
  "tokenize_loop 0 b i = Some ([], b)"
| "tokenize_loop (Suc room) b i = do {
     i \<leftarrow> tok_skip b i;
     c \<leftarrow> buf_rd b i;
     if c = 0 then Some ([], b)
     else if room = 0 then Some ([i], b)
     else do {
       j \<leftarrow> tok_word b i;
       c \<leftarrow> buf_rd b j;
       if c = 0 then Some ([i], b)
       else do {
         b \<leftarrow> buf_wr b j 0;
         (ts, b) \<leftarrow> tokenize_loop room b (j + 1);
         Some (i # ts, b)
       }
     }
   }"

definition tokenize :: "bytes \<Rightarrow> nat \<Rightarrow> (bytes list \<times> bytes) option" where
  "tokenize buf vecsize = do {
     (ts, b) \<leftarrow> tokenize_loop vecsize buf 0;
     Some (map (\<lambda>i. drop i b) ts, b)
   }"

section \<open>Commands\<close>

record 'w cli_cmd =
  cmd_name :: bytes
  cmd_dispatch :: "bytes list \<Rightarrow> 'w \<Rightarrow> int \<times> bytes \<times> 'w"
  cmd_synopsis :: "bytes option"
  cmd_brief :: "bytes option"

text \<open>The inner loop over one argument, then over the arguments. NULL is \<open>Some None\<close>.\<close>

fun match_word :: "bytes \<Rightarrow> bytes \<Rightarrow> bytes option option" where
  "match_word p [] = None"
| "match_word p (t # ts) =
     (if t = 0 then Some (Some p)
      else case p of [] \<Rightarrow> None | c # p \<Rightarrow> if c \<noteq> t then Some None else match_word p ts)"

fun match_argv_loop :: "bool \<Rightarrow> bytes \<Rightarrow> bytes list \<Rightarrow> bytes option option" where
  "match_argv_loop later p [] = Some (Some p)"
| "match_argv_loop later p (a # argv) =
     (case (if later then (case p of [] \<Rightarrow> None | c # p \<Rightarrow> if c \<noteq> 95 then Some None else Some (Some p)) else Some (Some p)) of
        None \<Rightarrow> None
      | Some None \<Rightarrow> Some None
      | Some (Some p) \<Rightarrow> do {
          r \<leftarrow> match_word p a;
          case r of None \<Rightarrow> Some None | Some p \<Rightarrow> match_argv_loop True p argv
        })"

definition match_argv :: "bytes \<Rightarrow> bytes list \<Rightarrow> nat \<Rightarrow> bytes option option" where
  "match_argv cmd argv n = (if n \<le> length argv then match_argv_loop False cmd (take n argv) else None)"

text \<open>Does the name match and does the character \<open>c\<close> follow?\<close>

definition match_then :: "u8 \<Rightarrow> bytes \<Rightarrow> bytes list \<Rightarrow> nat \<Rightarrow> bool option" where
  "match_then c cmd argv n = do {
     r \<leftarrow> match_argv cmd argv n;
     case r of None \<Rightarrow> Some False | Some p \<Rightarrow> do { x \<leftarrow> buf_rd p 0; Some (x = c) }
   }"

fun first_match :: "u8 \<Rightarrow> bytes list \<Rightarrow> nat \<Rightarrow> 'w cli_cmd list \<Rightarrow> 'w cli_cmd option option" where
  "first_match c argv n [] = Some None"
| "first_match c argv n (p # ps) = do {
     m \<leftarrow> match_then c (cmd_name p) argv n;
     if m then Some (Some p) else first_match c argv n ps
   }"

text \<open>The loop over the number of joined tokens.\<close>

fun find_cmd :: "'w cli_cmd list \<Rightarrow> bytes list \<Rightarrow> nat list \<Rightarrow> ('w cli_cmd \<times> bytes list) option option" where
  "find_cmd cmds argv [] = Some None"
| "find_cmd cmds argv (n # ns) = do {
     r \<leftarrow> first_match 0 argv n cmds;
     case r of
       Some p \<Rightarrow> Some (Some (p, cmd_name p # drop n argv))
     | None \<Rightarrow> find_cmd cmds argv ns
   }"

definition ERR_INVALID_ARGS :: int where "ERR_INVALID_ARGS = -23"

definition cli_dispatch :: "'w cli_cmd list \<Rightarrow> bytes \<Rightarrow> 'w \<Rightarrow> (int \<times> bytes \<times> 'w) option" where
  "cli_dispatch cmds line w = do {
     (argv, b) \<leftarrow> tokenize line CLI_MAX_ARGC;
     if argv = [] then Some (0, [], w)
     else do {
       f \<leftarrow> find_cmd cmds argv [1..<length argv + 1];
       case f of
         Some (p, args) \<Rightarrow> Some (cmd_dispatch p args w)
       | None \<Rightarrow> do {
           g \<leftarrow> first_match 95 argv (length argv) cmds;
           Some (case g of Some _ \<Rightarrow> (ERR_INVALID_ARGS, [], w) | None \<Rightarrow> (ERR_NOT_FOUND, [], w))
         }
     }
   }"

definition chars :: "string \<Rightarrow> bytes" where
  "chars s = map of_char s"

definition errmsg_names :: "string list" where
  "errmsg_names = [''OK'', ''NOT_IMPLEMENTED'', ''TIMEOUT'', ''OPERATION_FAILED'', ''TX_FAULT'', ''RX_FAULT'', ''NOT_READY'',
     ''NO_BUFFER'', ''MTU_EXCEEDED'', ''INVALID_ID'', ''DMAXFER'', ''BUS_ERR'', ''ARBITRATION_LOST'', ''BAD_STATE'', ''INVALID_ADDRESS'',
     ''NO_DEVICE'', ''MISMATCH'', ''NOT_FOUND'', ''CHECKSUM_ERR'', ''MALFORMED'', ''INVALID_RPC_ID'', ''INVALID_RPC_ARGS'',
     ''NO_FLASH_SPACE'', ''INVALID_ARGS'', ''INVALID_LENGTH'', ''NOT_IDLE'', ''BAD_CONFIG'', ''FLASH_HW_ERR'', ''FLASH_TIMEOUT'',
     ''NO_MEMORY'', ''READ_PROT'', ''WRITE_PROT'', ''AGAIN'', ''NOT_CONNECTED'', ''BAD_PKT_SIZ'', ''EXISTS'', ''CORRUPT'', ''NOT_DIR'',
     ''IS_DIR'', ''NOT_EMPTY'', ''BADF'', ''TOOBIG'', ''INVALID_PARAMETER'', ''NOTATTR'', ''TOOLONG'', ''IO'', ''FS'', ''DMAFIFO'',
     ''INTERRUPTED'', ''QUEUE_FULL'', ''NO_ROUTE'']"

definition errmsg :: bytes where
  "errmsg = concat (map cstr errmsg_names) @ [0, 0]"

definition error_to_string :: "int \<Rightarrow> bytes option" where
  "error_to_string e = strtbl errmsg (unat (of_int (- e) :: u32))"

text \<open>What \<^verbatim>\<open>%s\<close> prints of a string, and the name of a command with blanks for underscores.\<close>

definition str_out :: "bytes \<Rightarrow> bytes" where
  "str_out s = takeWhile (\<lambda>c. c \<noteq> 0) s"

definition print_cmd_name :: "bytes \<Rightarrow> bytes" where
  "print_cmd_name cmd = map (\<lambda>c. if c = 95 then 32 else c) (str_out cmd)"

definition dispatch_command :: "'w cli_cmd list \<Rightarrow> bytes \<Rightarrow> 'w \<Rightarrow> (bytes \<times> bytes \<times> 'w) option" where
  "dispatch_command cmds line w = do {
     (argv, b) \<leftarrow> tokenize line CLI_MAX_ARGC;
     if argv = [] then Some ([], b, w)
     else do {
       f \<leftarrow> find_cmd cmds argv [1..<length argv + 1];
       case f of
         Some (p, args) \<Rightarrow> do {
           let (err, out, w) = cmd_dispatch p args w;
           if err = 0 then Some (out, b, w)
           else case (if err = ERR_INVALID_ARGS then cmd_synopsis p else None) of
             Some syn \<Rightarrow> Some (out @ chars ''Usage: '' @ print_cmd_name (cmd_name p) @ [32] @ str_out syn @ [10], b, w)
           | None \<Rightarrow> do {
               e \<leftarrow> error_to_string err;
               Some (out @ chars ''! Error: '' @ str_out e @ [10], b, w)
             }
         }
       | None \<Rightarrow> do {
           g \<leftarrow> first_match 95 argv (length argv) cmds;
           Some (case g of
               Some _ \<Rightarrow> chars ''Incomplete command. Press ? for options.'' @ [10]
             | None \<Rightarrow> chars ''Unknown command'' @ [10], b, w)
         }
     }
   }"

section \<open>Completion\<close>

function prefix_match_loop :: "bytes \<Rightarrow> bytes \<Rightarrow> nat \<Rightarrow> nat \<Rightarrow> bool option" where
  "prefix_match_loop cmd buf len i =
     (if i < len then do {
        b \<leftarrow> buf_rd buf i;
        c \<leftarrow> buf_rd cmd i;
        if c \<noteq> (if b = 32 then 95 else b) then Some False else prefix_match_loop cmd buf len (i + 1)
      } else Some True)"
  by pat_completeness auto
termination by (relation "measure (\<lambda>(_, _, len, i). len - i)") auto

declare prefix_match_loop.simps [simp del]

definition prefix_match :: "bytes \<Rightarrow> bytes \<Rightarrow> nat \<Rightarrow> bool option" where
  "prefix_match cmd buf len = prefix_match_loop cmd buf len 0"

function common_loop :: "bytes \<Rightarrow> bytes \<Rightarrow> nat \<Rightarrow> nat \<Rightarrow> nat option" where
  "common_loop p f common i =
     (if i < common then do {
        a \<leftarrow> buf_rd p i;
        b \<leftarrow> buf_rd f i;
        if a = b then common_loop p f common (i + 1) else Some i
      } else Some i)"
  by pat_completeness auto
termination by (relation "measure (\<lambda>(_, _, common, i). common - i)") auto

declare common_loop.simps [simp del]

text \<open>The first pass: the first command that matches, how many do, and the length of what they have in common.\<close>

fun compl_scan :: "bytes \<Rightarrow> nat \<Rightarrow> 'w cli_cmd list \<Rightarrow> 'w cli_cmd option \<times> nat \<times> nat \<Rightarrow> ('w cli_cmd option \<times> nat \<times> nat) option" where
  "compl_scan buf plen [] st = Some st"
| "compl_scan buf plen (p # ps) (first, nmatch, common) = do {
     m \<leftarrow> prefix_match (cmd_name p) buf plen;
     if \<not> m then compl_scan buf plen ps (first, nmatch, common)
     else case first of
       None \<Rightarrow> do {
         n \<leftarrow> strlen (cmd_name p);
         compl_scan buf plen ps (Some p, nmatch + 1, n)
       }
     | Some f \<Rightarrow> do {
         i \<leftarrow> common_loop (cmd_name p) (cmd_name f) common plen;
         compl_scan buf plen ps (Some f, nmatch + 1, i)
       }
   }"

text \<open>A command whose name is the line without its last blank.\<close>

fun compl_exact :: "bytes \<Rightarrow> nat \<Rightarrow> 'w cli_cmd list \<Rightarrow> 'w cli_cmd option option" where
  "compl_exact buf trimmed [] = Some None"
| "compl_exact buf trimmed (p # ps) = do {
     n \<leftarrow> strlen (cmd_name p);
     m \<leftarrow> (if n = trimmed then prefix_match (cmd_name p) buf trimmed else Some False);
     if m then Some (Some p) else compl_exact buf trimmed ps
   }"

definition cmd_help_line :: "'w cli_cmd \<Rightarrow> bytes" where
  "cmd_help_line p =
     (case cmd_synopsis p of
        Some s \<Rightarrow> print_cmd_name (cmd_name p) @ [32] @ str_out s @ [10]
      | None \<Rightarrow> (case cmd_brief p of
          Some b \<Rightarrow> print_cmd_name (cmd_name p) @ chars '' - '' @ str_out b @ [10]
        | None \<Rightarrow> []))"

function compl_word_start :: "bytes \<Rightarrow> nat \<Rightarrow> nat option" where
  "compl_word_start buf i =
     (if i > 0 then do {
        c \<leftarrow> buf_rd buf (i - 1);
        if c \<noteq> 32 then compl_word_start buf (i - 1) else Some i
      } else Some i)"
  by pat_completeness auto
termination by (relation "measure (\<lambda>(_, i). i)") auto

declare compl_word_start.simps [simp del]

text \<open>The second pass lists the next words of the commands that match; \<open>prev\<close> is the word listed last.\<close>

fun compl_list :: "bytes \<Rightarrow> nat \<Rightarrow> nat \<Rightarrow> 'w cli_cmd list \<Rightarrow> bytes option \<times> nat \<Rightarrow> bytes option" where
  "compl_list buf plen word_start [] prev = Some []"
| "compl_list buf plen word_start (p # ps) (prev_seg, prev_len) = do {
     m \<leftarrow> prefix_match (cmd_name p) buf plen;
     if \<not> m then compl_list buf plen word_start ps (prev_seg, prev_len)
     else do {
       let suffix = drop word_start (cmd_name p);
       let seg = takeWhile (\<lambda>c. c \<noteq> 0 \<and> c \<noteq> 95) suffix;
       if seg = [] then compl_list buf plen word_start ps (prev_seg, prev_len)
       else do {
         dup \<leftarrow> (case prev_seg of
             Some q \<Rightarrow> if length seg = prev_len then map_option (\<lambda>r. r = 0) (strncmp suffix q (length seg)) else Some False
           | None \<Rightarrow> Some False);
         if dup then compl_list buf plen word_start ps (prev_seg, prev_len)
         else do {
           stop \<leftarrow> buf_rd suffix (length seg);
           rest \<leftarrow> compl_list buf plen word_start ps (Some suffix, length seg);
           Some ((case (if stop = 0 then cmd_brief p else None) of
                Some b \<Rightarrow> [32, 32] @ seg @ replicate (16 - length seg) 32 @ [32] @ str_out b @ [10]
              | None \<Rightarrow> [32, 32] @ seg @ [10]) @ rest)
         }
       }
     }
   }"

text \<open>The characters that completion inserts, from \<open>plen\<close> to the common length.\<close>

definition compl_insert :: "bytes \<Rightarrow> nat \<Rightarrow> nat \<Rightarrow> cli_ed \<Rightarrow> cli_ed option" where
  "compl_insert cmd plen common ed =
     fold (\<lambda>c ed. do { ed \<leftarrow> ed; cli_ed_insert [if c = 95 then 32 else c] ed }) (take (common - plen) (drop plen cmd)) (Some ed)"

definition do_completion :: "'w cli_cmd list \<Rightarrow> bool \<Rightarrow> cli_ed \<Rightarrow> (bytes \<times> cli_ed) option" where
  "do_completion cmds list_only ed = do {
     let plen = nat (ed_len ed);
     (first, nmatch, common) \<leftarrow> compl_scan (ed_buf ed) plen cmds (None, 0, 0);
     blank \<leftarrow> (if list_only \<and> nmatch = 0 \<and> plen > 0 then map_option (\<lambda>c. c = 32) (buf_rd (ed_buf ed) (plen - 1)) else Some False);
     exact \<leftarrow> (if blank then compl_exact (ed_buf ed) (plen - 1) cmds else Some None);
     case exact of
       Some p \<Rightarrow> Some ([10] @ cmd_help_line p, ed)
     | None \<Rightarrow>
         (case first of
            None \<Rightarrow> Some ([], ed)
          | Some f \<Rightarrow>
              if \<not> list_only \<and> common > plen then do {
                ed \<leftarrow> compl_insert (cmd_name f) plen common ed;
                c \<leftarrow> buf_rd (cmd_name f) common;
                ed \<leftarrow> (if nmatch = 1 \<and> c = 0 \<or> c = 95 then cli_ed_insert [32] ed else Some ed);
                Some ([], ed)
              } else do {
                n \<leftarrow> strlen (cmd_name f);
                if list_only \<and> nmatch = 1 \<and> n = plen then Some ([10] @ cmd_help_line f, ed)
                else do {
                  word_start \<leftarrow> compl_word_start (ed_buf ed) plen;
                  out \<leftarrow> compl_list (ed_buf ed) plen word_start cmds (None, 0);
                  Some ([10] @ out, ed)
                }
              })
   }"

section \<open>The loop\<close>

definition cli_prompt :: "bytes \<Rightarrow> u8 \<Rightarrow> bytes" where
  "cli_prompt hostname promptchar = [13, 27, 91, 50, 75] @ hostname @ [promptchar, 32]"

text \<open>The number of columns \<^verbatim>\<open>cli_prompt\<close> returns.\<close>

definition prompt_len :: "bytes \<Rightarrow> nat" where
  "prompt_len hostname = length hostname + 2"

definition redraw_line :: "bytes \<Rightarrow> u8 \<Rightarrow> cli_ed \<Rightarrow> bytes" where
  "redraw_line hostname promptchar ed =
     cli_prompt hostname promptchar @ str_out (ed_buf ed) @
     [27, 91] @ dec_str (nat (int (prompt_len hostname) + ed_pos ed + 1)) @ [71]"

record 'w shell =
  sh_ed :: cli_ed
  sh_hist_offset :: int
  sh_saved_line :: "bytes option"
  sh_history :: history
  sh_out :: bytes
  sh_world :: 'w

definition sh_print :: "bytes \<Rightarrow> 'w shell \<Rightarrow> 'w shell" where
  "sh_print s st = st\<lparr>sh_out := sh_out st @ s\<rparr>"

definition sh_redraw :: "bytes \<Rightarrow> u8 \<Rightarrow> 'w shell \<Rightarrow> 'w shell" where
  "sh_redraw hostname promptchar st = sh_print (redraw_line hostname promptchar (sh_ed st)) st"

definition cli_enter :: "'w cli_cmd list \<Rightarrow> 'w shell \<Rightarrow> 'w shell option" where
  "cli_enter cmds st = do {
     let st = sh_print [13, 10] st;
     c \<leftarrow> buf_rd (ed_buf (sh_ed st)) 0;
     st \<leftarrow> (if c \<noteq> 0 then do {
         h \<leftarrow> history_add (ed_buf (sh_ed st)) (sh_history st);
         (out, b, w) \<leftarrow> dispatch_command cmds (ed_buf (sh_ed st)) (sh_world st);
         Some (sh_print out (st\<lparr>sh_ed := (sh_ed st)\<lparr>ed_buf := b\<rparr>, sh_history := h, sh_world := w\<rparr>))
       } else Some st);
     ed \<leftarrow> cli_ed_clear (sh_ed st);
     Some (st\<lparr>sh_ed := ed, sh_hist_offset := -1, sh_saved_line := None\<rparr>)
   }"

definition cli_hist_up :: "'w shell \<Rightarrow> 'w shell option" where
  "cli_hist_up st = do {
     let nxt = sh_hist_offset st + 1;
     str \<leftarrow> history_get nxt (sh_history st);
     case str of
       None \<Rightarrow> Some st
     | Some _ \<Rightarrow> do {
         st \<leftarrow> (if sh_hist_offset st = -1 then do {
             c \<leftarrow> str_copy (ed_buf (sh_ed st));
             Some (st\<lparr>sh_saved_line := Some c\<rparr>)
           } else Some st);
         ed \<leftarrow> cli_ed_set str (sh_ed st);
         Some (st\<lparr>sh_hist_offset := nxt, sh_ed := ed\<rparr>)
       }
   }"

definition cli_hist_down :: "'w shell \<Rightarrow> 'w shell option" where
  "cli_hist_down st =
     (if sh_hist_offset st > 0 then do {
        let off = sh_hist_offset st - 1;
        str \<leftarrow> history_get off (sh_history st);
        ed \<leftarrow> cli_ed_set str (sh_ed st);
        Some (st\<lparr>sh_hist_offset := off, sh_ed := ed\<rparr>)
      } else if sh_hist_offset st = 0 then do {
        ed \<leftarrow> cli_ed_set (sh_saved_line st) (sh_ed st);
        Some (st\<lparr>sh_hist_offset := -1, sh_ed := ed, sh_saved_line := None\<rparr>)
      } else Some st)"

text \<open>No event: echo a character typed at the end, rub one out, or draw the line again.\<close>

definition cli_echo :: "bytes \<Rightarrow> u8 \<Rightarrow> int \<Rightarrow> int \<Rightarrow> 'w shell \<Rightarrow> 'w shell option" where
  "cli_echo hostname promptchar old_pos old_len st =
     (let ed = sh_ed st in
      if ed_len ed = old_len \<and> ed_pos ed = old_pos then Some st
      else if ed_pos ed = ed_len ed \<and> ed_len ed = old_len + 1 \<and> ed_pos ed = old_pos + 1 then do {
        c \<leftarrow> ed_get (ed_pos ed - 1) ed;
        Some (sh_print [c] st)
      } else if ed_pos ed = ed_len ed \<and> ed_len ed = old_len - 1 \<and> ed_pos ed = old_pos - 1 then
        Some (sh_print [8, 32, 8] st)
      else Some (sh_redraw hostname promptchar st))"

text \<open>One character; the first component of the result tells whether the loop goes on.\<close>

definition cli_loop_step :: "'w cli_cmd list \<Rightarrow> bytes \<Rightarrow> u8 \<Rightarrow> int \<Rightarrow> 'w shell \<Rightarrow> (bool \<times> 'w shell) option" where
  "cli_loop_step cmds hostname promptchar ch st =
     (if ch < 0 then Some (False, st)
      else do {
        let old_pos = ed_pos (sh_ed st);
        let old_len = ed_len (sh_ed st);
        (ev, ed) \<leftarrow> cli_ed_input (sh_ed st) ch;
        let st = st\<lparr>sh_ed := ed\<rparr>;
        let redraw = map_option (\<lambda>st. (True, sh_redraw hostname promptchar st));
        case ev of
          CLI_ED_ENTER \<Rightarrow> redraw (cli_enter cmds st)
        | CLI_ED_TAB \<Rightarrow> do {
            (out, ed) \<leftarrow> do_completion cmds False ed;
            redraw (Some (sh_print out (st\<lparr>sh_ed := ed\<rparr>)))
          }
        | CLI_ED_HELP \<Rightarrow> do {
            (out, ed) \<leftarrow> do_completion cmds True ed;
            redraw (Some (sh_print out (st\<lparr>sh_ed := ed\<rparr>)))
          }
        | CLI_ED_HIST_UP \<Rightarrow> redraw (cli_hist_up st)
        | CLI_ED_HIST_DOWN \<Rightarrow> redraw (cli_hist_down st)
        | CLI_ED_CLEAR \<Rightarrow> redraw (Some (sh_print [27, 91, 50, 74, 27, 91, 72] st))
        | CLI_ED_CANCEL \<Rightarrow> do {
            ed \<leftarrow> cli_ed_clear ed;
            redraw (Some (sh_print [13, 10] (st\<lparr>sh_ed := ed, sh_hist_offset := -1, sh_saved_line := None\<rparr>)))
          }
        | CLI_ED_EOF \<Rightarrow> Some (False, sh_print [13, 10] st)
        | CLI_ED_NONE \<Rightarrow> map_option (Pair True) (cli_echo hostname promptchar old_pos old_len st)
      })"

text \<open>The loop over what \<^verbatim>\<open>getchar\<close> answers, until it ends or waits for more.\<close>

fun cli_loop :: "'w cli_cmd list \<Rightarrow> bytes \<Rightarrow> u8 \<Rightarrow> int list \<Rightarrow> 'w shell \<Rightarrow> (bool \<times> 'w shell) option" where
  "cli_loop cmds hostname promptchar [] st = Some (True, st)"
| "cli_loop cmds hostname promptchar (ch # chs) st = do {
     (go, st) \<leftarrow> cli_loop_step cmds hostname promptchar ch st;
     if go then cli_loop cmds hostname promptchar chs st else Some (False, st)
   }"

definition cli_start :: "bytes \<Rightarrow> u8 \<Rightarrow> history \<Rightarrow> 'w \<Rightarrow> 'w shell" where
  "cli_start hostname promptchar h w =
     sh_redraw hostname promptchar
       \<lparr>sh_ed = cli_ed_init, sh_hist_offset = -1, sh_saved_line = None, sh_history = h, sh_out = [], sh_world = w\<rparr>"

section \<open>Tokens and names\<close>

definition blank :: "u8 \<Rightarrow> bool" where
  "blank c \<longleftrightarrow> 0 < c \<and> c < 33"

definition word_char :: "u8 \<Rightarrow> bool" where
  "word_char c \<longleftrightarrow> 32 < c"

lemma char_kinds: "c \<noteq> 0 \<Longrightarrow> word_char c = (\<not> blank c)" "\<not> blank 0" "\<not> word_char 0"
  by (unfold blank_def word_char_def word_less_nat_alt) (auto simp: unat_eq_0 [symmetric])

text \<open>At most \<open>n\<close> words of a text; the last of \<open>n\<close> takes everything that follows it.\<close>

fun tokens :: "nat \<Rightarrow> bytes \<Rightarrow> bytes list" where
  "tokens 0 s = []"
| "tokens (Suc n) s =
     (let s = dropWhile blank s in
      if s = [] then [] else if n = 0 then [s] else takeWhile word_char s # tokens n (drop 1 (dropWhile word_char s)))"

lemma tok_skip_run:
  assumes "\<forall>c \<in> set a. blank c" "\<not> blank x" "i = length p"
  shows "tok_skip (p @ a @ x # r) i = Some (i + length a)"
  using assms
proof (induction a arbitrary: p i)
  case Nil
  then show ?case by (subst tok_skip.simps) (auto simp: buf_rd_def blank_def)
next
  case (Cons c a)
  from Cons.IH [of "i + 1" "p @ [c]"] Cons.prems show ?case
    by (subst tok_skip.simps) (simp add: buf_rd_def blank_def)
qed

lemma tok_word_run:
  assumes "\<forall>c \<in> set a. word_char c" "\<not> word_char x" "i = length p"
  shows "tok_word (p @ a @ x # r) i = Some (i + length a)"
  using assms
proof (induction a arbitrary: p i)
  case Nil
  then show ?case by (subst tok_word.simps) (auto simp: buf_rd_def word_char_def)
next
  case (Cons c a)
  from Cons.IH [of "i + 1" "p @ [c]"] Cons.prems show ?case
    by (subst tok_word.simps) (simp add: buf_rd_def word_char_def)
qed

lemma str_out_cstr: "0 \<notin> set a \<Longrightarrow> str_out (a @ 0 # r) = a"
  by (induction a) (auto simp: str_out_def)

text \<open>The tokens are the words; the buffer keeps its length and what stands in front.\<close>

lemma tokenize_loop_words:
  assumes "0 \<notin> set s"
  shows "\<exists>ts b. tokenize_loop n (p @ s @ 0 # r) (length p) = Some (ts, p @ b) \<and> length b = length s + 1 + length r \<and>
    map (\<lambda>i. str_out (drop i (p @ b))) ts = tokens n s \<and> (\<forall>i \<in> set ts. length p \<le> i \<and> 0 \<in> set (drop i (p @ b)))"
  using assms
proof (induction n arbitrary: p s)
  case 0
  then show ?case by simp
next
  case (Suc n)
  define a where "a = takeWhile blank s"
  define s1 where "s1 = dropWhile blank s"
  have s: "s = a @ s1" by (simp add: a_def s1_def)
  have a: "\<forall>c \<in> set a. blank c" by (auto simp: a_def dest: set_takeWhileD)
  show ?case
  proof (cases s1)
    case Nil
    have "tok_skip (p @ s @ 0 # r) (length p) = Some (length p + length a)"
      using tok_skip_run [OF a char_kinds(2) refl, of p r] Nil s by simp
    then show ?thesis using Nil s a by (simp add: Let_def buf_rd_def nth_append)
  next
    case (Cons x s2)
    have x: "\<not> blank x" using Cons hd_dropWhile [of blank s] by (simp add: s1_def)
    have nz: "x \<noteq> 0" "0 \<notin> set s1" "0 \<notin> set a" using Suc.prems Cons s by auto
    have sk: "tok_skip (p @ s @ 0 # r) (length p) = Some (length p + length a)"
      using tok_skip_run [OF a x refl, of p "s2 @ 0 # r"] Cons s by simp
    have rd: "buf_rd (p @ s @ 0 # r) (length p + length a) = Some x" using Cons s by (simp add: buf_rd_def nth_append)
    define w where "w = takeWhile word_char s1"
    define s3 where "s3 = dropWhile word_char s1"
    have s1: "s1 = w @ s3" by (simp add: w_def s3_def)
    have w: "\<forall>c \<in> set w. word_char c" "w \<noteq> []" using Cons x nz char_kinds(1) by (auto simp: w_def dest: set_takeWhileD)
    have tok: "tokens (Suc n) s = (if n = 0 then [s1] else w # tokens n (drop 1 s3))"
      using Cons by (simp add: s1_def w_def s3_def Let_def)
    have pa: "p @ s @ 0 # r = (p @ a) @ w @ s3 @ 0 # r" using s s1 by simp
    show ?thesis
    proof (cases n)
      case 0
      have "drop (length p + length a) (p @ s @ 0 # r) = s1 @ 0 # r" using s by simp
      moreover have "tokenize_loop (Suc n) (p @ s @ 0 # r) (length p) = Some ([length p + length a], p @ s @ 0 # r)"
        using 0 sk rd nz by simp
      ultimately show ?thesis using nz tok 0 s by (simp add: str_out_cstr del: tokens.simps tokenize_loop.simps)
    next
      case (Suc m)
      show ?thesis
      proof (cases s3)
        case Nil
        have "tok_word (p @ s @ 0 # r) (length p + length a) = Some (length p + length a + length w)"
          using tok_word_run [OF w(1) char_kinds(3), of "length p + length a" "p @ a" r] pa Nil by simp
        moreover have "buf_rd (p @ s @ 0 # r) (length p + length a + length w) = Some 0"
          using s s1 Nil by (simp add: buf_rd_def nth_append)
        moreover have "drop (length p + length a) (p @ s @ 0 # r) = s1 @ 0 # r" using s by simp
        moreover have "tokens n (drop 1 s3) = []" using Nil Suc by simp
        ultimately have "tokenize_loop (Suc n) (p @ s @ 0 # r) (length p) = Some ([length p + length a], p @ s @ 0 # r)"
          "tokens (Suc n) s = [w]" "drop (length p + length a) (p @ s @ 0 # r) = w @ 0 # r"
          using sk rd nz Suc tok s1 Nil by (simp_all del: tokens.simps)
        then show ?thesis using nz s s1 Nil by (simp add: str_out_cstr del: tokens.simps tokenize_loop.simps)
      next
        case cons3: (Cons y s4)
        have "hd s3 = y" "s3 \<noteq> []" using cons3 by simp_all
        then have y: "\<not> word_char y" using hd_dropWhile [of word_char s1] unfolding s3_def by simp
        have y0: "y \<noteq> 0" using nz(2) s1 cons3 by auto
        have tw: "tok_word (p @ s @ 0 # r) (length p + length a) = Some (length p + length a + length w)"
          using tok_word_run [OF w(1) y, of "length p + length a" "p @ a" "s4 @ 0 # r"] pa cons3 by simp
        have ry: "buf_rd (p @ s @ 0 # r) (length p + length a + length w) = Some y"
          using s s1 cons3 by (simp add: buf_rd_def nth_append)
        let ?p = "p @ a @ w @ [0]"
        have wr: "buf_wr (p @ s @ 0 # r) (length p + length a + length w) 0 = Some (?p @ s4 @ 0 # r)"
          using s s1 cons3 by (simp add: buf_wr_def list_update_append)
        have "0 \<notin> set s4" using nz s1 cons3 by auto
        from Suc.IH [OF this, of ?p] obtain ts b where
          t: "tokenize_loop n (?p @ s4 @ 0 # r) (length ?p) = Some (ts, ?p @ b)" "length b = length s4 + 1 + length r"
             "map (\<lambda>i. str_out (drop i (?p @ b))) ts = tokens n s4" "\<forall>i \<in> set ts. length ?p \<le> i \<and> 0 \<in> set (drop i (?p @ b))" by blast
        have w0: "0 \<notin> set w" using nz s1 by auto
        have n0: "n \<noteq> 0" using Suc by simp
        have lp: "length ?p = length p + length a + length w + 1" by simp
        have hd: "drop (length p + length a) (?p @ b) = w @ 0 # b" by simp
        have "tokenize_loop (Suc n) (p @ s @ 0 # r) (length p) = Some ((length p + length a) # ts, ?p @ b)"
          using sk rd nz tw ry y0 wr t(1) n0 unfolding lp by simp
        moreover have "tokens (Suc n) s = w # tokens n s4"
          using tok Suc cons3 by (simp del: tokens.simps)
        ultimately show ?thesis using t(2-4) hd w0 s s1 cons3
          by (intro exI [of _ "(length p + length a) # ts"] exI [of _ "a @ w @ [0] @ b"]) (auto simp: str_out_cstr)
      qed
    qed
  qed
qed

lemma tokenize_words:
  assumes "0 \<notin> set s"
  shows "\<exists>argv b. tokenize (s @ 0 # r) n = Some (argv, b) \<and> length b = length s + 1 + length r \<and> map str_out argv = tokens n s \<and>
    (\<forall>a \<in> set argv. 0 \<in> set a)"
  using tokenize_loop_words [OF assms, of n "[]" r] by (force simp: tokenize_def comp_def)

text \<open>Matching: the words joined with underscores, and what follows them in the name.\<close>

fun join_words :: "bytes list \<Rightarrow> bytes" where
  "join_words [] = []"
| "join_words [w] = w"
| "join_words (w # ws) = w @ 95 # join_words ws"

lemma match_word_str:
  assumes "0 \<in> set t" "0 \<notin> set p"
  shows "match_word (p @ 0 # q) t = Some (if \<exists>u. p = str_out t @ u then Some (drop (length (str_out t)) p @ 0 # q) else None)"
  using assms
proof (induction t arbitrary: p)
  case (Cons c t)
  show ?case
  proof (cases "c = 0")
    case True
    then show ?thesis by (simp add: str_out_def)
  next
    case False
    then have c: "str_out (c # t) = c # str_out t" "0 \<in> set t" using Cons.prems by (auto simp: str_out_def)
    show ?thesis
    proof (cases p)
      case Nil
      then show ?thesis using False c by simp
    next
      case p: (Cons d p')
      then show ?thesis using False c Cons.IH [of p'] Cons.prems by auto
    qed
  qed
qed simp

lemma match_argv_loop_str:
  assumes "\<forall>a \<in> set argv. 0 \<in> set a" "0 \<notin> set p"
  shows "match_argv_loop later (p @ 0 # q) argv =
    (let j = (if later \<and> argv \<noteq> [] then [95] else []) @ join_words (map str_out argv) in
     Some (if \<exists>u. p = j @ u then Some (drop (length j) p @ 0 # q) else None))"
  using assms
proof (induction argv arbitrary: p later)
  case Nil
  then show ?case by simp
next
  case (Cons a argv)
  let ?w = "str_out a" and ?js = "(if argv \<noteq> [] then [95] else []) @ join_words (map str_out argv)"
  have j: "join_words (map str_out (a # argv)) = ?w @ ?js" by (cases argv) auto
  have step: "(match_word (p1 @ 0 # q) a \<bind> (\<lambda>r. case r of None \<Rightarrow> Some None | Some p \<Rightarrow> match_argv_loop True p argv)) =
      Some (if \<exists>u. p1 = (?w @ ?js) @ u then Some (drop (length (?w @ ?js)) p1 @ 0 # q) else None)" if p1: "0 \<notin> set p1" for p1
  proof (cases "\<exists>u. p1 = ?w @ u")
    case True
    then obtain u where u: "p1 = ?w @ u" by blast
    then have "0 \<notin> set u" using p1 by auto
    from Cons.IH [OF _ this, of True] show ?thesis
      using match_word_str [of a p1 q] Cons.prems(1) p1 u by (simp add: Let_def)
  next
    case False
    then show ?thesis using match_word_str [of a p1 q] Cons.prems(1) p1 by auto
  qed
  show ?case
  proof (cases later)
    case False
    then show ?thesis using step [OF Cons.prems(2)] by (simp add: j Let_def del: join_words.simps list.map)
  next
    case True
    show ?thesis
    proof (cases "\<exists>p1. p = 95 # p1")
      case p: True
      then obtain p1 where "p = 95 # p1" by blast
      then show ?thesis using True step [of p1] Cons.prems(2) by (simp add: j Let_def del: join_words.simps list.map)
    next
      case False
      then show ?thesis using True by (cases p) (auto simp: Let_def)
    qed
  qed
qed

lemma match_then_str:
  assumes "\<forall>a \<in> set argv. 0 \<in> set a" "0 \<notin> set nm" "n \<le> length argv"
  shows "match_then c (nm @ 0 # q) argv n =
    Some (\<exists>u. nm @ [0] = join_words (map str_out (take n argv)) @ c # u \<and> (c \<noteq> 0 \<or> u = []))"
proof -
  let ?j = "join_words (map str_out (take n argv))"
  have m: "match_argv (nm @ 0 # q) argv n = Some (if \<exists>u. nm = ?j @ u then Some (drop (length ?j) nm @ 0 # q) else None)"
    using match_argv_loop_str [of "take n argv" nm False q] assms in_set_takeD [of _ n argv] by (simp add: match_argv_def Let_def)
  show ?thesis
  proof (cases "\<exists>u. nm = ?j @ u")
    case True
    then obtain u where u: "nm = ?j @ u" by blast
    show ?thesis
    proof (cases u)
      case Nil
      then show ?thesis using m u by (auto simp: match_then_def buf_rd_def)
    next
      case (Cons x u')
      then have "x \<noteq> 0" using u assms(2) by auto
      then show ?thesis using m u Cons by (auto simp: match_then_def buf_rd_def)
    qed
  next
    case False
    have "\<not> (nm @ [0] = ?j @ c # u \<and> (c \<noteq> 0 \<or> u = []))" for u
    proof
      assume e: "nm @ [0] = ?j @ c # u \<and> (c \<noteq> 0 \<or> u = [])"
      then have "nm = butlast (?j @ c # u)" by (metis butlast_snoc)
      then show False using False by (simp add: butlast_append)
    qed
    then show ?thesis using m False by (auto simp: match_then_def)
  qed
qed

section \<open>Which command runs\<close>

text \<open>A table of commands: every name is a string with a terminator.\<close>

definition names_ok :: "'w cli_cmd list \<Rightarrow> bool" where
  "names_ok cmds \<longleftrightarrow> (\<forall>p \<in> set cmds. \<exists>nm q. cmd_name p = nm @ 0 # q \<and> 0 \<notin> set nm)"

definition cmd_named :: "bytes \<Rightarrow> 'w cli_cmd \<Rightarrow> bool" where
  "cmd_named s p \<longleftrightarrow> str_out (cmd_name p) = s"

text \<open>The first command for the smallest number of words that make a name.\<close>

definition candidates :: "'w cli_cmd list \<Rightarrow> bytes list \<Rightarrow> nat list \<Rightarrow> ('w cli_cmd \<times> nat) list" where
  "candidates cmds ws ns = concat (map (\<lambda>j. map (\<lambda>p. (p, j)) (filter (cmd_named (join_words (take j ws))) cmds)) ns)"

definition resolve_cmd :: "'w cli_cmd list \<Rightarrow> bytes list \<Rightarrow> ('w cli_cmd \<times> nat) option" where
  "resolve_cmd cmds ws = (case candidates cmds ws [1..<length ws + 1] of [] \<Rightarrow> None | x # _ \<Rightarrow> Some x)"

lemma match_then_named:
  assumes "\<forall>a \<in> set argv. 0 \<in> set a" "names_ok cmds" "p \<in> set cmds" "n \<le> length argv"
  shows "match_then 0 (cmd_name p) argv n = Some (cmd_named (join_words (take n (map str_out argv))) p)"
    and "match_then 95 (cmd_name p) argv n = Some (\<exists>u. str_out (cmd_name p) = join_words (take n (map str_out argv)) @ 95 # u)"
proof -
  from assms(2,3) obtain nm q where nm: "cmd_name p = nm @ 0 # q" "0 \<notin> set nm" by (auto simp: names_ok_def)
  have s: "str_out (cmd_name p) = nm" using nm by (simp add: str_out_cstr)
  note m = match_then_str [OF assms(1) nm(2) assms(4), of _ q, folded nm(1)]
  show "match_then 0 (cmd_name p) argv n = Some (cmd_named (join_words (take n (map str_out argv))) p)"
    using m [of 0] s by (auto simp: cmd_named_def take_map)
  have "(\<exists>u. nm @ [0] = j @ 95 # u) \<longleftrightarrow> (\<exists>u. nm = j @ 95 # u)" for j
  proof
    assume "\<exists>u. nm @ [0] = j @ 95 # u"
    then obtain u where u: "nm @ [0] = j @ 95 # u" by blast
    then have "u \<noteq> []" by (cases u) auto
    moreover have "nm = butlast (j @ 95 # u)" using u by (metis butlast_snoc)
    ultimately have "nm = j @ 95 # butlast u" by (simp add: butlast_append)
    then show "\<exists>u. nm = j @ 95 # u" by blast
  qed auto
  then show "match_then 95 (cmd_name p) argv n = Some (\<exists>u. str_out (cmd_name p) = join_words (take n (map str_out argv)) @ 95 # u)"
    using m [of 95] s by (simp add: take_map)
qed

lemma first_match_named:
  assumes "\<forall>a \<in> set argv. 0 \<in> set a" "names_ok cmds" "n \<le> length argv"
  shows "first_match 0 argv n cmds = Some (find (cmd_named (join_words (take n (map str_out argv)))) cmds)"
    and "first_match 95 argv n cmds = Some (find (\<lambda>p. \<exists>u. str_out (cmd_name p) = join_words (take n (map str_out argv)) @ 95 # u) cmds)"
proof -
  have "set ps \<subseteq> set cmds \<Longrightarrow> first_match 0 argv n ps = Some (find (cmd_named (join_words (take n (map str_out argv)))) ps)" for ps
    by (induction ps) (use match_then_named(1) [OF assms(1,2) _ assms(3)] in auto)
  then show "first_match 0 argv n cmds = Some (find (cmd_named (join_words (take n (map str_out argv)))) cmds)" by blast
  have "set ps \<subseteq> set cmds \<Longrightarrow> first_match 95 argv n ps =
      Some (find (\<lambda>p. \<exists>u. str_out (cmd_name p) = join_words (take n (map str_out argv)) @ 95 # u) ps)" for ps
    by (induction ps) (use match_then_named(2) [OF assms(1,2) _ assms(3)] in auto)
  then show "first_match 95 argv n cmds = Some (find (\<lambda>p. \<exists>u. str_out (cmd_name p) = join_words (take n (map str_out argv)) @ 95 # u) cmds)"
    by blast
qed

lemma find_filter: "find P xs = (case filter P xs of [] \<Rightarrow> None | x # _ \<Rightarrow> Some x)"
  by (induction xs) auto

lemma find_cmd_resolves:
  assumes "\<forall>a \<in> set argv. 0 \<in> set a" "names_ok cmds" "\<forall>n \<in> set ns. n \<le> length argv"
  shows "find_cmd cmds argv ns = Some (case candidates cmds (map str_out argv) ns of
      [] \<Rightarrow> None | (p, j) # _ \<Rightarrow> Some (p, cmd_name p # drop j argv))"
  using assms(3)
proof (induction ns)
  case (Cons n ns)
  let ?N = "cmd_named (join_words (take n (map str_out argv)))"
  show ?case
    using Cons first_match_named(1) [OF assms(1,2), of n] by (cases "filter ?N cmds") (simp_all add: find_filter candidates_def)
qed (simp add: candidates_def)

text \<open>C38. A line runs the command it names: its words, with everything after the ninth in the tenth, are
  joined by underscores until they make the name of a command, the fewest words first and the first
  such command of the table; the command gets its name and the words that are left. When no
  command fits, the line is refused as incomplete if it is the beginning of a name up to an
  underscore, and as unknown otherwise; an empty line does nothing.\<close>

theorem cli_dispatch_resolves:
  assumes "names_ok cmds" "0 \<notin> set s"
  defines "ws \<equiv> tokens 10 s"
  shows "case resolve_cmd cmds ws of
      Some (p, j) \<Rightarrow> \<exists>args. cli_dispatch cmds (s @ 0 # r) w = Some (cmd_dispatch p (cmd_name p # args) w) \<and> map str_out args = drop j ws
    | None \<Rightarrow> cli_dispatch cmds (s @ 0 # r) w =
        Some (if ws = [] then 0 else if \<exists>p \<in> set cmds. \<exists>u. str_out (cmd_name p) = join_words ws @ 95 # u then ERR_INVALID_ARGS else ERR_NOT_FOUND,
          [], w)"
proof -
  from tokenize_words [OF assms(2), of r 10] obtain argv b where
    t: "tokenize (s @ 0 # r) CLI_MAX_ARGC = Some (argv, b)" "map str_out argv = ws" "\<forall>a \<in> set argv. 0 \<in> set a"
    by (auto simp: ws_def CLI_MAX_ARGC_def)
  have len: "length argv = length ws" using t(2) by auto
  have f: "find_cmd cmds argv [1..<length argv + 1] = Some (case resolve_cmd cmds ws of None \<Rightarrow> None | Some (p, j) \<Rightarrow> Some (p, cmd_name p # drop j argv))"
    using find_cmd_resolves [OF t(3) assms(1), of "[1..<length argv + 1]"]
    by (cases "candidates cmds ws [1..<length ws + 1]") (auto simp: resolve_cmd_def t(2) len simp del: upt_Suc)
  have g: "first_match 95 argv (length argv) cmds = Some (find (\<lambda>p. \<exists>u. str_out (cmd_name p) = join_words ws @ 95 # u) cmds)"
    using first_match_named(2) [OF t(3) assms(1) order.refl] t(2) len by simp
  show ?thesis
  proof (cases "argv = []")
    case True
    then have "ws = []" using len by auto
    then show ?thesis using t True by (simp add: cli_dispatch_def resolve_cmd_def candidates_def)
  next
    case False
    then have ne: "ws \<noteq> []" using len by auto
    show ?thesis
    proof (cases "resolve_cmd cmds ws")
      case None
      then show ?thesis using t(1) False ne f g
        by (cases "find (\<lambda>p. \<exists>u. str_out (cmd_name p) = join_words ws @ 95 # u) cmds") (auto simp: cli_dispatch_def find_None_iff find_Some_iff)
    next
      case (Some pj)
      then show ?thesis using t False f by (cases pj) (auto simp: cli_dispatch_def drop_map [symmetric])
    qed
  qed
qed

text \<open>A table with two commands and the line ``show  net 1''.\<close>

definition demo_cmds :: "nat cli_cmd list" where
  "demo_cmds = [\<lparr>cmd_name = cstr ''show_net'', cmd_dispatch = (\<lambda>argv w. (0, concat argv, w + length argv)), cmd_synopsis = None, cmd_brief = None\<rparr>,
     \<lparr>cmd_name = cstr ''show_net_all'', cmd_dispatch = (\<lambda>argv w. (0, [], w)), cmd_synopsis = None, cmd_brief = None\<rparr>]"

theorem cli_dispatch_resolves_witness:
  "\<exists>args. cli_dispatch demo_cmds (chars ''show  net 1'' @ 0 # [7]) 5 = Some (0, concat (cstr ''show_net'' # args), 5 + length (cstr ''show_net'' # args)) \<and>
     map str_out args = [chars ''1'']"
proof -
  have c: "\<exists>nm q. cstr s = nm @ 0 # q \<and> 0 \<notin> set nm" if "0 \<notin> set (chars s)" for s
    using that by (intro exI [of _ "chars s"] exI [of _ "[]"]) (simp add: cstr_def chars_def)
  have n: "names_ok demo_cmds"
    using c [of "''show_net''"] c [of "''show_net_all''"] by (simp add: names_ok_def demo_cmds_def chars_def)
  have t: "tokens 10 (chars ''show  net 1'') = [chars ''show'', chars ''net'', chars ''1'']"
    by code_simp
  have f: "filter (cmd_named (join_words (take 1 [chars ''show'', chars ''net'', chars ''1'']))) demo_cmds = []"
    "filter (cmd_named (join_words (take 2 [chars ''show'', chars ''net'', chars ''1'']))) demo_cmds = [demo_cmds ! 0]"
    by (simp_all add: demo_cmds_def cmd_named_def chars_def cstr_def str_out_def)
  have "[1..<length [chars ''show'', chars ''net'', chars ''1''] + 1] = [1, 2, 3]" by (simp add: upt_rec)
  then have "resolve_cmd demo_cmds [chars ''show'', chars ''net'', chars ''1''] = Some (demo_cmds ! 0, 2)"
    unfolding resolve_cmd_def candidates_def by (simp only: list.map concat.simps f append_Nil append_Cons list.case)
  with cli_dispatch_resolves [OF n, of "chars ''show  net 1''" "[7]" 5, unfolded t] show ?thesis
    by (simp add: demo_cmds_def chars_def)
qed

end
