(* ===== verification/Cli_Screen.thy ===== *)
theory Cli_Screen
  imports Cli
begin

text \<open>
  What the user of the shell sees: a terminal that obeys the bytes the shell writes, the history as a
  list, completion inside the names of the commands, and the loop of \<^verbatim>\<open>src/shell/cli.c\<close> that keeps
  the row on the screen equal to the line in the editor.
\<close>

section \<open>A terminal\<close>

text \<open>
  The row the cursor is in, as wide as needed, and where the cursor is. Bytes are characters,
  control characters or parts of the escape sequences the shell uses: \<^verbatim>\<open>ESC [ 2 K\<close> erases the row, \<^verbatim>\<open>ESC [ n G\<close>
  moves to column \<open>n\<close>, \<^verbatim>\<open>ESC [ 2 J ESC [ H\<close> erases everything and goes to the first row. A new
  row is blank.
\<close>

datatype term_state = Ground | Esc | Csi nat

record terminal =
  t_cell :: "nat \<Rightarrow> u8"
  t_col :: nat
  t_state :: term_state

definition printable :: "u8 \<Rightarrow> bool" where
  "printable c \<longleftrightarrow> 32 \<le> c \<and> c < 127"

definition blank_row :: "nat \<Rightarrow> u8" where
  "blank_row = (\<lambda>_. 32)"

definition term_byte :: "u8 \<Rightarrow> terminal \<Rightarrow> terminal" where
  "term_byte c t =
     (case t_state t of
        Ground \<Rightarrow>
          if c = 13 then t\<lparr>t_col := 0\<rparr>
          else if c = 10 then t\<lparr>t_cell := blank_row\<rparr>
          else if c = 8 then t\<lparr>t_col := t_col t - 1\<rparr>
          else if c = 27 then t\<lparr>t_state := Esc\<rparr>
          else if printable c then t\<lparr>t_cell := (t_cell t)(t_col t := c), t_col := t_col t + 1\<rparr>
          else t
      | Esc \<Rightarrow> t\<lparr>t_state := if c = 91 then Csi 0 else Ground\<rparr>
      | Csi n \<Rightarrow>
          if is_digit c then t\<lparr>t_state := Csi (n * 10 + (unat c - 48))\<rparr>
          else if c = 59 then t\<lparr>t_state := Csi 0\<rparr>
          else if c = 71 then t\<lparr>t_col := n - 1, t_state := Ground\<rparr>
          else if c = 72 then t\<lparr>t_col := 0, t_cell := blank_row, t_state := Ground\<rparr>
          else if (c = 74 \<or> c = 75) \<and> n = 2 then t\<lparr>t_cell := blank_row, t_state := Ground\<rparr>
          else t\<lparr>t_state := Ground\<rparr>)"

definition term_run :: "bytes \<Rightarrow> terminal \<Rightarrow> terminal" where
  "term_run s t = fold term_byte s t"

lemma term_run_simps [simp]: "term_run [] t = t" "term_run (c # s) t = term_run s (term_byte c t)" "term_run (a @ b) t = term_run b (term_run a t)"
  by (simp_all add: term_run_def)

text \<open>A text, then blanks.\<close>

definition row_of :: "bytes \<Rightarrow> nat \<Rightarrow> u8" where
  "row_of s = (\<lambda>i. if i < length s then s ! i else 32)"

lemma row_of_simps: "row_of [] = blank_row" "row_of (s @ [32]) = row_of s" "(row_of s)(length s := c) = row_of (s @ [c])"
  by (auto simp: row_of_def blank_row_def nth_append fun_eq_iff)

definition shows_text :: "bytes \<Rightarrow> nat \<Rightarrow> terminal \<Rightarrow> bool" where
  "shows_text s col t \<longleftrightarrow> t_state t = Ground \<and> t_cell t = row_of s \<and> t_col t = col"

lemma printable_not: "printable c \<Longrightarrow> c \<noteq> 13 \<and> c \<noteq> 10 \<and> c \<noteq> 8 \<and> c \<noteq> 27 \<and> c \<noteq> 0"
  by (auto simp: printable_def)

lemma term_print:
  "shows_text s (length s) t \<Longrightarrow> \<forall>c \<in> set x. printable c \<Longrightarrow> shows_text (s @ x) (length (s @ x)) (term_run x t)"
proof (induction x arbitrary: s t)
  case (Cons c x)
  have "shows_text (s @ [c]) (length (s @ [c])) (term_byte c t)"
    using Cons.prems printable_not [of c] by (auto simp: shows_text_def term_byte_def row_of_simps)
  from Cons.IH [OF this] Cons.prems(2) show ?case by simp
qed simp

lemma term_digits:
  "t_state t = Csi n \<Longrightarrow> \<forall>c \<in> set ds. is_digit c \<Longrightarrow> term_run ds t = t\<lparr>t_state := Csi (foldl (\<lambda>r c. r * 10 + (unat c - 48)) n ds)\<rparr>"
  by (induction ds arbitrary: t n) (simp_all add: term_byte_def)

lemma ed_len_text: "ed_holds ed (l, r) \<Longrightarrow> 0 \<notin> set (l @ r) \<Longrightarrow> str_out (ed_buf ed) = l @ r"
  using str_out_cstr [of "l @ r"] by (auto simp: ed_holds_iff)

text \<open>Drawing the line from whatever the row shows.\<close>

definition prompt_text :: "bytes \<Rightarrow> u8 \<Rightarrow> bytes" where
  "prompt_text hostname promptchar = hostname @ [promptchar, 32]"

lemma term_erase: "t_state t = Ground \<Longrightarrow> shows_text [] 0 (term_run [13, 27, 91, 50, 75] t)"
  by (simp add: term_byte_def shows_text_def row_of_simps is_digit_def)

lemma term_column: "t_state t = Ground \<Longrightarrow> term_run ([27, 91] @ dec_str n @ [71]) t = t\<lparr>t_col := n - 1\<rparr>"
  using term_digits [of "t\<lparr>t_state := Csi 0\<rparr>" 0 "dec_str n"] dec_str_facts [of n]
  by (simp add: term_byte_def dec_val_def is_digit_def [of 71])

lemma redraw_shows:
  assumes t: "t_state t = Ground" and p: "\<forall>c \<in> set (hostname @ [promptchar]). printable c"
    and h: "ed_holds ed (l, r)" "\<forall>c \<in> set (l @ r). printable c"
  shows "shows_text (prompt_text hostname promptchar @ l @ r) (length (prompt_text hostname promptchar) + length l)
    (term_run (redraw_line hostname promptchar ed) t)"
proof -
  let ?P = "prompt_text hostname promptchar"
  have pp: "\<forall>c \<in> set (?P @ l @ r). printable c" using p h(2) by (auto simp: prompt_text_def printable_def)
  have "0 \<notin> set (l @ r)" using h(2) printable_not by blast
  from ed_len_text [OF h(1) this] have out: "redraw_line hostname promptchar ed =
      [13, 27, 91, 50, 75] @ (?P @ l @ r) @ ([27, 91] @ dec_str (length ?P + length l + 1) @ [71])"
    using h(1) by (simp add: redraw_line_def cli_prompt_def prompt_text_def prompt_len_def ed_holds_iff nat_int_add nat_add_distrib numeral_3_eq_3)
  have "shows_text (?P @ l @ r) (length (?P @ l @ r)) (term_run (?P @ l @ r) (term_run [13, 27, 91, 50, 75] t))"
    using term_print [OF _ pp, of "[]"] term_erase [OF t] by simp
  then show ?thesis unfolding out term_run_simps(3) [of "[13, 27, 91, 50, 75]"] term_run_simps(3) [of "?P @ l @ r"]
    by (subst term_column) (simp_all add: shows_text_def)
qed

text \<open>Output that does not end inside an escape sequence.\<close>

definition ground_out :: "bytes \<Rightarrow> bool" where
  "ground_out s \<longleftrightarrow> (\<forall>t. t_state t = Ground \<longrightarrow> t_state (term_run s t) = Ground)"

lemma ground_append: "ground_out a \<Longrightarrow> ground_out b \<Longrightarrow> ground_out (a @ b)"
  by (simp add: ground_out_def)

lemma ground_plain: "\<forall>c \<in> set s. c \<noteq> 27 \<Longrightarrow> ground_out s"
proof (induction s)
  case (Cons c s)
  have "t_state t = Ground \<Longrightarrow> t_state (term_byte c t) = Ground" for t using Cons.prems by (auto simp: term_byte_def)
  then show ?case using Cons by (simp add: ground_out_def)
qed (simp add: ground_out_def)

section \<open>Editing and echo\<close>

text \<open>What a character does to the line, with the characters that are inserted printable.\<close>

lemma plain_key_printable: "plain_key c = Some k \<Longrightarrow> k = Insert b \<Longrightarrow> printable b"
proof -
  assume "plain_key c = Some k" "k = Insert b"
  then have c: "32 \<le> c" "c < 127" "b = of_int c" by (auto simp: plain_key_def split: if_splits)
  have "uint (of_int c :: u8) = c" using c(1,2) by (simp add: unsigned_of_int take_bit_int_eq_self)
  then show "printable b" using c by (simp add: printable_def word_le_def word_less_def)
qed

lemma input_line:
  assumes h: "ed_holds ed (l, r)"
  shows "\<exists>ev ed'. cli_ed_input ed c = Some (ev, ed') \<and>
    (same_line ed ed' \<or> ev = CLI_ED_NONE \<and> (\<exists>k. (\<forall>b. k = Insert b \<longrightarrow> printable b) \<and> ed_holds ed' (line_edit k (l, r))))"
proof -
  have normal: ?thesis if "cli_ed_input ed c = cli_ed_normal ed c"
  proof (cases "plain_key c = None \<or> c = 4 \<and> ed_len ed = 0")
    case True
    then show ?thesis using normal_other [OF True] that by auto
  next
    case False
    then obtain k where k: "plain_key c = Some k" by auto
    have "c = 4 \<Longrightarrow> l @ r \<noteq> []" using False h k by (auto simp: ed_holds_iff)
    from normal_key [OF h k this] that plain_key_printable [OF k] show ?thesis by auto
  qed
  let ?e = "ed\<lparr>ed_esc_state := CLI_ESC_NONE\<rparr>"
  have csi: ?thesis if i: "cli_ed_input ed c = handle_csi_final ?e c"
  proof (cases "csi_key (ed_esc_param1 ?e) (ed_esc_param2 ?e) c")
    case None
    then show ?thesis using csi_final_other [OF None] i by (auto simp: same_line_def)
  next
    case (Some k)
    have "\<forall>b. k \<noteq> Insert b" using Some by (auto simp: csi_key_def split: if_splits)
    then show ?thesis using csi_final_key [of ?e l r c k] Some h i by auto
  qed
  have same: ?thesis if "cli_ed_input ed c = Some (CLI_ED_NONE, ed')" "same_line ed ed'" for ed'
    using that by blast
  show ?thesis
  proof (cases "ed_esc_state ed")
    case CLI_ESC_ESC
    have w: "edits (word_backward ?e) ?e (line_edit WordLeft (l, r))" "edits (word_forward ?e) ?e (line_edit WordRight (l, r))"
      using word_backward_edits [of ?e l r] word_forward_edits [of ?e l r] h by simp_all
    consider "c = 98" | "c = 102" | "c \<noteq> 98" "c \<noteq> 102" by blast
    then show ?thesis
    proof cases
      case 1
      then show ?thesis using CLI_ESC_ESC w(1) by (auto simp: cli_ed_input_def edits_def simp del: line_edit.simps)
    next
      case 2
      then show ?thesis using CLI_ESC_ESC w(2) by (auto simp: cli_ed_input_def edits_def simp del: line_edit.simps)
    next
      case 3
      then show ?thesis using CLI_ESC_ESC same by (cases "c = 91") (simp_all add: cli_ed_input_def same_line_def)
    qed
  next
    case CLI_ESC_BRACKET
    then show ?thesis using csi same by (cases "esc_digit c") (simp_all add: cli_ed_input_def same_line_def)
  next
    case CLI_ESC_PARAM1
    then show ?thesis using csi same by (cases "esc_digit c"; cases "c = 59") (simp_all add: cli_ed_input_def same_line_def)
  next
    case CLI_ESC_PARAM2
    then show ?thesis using csi same by (cases "esc_digit c") (simp_all add: cli_ed_input_def same_line_def)
  next
    case CLI_ESC_SEMI
    then show ?thesis using same by (cases "esc_digit c") (simp_all add: cli_ed_input_def same_line_def)
  qed (use normal in \<open>simp_all add: cli_ed_input_def\<close>)
qed

text \<open>When the lengths say that one character came or went at the end, it did.\<close>

lemma word_right_text: "line_edit WordRight (l, r) = (l', r') \<Longrightarrow> l' @ r' = l @ r"
proof -
  let ?w = "takeWhile (\<lambda>c. c \<noteq> 32) r @ takeWhile (\<lambda>c. c = 32) (dropWhile (\<lambda>c. c \<noteq> 32) r)"
  have "r = ?w @ dropWhile (\<lambda>c. c = 32) (dropWhile (\<lambda>c. c \<noteq> 32) r)" by simp
  then have "?w @ drop (length ?w) r = r" by (metis append_eq_conv_conj)
  then show "line_edit WordRight (l, r) = (l', r') \<Longrightarrow> l' @ r' = l @ r" unfolding line_edit.simps Let_def by auto
qed

lemma take_of_size: "length (take n l) = length l \<Longrightarrow> take n l = l" "Suc (length (take n l)) = length l \<Longrightarrow> take n l = butlast l"
proof -
  show "length (take n l) = length l \<Longrightarrow> take n l = l" by (metis length_take min.cobounded2 take_all)
  assume a: "Suc (length (take n l)) = length l"
  then have "n = length l - 1" by (simp add: min_def split: if_splits)
  then show "take n l = butlast l" by (simp add: butlast_conv_take)
qed

lemma kill_word_line: "line_edit KillWord (l, r) = (l', r') \<Longrightarrow> \<exists>n. l' = take n l \<and> r' = r"
  by (simp del: take_eq_Nil) blast

lemma word_left_text: "line_edit WordLeft (l, r) = (l', r') \<Longrightarrow> l' @ r' = l @ r"
  by (auto simp: Let_def)

lemma edit_same_size:
  assumes e: "line_edit k (l, r) = (l', r')" and n: "length l' + length r' = length l + length r"
  shows "l' @ r' = l @ r"
proof (cases k)
  case KillWord
  then show ?thesis using kill_word_line [of l r l' r'] take_of_size(1) e n by auto
next
  case WordLeft
  then show ?thesis using word_left_text e by blast
next
  case WordRight
  then show ?thesis using word_right_text e by blast
next
  case Delete
  then show ?thesis using e n by (cases r) auto
next
  case CharRight
  then show ?thesis using e by (cases r) auto
next
  case Backspace
  then show ?thesis using e n by (cases l) auto
qed (use e n in \<open>auto split: if_splits\<close>)

lemma edit_grows:
  assumes e: "line_edit k (l, r) = (l', r')" and n: "length l + length r < length l' + length r'"
  shows "\<exists>b. k = Insert b \<and> l' = l @ [b] \<and> r' = r"
proof (cases k)
  case KillWord
  then show ?thesis using kill_word_line [of l r l' r'] e n by auto
next
  case WordLeft
  then show ?thesis using word_left_text [of l r l' r'] e n by (metis length_append less_irrefl)
next
  case WordRight
  then show ?thesis using word_right_text [of l r l' r'] e n by (metis length_append less_irrefl)
next
  case CharRight
  then show ?thesis using e n by (cases r) auto
qed (use e n in \<open>auto split: if_splits\<close>)

lemma edit_rubs:
  assumes e: "line_edit k (l, []) = (l', [])" and n: "Suc (length l') = length l"
  shows "l' = butlast l"
proof (cases k)
  case KillWord
  then show ?thesis using kill_word_line [of l "[]" l' "[]"] take_of_size(2) e n by auto
next
  case WordLeft
  then show ?thesis using word_left_text [of l "[]" l' "[]"] e n by simp
next
  case WordRight
  then show ?thesis using word_right_text [of l "[]" l' "[]"] e n by simp
next
  case KillLine
  then show ?thesis using e n by (cases l) auto
qed (use e n in \<open>auto split: if_splits\<close>)

section \<open>The history as a list\<close>

text \<open>The lines, the latest first.\<close>

definition hist_slot :: "history \<Rightarrow> nat \<Rightarrow> nat" where
  "hist_slot h i = nat ((history_wpos h - 1 - int i + HISTORY_SIZE) mod HISTORY_SIZE)"

definition hist_is :: "history \<Rightarrow> bytes list \<Rightarrow> bool" where
  "hist_is h xs \<longleftrightarrow> length (history_lines h) = 8 \<and> 0 \<le> history_wpos h \<and> history_wpos h < 8 \<and> 0 \<le> history_count h \<and>
     int (length xs) = min (history_count h) 8 \<and> (\<forall>i < length xs. history_lines h ! hist_slot h i = Some (xs ! i @ [0]) \<and> 0 \<notin> set (xs ! i))"

lemma hist_slot_less: "hist_slot h i < 8"
proof -
  have "(history_wpos h - 1 - int i + 8) mod 8 < 8" "0 \<le> (history_wpos h - 1 - int i + 8) mod 8"
    using pos_mod_bound [of 8] pos_mod_sign [of 8] by simp_all
  then show ?thesis by (simp add: hist_slot_def HISTORY_SIZE_def nat_less_iff)
qed

lemma str_copy_cstr: "0 \<notin> set a \<Longrightarrow> str_copy (a @ 0 # r) = Some (a @ [0])"
  by (simp add: str_copy_def strlen_cstr)

lemma history_get_list:
  assumes "hist_is h xs"
  shows "history_get off h = Some (if 0 \<le> off \<and> nat off < length xs then Some (xs ! nat off @ [0]) else None)"
proof (cases "0 \<le> off \<and> nat off < length xs")
  case True
  then have "history_lines h ! hist_slot h (nat off) = Some (xs ! nat off @ [0])" "0 \<notin> set (xs ! nat off)" "length (history_lines h) = 8"
    and c: "off < min (history_count h) HISTORY_SIZE"
    using assms by (auto simp: hist_is_def HISTORY_SIZE_def)
  then show ?thesis using True hist_slot_less [of h "nat off"] str_copy_cstr [of "xs ! nat off" "[]"]
    by (simp add: history_get_def buf_rd_def hist_slot_def)
next
  case False
  then have "\<not> (0 \<le> off \<and> off < min (history_count h) HISTORY_SIZE)" using assms by (auto simp: hist_is_def HISTORY_SIZE_def)
  then show ?thesis using False by (auto simp: history_get_def Let_def)
qed

lemma slot_mod: "0 \<le> w \<Longrightarrow> w < 8 \<Longrightarrow> 0 \<le> i \<Longrightarrow> i < 7 \<Longrightarrow> (w - 1 - i + 8) mod 8 \<noteq> (w :: int)"
  by presburger

lemma history_add_list:
  assumes h: "hist_is h xs" and s: "0 \<notin> set s"
  shows "\<exists>h'. history_add (s @ 0 # r) h = Some h' \<and> hist_is h' (if xs \<noteq> [] \<and> hd xs = s then xs else take 8 (s # xs))"
proof -
  have c: "history_count h > 0 \<longleftrightarrow> xs \<noteq> []" using h by (cases xs) (auto simp: hist_is_def min_def split: if_splits)
  have sm: "(if history_count h > 0 then do {
         l \<leftarrow> buf_rd (history_lines h) (nat ((history_wpos h - 1 + HISTORY_SIZE) mod HISTORY_SIZE));
         l \<leftarrow> l;
         v \<leftarrow> strcmp (s @ 0 # r) l;
         Some (v = 0)
       } else Some False) = Some (xs \<noteq> [] \<and> hd xs = s)"
  proof (cases xs)
    case Nil
    then show ?thesis using c by simp
  next
    case (Cons x ys)
    then have x: "history_lines h ! hist_slot h 0 = Some (x @ [0])" "0 \<notin> set x" "length (history_lines h) = 8"
      using h by (fastforce simp: hist_is_def)+
    then show ?thesis using c Cons strcmp_cstr [OF s x(2), of r "[]"] hist_slot_less [of h 0]
      by (auto simp: hist_slot_def buf_rd_def)
  qed
  show ?thesis
  proof (cases "xs \<noteq> [] \<and> hd xs = s")
    case True
    then show ?thesis using sm h unfolding history_add_def by simp
  next
    case False
    let ?w = "nat (history_wpos h)"
    let ?h = "\<lparr>history_lines = (history_lines h)[?w := Some (s @ [0])], history_wpos = (history_wpos h + 1) mod HISTORY_SIZE,
      history_count = history_count h + 1\<rparr>"
    have w: "?w < 8" "int ?w = history_wpos h" using h by (auto simp: hist_is_def)
    have add: "history_add (s @ 0 # r) h = Some ?h"
      using sm False str_copy_cstr [OF s, of r] w h unfolding history_add_def by (simp add: buf_wr_def hist_is_def)
    have slot: "hist_slot ?h 0 = ?w" "hist_slot ?h (Suc i) = hist_slot h i" "i < 7 \<Longrightarrow> hist_slot h i \<noteq> ?w" for i
    proof -
      have e: "((history_wpos h + 1) mod 8 - 1 - int j + 8) mod 8 = (history_wpos h - int j + 8) mod 8" for j
        using mod_add_left_eq [of "history_wpos h + 1" 8 "7 - int j"] by (simp add: algebra_simps)
      have "(history_wpos h + 8) mod 8 = history_wpos h" using h by (simp add: hist_is_def)
      then show "hist_slot ?h 0 = ?w" using e [of 0] by (simp add: hist_slot_def HISTORY_SIZE_def)
      show "hist_slot ?h (Suc i) = hist_slot h i" using e [of "Suc i"] by (simp add: hist_slot_def HISTORY_SIZE_def algebra_simps)
      show "hist_slot h i \<noteq> ?w" if "i < 7"
      proof
        assume "hist_slot h i = ?w"
        moreover have "0 \<le> (history_wpos h - 1 - int i + 8) mod 8" by simp
        ultimately have "(history_wpos h - 1 - int i + 8) mod 8 = history_wpos h"
          using h unfolding hist_slot_def HISTORY_SIZE_def hist_is_def by (metis int_nat_eq)
        then show False using slot_mod [of "history_wpos h" "int i"] that h by (simp add: hist_is_def)
      qed
    qed
    have "hist_is ?h (take 8 (s # xs))"
      unfolding hist_is_def
    proof (intro conjI allI impI)
      fix i assume i: "i < length (take 8 (s # xs))"
      have "history_lines ?h ! hist_slot ?h i = Some (take 8 (s # xs) ! i @ [0]) \<and> 0 \<notin> set (take 8 (s # xs) ! i)"
        using i h s slot(1,2) slot(3) [THEN not_sym] w by (cases i) (auto simp: hist_is_def)
      then show "history_lines ?h ! hist_slot ?h i = Some (take 8 (s # xs) ! i @ [0])" "0 \<notin> set (take 8 (s # xs) ! i)" by blast+
    qed (use h in \<open>auto simp: hist_is_def HISTORY_SIZE_def\<close>)
    then show ?thesis using add False by auto
  qed
qed

lemma history_init_list: "hist_is history_init []"
  by (simp add: hist_is_def history_init_def)

section \<open>Completion stays inside the names\<close>

definition cmds_ok :: "'w cli_cmd list \<Rightarrow> bool" where
  "cmds_ok cmds \<longleftrightarrow> (\<forall>p \<in> set cmds. (\<exists>nm q. cmd_name p = nm @ 0 # q \<and> (\<forall>c \<in> set nm. printable c)) \<and>
     (\<forall>s. cmd_synopsis p = Some s \<or> cmd_brief p = Some s \<longrightarrow> 27 \<notin> set s) \<and> (\<forall>args w. ground_out (fst (snd (cmd_dispatch p args w)))))"

lemma printable_no_nul: "\<forall>c \<in> set s. printable c \<Longrightarrow> 0 \<notin> set s"
  using printable_not by blast

lemma cmds_ok_name:
  assumes "cmds_ok cmds" "p \<in> set cmds"
  obtains nm q where "cmd_name p = nm @ 0 # q" "0 \<notin> set nm" "\<forall>c \<in> set nm. printable c" "str_out (cmd_name p) = nm"
proof -
  from assms obtain nm q where "cmd_name p = nm @ 0 # q" "\<forall>c \<in> set nm. printable c" by (auto simp: cmds_ok_def)
  then show ?thesis using that printable_no_nul str_out_cstr by metis
qed

lemma cmds_ok_names: "cmds_ok cmds \<Longrightarrow> names_ok cmds"
  by (metis cmds_ok_name names_ok_def)

text \<open>The line with underscores for blanks.\<close>

definition as_name :: "bytes \<Rightarrow> bytes" where
  "as_name s = map (\<lambda>c. if c = 32 then 95 else c) s"

lemma prefix_match_loop_name:
  assumes "0 \<notin> set nm" "0 \<notin> set t" "i \<le> length t" "take i nm = as_name (take i t)" "i \<le> length nm" "n = length t"
  shows "prefix_match_loop (nm @ 0 # q) (t @ x) n i = Some (take n nm = as_name t)"
  using assms
proof (induction "n - i" arbitrary: i)
  case 0
  then show ?case by (subst prefix_match_loop.simps) simp
next
  case (Suc d)
  then have i: "i < length t" by simp
  let ?b = "if t ! i = 32 then 95 else t ! i"
  have "t ! i \<in> set t" using i by simp
  then have t: "t ! i \<noteq> 0" using Suc.prems(2) by metis
  have tk: "as_name (take (Suc i) t) = as_name (take i t) @ [?b]" using i by (simp add: as_name_def take_Suc_conv_app_nth)
  have neq: "take n nm \<noteq> as_name t" if "take (Suc i) nm \<noteq> as_name (take (Suc i) t)"
  proof
    assume "take n nm = as_name t"
    then have "take (Suc i) (take n nm) = take (Suc i) (as_name t)" by simp
    then show False using that i Suc.prems(6) by (simp add: as_name_def take_map min_def split: if_splits)
  qed
  show ?case
  proof (cases "i < length nm")
    case False
    then have "i = length nm" using Suc.prems(5) by simp
    then have "take (Suc i) nm \<noteq> as_name (take (Suc i) t)" using Suc.prems(4) tk by auto
    then show ?thesis using \<open>i = length nm\<close> neq i t Suc.prems(6)
      by (subst prefix_match_loop.simps) (auto simp: buf_rd_def nth_append)
  next
    case True
    then have tn: "take (Suc i) nm = take i nm @ [nm ! i]" by (simp add: take_Suc_conv_app_nth)
    show ?thesis
    proof (cases "nm ! i = ?b")
      case e: True
      have "prefix_match_loop (nm @ 0 # q) (t @ x) n (Suc i) = Some (take n nm = as_name t)"
        using Suc.hyps i True tn tk e Suc.prems by (intro Suc.hyps(1)) auto
      then show ?thesis using e i True Suc.prems(6) by (subst prefix_match_loop.simps) (auto simp: buf_rd_def nth_append)
    next
      case e: False
      then have "take (Suc i) nm \<noteq> as_name (take (Suc i) t)" using tn tk Suc.prems(4) by simp
      then show ?thesis using e neq i True Suc.prems(6) by (subst prefix_match_loop.simps) (auto simp: buf_rd_def nth_append)
    qed
  qed
qed

lemma prefix_match_name:
  "0 \<notin> set nm \<Longrightarrow> 0 \<notin> set t \<Longrightarrow> prefix_match (nm @ 0 # q) (t @ x) (length t) = Some (take (length t) nm = as_name t)"
  using prefix_match_loop_name [of nm t 0] by (simp add: prefix_match_def as_name_def)

lemma as_name_length [simp]: "length (as_name t) = length t"
  by (simp add: as_name_def)

lemma common_loop_bounds:
  assumes "0 \<notin> set nm" "0 \<notin> set f" "i \<le> length nm" "common \<le> length f" "i \<le> common" "take i nm = take i f"
  shows "\<exists>k. common_loop (nm @ 0 # q) (f @ 0 # y) common i = Some k \<and> i \<le> k \<and> k \<le> common \<and> k \<le> length nm \<and> take k nm = take k f"
  using assms
proof (induction "common - i" arbitrary: i)
  case 0
  then show ?case by (subst common_loop.simps) auto
next
  case (Suc d)
  then have i: "i < common" "i < length f" by simp_all
  have f: "f ! i \<noteq> 0" using i Suc.prems(2) nth_mem by metis
  show ?case
  proof (cases "i < length nm \<and> nm ! i = f ! i")
    case True
    then have "take (Suc i) nm = take (Suc i) f" using i Suc.prems(6) by (simp add: take_Suc_conv_app_nth)
    moreover have "d = common - Suc i" using Suc.hyps(2) by simp
    ultimately obtain k where "common_loop (nm @ 0 # q) (f @ 0 # y) common (Suc i) = Some k" "Suc i \<le> k" "k \<le> common" "k \<le> length nm" "take k nm = take k f"
      using Suc.hyps(1) [of "Suc i"] True i Suc.prems by auto
    then show ?thesis using True i by (subst common_loop.simps) (auto simp: buf_rd_def nth_append)
  next
    case False
    then have "(nm @ 0 # q) ! i \<noteq> f ! i" using f Suc.prems(3) by (auto simp: nth_append)
    then show ?thesis using False i Suc.prems by (subst common_loop.simps) (auto simp: buf_rd_def nth_append)
  qed
qed

text \<open>The state of the first pass: a command that matches, and how much of it all have in common.\<close>

definition scan_ok :: "'w cli_cmd list \<Rightarrow> bytes \<Rightarrow> 'w cli_cmd option \<times> nat \<times> nat \<Rightarrow> bool" where
  "scan_ok cmds t st \<longleftrightarrow> (case st of (first, nmatch, common) \<Rightarrow>
     case first of None \<Rightarrow> nmatch = 0
     | Some f \<Rightarrow> f \<in> set cmds \<and> take (length t) (str_out (cmd_name f)) = as_name t \<and> length t \<le> common \<and> common \<le> length (str_out (cmd_name f)))"

lemma as_name_prefix_length: "take (length t) nm = as_name t \<Longrightarrow> length t \<le> length nm"
  by (metis as_name_length length_take min.cobounded1)

lemma compl_scan_ok:
  assumes "cmds_ok cmds" "0 \<notin> set t" "set ps \<subseteq> set cmds" "scan_ok cmds t st"
  shows "\<exists>st'. compl_scan (t @ x) (length t) ps st = Some st' \<and> scan_ok cmds t st'"
  using assms(3,4)
proof (induction ps arbitrary: st)
  case (Cons p ps)
  obtain first nmatch common where st: "st = (first, nmatch, common)" by (cases st)
  from assms(1) Cons.prems(1) obtain nm q where nm: "cmd_name p = nm @ 0 # q" "0 \<notin> set nm" "str_out (cmd_name p) = nm"
    by (metis cmds_ok_name insert_subset list.simps(15))
  note m = prefix_match_name [OF nm(2) assms(2), of q x, folded nm(1)]
  show ?case
  proof (cases "take (length t) nm = as_name t")
    case False
    then show ?thesis using Cons.IH [OF _ Cons.prems(2)] Cons.prems(1) m st by simp
  next
    case True
    note len = as_name_prefix_length [OF True]
    show ?thesis
    proof (cases first)
      case None
      have "scan_ok cmds t (Some p, nmatch + 1, length nm)" using Cons.prems(1) True nm(3) len by (simp add: scan_ok_def)
      from Cons.IH [OF _ this] show ?thesis using Cons.prems(1) m True None st strlen_cstr [OF nm(2), of q] nm(1) by simp
    next
      case (Some f)
      then have f: "f \<in> set cmds" "take (length t) (str_out (cmd_name f)) = as_name t" "length t \<le> common" "common \<le> length (str_out (cmd_name f))"
        using Cons.prems(2) st by (auto simp: scan_ok_def)
      from assms(1) f(1) obtain fn y where fn: "cmd_name f = fn @ 0 # y" "0 \<notin> set fn" "str_out (cmd_name f) = fn" by (metis cmds_ok_name)
      from common_loop_bounds [OF nm(2) fn(2) len, of common q y] f fn(3) True obtain k where
        k: "common_loop (cmd_name p) (cmd_name f) common (length t) = Some k" "length t \<le> k" "k \<le> common" by (auto simp: nm(1) fn(1))
      have "scan_ok cmds t (Some f, nmatch + 1, k)" using f k by (simp add: scan_ok_def)
      from Cons.IH [OF _ this] show ?thesis using Cons.prems(1) m True Some st k(1) by simp
    qed
  qed
qed simp

lemma compl_exact_ok:
  assumes "cmds_ok cmds" "0 \<notin> set t" "set ps \<subseteq> set cmds"
  shows "\<exists>r. compl_exact (t @ x) (length t) ps = Some r \<and> (\<forall>p. r = Some p \<longrightarrow> p \<in> set cmds)"
  using assms(3)
proof (induction ps)
  case (Cons p ps)
  from assms(1) Cons.prems(1) obtain nm q where nm: "cmd_name p = nm @ 0 # q" "0 \<notin> set nm"
    by (metis cmds_ok_name insert_subset list.simps(15))
  note m = prefix_match_name [OF nm(2) assms(2), of q x, folded nm(1)]
  show ?case using Cons m strlen_cstr [OF nm(2), of q] nm(1) by auto
qed simp

lemma ground_help: "cmds_ok cmds \<Longrightarrow> p \<in> set cmds \<Longrightarrow> ground_out (cmd_help_line p)"
proof (rule ground_plain)
  assume c: "cmds_ok cmds" "p \<in> set cmds"
  from cmds_ok_name [OF this] obtain nm where nm: "str_out (cmd_name p) = nm" "\<forall>c \<in> set nm. printable c" by metis
  have "27 \<notin> set (print_cmd_name (cmd_name p))" using nm printable_not by (fastforce simp: print_cmd_name_def)
  moreover have "27 \<notin> set (str_out s)" if "cmd_synopsis p = Some s \<or> cmd_brief p = Some s" for s
    using c that by (auto simp: cmds_ok_def str_out_def dest: set_takeWhileD)
  ultimately show "\<forall>c \<in> set (cmd_help_line p). c \<noteq> 27"
    by (auto simp: cmd_help_line_def chars_def split: option.splits)
qed

lemma compl_word_start_ok:
  "i \<le> length t \<Longrightarrow> \<exists>k. compl_word_start (t @ x) i = Some k \<and> k \<le> i"
proof (induction i)
  case 0
  then show ?case by (subst compl_word_start.simps) simp
next
  case (Suc i)
  then obtain k where "compl_word_start (t @ x) i = Some k" "k \<le> i" by auto
  then show ?case using Suc.prems by (subst compl_word_start.simps) (auto simp: buf_rd_def)
qed

lemma drop_name: "k \<le> length nm \<Longrightarrow> drop k (nm @ 0 # q) = drop k nm @ 0 # q"
  by simp

lemma seg_facts:
  assumes "0 \<notin> set nm" "k \<le> length nm" "suffix = drop k (nm @ 0 # q)" "seg = takeWhile (\<lambda>c. c \<noteq> 0 \<and> c \<noteq> 95) suffix"
  shows "\<exists>c. buf_rd suffix (length seg) = Some c" "set seg \<subseteq> set nm"
proof -
  have s: "suffix = drop k nm @ 0 # q" using assms by simp
  then have seg: "seg = takeWhile (\<lambda>c. c \<noteq> 0 \<and> c \<noteq> 95) (drop k nm)" by (simp add: assms(4) takeWhile_tail)
  then show "set seg \<subseteq> set nm" by (auto dest!: set_takeWhileD in_set_dropD)
  have "length seg \<le> length (drop k nm)" unfolding seg by (rule length_takeWhile_le)
  then show "\<exists>c. buf_rd suffix (length seg) = Some c" by (auto simp: buf_rd_def s)
qed

text \<open>What was listed last is a string.\<close>

definition prev_ok :: "bytes option \<Rightarrow> bool" where
  "prev_ok prev \<longleftrightarrow> (\<forall>s. prev = Some s \<longrightarrow> (\<exists>a q. s = a @ 0 # q \<and> 0 \<notin> set a))"

lemma strncmp_ok:
  assumes "\<exists>a q. s = a @ 0 # q \<and> 0 \<notin> set a" "\<exists>a q. s' = a @ 0 # q \<and> 0 \<notin> set a"
  shows "\<exists>d. strncmp s s' n = Some d"
  using assms strncmp_cstr by metis

lemma compl_list_ok:
  assumes c: "cmds_ok cmds" "0 \<notin> set t" "k \<le> length t"
  shows "set ps \<subseteq> set cmds \<Longrightarrow> prev_ok prev \<Longrightarrow> \<exists>out. compl_list (t @ x) (length t) k ps (prev, n) = Some out \<and> (\<forall>c \<in> set out. c \<noteq> 27)"
proof (induction ps arbitrary: prev n)
  case (Cons p ps)
  from c(1) Cons.prems(1) obtain nm q where nm: "cmd_name p = nm @ 0 # q" "0 \<notin> set nm" "\<forall>c \<in> set nm. printable c"
    by (metis cmds_ok_name insert_subset list.simps(15))
  note m = prefix_match_name [OF nm(2) c(2), of q x, folded nm(1)]
  have ps: "set ps \<subseteq> set cmds" using Cons.prems(1) by simp
  show ?case
  proof (cases "take (length t) nm = as_name t")
    case False
    then show ?thesis using Cons.IH [OF ps Cons.prems(2)] m by simp
  next
    case True
    from as_name_prefix_length [OF True] c(3) have k: "k \<le> length nm" by simp
    define suffix where "suffix = drop k (cmd_name p)"
    define seg where "seg = takeWhile (\<lambda>c. c \<noteq> 0 \<and> c \<noteq> 95) suffix"
    from seg_facts [OF nm(2) k, of suffix q seg] obtain stop where
      sg: "buf_rd suffix (length seg) = Some stop" "set seg \<subseteq> set nm" by (auto simp: suffix_def seg_def nm(1))
    have sx: "\<exists>a q. suffix = a @ 0 # q \<and> 0 \<notin> set a"
      using nm k by (intro exI [of _ "drop k nm"] exI [of _ q]) (auto simp: suffix_def dest: in_set_dropD)
    show ?thesis
    proof (cases "seg = []")
      case True
      then show ?thesis using Cons.IH [OF ps Cons.prems(2)] m \<open>take (length t) nm = as_name t\<close>
        by (simp add: suffix_def [symmetric] seg_def [symmetric])
    next
      case False
      let ?dup = "case prev of Some q \<Rightarrow> if length seg = n then map_option (\<lambda>r. r = 0) (strncmp suffix q (length seg)) else Some False
        | None \<Rightarrow> Some False"
      have "\<exists>d. ?dup = Some d"
      proof (cases prev)
        case (Some s)
        then have "\<exists>a q. s = a @ 0 # q \<and> 0 \<notin> set a" using Cons.prems(2) by (simp add: prev_ok_def)
        from strncmp_ok [OF sx this, of "length seg"] show ?thesis using Some by auto
      qed auto
      then obtain d where d: "?dup = Some d" by blast
      show ?thesis
      proof (cases d)
        case True
        then show ?thesis using Cons.IH [OF ps Cons.prems(2)] m \<open>take (length t) nm = as_name t\<close> False d
          by (simp add: suffix_def [symmetric] seg_def [symmetric])
      next
        case nd: False
        have "prev_ok (Some suffix)" using sx by (simp add: prev_ok_def)
        from Cons.IH [OF ps this, of "length seg"] obtain out where
          out: "compl_list (t @ x) (length t) k ps (Some suffix, length seg) = Some out" "\<forall>c \<in> set out. c \<noteq> 27" by blast
        have seg27: "27 \<notin> set seg" using sg(2) nm(3) printable_not by blast
        have br: "27 \<notin> set (str_out b)" if "cmd_brief p = Some b" for b
          using c(1) Cons.prems(1) that by (auto simp: cmds_ok_def str_out_def dest: set_takeWhileD)
        have "compl_list (t @ x) (length t) k (p # ps) (prev, n) = Some ((case (if stop = 0 then cmd_brief p else None) of
                Some b \<Rightarrow> [32, 32] @ seg @ replicate (16 - length seg) 32 @ [32] @ str_out b @ [10]
              | None \<Rightarrow> [32, 32] @ seg @ [10]) @ out)"
          using m \<open>take (length t) nm = as_name t\<close> False d nd sg(1) out(1)
          by (simp add: suffix_def [symmetric] seg_def [symmetric])
        then show ?thesis using seg27 br out(2) by (auto split: option.splits if_splits)
      qed
    qed
  qed
qed simp

lemma compl_insert_ok:
  assumes "ed_holds ed (l, r)" "\<forall>c \<in> set (l @ r). printable c" "\<forall>c \<in> set cs. printable c"
  shows "\<exists>ed' l'. fold (\<lambda>c ed. do { ed \<leftarrow> ed; cli_ed_insert [if c = 95 then 32 else c] ed }) cs (Some ed) = Some ed' \<and>
    ed_holds ed' (l', r) \<and> (\<forall>c \<in> set (l' @ r). printable c)"
  using assms
proof (induction cs arbitrary: ed l)
  case (Cons c cs)
  let ?x = "if c = 95 then 32 else c"
  from cli_ed_insert_edits [OF Cons.prems(1), of "[?x]"] obtain ed1 where
    e: "cli_ed_insert [?x] ed = Some ed1" "ed_holds ed1 (l @ take (79 - (length l + length r)) [?x], r)" unfolding edits_def by blast
  have "\<forall>c \<in> set ((l @ take (79 - (length l + length r)) [?x]) @ r). printable c"
    using Cons.prems by (auto simp: take_Cons' printable_def split: if_splits)
  from Cons.IH [OF e(2) this] Cons.prems(3) e(1) show ?case by simp
qed auto

definition holds_text :: "cli_ed \<Rightarrow> bool" where
  "holds_text ed \<longleftrightarrow> (\<exists>l r. ed_holds ed (l, r) \<and> (\<forall>c \<in> set (l @ r). printable c))"

lemma do_completion_ok:
  assumes c: "cmds_ok cmds" and h: "ed_holds ed (l, r)" "\<forall>c \<in> set (l @ r). printable c"
  shows "\<exists>out ed'. do_completion cmds lo ed = Some (out, ed') \<and> holds_text ed' \<and> ground_out out"
proof -
  let ?t = "l @ r"
  have t0: "0 \<notin> set ?t" using printable_no_nul [OF h(2)] .
  from h obtain rest where b: "ed_buf ed = ?t @ 0 # rest" and n: "nat (ed_len ed) = length ?t" by (auto simp: ed_holds_iff nat_int_add)
  have same: "holds_text ed" using h by (auto simp: holds_text_def)
  have "scan_ok cmds ?t (None, 0, 0)" by (simp add: scan_ok_def)
  from compl_scan_ok [OF c t0 order.refl this, of "0 # rest"] obtain first nmatch common where
    s: "compl_scan (ed_buf ed) (length ?t) cmds (None, 0, 0) = Some (first, nmatch, common)" "scan_ok cmds ?t (first, nmatch, common)"
    by (auto simp: b)
  have "\<exists>bl. (if lo \<and> nmatch = 0 \<and> length ?t > 0 then map_option (\<lambda>c. c = 32) (buf_rd (ed_buf ed) (length ?t - 1)) else Some False) = Some bl"
  proof (cases "lo \<and> nmatch = 0 \<and> length ?t > 0")
    case True
    then have rd: "buf_rd (ed_buf ed) (length ?t - 1) = Some (ed_buf ed ! (length ?t - 1))" by (auto simp: buf_rd_def b)
    show ?thesis unfolding rd using True by simp
  next
    case False
    then show ?thesis unfolding if_not_P [OF False] by blast
  qed
  then obtain bl where bl: "(if lo \<and> nmatch = 0 \<and> length ?t > 0 then map_option (\<lambda>c. c = 32) (buf_rd (ed_buf ed) (length ?t - 1)) else Some False) = Some bl"
    by blast
  have "\<exists>ex. (if bl then compl_exact (ed_buf ed) (length ?t - 1) cmds else Some None) = Some ex \<and> (\<forall>p. ex = Some p \<longrightarrow> p \<in> set cmds)"
  proof (cases "bl \<and> ?t \<noteq> []")
    case True
    then obtain t' y where t': "?t = t' @ [y]" by (metis rev_exhaust)
    have "0 \<notin> set t'" using t0 t' by (metis Un_iff set_append)
    from compl_exact_ok [OF c this order.refl, of "y # 0 # rest"] show ?thesis using True t' by (simp add: b)
  next
    case False
    then show ?thesis using bl by (auto split: if_splits)
  qed
  then obtain ex where ex: "(if bl then compl_exact (ed_buf ed) (length ?t - 1) cmds else Some None) = Some ex" "\<forall>p. ex = Some p \<longrightarrow> p \<in> set cmds"
    by blast
  note unf = do_completion_def Let_def n s(1) bl ex(1) bind.bind_lunit prod.case
  show ?thesis
  proof (cases ex)
    case (Some p)
    then show ?thesis unfolding unf using same ex(2) ground_append [OF ground_plain [of "[10]"] ground_help [OF c]] by simp
  next
    case ex0: None
    show ?thesis
    proof (cases first)
      case None
      then show ?thesis unfolding unf using same ex0 ground_plain [of "[]"] by simp
    next
      case (Some f)
      then have f: "f \<in> set cmds" "take (length ?t) (str_out (cmd_name f)) = as_name ?t" "length ?t \<le> common" "common \<le> length (str_out (cmd_name f))"
        using s(2) by (auto simp: scan_ok_def)
      from cmds_ok_name [OF c f(1)] obtain nm q where nm: "cmd_name f = nm @ 0 # q" "0 \<notin> set nm" "\<forall>c \<in> set nm. printable c" "str_out (cmd_name f) = nm" .
      show ?thesis
      proof (cases "\<not> lo \<and> common > length ?t")
        case True
        have pr: "\<forall>c \<in> set (take (common - length ?t) (drop (length ?t) (cmd_name f))). printable c"
          using nm f(3,4) by (auto dest!: in_set_takeD in_set_dropD simp: nm(4))
        from compl_insert_ok [OF h pr] obtain ed1 l1 where
          i: "compl_insert (cmd_name f) (length ?t) common ed = Some ed1" "ed_holds ed1 (l1, r)" "\<forall>c \<in> set (l1 @ r). printable c"
          unfolding compl_insert_def by blast
        obtain x where x: "buf_rd (cmd_name f) common = Some x" using f(4) nm by (auto simp: buf_rd_def)
        have "\<forall>c \<in> set [32]. printable c" by (simp add: printable_def)
        from compl_insert_ok [OF i(2,3) this] obtain ed2 l2 where
          j: "cli_ed_insert [32] ed1 = Some ed2" "ed_holds ed2 (l2, r)" "\<forall>c \<in> set (l2 @ r). printable c"
          by (auto simp del: cli_ed_insert.simps)
        have "holds_text ed1" "holds_text ed2" using i j unfolding holds_text_def by blast+
        then show ?thesis unfolding unf using ex0 Some True i(1) j(1) x ground_plain [of "[]"] by simp
      next
        case False
        from compl_word_start_ok [of "length ?t" ?t "0 # rest"] obtain k where k: "compl_word_start (ed_buf ed) (length ?t) = Some k" "k \<le> length ?t"
          by (auto simp: b)
        from compl_list_ok [OF c t0 k(2) order.refl, of None "0 # rest" 0] obtain out where
          o: "compl_list (ed_buf ed) (length ?t) k cmds (None, 0) = Some out" "\<forall>c \<in> set out. c \<noteq> 27" by (auto simp: b prev_ok_def)
        have g: "ground_out ([10] @ out)" "ground_out ([10] @ cmd_help_line f)"
          using ground_append [OF ground_plain [of "[10]"] ground_plain [OF o(2)]] ground_append [OF ground_plain [of "[10]"] ground_help [OF c f(1)]] by simp_all
        show ?thesis unfolding unf using ex0 Some False strlen_cstr [OF nm(2), of q] nm(1) k(1) o(1) g same by auto
      qed
    qed
  qed
qed

section \<open>The loop\<close>

lemma strtbl_ok:
  "(\<forall>s \<in> set ss. 0 \<notin> set s) \<Longrightarrow> \<exists>e. strtbl (concat (map (\<lambda>s. s @ [0]) ss) @ [0, 0]) n = Some e \<and>
     set e \<subseteq> set (concat (map (\<lambda>s. s @ [0]) ss) @ [0, 0, 63])"
proof (induction ss arbitrary: n)
  case Nil
  then show ?case by (cases n) auto
next
  case (Cons s ss)
  show ?case
  proof (cases n)
    case 0
    then show ?thesis by auto
  next
    case (Suc m)
    let ?r = "concat (map (\<lambda>s. s @ [0]) ss) @ [0, 0]"
    have "strlen (s @ 0 # ?r) = Some (length s)" using Cons.prems by (intro strlen_cstr) simp
    moreover have "\<exists>e. strtbl ?r m = Some e \<and> set e \<subseteq> set (concat (map (\<lambda>s. s @ [0]) ss) @ [0, 0, 63])" using Cons by simp
    ultimately show ?thesis using Suc by auto
  qed
qed

lemma errmsg_names_plain: "\<forall>s \<in> set (map chars errmsg_names). \<forall>c \<in> set s. c \<noteq> 0 \<and> c \<noteq> 27"
  by code_simp

lemma error_to_string_ok: "\<exists>e. error_to_string err = Some e \<and> 27 \<notin> set e"
proof -
  let ?ss = "map chars errmsg_names"
  have e: "errmsg = concat (map (\<lambda>s. s @ [0]) ?ss) @ [0, 0]" by (simp add: errmsg_def cstr_def [abs_def] chars_def comp_def)
  have "\<forall>s \<in> set ?ss. 0 \<notin> set s" using errmsg_names_plain by blast
  from strtbl_ok [OF this, of "unat (of_int (- err) :: u32)"] obtain t where
    t: "strtbl errmsg (unat (of_int (- err) :: u32)) = Some t" "set t \<subseteq> set (concat (map (\<lambda>s. s @ [0]) ?ss) @ [0, 0, 63])"
    unfolding e by blast
  have "27 \<notin> set (concat (map (\<lambda>s. s @ [0]) ?ss) @ [0, 0, 63])" using errmsg_names_plain by auto
  then show ?thesis using t unfolding error_to_string_def by blast
qed

lemma dispatch_command_ok:
  assumes c: "cmds_ok cmds" and s: "0 \<notin> set s"
  shows "\<exists>out b w'. dispatch_command cmds (s @ 0 # r) w = Some (out, b, w') \<and> ground_out out \<and> length b = length s + 1 + length r"
proof -
  from tokenize_words [OF s, of r 10] obtain argv b where
    t: "tokenize (s @ 0 # r) CLI_MAX_ARGC = Some (argv, b)" "\<forall>a \<in> set argv. 0 \<in> set a" "length b = length s + 1 + length r"
    by (auto simp: CLI_MAX_ARGC_def)
  show ?thesis
  proof (cases "argv = []")
    case True
    then show ?thesis using t ground_plain [of "[]"] by (simp add: dispatch_command_def)
  next
    case ne: False
    have ns: "\<forall>n \<in> set [1..<length argv + 1]. n \<le> length argv" by auto
    have "\<exists>f. find_cmd cmds argv [1..<length argv + 1] = Some f \<and> (\<forall>p args. f = Some (p, args) \<longrightarrow> p \<in> set cmds)"
    proof (cases "candidates cmds (map str_out argv) [1..<length argv + 1]")
      case Nil
      then show ?thesis using find_cmd_resolves [OF t(2) cmds_ok_names [OF c] ns] by (simp del: upt_Suc)
    next
      case (Cons x xs)
      then have "x \<in> set (candidates cmds (map str_out argv) [1..<length argv + 1])" by (simp del: upt_Suc)
      then have "fst x \<in> set cmds" unfolding candidates_def by (auto simp del: upt_Suc)
      then show ?thesis using find_cmd_resolves [OF t(2) cmds_ok_names [OF c] ns] Cons by (cases x) (simp del: upt_Suc)
    qed
    then obtain f where f: "find_cmd cmds argv [1..<length argv + 1] = Some f" "\<And>p args. f = Some (p, args) \<Longrightarrow> p \<in> set cmds" by blast
    show ?thesis
    proof (cases f)
      case None
      have "\<exists>g. first_match 95 argv (length argv) cmds = Some g" using first_match_named(2) [OF t(2) cmds_ok_names [OF c] order.refl] by blast
      then obtain g where g: "first_match 95 argv (length argv) cmds = Some g" by blast
      have "ground_out (chars ''Incomplete command. Press ? for options.'' @ [10])" "ground_out (chars ''Unknown command'' @ [10])"
        by (rule ground_plain, simp add: chars_def)+
      then show ?thesis using t ne f(1) None g by (cases g) (simp_all add: dispatch_command_def del: upt_Suc)
    next
      case (Some pa)
      then obtain p args where pa: "f = Some (p, args)" by (cases pa) auto
      obtain err out w' where d: "cmd_dispatch p args w = (err, out, w')" by (metis surj_pair)
      have go: "ground_out out" using c f(2) [OF pa] d unfolding cmds_ok_def by (metis fst_conv snd_conv)
      have "\<exists>e. error_to_string err = Some e \<and> 27 \<notin> set e" using error_to_string_ok .
      then obtain e where e: "error_to_string err = Some e" "27 \<notin> set e" by blast
      from cmds_ok_name [OF c f(2) [OF pa]] obtain nm where nm: "str_out (cmd_name p) = nm" "\<forall>c \<in> set nm. printable c" by metis
      have u: "ground_out (chars ''Usage: '' @ print_cmd_name (cmd_name p) @ [32] @ str_out syn @ [10])" if "cmd_synopsis p = Some syn" for syn
      proof (rule ground_plain)
        have "27 \<notin> set (print_cmd_name (cmd_name p))" using nm printable_not by (fastforce simp: print_cmd_name_def)
        moreover have "27 \<notin> set (str_out syn)" using c f(2) [OF pa] that by (auto simp: cmds_ok_def str_out_def dest: set_takeWhileD)
        ultimately show "\<forall>c \<in> set (chars ''Usage: '' @ print_cmd_name (cmd_name p) @ [32] @ str_out syn @ [10]). c \<noteq> 27"
          by (auto simp: chars_def)
      qed
      have v: "ground_out (chars ''! Error: '' @ str_out e @ [10])"
        by (rule ground_plain) (use e(2) in \<open>auto simp: chars_def str_out_def dest: set_takeWhileD\<close>)
      show ?thesis using t ne f(1) pa d e(1) ground_append [OF go v] ground_append [OF go u] go
        by (cases "err = 0"; cases "err = ERR_INVALID_ARGS"; cases "cmd_synopsis p") (simp_all add: dispatch_command_def del: upt_Suc)
    qed
  qed
qed

section \<open>The shell shows the line\<close>

definition printable_text :: "bytes \<Rightarrow> bool" where
  "printable_text s \<longleftrightarrow> (\<forall>c \<in> set s. printable c)"

definition shell_ok :: "'w shell \<Rightarrow> bool" where
  "shell_ok st \<longleftrightarrow> holds_text (sh_ed st) \<and>
     (\<exists>xs. hist_is (sh_history st) xs \<and> (\<forall>x \<in> set xs. printable_text x) \<and> -1 \<le> sh_hist_offset st \<and> sh_hist_offset st < int (length xs)) \<and>
     (sh_hist_offset st \<ge> 0 \<longrightarrow> (\<exists>s. sh_saved_line st = Some (s @ [0]) \<and> printable_text s))"

definition screen_ok :: "bytes \<Rightarrow> u8 \<Rightarrow> terminal \<Rightarrow> 'w shell \<Rightarrow> bool" where
  "screen_ok hostname promptchar t st \<longleftrightarrow> (\<exists>l r. ed_holds (sh_ed st) (l, r) \<and> printable_text (l @ r) \<and>
     shows_text (prompt_text hostname promptchar @ l @ r) (length (prompt_text hostname promptchar) + length l) (term_run (sh_out st) t))"

text \<open>A step that only writes what leaves the terminal ready, before the line is drawn again.\<close>

definition writes :: "'w shell \<Rightarrow> 'w shell \<Rightarrow> bool" where
  "writes st st' \<longleftrightarrow> shell_ok st' \<and> (\<exists>out. sh_out st' = sh_out st @ out \<and> ground_out out)"

lemma printable_text_simps: "printable_text (a @ b) \<longleftrightarrow> printable_text a \<and> printable_text b" "printable_text s \<Longrightarrow> 0 \<notin> set s"
  "printable_text s \<Longrightarrow> printable_text (take n s)" "printable_text []"
  using printable_no_nul by (auto simp: printable_text_def dest: in_set_takeD)

lemma holds_textE:
  assumes "holds_text ed"
  obtains l r where "ed_holds ed (l, r)" "printable_text (l @ r)"
  using assms by (auto simp: holds_text_def printable_text_def)

lemma holds_textI: "ed_holds ed (l, r) \<Longrightarrow> printable_text (l @ r) \<Longrightarrow> holds_text ed"
  unfolding holds_text_def printable_text_def by blast

lemma redraw_screen:
  assumes p: "printable_text (hostname @ [promptchar])" and t: "t_state (term_run (sh_out st) t) = Ground" and w: "writes st st'"
  shows "shell_ok (sh_redraw hostname promptchar st') \<and> screen_ok hostname promptchar t (sh_redraw hostname promptchar st')"
proof
  from w obtain out where o: "shell_ok st'" "sh_out st' = sh_out st @ out" "ground_out out" by (auto simp: writes_def)
  then have "holds_text (sh_ed st')" by (simp add: shell_ok_def)
  then obtain l r where h: "ed_holds (sh_ed st') (l, r)" "printable_text (l @ r)" by (rule holds_textE)
  have g: "t_state (term_run (sh_out st') t) = Ground" using o t by (simp add: ground_out_def)
  show "shell_ok (sh_redraw hostname promptchar st')" using o(1) by (simp add: shell_ok_def sh_redraw_def sh_print_def)
  show "screen_ok hostname promptchar t (sh_redraw hostname promptchar st')"
    using redraw_shows [OF g _ h(1)] p h unfolding screen_ok_def printable_text_def
    by (intro exI [of _ l] exI [of _ r]) (simp add: sh_redraw_def sh_print_def)
qed

lemma hist_nth: "\<forall>x \<in> set xs. printable_text x \<Longrightarrow> i < length xs \<Longrightarrow> printable_text (xs ! i)"
  by simp

lemma ed_set_text:
  assumes "holds_text ed" "printable_text s"
  shows "\<exists>ed'. cli_ed_set (Some (s @ [0])) ed = Some ed' \<and> holds_text ed'"
proof -
  from assms(1) obtain l r where "ed_holds ed (l, r)" by (rule holds_textE)
  from ed_set_edits [OF this refl printable_text_simps(2) [OF assms(2)], of "[]"] show ?thesis
    using holds_textI printable_text_simps(3) [OF assms(2)] unfolding edits_def by fastforce
qed

lemma ed_clear_text: "length (ed_buf ed) = 80 \<Longrightarrow> \<exists>ed'. cli_ed_clear ed = Some ed' \<and> holds_text ed'"
proof -
  assume "length (ed_buf ed) = 80"
  then obtain x b where "ed_buf ed = [] @ x # b" "length b = 79" by (cases "ed_buf ed") auto
  then have "\<exists>ed'. cli_ed_clear ed = Some ed' \<and> ed_holds ed' ([], [])"
    by (auto simp: cli_ed_clear_def ed_holds_iff ed_put_at [of ed "[]" x b])
  then show ?thesis using holds_textI printable_text_simps(4) by fastforce
qed

lemma hist_up_ok:
  assumes s: "shell_ok st"
  shows "\<exists>st'. cli_hist_up st = Some st' \<and> writes st st'"
proof -
  from s obtain xs where x: "hist_is (sh_history st) xs" "\<forall>x \<in> set xs. printable_text x" "-1 \<le> sh_hist_offset st" "sh_hist_offset st < int (length xs)"
    and e: "holds_text (sh_ed st)" by (auto simp: shell_ok_def)
  let ?i = "nat (sh_hist_offset st + 1)"
  note get = history_get_list [OF x(1), of "sh_hist_offset st + 1"]
  show ?thesis
  proof (cases "?i < length xs")
    case False
    then show ?thesis using get s ground_plain [of "[]"] x(3) by (simp add: cli_hist_up_def writes_def)
  next
    case True
    from ed_set_text [OF e hist_nth [OF x(2) True]] obtain ed' where ed': "cli_ed_set (Some (xs ! ?i @ [0])) (sh_ed st) = Some ed'" "holds_text ed'" by blast
    from e obtain l r where h: "ed_holds (sh_ed st) (l, r)" "printable_text (l @ r)" by (rule holds_textE)
    have c: "str_copy (ed_buf (sh_ed st)) = Some ((l @ r) @ [0])"
      using h str_copy_cstr [OF printable_text_simps(2) [OF h(2)]] by (auto simp: ed_holds_iff)
    show ?thesis
    proof (cases "sh_hist_offset st = -1")
      case m: True
      then show ?thesis using get True c ed' x h(2) ground_plain [of "[]"] by (auto simp: cli_hist_up_def writes_def shell_ok_def)
    next
      case False
      then have "\<exists>s. sh_saved_line st = Some (s @ [0]) \<and> printable_text s" using s x(3) by (auto simp: shell_ok_def)
      then show ?thesis using get True False ed' x ground_plain [of "[]"] by (auto simp: cli_hist_up_def writes_def shell_ok_def)
    qed
  qed
qed

lemma hist_down_ok:
  assumes s: "shell_ok st"
  shows "\<exists>st'. cli_hist_down st = Some st' \<and> writes st st'"
proof -
  from s obtain xs where x: "hist_is (sh_history st) xs" "\<forall>x \<in> set xs. printable_text x" "-1 \<le> sh_hist_offset st" "sh_hist_offset st < int (length xs)"
    and e: "holds_text (sh_ed st)" by (auto simp: shell_ok_def)
  consider "sh_hist_offset st > 0" | "sh_hist_offset st = 0" | "sh_hist_offset st = -1" using x(3) by linarith
  then show ?thesis
  proof cases
    case 1
    then have i: "nat (sh_hist_offset st - 1) < length xs" using x(4) by simp
    from ed_set_text [OF e hist_nth [OF x(2) i]] obtain ed' where
      "cli_ed_set (Some (xs ! nat (sh_hist_offset st - 1) @ [0])) (sh_ed st) = Some ed'" "holds_text ed'" by blast
    then show ?thesis using history_get_list [OF x(1), of "sh_hist_offset st - 1"] i s 1 x ground_plain [of "[]"]
      by (auto simp: cli_hist_down_def writes_def shell_ok_def)
  next
    case 2
    then obtain t where t: "sh_saved_line st = Some (t @ [0])" "printable_text t" using s by (auto simp: shell_ok_def)
    from ed_set_text [OF e t(2)] obtain ed' where "cli_ed_set (Some (t @ [0])) (sh_ed st) = Some ed'" "holds_text ed'" by blast
    then show ?thesis using 2 t x ground_plain [of "[]"] by (auto simp: cli_hist_down_def writes_def shell_ok_def)
  next
    case 3
    then show ?thesis using s ground_plain [of "[]"] by (simp add: cli_hist_down_def writes_def)
  qed
qed

lemma enter_ok:
  assumes c: "cmds_ok cmds" and s: "shell_ok st"
  shows "\<exists>st'. cli_enter cmds st = Some st' \<and> writes st st'"
proof -
  from s obtain xs where x: "hist_is (sh_history st) xs" "\<forall>x \<in> set xs. printable_text x"
    and e: "holds_text (sh_ed st)" by (auto simp: shell_ok_def)
  from e obtain l r where h: "ed_holds (sh_ed st) (l, r)" "printable_text (l @ r)" by (rule holds_textE)
  then obtain rest where b: "ed_buf (sh_ed st) = (l @ r) @ 0 # rest" "length (l @ r) + 1 + length rest = 80" by (auto simp: ed_holds_iff)
  note t0 = printable_text_simps(2) [OF h(2)]
  have g: "ground_out [13, 10]" by (rule ground_plain) simp
  show ?thesis
  proof (cases "l @ r = []")
    case True
    then have "buf_rd (ed_buf (sh_ed st)) 0 = Some 0" using b by (simp add: buf_rd_def)
    moreover obtain ed' where "cli_ed_clear (sh_ed st) = Some ed'" "holds_text ed'" using ed_clear_text [of "sh_ed st"] b by auto
    ultimately show ?thesis using x g by (auto simp: cli_enter_def sh_print_def writes_def shell_ok_def)
  next
    case False
    then obtain y t' where y: "l @ r = y # t'" by (cases "l @ r") auto
    then have rd: "buf_rd (ed_buf (sh_ed st)) 0 = Some y" "y \<noteq> 0" using b(1) t0 by (simp_all add: buf_rd_def)
    from history_add_list [OF x(1) t0, of rest] obtain h' ys where
      h': "history_add (ed_buf (sh_ed st)) (sh_history st) = Some h'" "hist_is h' ys" "ys = (if xs \<noteq> [] \<and> hd xs = l @ r then xs else take 8 ((l @ r) # xs))"
      unfolding b(1) by blast
    have ys: "\<forall>x \<in> set ys. printable_text x" using x(2) h(2) h'(3) by (auto split: if_splits dest: in_set_takeD)
    from dispatch_command_ok [OF c t0, of rest "sh_world st"] obtain out b' w' where
      d: "dispatch_command cmds (ed_buf (sh_ed st)) (sh_world st) = Some (out, b', w')" "ground_out out" "length b' = 80"
      unfolding b(1) using b(2) by auto
    obtain ed' where ed': "cli_ed_clear ((sh_ed st)\<lparr>ed_buf := b'\<rparr>) = Some ed'" "holds_text ed'"
      using ed_clear_text [of "(sh_ed st)\<lparr>ed_buf := b'\<rparr>"] d(3) by auto
    show ?thesis using rd h'(1,2) d(1) ed' ys ground_append [OF g d(2)] by (auto simp: cli_enter_def sh_print_def writes_def shell_ok_def)
  qed
qed

lemma set_line_edit: "line_edit k (l, r) = (l', r') \<Longrightarrow> c \<in> set (l' @ r') \<Longrightarrow> c \<in> set (l @ r) \<or> k = Insert c"
proof (cases "k = WordRight")
  case True
  assume "line_edit k (l, r) = (l', r')" "c \<in> set (l' @ r')"
  then show ?thesis using word_right_text [of l r l' r'] True by metis
next
  case False
  assume "line_edit k (l, r) = (l', r')" "c \<in> set (l' @ r')"
  then show ?thesis using False
    by (cases k) (auto simp: Let_def split: if_splits dest: in_set_takeD in_set_dropD in_set_butlastD last_in_set)
qed

lemma term_back: "t_state t = Ground \<Longrightarrow> term_byte 8 t = t\<lparr>t_col := t_col t - 1\<rparr>"
  and term_blank: "t_state t = Ground \<Longrightarrow> term_byte 32 t = t\<lparr>t_cell := (t_cell t)(t_col t := 32), t_col := t_col t + 1\<rparr>"
  by (simp_all add: term_byte_def printable_def)

text \<open>What the shell writes without drawing the line again is what the edit did.\<close>

lemma echo_ok:
  assumes p: "printable_text (hostname @ [promptchar])" and s: "shell_ok st"
    and h: "ed_holds ed (l, r)"
    and v: "shows_text (prompt_text hostname promptchar @ l @ r) (length (prompt_text hostname promptchar) + length l) (term_run (sh_out st) t)"
    and h': "ed_holds (sh_ed st) (l', r')" "printable_text (l' @ r')" and e: "line_edit k (l, r) = (l', r') \<or> (l', r') = (l, r)"
  shows "\<exists>st'. cli_echo hostname promptchar (ed_pos ed) (ed_len ed) st = Some st' \<and> shell_ok st' \<and> screen_ok hostname promptchar t st'"
proof -
  let ?P = "prompt_text hostname promptchar"
  have pos: "ed_pos ed = int (length l)" "ed_len ed = int (length l + length r)" "ed_pos (sh_ed st) = int (length l')"
    "ed_len (sh_ed st) = int (length l' + length r')" using h h'(1) by (simp_all add: ed_holds_iff)
  have print: "shell_ok (sh_print x st)" for x using s by (simp add: shell_ok_def sh_print_def)
  consider (same) "length l' = length l" "length r' = length r" | (app) "r' = []" "r = []" "length l' = length l + 1"
    | (rub) "r' = []" "r = []" "length l = length l' + 1"
    | (other) "\<not> (length l' = length l \<and> length r' = length r)" "\<not> (r' = [] \<and> r = [] \<and> length l' = length l + 1)" "\<not> (r' = [] \<and> r = [] \<and> length l = length l' + 1)"
    by blast
  then show ?thesis
  proof cases
    case same
    then have "l' @ r' = l @ r" using e edit_same_size [of k l r l' r'] by auto
    then have "screen_ok hostname promptchar t st" unfolding screen_ok_def using v h' same(1) by (intro exI [of _ l'] exI [of _ r']) simp
    then show ?thesis using same pos s by (simp add: cli_echo_def)
  next
    case app
    then obtain b where b: "l' = l @ [b]" using e edit_grows [of k l r l' r'] by auto
    have "ed_get (ed_pos (sh_ed st) - 1) (sh_ed st) = Some b"
      using h'(1) b app ed_get_at [of "sh_ed st" l b] by (auto simp: ed_holds_iff)
    moreover from v app h'(2) b have "shows_text ((?P @ l) @ [b]) (length ((?P @ l) @ [b])) (term_run [b] (term_run (sh_out st) t))"
      by (intro term_print) (simp_all add: printable_text_def)
    then have "screen_ok hostname promptchar t (sh_print [b] st)" unfolding screen_ok_def
      using h' app b by (intro exI [of _ l'] exI [of _ "[]"]) (simp add: sh_print_def)
    ultimately show ?thesis using pos app b print [of "[b]"] by (simp add: cli_echo_def)
  next
    case rub
    then have "l' = butlast l" using e edit_rubs [of k l l'] by auto
    moreover have "l \<noteq> []" using rub by auto
    ultimately obtain b where b: "l = l' @ [b]" by (metis append_butlast_last_id)
    have "shows_text (?P @ l') (length (?P @ l')) (term_run [8, 32, 8] (term_run (sh_out st) t))"
    proof -
      let ?t = "term_run (sh_out st) t"
      have "t_state ?t = Ground" "t_cell ?t = row_of ((?P @ l') @ [b])" "t_col ?t = length (?P @ l') + 1" using v rub b by (auto simp: shows_text_def)
      moreover have "(row_of ((?P @ l') @ [b]))(length (?P @ l') := 32) = row_of (?P @ l')"
        by (auto simp: row_of_def fun_eq_iff nth_append)
      ultimately show ?thesis by (simp add: shows_text_def term_back term_blank)
    qed
    then have "screen_ok hostname promptchar t (sh_print [8, 32, 8] st)" unfolding screen_ok_def
      using h' rub by (intro exI [of _ l'] exI [of _ "[]"]) (simp add: sh_print_def)
    then show ?thesis using pos rub b print [of "[8, 32, 8]"] by (simp add: cli_echo_def)
  next
    case other
    have "t_state (term_run (sh_out st) t) = Ground" using v by (simp add: shows_text_def)
    moreover have "writes st st" using s ground_plain [of "[]"] by (simp add: writes_def)
    ultimately have "shell_ok (sh_redraw hostname promptchar st) \<and> screen_ok hostname promptchar t (sh_redraw hostname promptchar st)"
      by (rule redraw_screen [OF p])
    moreover have "cli_echo hostname promptchar (ed_pos ed) (ed_len ed) st = Some (sh_redraw hostname promptchar st)"
    proof -
      have "\<not> (int (length l' + length r') = int (length l + length r) \<and> int (length l') = int (length l))" using other(1) by linarith
      moreover have "\<not> (int (length l') = int (length l' + length r') \<and> int (length l' + length r') = int (length l + length r) + 1 \<and> int (length l') = int (length l) + 1)"
        using other(2) by (cases r; cases r') auto
      moreover have "\<not> (int (length l') = int (length l' + length r') \<and> int (length l' + length r') = int (length l + length r) - 1 \<and> int (length l') = int (length l) - 1)"
        using other(3) by (cases r; cases r') auto
      ultimately show ?thesis unfolding cli_echo_def Let_def pos by (simp only: if_not_P if_False)
    qed
    ultimately show ?thesis by blast
  qed
qed

lemma input_text:
  assumes h: "ed_holds ed (l, r)" "printable_text (l @ r)"
  shows "\<exists>ev ed' l' r' k. cli_ed_input ed c = Some (ev, ed') \<and> ed_holds ed' (l', r') \<and> printable_text (l' @ r') \<and>
    (line_edit k (l, r) = (l', r') \<or> (l', r') = (l, r))"
proof -
  from input_line [OF h(1), of c] obtain ev ed' where i: "cli_ed_input ed c = Some (ev, ed')"
    "same_line ed ed' \<or> (\<exists>k. (\<forall>b. k = Insert b \<longrightarrow> printable b) \<and> ed_holds ed' (line_edit k (l, r)))" by blast
  from i(2) show ?thesis
  proof
    assume "same_line ed ed'"
    then show ?thesis using i(1) h same_line_holds by blast
  next
    assume "\<exists>k. (\<forall>b. k = Insert b \<longrightarrow> printable b) \<and> ed_holds ed' (line_edit k (l, r))"
    then obtain k where k: "\<And>b. k = Insert b \<Longrightarrow> printable b" "ed_holds ed' (line_edit k (l, r))" by blast
    obtain l' r' where e: "line_edit k (l, r) = (l', r')" by fastforce
    have "printable_text (l' @ r')" using set_line_edit [OF e] k(1) h(2) unfolding printable_text_def by blast
    then show ?thesis using i(1) k(2) e by (metis (no_types))
  qed
qed

lemma cli_loop_step_ok:
  assumes c: "cmds_ok cmds" and p: "printable_text (hostname @ [promptchar])" and s: "shell_ok st" and v: "screen_ok hostname promptchar t st"
  shows "\<exists>go st'. cli_loop_step cmds hostname promptchar ch st = Some (go, st') \<and> (go \<longrightarrow> shell_ok st' \<and> screen_ok hostname promptchar t st')"
proof (cases "ch < 0")
  case True
  then show ?thesis by (auto simp: cli_loop_step_def)
next
  case False
  from v obtain l r where h: "ed_holds (sh_ed st) (l, r)" "printable_text (l @ r)" and
    sh: "shows_text (prompt_text hostname promptchar @ l @ r) (length (prompt_text hostname promptchar) + length l) (term_run (sh_out st) t)"
    by (auto simp: screen_ok_def)
  from input_text [OF h, of ch] obtain ev ed' l' r' k where
    i: "cli_ed_input (sh_ed st) ch = Some (ev, ed')" "ed_holds ed' (l', r')" "printable_text (l' @ r')" "line_edit k (l, r) = (l', r') \<or> (l', r') = (l, r)"
    by blast
  let ?st = "st\<lparr>sh_ed := ed'\<rparr>"
  have s': "shell_ok ?st" using s holds_textI [OF i(2,3)] by (simp add: shell_ok_def)
  have g: "t_state (term_run (sh_out ?st) t) = Ground" using sh by (simp add: shows_text_def)
  have redraw: ?thesis if "cli_loop_step cmds hostname promptchar ch st = Some (True, sh_redraw hostname promptchar st')" "writes ?st st'" for st'
    using redraw_screen [OF p g that(2)] that(1) by auto
  have plain: "writes ?st (sh_print out (?st\<lparr>sh_ed := e\<rparr>))" if "ground_out out" "holds_text e" for out e
    using s' that by (auto simp: writes_def shell_ok_def sh_print_def)
  have compl: "\<exists>out e. do_completion cmds lo ed' = Some (out, e) \<and> writes ?st (sh_print out (?st\<lparr>sh_ed := e\<rparr>))" for lo
    using do_completion_ok [OF c i(2), of lo] i(3) plain unfolding printable_text_def by blast
  note unf = cli_loop_step_def Let_def i(1) bind.bind_lunit prod.case
  show ?thesis
  proof (cases ev)
    case CLI_ED_NONE
    from echo_ok [OF p s' h(1), of t l' r' k] i sh CLI_ED_NONE False show ?thesis unfolding unf by auto
  next
    case CLI_ED_ENTER
    from enter_ok [OF c s'] obtain st' where "cli_enter cmds ?st = Some st'" "writes ?st st'" by blast
    with CLI_ED_ENTER False show ?thesis by (intro redraw) (simp_all add: unf)
  next
    case CLI_ED_TAB
    from compl [of False] obtain out e where "do_completion cmds False ed' = Some (out, e)" "writes ?st (sh_print out (?st\<lparr>sh_ed := e\<rparr>))" by blast
    with CLI_ED_TAB False show ?thesis by (intro redraw) (simp_all add: unf)
  next
    case CLI_ED_HELP
    from compl [of True] obtain out e where "do_completion cmds True ed' = Some (out, e)" "writes ?st (sh_print out (?st\<lparr>sh_ed := e\<rparr>))" by blast
    with CLI_ED_HELP False show ?thesis by (intro redraw) (simp_all add: unf)
  next
    case CLI_ED_HIST_UP
    from hist_up_ok [OF s'] obtain st' where "cli_hist_up ?st = Some st'" "writes ?st st'" by blast
    with CLI_ED_HIST_UP False show ?thesis by (intro redraw) (simp_all add: unf)
  next
    case CLI_ED_HIST_DOWN
    from hist_down_ok [OF s'] obtain st' where "cli_hist_down ?st = Some st'" "writes ?st st'" by blast
    with CLI_ED_HIST_DOWN False show ?thesis by (intro redraw) (simp_all add: unf)
  next
    case CLI_ED_CLEAR
    have "ground_out [27, 91, 50, 74, 27, 91, 72]" by (simp add: ground_out_def term_byte_def is_digit_def)
    from plain [OF this holds_textI [OF i(2,3)]] have "writes ?st (sh_print [27, 91, 50, 74, 27, 91, 72] ?st)" by simp
    with CLI_ED_CLEAR False show ?thesis by (intro redraw) (simp_all add: unf)
  next
    case CLI_ED_CANCEL
    have "length (ed_buf ed') = 80" using i(2) by (auto simp: ed_holds_iff)
    from ed_clear_text [OF this] obtain e where e: "cli_ed_clear ed' = Some e" "holds_text e" by blast
    have "writes ?st (sh_print [13, 10] (?st\<lparr>sh_ed := e, sh_hist_offset := -1, sh_saved_line := None\<rparr>))"
      using s' e(2) ground_plain [of "[13, 10]"] by (auto simp: writes_def shell_ok_def sh_print_def)
    with CLI_ED_CANCEL False e(1) show ?thesis by (intro redraw) (simp_all add: unf)
  next
    case CLI_ED_EOF
    then show ?thesis using False unfolding unf by auto
  qed
qed

lemma cli_start_ok:
  assumes "printable_text (hostname @ [promptchar])" "t_state t = Ground" "hist_is h xs" "\<forall>x \<in> set xs. printable_text x"
  shows "shell_ok (cli_start hostname promptchar h w) \<and> screen_ok hostname promptchar t (cli_start hostname promptchar h w)"
proof -
  let ?st = "\<lparr>sh_ed = cli_ed_init, sh_hist_offset = -1, sh_saved_line = None, sh_history = h, sh_out = [], sh_world = w\<rparr>"
  have "ed_holds cli_ed_init ([], [])" by (simp add: ed_holds_def cli_ed_init_def)
  then have "holds_text cli_ed_init" by (rule holds_textI) (simp add: printable_text_def)
  then have "writes ?st ?st" using assms(3,4) ground_plain [of "[]"] by (auto simp: writes_def shell_ok_def)
  from redraw_screen [OF assms(1) _ this, of t] assms(2) show ?thesis by (simp add: cli_start_def)
qed

lemma cli_loop_ok:
  assumes "cmds_ok cmds" "printable_text (hostname @ [promptchar])" "shell_ok st" "screen_ok hostname promptchar t st"
  shows "\<exists>go st'. cli_loop cmds hostname promptchar chs st = Some (go, st') \<and> (go \<longrightarrow> shell_ok st' \<and> screen_ok hostname promptchar t st')"
  using assms(3,4)
proof (induction chs arbitrary: st)
  case (Cons ch chs)
  from cli_loop_step_ok [OF assms(1,2) Cons.prems, of ch] obtain go st' where
    "cli_loop_step cmds hostname promptchar ch st = Some (go, st')" "go \<Longrightarrow> shell_ok st' \<and> screen_ok hostname promptchar t st'" by blast
  then show ?case using Cons.IH [of st'] by (cases go) auto
qed auto

text \<open>
  C7. The screen never lies. From the start of the shell, whatever characters arrive - text, control
  characters, escape sequences whole or broken, Enter with commands that run and print, TAB and ?,
  the arrows through the history - the loop takes no access outside its buffers and, as long as it
  goes on, a terminal that obeyed everything the shell wrote shows in its row the prompt and
  the text the editor holds, nothing else, with the cursor where the editor has it.
\<close>

theorem cli_shows_line:
  assumes "cmds_ok cmds" "printable_text (hostname @ [promptchar])" "hist_is h xs" "\<forall>x \<in> set xs. printable_text x" "t_state t = Ground"
  shows "\<exists>go st. cli_loop cmds hostname promptchar chs (cli_start hostname promptchar h w) = Some (go, st) \<and>
    (go \<longrightarrow> (\<exists>l r. ed_holds (sh_ed st) (l, r) \<and>
       shows_text (prompt_text hostname promptchar @ l @ r) (length (prompt_text hostname promptchar) + length l) (term_run (sh_out st) t)))"
proof -
  note start = cli_start_ok [OF assms(2,5,3,4), of w]
  from cli_loop_ok [OF assms(1,2) conjunct1 [OF start] conjunct2 [OF start], of chs] obtain go st where
    "cli_loop cmds hostname promptchar chs (cli_start hostname promptchar h w) = Some (go, st)" "go \<longrightarrow> screen_ok hostname promptchar t st" by blast
  then show ?thesis by (intro exI [of _ go] exI [of _ st]) (auto simp: screen_ok_def)
qed

theorem cli_shows_line_witness:
  "\<exists>st l r. cli_loop [\<lparr>cmd_name = [108, 115, 0], cmd_dispatch = \<lambda>args w. (0, [104, 105, 10], w), cmd_synopsis = None, cmd_brief = None\<rparr>]
       [109] 35 [108, 9, 13, 16, 2, 97] (cli_start [109] 35 history_init ()) = Some (True, st) \<and> ed_holds (sh_ed st) (l, r) \<and>
     shows_text (prompt_text [109] 35 @ l @ r) (length (prompt_text [109] 35) + length l)
       (term_run (sh_out st) \<lparr>t_cell = blank_row, t_col = 0, t_state = Ground\<rparr>)"
proof -
  let ?cmds = "[\<lparr>cmd_name = [108, 115, 0], cmd_dispatch = \<lambda>args w. (0, [104, 105, 10], w), cmd_synopsis = None, cmd_brief = None\<rparr>] :: unit cli_cmd list"
  have c: "cmds_ok ?cmds"
    using ground_plain [of "[104, 105, 10]"] by (force simp: cmds_ok_def printable_def intro: exI [of _ "[108, 115]"])
  have p: "printable_text ([109] @ [35])" "\<forall>x \<in> set []. printable_text x" by (simp_all add: printable_text_def printable_def)
  have go: "map_option fst (cli_loop ?cmds [109] 35 [108, 9, 13, 16, 2, 97] (cli_start [109] 35 history_init ())) = Some True" by code_simp
  from cli_shows_line [OF c p(1) history_init_list p(2), of "\<lparr>t_cell = blank_row, t_col = 0, t_state = Ground\<rparr>" "[108, 9, 13, 16, 2, 97]" "()"]
  obtain b st where "cli_loop ?cmds [109] 35 [108, 9, 13, 16, 2, 97] (cli_start [109] 35 history_init ()) = Some (b, st)"
    "b \<longrightarrow> (\<exists>l r. ed_holds (sh_ed st) (l, r) \<and> shows_text (prompt_text [109] 35 @ l @ r) (length (prompt_text [109] 35) + length l)
       (term_run (sh_out st) \<lparr>t_cell = blank_row, t_col = 0, t_state = Ground\<rparr>))" by auto
  then show ?thesis using go by (metis fst_conv option.simps(9) option.inject)
qed

end
