(* ===== verification/Spec2Isabelle.thy ===== *)
theory Spec2Isabelle
  imports Crc Heap_Refine Cstring Hdlc Timer Datetime Base64 Pbuf Stdio Vllp Sched_System Tcp_Stream Cli_Screen
begin

text \<open>
  A verification development for \<^bold>\<open>mios\<close>, an operating system for microcontrollers written in C.
  It models parts of the repository that carry its own logic and that drivers, protocols and
  applications stand on. Paths below are relative to the source tree.

  \<^bold>\<open>Parts and theories\<close>

  \<^item> \<open>Mios_Prelude\<close>: names of machine integers, byte buffers in which a read or write outside is a
    failure, little-endian words, and the lemmas the other theories share.
  \<^item> \<open>Crc\<close>: \<^verbatim>\<open>src/util/crc4.c\<close>, \<^verbatim>\<open>crc8.c\<close>, \<^verbatim>\<open>crc16.c\<close>, \<^verbatim>\<open>crc32.c\<close>. The table loops equal bit-serial
    shift registers; what the receive test of a frame accepts and which changes it detects.
  \<^item> \<open>Heap_Simple\<close>, \<open>Heap_Refine\<close>: \<^verbatim>\<open>src/lib/libc/heap_simple.c\<close>. The first theory is the code over a
    store of block headers at 32-bit addresses; the second states first fit with splitting and
    coalescing on a list of blocks and shows that the pointer code implements it, that clients
    which follow the rules never make it panic, and what misuse does.
  \<^item> \<open>Cstring\<close>: \<^verbatim>\<open>src/lib/libc/string.c\<close> and \<^verbatim>\<open>libc.c\<close>, over buffers with C strings in them.
  \<^item> \<open>Hdlc\<close>: \<^verbatim>\<open>src/util/hdlc.c\<close>. Reader and writers of frames; streams of messages round trip, and a reader
    with its own buffer delivers whole frames with a valid checksum only.
  \<^item> \<open>Timer\<close>: \<^verbatim>\<open>src/kernel/timer.c\<close>. Sorted timer lists; dispatch fires what is due, in order.
  \<^item> \<open>Datetime\<close>: \<^verbatim>\<open>src/util/datetime.c\<close>. The date formula equals counting days in the calendar.
  \<^item> \<open>Base64\<close>: \<^verbatim>\<open>src/util/base64.c\<close>. The encoder against a decoder written from RFC 4648, not from its table.
  \<^item> \<open>Pbuf\<close>: \<^verbatim>\<open>src/net/pbuf.c\<close>, \<^verbatim>\<open>pbuf.h\<close>. Pools and packets made of fragments; reading, dropping, pulling
    up and writing act on the byte string of a packet and neither lose nor share a buffer.
  \<^item> \<open>Stdio\<close>: \<^verbatim>\<open>src/lib/libc/stdio.c\<close>. The formatter, integers and doubles included, and the writers on
    top of it; bounds of \<^verbatim>\<open>vsnprintf\<close>, numbers that read back, floats whose loops end.
  \<^item> \<open>Dsig\<close>: \<^verbatim>\<open>src/net/dsig.c\<close>. Numbered signals between local subscribers and interfaces. Callbacks may
    act on the layer while a signal is dispatched.
  \<^item> \<open>Vllp\<close>: \<^verbatim>\<open>src/net/vllp.c\<close>. The link protocol server on top of signals, packet buffers and crc32:
    connection, sequence bits, channels and their life, fragments and padding. A packet is taken once until
    one with the other sequence bit comes; the invariant of the channels holds in every reachable state.
  \<^item> \<open>Sched\<close>, \<open>Sched_System\<close>: \<^verbatim>\<open>src/kernel/task.c\<close>. The first is the code of the scheduler on one CPU: ready queues
    and the task switch, wait lists, sleeping, mutexes, condition variables, threads that start, exit
    and are joined. The second runs any number of threads, interrupts and timers in any order, as an
    inductive step relation, and shows by an invariant that no check fails, that mutexes exclude
    and that no wakeup is lost. Its steps leave out \<^verbatim>\<open>poll\<close> and \<^verbatim>\<open>thread_get_next\<close>, whose reference to a thread that
    exits makes a check fail.
  \<^item> \<open>Ipv4\<close>: \<^verbatim>\<open>src/net/ipv4/ipv4.c\<close>, \<^verbatim>\<open>udp.c\<close>. Checksums, routes, ICMP echo, the input path, UDP.
  \<^item> \<open>Tcp\<close>, \<open>Tcp_Send\<close>, \<open>Tcp_Conn\<close>, \<open>Tcp_Stream\<close>: \<^verbatim>\<open>src/net/ipv4/tcp.c\<close>. \<open>Tcp\<close> is the code. \<open>Tcp_Send\<close> is about the ring
    buffers and what a segment that goes out contains, \<open>Tcp_Conn\<close> about the invariant of a connection
    that input, the network task and the timers keep. \<open>Tcp_Stream\<close> puts two hosts on a network that
    loses, repeats and reorders packets and shows that each application reads a prefix of what
    the other wrote, as long as no data follow a FIN; it also has the two ways a connection opens, down to the segments
    that are sent, and the end of the loop that sends.
  \<^item> \<open>Cli_Edit\<close>: \<^verbatim>\<open>src/shell/cli_edit.c\<close>. The line editor: its keys, escape sequences included, are edits of
    a text with a cursor.
  \<^item> \<open>Cli\<close>, \<open>Cli_Screen\<close>: \<^verbatim>\<open>src/shell/cli.c\<close>, \<^verbatim>\<open>history.c\<close>. \<open>Cli\<close> is the code - tokens, the dispatch of commands,
    completion, history and the main loop - and which command a line runs. \<open>Cli_Screen\<close> adds a terminal
    and shows that its row is the prompt and the line, whatever the user types.

  \<^bold>\<open>How they interact\<close>

  Frames of \<open>Hdlc\<close> and messages of \<open>Vllp\<close> end in the checksum of \<open>Crc\<close>. \<open>Dsig\<close> and \<open>Vllp\<close> pass packets of
  \<open>Pbuf\<close> around, and \<open>Vllp\<close> queues its packets in \<open>Dsig\<close>. \<open>Heap_Simple\<close> and \<open>Timer\<close> use the sorted insertion
  of \<^verbatim>\<open>include/sys/queue.h\<close>, \<open>Cstring\<close> duplicates strings on the heap of \<open>Heap_Simple\<close>, and numbers
  printed by \<open>Stdio\<close> are read back by \<open>Cstring\<close>. The loop of \<open>Cli\<close> acts on the events of \<open>Cli_Edit\<close>. \<open>Tcp\<close> sends through the routes and checksums of \<open>Ipv4\<close>; the
  applications reach it by raising the signals of its network task. A packet is a list of fragments
  there, with the operations of \<open>Pbuf\<close> as functions on that list.

  \<^bold>\<open>Conventions\<close>

  Integers keep their width as words, or are natural numbers where the code cannot overflow or
  where the reduction is written out. State is passed explicitly; the result \<^const>\<open>None\<close> is an
  assertion, a panic, an access outside a buffer, or a loop that does not end. Each text before a
  theory says what else it stands for there. Structures that C links by pointers are lists where
  the links are private to the code, and a store of addressed blocks in the heap, where the layout
  is the point. Outside the theory of the scheduler, interrupt masks and mutexes are left out: an operation
  is one step. Callbacks, services and the linker's symbols are parameters. In \<open>Ipv4\<close> and \<open>Tcp\<close> what the
  rest of the system answers (random numbers, allocations, buffers, results of output functions) is
  part of the state, as lists that are used up, so that a statement for all states is one for
  all answers.

  Loops are recursive functions with a termination proof. The exceptions are partial functions in
  the option type for loops that can run forever: \<open>timer_dispatch\<close> (a callback may rearm its timer
  for now), \<open>pbuf_trim\<close> and \<open>pbuf_write\<close> (they hang on some arguments, as the code does), the scaling of
  floats, \<open>tcp_fill\<close> and \<open>tcp_emit_loop\<close> (they end for rings and windows that are consistent),
  \<open>tcp_parse_options\<close> (it hangs on an option of length 0), and the walks over the blocks of a heap, whose links a corrupt store may tie into a
  ring; where a property says such a loop ends, the statement is that
  the result is \<^const>\<open>Some\<close>. The one use of fuel
  is \<open>dsig_send_cb\<close>, bounded by the number of packets queued.

  \<^bold>\<open>Not modelled\<close>

  Drivers, CPU and platform ports are register level input and output and assembly. Vendored code
  (\<^verbatim>\<open>http_parser\<close>, \<^verbatim>\<open>micro-ecc\<close>, \<^verbatim>\<open>cJSON\<close>, \<^verbatim>\<open>stb_image\<close>, and the empty submodules littlefs and libfixmath) and host
  tools are outside. Not modelled so far: the clients of IPv4 (DHCP, mDNS,
  NTP), the remaining utilities, mbus, Bluetooth, the single commands of the shell. Printers of status commands are left out everywhere.
\<close>

end
